(* ===== verification/Prelude.thy ===== *)
theory Prelude
  imports Main "HOL-Library.Word" "HOL-Library.Monad_Syntax"
begin

text \<open>
  The prelude of the development: machine integers, error codes, the \<open>assert\<close> macro,
  the rounding macros of \<^verbatim>\<open>include/stdlib.h\<close> and the generic facts on lists, options and
  words that the components share.

  A kernel function that can stop the machine is a function into \<open>option\<close>: \<open>None\<close> is a
  failed \<open>assert\<close> (the macro \<open>BUG_ON\<close> of \<^verbatim>\<open>include/debug.h\<close>, which prints the call trace and
  executes \<open>hlt\<close>), an access outside an array, the use of a null pointer, or a loop that
  never returns.  A theorem that such a function equals \<open>Some r\<close> therefore says that it
  returns, and that no assertion of it fires.  An error that the code reports to its caller
  (a negative error code, a \<open>NULL\<close> result) is a value inside the \<open>Some\<close>.
\<close>

unbundle bit_operations_syntax

section \<open>Machine integers and error codes\<close>

type_synonym u8 = "8 word"
type_synonym u16 = "16 word"
type_synonym u32 = "32 word"
type_synonym u64 = "64 word"

definition ENOENT :: int where "ENOENT = 2"
definition ENOMEM :: int where "ENOMEM = 12"
definition ENODEV :: int where "ENODEV = 19"
definition EINVAL :: int where "EINVAL = 22"
definition ENOSPC :: int where "ENOSPC = 28"

named_theorems errno_defs \<open>the values of the error codes\<close>

lemmas [errno_defs] = ENOENT_def ENOMEM_def ENODEV_def EINVAL_def ENOSPC_def

lemma unat_lt_u32: "unat (x :: u32) < 2 ^ 32"
  using unsigned_less [of x] by simp

lemma unat_of_nat_u32: "n < 2 ^ 32 \<Longrightarrow> unat (of_nat n :: u32) = n"
  by (simp add: unat_of_nat)

lemma unat_power2_u32:
  assumes "k < 32"
  shows "unat (2 ^ k :: u32) = 2 ^ k"
proof -
  have "(2::nat) ^ k < 2 ^ 32" using assms by (rule power_strict_increasing) simp
  then show ?thesis using unat_of_nat_u32 [of "2 ^ k"] by simp
qed

lemma unat_and_mask: "unat ((x :: u32) AND (2 ^ k - 1)) = unat x mod 2 ^ k"
proof -
  have "x AND (2 ^ k - 1) = take_bit k x" by (simp add: take_bit_eq_mask mask_eq_exp_minus_1)
  then show ?thesis by (simp add: unsigned_take_bit_eq flip: take_bit_eq_mod)
qed

text \<open>32-bit arithmetic on quantities that are kept as natural numbers.\<close>

definition wrap32 :: "nat \<Rightarrow> nat" where
  "wrap32 n = n mod 2 ^ 32"

lemma wrap32_id [simp]: "n < 4294967296 \<Longrightarrow> wrap32 n = n"
  by (simp add: wrap32_def)

lemma wrap32_diff: "b \<le> a \<Longrightarrow> a < 4294967296 \<Longrightarrow> wrap32 (a + (4294967296 - b)) = a - b"
  by (simp add: wrap32_def le_mod_geq)

section \<open>Assertions\<close>

definition assert :: "bool \<Rightarrow> unit option" where
  "assert b = (if b then Some () else None)"

lemma assert_simps [simp]:
  "assert True = Some ()" "assert False = None"
  by (simp_all add: assert_def)

lemma assert_eq_Some [simp]: "assert b = Some u \<longleftrightarrow> b"
  by (simp add: assert_def)

lemma assert_bind_eq_Some [simp]:
  "(assert b \<bind> f = Some r) \<longleftrightarrow> b \<and> f () = Some r"
  by (cases b) auto

section \<open>The rounding macros of stdlib.h\<close>

definition round_down :: "u32 \<Rightarrow> u32 \<Rightarrow> u32" where
  "round_down a n = a - a mod n"

definition round_up :: "u32 \<Rightarrow> u32 \<Rightarrow> u32" where
  "round_up a n = round_down (a + n - 1) n"

lemma unat_round_down: "unat (round_down a n) = unat a - unat a mod unat n"
proof -
  have "unat (a mod n) \<le> unat a" by (simp add: unat_mod)
  then show ?thesis
    by (simp add: round_down_def unat_mod unat_sub word_le_nat_alt)
qed

lemma unat_round_up:
  assumes "0 < n" and "unat a + unat n - 1 < 2 ^ 32"
  shows "unat (round_up a n) = (unat a + unat n - 1) div unat n * unat n"
proof -
  from assms(1) have n: "1 \<le> unat n" by (simp add: word_less_nat_alt)
  then have n0: "n \<noteq> 0" by auto
  have m: "unat (n - 1) = unat n - 1" using n0 by (rule unat_minus_one)
  have "unat (a + (n - 1)) = unat a + unat (n - 1)"
    by (rule unat_add_lem [THEN iffD1]) (use assms(2) n m in simp)
  then have "unat (a + n - 1) = unat a + unat n - 1"
    using n m by (simp add: add_diff_eq)
  then show ?thesis
    by (simp add: round_up_def unat_round_down minus_mod_eq_div_mult)
qed

end
