(* ===== verification/Math_Lib.thy ===== *)
theory Math_Lib
  imports Prelude
begin

text \<open>
  The integer functions of \<^verbatim>\<open>include/math.h\<close> and \<^verbatim>\<open>libs/math.c\<close> and the 64-by-32 bit division
  macro \<open>do_div\<close> of \<^verbatim>\<open>include/x86.h\<close>.  A signed overflow is undefined in C and is \<open>None\<close>.
\<close>

section \<open>pow and log2n\<close>

definition in_int :: "int \<Rightarrow> bool" where
  "in_int v \<longleftrightarrow> - (2 ^ 31) \<le> v \<and> v < 2 ^ 31"

fun pow_loop :: "int \<Rightarrow> nat \<Rightarrow> int \<Rightarrow> int option" where
  "pow_loop x 0 ret = Some ret"
| "pow_loop x (Suc k) ret = do { assert (in_int (ret * x)); pow_loop x k (ret * x) }"

definition pow :: "int \<Rightarrow> int \<Rightarrow> int option" where
  "pow x e = pow_loop x (nat e) 1"

text \<open>
  \<open>log2n\<close>: the \<open>int\<close> variable \<open>size_i\<close> is compared with a \<open>size_t\<close> and is therefore read as
  unsigned; the compiler's left shift drops the top bit.
\<close>

partial_function (option) log2n_loop :: "u32 \<Rightarrow> int \<Rightarrow> u32 \<Rightarrow> int option" where
  "log2n_loop n i size_i =
     (if size_i \<le> n then log2n_loop n (i + 1) (push_bit 1 size_i) else Some i)"

definition log2n :: "u32 \<Rightarrow> int option" where
  "log2n n = do { i \<leftarrow> log2n_loop n 0 1; Some (i - 1) }"

section \<open>do_div, rand and srand\<close>

text \<open>The instruction \<open>divl\<close>: it traps on a zero divisor and on a quotient over 32 bits.\<close>

definition divl :: "u32 \<Rightarrow> u32 \<Rightarrow> u32 \<Rightarrow> (u32 \<times> u32) option" where
  "divl upper low base =
     (let d = unat upper * 2 ^ 32 + unat low in
      if base = 0 \<or> 2 ^ 32 \<le> d div unat base then None
      else Some (of_nat (d div unat base), of_nat (d mod unat base)))"

definition do_div :: "u64 \<Rightarrow> u32 \<Rightarrow> (u64 \<times> u32) option" where
  "do_div n base =
     (let low = (ucast n :: u32); high = (ucast (drop_bit 32 n) :: u32); upper = high in
      do {
        (upper, high) \<leftarrow>
          (if high \<noteq> 0
           then do { assert (base \<noteq> 0); Some (high mod base, high div base) }
           else Some (upper, high));
        (low, md) \<leftarrow> divl upper low base;
        Some (push_bit 32 (ucast high) OR ucast low, md)
      })"

definition RAND_MAX :: u32 where "RAND_MAX = 0x7fff"

definition rand :: "u64 \<Rightarrow> (u32 \<times> u64) option" where
  "rand next =
     (let next = (next * 0x5DEECE66D + 0xB) AND (push_bit 48 1 - 1);
          result = drop_bit 12 next
      in do { (_, md) \<leftarrow> do_div result (RAND_MAX + 1); Some (md, next) })"

definition srand :: "u32 \<Rightarrow> u64" where
  "srand seed = ucast seed"

section \<open>Lemmas\<close>

lemma pow_loop_power:
  "(\<forall>j \<le> k. in_int (ret * x ^ j)) \<Longrightarrow> pow_loop x k ret = Some (ret * x ^ k)"
proof (induction k arbitrary: ret)
  case 0
  then show ?case by simp
next
  case (Suc k)
  have "in_int (ret * x)" using Suc.prems by (elim allE [of _ 1]) simp
  moreover have "pow_loop x k (ret * x) = Some (ret * x * x ^ k)"
  proof (rule Suc.IH, intro allI impI)
    fix j assume "j \<le> k"
    then have "in_int (ret * x ^ Suc j)" using Suc.prems by (elim allE [of _ "Suc j"]) simp
    then show "in_int (ret * x * x ^ j)" by (simp add: mult.assoc)
  qed
  ultimately show ?case by (simp add: mult.assoc)
qed

lemma unat_double: "unat s < 2 ^ 31 \<Longrightarrow> unat (push_bit 1 s :: u32) = 2 * unat s"
  by (simp add: push_bit_eq_mult unat_word_ariths)

lemma log2n_loop_ends:
  assumes "unat n < 2 ^ 31" "0 < unat s" "unat n div unat s < 2 ^ m"
  shows "\<exists>k. log2n_loop n i s = Some (i + int k) \<and> unat n < 2 ^ k * unat s \<and>
    (k = 0 \<or> 2 ^ k * unat s \<le> 2 * unat n)"
  using assms
proof (induction m arbitrary: i s)
  case 0
  then have "\<not> s \<le> n" by (simp add: word_le_nat_alt div_eq_0_iff)
  then show ?case
    by (subst log2n_loop.simps) (auto simp: word_le_nat_alt intro!: exI [of _ 0])
next
  case (Suc m)
  show ?case
  proof (cases "s \<le> n")
    case False
    then show ?thesis
      by (subst log2n_loop.simps) (auto simp: word_le_nat_alt intro!: exI [of _ 0])
  next
    case True
    then have le: "unat s \<le> unat n" by (simp add: word_le_nat_alt)
    then have d: "unat (push_bit 1 s :: u32) = 2 * unat s"
      using Suc.prems by (intro unat_double) simp
    have "unat n div (2 * unat s) < 2 ^ m"
      using Suc.prems(3) by (simp add: div_mult2_eq mult.commute [of 2])
    then have "\<exists>k. log2n_loop n (i + 1) (push_bit 1 s) = Some (i + 1 + int k) \<and>
        unat n < 2 ^ k * unat (push_bit 1 s :: u32) \<and>
        (k = 0 \<or> 2 ^ k * unat (push_bit 1 s :: u32) \<le> 2 * unat n)"
      by (intro Suc.IH) (simp_all only: d Suc.prems(1,2) nat_0_less_mult_iff zero_less_numeral simp_thms)
    then obtain k where k: "log2n_loop n (i + 1) (push_bit 1 s) = Some (i + 1 + int k)"
      "unat n < 2 ^ k * (2 * unat s)" "k = 0 \<or> 2 ^ k * (2 * unat s) \<le> 2 * unat n"
      by (auto simp only: d)
    have "log2n_loop n i s = Some (i + int (Suc k))"
      using True k(1) by (subst log2n_loop.simps) (simp add: algebra_simps)
    moreover have "2 ^ Suc k * unat s \<le> 2 * unat n" using k(3) le by auto
    moreover have "unat n < 2 ^ Suc k * unat s" using k(2) by (simp add: algebra_simps)
    ultimately show ?thesis by blast
  qed
qed

text \<open>Once \<open>size_i\<close> has been shifted out to zero, the loop condition holds for ever.\<close>

lemma log2n_loop_diverges: "log2n_loop n i 0 = None"
proof (rule ccontr)
  assume "log2n_loop n i 0 \<noteq> None"
  then obtain r where r: "log2n_loop n i 0 = Some r" by blast
  have "(0::u32) \<noteq> 0"
  proof (rule log2n_loop.raw_induct [where P = "\<lambda>n i s r. s \<noteq> 0", OF _ r])
    fix f n i and s :: u32 and r
    assume IH: "\<And>n i s r. f n i s = Some r \<Longrightarrow> s \<noteq> 0"
      and eq: "(if s \<le> n then f n (i + 1) (push_bit 1 s) else Some i) = Some r"
    show "s \<noteq> 0"
    proof
      assume "s = 0"
      with eq have "f n (i + 1) 0 = Some r" by simp
      then show False using IH by blast
    qed
  qed
  then show False by simp
qed

lemma unat_ucast_64 [simp]: "unat (ucast (x :: u32) :: u64) = unat x"
  using unat_lt_u32 [of x] by (simp add: unsigned_ucast_eq take_bit_nat_eq_self)

lemma unat_join:
  "unat (push_bit 32 (ucast (h :: u32)) OR ucast (l :: u32) :: u64) = unat h * 2 ^ 32 + unat l"
proof -
  let ?a = "push_bit 32 (ucast h) :: u64" and ?b = "ucast l :: u64"
  have "?a OR ?b = ?a + ?b"
    by (rule disjunctive_add [symmetric]) (auto simp: bit_simps dest: bit_imp_le_length)
  moreover have "unat (?a + ?b) = unat h * 2 ^ 32 + unat l"
  proof -
    note h = unat_lt_u32 [of h] and l = unat_lt_u32 [of l]
    have a: "unat ?a = unat h * 2 ^ 32"
      using h by (simp add: push_bit_eq_mult unat_word_ariths)
    have "unat h * 2 ^ 32 + unat l < 2 ^ 64" using h l by simp
    then show ?thesis by (simp only: unat_word_ariths(1) a unat_ucast_64) simp
  qed
  ultimately show ?thesis by simp
qed

text \<open>Schoolbook division of a two-digit number, the digits in base \<open>w\<close>.\<close>

lemma div_two_digits:
  fixes h l b w :: nat
  assumes "0 < b"
  shows "(h * w + l) div b = h div b * w + (h mod b * w + l) div b"
    and "(h * w + l) mod b = (h mod b * w + l) mod b"
proof -
  have "h * w = (h div b * b + h mod b) * w" by (simp only: div_mult_mod_eq)
  also have "\<dots> = h div b * w * b + h mod b * w" by (simp only: algebra_simps)
  finally have e: "h * w + l = h div b * w * b + (h mod b * w + l)" by (simp only: add.assoc)
  have b: "b \<noteq> 0" using assms by simp
  show "(h * w + l) div b = h div b * w + (h mod b * w + l) div b"
    by (subst e) (rule div_mult_self3 [OF b])
  show "(h * w + l) mod b = (h mod b * w + l) mod b"
    by (subst e) (rule mod_mult_self3)
qed

lemma do_div_correct:
  assumes "base \<noteq> 0"
  shows "do_div n base = Some (n div ucast base, ucast (n mod ucast base))"
proof -
  define low :: u32 where "low = ucast n"
  define high :: u32 where "high = ucast (drop_bit 32 n)"
  let ?b = "unat base" and ?d = "unat (high mod base) * 2 ^ 32 + unat low"
  have b: "0 < ?b" using assms by (simp add: unat_gt_0)
  have n64: "unat n < 2 ^ 64" using unsigned_less [of n] by simp
  have l: "unat low = unat n mod 2 ^ 32"
    by (simp add: low_def unsigned_ucast_eq take_bit_eq_mod unsigned_take_bit_eq)
  have "unat (drop_bit 32 n) = unat n div 2 ^ 32"
    by (subst unat_drop_bit_eq) (rule drop_bit_eq_div)
  moreover have "unat n div 2 ^ 32 < 2 ^ 32" using n64 by (simp add: less_mult_imp_div_less)
  ultimately have h: "unat high = unat n div 2 ^ 32"
    by (simp add: high_def unsigned_ucast_eq take_bit_nat_eq_self)
  have N: "unat n = unat high * 2 ^ 32 + unat low" by (simp add: h l)
  have "unat (high mod base) < ?b" using b by (simp add: unat_mod)
  then have "?d < ?b * 2 ^ 32"
    using unat_lt_u32 [of low] by simp
  then have q: "?d div ?b < 2 ^ 32" using b by (simp add: less_mult_imp_div_less mult.commute)
  have dv: "divl (high mod base) low base = Some (of_nat (?d div ?b), of_nat (?d mod ?b))"
    using q assms by (simp add: divl_def Let_def not_le)
  have up: "(if high \<noteq> 0 then do { assert (base \<noteq> 0); Some (high mod base, high div base) }
      else Some (high, high)) = Some (high mod base, high div base)"
    using assms by simp
  have 1: "push_bit 32 (ucast (high div base)) OR ucast (of_nat (?d div ?b) :: u32) = n div ucast base"
  proof (rule unsigned_word_eqI [where 'a = nat])
    have "unat (of_nat (?d div ?b) :: u32) = ?d div ?b" using q by (rule unat_of_nat_u32)
    then show "unat (push_bit 32 (ucast (high div base)) OR ucast (of_nat (?d div ?b) :: u32) :: u64) =
      unat (n div ucast base)"
      using div_two_digits(1) [OF b, of "unat high" "2 ^ 32" "unat low"]
      by (subst unat_join) (simp add: unat_div unat_mod N)
  qed
  have 2: "of_nat (?d mod ?b) = (ucast (n mod ucast base) :: u32)"
  proof -
    have "unat (n mod ucast base) = ?d mod ?b"
      using div_two_digits(2) [OF b, of "unat high" "2 ^ 32" "unat low"]
      by (simp add: unat_mod N)
    then show ?thesis by (metis of_nat_unat)
  qed
  show ?thesis using 1 2
    by (simp add: do_div_def Let_def low_def [symmetric] high_def [symmetric] up dv)
qed

lemma do_div_spec:
  assumes "base \<noteq> 0"
  shows "\<exists>q r. do_div n base = Some (q, r) \<and> unat q = unat n div unat base \<and>
    unat r = unat n mod unat base"
proof (intro exI conjI)
  show "do_div n base = Some (n div ucast base, ucast (n mod ucast base))"
    using assms by (rule do_div_correct)
  show "unat (n div ucast base) = unat n div unat base" by (simp add: unat_div)
  have "unat n mod unat base < 2 ^ 32"
    using assms unat_lt_u32 [of base] by (meson mod_less_divisor order_less_trans unat_gt_0)
  then show "unat (ucast (n mod ucast base) :: u32) = unat n mod unat base"
    by (simp add: unsigned_ucast_eq unat_mod take_bit_nat_eq_self)
qed

lemma rand_range:
  "\<exists>md next'. rand next = Some (md, next') \<and> unat md \<le> unat RAND_MAX"
proof -
  let ?n = "drop_bit 12 ((next * 0x5DEECE66D + 0xB) AND (push_bit 48 1 - 1)) :: u64"
  obtain q r where qr: "do_div ?n (RAND_MAX + 1) = Some (q, r)"
    and r: "unat r = unat ?n mod unat (RAND_MAX + 1)"
    using do_div_spec [of "RAND_MAX + 1" ?n] by (auto simp: RAND_MAX_def)
  from r have "unat r \<le> unat RAND_MAX" by (simp add: RAND_MAX_def)
  with qr show ?thesis by (simp add: rand_def Let_def)
qed

end
