(* ===== verification/Mem_Strings.thy ===== *)
theory Mem_Strings
  imports Prelude
begin

text \<open>
  The functions of \<^verbatim>\<open>libs/string.c\<close> that work on raw memory: \<open>memset\<close>, \<open>memmove\<close>, \<open>memcpy\<close>,
  \<open>memcmp\<close> and the functions on zero-terminated strings.  Memory is a function from 32-bit
  addresses to bytes; pointer arithmetic wraps.  Overlap of source and destination is visible: every
  read sees the writes made before it.  A loop that never meets a terminating zero does not return.

  \<open>mseg m a n\<close> are the \<open>n\<close> bytes at \<open>a\<close>; \<open>cstr m a xs\<close> says that the string at \<open>a\<close> is \<open>xs\<close>.
\<close>

type_synonym mem = "u32 \<Rightarrow> u8"

section \<open>Blocks of memory\<close>

fun memset_loop :: "mem \<Rightarrow> u32 \<Rightarrow> u8 \<Rightarrow> nat \<Rightarrow> mem" where
  "memset_loop m p c 0 = m"
| "memset_loop m p c (Suc n) = memset_loop (m(p := c)) (p + 1) c n"

definition memset :: "mem \<Rightarrow> u32 \<Rightarrow> u8 \<Rightarrow> nat \<Rightarrow> mem" where
  "memset m s c n = memset_loop m s c n"

fun copy_up :: "mem \<Rightarrow> u32 \<Rightarrow> u32 \<Rightarrow> nat \<Rightarrow> mem" where
  "copy_up m d s 0 = m"
| "copy_up m d s (Suc n) = copy_up (m(d := m s)) (d + 1) (s + 1) n"

fun copy_down :: "mem \<Rightarrow> u32 \<Rightarrow> u32 \<Rightarrow> nat \<Rightarrow> mem" where
  "copy_down m d s 0 = m"
| "copy_down m d s (Suc n) = copy_down (m(d - 1 := m (s - 1))) (d - 1) (s - 1) n"

definition memmove :: "mem \<Rightarrow> u32 \<Rightarrow> u32 \<Rightarrow> nat \<Rightarrow> mem" where
  "memmove m dst src n =
     (let s = src; d = dst in
      if s < d \<and> s + of_nat n > d then copy_down m (d + of_nat n) (s + of_nat n) n
      else copy_up m d s n)"

definition memcpy :: "mem \<Rightarrow> u32 \<Rightarrow> u32 \<Rightarrow> nat \<Rightarrow> mem" where
  "memcpy m dst src n = copy_up m dst src n"

fun memcmp :: "mem \<Rightarrow> u32 \<Rightarrow> u32 \<Rightarrow> nat \<Rightarrow> int" where
  "memcmp m s1 s2 0 = 0"
| "memcmp m s1 s2 (Suc n) =
     (if m s1 \<noteq> m s2 then uint (m s1) - uint (m s2) else memcmp m (s1 + 1) (s2 + 1) n)"

section \<open>Zero-terminated strings\<close>

partial_function (option) strlen_loop :: "mem \<Rightarrow> u32 \<Rightarrow> u32 \<Rightarrow> u32 option" where
  "strlen_loop m s cnt = (if m s \<noteq> 0 then strlen_loop m (s + 1) (cnt + 1) else Some cnt)"

definition strlen :: "mem \<Rightarrow> u32 \<Rightarrow> u32 option" where
  "strlen m s = strlen_loop m s 0"

partial_function (option) strnlen_loop :: "mem \<Rightarrow> u32 \<Rightarrow> u32 \<Rightarrow> u32 \<Rightarrow> u32 option" where
  "strnlen_loop m s len cnt =
     (if cnt < len \<and> m s \<noteq> 0 then strnlen_loop m (s + 1) len (cnt + 1) else Some cnt)"

definition strnlen :: "mem \<Rightarrow> u32 \<Rightarrow> u32 \<Rightarrow> u32 option" where
  "strnlen m s len = strnlen_loop m s len 0"

partial_function (option) strcpy :: "mem \<Rightarrow> u32 \<Rightarrow> u32 \<Rightarrow> mem option" where
  "strcpy m p src =
     (let c = m src; m = m(p := c) in if c \<noteq> 0 then strcpy m (p + 1) (src + 1) else Some m)"

fun strncpy :: "mem \<Rightarrow> u32 \<Rightarrow> u32 \<Rightarrow> nat \<Rightarrow> mem" where
  "strncpy m p src 0 = m"
| "strncpy m p src (Suc len) =
     (let c = m src; m = m(p := c) in strncpy m (p + 1) (if c \<noteq> 0 then src + 1 else src) len)"

partial_function (option) strcmp :: "mem \<Rightarrow> u32 \<Rightarrow> u32 \<Rightarrow> int option" where
  "strcmp m s1 s2 =
     (if m s1 \<noteq> 0 \<and> m s1 = m s2 then strcmp m (s1 + 1) (s2 + 1)
      else Some (uint (m s1) - uint (m s2)))"

fun strncmp :: "mem \<Rightarrow> u32 \<Rightarrow> u32 \<Rightarrow> nat \<Rightarrow> int" where
  "strncmp m s1 s2 0 = 0"
| "strncmp m s1 s2 (Suc n) =
     (if m s1 \<noteq> 0 \<and> m s1 = m s2 then strncmp m (s1 + 1) (s2 + 1) n
      else uint (m s1) - uint (m s2))"

text \<open>The null pointer of \<open>strchr\<close> is the address 0.\<close>

partial_function (option) strchr :: "mem \<Rightarrow> u32 \<Rightarrow> u8 \<Rightarrow> u32 option" where
  "strchr m s c =
     (if m s \<noteq> 0 then if m s = c then Some s else strchr m (s + 1) c else Some 0)"

partial_function (option) strfind :: "mem \<Rightarrow> u32 \<Rightarrow> u8 \<Rightarrow> u32 option" where
  "strfind m s c =
     (if m s \<noteq> 0 then if m s = c then Some s else strfind m (s + 1) c else Some s)"

declare strlen_loop.simps [code] strnlen_loop.simps [code] strcpy.simps [code] strcmp.simps [code]
  strchr.simps [code] strfind.simps [code]

section \<open>Copying\<close>

definition mseg :: "mem \<Rightarrow> u32 \<Rightarrow> nat \<Rightarrow> u8 list" where
  "mseg m a n = map (\<lambda>i. m (a + of_nat i)) [0 ..< n]"

definition addrs :: "u32 \<Rightarrow> nat \<Rightarrow> u32 set" where
  "addrs a n = (\<lambda>i. a + of_nat i) ` {..< n}"

lemma mseg_eqI: "(\<And>i. i < n \<Longrightarrow> m (a + of_nat i) = m' (b + of_nat i)) \<Longrightarrow> mseg m a n = mseg m' b n"
  by (simp add: mseg_def)

lemma addr_inj:
  assumes "i < 2 ^ 32" "j < 2 ^ 32"
  shows "(a :: u32) + of_nat i = a + of_nat j \<longleftrightarrow> i = j"
proof -
  have "a + of_nat i = a + of_nat j \<longleftrightarrow> (of_nat i :: u32) = of_nat j" by (rule add_left_cancel)
  then show ?thesis using unat_of_nat_u32 [OF assms(1)] unat_of_nat_u32 [OF assms(2)] by metis
qed

lemma addr_unat:
  "unat (a :: u32) + i < 2 ^ 32 \<Longrightarrow> unat (a + of_nat i) = unat a + i"
  using unat_add_lem [of a "of_nat i"] unat_of_nat_u32 [of i] by simp

lemma memset_loop_apply:
  "n \<le> 2 ^ 32 \<Longrightarrow> memset_loop m p c n x = (if x \<in> addrs p n then c else m x)"
proof (induction n arbitrary: m p)
  case 0
  then show ?case by (simp add: addrs_def)
next
  case (Suc n)
  have "addrs p (Suc n) = insert p (addrs (p + 1) n)"
    by (auto simp: addrs_def lessThan_Suc_eq_insert_0 image_image add_ac)
  then show ?case using Suc by auto
qed

text \<open>Copying upwards is right if no byte is overwritten before it is read.\<close>

lemma copy_up_apply:
  assumes "n \<le> 2 ^ 32" "\<And>i j. i < j \<Longrightarrow> j < n \<Longrightarrow> d + of_nat i \<noteq> s + of_nat j"
  shows "(\<forall>i < n. copy_up m d s n (d + of_nat i) = m (s + of_nat i)) \<and>
    (\<forall>x. x \<notin> addrs d n \<longrightarrow> copy_up m d s n x = m x)"
  using assms
proof (induction n arbitrary: m d s)
  case 0
  then show ?case by simp
next
  case (Suc n)
  define m1 where "m1 = m(d := m s)"
  have m1: "m1 x = (if x = d then m s else m x)" for x by (simp add: m1_def)
  have step: "copy_up m d s (Suc n) = copy_up m1 (d + 1) (s + 1) n" by (simp add: m1_def)
  have nd: "d + 1 + of_nat i \<noteq> s + 1 + of_nat j" if "i < j" "j < n" for i j
    using Suc.prems(2) [of "Suc i" "Suc j"] that by (simp add: add_ac)
  have "n \<le> 2 ^ 32" using Suc.prems(1) by simp
  note IH = conjunct1 [OF Suc.IH [OF this nd, of m1]] conjunct2 [OF Suc.IH [OF this nd, of m1]]
  have ad: "addrs d (Suc n) = insert d (addrs (d + 1) n)"
    by (auto simp: addrs_def lessThan_Suc_eq_insert_0 image_image add_ac)
  have d: "d \<notin> addrs (d + 1) n"
    using Suc.prems(1) addr_inj [of 0 "Suc _" d] by (auto simp: addrs_def add_ac)
  show ?case
  proof (intro conjI allI impI)
    fix i assume i: "i < Suc n"
    show "copy_up m d s (Suc n) (d + of_nat i) = m (s + of_nat i)"
    proof (cases i)
      case 0
      then show ?thesis unfolding step using IH(2) d m1 [of d] by simp
    next
      case (Suc j)
      then have "copy_up m d s (Suc n) (d + of_nat i) = m1 (s + of_nat i)"
        unfolding step using IH(1) [rule_format, of j] i by (simp add: add_ac)
      also have "\<dots> = m (s + of_nat i)" using Suc.prems(2) [of 0 i] Suc i m1 [of "s + of_nat i"] by auto
      finally show ?thesis .
    qed
  next
    fix x assume "x \<notin> addrs d (Suc n)"
    then show "copy_up m d s (Suc n) x = m x" unfolding step using IH(2) ad m1 [of x] by simp
  qed
qed

lemma copy_down_apply:
  assumes "n \<le> 2 ^ 32" "\<And>i j. j < i \<Longrightarrow> i < n \<Longrightarrow> d + of_nat i \<noteq> s + of_nat j"
  shows "(\<forall>i < n. copy_down m (d + of_nat n) (s + of_nat n) n (d + of_nat i) = m (s + of_nat i)) \<and>
    (\<forall>x. x \<notin> addrs d n \<longrightarrow> copy_down m (d + of_nat n) (s + of_nat n) n x = m x)"
  using assms
proof (induction n arbitrary: m)
  case 0
  then show ?case by simp
next
  case (Suc n)
  define m1 where "m1 = m(d + of_nat n := m (s + of_nat n))"
  have m1: "m1 x = (if x = d + of_nat n then m (s + of_nat n) else m x)" for x by (simp add: m1_def)
  have step: "copy_down m (d + of_nat (Suc n)) (s + of_nat (Suc n)) (Suc n) =
      copy_down m1 (d + of_nat n) (s + of_nat n) n" by (simp add: m1_def)
  have nd: "d + of_nat i \<noteq> s + of_nat j" if "j < i" "i < n" for i j
    using Suc.prems(2) [of j i] that by simp
  have "n \<le> 2 ^ 32" using Suc.prems(1) by simp
  note IH = conjunct1 [OF Suc.IH [OF this nd, of m1]] conjunct2 [OF Suc.IH [OF this nd, of m1]]
  have ad: "addrs d (Suc n) = insert (d + of_nat n) (addrs d n)" by (auto simp: addrs_def less_Suc_eq)
  have d: "d + of_nat n \<notin> addrs d n"
    using Suc.prems(1) addr_inj [of n _ d] by (auto simp: addrs_def)
  show ?case
    unfolding step
  proof (intro conjI allI impI)
    fix i assume i: "i < Suc n"
    show "copy_down m1 (d + of_nat n) (s + of_nat n) n (d + of_nat i) = m (s + of_nat i)"
    proof (cases "i = n")
      case True
      then show ?thesis using IH(2) d m1 [of "d + of_nat n"] by simp
    next
      case False
      then have "m1 (s + of_nat i) = m (s + of_nat i)"
        using Suc.prems(2) [of i n] i m1 [of "s + of_nat i"] by auto
      then show ?thesis using IH(1) False i by simp
    qed
  next
    fix x assume "x \<notin> addrs d (Suc n)"
    then show "copy_down m1 (d + of_nat n) (s + of_nat n) n x = m x" using IH(2) ad m1 [of x] by simp
  qed
qed

lemma memmove_apply:
  assumes "unat src + n < 2 ^ 32" "unat dst + n < 2 ^ 32"
  shows "(\<forall>i < n. memmove m dst src n (dst + of_nat i) = m (src + of_nat i)) \<and>
    (\<forall>x. x \<notin> addrs dst n \<longrightarrow> memmove m dst src n x = m x)"
proof -
  have n: "n \<le> 2 ^ 32" using assms by simp
  have u: "unat (src + of_nat i) = unat src + i" "unat (dst + of_nat i) = unat dst + i" if "i \<le> n" for i
    using that assms by (auto intro!: addr_unat)
  show ?thesis
  proof (cases "src < dst \<and> src + of_nat n > dst")
    case True
    then have lt: "unat src < unat dst" by (simp add: word_less_nat_alt)
    have "dst + of_nat i \<noteq> src + of_nat j" if "j < i" "i < n" for i j
    proof
      assume "dst + of_nat i = src + of_nat j"
      then have "unat dst + i = unat src + j" using u(1) [of j] u(2) [of i] that by simp
      then show False using lt that by linarith
    qed
    from copy_down_apply [OF n this] True show ?thesis by (simp add: memmove_def)
  next
    case False
    then have c: "unat dst \<le> unat src \<or> unat src + n \<le> unat dst"
      using u [of n] by (auto simp: word_less_nat_alt)
    have "dst + of_nat i \<noteq> src + of_nat j" if "i < j" "j < n" for i j
    proof
      assume "dst + of_nat i = src + of_nat j"
      then have "unat dst + i = unat src + j" using u(1) [of j] u(2) [of i] that by simp
      then show False using c that by linarith
    qed
    note up = copy_up_apply [OF n this]
    have "memmove m dst src n = copy_up m dst src n" using False by (auto simp: memmove_def)
    then show ?thesis using up by simp
  qed
qed

section \<open>Strings\<close>

fun cstr :: "mem \<Rightarrow> u32 \<Rightarrow> u8 list \<Rightarrow> bool" where
  "cstr m a [] \<longleftrightarrow> m a = 0"
| "cstr m a (x # xs) \<longleftrightarrow> m a = x \<and> x \<noteq> 0 \<and> cstr m (a + 1) xs"

lemma strlen_loop_cstr: "cstr m a xs \<Longrightarrow> strlen_loop m a cnt = Some (cnt + of_nat (length xs))"
  by (induction xs arbitrary: a cnt) (subst strlen_loop.simps, simp add: add_ac)+

lemma strcmp_cstr:
  "cstr m a xs \<Longrightarrow> cstr m b ys \<Longrightarrow> \<exists>r. strcmp m a b = Some r \<and> (r = 0 \<longleftrightarrow> xs = ys) \<and>
     (r < 0 \<longleftrightarrow> ord_class.lexordp xs ys)"
proof (induction xs arbitrary: a b ys)
  case Nil
  then show ?case
    by (cases ys; subst strcmp.simps) (auto simp: word_greater_zero_iff [symmetric] word_less_def)
next
  case (Cons x xs)
  show ?case
  proof (cases ys)
    case Nil
    with Cons.prems show ?thesis by (subst strcmp.simps) (auto simp: unsigned_eq_0_iff)
  next
    case (Cons y zs)
    show ?thesis
    proof (cases "x = y")
      case True
      then have "strcmp m a b = strcmp m (a + 1) (b + 1)"
        using \<open>cstr m a (x # xs)\<close> \<open>cstr m b ys\<close> Cons by (subst strcmp.simps) simp
      then show ?thesis using Cons.IH [of "a + 1" "b + 1" zs] Cons.prems Cons True by auto
    next
      case False
      then show ?thesis
        using Cons.prems Cons by (subst strcmp.simps) (auto simp: word_uint_eq_iff word_less_def)
    qed
  qed
qed

lemma cstr_nth:
  "cstr m a xs \<longleftrightarrow> (\<forall>i < length xs. m (a + of_nat i) = xs ! i \<and> xs ! i \<noteq> 0) \<and>
     m (a + of_nat (length xs)) = 0"
proof (induction xs arbitrary: a)
  case Nil
  then show ?case by simp
next
  case (Cons x xs)
  then show ?case by (auto simp: All_less_Suc2 add_ac)
qed

lemma cstr_cong:
  assumes "\<forall>j \<le> length xs. m' (a + of_nat j) = m (a + of_nat j)"
  shows "cstr m' a xs = cstr m a xs"
  using assms unfolding cstr_nth by (metis less_imp_le_nat order_refl)

lemma cstr_write:
  "\<forall>j \<le> length xs. p \<noteq> a + of_nat j \<Longrightarrow> cstr (m(p := v)) a xs = cstr m a xs"
  by (rule cstr_cong) auto

lemma strnlen_loop_cstr:
  assumes "cstr m a xs" "unat cnt + length xs < 2 ^ 32" "cnt \<le> len"
  shows "strnlen_loop m a len cnt = Some (if length xs < unat (len - cnt) then cnt + of_nat (length xs) else len)"
  using assms
proof (induction xs arbitrary: a cnt)
  case Nil
  then show ?case
    by (subst strnlen_loop.simps) (auto simp: word_less_nat_alt unat_sub word_le_nat_alt word_unat_eq_iff)
next
  case (Cons x xs)
  show ?case
  proof (cases "cnt = len")
    case True
    then show ?thesis by (subst strnlen_loop.simps) simp
  next
    case False
    then have lt: "cnt < len" using Cons.prems(3) by simp
    then have u: "unat (cnt + 1) = Suc (unat cnt)"
      using Cons.prems(2) unat_add_lem [of cnt 1] by simp
    have le: "cnt + 1 \<le> len" using lt by (rule inc_le)
    have d: "unat (len - cnt) = Suc (unat (len - (cnt + 1)))"
      using lt le u by (simp add: unat_sub word_le_nat_alt word_less_nat_alt)
    have "strnlen_loop m a len cnt = strnlen_loop m (a + 1) len (cnt + 1)"
      using lt Cons.prems(1) by (subst strnlen_loop.simps) simp
    then show ?thesis using Cons.IH [of "a + 1" "cnt + 1"] Cons.prems u le by (simp add: d add_ac)
  qed
qed

text \<open>\<open>strcpy\<close> is \<open>memcpy\<close> of the string and its terminator.\<close>

lemma strcpy_copy:
  assumes "cstr m s xs" "\<And>i j. i < j \<Longrightarrow> j \<le> length xs \<Longrightarrow> d + of_nat i \<noteq> s + of_nat j"
  shows "strcpy m d s = Some (copy_up m d s (Suc (length xs)))"
  using assms
proof (induction xs arbitrary: m d s)
  case Nil
  then show ?case by (subst strcpy.simps) (simp add: Let_def)
next
  case (Cons x xs)
  let ?m = "m(d := x)"
  have "d \<noteq> s + 1 + of_nat j" if "j \<le> length xs" for j
    using Cons.prems(2) [of 0 "Suc j"] that by (simp add: add_ac)
  then have 1: "cstr ?m (s + 1) xs" using Cons.prems(1) by (simp add: cstr_write)
  have 2: "d + 1 + of_nat i \<noteq> s + 1 + of_nat j" if "i < j" "j \<le> length xs" for i j
    using Cons.prems(2) [of "Suc i" "Suc j"] that by (simp add: add_ac)
  have "strcpy m d s = strcpy ?m (d + 1) (s + 1)"
    using Cons.prems(1) by (subst strcpy.simps) (simp add: Let_def)
  also have "\<dots> = Some (copy_up ?m (d + 1) (s + 1) (Suc (length xs)))" by (rule Cons.IH [OF 1 2])
  also have "copy_up ?m (d + 1) (s + 1) (Suc (length xs)) = copy_up m d s (Suc (length (x # xs)))"
    using Cons.prems(1) by simp
  finally show ?case .
qed

lemma strchr_cstr:
  assumes "cstr m a xs" "c \<noteq> 0"
  shows "strchr m a c = Some (if c \<in> set xs then a + of_nat (length (takeWhile (\<lambda>x. x \<noteq> c) xs)) else 0)"
    "strfind m a c = Some (a + of_nat (length (takeWhile (\<lambda>x. x \<noteq> c) xs)))"
  using assms
  by (induction xs arbitrary: a) (subst strchr.simps strfind.simps, simp add: add_ac)+

lemma strncmp_strcmp:
  assumes "cstr m a xs" "cstr m b ys" "length xs < n"
  shows "strcmp m a b = Some (strncmp m a b n)"
  using assms
proof (induction n arbitrary: a b xs ys)
  case (Suc n)
  show ?case
  proof (cases "m a \<noteq> 0 \<and> m a = m b")
    case True
    then obtain x xs' ys' where "xs = x # xs'" "ys = x # ys'"
      using Suc.prems by (cases xs; cases ys) auto
    with Suc.prems have "strcmp m (a + 1) (b + 1) = Some (strncmp m (a + 1) (b + 1) n)"
      by (intro Suc.IH [of _ xs' _ ys']) auto
    then show ?thesis using True by (subst strcmp.simps) simp
  qed (subst strcmp.simps, auto)
qed simp

lemma memcmp_mseg:
  "memcmp m a b n = 0 \<longleftrightarrow> mseg m a n = mseg m b n"
  "memcmp m a b n < 0 \<longleftrightarrow> ord_class.lexordp (mseg m a n) (mseg m b n)"
proof -
  have c: "mseg m p (Suc k) = m p # mseg m (p + 1) k" for p k
    by (simp add: mseg_def map_upt_Suc add_ac del: upt_Suc)
  show "memcmp m a b n = 0 \<longleftrightarrow> mseg m a n = mseg m b n"
    by (induction n arbitrary: a b) (auto simp: mseg_def [of _ _ 0] c word_uint_eq_iff)
  show "memcmp m a b n < 0 \<longleftrightarrow> ord_class.lexordp (mseg m a n) (mseg m b n)"
    by (induction n arbitrary: a b) (auto simp: mseg_def [of _ _ 0] c word_less_def word_uint_eq_iff)
qed

section \<open>Properties\<close>

text \<open>
  \<open>memmove\<close> is right for every overlap.  If neither block reaches the end of the address space,
  the destination holds afterwards what the source held before, and no other byte changes.
\<close>
theorem memmove_correct:
  assumes "unat src + n < 2 ^ 32" "unat dst + n < 2 ^ 32"
  shows "mseg (memmove m dst src n) dst n = mseg m src n \<and>
    (\<forall>x. x \<notin> addrs dst n \<longrightarrow> memmove m dst src n x = m x)"
  using memmove_apply [OF assms, of m] by (auto intro: mseg_eqI)

theorem memmove_correct_witness:
  "mseg (memmove (\<lambda>a. of_nat (unat a)) 102 100 5) 102 5 = [100, 101, 102, 103, 104] \<and>
    memmove (\<lambda>a. of_nat (unat a)) 102 100 5 101 = 101"
proof -
  have "mseg (\<lambda>a. of_nat (unat a)) 100 5 = [100, 101, 102, 103, 104]" by code_simp
  moreover have "(101 :: u32) \<notin> addrs 102 5"
  proof -
    have "addrs 102 5 = {102, 103, 104, 105, 106}" by (auto simp: addrs_def lessThan_nat_numeral)
    then show ?thesis by simp
  qed
  ultimately show ?thesis
    using memmove_correct [of 100 5 102 "\<lambda>a. of_nat (unat a)"] by simp
qed

text \<open>
  \<open>strcpy\<close> of a string returns and agrees with \<open>memcpy\<close> of its bytes and the terminator, as soon
  as the destination does not start inside the source; the copy is the same string, and
  \<open>strlen\<close> of it is the length.
\<close>
theorem strcpy_strlen:
  assumes "cstr m src xs" "unat src + length xs < 2 ^ 32" "unat dst + length xs < 2 ^ 32"
    and "unat dst \<le> unat src \<or> unat src + length xs < unat dst"
  shows "strcpy m dst src = Some (memcpy m dst src (length xs + 1)) \<and>
    cstr (memcpy m dst src (length xs + 1)) dst xs \<and>
    strlen (memcpy m dst src (length xs + 1)) dst = Some (of_nat (length xs)) \<and>
    (\<forall>x. x \<notin> addrs dst (length xs + 1) \<longrightarrow> memcpy m dst src (length xs + 1) x = m x)"
proof -
  let ?n = "length xs"
  have u: "unat (src + of_nat i) = unat src + i" "unat (dst + of_nat i) = unat dst + i" if "i \<le> ?n" for i
    using that assms(2,3) by (auto intro!: addr_unat)
  have nd: "dst + of_nat i \<noteq> src + of_nat j" if "i < j" "j \<le> ?n" for i j
  proof
    assume "dst + of_nat i = src + of_nat j"
    then have "unat dst + i = unat src + j" using u(1) [of j] u(2) [of i] that by simp
    then show False using assms(4) that by linarith
  qed
  have cp: "(\<forall>i < Suc ?n. copy_up m dst src (Suc ?n) (dst + of_nat i) = m (src + of_nat i)) \<and>
    (\<forall>x. x \<notin> addrs dst (Suc ?n) \<longrightarrow> copy_up m dst src (Suc ?n) x = m x)"
    by (rule copy_up_apply) (use assms(2) nd in auto)
  then have "cstr (copy_up m dst src (Suc ?n)) dst xs"
    using assms(1) unfolding cstr_nth by (metis less_Suc_eq lessI)
  then show ?thesis
    using cp strcpy_copy [OF assms(1) nd] strlen_loop_cstr [of _ dst xs 0]
    by (simp add: memcpy_def strlen_def del: copy_up.simps)
qed

theorem strcpy_strlen_witness:
  "strlen (memcpy ((\<lambda>_. 0)(100 := 104, 101 := 105)) 200 100 3) 200 = Some 2"
  using strcpy_strlen [of "(\<lambda>_. 0)(100 := 104, 101 := 105)" 100 "[104, 105]" 200] by (simp add: numeral_3_eq_3)

text \<open>
  \<open>strcmp\<close> on two strings returns, with result zero exactly for equal strings and a negative
  result exactly when the first comes first in the lexicographic order of unsigned bytes; \<open>strncmp\<close>
  with a bound beyond the first string gives the same result.
\<close>
theorem strcmp_order:
  assumes "cstr m a xs" "cstr m b ys" "length xs < n"
  shows "\<exists>r. strcmp m a b = Some r \<and> strncmp m a b n = r \<and> (r = 0 \<longleftrightarrow> xs = ys) \<and>
    (r < 0 \<longleftrightarrow> ord_class.lexordp xs ys)"
  using strcmp_cstr [OF assms(1,2)] strncmp_strcmp [OF assms] by auto

theorem strcmp_order_witness:
  "\<exists>r. strcmp ((\<lambda>_. 0)(100 := 97, 200 := 98)) 100 200 = Some r \<and>
    strncmp ((\<lambda>_. 0)(100 := 97, 200 := 98)) 100 200 2 = r \<and> r < 0"
  using strcmp_order [of "(\<lambda>_. 0)(100 := 97, 200 := 98)" 100 "[97]" 200 "[98]" 2] by simp

end
