(* ===== verification/X86_Strings.thy ===== *)
theory X86_Strings
  imports Mem_Strings
begin

unbundle bit_operations_syntax

text \<open>
  The versions of \<open>memset\<close>, \<open>memmove\<close>, \<open>memcpy\<close>, \<open>strcpy\<close> and \<open>strcmp\<close> in \<^verbatim>\<open>include/x86.h\<close>, written with the string
  instructions of the processor.  \<^verbatim>\<open>libs/string.c\<close> includes that file, so these versions are the ones in the
  kernel, and the loops of \<open>Mem_Strings\<close> are their specification: the two are equivalent.

  An instruction works on memory and on the registers \<open>esi\<close>, \<open>edi\<close>, \<open>ecx\<close> and \<open>al\<close>; the direction flag says whether
  the address registers are incremented (clear) or decremented (set).
\<close>

section \<open>String instructions\<close>

record x86 =
  mem :: mem
  esi :: u32
  edi :: u32
  ecx :: u32
  al :: u8
  df :: bool

definition advance :: "bool \<Rightarrow> u32 \<Rightarrow> u32 \<Rightarrow> u32" where
  "advance d k r = (if d then r - k else r + k)"

definition lodsb :: "x86 \<Rightarrow> x86" where
  "lodsb r = r\<lparr>al := mem r (esi r), esi := advance (df r) 1 (esi r)\<rparr>"

definition stosb :: "x86 \<Rightarrow> x86" where
  "stosb r = r\<lparr>mem := (mem r)(edi r := al r), edi := advance (df r) 1 (edi r)\<rparr>"

definition movsb :: "x86 \<Rightarrow> x86" where
  "movsb r = r\<lparr>mem := (mem r)(edi r := mem r (esi r)), esi := advance (df r) 1 (esi r), edi := advance (df r) 1 (edi r)\<rparr>"

definition movsl :: "x86 \<Rightarrow> x86" where
  "movsl r =
     (let m = mem r; s = esi r; d = edi r
      in r\<lparr>mem := m(d := m s, d + 1 := m (s + 1), d + 2 := m (s + 2), d + 3 := m (s + 3)),
           esi := advance (df r) 4 s, edi := advance (df r) 4 d\<rparr>)"

text \<open>The prefix \<open>rep\<close> repeats an instruction and counts \<open>ecx\<close> down to zero.\<close>

function rep :: "(x86 \<Rightarrow> x86) \<Rightarrow> x86 \<Rightarrow> x86" where
  "rep f r = (if ecx r = 0 then r else rep f ((f r)\<lparr>ecx := ecx r - 1\<rparr>))"
  by auto
termination
  by (relation "measure (\<lambda>(f, r). unat (ecx r))") (simp_all add: unat_minus_one unat_gt_0)

declare rep.simps [simp del]

text \<open>\<open>scasb\<close> compares \<open>al\<close> with the byte at \<open>edi\<close>: the carry and the zero flag.\<close>

definition scasb :: "x86 \<Rightarrow> bool \<times> bool \<times> x86" where
  "scasb r = (al r < mem r (edi r), al r = mem r (edi r), r\<lparr>edi := advance (df r) 1 (edi r)\<rparr>)"

section \<open>Functions\<close>

text \<open>The direction flag is clear when a function is called; the other registers hold the operands.\<close>

definition x86_memset :: "mem \<Rightarrow> u32 \<Rightarrow> u8 \<Rightarrow> u32 \<Rightarrow> mem" where
  "x86_memset m s c n = mem (rep stosb \<lparr>mem = m, esi = 0, edi = s, ecx = n, al = c, df = False\<rparr>)"

definition x86_memcpy :: "mem \<Rightarrow> u32 \<Rightarrow> u32 \<Rightarrow> u32 \<Rightarrow> mem" where
  "x86_memcpy m dst src n =
     (let r = rep movsl \<lparr>mem = m, esi = src, edi = dst, ecx = n div 4, al = 0, df = False\<rparr>;
          r = r\<lparr>ecx := n\<rparr>;
          r = r\<lparr>ecx := ecx r AND 3\<rparr>
      in mem (if ecx r = 0 then r else rep movsb r))"

definition x86_memmove :: "mem \<Rightarrow> u32 \<Rightarrow> u32 \<Rightarrow> u32 \<Rightarrow> mem" where
  "x86_memmove m dst src n =
     (if dst < src then x86_memcpy m dst src n
      else
        let r = \<lparr>mem = m, esi = n - 1 + src, edi = n - 1 + dst, ecx = n, al = 0, df = False\<rparr>;
            r = rep movsb (r\<lparr>df := True\<rparr>)
        in mem (r\<lparr>df := False\<rparr>))"

partial_function (option) strcpy_insns :: "x86 \<Rightarrow> x86 option" where
  "strcpy_insns r =
     (let r = stosb (lodsb r)
      in if al r AND al r \<noteq> 0 then strcpy_insns r else Some r)"

definition x86_strcpy :: "mem \<Rightarrow> u32 \<Rightarrow> u32 \<Rightarrow> mem option" where
  "x86_strcpy m dst src =
     map_option mem (strcpy_insns \<lparr>mem = m, esi = src, edi = dst, ecx = 0, al = 0, df = False\<rparr>)"

text \<open>
  The result is \<open>eax\<close>: zero at the label 3, or, at the label 2, the subtraction of \<open>eax\<close> and the carry from \<open>eax\<close>,
  with the lowest bit set.
\<close>

partial_function (option) strcmp_insns :: "x86 \<Rightarrow> u32 option" where
  "strcmp_insns r =
     (let (cf, zf, r) = scasb (lodsb r)
      in if \<not> zf then Some ((if cf then - 1 else 0) OR 1)
         else if al r AND al r \<noteq> 0 then strcmp_insns r
         else Some 0)"

definition x86_strcmp :: "mem \<Rightarrow> u32 \<Rightarrow> u32 \<Rightarrow> int option" where
  "x86_strcmp m s1 s2 =
     map_option sint (strcmp_insns \<lparr>mem = m, esi = s1, edi = s2, ecx = 0, al = 0, df = False\<rparr>)"

declare strcpy_insns.simps [code] strcmp_insns.simps [code]

section \<open>Repeated instructions are loops\<close>

lemma unat_Suc_minus: "unat (n :: u32) = Suc k \<Longrightarrow> n \<noteq> 0 \<and> unat (n - 1) = k"
  by (metis One_nat_def Suc_diff_1 nat.simps(3) unat_0 unat_minus_one zero_less_Suc diff_Suc_1)

lemma rep_stosb:
  "\<not> df r \<Longrightarrow> mem (rep stosb r) = memset_loop (mem r) (edi r) (al r) (unat (ecx r))"
proof (induction "unat (ecx r)" arbitrary: r)
  case 0
  then show ?case by (subst rep.simps) (simp add: unsigned_eq_0_iff)
next
  case (Suc k)
  then have k: "ecx r \<noteq> 0" "unat (ecx r - 1) = k" using unat_Suc_minus by metis+
  show ?case
    using Suc.hyps(1) [of "(stosb r)\<lparr>ecx := ecx r - 1\<rparr>"] Suc.hyps(2) Suc.prems k
    by (subst rep.simps) (simp add: stosb_def advance_def Suc.hyps(2) [symmetric])
qed

lemma rep_movsb_up:
  "\<not> df r \<Longrightarrow> mem (rep movsb r) = copy_up (mem r) (edi r) (esi r) (unat (ecx r))"
proof (induction "unat (ecx r)" arbitrary: r)
  case 0
  then show ?case by (subst rep.simps) (simp add: unsigned_eq_0_iff)
next
  case (Suc k)
  then have k: "ecx r \<noteq> 0" "unat (ecx r - 1) = k" using unat_Suc_minus by metis+
  show ?case
    using Suc.hyps(1) [of "(movsb r)\<lparr>ecx := ecx r - 1\<rparr>"] Suc.hyps(2) Suc.prems k
    by (subst rep.simps) (simp add: movsb_def advance_def Suc.hyps(2) [symmetric])
qed

lemma rep_movsb_down:
  "df r \<Longrightarrow> mem (rep movsb r) = copy_down (mem r) (edi r + 1) (esi r + 1) (unat (ecx r))"
proof (induction "unat (ecx r)" arbitrary: r)
  case 0
  then show ?case by (subst rep.simps) (simp add: unsigned_eq_0_iff)
next
  case (Suc k)
  then have k: "ecx r \<noteq> 0" "unat (ecx r - 1) = k" using unat_Suc_minus by metis+
  show ?case
    using Suc.hyps(1) [of "(movsb r)\<lparr>ecx := ecx r - 1\<rparr>"] Suc.hyps(2) Suc.prems k
    by (subst rep.simps) (simp add: movsb_def advance_def Suc.hyps(2) [symmetric])
qed

text \<open>Four bytes at a time are four single bytes if none of them is overwritten before it is read.\<close>

lemma copy_up_add: "copy_up m d s (k + n) = copy_up (copy_up m d s k) (d + of_nat k) (s + of_nat k) n"
  by (induction k arbitrary: m d s) (simp_all add: add_ac)

lemma movsl_copy:
  assumes "\<And>i j. i < j \<Longrightarrow> j < (4 :: nat) \<Longrightarrow> d + of_nat i \<noteq> s + of_nat j"
  shows "m(d := m s, d + 1 := m (s + 1), d + 2 := m (s + 2), d + 3 := m (s + 3)) = copy_up m d s 4"
proof -
  have "d \<noteq> s + 1" "d \<noteq> s + 2" "d \<noteq> s + 3" "d + 1 \<noteq> s + 2" "d + 1 \<noteq> s + 3" "d + 2 \<noteq> s + 3"
    using assms [of 0 1] assms [of 0 2] assms [of 0 3] assms [of 1 2] assms [of 1 3] assms [of 2 3] by simp_all
  moreover have "copy_up m d s 4 = (let m1 = m(d := m s); m2 = m1(d + 1 := m1 (s + 1)); m3 = m2(d + 2 := m2 (s + 2))
      in m3(d + 3 := m3 (s + 3)))"
    by (simp add: eval_nat_numeral Let_def add.assoc del: fun_upd_apply)
  ultimately show ?thesis by simp
qed

lemma rep_movsl:
  assumes "\<not> df r" "\<And>i j. i < j \<Longrightarrow> j < 4 * unat (ecx r) \<Longrightarrow> edi r + of_nat i \<noteq> esi r + of_nat j"
  shows "mem (rep movsl r) = copy_up (mem r) (edi r) (esi r) (4 * unat (ecx r)) \<and> \<not> df (rep movsl r) \<and>
    esi (rep movsl r) = esi r + 4 * ecx r \<and> edi (rep movsl r) = edi r + 4 * ecx r"
  using assms
proof (induction "unat (ecx r)" arbitrary: r)
  case 0
  then have "ecx r = 0" by (simp add: unsigned_eq_0_iff)
  then show ?case using 0 by (subst (1 2 3 4) rep.simps) simp
next
  case (Suc k)
  then have k: "ecx r \<noteq> 0" "unat (ecx r - 1) = k" using unat_Suc_minus by metis+
  define q where "q = (movsl r)\<lparr>ecx := ecx r - 1\<rparr>"
  have rep: "rep movsl r = rep movsl q" using k by (subst rep.simps) (simp add: q_def)
  have nd: "edi r + of_nat i \<noteq> esi r + of_nat j" if "i < j" "j < 4 + 4 * k" for i j
    using Suc.prems(2) [of i j] that unfolding Suc.hyps(2) [symmetric] by simp
  have "mem q = copy_up (mem r) (edi r) (esi r) 4"
    unfolding q_def movsl_def Let_def using movsl_copy [of "edi r" "esi r" "mem r"] nd by simp
  moreover have q: "\<not> df q" "edi q = edi r + 4" "esi q = esi r + 4" "ecx q = ecx r - 1" "unat (ecx q) = k"
    using Suc.prems(1) k by (simp_all add: q_def movsl_def Let_def advance_def)
  moreover have "edi q + of_nat i \<noteq> esi q + of_nat j" if "i < j" "j < 4 * unat (ecx q)" for i j
    using nd [of "4 + i" "4 + j"] that(1) that(2) [unfolded q(5)] unfolding q(2,3) by (simp add: add_ac)
  moreover have "4 + ecx q * 4 = ecx r * 4" unfolding q(4) by (simp add: algebra_simps)
  ultimately show ?case
    using Suc.hyps(1) [of q] copy_up_add [of "mem r" "edi r" "esi r" 4 "4 * k"]
    unfolding rep Suc.hyps(2) [symmetric] by (simp add: algebra_simps)
qed

lemma x86_memcpy_copy_up:
  assumes "\<And>i j. i < j \<Longrightarrow> j < unat n \<Longrightarrow> d + of_nat i \<noteq> s + of_nat j"
  shows "x86_memcpy m d s n = copy_up m d s (unat n)"
proof -
  let ?r = "\<lparr>mem = m, esi = s, edi = d, ecx = n div 4, al = 0, df = False\<rparr>"
  define q where "q = rep movsl ?r"
  have u: "unat (n div 4) = unat n div 4" "unat (n AND 3) = unat n mod 4"
    using unat_and_mask [of n 2] by (simp_all add: unat_div)
  have n: "unat n = 4 * (unat n div 4) + unat n mod 4" by simp
  have w: "(4 :: u32) * (n div 4) = of_nat (4 * (unat n div 4))"
    unfolding of_nat_mult u(1) [symmetric] by simp
  have "d + of_nat i \<noteq> s + of_nat j" if "i < j" "j < 4 * unat (n div 4)" for i j
    using assms [of i j] that unfolding u(1) by simp
  then have q: "mem q = copy_up m d s (4 * (unat n div 4))" "\<not> df q" "esi q = s + 4 * (n div 4)" "edi q = d + 4 * (n div 4)"
    using rep_movsl [of ?r] unfolding q_def u(1) [symmetric] by simp_all
  have "mem (if n AND 3 = 0 then q else rep movsb (q\<lparr>ecx := n AND 3\<rparr>))
      = copy_up (mem q) (edi q) (esi q) (unat (n AND 3))"
    using rep_movsb_up [of "q\<lparr>ecx := n AND 3\<rparr>"] q(2) by simp
  then have "x86_memcpy m d s n = copy_up (mem q) (edi q) (esi q) (unat n mod 4)"
    unfolding x86_memcpy_def Let_def q_def [symmetric] u(2) by (simp split: if_splits)
  also have "\<dots> = copy_up m d s (unat n)"
    using copy_up_add [of m d s "4 * (unat n div 4)" "unat n mod 4"] unfolding q w n [symmetric] by simp
  finally show ?thesis .
qed

section \<open>Equivalence\<close>

lemma copies_eq:
  assumes "(\<forall>i < n. f (d + of_nat i) = m (s + of_nat i)) \<and> (\<forall>x. x \<notin> addrs d n \<longrightarrow> f x = m x)"
    and "(\<forall>i < n. g (d + of_nat i) = m (s + of_nat i)) \<and> (\<forall>x. x \<notin> addrs d n \<longrightarrow> g x = m x)"
  shows "f = g"
proof
  fix x
  show "f x = g x"
  proof (cases "x \<in> addrs d n")
    case True
    then obtain i where "i < n" "x = d + of_nat i" by (auto simp: addrs_def)
    then show ?thesis using assms by simp
  qed (use assms in simp)
qed

text \<open>
  C31: the \<open>memmove\<close> of the kernel, which copies words upwards when the destination is below the source and bytes
  downwards otherwise, leaves memory exactly as the portable loop does, for every overlap of two blocks that do not
  reach the end of the address space.
\<close>

theorem x86_memmove_equiv:
  assumes "unat src + unat n < 2 ^ 32" "unat dst + unat n < 2 ^ 32"
  shows "x86_memmove m dst src n = memmove m dst src (unat n)"
proof -
  have u: "unat (src + of_nat i) = unat src + i" "unat (dst + of_nat i) = unat dst + i" if "i \<le> unat n" for i
    using that assms by (auto intro!: addr_unat)
  have n: "unat n \<le> 2 ^ 32" using assms by simp
  have "(\<forall>i < unat n. x86_memmove m dst src n (dst + of_nat i) = m (src + of_nat i)) \<and>
    (\<forall>x. x \<notin> addrs dst (unat n) \<longrightarrow> x86_memmove m dst src n x = m x)"
  proof (cases "dst < src")
    case True
    have "dst + of_nat i \<noteq> src + of_nat j" if "i < j" "j < unat n" for i j
      using u(1) [of j] u(2) [of i] that True unfolding word_less_nat_alt by force
    then show ?thesis
      using copy_up_apply [OF n, of dst src m] True by (simp add: x86_memmove_def x86_memcpy_copy_up)
  next
    case False
    have "dst + of_nat i \<noteq> src + of_nat j" if "j < i" "i < unat n" for i j
      using u(1) [of j] u(2) [of i] that False unfolding word_less_nat_alt by force
    moreover have "x86_memmove m dst src n = copy_down m (dst + of_nat (unat n)) (src + of_nat (unat n)) (unat n)"
      using False by (simp add: x86_memmove_def Let_def rep_movsb_down add_ac)
    ultimately show ?thesis using copy_down_apply [OF n, of dst src m] by simp
  qed
  then show ?thesis using memmove_apply [OF assms, of m] by (rule copies_eq)
qed

text \<open>The witness copies two bytes upwards by one.\<close>

theorem x86_memmove_equiv_witness:
  "x86_memmove (\<lambda>a. ucast a) 17 16 2 = memmove (\<lambda>a. ucast a) 17 16 2"
  using x86_memmove_equiv [of 16 2 17 "\<lambda>a. ucast a"] by simp

lemma x86_memset_equiv: "x86_memset m s c n = memset m s c (unat n)"
  by (simp add: x86_memset_def memset_def rep_stosb)

lemma x86_memcpy_equiv:
  assumes "unat s + unat n < 2 ^ 32" "unat d + unat n < 2 ^ 32" "unat d \<le> unat s \<or> unat s + unat n \<le> unat d"
  shows "x86_memcpy m d s n = memcpy m d s (unat n)"
  unfolding memcpy_def
proof (rule x86_memcpy_copy_up)
  fix i j assume "i < j" "j < unat n"
  moreover from this have "unat (s + of_nat j) = unat s + j" "unat (d + of_nat i) = unat d + i"
    using assms(1,2) by (auto intro!: addr_unat)
  ultimately show "d + of_nat i \<noteq> s + of_nat j" using assms(3) by force
qed

text \<open>The loops over strings: every result of one is a result of the other.\<close>

lemma strcpy_insns_strcpy:
  assumes "strcpy_insns r = Some q" "\<not> df r"
  shows "strcpy (mem r) (edi r) (esi r) = Some (mem q)"
  using assms
proof (induction r q rule: strcpy_insns.raw_induct [rotated, consumes 1, case_names step])
  case (step rec r q)
  let ?q = "stosb (lodsb r)"
  have q: "mem ?q = (mem r)(edi r := mem r (esi r))" "edi ?q = edi r + 1" "esi ?q = esi r + 1" "al ?q = mem r (esi r)" "\<not> df ?q"
    using step.prems by (simp_all add: stosb_def lodsb_def advance_def)
  show ?case
  proof (cases "mem r (esi r) = 0")
    case True
    then have "q = ?q" using step.hyps step.prems q by (simp add: Let_def)
    then show ?thesis using True q by (subst strcpy.simps) simp
  next
    case False
    then have "rec ?q = Some q" using step.hyps step.prems q by (simp add: Let_def)
    from step.IH [OF this q(5)] show ?thesis using False q by (subst strcpy.simps) (simp del: fun_upd_apply)
  qed
qed

lemma strcpy_strcpy_insns:
  assumes "strcpy m p s = Some m'" "\<not> df r" "mem r = m" "edi r = p" "esi r = s"
  shows "map_option mem (strcpy_insns r) = Some m'"
  using assms
proof (induction m p s m' arbitrary: r rule: strcpy.raw_induct [rotated, consumes 1, case_names step])
  case (step rec m p s m')
  let ?q = "stosb (lodsb r)"
  have q: "mem ?q = m(p := m s)" "edi ?q = p + 1" "esi ?q = s + 1" "al ?q = m s" "\<not> df ?q"
    using step.prems by (simp_all add: stosb_def lodsb_def advance_def)
  show ?case
  proof (cases "m s = 0")
    case True
    then show ?thesis using step.hyps step.prems q by (subst strcpy_insns.simps) (simp add: Let_def)
  next
    case False
    then have "rec (m(p := m s)) (p + 1) (s + 1) = Some m'" using step.hyps step.prems by (simp add: Let_def)
    from step.IH [OF this q(5,1,2,3)] show ?thesis using False q(4) by (subst strcpy_insns.simps) (simp add: Let_def)
  qed
qed

lemma option_eqI: "(\<And>x. a = Some x \<Longrightarrow> b = Some x) \<Longrightarrow> (\<And>x. b = Some x \<Longrightarrow> a = Some x) \<Longrightarrow> a = b"
  by (cases a; cases b) auto

lemma x86_strcpy_equiv: "x86_strcpy m dst src = strcpy m dst src"
proof (rule option_eqI)
  fix m' assume "x86_strcpy m dst src = Some m'"
  then show "strcpy m dst src = Some m'" unfolding x86_strcpy_def using strcpy_insns_strcpy by fastforce
next
  fix m' assume "strcpy m dst src = Some m'"
  then show "x86_strcpy m dst src = Some m'" unfolding x86_strcpy_def by (rule strcpy_strcpy_insns) simp_all
qed

lemma strcmp_insns_step:
  assumes "\<not> df r"
  defines "q \<equiv> snd (snd (scasb (lodsb r)))"
  shows "strcmp_insns r =
      (if mem r (esi r) \<noteq> mem r (edi r) then Some (if mem r (esi r) < mem r (edi r) then - 1 else 1)
       else if mem r (esi r) \<noteq> 0 then strcmp_insns q else Some 0)"
    "mem q = mem r" "edi q = edi r + 1" "esi q = esi r + 1" "\<not> df q"
proof -
  show "strcmp_insns r =
      (if mem r (esi r) \<noteq> mem r (edi r) then Some (if mem r (esi r) < mem r (edi r) then - 1 else 1)
       else if mem r (esi r) \<noteq> 0 then strcmp_insns q else Some 0)"
    using assms(1) unfolding q_def by (subst strcmp_insns.simps) (simp add: scasb_def lodsb_def advance_def)
  show "mem q = mem r" "edi q = edi r + 1" "esi q = esi r + 1" "\<not> df q"
    using assms(1) unfolding q_def by (simp_all add: scasb_def lodsb_def advance_def)
qed

lemma sgn_byte_diff:
  fixes a b :: u8
  assumes "a \<noteq> b"
  shows "sint (if a < b then - 1 else 1 :: u32) = sgn (uint a - uint b)"
  using assms by (auto simp: word_less_def word_uint_eq_iff)

lemma strcmp_insns_strcmp:
  assumes "strcmp_insns r = Some v" "\<not> df r"
  shows "map_option sgn (strcmp (mem r) (esi r) (edi r)) = Some (sint v)"
  using assms
proof (induction r v rule: strcmp_insns.raw_induct [rotated, consumes 1, case_names step])
  case (step rec r v)
  define q where "q = snd (snd (scasb (lodsb r)))"
  note q = strcmp_insns_step(2-5) [OF step.prems, folded q_def]
  have e: "(if mem r (esi r) \<noteq> mem r (edi r) then Some (if mem r (esi r) < mem r (edi r) then - 1 else 1)
       else if mem r (esi r) \<noteq> 0 then rec q else Some 0) = Some v"
    using step.hyps step.prems unfolding q_def
    by (cases "mem r (esi r) = mem r (edi r)"; cases "mem r (edi r) = 0") (auto simp: scasb_def lodsb_def advance_def)
  show ?case
  proof (cases "mem r (esi r) = mem r (edi r) \<and> mem r (esi r) \<noteq> 0")
    case True
    then have "rec q = Some v" using e conjunct1 [OF True] conjunct2 [OF True] by simp
    from step.IH [OF this q(4)] show ?thesis
      using conjunct1 [OF True] conjunct2 [OF True] unfolding q by (subst strcmp.simps) simp
  next
    case False
    then show ?thesis using e sgn_byte_diff [of "mem r (esi r)" "mem r (edi r)"]
      by (subst strcmp.simps) (auto split: if_splits)
  qed
qed

lemma strcmp_strcmp_insns:
  assumes "strcmp m a b = Some v" "\<not> df r" "mem r = m" "esi r = a" "edi r = b"
  shows "map_option sint (strcmp_insns r) = Some (sgn v)"
  using assms
proof (induction m a b v arbitrary: r rule: strcmp.raw_induct [rotated, consumes 1, case_names step])
  case (step rec m a b v)
  define q where "q = snd (snd (scasb (lodsb r)))"
  note q = strcmp_insns_step [OF step.prems(1), folded q_def, unfolded step.prems]
  show ?case
  proof (cases "m a = m b \<and> m a \<noteq> 0")
    case True
    then have "rec m (a + 1) (b + 1) = Some v" using step.hyps by auto
    from step.IH [OF this q(5,2,4,3)] show ?thesis
      unfolding q(1) using conjunct1 [OF True] conjunct2 [OF True] by simp
  next
    case False
    then show ?thesis unfolding q(1) using step.hyps sgn_byte_diff [of "m a" "m b"] by (auto split: if_splits)
  qed
qed

text \<open>
  The \<open>strcmp\<close> of the kernel terminates on exactly the strings on which the portable loop does, and returns the
  sign of its result.
\<close>

theorem x86_strcmp_equiv: "x86_strcmp m s1 s2 = map_option sgn (strcmp m s1 s2)"
proof (rule option_eqI)
  fix v assume "x86_strcmp m s1 s2 = Some v"
  then show "map_option sgn (strcmp m s1 s2) = Some v"
    unfolding x86_strcmp_def using strcmp_insns_strcmp by fastforce
next
  fix v assume "map_option sgn (strcmp m s1 s2) = Some v"
  then obtain w where "strcmp m s1 s2 = Some w" "v = sgn w" by auto
  then show "x86_strcmp m s1 s2 = Some v"
    unfolding x86_strcmp_def using strcmp_strcmp_insns [of m s1 s2 w] by simp
qed

end
