(* ===== verification/Buffers.thy ===== *)
theory Buffers
  imports Prelude
begin

text \<open>
  Byte buffers and the contract of a first-in first-out buffer.  A block of memory that only one
  object uses is a list of bytes; \<open>memcpy\<close> into or out of it is \<open>buf_write\<close> or \<open>buf_read\<close>, with
  \<open>None\<close> for an access that leaves the block.

  Memory obtained from \<open>kmalloc\<close> by the containers of \<^verbatim>\<open>libs/\<close> is an argument of the model: a
  function from the requested size to \<open>None\<close> (the null pointer) or to the bytes found there, which
  are arbitrary.  \<open>alloc_ok\<close> is what the containers rely on: the block is as large as asked for, and
  it lies in the linearly mapped memory, which is smaller than \<open>2 ^ 30\<close> bytes.
\<close>

section \<open>Reading and writing a block of memory\<close>

type_synonym bytes = "u8 list"
type_synonym alloc = "nat \<Rightarrow> bytes option"

definition buf_read :: "bytes \<Rightarrow> nat \<Rightarrow> nat \<Rightarrow> bytes option" where
  "buf_read buf off n = (if off + n \<le> length buf then Some (take n (drop off buf)) else None)"

definition buf_write :: "bytes \<Rightarrow> nat \<Rightarrow> bytes \<Rightarrow> bytes option" where
  "buf_write buf off xs =
     (if off + length xs \<le> length buf
      then Some (take off buf @ xs @ drop (off + length xs) buf) else None)"

definition alloc_ok :: "alloc \<Rightarrow> bool" where
  "alloc_ok kmalloc \<longleftrightarrow> (\<forall>n buf. kmalloc n = Some buf \<longrightarrow> length buf = n \<and> n \<le> 2 ^ 30)"

lemma buf_read_Some [simp]:
  "off + n \<le> length buf \<Longrightarrow> buf_read buf off n = Some (take n (drop off buf))"
  by (simp add: buf_read_def)

lemma buf_write_Some [simp]:
  "off + length xs \<le> length buf \<Longrightarrow>
   buf_write buf off xs = Some (take off buf @ xs @ drop (off + length xs) buf)"
  by (simp add: buf_write_def)

lemma buf_write_nth:
  assumes "buf_write buf off xs = Some buf'"
  shows "length buf' = length buf"
    "i < length buf \<Longrightarrow> buf' ! i =
      (if off \<le> i \<and> i < off + length xs then xs ! (i - off) else buf ! i)"
  using assms by (auto simp: buf_write_def nth_append min_def split: if_splits)

text \<open>\<open>seg buf off n\<close>: the \<open>n\<close> bytes from \<open>off\<close> on.\<close>

definition seg :: "'a list \<Rightarrow> nat \<Rightarrow> nat \<Rightarrow> 'a list" where
  "seg buf off n = take n (drop off buf)"

lemma seg_write_same:
  "buf_write buf off xs = Some buf' \<Longrightarrow> seg buf' off (length xs) = xs"
  by (auto simp: buf_write_def seg_def split: if_splits)

lemma seg_write_other:
  assumes "buf_write buf off xs = Some buf'" "i + n \<le> off \<or> off + length xs \<le> i"
    "i + n \<le> length buf"
  shows "seg buf' i n = seg buf i n"
proof (rule nth_equalityI)
  show "length (seg buf' i n) = length (seg buf i n)"
    using buf_write_nth(1) [OF assms(1)] by (simp add: seg_def)
  fix j assume "j < length (seg buf' i n)"
  then show "seg buf' i n ! j = seg buf i n ! j"
    using buf_write_nth [OF assms(1)] assms(2,3) by (auto simp: seg_def)
qed

lemma seg_write_in:
  assumes "buf_write buf off xs = Some buf'" "off \<le> i" "i + n \<le> off + length xs"
  shows "seg buf' i n = seg xs (i - off) n"
proof (rule nth_equalityI)
  have le: "off + length xs \<le> length buf" using assms(1) by (auto simp: buf_write_def split: if_splits)
  show "length (seg buf' i n) = length (seg xs (i - off) n)"
    using buf_write_nth(1) [OF assms(1)] assms(2,3) le by (simp add: seg_def)
  fix j assume "j < length (seg buf' i n)"
  then show "seg buf' i n ! j = seg xs (i - off) n ! j"
    using buf_write_nth [OF assms(1)] assms(2,3) le by (auto simp: seg_def)
qed

lemma seg_seg: "i + n \<le> m \<Longrightarrow> seg (seg buf off m) i n = seg buf (off + i) n"
  by (simp add: seg_def drop_take min_absorb1 add.commute)

text \<open>A block of memory as an array of \<open>n\<close> elements of \<open>es\<close> bytes.\<close>

definition chunks :: "nat \<Rightarrow> nat \<Rightarrow> 'a list \<Rightarrow> 'a list list" where
  "chunks es n buf = map (\<lambda>i. seg buf (es * i) es) [0 ..< n]"

lemma length_chunks [simp]: "length (chunks es n buf) = n"
  by (simp add: chunks_def)

lemma chunks_nth [simp]: "i < n \<Longrightarrow> chunks es n buf ! i = seg buf (es * i) es"
  by (simp add: chunks_def)

lemma chunk_bound: "i < n \<Longrightarrow> es * n \<le> m \<Longrightarrow> es * i + es \<le> (m::nat)"
  using mult_le_mono2 [of "Suc i" n es] by simp

lemma chunks_write:
  assumes "length buf = es * n" "i < n" "length x = es"
  shows "\<exists>buf'. buf_write buf (es * i) x = Some buf' \<and> length buf' = es * n \<and>
    chunks es n buf' = (chunks es n buf)[i := x]"
proof -
  have le: "es * j + es \<le> es * n" if "j < n" for j using that by (rule chunk_bound) simp
  then obtain buf' where w: "buf_write buf (es * i) x = Some buf'" using assms by simp
  have "chunks es n buf' ! j = (chunks es n buf)[i := x] ! j" if "j < n" for j
  proof (cases "j = i")
    case True
    then show ?thesis using seg_write_same [OF w] assms by simp
  next
    case False
    then have "j < i \<or> i < j" by linarith
    then have "es * j + es \<le> es * i \<or> es * i + length x \<le> es * j"
      using chunk_bound [of j i es "es * i"] chunk_bound [of i j es "es * j"] assms(3) by auto
    from seg_write_other [OF w this] show ?thesis using False that le [OF that] assms by simp
  qed
  then have "chunks es n buf' = (chunks es n buf)[i := x]" by (intro nth_equalityI) auto
  then show ?thesis using w buf_write_nth(1) [OF w] assms by auto
qed

section \<open>The ring\<close>

text \<open>
  \<open>ring xs i n\<close>: the \<open>n\<close> items met when walking from index \<open>i\<close> on and wrapping at the end.  Both
  \<^verbatim>\<open>libs/fifo.c\<close> (items are bytes) and \<^verbatim>\<open>libs/queue.c\<close> (items are elements) store their content so.
\<close>

definition ring :: "'a list \<Rightarrow> nat \<Rightarrow> nat \<Rightarrow> 'a list" where
  "ring xs i n = map (\<lambda>j. xs ! ((i + j) mod length xs)) [0 ..< n]"

lemma length_ring [simp]: "length (ring xs i n) = n"
  by (simp add: ring_def)

lemma ring_0 [simp]: "ring xs i 0 = []"
  by (simp add: ring_def)

lemma ring_nth [simp]: "j < n \<Longrightarrow> ring xs i n ! j = xs ! ((i + j) mod length xs)"
  by (simp add: ring_def)

lemma ring_add: "ring xs i (m + n) = ring xs i m @ ring xs ((i + m) mod length xs) n"
proof -
  have "[0 ..< m + n] = [0 ..< m] @ [m ..< n + m]"
    using upt_add_eq_append [of 0 m n] by (simp add: add.commute)
  also have "[m ..< n + m] = map (\<lambda>j. j + m) [0 ..< n]" by (rule map_add_upt [symmetric])
  finally have u: "[0 ..< m + n] = [0 ..< m] @ map (\<lambda>j. j + m) [0 ..< n]" .
  have "(i + (j + m)) mod k = ((i + m) mod k + j) mod k" for j k :: nat
    unfolding mod_add_left_eq by (simp only: add_ac)
  then show ?thesis by (simp add: ring_def u)
qed

lemma ring_seg:
  assumes "i + n \<le> length xs"
  shows "ring xs i n = seg xs i n"
proof (rule nth_equalityI)
  show "length (ring xs i n) = length (seg xs i n)" using assms by (simp add: seg_def)
  fix j assume "j < length (ring xs i n)"
  then show "ring xs i n ! j = seg xs i n ! j" using assms by (simp add: seg_def)
qed

text \<open>Reading \<open>n\<close> items in two pieces, as \<open>fifo_copy_out\<close> does.\<close>

lemma ring_two:
  assumes "i < length xs" "n \<le> length xs" "l = min n (length xs - i)"
  shows "ring xs i n = seg xs i l @ seg xs 0 (n - l)"
proof -
  have "n = l + (n - l)" using assms by simp
  then have "ring xs i n = ring xs i l @ ring xs ((i + l) mod length xs) (n - l)"
    by (metis ring_add)
  also have "ring xs i l = seg xs i l" using assms by (intro ring_seg) auto
  also have "ring xs ((i + l) mod length xs) (n - l) = seg xs 0 (n - l)"
  proof (cases "n \<le> length xs - i")
    case True
    then have "n - l = 0" using assms by simp
    then show ?thesis by (simp add: seg_def)
  next
    case False
    then have "i + l = length xs" using assms by (simp add: min_def)
    then show ?thesis using assms by (simp add: ring_seg)
  qed
  finally show ?thesis .
qed

text \<open>Two lists that agree on the walk have the same ring.\<close>

lemma ring_cong:
  assumes "length ys = length xs" "\<And>j. j < n \<Longrightarrow> ys ! ((i + j) mod length xs) = xs ! ((i + j) mod length xs)"
  shows "ring ys i n = ring xs i n"
  using assms by (intro nth_equalityI) auto

lemma mod_add_inj:
  fixes i j k n :: nat
  assumes "j < n" "k < n" "(i + j) mod n = (i + k) mod n"
  shows "j = k"
proof (cases "j \<le> k")
  case True
  then have "n dvd (i + k) - (i + j)" using assms(3) mod_eq_dvd_iff_nat [of "i + j" "i + k" n] by simp
  then show ?thesis using True assms(2) by (cases "j = k") (auto dest!: dvd_imp_le)
next
  case False
  then have "n dvd (i + j) - (i + k)" using assms(3) mod_eq_dvd_iff_nat [of "i + k" "i + j" n] by simp
  then show ?thesis using False assms(1) by (auto dest!: dvd_imp_le)
qed

text \<open>
  The number of items between the index \<open>o\<close> of the first and the index \<open>i\<close> where the next one goes,
  in a ring of \<open>n\<close> places of which one is always free.
\<close>

definition rlen :: "nat \<Rightarrow> nat \<Rightarrow> nat \<Rightarrow> nat" where
  "rlen i out n = (i + n - out) mod n"

lemma rlen_bounds:
  assumes "i < n" "out < n"
  shows "rlen i out n < n" "(out + rlen i out n) mod n = i"
proof -
  show "rlen i out n < n" using assms by (simp add: rlen_def)
  have "(out + rlen i out n) mod n = (out + (i + n - out)) mod n"
    by (simp add: rlen_def mod_simps)
  then show "(out + rlen i out n) mod n = i" using assms by simp
qed

lemma rlen_unique:
  assumes "i < n" "out < n" "k < n" "(out + k) mod n = i"
  shows "rlen i out n = k"
  using assms rlen_bounds [OF assms(1,2)] mod_add_inj by metis

lemma rlen_in:
  assumes "i < n" "out < n" "rlen i out n + k < n"
  shows "rlen ((i + k) mod n) out n = rlen i out n + k"
proof (rule rlen_unique)
  have "(out + (rlen i out n + k)) mod n = ((out + rlen i out n) mod n + k) mod n"
    unfolding mod_add_left_eq by (simp only: add_ac)
  then show "(out + (rlen i out n + k)) mod n = (i + k) mod n" using rlen_bounds(2) [OF assms(1,2)] by simp
qed (use assms in auto)

lemma rlen_out:
  assumes "i < n" "out < n" "k \<le> rlen i out n"
  shows "rlen i ((out + k) mod n) n = rlen i out n - k"
proof (rule rlen_unique)
  have "((out + k) mod n + (rlen i out n - k)) mod n = (out + rlen i out n) mod n"
    unfolding mod_add_left_eq using assms(3) by simp
  then show "((out + k) mod n + (rlen i out n - k)) mod n = i" using rlen_bounds(2) [OF assms(1,2)] by simp
  show "rlen i out n - k < n" using rlen_bounds(1) [OF assms(1,2)] by linarith
qed (use assms in auto)

lemma rlen_0_iff: "i < n \<Longrightarrow> out < n \<Longrightarrow> i = out \<longleftrightarrow> rlen i out n = 0"
  using rlen_unique [of i n out 0] rlen_bounds(2) [of i n out] by auto

lemma rlen_full_iff:
  assumes "i < n" "out < n"
  shows "(i + 1) mod n = out \<longleftrightarrow> rlen i out n = n - 1"
proof
  assume a: "(i + 1) mod n = out"
  have "(out + (n - 1)) mod n = (i + 1 + (n - 1)) mod n"
    unfolding a [symmetric] mod_add_left_eq ..
  then show "rlen i out n = n - 1" using assms by (intro rlen_unique) auto
next
  assume r: "rlen i out n = n - 1"
  have "(i + 1) mod n = (out + rlen i out n + 1) mod n"
    using rlen_bounds(2) [OF assms] mod_add_left_eq [of "out + rlen i out n" n 1] by simp
  then show "(i + 1) mod n = out" using r assms by simp
qed

section \<open>The contract of a first-in first-out buffer\<close>

text \<open>
  A client puts inputs and gets back items.  \<open>put i s\<close> says whether the input was taken; \<open>get n s\<close>
  returns \<open>n\<close> items or reports that there are not so many.  \<open>run_fifo\<close> is a sequence of such calls;
  it collects the inputs that were taken and the items that came out.
\<close>

datatype 'i fifo_op = Put 'i | Get nat

fun run_fifo ::
  "('i \<Rightarrow> 's \<Rightarrow> (bool \<times> 's) option) \<Rightarrow> (nat \<Rightarrow> 's \<Rightarrow> ('e list option \<times> 's) option) \<Rightarrow>
   'i fifo_op list \<Rightarrow> 's \<Rightarrow> ('i list \<times> 'e list \<times> 's) option" where
  "run_fifo put get [] s = Some ([], [], s)"
| "run_fifo put get (Put i # ops) s =
     do {
       (ok, s) \<leftarrow> put i s;
       (is, es, s) \<leftarrow> run_fifo put get ops s;
       Some (if ok then i # is else is, es, s)
     }"
| "run_fifo put get (Get n # ops) s =
     do {
       (r, s) \<leftarrow> get n s;
       (is, es, s) \<leftarrow> run_fifo put get ops s;
       Some (is, (case r of None \<Rightarrow> es | Some xs \<Rightarrow> xs @ es), s)
     }"

fun op_ok :: "('i \<Rightarrow> bool) \<Rightarrow> (nat \<Rightarrow> bool) \<Rightarrow> 'i fifo_op \<Rightarrow> bool" where
  "op_ok put_ok get_ok (Put i) \<longleftrightarrow> put_ok i"
| "op_ok put_ok get_ok (Get n) \<longleftrightarrow> get_ok n"

locale fifo_buffer =
  fixes put :: "'i \<Rightarrow> 's \<Rightarrow> (bool \<times> 's) option"
    and get :: "nat \<Rightarrow> 's \<Rightarrow> ('e list option \<times> 's) option"
    and items :: "'i \<Rightarrow> 'e list"
    and content :: "'s \<Rightarrow> 'e list"
    and inv :: "'s \<Rightarrow> bool"
    and put_ok :: "'i \<Rightarrow> bool"
    and get_ok :: "nat \<Rightarrow> bool"
  assumes put_law: "inv s \<Longrightarrow> put_ok i \<Longrightarrow> \<exists>ok t. put i s = Some (ok, t) \<and> inv t \<and>
      content t = (if ok then content s @ items i else content s)"
    and get_law: "inv s \<Longrightarrow> get_ok n \<Longrightarrow> \<exists>r t. get n s = Some (r, t) \<and> inv t \<and>
      (case r of None \<Rightarrow> length (content s) < n \<and> content t = content s
       | Some xs \<Rightarrow> length xs = n \<and> content s = xs @ content t)"
begin

text \<open>Every run returns, and what was inside followed by what went in is what came out followed by
  what is left.\<close>

lemma run_order:
  assumes "inv s" "list_all (op_ok put_ok get_ok) ops"
  shows "\<exists>is es t. run_fifo put get ops s = Some (is, es, t) \<and> inv t \<and>
    content s @ concat (map items is) = es @ content t"
  using assms
proof (induction ops arbitrary: s)
  case Nil
  then show ?case by simp
next
  case (Cons op ops)
  show ?case
  proof (cases op)
    case (Put i)
    then have "put_ok i" using Cons.prems(2) by simp
    from put_law [OF Cons.prems(1) this] obtain ok t where t: "put i s = Some (ok, t)" "inv t"
      "content t = (if ok then content s @ items i else content s)" by blast
    from Cons.IH [OF t(2)] Cons.prems(2) obtain "is" es u where
      "run_fifo put get ops t = Some (is, es, u)" "inv u" "content t @ concat (map items is) = es @ content u"
      by auto
    with t Put show ?thesis by auto
  next
    case (Get n)
    then have "get_ok n" using Cons.prems(2) by simp
    from get_law [OF Cons.prems(1) this] obtain r t where t: "get n s = Some (r, t)" "inv t"
      "case r of None \<Rightarrow> length (content s) < n \<and> content t = content s
       | Some xs \<Rightarrow> length xs = n \<and> content s = xs @ content t" by blast
    from Cons.IH [OF t(2)] Cons.prems(2) obtain "is" es u where
      "run_fifo put get ops t = Some (is, es, u)" "inv u" "content t @ concat (map items is) = es @ content u"
      by auto
    with t Get show ?thesis by (cases r) auto
  qed
qed

end

end
