(* ===== verification/Bitops.thy ===== *)
theory Bitops
  imports Prelude
begin

text \<open>
  The integer helpers of the kernel: \<^verbatim>\<open>include/bitops.h\<close> (\<open>fls\<close>), \<^verbatim>\<open>include/log2.h\<close>, the
  integer part of \<^verbatim>\<open>include/math.h\<close> and the single-word bit operations of
  \<^verbatim>\<open>include/atomic.h\<close>.  An \<open>unsigned int\<close> or \<open>unsigned long\<close> is a 32-bit word.  A shift by
  32 or more is undefined in C; such a call is \<open>None\<close> here.
\<close>

section \<open>Bit numbers and logarithms\<close>

definition fls :: "u32 \<Rightarrow> int" where
  "fls x =
     (if x = 0 then 0
      else
        let r = 0;
            (x, r) = (if x AND 0xffff0000 \<noteq> 0 then (drop_bit 16 x, r + 16) else (x, r));
            (x, r) = (if x AND 0xff00 \<noteq> 0 then (drop_bit 8 x, r + 8) else (x, r));
            (x, r) = (if x AND 0xf0 \<noteq> 0 then (drop_bit 4 x, r + 4) else (x, r));
            (x, r) = (if x AND 0xc \<noteq> 0 then (drop_bit 2 x, r + 2) else (x, r));
            (x, r) = (if x AND 0x2 \<noteq> 0 then (drop_bit 1 x, r + 1) else (x, r))
        in if x AND 0x1 \<noteq> 0 then r + 1 else r)"

definition ilog2_roundup :: "u32 \<Rightarrow> u32" where
  "ilog2_roundup n = (if n = 0 then 0 else of_int (fls (n - 1)))"

definition ilog2_rounddown :: "u32 \<Rightarrow> u32" where
  "ilog2_rounddown n = of_int (fls n - 1)"

abbreviation ilog2 :: "u32 \<Rightarrow> u32" where
  "ilog2 n \<equiv> ilog2_rounddown n"

definition is_power_of_2 :: "u32 \<Rightarrow> bool" where
  "is_power_of_2 n \<longleftrightarrow> n \<noteq> 0 \<and> n AND (n - 1) = 0"

definition shift_left_1UL :: "u32 \<Rightarrow> u32 option" where
  "shift_left_1UL k = (if k < 32 then Some (push_bit (unat k) 1) else None)"

definition roundup_pow_of_two :: "u32 \<Rightarrow> u32 option" where
  "roundup_pow_of_two n = shift_left_1UL (ilog2_roundup n)"

definition rounddown_pow_of_two :: "u32 \<Rightarrow> u32 option" where
  "rounddown_pow_of_two n = shift_left_1UL (ilog2_rounddown n)"

text \<open>
  The bit operations of \<^verbatim>\<open>include/atomic.h\<close> (\<open>btsl\<close>, \<open>btrl\<close>, \<open>btcl\<close>, \<open>btl\<close>) on one memory word.
  Every bit number the kernel passes is below 32, so a word is what they act on.
\<close>

definition set_bit_c :: "nat \<Rightarrow> u32 \<Rightarrow> u32" where
  "set_bit_c nr w = w OR push_bit nr 1"

definition clear_bit_c :: "nat \<Rightarrow> u32 \<Rightarrow> u32" where
  "clear_bit_c nr w = w AND NOT (push_bit nr 1)"

definition change_bit_c :: "nat \<Rightarrow> u32 \<Rightarrow> u32" where
  "change_bit_c nr w = w XOR push_bit nr 1"

definition test_bit_c :: "nat \<Rightarrow> u32 \<Rightarrow> bool" where
  "test_bit_c nr w = bit w nr"

definition test_and_set_bit :: "nat \<Rightarrow> u32 \<Rightarrow> bool \<times> u32" where
  "test_and_set_bit nr w = (bit w nr, w OR push_bit nr 1)"

definition test_and_clear_bit :: "nat \<Rightarrow> u32 \<Rightarrow> bool \<times> u32" where
  "test_and_clear_bit nr w = (bit w nr, w AND NOT (push_bit nr 1))"

definition test_and_change_bit :: "nat \<Rightarrow> u32 \<Rightarrow> bool \<times> u32" where
  "test_and_change_bit nr w = (bit w nr, w XOR push_bit nr 1)"

lemma test_bit_c_simps [simp]:
  "test_bit_c m (set_bit_c n w) \<longleftrightarrow> (m = n \<and> n < 32) \<or> test_bit_c m w"
  "test_bit_c m (clear_bit_c n w) \<longleftrightarrow> m \<noteq> n \<and> test_bit_c m w"
  "test_bit_c m (change_bit_c n w) \<longleftrightarrow> (m = n \<and> n < 32) \<noteq> test_bit_c m w"
  by (auto simp: test_bit_c_def set_bit_c_def clear_bit_c_def change_bit_c_def bit_simps
      dest: bit_imp_le_length)

section \<open>Correctness of fls\<close>

text \<open>
  Each test of \<open>fls\<close> masks a run of \<open>j\<close> bits from bit \<open>k\<close> on.  On a value below \<open>2 ^ (k + j)\<close>
  it decides whether the value reaches \<open>2 ^ k\<close>.
\<close>

lemma and_push_mask:
  fixes x :: u32
  shows "x AND push_bit k (mask j) = push_bit k (take_bit j (drop_bit k x))"
  by (rule bit_word_eqI) (auto simp: bit_simps)

lemma and_run_iff:
  fixes x :: u32
  assumes kj: "k + j \<le> 32" and x: "unat x < 2 ^ (k + j)"
  shows "x AND push_bit k (mask j) \<noteq> 0 \<longleftrightarrow> 2 ^ k \<le> unat x"
proof -
  have d: "unat (drop_bit k x) = unat x div 2 ^ k"
    by (subst unat_drop_bit_eq) (rule drop_bit_eq_div)
  have "unat x div 2 ^ k < 2 ^ j"
    using x by (simp add: less_mult_imp_div_less power_add mult.commute)
  then have "unat (drop_bit k x) < 2 ^ j" by (simp only: d)
  then have "unat (take_bit j (drop_bit k x)) = unat (drop_bit k x)"
    by (subst unsigned_take_bit_eq) (rule take_bit_nat_eq_self)
  then have t: "take_bit j (drop_bit k x) = drop_bit k x"
    by (rule unsigned_word_eqI)
  have "push_bit k (drop_bit k x) = 0 \<longleftrightarrow> drop_bit k x = 0"
  proof
    assume "push_bit k (drop_bit k x) = 0"
    then have "drop_bit k (push_bit k (drop_bit k x)) = 0" by simp
    moreover have "drop_bit k (push_bit k (drop_bit k x)) = drop_bit k x"
      using kj by (intro bit_word_eqI) (auto simp: bit_simps dest: bit_imp_le_length)
    ultimately show "drop_bit k x = 0" by simp
  qed simp
  moreover have "drop_bit k x = 0 \<longleftrightarrow> unat x < 2 ^ k"
    using d by (simp add: unat_eq_0 [symmetric] div_eq_0_iff)
  ultimately show ?thesis by (simp add: and_push_mask t linorder_not_less)
qed

text \<open>One stage of \<open>fls\<close> halves the width of the value that is left.\<close>

definition fls_stage :: "nat \<Rightarrow> u32 \<times> int \<Rightarrow> u32 \<times> int" where
  "fls_stage j p =
     (if fst p AND push_bit j (mask j) \<noteq> 0
      then (drop_bit j (fst p), snd p + int j) else p)"

lemma fls_stages:
  "x \<noteq> 0 \<Longrightarrow> fls x =
     (case fls_stage 1 (fls_stage 2 (fls_stage 4 (fls_stage 8 (fls_stage 16 (x, 0)))))
      of (x, r) \<Rightarrow> if x AND 1 \<noteq> 0 then r + 1 else r)"
proof -
  have "push_bit 16 (mask 16) = (0xffff0000 :: u32)" "push_bit 8 (mask 8) = (0xff00 :: u32)"
    "push_bit 4 (mask 4) = (0xf0 :: u32)" "push_bit 2 (mask 2) = (0xc :: u32)"
    "push_bit 1 (mask 1) = (0x2 :: u32)"
    by (simp_all add: mask_eq_exp_minus_1 push_bit_eq_mult)
  then have e:
    "(if x AND 0xffff0000 \<noteq> 0 then (drop_bit 16 x, r + 16) else (x, r)) = fls_stage 16 (x, r)"
    "(if x AND 0xff00 \<noteq> 0 then (drop_bit 8 x, r + 8) else (x, r)) = fls_stage 8 (x, r)"
    "(if x AND 0xf0 \<noteq> 0 then (drop_bit 4 x, r + 4) else (x, r)) = fls_stage 4 (x, r)"
    "(if x AND 0xc \<noteq> 0 then (drop_bit 2 x, r + 2) else (x, r)) = fls_stage 2 (x, r)"
    "(if x AND 0x2 \<noteq> 0 then (drop_bit 1 x, r + 1) else (x, r)) = fls_stage 1 (x, r)" for x r
    by (simp_all only: fls_stage_def fst_conv snd_conv of_nat_numeral of_nat_1)
  assume "x \<noteq> 0"
  then show ?thesis
    unfolding fls_def Let_def e case_prod_unfold prod.collapse by (simp only: if_False)
qed

definition fls_inv :: "u32 \<Rightarrow> nat \<Rightarrow> u32 \<times> int \<Rightarrow> bool" where
  "fls_inv x0 k p \<longleftrightarrow>
     (case p of (x, r) \<Rightarrow> \<exists>n. r = int n \<and> n + k \<le> 32 \<and> 0 < unat x \<and> unat x < 2 ^ k \<and>
        2 ^ n * unat x \<le> unat x0 \<and> unat x0 < 2 ^ n * (unat x + 1))"

lemma fls_stage_inv:
  assumes "fls_inv x0 (j + j) p"
  shows "fls_inv x0 j (fls_stage j p)"
proof -
  obtain x r where p: "p = (x, r)" by (cases p)
  from assms p obtain n where n: "r = int n" "n + (j + j) \<le> 32" "0 < unat x"
    "unat x < 2 ^ (j + j)" and lo: "2 ^ n * unat x \<le> unat x0" and hi: "unat x0 < 2 ^ n * (unat x + 1)"
    by (auto simp: fls_inv_def)
  have iff: "x AND push_bit j (mask j) \<noteq> 0 \<longleftrightarrow> 2 ^ j \<le> unat x"
    using n by (intro and_run_iff) auto
  show ?thesis
  proof (cases "2 ^ j \<le> unat x")
    case False
    then show ?thesis using iff n lo hi p by (auto simp: fls_stage_def fls_inv_def)
  next
    case True
    let ?y = "unat x div 2 ^ j"
    have d: "unat (drop_bit j x) = ?y" by (subst unat_drop_bit_eq) (rule drop_bit_eq_div)
    have y0: "0 < ?y" using True by (simp add: div_greater_zero_iff)
    have y1: "?y < 2 ^ j" using n(4) by (simp add: less_mult_imp_div_less power_add)
    have "2 ^ (n + j) * ?y = 2 ^ n * (2 ^ j * ?y)" by (simp add: power_add)
    also have "\<dots> \<le> 2 ^ n * unat x" by (rule mult_le_mono2) simp
    also note lo
    finally have lo': "2 ^ (n + j) * ?y \<le> unat x0" .
    have "unat x + 1 \<le> 2 ^ j * (?y + 1)"
      using dividend_less_times_div [of "2 ^ j" "unat x"] by simp
    then have "2 ^ n * (unat x + 1) \<le> 2 ^ n * (2 ^ j * (?y + 1))" by (rule mult_le_mono2)
    also have "\<dots> = 2 ^ (n + j) * (?y + 1)" by (simp only: power_add mult.assoc)
    finally have hi': "unat x0 < 2 ^ (n + j) * (?y + 1)" using hi by (rule order_less_le_trans [rotated])
    show ?thesis using iff True n lo' hi' y0 y1 p d
      by (auto simp: fls_stage_def fls_inv_def intro!: exI [of _ "n + j"])
  qed
qed

lemma fls_bounds:
  assumes "x \<noteq> 0"
  shows "\<exists>n. fls x = int (Suc n) \<and> n < 32 \<and> 2 ^ n \<le> unat x \<and> unat x < 2 ^ Suc n"
proof -
  have "0 < unat x" using assms by (simp add: unat_gt_0)
  moreover have "unat x < 2 ^ 32" using unsigned_less [of x] by simp
  ultimately have "fls_inv x (16 + 16) (x, 0)"
    unfolding fls_inv_def by (simp add: exI [of _ 0])
  then have "fls_inv x (8 + 8) (fls_stage 16 (x, 0))"
    by (drule_tac fls_stage_inv) simp
  then have "fls_inv x (4 + 4) (fls_stage 8 (fls_stage 16 (x, 0)))"
    by (drule_tac fls_stage_inv) simp
  then have "fls_inv x (2 + 2) (fls_stage 4 (fls_stage 8 (fls_stage 16 (x, 0))))"
    by (drule_tac fls_stage_inv) simp
  then have "fls_inv x (1 + 1) (fls_stage 2 (fls_stage 4 (fls_stage 8 (fls_stage 16 (x, 0)))))"
    by (drule_tac fls_stage_inv) (simp add: numeral_2_eq_2)
  then have I: "fls_inv x 1 (fls_stage 1 (fls_stage 2 (fls_stage 4 (fls_stage 8 (fls_stage 16 (x, 0))))))"
    by (rule fls_stage_inv)
  obtain y r where yr: "fls_stage 1 (fls_stage 2 (fls_stage 4 (fls_stage 8 (fls_stage 16 (x, 0))))) = (y, r)"
    by (rule prod.exhaust)
  with I obtain n where n': "r = int n" "n + 1 \<le> 32" "0 < unat y" "unat y < 2 ^ 1"
    "2 ^ n * unat y \<le> unat x" "unat x < 2 ^ n * (unat y + 1)"
    unfolding fls_inv_def by auto
  then have "unat y = 1" by simp
  with n' have n: "r = int n" "n < 32" "unat y = 1" "2 ^ n \<le> unat x" "unat x < 2 ^ n * 2"
    by simp_all
  then have "y = 1" by (intro unsigned_word_eqI [where 'a = nat]) simp
  then have "fls x = int (Suc n)"
    using fls_stages [OF assms] yr n by simp
  with n show ?thesis by (auto simp: mult.commute)
qed

lemma fls_0 [simp]: "fls 0 = 0"
  by (simp add: fls_def)

section \<open>Logarithms and powers of two\<close>

lemma ilog2_rounddown_bounds:
  assumes "n \<noteq> 0"
  shows "unat (ilog2_rounddown n) < 32 \<and> 2 ^ unat (ilog2_rounddown n) \<le> unat n \<and>
    unat n < 2 ^ Suc (unat (ilog2_rounddown n))"
proof -
  obtain k where k: "fls n = int (Suc k)" "k < 32" "2 ^ k \<le> unat n" "unat n < 2 ^ Suc k"
    using fls_bounds [OF assms] by blast
  then have "ilog2_rounddown n = of_nat k" by (simp add: ilog2_rounddown_def)
  moreover from k(2) have "unat (of_nat k :: u32) = k" by (intro unat_of_nat_u32) simp
  ultimately show ?thesis using k by simp
qed

lemma ilog2_roundup_bounds:
  assumes "n \<noteq> 0"
  shows "unat (ilog2_roundup n) \<le> 32 \<and> unat n \<le> 2 ^ unat (ilog2_roundup n) \<and>
    (\<forall>k. unat n \<le> 2 ^ k \<longrightarrow> unat (ilog2_roundup n) \<le> k)"
proof (cases "n = 1")
  case True
  then show ?thesis by (simp add: ilog2_roundup_def)
next
  case False
  with assms have m: "n - 1 \<noteq> 0" and u: "unat (n - 1) = unat n - 1"
    by (auto simp: unat_minus_one)
  have pos: "0 < unat n" using assms by (simp add: unat_gt_0)
  obtain k where k: "fls (n - 1) = int (Suc k)" "k < 32" "2 ^ k \<le> unat n - 1" "unat n - 1 < 2 ^ Suc k"
    using fls_bounds [OF m] u by auto
  then have "ilog2_roundup n = of_nat (Suc k)"
    using assms by (simp only: ilog2_roundup_def if_False of_int_of_nat_eq)
  moreover from k(2) have "unat (of_nat (Suc k) :: u32) = Suc k" by (intro unat_of_nat_u32) simp
  ultimately have e: "unat (ilog2_roundup n) = Suc k" by simp
  have "Suc k \<le> j" if "unat n \<le> 2 ^ j" for j
  proof -
    from k(3) pos have "2 ^ k < unat n" by linarith
    also note that
    finally have "k < j" by (simp add: power_strict_increasing_iff)
    then show ?thesis by simp
  qed
  then show ?thesis using e k pos by auto
qed

lemma ilog2_roundup_le_iff:
  "n \<noteq> 0 \<Longrightarrow> unat (ilog2_roundup n) \<le> k \<longleftrightarrow> unat n \<le> 2 ^ k"
  using ilog2_roundup_bounds [of n] by (meson le_trans one_le_numeral power_increasing)

lemma unat_push_bit_1: "k < 32 \<Longrightarrow> unat (push_bit k 1 :: u32) = 2 ^ k"
  by (simp add: push_bit_eq_mult unat_power2_u32)

lemma shift_left_1UL_eq:
  assumes "unat k < 32"
  shows "\<exists>r. shift_left_1UL k = Some r \<and> unat r = 2 ^ unat k"
proof -
  from assms have "k < 32" by (simp add: word_less_nat_alt)
  with unat_push_bit_1 [OF assms] show ?thesis by (auto simp: shift_left_1UL_def)
qed

lemma is_power_of_2_iff: "is_power_of_2 n \<longleftrightarrow> (\<exists>k < 32. unat n = 2 ^ k)"
proof
  assume p: "is_power_of_2 n"
  then have n0: "n \<noteq> 0" and z: "n AND (n - 1) = 0" by (auto simp: is_power_of_2_def)
  obtain k where k: "k < 32" "2 ^ k \<le> unat n" "unat n < 2 ^ Suc k"
    using ilog2_rounddown_bounds [OF n0] by blast
  have "unat n = 2 ^ k"
  proof (rule ccontr)
    assume "unat n \<noteq> 2 ^ k"
    with k have m: "2 ^ k \<le> unat n - 1" "unat n - 1 < 2 ^ Suc k" by auto
    have b: "bit w k" if "2 ^ k \<le> unat w" "unat w < 2 ^ Suc k" for w :: u32
    proof -
      from that have "unat w div 2 ^ k = 1" by (intro div_nat_eqI) auto
      then have "bit (unat w) k" by (simp add: bit_iff_odd)
      then show ?thesis by (simp add: bit_unsigned_iff)
    qed
    have "bit n k" by (rule b) (use k in auto)
    moreover have "bit (n - 1) k" by (rule b) (use m n0 in \<open>auto simp: unat_minus_one\<close>)
    ultimately have "bit (n AND (n - 1)) k" by (simp add: bit_simps)
    with z show False by simp
  qed
  with k(1) show "\<exists>k < 32. unat n = 2 ^ k" by blast
next
  assume "\<exists>k < 32. unat n = 2 ^ k"
  then obtain k where k: "k < 32" "unat n = 2 ^ k" by blast
  then have n: "n = push_bit k 1" by (intro unsigned_word_eqI [where 'a = nat]) (simp add: unat_power2_u32)
  have "n - 1 = mask k" by (simp add: n push_bit_eq_mult mask_eq_exp_minus_1)
  then have "n AND (n - 1) = 0" by (simp only: n) (auto intro!: bit_word_eqI simp: bit_simps)
  moreover have "n \<noteq> 0" using k by auto
  ultimately show "is_power_of_2 n" by (simp add: is_power_of_2_def)
qed

end
