(* ===== verification/Kstrings.thy ===== *)
theory Kstrings
  imports Buffers Bitops
begin

text \<open>
  Number formatting and parsing and the growing strings of \<^verbatim>\<open>libs/string.c\<close>.  A character buffer
  that only the function at hand uses is a list of bytes; reading or writing outside it is \<open>None\<close>.
  Signed overflow of \<open>int\<close> and \<open>long\<close> is undefined in C and is \<open>None\<close> too.

  The reference definitions \<open>dec_digits\<close> and \<open>hex_digits\<close> give the digits of a number, least
  significant first.
\<close>

section \<open>Formatting and parsing of numbers\<close>

definition get_byte :: "bytes \<Rightarrow> nat \<Rightarrow> u8 option" where
  "get_byte buf i = (if i < length buf then Some (buf ! i) else None)"

definition put_byte :: "bytes \<Rightarrow> nat \<Rightarrow> u8 \<Rightarrow> bytes option" where
  "put_byte buf i c = (if i < length buf then Some (buf[i := c]) else None)"

definition c_int :: "int \<Rightarrow> int option" where
  "c_int x = (if - (2 ^ 31) \<le> x \<and> x < 2 ^ 31 then Some x else None)"

function reverse_str :: "bytes \<Rightarrow> nat \<Rightarrow> nat \<Rightarrow> bytes option" where
  "reverse_str buf i j =
     (if i < j then
        do {
          c \<leftarrow> get_byte buf i;
          d \<leftarrow> get_byte buf j;
          buf \<leftarrow> put_byte buf i d;
          buf \<leftarrow> put_byte buf j c;
          reverse_str buf (i + 1) (j - 1)
        }
      else Some buf)"
  by pat_completeness auto
termination
  by (relation "measure (\<lambda>(buf, i, j). j - i)") auto

function to_str_loop :: "int \<Rightarrow> bytes \<Rightarrow> nat \<Rightarrow> (nat \<times> bytes) option" where
  "to_str_loop val buf i =
     (if val > 0 then
        do {
          buf \<leftarrow> put_byte buf i (of_int (48 + val mod 10));
          to_str_loop (val div 10) buf (i + 1)
        }
      else Some (i, buf))"
  by pat_completeness auto
termination
  by (relation "measure (\<lambda>(val, buf, i). nat val)") auto

definition to_str :: "int \<Rightarrow> bytes \<Rightarrow> (nat \<times> bytes) option" where
  "to_str val buf =
     (if val = 0 then do { buf \<leftarrow> put_byte buf 0 48; Some (1, buf) }
      else do {
        (i, val, buf, flag) \<leftarrow>
          (if val < 0 then
             do { buf \<leftarrow> put_byte buf 0 45; val \<leftarrow> c_int (val * -1); Some (1, val, buf, -1) }
           else Some (0, val, buf, 0 :: int));
        (i, buf) \<leftarrow> to_str_loop val buf i;
        buf \<leftarrow> reverse_str buf (if flag < 0 then 1 else 0) (i - 1);
        Some (i, buf)
      })"

definition str_hex :: bytes where
  "str_hex = [48, 49, 50, 51, 52, 53, 54, 55, 56, 57, 97, 98, 99, 100, 101, 102]"

function to_hex_loop :: "nat \<Rightarrow> bytes \<Rightarrow> nat \<Rightarrow> (nat \<times> bytes) option" where
  "to_hex_loop val buf i =
     (if val > 0 then
        do {
          c \<leftarrow> get_byte str_hex (val mod 16);
          buf \<leftarrow> put_byte buf i c;
          to_hex_loop (val div 16) buf (i + 1)
        }
      else Some (i, buf))"
  by pat_completeness auto
termination
  by (relation "measure (\<lambda>(val, buf, i). val)") auto

function to_hex_pad :: "bytes \<Rightarrow> nat \<Rightarrow> (nat \<times> bytes) option" where
  "to_hex_pad buf i =
     (if i < 10 then do { buf \<leftarrow> put_byte buf i 48; to_hex_pad buf (i + 1) } else Some (i, buf))"
  by pat_completeness auto
termination
  by (relation "measure (\<lambda>(buf, i). 10 - i)") auto

definition to_hex :: "nat \<Rightarrow> bytes \<Rightarrow> (nat \<times> bytes) option" where
  "to_hex val buf =
     do {
       buf \<leftarrow> put_byte buf 0 48;
       buf \<leftarrow> put_byte buf 1 120;
       (i, buf) \<leftarrow> to_hex_loop val buf 2;
       (i, buf) \<leftarrow> to_hex_pad buf i;
       buf \<leftarrow> reverse_str buf 2 (i - 1);
       Some (i, buf)
     }"

text \<open>\<open>strtol\<close> on the bytes from \<open>s\<close> on; the position of \<open>endptr\<close> is part of the result.\<close>

partial_function (option) skip_blanks :: "bytes \<Rightarrow> nat \<Rightarrow> nat option" where
  "skip_blanks s p =
     do { c \<leftarrow> get_byte s p; if c = 32 \<or> c = 9 then skip_blanks s (p + 1) else Some p }"

definition digit_value :: "u8 \<Rightarrow> int option" where
  "digit_value c =
     (if 48 \<le> c \<and> c \<le> 57 then Some (uint c - 48)
      else if 97 \<le> c \<and> c \<le> 122 then Some (uint c - 97 + 10)
      else if 65 \<le> c \<and> c \<le> 90 then Some (uint c - 65 + 10)
      else None)"

partial_function (option) strtol_digits :: "bytes \<Rightarrow> nat \<Rightarrow> int \<Rightarrow> int \<Rightarrow> (int \<times> nat) option" where
  "strtol_digits s p base val =
     do {
       c \<leftarrow> get_byte s p;
       case digit_value c of
         None \<Rightarrow> Some (val, p)
       | Some dig \<Rightarrow>
           if dig \<ge> base then Some (val, p)
           else do {
             v \<leftarrow> c_int (val * base);
             v \<leftarrow> c_int (v + dig);
             strtol_digits s (p + 1) base v
           }
     }"

definition strtol :: "bytes \<Rightarrow> int \<Rightarrow> (int \<times> nat) option" where
  "strtol s base =
     do {
       p \<leftarrow> skip_blanks s 0;
       c \<leftarrow> get_byte s p;
       let (p, neg) = (if c = 43 then (p + 1, False) else if c = 45 then (p + 1, True) else (p, False));
       c \<leftarrow> get_byte s p;
       d \<leftarrow> (if (base = 0 \<or> base = 16) \<and> c = 48 then get_byte s (p + 1) else Some 0);
       let (p, base) =
         (if (base = 0 \<or> base = 16) \<and> c = 48 \<and> d = 120 then (p + 2, 16)
          else if base = 0 \<and> c = 48 then (p + 1, 8)
          else if base = 0 then (p, 10)
          else (p, base));
       (val, p) \<leftarrow> strtol_digits s p base 0;
       r \<leftarrow> (if neg then c_int (- val) else Some val);
       Some (r, p)
     }"

declare skip_blanks.simps [code] strtol_digits.simps [code]

definition is_num :: "u8 \<Rightarrow> bool" where
  "is_num c \<longleftrightarrow> c \<ge> 48 \<and> c \<le> 57"

definition is_digit :: "u8 \<Rightarrow> bool" where
  "is_digit c \<longleftrightarrow> is_num c \<or> (c \<ge> 97 \<and> c \<le> 102)"

text \<open>\<open>hex_to_value\<close> on the bytes and the length of a string: \<open>Some None\<close> is the return code -1
  and \<open>Some (Some v)\<close> the return code 0 with the value written.\<close>

partial_function (option) hex_loop :: "bytes \<Rightarrow> nat \<Rightarrow> nat \<Rightarrow> int \<Rightarrow> int option option" where
  "hex_loop str len i v =
     (if i < 10 \<and> i < len then
        do {
          c \<leftarrow> get_byte str i;
          if \<not> is_digit c then Some None
          else do {
            w \<leftarrow> c_int (v * 16);
            w \<leftarrow> c_int (w + (if is_num c then uint c - 48 else 10 + uint c - 97));
            hex_loop str len (i + 1) w
          }
        }
      else Some (Some v))"

definition hex_to_value :: "bytes \<Rightarrow> nat \<Rightarrow> int option option" where
  "hex_to_value str len =
     do {
       c \<leftarrow> get_byte str 0;
       if c \<noteq> 48 then Some None
       else do {
         d \<leftarrow> get_byte str 1;
         if d \<noteq> 120 then Some None else hex_loop str len 2 0
       }
     }"

declare hex_loop.simps [code]

section \<open>Growing strings\<close>

text \<open>
  The string object owns its buffer: \<open>ks_str\<close> is \<open>None\<close> for the null pointer.  A C string passed to an
  append function is a list of bytes that has to contain the terminator.
\<close>

record kstring =
  ks_str :: "bytes option"
  ks_length :: nat
  ks_capacity :: nat

definition STRING_MIN_SIZE :: nat where "STRING_MIN_SIZE = 32"

definition sizeof_string :: nat where "sizeof_string = 12"

partial_function (option) strlen_buf :: "bytes \<Rightarrow> nat \<Rightarrow> nat option" where
  "strlen_buf s cnt =
     do { c \<leftarrow> get_byte s cnt; if c \<noteq> 0 then strlen_buf s (cnt + 1) else Some cnt }"

declare strlen_buf.simps [code]

fun strncpy_buf :: "bytes \<Rightarrow> nat \<Rightarrow> bytes \<Rightarrow> nat \<Rightarrow> nat \<Rightarrow> bytes option" where
  "strncpy_buf dst d src p 0 = Some dst"
| "strncpy_buf dst d src p (Suc len) =
     do {
       c \<leftarrow> get_byte src p;
       dst \<leftarrow> put_byte dst d c;
       strncpy_buf dst (d + 1) src (if c \<noteq> 0 then p + 1 else p) len
     }"

definition string_empty :: "kstring \<Rightarrow> bool" where
  "string_empty s \<longleftrightarrow> ks_length s = 0"

definition ksinit :: "bytes \<Rightarrow> nat \<Rightarrow> kstring" where
  "ksinit buf sz = \<lparr>ks_str = Some buf, ks_length = 0, ks_capacity = sz\<rparr>"

text \<open>The inner \<open>None\<close> is the null pointer that \<open>ksalloc\<close> returns.\<close>

definition ksalloc :: "alloc \<Rightarrow> kstring option option" where
  "ksalloc kmalloc =
     (case kmalloc sizeof_string of None \<Rightarrow> Some None
      | Some _ \<Rightarrow>
          (case kmalloc STRING_MIN_SIZE of None \<Rightarrow> Some None
           | Some str \<Rightarrow>
               do {
                 str \<leftarrow> put_byte str 0 0;
                 Some (Some \<lparr>ks_str = Some str, ks_length = 0, ks_capacity = STRING_MIN_SIZE\<rparr>)
               }))"

text \<open>
  The old block is given back with \<open>kfree\<close>, which does not show in the contents of the string.  For a string on a
  static buffer (\<open>ksinit\<close>) that call is an error; the users of such strings in the debug output check for it.
\<close>

definition string_try_expand :: "alloc \<Rightarrow> kstring \<Rightarrow> nat \<Rightarrow> (int \<times> kstring) option" where
  "string_try_expand kmalloc s sz =
     (if ks_capacity s \<ge> sz then Some (0, s)
      else do {
        r \<leftarrow> roundup_pow_of_two (of_nat (wrap32 (sz + 1)));
        let sz = unat r;
        assert (ks_capacity s < sz);
        case kmalloc sz of None \<Rightarrow> Some (- ENOMEM, s)
        | Some str \<Rightarrow>
            do {
              str \<leftarrow> (case ks_str s of None \<Rightarrow> Some str
                | Some old \<Rightarrow>
                    do {
                      str \<leftarrow> strncpy_buf str 0 old 0 (ks_length s);
                      _ \<leftarrow> put_byte old (ks_length s) 0;
                      Some str
                    });
              Some (0, s\<lparr>ks_capacity := sz, ks_str := Some str\<rparr>)
            }
      })"

definition ksappend_char :: "alloc \<Rightarrow> kstring \<Rightarrow> u8 \<Rightarrow> (int \<times> kstring) option" where
  "ksappend_char kmalloc s c =
     do {
       (ret, s) \<leftarrow> string_try_expand kmalloc s (wrap32 (ks_length s + 1));
       if ret \<noteq> 0 then Some (ret, s)
       else do {
         str \<leftarrow> ks_str s;
         str \<leftarrow> put_byte str (ks_length s) c;
         let n = wrap32 (ks_length s + 1);
         str \<leftarrow> put_byte str n 0;
         Some (0, s\<lparr>ks_length := n, ks_str := Some str\<rparr>)
       }
     }"

definition kspop_char :: "kstring \<Rightarrow> (u8 \<times> kstring) option" where
  "kspop_char s =
     (if ks_length s = 0 then Some (0, s)
      else do {
        str \<leftarrow> ks_str s;
        c \<leftarrow> get_byte str (ks_length s - 1);
        str \<leftarrow> put_byte str (ks_length s - 1) 0;
        Some (c, s\<lparr>ks_length := ks_length s - 1, ks_str := Some str\<rparr>)
      })"

definition ksappend_strn :: "alloc \<Rightarrow> kstring \<Rightarrow> bytes option \<Rightarrow> nat \<Rightarrow> (int \<times> kstring) option" where
  "ksappend_strn kmalloc s str len =
     (case str of None \<Rightarrow> Some (0, s)
      | Some str \<Rightarrow>
          do {
            n \<leftarrow> strlen_buf str 0;
            let len = (if n < len then n else len);
            (ret, s) \<leftarrow> string_try_expand kmalloc s (wrap32 (ks_length s + len));
            if ret \<noteq> 0 then Some (ret, s)
            else do {
              b \<leftarrow> ks_str s;
              b \<leftarrow> strncpy_buf b (ks_length s) str 0 len;
              let l = wrap32 (ks_length s + len);
              b \<leftarrow> put_byte b l 0;
              Some (0, s\<lparr>ks_length := l, ks_str := Some b\<rparr>)
            }
          })"

definition ksappend_str :: "alloc \<Rightarrow> kstring \<Rightarrow> bytes \<Rightarrow> (int \<times> kstring) option" where
  "ksappend_str kmalloc s str =
     do { n \<leftarrow> strlen_buf str 0; ksappend_strn kmalloc s (Some str) n }"

text \<open>The arguments of \<open>ksappend_args\<close> up to the end marker are a list.\<close>

fun ksappend_args :: "alloc \<Rightarrow> kstring \<Rightarrow> bytes list \<Rightarrow> (int \<times> kstring) option" where
  "ksappend_args kmalloc s [] = Some (0, s)"
| "ksappend_args kmalloc s (p # args) =
     do { (_, s) \<leftarrow> ksappend_str kmalloc s p; ksappend_args kmalloc s args }"

text \<open>The 32 bytes of the uninitialised local buffer are an argument.\<close>

definition ksappend_int :: "alloc \<Rightarrow> bytes \<Rightarrow> kstring \<Rightarrow> int \<Rightarrow> (int \<times> kstring) option" where
  "ksappend_int kmalloc buf s val =
     do { (len, buf) \<leftarrow> to_str val buf; ksappend_strn kmalloc s (Some buf) len }"

definition ksappend_hex :: "alloc \<Rightarrow> bytes \<Rightarrow> kstring \<Rightarrow> int \<Rightarrow> (int \<times> kstring) option" where
  "ksappend_hex kmalloc buf s val =
     do { (len, buf) \<leftarrow> to_hex (nat (val mod 2 ^ 32)) buf; ksappend_strn kmalloc s (Some buf) len }"

definition ksappend_kv :: "alloc \<Rightarrow> bytes \<Rightarrow> kstring \<Rightarrow> bytes \<Rightarrow> int \<Rightarrow> (int \<times> kstring) option" where
  "ksappend_kv kmalloc buf s key val =
     do {
       (_, s) \<leftarrow> ksappend_str kmalloc s key;
       (_, s) \<leftarrow> ksappend_int kmalloc buf s val;
       Some (0, s)
     }"

definition ksappend_kvx :: "alloc \<Rightarrow> bytes \<Rightarrow> kstring \<Rightarrow> bytes \<Rightarrow> int \<Rightarrow> (int \<times> kstring) option" where
  "ksappend_kvx kmalloc buf s key val =
     do {
       (_, s) \<leftarrow> ksappend_str kmalloc s key;
       (_, s) \<leftarrow> ksappend_hex kmalloc buf s val;
       Some (0, s)
     }"

text \<open>
  \<open>kssplit\<close>: the vector of string pointers is the list of the strings pushed so far.
\<close>

function kssplit_loop :: "alloc \<Rightarrow> kstring \<Rightarrow> u8 \<Rightarrow> nat \<Rightarrow> kstring option \<Rightarrow> kstring option list \<Rightarrow>
    (kstring option \<times> kstring option list) option" where
  "kssplit_loop kmalloc s c i sub vec =
     (if i < ks_length s then
        do {
          str \<leftarrow> ks_str s;
          x \<leftarrow> get_byte str i;
          if x = c then
            do {
              let vec = vec @ [sub];
              sub \<leftarrow> ksalloc kmalloc;
              kssplit_loop kmalloc s c (i + 1) sub vec
            }
          else
            do {
              sub \<leftarrow> sub;
              (_, sub) \<leftarrow> ksappend_char kmalloc sub x;
              kssplit_loop kmalloc s c (i + 1) (Some sub) vec
            }
        }
      else Some (sub, vec))"
  by pat_completeness auto
termination
  by (relation "measure (\<lambda>(kmalloc, s, c, i, sub, vec). ks_length s - i)") auto

declare kssplit_loop.simps [simp del]

definition kssplit :: "alloc \<Rightarrow> kstring \<Rightarrow> u8 \<Rightarrow> kstring option list \<Rightarrow> kstring option list option" where
  "kssplit kmalloc s c vec =
     do {
       sub \<leftarrow> ksalloc kmalloc;
       (sub, vec) \<leftarrow> kssplit_loop kmalloc s c 0 sub vec;
       sub \<leftarrow> sub;
       Some (if \<not> string_empty sub then vec @ [Some sub] else vec)
     }"

function ksfit_loop :: "bytes \<Rightarrow> nat \<Rightarrow> u8 \<Rightarrow> nat \<Rightarrow> bytes option" where
  "ksfit_loop str len c n =
     (if len < n then do { str \<leftarrow> put_byte str len c; ksfit_loop str (len + 1) c n } else Some str)"
  by pat_completeness auto
termination
  by (relation "measure (\<lambda>(str, len, c, n). n - len)") auto

declare ksfit_loop.simps [simp del]

definition ksfit :: "alloc \<Rightarrow> kstring \<Rightarrow> u8 \<Rightarrow> nat \<Rightarrow> (int \<times> kstring) option" where
  "ksfit kmalloc s c n =
     do {
       (ret, s) \<leftarrow> string_try_expand kmalloc s n;
       if ret \<noteq> 0 then Some (ret, s)
       else do {
         str \<leftarrow> ks_str s;
         str \<leftarrow> ksfit_loop str (ks_length s) c n;
         str \<leftarrow> put_byte str n 0;
         Some (0, s\<lparr>ks_str := Some str, ks_length := n\<rparr>)
       }
     }"

section \<open>Correctness of the number functions\<close>

lemma reverse_str_correct:
  "i = length xs \<Longrightarrow> Suc j = length xs + length ys \<Longrightarrow>
   reverse_str (xs @ ys @ zs) i j = Some (xs @ rev ys @ zs)"
proof (induction "length ys" arbitrary: xs ys zs i j rule: less_induct)
  case less
  show ?case
  proof (cases "length ys \<le> 1")
    case True
    then have "rev ys = ys" by (cases ys) auto
    then show ?thesis using less.prems True by simp
  next
    case False
    then obtain a m b where ys: "ys = a # m @ [b]"
      by (metis One_nat_def le_refl length_Cons list.exhaust list.size(3) not_less_eq_eq rev_exhaust zero_le)
    have j: "j = length xs + Suc (length m)" using less.prems ys by simp
    have u: "(xs @ a # m @ b # zs)[length xs := b, j := a] = (xs @ [b]) @ m @ a # zs"
      unfolding j by (simp add: list_update_append nth_append)
    have "reverse_str (xs @ ys @ zs) i j = reverse_str ((xs @ [b]) @ m @ a # zs) (i + 1) (j - 1)"
      using less.prems u by (simp add: ys j get_byte_def put_byte_def nth_append)
    also have "\<dots> = Some ((xs @ [b]) @ rev m @ a # zs)"
      using less.prems ys j by (intro less.hyps) auto
    finally show ?thesis by (simp add: ys)
  qed
qed

declare reverse_str.simps [simp del] to_str_loop.simps [simp del] to_hex_loop.simps [simp del]
  to_hex_pad.simps [simp del]

fun digits_of :: "nat \<Rightarrow> nat \<Rightarrow> nat list" where
  "digits_of b n = (if n = 0 \<or> b < 2 then [] else n mod b # digits_of b (n div b))"

declare digits_of.simps [simp del]

definition num_of :: "nat \<Rightarrow> nat list \<Rightarrow> nat" where
  "num_of b ds = foldr (\<lambda>d v. v * b + d) ds 0"

lemma num_of_simps [simp]: "num_of b [] = 0" "num_of b (d # ds) = num_of b ds * b + d"
  by (simp_all add: num_of_def)

lemma num_of_digits: "2 \<le> b \<Longrightarrow> num_of b (digits_of b n) = n"
  by (induction b n rule: digits_of.induct) (simp add: digits_of.simps)

lemma num_of_zeros [simp]: "num_of b (ds @ replicate k 0) = num_of b ds"
proof -
  have "num_of b (replicate k 0) = 0" by (induction k) auto
  then show ?thesis by (induction ds) auto
qed

lemma digits_of_less: "2 \<le> b \<Longrightarrow> d \<in> set (digits_of b n) \<Longrightarrow> d < b"
  by (induction b n rule: digits_of.induct) (subst (asm) (2) digits_of.simps, auto split: if_splits)

lemma digits_of_length: "2 \<le> b \<Longrightarrow> n < b ^ k \<Longrightarrow> length (digits_of b n) \<le> k"
proof (induction k arbitrary: n)
  case 0
  then show ?case by (simp add: digits_of.simps)
next
  case (Suc k)
  then have "n div b < b ^ k" by (simp add: less_mult_imp_div_less mult.commute)
  with Suc show ?case by (subst digits_of.simps) auto
qed

definition dchar :: "nat \<Rightarrow> u8" where
  "dchar d = of_nat (48 + d)"

definition hchar :: "nat \<Rightarrow> u8" where
  "hchar d = str_hex ! d"

lemma uint_dchar: "d < 10 \<Longrightarrow> uint (dchar d) = 48 + int d"
proof -
  assume "d < 10"
  then have "unat (dchar d) = 48 + d" unfolding dchar_def by (simp only: unat_of_nat) simp
  then show ?thesis by (metis of_nat_add of_nat_numeral uint_nat)
qed

lemma digit_value_dchar: "d < 10 \<Longrightarrow> digit_value (dchar d) = Some (int d)"
  by (simp add: digit_value_def word_le_def uint_dchar)

lemma to_str_loop_correct:
  "length (digits_of 10 n) \<le> length ys \<Longrightarrow>
   to_str_loop (int n) (xs @ ys) (length xs)
     = Some (length xs + length (digits_of 10 n),
             xs @ map dchar (digits_of 10 n) @ drop (length (digits_of 10 n)) ys)"
proof (induction "10 :: nat" n arbitrary: xs ys rule: digits_of.induct)
  case (1 n)
  show ?case
  proof (cases "n = 0")
    case True
    then show ?thesis by (simp add: digits_of.simps to_str_loop.simps)
  next
    case False
    have ds: "digits_of 10 n = n mod 10 # digits_of 10 (n div 10)"
      using False by (subst digits_of.simps) simp
    obtain y ys' where ys: "ys = y # ys'" using 1(2) ds by (cases ys) auto
    have c: "word_of_int (48 + int n mod 10) = dchar (n mod 10)"
      unfolding dchar_def by (metis of_nat_add of_int_of_nat_eq of_nat_numeral zmod_int)
    have "to_str_loop (int n) (xs @ ys) (length xs)
        = to_str_loop (int (n div 10)) ((xs @ [dchar (n mod 10)]) @ ys') (length (xs @ [dchar (n mod 10)]))"
      using False by (subst to_str_loop.simps) (simp add: put_byte_def ys c [simplified] zdiv_int)
    also have "\<dots> = Some (length xs + length (digits_of 10 n),
             xs @ map dchar (digits_of 10 n) @ drop (length (digits_of 10 n)) ys)"
      using False 1(2) by (subst 1(1)) (auto simp: ds ys)
    finally show ?thesis .
  qed
qed

lemma strtol_digits_correct:
  assumes "\<forall>d\<in>set ds. d < 10" "num_of 10 (rev ds) < 2 ^ 31" "digit_value z = None"
  shows "strtol_digits (xs @ map dchar ds @ z # zs) (length xs) 10 0
           = Some (int (num_of 10 (rev ds)), length xs + length ds)"
proof -
  have "strtol_digits (xs @ map dchar ds @ z # zs) (length xs + length es) 10 (int (num_of 10 (rev es)))
           = Some (int (num_of 10 (rev ds)), length xs + length ds)" if "ds = es @ fs" for es fs
    using that
  proof (induction fs arbitrary: es)
    case Nil
    then show ?case
      using assms(3) by (subst strtol_digits.simps) (simp add: get_byte_def nth_append)
  next
    case (Cons f fs)
    have f: "f < 10" using assms(1) Cons.prems by simp
    have le: "num_of 10 a \<le> num_of 10 (b @ a)" for a b
    proof (induction b)
      case (Cons x b)
      then show ?case by simp
    qed simp
    have "num_of 10 (rev (es @ [f])) \<le> num_of 10 (rev ds)"
      using le [of "rev (es @ [f])" "rev fs"] Cons.prems by simp
    then have b: "num_of 10 (rev es) * 10 + f < 2 ^ 31" using assms(2) by simp
    have v: "c_int (int (num_of 10 (rev es)) * 10) = Some (int (num_of 10 (rev es)) * 10)"
      "c_int (int (num_of 10 (rev es)) * 10 + int f) = Some (int (num_of 10 (rev (es @ [f]))))"
      using b by (simp_all add: c_int_def)
    have "get_byte (xs @ map dchar ds @ z # zs) (length xs + length es) = Some (dchar f)"
      using Cons.prems by (simp add: get_byte_def nth_append)
    then show ?case
      using Cons.IH [of "es @ [f]"] Cons.prems f v
      by (subst strtol_digits.simps) (simp add: digit_value_dchar)
  qed
  from this [of "[]" ds] show ?thesis by simp
qed

definition dec_str :: "int \<Rightarrow> bytes" where
  "dec_str val =
     (if val = 0 then [48]
      else (if val < 0 then [45] else []) @ map dchar (rev (digits_of 10 (nat \<bar>val\<bar>))))"

lemma dec_str_length:
  assumes "\<bar>val\<bar> < 2 ^ 31"
  shows "length (dec_str val) \<le> 11"
proof -
  have "nat \<bar>val\<bar> < 10 ^ 10" using assms by simp
  from digits_of_length [OF _ this] show ?thesis by (auto simp: dec_str_def)
qed

lemma digits_of_Nil: "n \<noteq> 0 \<Longrightarrow> digits_of 10 n \<noteq> []"
  by (subst digits_of.simps) simp

lemma to_str_correct:
  assumes v: "\<bar>val\<bar> < 2 ^ 31" and l: "length (dec_str val) \<le> length buf"
  shows "to_str val buf = Some (length (dec_str val), dec_str val @ drop (length (dec_str val)) buf)"
proof -
  let ?ds = "digits_of 10 (nat \<bar>val\<bar>)"
  consider "val = 0" | "val < 0" | "val > 0" by linarith
  then show ?thesis
  proof cases
    case 1
    then obtain b bs where "buf = b # bs" using l by (cases buf) (auto simp: dec_str_def)
    then show ?thesis using 1 by (simp add: to_str_def dec_str_def put_byte_def)
  next
    case 2
    then obtain b bs where buf: "buf = b # bs" using l by (cases buf) (auto simp: dec_str_def)
    have l': "length ?ds \<le> length bs" using l 2 by (simp add: dec_str_def buf)
    have c: "c_int (- val) = Some (- val)" using v 2 by (simp add: c_int_def)
    have loop: "to_str_loop (- val) (45 # bs) 1
        = Some (1 + length ?ds, 45 # map dchar ?ds @ drop (length ?ds) bs)"
      using to_str_loop_correct [of "nat (- val)" bs "[45]"] l' 2 by simp
    have "reverse_str (45 # map dchar ?ds @ drop (length ?ds) bs) 1 (length ?ds)
        = Some (45 # rev (map dchar ?ds) @ drop (length ?ds) bs)"
      using reverse_str_correct [of 1 "[45]" "length ?ds" "map dchar ?ds"] by simp
    then show ?thesis
      using 2 c loop by (simp add: to_str_def dec_str_def buf put_byte_def rev_map)
  next
    case 3
    have l': "length ?ds \<le> length buf" using l 3 by (simp add: dec_str_def)
    have loop: "to_str_loop val buf 0 = Some (length ?ds, map dchar ?ds @ drop (length ?ds) buf)"
      using to_str_loop_correct [of "nat val" buf "[]"] l' 3 by simp
    have "Suc (length ?ds - 1) = length ?ds" using digits_of_Nil [of "nat \<bar>val\<bar>"] 3 by simp
    then have "reverse_str (map dchar ?ds @ drop (length ?ds) buf) 0 (length ?ds - 1)
        = Some (rev (map dchar ?ds) @ drop (length ?ds) buf)"
      using reverse_str_correct [of 0 "[]" "length ?ds - 1" "map dchar ?ds"] by simp
    then show ?thesis
      using 3 loop by (simp add: to_str_def dec_str_def rev_map)
  qed
qed

lemma digit_value_nul [simp]: "digit_value 0 = None"
  by (simp add: digit_value_def)

lemma strtol_dec_str:
  assumes v: "\<bar>val\<bar> < 2 ^ 31"
  shows "strtol (dec_str val @ 0 # zs) 10 = Some (val, length (dec_str val))"
proof -
  let ?ds = "rev (digits_of 10 (nat \<bar>val\<bar>))"
  have ds: "\<forall>d\<in>set ?ds. d < 10" "num_of 10 (rev ?ds) = nat \<bar>val\<bar>"
    using digits_of_less [of 10] by (auto simp: num_of_digits)
  note digs = strtol_digits_correct [OF ds(1), of 0]
  consider "val = 0" | "val < 0" | "val > 0" by linarith
  then show ?thesis
  proof cases
    case 1
    have "strtol_digits (map dchar [0] @ 0 # zs) 0 10 0 = Some (0, 1)"
      using strtol_digits_correct [of "[0]" 0 "[]" zs] by simp
    then show ?thesis
      using 1 by (simp add: strtol_def dec_str_def skip_blanks.simps get_byte_def dchar_def)
  next
    case 2
    have "strtol_digits (45 # map dchar ?ds @ 0 # zs) 1 10 0 = Some (- val, 1 + length ?ds)"
      using digs [of "[45]" zs] ds(2) v 2 by simp
    moreover have "c_int val = Some val" using v 2 by (simp add: c_int_def)
    ultimately show ?thesis
      using 2 by (simp add: strtol_def dec_str_def skip_blanks.simps get_byte_def)
  next
    case 3
    have loop: "strtol_digits (map dchar ?ds @ 0 # zs) 0 10 0 = Some (val, length ?ds)"
      using digs [of "[]" zs] ds(2) v 3 by simp
    obtain d es where d: "?ds = d # es" "d < 10"
      using digits_of_Nil [of "nat \<bar>val\<bar>"] 3 ds(1) by (cases ?ds) auto
    have "48 \<le> uint (dchar d)" using d(2) by (simp add: uint_dchar)
    then have n: "dchar d \<noteq> 32" "dchar d \<noteq> 9" "dchar d \<noteq> 43" "dchar d \<noteq> 45" by auto
    show ?thesis
      using 3 loop d(1) n by (simp add: strtol_def dec_str_def skip_blanks.simps get_byte_def)
  qed
qed

text \<open>Hexadecimal.\<close>

definition hex_str :: "nat \<Rightarrow> bytes" where
  "hex_str val =
     [48, 120] @ map hchar (rev (digits_of 16 val @ replicate (8 - length (digits_of 16 val)) 0))"

lemma to_hex_loop_correct:
  "length (digits_of 16 n) \<le> length ys \<Longrightarrow>
   to_hex_loop n (xs @ ys) (length xs)
     = Some (length xs + length (digits_of 16 n),
             xs @ map hchar (digits_of 16 n) @ drop (length (digits_of 16 n)) ys)"
proof (induction "16 :: nat" n arbitrary: xs ys rule: digits_of.induct)
  case (1 n)
  show ?case
  proof (cases "n = 0")
    case True
    then show ?thesis by (simp add: digits_of.simps to_hex_loop.simps)
  next
    case False
    have ds: "digits_of 16 n = n mod 16 # digits_of 16 (n div 16)"
      using False by (subst digits_of.simps) simp
    obtain y ys' where ys: "ys = y # ys'" using 1(2) ds by (cases ys) auto
    have c: "get_byte str_hex (n mod 16) = Some (hchar (n mod 16))"
      by (simp add: get_byte_def hchar_def str_hex_def)
    have "to_hex_loop n (xs @ ys) (length xs)
        = to_hex_loop (n div 16) ((xs @ [hchar (n mod 16)]) @ ys') (length (xs @ [hchar (n mod 16)]))"
      using False by (subst to_hex_loop.simps) (simp add: put_byte_def ys c)
    also have "\<dots> = Some (length xs + length (digits_of 16 n),
             xs @ map hchar (digits_of 16 n) @ drop (length (digits_of 16 n)) ys)"
      using False 1(2) by (subst 1(1)) (auto simp: ds ys)
    finally show ?thesis .
  qed
qed

lemma to_hex_pad_correct:
  "10 - length xs \<le> length ys \<Longrightarrow>
   to_hex_pad (xs @ ys) (length xs)
     = Some (max 10 (length xs), xs @ replicate (10 - length xs) 48 @ drop (10 - length xs) ys)"
proof (induction "10 - length xs" arbitrary: xs ys)
  case 0
  then show ?case by (subst to_hex_pad.simps) simp
next
  case (Suc k)
  then obtain y ys' where ys: "ys = y # ys'" by (cases ys) auto
  have "10 - length xs = Suc (10 - length (xs @ [48 :: u8]))" using Suc.hyps by simp
  then show ?case
    using Suc.hyps(1) [of "xs @ [48]" ys'] Suc.hyps(2) Suc.prems
    by (subst to_hex_pad.simps) (auto simp: ys put_byte_def)
qed

lemma to_hex_correct:
  assumes v: "val < 2 ^ 32" and l: "10 \<le> length buf"
  shows "to_hex val buf = Some (10, hex_str val @ drop 10 buf)"
proof -
  let ?ds = "digits_of 16 val"
  obtain a b bs where buf: "buf = a # b # bs" using l by (cases buf; cases "tl buf") auto
  have "val < 16 ^ 8" using v by simp
  then have dl: "length ?ds \<le> 8" by (rule digits_of_length [rotated]) simp
  have loop: "to_hex_loop val (48 # 120 # bs) 2
      = Some (2 + length ?ds, 48 # 120 # map hchar ?ds @ drop (length ?ds) bs)"
    using to_hex_loop_correct [of val bs "[48, 120]"] dl l by (simp add: buf numeral_2_eq_2)
  let ?xs = "48 # 120 # map hchar ?ds"
  have h0: "hchar 0 = 48" by (simp add: hchar_def str_hex_def)
  have pad: "to_hex_pad (?xs @ drop (length ?ds) bs) (2 + length ?ds)
      = Some (10, ?xs @ replicate (8 - length ?ds) 48 @ drop 8 bs)"
    using to_hex_pad_correct [of ?xs "drop (length ?ds) bs"] dl l by (simp add: buf numeral_2_eq_2)
  have "reverse_str ([48, 120] @ (map hchar ?ds @ replicate (8 - length ?ds) 48) @ drop 8 bs) 2 9
      = Some ([48, 120] @ rev (map hchar ?ds @ replicate (8 - length ?ds) 48) @ drop 8 bs)"
    using dl by (intro reverse_str_correct) auto
  then show ?thesis
    using loop pad by (simp add: to_hex_def buf put_byte_def hex_str_def rev_map h0)
qed

definition hex_val :: "u8 \<Rightarrow> int" where
  "hex_val c = (if is_num c then uint c - 48 else 10 + uint c - 97)"

lemma hchar_props: "d < 16 \<Longrightarrow> is_digit (hchar d) \<and> hex_val (hchar d) = int d \<and> hchar d \<noteq> 0"
proof -
  have "list_all (\<lambda>d. is_digit (hchar d) \<and> hex_val (hchar d) = int d \<and> hchar d \<noteq> 0) [0..<16]"
    by code_simp
  then show "d < 16 \<Longrightarrow> ?thesis" by (simp add: list_all_iff)
qed

lemma num_of_append_le: "0 < b \<Longrightarrow> num_of b a \<le> num_of b (c @ a)"
proof (induction c)
  case (Cons x c)
  then have "num_of b a \<le> num_of b (c @ a)" by simp
  also have "\<dots> \<le> num_of b (c @ a) * b" using \<open>0 < b\<close> by simp
  finally show ?case by simp
qed simp

lemma hex_loop_correct:
  assumes ds: "\<forall>d\<in>set ds. d < 16" "num_of 16 (rev ds) < 2 ^ 31" "length ds = 8"
  shows "hex_loop (48 # 120 # map hchar ds) 10 2 0 = Some (Some (int (num_of 16 (rev ds))))"
proof -
  have "hex_loop (48 # 120 # map hchar ds) 10 (2 + length es) (int (num_of 16 (rev es)))
      = Some (Some (int (num_of 16 (rev ds))))" if "ds = es @ fs" for es fs
    using that
  proof (induction fs arbitrary: es)
    case Nil
    then show ?case using ds(3) by (subst hex_loop.simps) simp
  next
    case (Cons f fs)
    have f: "f < 16" using ds(1) Cons.prems by simp
    have "num_of 16 (rev (es @ [f])) \<le> num_of 16 (rev ds)"
      using num_of_append_le [of 16 "rev (es @ [f])" "rev fs"] Cons.prems by simp
    then have b: "num_of 16 (rev es) * 16 + f < 2 ^ 31" using ds(2) by simp
    have v: "c_int (int (num_of 16 (rev es)) * 16) = Some (int (num_of 16 (rev es)) * 16)"
      "c_int (int (num_of 16 (rev es)) * 16 + int f) = Some (int (num_of 16 (rev (es @ [f]))))"
      using b by (simp_all add: c_int_def)
    have g: "get_byte (48 # 120 # map hchar ds) (2 + length es) = Some (hchar f)"
      using Cons.prems by (simp add: get_byte_def nth_append)
    have len: "2 + length es < 10" using ds(3) Cons.prems by simp
    show ?case
      using Cons.IH [of "es @ [f]"] Cons.prems hchar_props [OF f] v g len
      by (subst hex_loop.simps) (simp add: hex_val_def)
  qed
  from this [of "[]" ds] show ?thesis by simp
qed

lemma hex_str_length: "val < 2 ^ 32 \<Longrightarrow> length (hex_str val) = 10"
  using digits_of_length [of 16 val 8] by (simp add: hex_str_def)

lemma hex_to_value_hex_str:
  assumes "val < 2 ^ 31"
  shows "hex_to_value (hex_str val) 10 = Some (Some (int val))"
proof -
  let ?ds = "digits_of 16 val @ replicate (8 - length (digits_of 16 val)) 0"
  have "length (digits_of 16 val) \<le> 8" using assms by (intro digits_of_length) simp_all
  moreover have "\<forall>d\<in>set (rev ?ds). d < 16" using digits_of_less [of 16] by auto
  ultimately show ?thesis
    using hex_loop_correct [of "rev ?ds"] assms
    by (simp add: hex_to_value_def hex_str_def get_byte_def num_of_digits)
qed

lemma dec_str_nonzero: "0 \<notin> set (dec_str val)"
proof -
  have "dchar d \<noteq> 0" if "d < 10" for d
    using uint_dchar [OF that] by (cases "dchar d = 0") simp_all
  then show ?thesis using digits_of_less [of 10] by (auto simp: dec_str_def)
qed

lemma hex_str_nonzero: "0 \<notin> set (hex_str val)"
  using digits_of_less [of 16] hchar_props by (auto simp: hex_str_def)

section \<open>Correctness of the growing strings\<close>

definition ks_inv :: "kstring \<Rightarrow> bool" where
  "ks_inv s \<longleftrightarrow>
     (case ks_str s of None \<Rightarrow> False
      | Some str \<Rightarrow> length str = ks_capacity s \<and> ks_capacity s \<le> 2 ^ 30 \<and>
          ks_length s < ks_capacity s \<and> str ! ks_length s = 0 \<and> 0 \<notin> set (take (ks_length s) str))"

definition ks_content :: "kstring \<Rightarrow> bytes" where
  "ks_content s = (case ks_str s of None \<Rightarrow> [] | Some str \<Rightarrow> take (ks_length s) str)"

lemma roundup_pow_of_two_ge:
  assumes "n < 2 ^ 31"
  shows "\<exists>r. roundup_pow_of_two (of_nat (n + 1)) = Some r \<and> n < unat r"
proof -
  have u: "unat (of_nat (n + 1) :: u32) = n + 1" using assms by (intro unat_of_nat_u32) simp
  then have "(of_nat (n + 1) :: u32) \<noteq> 0" by (metis add_is_0 one_neq_zero unat_0)
  note b = ilog2_roundup_bounds [OF this] ilog2_roundup_le_iff [OF this, of 31]
  have "unat (ilog2_roundup (of_nat (n + 1))) < 32" using b(2) u assms by simp
  from shift_left_1UL_eq [OF this] show ?thesis
    using b(1) u by (auto simp: roundup_pow_of_two_def simp del: of_nat_Suc of_nat_add)
qed

lemma strlen_buf_correct:
  assumes "0 \<notin> set xs"
  shows "strlen_buf (xs @ 0 # ys) 0 = Some (length xs)"
proof -
  have "strlen_buf (xs @ 0 # ys) (length as) = Some (length xs)" if "xs = as @ bs" for as bs
    using that
  proof (induction bs arbitrary: as)
    case Nil
    then show ?case by (subst strlen_buf.simps) (simp add: get_byte_def)
  next
    case (Cons b bs)
    then show ?case
      using Cons.IH [of "as @ [b]"] assms by (subst strlen_buf.simps) (auto simp: get_byte_def nth_append)
  qed
  from this [of "[]" xs] show ?thesis by simp
qed

lemma strncpy_buf_correct:
  "0 \<notin> set (take n (drop p src)) \<Longrightarrow> p + n \<le> length src \<Longrightarrow> d + n \<le> length dst \<Longrightarrow>
   strncpy_buf dst d src p n = Some (take d dst @ take n (drop p src) @ drop (d + n) dst)"
proof (induction n arbitrary: dst d p)
  case (Suc n)
  have t: "take (Suc n) (drop p src) = src ! p # take n (drop (Suc p) src)"
    using Suc.prems(2) by (simp add: Cons_nth_drop_Suc [symmetric])
  have c: "src ! p \<noteq> 0" "0 \<notin> set (take n (drop (Suc p) src))" using Suc.prems(1) t by auto
  have u: "dst[d := x] = take d dst @ x # drop (Suc d) dst" for x
    using Suc.prems(3) by (simp add: upd_conv_take_nth_drop)
  show ?case
    using Suc.IH [of "Suc p" "Suc d" "dst[d := src ! p]"] Suc.prems c t
    by (simp add: get_byte_def put_byte_def u min_def add.commute)
qed simp

lemma ks_inv_str:
  assumes "ks_inv s"
  obtains str where "ks_str s = Some str" "length str = ks_capacity s" "ks_capacity s \<le> 2 ^ 30"
    "ks_length s < ks_capacity s" "str ! ks_length s = 0" "0 \<notin> set (take (ks_length s) str)"
    "ks_content s = take (ks_length s) str"
  using assms by (auto simp: ks_inv_def ks_content_def split: option.splits)

text \<open>
  After \<open>string_try_expand\<close> the new buffer has the old content, is long enough, and is not terminated.
\<close>

lemma string_try_expand_correct:
  assumes I: "ks_inv s" and k: "alloc_ok kmalloc" and sz: "sz < 2 ^ 31"
  shows "string_try_expand kmalloc s sz = Some (- ENOMEM, s) \<or>
    (\<exists>str cap. string_try_expand kmalloc s sz = Some (0, s\<lparr>ks_capacity := cap, ks_str := Some str\<rparr>) \<and>
      length str = cap \<and> cap \<le> 2 ^ 30 \<and> take (ks_length s) str = ks_content s \<and>
      (if sz \<le> ks_capacity s then cap = ks_capacity s else sz < cap))"
proof (cases "sz \<le> ks_capacity s")
  case True
  obtain str where st: "ks_str s = Some str" "length str = ks_capacity s" "ks_capacity s \<le> 2 ^ 30"
    "ks_content s = take (ks_length s) str" using ks_inv_str [OF I] by metis
  have "s = s\<lparr>ks_capacity := ks_capacity s, ks_str := Some str\<rparr>" using st(1) by simp
  then have "string_try_expand kmalloc s sz = Some (0, s\<lparr>ks_capacity := ks_capacity s, ks_str := Some str\<rparr>)"
    using True by (simp add: string_try_expand_def)
  with st True show ?thesis
    by (intro disjI2 exI [of _ str] exI [of _ "ks_capacity s"]) simp
next
  case False
  obtain old where st: "ks_str s = Some old" "length old = ks_capacity s" "ks_capacity s \<le> 2 ^ 30"
    "ks_length s < ks_capacity s" "0 \<notin> set (take (ks_length s) old)"
    "ks_content s = take (ks_length s) old" using ks_inv_str [OF I] by metis
  obtain r where r: "roundup_pow_of_two (of_nat (sz + 1)) = Some r" "sz < unat r"
    using roundup_pow_of_two_ge [OF sz] by blast
  have w: "wrap32 (sz + 1) = sz + 1" using sz by simp
  show ?thesis
  proof (cases "kmalloc (unat r)")
    case None
    then show ?thesis using False r w by (simp add: string_try_expand_def del: of_nat_Suc of_nat_add)
  next
    case (Some str)
    then have l: "length str = unat r" "unat r \<le> 2 ^ 30" using k by (auto simp: alloc_ok_def)
    let ?str = "take (ks_length s) old @ drop (ks_length s) str"
    have c: "strncpy_buf str 0 old 0 (ks_length s) = Some ?str"
      using strncpy_buf_correct [of "ks_length s" 0 old 0 str] st l r(2) False by simp
    have "string_try_expand kmalloc s sz = Some (0, s\<lparr>ks_capacity := unat r, ks_str := Some ?str\<rparr>)"
      using False r w Some c st
      by (simp add: string_try_expand_def put_byte_def del: of_nat_Suc of_nat_add)
    moreover have "length ?str = unat r" "take (ks_length s) ?str = ks_content s"
      using st l r(2) False by simp_all
    ultimately show ?thesis
      using l(2) r(2) False by (intro disjI2 exI [of _ ?str] exI [of _ "unat r"]) simp
  qed
qed

definition ks_append_ok :: "kstring \<Rightarrow> bytes \<Rightarrow> (int \<times> kstring) option \<Rightarrow> bool" where
  "ks_append_ok s xs r \<longleftrightarrow> r = Some (- ENOMEM, s) \<or>
     (\<exists>s'. r = Some (0, s') \<and> ks_inv s' \<and> ks_content s' = ks_content s @ xs)"

lemma ks_updates:
  "s\<lparr>ks_capacity := c, ks_length := l, ks_str := b\<rparr> = \<lparr>ks_str = b, ks_length = l, ks_capacity = c\<rparr>"
  "s\<lparr>ks_length := l, ks_str := b\<rparr> = \<lparr>ks_str = b, ks_length = l, ks_capacity = ks_capacity s\<rparr>"
  by (cases s; simp)+

lemma ks_written_inv:
  assumes str: "length str = cap" "cap \<le> 2 ^ 30" "take l str = xs" "l + length ys < cap"
    and nz: "0 \<notin> set xs" "0 \<notin> set ys" and l: "l \<le> length str"
  defines "t \<equiv> (take l str @ ys @ drop (l + length ys) str)[l + length ys := 0]"
  shows "ks_inv \<lparr>ks_str = Some t, ks_length = l + length ys, ks_capacity = cap\<rparr>"
    "ks_content \<lparr>ks_str = Some t, ks_length = l + length ys, ks_capacity = cap\<rparr> = xs @ ys"
proof -
  have lx: "length xs = l" using str(3) l by auto
  then have "take (l + length ys) t = xs @ ys" "length t = cap"
    using str l by (simp_all add: t_def)
  then show "ks_inv \<lparr>ks_str = Some t, ks_length = l + length ys, ks_capacity = cap\<rparr>"
    "ks_content \<lparr>ks_str = Some t, ks_length = l + length ys, ks_capacity = cap\<rparr> = xs @ ys"
    using str nz lx by (simp_all add: ks_inv_def ks_content_def t_def nth_append)
qed

lemma ks_content_nonzero: "ks_inv s \<Longrightarrow> 0 \<notin> set (ks_content s)"
  by (erule ks_inv_str) simp

lemma ks_content_length: "ks_inv s \<Longrightarrow> length (ks_content s) = ks_length s"
  by (erule ks_inv_str) simp

lemma ksappend_strn_correct:
  assumes I: "ks_inv s" and k: "alloc_ok kmalloc" and xs: "0 \<notin> set xs"
    and m: "m = min (length xs) n" "m < 2 ^ 30" and cap: "ks_length s + m \<noteq> ks_capacity s"
  shows "ks_append_ok s (take m xs) (ksappend_strn kmalloc s (Some (xs @ 0 # junk)) n)"
proof -
  let ?l = "ks_length s"
  have l: "?l < 2 ^ 30" using I by (auto elim!: ks_inv_str)
  have w: "wrap32 (?l + m) = ?l + m" using l m(2) by simp
  have mn: "(if length xs < n then length xs else n) = m" using m(1) by simp
  have sz: "?l + m < 2 ^ 31" using l m(2) by simp
  consider (fail) "string_try_expand kmalloc s (?l + m) = Some (- ENOMEM, s)"
    | (ok) str c where "string_try_expand kmalloc s (?l + m) = Some (0, s\<lparr>ks_capacity := c, ks_str := Some str\<rparr>)"
      "length str = c" "c \<le> 2 ^ 30" "take ?l str = ks_content s"
      "if ?l + m \<le> ks_capacity s then c = ks_capacity s else ?l + m < c"
    using string_try_expand_correct [OF I k sz] by blast
  then show ?thesis
  proof cases
    case fail
    then show ?thesis
      using strlen_buf_correct [OF xs] by (simp add: ksappend_strn_def ks_append_ok_def mn w errno_defs)
  next
    case ok
    have lt: "?l + m < c" using ok(5) cap by (simp split: if_splits)
    have tm: "take m (xs @ 0 # junk) = take m xs" using m(1) by simp
    have nz: "0 \<notin> set (take m xs)" using xs by (meson in_set_takeD)
    have len: "length (take m xs) = m" using m(1) by simp
    let ?b = "take ?l str @ take m xs @ drop (?l + m) str"
    have c: "strncpy_buf str ?l (xs @ 0 # junk) 0 m = Some ?b"
      using strncpy_buf_correct [of m 0 "xs @ 0 # junk" ?l str] nz lt ok(2) m(1) by (simp add: tm)
    let ?s = "\<lparr>ks_str = Some (?b[?l + m := 0]), ks_length = ?l + m, ks_capacity = c\<rparr>"
    have "ksappend_strn kmalloc s (Some (xs @ 0 # junk)) n = Some (0, ?s)"
      using strlen_buf_correct [OF xs] ok(1,2) c lt len
      by (simp add: ksappend_strn_def mn w put_byte_def ks_updates Let_def)
    moreover have "ks_inv ?s" "ks_content ?s = ks_content s @ take m xs"
      using ks_written_inv [OF ok(2,3,4), of "take m xs"] lt ks_content_nonzero [OF I] nz ok(2)
      unfolding len by simp_all
    ultimately show ?thesis by (auto simp: ks_append_ok_def)
  qed
qed

lemma ksappend_strn_overflow:
  assumes I: "ks_inv s" and xs: "0 \<notin> set xs"
    and m: "m = min (length xs) n" and cap: "ks_length s + m = ks_capacity s"
  shows "ksappend_strn kmalloc s (Some (xs @ 0 # junk)) n = None"
proof -
  obtain str where st: "ks_str s = Some str" "length str = ks_capacity s" "ks_capacity s \<le> 2 ^ 30"
    using ks_inv_str [OF I] by metis
  have mn: "(if length xs < n then length xs else n) = m" using m(1) by simp
  have nz: "0 \<notin> set (take m xs)" using xs by (meson in_set_takeD)
  have w: "wrap32 (ks_length s + m) = ks_capacity s" using cap st(3) by simp
  obtain b where "strncpy_buf str (ks_length s) (xs @ 0 # junk) 0 m = Some b" "length b = ks_capacity s"
    using strncpy_buf_correct [of m 0 "xs @ 0 # junk" "ks_length s" str] nz m cap st(2) by simp
  then show ?thesis
    using strlen_buf_correct [OF xs] st
    by (simp add: ksappend_strn_def mn w string_try_expand_def put_byte_def)
qed

lemma ksappend_char_correct:
  assumes I: "ks_inv s" and c: "c \<noteq> 0" and cap: "ks_length s + 1 < ks_capacity s"
  shows "\<exists>s'. ksappend_char kmalloc s c = Some (0, s') \<and> ks_inv s' \<and> ks_content s' = ks_content s @ [c] \<and>
    ks_capacity s' = ks_capacity s \<and> ks_length s' = ks_length s + 1"
proof -
  let ?l = "ks_length s"
  obtain str where st: "ks_str s = Some str" "length str = ks_capacity s" "ks_capacity s \<le> 2 ^ 30"
    "ks_content s = take ?l str" using ks_inv_str [OF I] by metis
  have w: "wrap32 (?l + 1) = ?l + 1" using cap st(3) by simp
  let ?b = "take ?l str @ [c] @ drop (?l + 1) str"
  have u: "str[?l := c] = ?b" using cap st(2) by (simp add: upd_conv_take_nth_drop)
  let ?s = "\<lparr>ks_str = Some (?b[?l + 1 := 0]), ks_length = ?l + 1, ks_capacity = ks_capacity s\<rparr>"
  have "ksappend_char kmalloc s c = Some (0, ?s)"
    using st cap u by (simp add: ksappend_char_def string_try_expand_def put_byte_def w [simplified] ks_updates)
  moreover have "ks_inv ?s" "ks_content ?s = ks_content s @ [c]"
    using ks_written_inv [OF st(2,3) st(4) [symmetric], of "[c]"] cap ks_content_nonzero [OF I] c st
    by simp_all
  ultimately show ?thesis by auto
qed

text \<open>The reference for \<open>kssplit\<close>: the pieces between the separators.\<close>

fun split_on :: "'a \<Rightarrow> 'a list \<Rightarrow> 'a list list" where
  "split_on c [] = [[]]"
| "split_on c (x # xs) =
     (if x = c then [] # split_on c xs
      else (x # hd (split_on c xs)) # tl (split_on c xs))"

definition split_pieces :: "'a \<Rightarrow> 'a list \<Rightarrow> 'a list list" where
  "split_pieces c xs = (let ps = split_on c xs in if last ps = [] then butlast ps else ps)"

definition split_from :: "'a \<Rightarrow> 'a list \<Rightarrow> 'a list \<Rightarrow> 'a list list" where
  "split_from c w xs = (w @ hd (split_on c xs)) # tl (split_on c xs)"

lemma split_on_nonempty [simp]: "split_on c xs \<noteq> []"
  by (cases xs) auto

lemma split_from_simps [simp]:
  "split_from c w [] = [w]"
  "split_from c w (x # xs) = (if x = c then w # split_from c [] xs else split_from c (w @ [x]) xs)"
  by (simp_all add: split_from_def)

lemma split_from_Nil: "split_from c [] xs = split_on c xs"
  by (simp add: split_from_def)

definition alloc_small :: "alloc \<Rightarrow> bool" where
  "alloc_small kmalloc \<longleftrightarrow> kmalloc sizeof_string \<noteq> None \<and>
     (\<exists>b. kmalloc STRING_MIN_SIZE = Some b \<and> length b = STRING_MIN_SIZE)"

lemma ksalloc_correct:
  assumes "alloc_small kmalloc"
  shows "\<exists>s. ksalloc kmalloc = Some (Some s) \<and> ks_inv s \<and> ks_content s = [] \<and> ks_capacity s = 32 \<and> ks_length s = 0"
  using assms by (auto simp: alloc_small_def ksalloc_def ks_inv_def ks_content_def put_byte_def STRING_MIN_SIZE_def)

lemma kssplit_loop_correct:
  assumes s: "ks_inv s" and k: "alloc_small kmalloc"
  shows "ks_content s = pre @ xs \<Longrightarrow> ks_inv sub \<Longrightarrow> ks_capacity sub = 32 \<Longrightarrow>
    \<forall>p\<in>set (split_from c (ks_content sub) xs). length p \<le> 31 \<Longrightarrow>
    \<exists>sub' vs. kssplit_loop kmalloc s c (length pre) (Some sub) vec = Some (Some sub', vec @ map Some vs) \<and>
      ks_inv sub' \<and> map ks_content (vs @ [sub']) = split_from c (ks_content sub) xs"
proof (induction xs arbitrary: pre sub vec)
  case Nil
  then show ?case
    using ks_content_length [OF s] by (subst kssplit_loop.simps) (auto intro!: exI [of _ "[]"])
next
  case (Cons x xs)
  obtain str where st: "ks_str s = Some str" "length str = ks_capacity s" "ks_length s < ks_capacity s"
    "ks_content s = take (ks_length s) str" using ks_inv_str [OF s] by metis
  have i: "length pre < ks_length s" using ks_content_length [OF s] Cons.prems(1) by simp
  have "str ! length pre = ks_content s ! length pre" using st i by simp
  then have g: "get_byte str (length pre) = Some x" using Cons.prems(1) st i by (simp add: get_byte_def)
  have nz: "x \<noteq> 0" using ks_content_nonzero [OF s] Cons.prems(1) by auto
  show ?case
  proof (cases "x = c")
    case True
    obtain n where n: "ksalloc kmalloc = Some (Some n)" "ks_inv n" "ks_content n = []" "ks_capacity n = 32"
      using ksalloc_correct [OF k] by blast
    obtain sub' vs where IH: "kssplit_loop kmalloc s c (length (pre @ [x])) (Some n) (vec @ [Some sub])
        = Some (Some sub', (vec @ [Some sub]) @ map Some vs)" "ks_inv sub'"
        "map ks_content (vs @ [sub']) = split_from c (ks_content n) xs"
      using Cons.IH [of "pre @ [x]" n "vec @ [Some sub]"] Cons.prems True n by auto
    have "kssplit_loop kmalloc s c (length pre) (Some sub) vec = Some (Some sub', vec @ map Some (sub # vs))"
      using IH(1) i st(1) g n True by (subst kssplit_loop.simps) simp
    then show ?thesis using IH(2,3) True n(3) by (intro exI [of _ sub'] exI [of _ "sub # vs"]) simp
  next
    case False
    have "ks_content sub @ [x] @ hd (split_on c xs) \<in> set (split_from c (ks_content sub) (x # xs))"
      using False by (simp add: split_from_def)
    then have "length (ks_content sub) + 1 \<le> 31" using Cons.prems(4) by fastforce
    then have l: "ks_length sub + 1 < ks_capacity sub"
      using ks_content_length [OF Cons.prems(2)] Cons.prems(3) by simp
    obtain n where n: "ksappend_char kmalloc sub x = Some (0, n)" "ks_inv n"
        "ks_content n = ks_content sub @ [x]" "ks_capacity n = 32"
      using ksappend_char_correct [OF Cons.prems(2) nz l] Cons.prems(3) by auto
    obtain sub' vs where IH: "kssplit_loop kmalloc s c (length (pre @ [x])) (Some n) vec
        = Some (Some sub', vec @ map Some vs)" "ks_inv sub'"
        "map ks_content (vs @ [sub']) = split_from c (ks_content n) xs"
      using Cons.IH [of "pre @ [x]" n vec] Cons.prems False n by auto
    have "kssplit_loop kmalloc s c (length pre) (Some sub) vec = Some (Some sub', vec @ map Some vs)"
      using IH(1) i st(1) g n False by (subst kssplit_loop.simps) simp
    then show ?thesis using IH(2,3) False n(3) by (intro exI [of _ sub'] exI [of _ vs]) simp
  qed
qed

section \<open>Properties\<close>

text \<open>
  C27: formatting and parsing are inverse.  For every \<open>int\<close> but the smallest one, \<open>to_str\<close> into a buffer of
  at least eleven bytes returns, and \<open>strtol\<close> in base 10 reads back the number from the bytes written,
  consuming all of them.
\<close>

theorem strtol_to_str:
  assumes "\<bar>val\<bar> < 2 ^ 31" "11 \<le> length buf"
  shows "\<exists>n buf'. to_str val buf = Some (n, buf') \<and> n \<le> 11 \<and> length buf' = length buf \<and>
    drop n buf' = drop n buf \<and> strtol (take n buf' @ [0]) 10 = Some (val, n)"
proof -
  have "length (dec_str val) \<le> 11" using dec_str_length [OF assms(1)] .
  then show ?thesis
    using to_str_correct [OF assms(1), of buf] strtol_dec_str [OF assms(1), of "[]"] assms(2) by simp
qed

theorem strtol_to_str_witness:
  "\<exists>n buf'. to_str (- 507) (replicate 11 1) = Some (n, buf') \<and> strtol (take n buf' @ [0]) 10 = Some (- 507, n)"
  using strtol_to_str [of "- 507" "replicate 11 1"] by auto

text \<open>
  \<open>to_hex\<close> of every 32-bit value writes exactly ten characters, and \<open>hex_to_value\<close> reads the value back
  when it is below \<open>2 ^ 31\<close> (above that its \<open>int\<close> accumulator overflows).
\<close>

theorem hex_to_value_to_hex:
  assumes "val < 2 ^ 31" "10 \<le> length buf"
  shows "\<exists>buf'. to_hex val buf = Some (10, buf') \<and> drop 10 buf' = drop 10 buf \<and>
    hex_to_value (take 10 buf') 10 = Some (Some (int val))"
  using to_hex_correct [of val buf] hex_to_value_hex_str [OF assms(1)] hex_str_length [of val] assms by simp

theorem hex_to_value_to_hex_witness:
  "\<exists>buf'. to_hex 48879 (replicate 32 7) = Some (10, buf') \<and> hex_to_value (take 10 buf') 10 = Some (Some 48879)"
  using hex_to_value_to_hex [of 48879 "replicate 32 7"] by auto

text \<open>
  C28: \<open>ksappend_str\<close> appends the string, or reports \<open>-ENOMEM\<close> and leaves the object as it was, except when
  the result has exactly \<open>capacity\<close> bytes: \<open>string_try_expand\<close> then sees no need to grow, and the
  terminator is written one byte past the buffer.
\<close>

theorem ksappend_str_spec:
  assumes "ks_inv s" "alloc_ok kmalloc" "0 \<notin> set xs" "length xs < 2 ^ 30"
  shows "if length (ks_content s @ xs) = ks_capacity s then ksappend_str kmalloc s (xs @ 0 # junk) = None
    else ks_append_ok s xs (ksappend_str kmalloc s (xs @ 0 # junk))"
  using ksappend_strn_correct [OF assms(1-3), of _ "length xs" junk]
    ksappend_strn_overflow [OF assms(1,3), of _ "length xs" kmalloc junk] ks_content_length [OF assms(1)]
    strlen_buf_correct [OF assms(3), of junk] assms(4)
  by (simp add: ksappend_str_def)

theorem ksappend_str_spec_witness:
  "ks_append_ok \<lparr>ks_str = Some [97, 0, 9, 9], ks_length = 1, ks_capacity = 4\<rparr> [98, 99]
     (ksappend_str (\<lambda>n. None) \<lparr>ks_str = Some [97, 0, 9, 9], ks_length = 1, ks_capacity = 4\<rparr> [98, 99, 0])"
  using ksappend_str_spec [of "\<lparr>ks_str = Some [97, 0, 9, 9], ks_length = 1, ks_capacity = 4\<rparr>" "\<lambda>n. None"
      "[98, 99]" "[]"]
  by (simp add: ks_inv_def ks_content_def alloc_ok_def)

text \<open>
  \<open>kssplit\<close> pushes the pieces of the string between the separators, in order, the empty ones included
  except for an empty last one, as long as every piece fits in 31 bytes and memory is available.
\<close>

theorem kssplit_pieces:
  assumes "ks_inv s" "alloc_small kmalloc" "\<forall>p\<in>set (split_on c (ks_content s)). length p \<le> 31"
  shows "\<exists>vs. kssplit kmalloc s c vec = Some (vec @ map Some vs) \<and>
    map ks_content vs = split_pieces c (ks_content s)"
proof -
  obtain n where n: "ksalloc kmalloc = Some (Some n)" "ks_inv n" "ks_content n = []" "ks_capacity n = 32"
    using ksalloc_correct [OF assms(2)] by blast
  obtain sub vs where l: "kssplit_loop kmalloc s c 0 (Some n) vec = Some (Some sub, vec @ map Some vs)"
      "ks_inv sub" "map ks_content (vs @ [sub]) = split_on c (ks_content s)"
    using kssplit_loop_correct [OF assms(1,2), of "[]" "ks_content s" n c vec] n assms(3)
    by (auto simp: split_from_Nil)
  have e: "string_empty sub \<longleftrightarrow> last (split_on c (ks_content s)) = []"
    using ks_content_length [OF l(2)] l(3) [symmetric] by (auto simp: string_empty_def)
  have "butlast (split_on c (ks_content s)) = map ks_content vs" using l(3) [symmetric] by simp
  then show ?thesis
    using l n e by (auto simp: kssplit_def split_pieces_def Let_def
        intro!: exI [of _ "vs @ (if string_empty sub then [] else [sub])"])
qed

theorem kssplit_pieces_witness:
  "\<exists>vs. kssplit (\<lambda>n. Some (replicate n 5)) \<lparr>ks_str = Some [97, 32, 98, 0], ks_length = 3, ks_capacity = 4\<rparr> 32 []
      = Some (map Some vs) \<and> map ks_content vs = [[97], [98]]"
  using kssplit_pieces [of "\<lparr>ks_str = Some [97, 32, 98, 0], ks_length = 3, ks_capacity = 4\<rparr>"
      "\<lambda>n. Some (replicate n 5)" 32 "[]"]
  by (simp add: ks_inv_def ks_content_def alloc_small_def split_pieces_def)

end
