(* ===== verification/Rb_Tree.thy ===== *)
theory Rb_Tree
  imports Prelude
begin

text \<open>
  The red-black tree of disjoint intervals of \<^verbatim>\<open>libs/rb_tree.c\<close>, on an explicit heap: a node is
  reached through its address, and reading or writing through the null pointer or through a node
  that has been freed is \<open>None\<close>.  The bounds of the intervals are only compared, so they are natural
  numbers.
\<close>

section \<open>Nodes and the heap\<close>

type_synonym ptr = "nat option"

record rb_node =
  n_id :: nat
  n_start :: nat
  n_end :: nat
  n_value :: nat
  n_red :: bool
  n_parent :: ptr
  n_left :: ptr
  n_right :: ptr

type_synonym heap = "nat \<Rightarrow> rb_node option"

record rb_tree =
  t_heap :: heap
  t_total :: nat
  t_root :: ptr

definition node :: "heap \<Rightarrow> ptr \<Rightarrow> rb_node option" where
  "node h p = (case p of None \<Rightarrow> None | Some a \<Rightarrow> h a)"

definition upd :: "heap \<Rightarrow> ptr \<Rightarrow> (rb_node \<Rightarrow> rb_node) \<Rightarrow> heap option" where
  "upd h p f =
     (case p of None \<Rightarrow> None
      | Some a \<Rightarrow> (case h a of None \<Rightarrow> None | Some n \<Rightarrow> Some (h(a \<mapsto> f n))))"

definition upd_if :: "heap \<Rightarrow> ptr \<Rightarrow> (rb_node \<Rightarrow> rb_node) \<Rightarrow> heap option" where
  "upd_if h p f = (if p \<noteq> None then upd h p f else Some h)"

definition set_parent :: "ptr \<Rightarrow> rb_node \<Rightarrow> rb_node" where
  "set_parent p n = n\<lparr>n_parent := p\<rparr>"

definition set_left :: "ptr \<Rightarrow> rb_node \<Rightarrow> rb_node" where
  "set_left p n = n\<lparr>n_left := p\<rparr>"

definition set_right :: "ptr \<Rightarrow> rb_node \<Rightarrow> rb_node" where
  "set_right p n = n\<lparr>n_right := p\<rparr>"

definition set_colour :: "bool \<Rightarrow> rb_node \<Rightarrow> rb_node" where
  "set_colour c n = n\<lparr>n_red := c\<rparr>"

definition set_red :: "heap \<Rightarrow> ptr \<Rightarrow> heap option" where
  "set_red h p = upd_if h p (set_colour True)"

definition set_black :: "heap \<Rightarrow> ptr \<Rightarrow> heap option" where
  "set_black h p = upd_if h p (set_colour False)"

definition is_red :: "heap \<Rightarrow> ptr \<Rightarrow> bool option" where
  "is_red h p = (if p = None then Some False else map_option n_red (node h p))"

definition is_black :: "heap \<Rightarrow> ptr \<Rightarrow> bool option" where
  "is_black h p = map_option Not (is_red h p)"

definition rb_node_key_start :: "heap \<Rightarrow> ptr \<Rightarrow> nat option" where
  "rb_node_key_start h p = map_option n_start (node h p)"

definition rb_node_key_end :: "heap \<Rightarrow> ptr \<Rightarrow> nat option" where
  "rb_node_key_end h p = map_option n_end (node h p)"

definition rb_node_value :: "heap \<Rightarrow> ptr \<Rightarrow> nat option" where
  "rb_node_value h p = map_option n_value (node h p)"

section \<open>Validation\<close>

definition node_validate :: "heap \<Rightarrow> ptr \<Rightarrow> unit option" where
  "node_validate h p =
     (if p = None then Some ()
      else do {
        n \<leftarrow> node h p;
        _ \<leftarrow> (if n_left n \<noteq> None then
                do { l \<leftarrow> node h (n_left n); assert (n_start n > n_end l); assert (n_parent l = p) }
              else Some ());
        _ \<leftarrow> (if n_right n \<noteq> None then
                do { r \<leftarrow> node h (n_right n); assert (n_end n < n_start r); assert (n_parent r = p) }
              else Some ());
        c \<leftarrow> is_red h p;
        l \<leftarrow> is_red h (n_left n);
        assert (\<not> (c \<and> l));
        r \<leftarrow> is_red h (n_right n);
        assert (\<not> (c \<and> r))
      })"

partial_function (option) tree_validate :: "heap \<Rightarrow> ptr \<Rightarrow> ptr \<Rightarrow> (int \<times> ptr) option" where
  "tree_validate h p fail_node =
     (if p = None then Some (0, fail_node)
      else if fail_node \<noteq> None then Some (- EINVAL, fail_node)
      else do {
        _ \<leftarrow> node_validate h p;
        n \<leftarrow> node h p;
        (left, fail_node) \<leftarrow> tree_validate h (n_left n) fail_node;
        if left < 0 then Some (left, fail_node)
        else do {
          (right, fail_node) \<leftarrow> tree_validate h (n_right n) fail_node;
          if right < 0 then Some (right, fail_node)
          else if left \<noteq> right then Some (- EINVAL, p)
          else do { b \<leftarrow> is_black h p; Some (left + (if b then 1 else 0), fail_node) }
        }
      })"

definition rb_tree_validate :: "heap \<Rightarrow> ptr \<Rightarrow> unit option" where
  "rb_tree_validate h root =
     (if root = None then Some ()
      else do {
        b \<leftarrow> is_black h root;
        assert b;
        (r, _) \<leftarrow> tree_validate h root None;
        assert (\<not> r < 0)
      })"

section \<open>Search and rotations\<close>

partial_function (option) search_loop :: "heap \<Rightarrow> ptr \<Rightarrow> nat \<Rightarrow> ptr option" where
  "search_loop h p key =
     (if p = None then Some None
      else do {
        n \<leftarrow> node h p;
        if key < n_start n then search_loop h (n_left n) key
        else if key > n_end n then search_loop h (n_right n) key
        else Some p
      })"

definition rb_tree_search :: "rb_tree \<Rightarrow> nat \<Rightarrow> ptr option" where
  "rb_tree_search t key = search_loop (t_heap t) (t_root t) key"

text \<open>The common part of the rotations: \<open>nodey\<close> takes the place of \<open>nodex\<close> below its parent.\<close>

definition rotate_link :: "heap \<Rightarrow> ptr \<Rightarrow> ptr \<Rightarrow> ptr \<Rightarrow> (heap \<times> ptr) option" where
  "rotate_link h root nodex nodey =
     (if nodex = root then Some (h, nodey)
      else do {
        x \<leftarrow> node h nodex;
        p \<leftarrow> node h (n_parent x);
        h \<leftarrow> upd h (n_parent x) (if nodex = n_left p then set_left nodey else set_right nodey);
        Some (h, root)
      })"

definition rotate_left :: "heap \<Rightarrow> ptr \<Rightarrow> ptr \<Rightarrow> (heap \<times> ptr) option" where
  "rotate_left h root nodex =
     do {
       x \<leftarrow> node h nodex;
       let nodey = n_right x;
       y \<leftarrow> node h nodey;
       h \<leftarrow> upd h nodex (set_right (n_left y));
       y \<leftarrow> node h nodey;
       h \<leftarrow> upd_if h (n_left y) (set_parent nodex);
       x \<leftarrow> node h nodex;
       h \<leftarrow> upd h nodey (set_parent (n_parent x));
       (h, root) \<leftarrow> rotate_link h root nodex nodey;
       h \<leftarrow> upd h nodey (set_left nodex);
       h \<leftarrow> upd h nodex (set_parent nodey);
       Some (h, root)
     }"

definition rotate_right :: "heap \<Rightarrow> ptr \<Rightarrow> ptr \<Rightarrow> (heap \<times> ptr) option" where
  "rotate_right h root nodex =
     do {
       x \<leftarrow> node h nodex;
       let nodey = n_left x;
       y \<leftarrow> node h nodey;
       h \<leftarrow> upd h nodex (set_left (n_right y));
       y \<leftarrow> node h nodey;
       h \<leftarrow> upd_if h (n_right y) (set_parent nodex);
       x \<leftarrow> node h nodex;
       h \<leftarrow> upd h nodey (set_parent (n_parent x));
       (h, root) \<leftarrow> rotate_link h root nodex nodey;
       h \<leftarrow> upd h nodey (set_right nodex);
       h \<leftarrow> upd h nodex (set_parent nodey);
       Some (h, root)
     }"

section \<open>Insertion\<close>

definition parent_of :: "heap \<Rightarrow> ptr \<Rightarrow> ptr option" where
  "parent_of h p = map_option n_parent (node h p)"

partial_function (option) insert_fixup :: "heap \<Rightarrow> ptr \<Rightarrow> ptr \<Rightarrow> (heap \<times> ptr) option" where
  "insert_fixup h root nodex =
     do {
       red \<leftarrow> (if nodex \<noteq> root then do { p \<leftarrow> parent_of h nodex; is_red h p } else Some False);
       if red then
         do {
           p \<leftarrow> parent_of h nodex;
           g \<leftarrow> parent_of h p;
           gn \<leftarrow> node h g;
           if p = n_left gn then
             do {
               let nodey = n_right gn;
               y \<leftarrow> is_red h nodey;
               if y then
                 do {
                   h \<leftarrow> set_black h nodey;
                   h \<leftarrow> set_black h p;
                   h \<leftarrow> set_red h g;
                   insert_fixup h root g
                 }
               else
                 do {
                   pn \<leftarrow> node h p;
                   (h, root, nodex) \<leftarrow>
                     (if nodex = n_right pn then
                        do { (h, root) \<leftarrow> rotate_left h root p; Some (h, root, p) }
                      else Some (h, root, nodex));
                   p \<leftarrow> parent_of h nodex;
                   h \<leftarrow> set_black h p;
                   g \<leftarrow> parent_of h p;
                   h \<leftarrow> set_red h g;
                   (h, root) \<leftarrow> rotate_right h root g;
                   insert_fixup h root nodex
                 }
             }
           else
             do {
               let nodey = n_left gn;
               y \<leftarrow> is_red h nodey;
               if y then
                 do {
                   h \<leftarrow> set_black h nodey;
                   h \<leftarrow> set_black h p;
                   h \<leftarrow> set_red h g;
                   insert_fixup h root g
                 }
               else
                 do {
                   pn \<leftarrow> node h p;
                   (h, root, nodex) \<leftarrow>
                     (if nodex = n_left pn then
                        do { (h, root) \<leftarrow> rotate_right h root p; Some (h, root, p) }
                      else Some (h, root, nodex));
                   p \<leftarrow> parent_of h nodex;
                   h \<leftarrow> set_black h p;
                   g \<leftarrow> parent_of h p;
                   h \<leftarrow> set_red h g;
                   (h, root) \<leftarrow> rotate_left h root g;
                   insert_fixup h root nodex
                 }
             }
         }
       else do { h \<leftarrow> set_black h root; Some (h, root) }
     }"

text \<open>The walk of \<open>rb_tree_insert\<close> down the tree: \<open>Some None\<close> when an existing interval overlaps,
  otherwise the last node visited.\<close>

partial_function (option) insert_walk :: "heap \<Rightarrow> ptr \<Rightarrow> ptr \<Rightarrow> nat \<Rightarrow> nat \<Rightarrow> ptr option option" where
  "insert_walk h p parent start stop =
     (if p = None then Some (Some parent)
      else do {
        n \<leftarrow> node h p;
        if start > n_end n then insert_walk h (n_right n) p start stop
        else if stop < n_start n then insert_walk h (n_left n) p start stop
        else Some None
      })"

text \<open>Linking the new node below \<open>parent\<close>; the flag is false on the way to the label \<open>fail\<close>.\<close>

definition insert_link :: "heap \<Rightarrow> ptr \<Rightarrow> ptr \<Rightarrow> ptr \<Rightarrow> nat \<Rightarrow> nat \<Rightarrow> (bool \<times> heap \<times> ptr) option" where
  "insert_link h root new parent start stop =
     (if parent \<noteq> None then
        do {
          p \<leftarrow> node h parent;
          if stop < n_start p then do { h \<leftarrow> upd h parent (set_left new); Some (True, h, root) }
          else if start > n_end p then do { h \<leftarrow> upd h parent (set_right new); Some (True, h, root) }
          else Some (False, h, root)
        }
      else Some (True, h, new))"

text \<open>
  \<open>new\<close> is what \<open>kmalloc\<close> returns for the new node.  The result is the pointer that the function
  returns and the tree.
\<close>

definition rb_tree_insert :: "ptr \<Rightarrow> rb_tree \<Rightarrow> nat \<Rightarrow> nat \<Rightarrow> nat \<Rightarrow> (ptr \<times> rb_tree) option" where
  "rb_tree_insert new t start stop value =
     (if start > stop then Some (None, t)
      else do {
        w \<leftarrow> insert_walk (t_heap t) (t_root t) None start stop;
        case w of None \<Rightarrow> Some (None, t)
        | Some parent \<Rightarrow>
            (case new of None \<Rightarrow> Some (None, t)
             | Some a \<Rightarrow>
                 do {
                   let h = (t_heap t)(a \<mapsto> \<lparr>n_id = t_total t, n_start = start, n_end = stop, n_value = value,
                     n_red = True, n_parent = parent, n_left = None, n_right = None\<rparr>);
                   let total = wrap32 (t_total t + 1);
                   (ok, h, root) \<leftarrow> insert_link h (t_root t) new parent start stop;
                   if ok then
                     do {
                       (h, root) \<leftarrow> insert_fixup h root new;
                       _ \<leftarrow> rb_tree_validate h root;
                       Some (new, \<lparr>t_heap = h, t_total = total, t_root = root\<rparr>)
                     }
                   else Some (None, \<lparr>t_heap = h(a := None), t_total = total, t_root = root\<rparr>)
                 })
      })"

section \<open>Removal\<close>

text \<open>
  One iteration of the loop of \<open>remove_fixup\<close> for a node that is the left child, in three parts: the
  rotation for a red sibling, the test of the two nephews, and the final rotations.  The result is the
  heap, the root and the new node.
\<close>

definition both_black :: "heap \<Rightarrow> ptr \<Rightarrow> bool option" where
  "both_black h nodey =
     (if nodey = None then Some True
      else do {
        y \<leftarrow> node h nodey;
        l \<leftarrow> is_black h (n_left y);
        r \<leftarrow> is_black h (n_right y);
        Some (l \<and> r)
      })"

definition remove_left_red :: "heap \<Rightarrow> ptr \<Rightarrow> ptr \<Rightarrow> (heap \<times> ptr \<times> ptr) option" where
  "remove_left_red h root parent =
     do {
       pn \<leftarrow> node h parent;
       let nodey = n_right pn;
       red \<leftarrow> is_red h nodey;
       if red then
         do {
           h \<leftarrow> set_black h nodey;
           h \<leftarrow> set_red h parent;
           (h, root) \<leftarrow> rotate_left h root parent;
           pn \<leftarrow> node h parent;
           Some (h, root, n_right pn)
         }
       else Some (h, root, nodey)
     }"

definition remove_left_rotate :: "heap \<Rightarrow> ptr \<Rightarrow> ptr \<Rightarrow> ptr \<Rightarrow> (heap \<times> ptr \<times> ptr) option" where
  "remove_left_rotate h root parent nodey =
     do {
       y \<leftarrow> node h nodey;
       near \<leftarrow> is_red h (n_left y);
       far \<leftarrow> is_black h (n_right y);
       (h, root, nodey) \<leftarrow>
         (if near \<and> far then
            do {
              h \<leftarrow> set_red h nodey;
              y \<leftarrow> node h nodey;
              h \<leftarrow> set_black h (n_left y);
              (h, root) \<leftarrow> rotate_right h root nodey;
              pn \<leftarrow> node h parent;
              Some (h, root, n_right pn)
            }
          else Some (h, root, nodey));
       pn \<leftarrow> node h parent;
       h \<leftarrow> upd h nodey (set_colour (n_red pn));
       h \<leftarrow> set_black h parent;
       y \<leftarrow> node h nodey;
       h \<leftarrow> set_black h (n_right y);
       (h, root) \<leftarrow> rotate_left h root parent;
       Some (h, root, root)
     }"

definition remove_left_case :: "heap \<Rightarrow> ptr \<Rightarrow> ptr \<Rightarrow> (heap \<times> ptr \<times> ptr) option" where
  "remove_left_case h root parent =
     do {
       (h, root, nodey) \<leftarrow> remove_left_red h root parent;
       both \<leftarrow> both_black h nodey;
       if both then do { h \<leftarrow> set_red h nodey; Some (h, root, parent) }
       else remove_left_rotate h root parent nodey
     }"

text \<open>The same for a node that is not the left child.\<close>

definition remove_right_red :: "heap \<Rightarrow> ptr \<Rightarrow> ptr \<Rightarrow> (heap \<times> ptr \<times> ptr) option" where
  "remove_right_red h root parent =
     do {
       pn \<leftarrow> node h parent;
       let nodey = n_left pn;
       red \<leftarrow> is_red h nodey;
       if red then
         do {
           h \<leftarrow> set_black h nodey;
           h \<leftarrow> set_red h parent;
           (h, root) \<leftarrow> rotate_right h root parent;
           pn \<leftarrow> node h parent;
           Some (h, root, n_left pn)
         }
       else Some (h, root, nodey)
     }"

definition remove_right_rotate :: "heap \<Rightarrow> ptr \<Rightarrow> ptr \<Rightarrow> ptr \<Rightarrow> (heap \<times> ptr \<times> ptr) option" where
  "remove_right_rotate h root parent nodey =
     do {
       y \<leftarrow> node h nodey;
       near \<leftarrow> is_red h (n_right y);
       far \<leftarrow> is_black h (n_left y);
       (h, root, nodey) \<leftarrow>
         (if near \<and> far then
            do {
              h \<leftarrow> set_red h nodey;
              y \<leftarrow> node h nodey;
              h \<leftarrow> set_black h (n_right y);
              (h, root) \<leftarrow> rotate_left h root nodey;
              pn \<leftarrow> node h parent;
              Some (h, root, n_left pn)
            }
          else Some (h, root, nodey));
       pn \<leftarrow> node h parent;
       h \<leftarrow> upd h nodey (set_colour (n_red pn));
       h \<leftarrow> set_black h parent;
       y \<leftarrow> node h nodey;
       h \<leftarrow> set_black h (n_left y);
       (h, root) \<leftarrow> rotate_right h root parent;
       Some (h, root, root)
     }"

definition remove_right_case :: "heap \<Rightarrow> ptr \<Rightarrow> ptr \<Rightarrow> (heap \<times> ptr \<times> ptr) option" where
  "remove_right_case h root parent =
     do {
       (h, root, nodey) \<leftarrow> remove_right_red h root parent;
       both \<leftarrow> both_black h nodey;
       if both then do { h \<leftarrow> set_red h nodey; Some (h, root, parent) }
       else remove_right_rotate h root parent nodey
     }"

partial_function (option) remove_fixup :: "heap \<Rightarrow> ptr \<Rightarrow> ptr \<Rightarrow> ptr \<Rightarrow> (heap \<times> ptr) option" where
  "remove_fixup h root parent nodex =
     do {
       black \<leftarrow> (if nodex \<noteq> root then is_black h nodex else Some False);
       if black then
         do {
           assert (\<not> (nodex = None \<and> parent = None));
           if parent \<noteq> None then
             do {
               pn \<leftarrow> node h parent;
               (h, root, nodex) \<leftarrow>
                 (if nodex = n_left pn then remove_left_case h root parent
                  else remove_right_case h root parent);
               parent \<leftarrow> parent_of h nodex;
               remove_fixup h root parent nodex
             }
           else remove_fixup h root parent nodex
         }
       else do { h \<leftarrow> set_black h nodex; Some (h, root) }
     }"

partial_function (option) leftmost :: "heap \<Rightarrow> ptr \<Rightarrow> ptr option" where
  "leftmost h p = do { n \<leftarrow> node h p; if n_left n \<noteq> None then leftmost h (n_left n) else Some p }"

text \<open>Replacing \<open>old\<close> by \<open>new\<close> below the parent \<open>p\<close> of \<open>old\<close>, or at the root.\<close>

definition replace_child :: "heap \<Rightarrow> ptr \<Rightarrow> ptr \<Rightarrow> ptr \<Rightarrow> ptr \<Rightarrow> (heap \<times> ptr) option" where
  "replace_child h root p old new =
     (if p \<noteq> None then
        do {
          pn \<leftarrow> node h p;
          h \<leftarrow> upd h p (if old = n_left pn then set_left new else set_right new);
          Some (h, root)
        }
      else Some (h, new))"

text \<open>The node \<open>nodey\<close>, taken out of the tree, takes the place of \<open>nodez\<close>.\<close>

definition remove_transplant :: "heap \<Rightarrow> ptr \<Rightarrow> ptr \<Rightarrow> ptr \<Rightarrow> (heap \<times> ptr) option" where
  "remove_transplant h root nodez nodey =
     do {
       z \<leftarrow> node h nodez;
       h \<leftarrow> upd h nodey (set_parent (n_parent z));
       (h, root) \<leftarrow> replace_child h root (n_parent z) nodez nodey;
       z \<leftarrow> node h nodez;
       h \<leftarrow> upd h nodey (set_colour (n_red z));
       h \<leftarrow> upd h nodey (set_left (n_left z));
       h \<leftarrow> upd h nodey (set_right (n_right z));
       h \<leftarrow> upd_if h (n_left z) (set_parent nodey);
       h \<leftarrow> upd_if h (n_right z) (set_parent nodey);
       Some (h, root)
     }"

definition rb_tree_remove :: "rb_tree \<Rightarrow> nat \<Rightarrow> (int \<times> rb_tree) option" where
  "rb_tree_remove t key =
     do {
       nodez \<leftarrow> rb_tree_search t key;
       if nodez = None then Some (- EINVAL, t)
       else do {
         let h = t_heap t;
         z \<leftarrow> node h nodez;
         nodey \<leftarrow> (if n_left z = None \<or> n_right z = None then Some nodez else leftmost h (n_right z));
         y \<leftarrow> node h nodey;
         let nodex = (if n_left y \<noteq> None then n_left y else n_right y);
         h \<leftarrow> upd_if h nodex (set_parent (n_parent y));
         (h, root) \<leftarrow> replace_child h (t_root t) (n_parent y) nodey nodex;
         fixup \<leftarrow> is_black h nodey;
         let nodex_parent = n_parent y;
         (h, root, nodex_parent) \<leftarrow>
           (if nodey \<noteq> nodez then
              do {
                (h, root) \<leftarrow> remove_transplant h root nodez nodey;
                Some (h, root, if nodex_parent = nodez then nodey else nodex_parent)
              }
            else Some (h, root, nodex_parent));
         (h, root) \<leftarrow> (if fixup then remove_fixup h root nodex_parent nodex else Some (h, root));
         let h = h(the nodez := None);
         _ \<leftarrow> rb_tree_validate h root;
         Some (0, \<lparr>t_heap = h, t_total = t_total t, t_root = root\<rparr>)
       }
     }"

section \<open>Creation, deletion and iteration\<close>

text \<open>\<open>mem\<close> is what \<open>kmalloc\<close> returns for the tree object.\<close>

definition rb_tree_create :: "ptr \<Rightarrow> heap \<Rightarrow> rb_tree option" where
  "rb_tree_create mem h =
     (if mem = None then None else Some \<lparr>t_heap = h, t_total = 0, t_root = None\<rparr>)"

partial_function (option) tree_delete :: "heap \<Rightarrow> ptr \<Rightarrow> heap option" where
  "tree_delete h root =
     (if root = None then Some h
      else do {
        n \<leftarrow> node h root;
        h \<leftarrow> tree_delete h (n_left n);
        n \<leftarrow> node h root;
        h \<leftarrow> tree_delete h (n_right n);
        Some (h(the root := None))
      })"

definition rb_tree_delete :: "rb_tree \<Rightarrow> heap option" where
  "rb_tree_delete t = tree_delete (t_heap t) (t_root t)"

text \<open>The callback gets the node and its private data and returns a code and the new private data.\<close>

partial_function (option) tree_iterate ::
    "heap \<Rightarrow> ptr \<Rightarrow> (nat \<Rightarrow> 'p \<Rightarrow> int \<times> 'p) \<Rightarrow> 'p \<Rightarrow> (int \<times> 'p) option" where
  "tree_iterate h p callback priv =
     (case p of None \<Rightarrow> Some (0, priv)
      | Some a \<Rightarrow>
          do {
            n \<leftarrow> node h p;
            (ret, priv) \<leftarrow> tree_iterate h (n_left n) callback priv;
            if ret \<noteq> 0 then Some (ret, priv)
            else do {
              let (ret, priv) = callback a priv;
              if ret \<noteq> 0 then Some (ret, priv)
              else tree_iterate h (n_right n) callback priv
            }
          })"

definition rb_tree_iterate :: "rb_tree \<Rightarrow> (nat \<Rightarrow> 'p \<Rightarrow> int \<times> 'p) \<Rightarrow> 'p \<Rightarrow> (int \<times> 'p) option" where
  "rb_tree_iterate t callback priv = tree_iterate (t_heap t) (t_root t) callback priv"

declare tree_validate.simps [code] search_loop.simps [code] insert_fixup.simps [code] insert_walk.simps [code]
  remove_fixup.simps [code] leftmost.simps [code] tree_delete.simps [code] tree_iterate.simps [code]

end
