(* ===== verification/Rb_Proofs.thy ===== *)
theory Rb_Proofs
  imports Rb_Tree
begin

text \<open>
  The heap of \<^verbatim>\<open>libs/rb_tree.c\<close> as a tree.  \<open>rooted F h root T\<close> says that \<open>root\<close> and the heap \<open>h\<close> represent
  the tree \<open>T\<close>, and that \<open>h\<close> is \<open>F\<close> outside its nodes.  A position in the tree is a list of frames (the
  way from the position up to the root), and the lemmas on the heap operations have the form
  \<open>rooted F h root (plug ctx t) \<Longrightarrow> \<dots> rooted F h' root' (plug ctx t')\<close>.
\<close>

section \<open>Trees and positions\<close>

type_synonym info = "nat \<times> nat \<times> nat \<times> nat"

datatype rbt = E | N bool rbt nat info rbt

datatype frame = LF bool nat info rbt | RF bool rbt nat info

fun mk :: "bool \<Rightarrow> info \<Rightarrow> ptr \<Rightarrow> ptr \<Rightarrow> ptr \<Rightarrow> rb_node" where
  "mk c (k, st, en, v) p l r =
     \<lparr>n_id = k, n_start = st, n_end = en, n_value = v, n_red = c, n_parent = p, n_left = l, n_right = r\<rparr>"

fun root_ptr :: "rbt \<Rightarrow> ptr" where
  "root_ptr E = None"
| "root_ptr (N c l a i r) = Some a"

fun plug1 :: "frame \<Rightarrow> rbt \<Rightarrow> rbt" where
  "plug1 (LF c a i r) t = N c t a i r"
| "plug1 (RF c l a i) t = N c l a i t"

primrec plug :: "frame list \<Rightarrow> rbt \<Rightarrow> rbt" where
  "plug [] t = t"
| "plug (f # ctx) t = plug ctx (plug1 f t)"

fun faddr :: "frame \<Rightarrow> nat" where
  "faddr (LF c a i r) = a"
| "faddr (RF c l a i) = a"

fun par :: "frame list \<Rightarrow> ptr" where
  "par [] = None"
| "par (f # ctx) = Some (faddr f)"

primrec inord :: "rbt \<Rightarrow> (nat \<times> info) list" where
  "inord E = []"
| "inord (N c l a i r) = inord l @ (a, i) # inord r"

fun cpre :: "frame list \<Rightarrow> (nat \<times> info) list" where
  "cpre [] = []"
| "cpre (LF c a i r # ctx) = cpre ctx"
| "cpre (RF c l a i # ctx) = cpre ctx @ inord l @ [(a, i)]"

fun cpost :: "frame list \<Rightarrow> (nat \<times> info) list" where
  "cpost [] = []"
| "cpost (LF c a i r # ctx) = (a, i) # inord r @ cpost ctx"
| "cpost (RF c l a i # ctx) = cpost ctx"

definition addrs :: "rbt \<Rightarrow> nat set" where
  "addrs t = fst ` set (inord t)"

definition caddrs :: "frame list \<Rightarrow> nat set" where
  "caddrs ctx = fst ` set (cpre ctx) \<union> fst ` set (cpost ctx)"

lemma addrs_simps [simp]: "addrs E = {}" "addrs (N c l a i r) = insert a (addrs l \<union> addrs r)"
  by (auto simp: addrs_def)

lemma caddrs_simps [simp]:
  "caddrs [] = {}" "caddrs (LF c a i r # ctx) = insert a (addrs r \<union> caddrs ctx)"
  "caddrs (RF c l a i # ctx) = insert a (addrs l \<union> caddrs ctx)"
  by (auto simp: caddrs_def addrs_def)

lemma inord_plug: "inord (plug ctx t) = cpre ctx @ inord t @ cpost ctx"
  by (induction ctx arbitrary: t rule: cpre.induct) auto

lemma addrs_plug [simp]: "addrs (plug ctx t) = addrs t \<union> caddrs ctx"
  by (auto simp: addrs_def caddrs_def inord_plug)

fun dist :: "rbt \<Rightarrow> bool" where
  "dist E \<longleftrightarrow> True"
| "dist (N c l a i r) \<longleftrightarrow> a \<notin> addrs l \<and> a \<notin> addrs r \<and> addrs l \<inter> addrs r = {} \<and> dist l \<and> dist r"

fun cdist :: "frame list \<Rightarrow> bool" where
  "cdist [] \<longleftrightarrow> True"
| "cdist (LF c a i r # ctx) \<longleftrightarrow> a \<notin> addrs r \<and> a \<notin> caddrs ctx \<and> addrs r \<inter> caddrs ctx = {} \<and> dist r \<and> cdist ctx"
| "cdist (RF c l a i # ctx) \<longleftrightarrow> a \<notin> addrs l \<and> a \<notin> caddrs ctx \<and> addrs l \<inter> caddrs ctx = {} \<and> dist l \<and> cdist ctx"

lemma dist_plug [simp]: "dist (plug ctx t) \<longleftrightarrow> dist t \<and> cdist ctx \<and> addrs t \<inter> caddrs ctx = {}"
proof (induction ctx arbitrary: t)
  case (Cons f ctx)
  then show ?case by (cases f) auto
qed simp

lemma dist_iff: "dist t \<longleftrightarrow> distinct (map fst (inord t))"
  by (induction t) (auto simp: addrs_def)

section \<open>Representation in the heap\<close>

fun rep :: "heap \<Rightarrow> ptr \<Rightarrow> rbt \<Rightarrow> bool" where
  "rep h p E \<longleftrightarrow> True"
| "rep h p (N c l a i r) \<longleftrightarrow> h a = Some (mk c i p (root_ptr l) (root_ptr r)) \<and> rep h (Some a) l \<and> rep h (Some a) r"

fun crep :: "heap \<Rightarrow> ptr \<Rightarrow> frame list \<Rightarrow> bool" where
  "crep h p [] \<longleftrightarrow> True"
| "crep h p (LF c a i r # ctx) \<longleftrightarrow>
     h a = Some (mk c i (par ctx) p (root_ptr r)) \<and> rep h (Some a) r \<and> crep h (Some a) ctx"
| "crep h p (RF c l a i # ctx) \<longleftrightarrow>
     h a = Some (mk c i (par ctx) (root_ptr l) p) \<and> rep h (Some a) l \<and> crep h (Some a) ctx"

definition rooted :: "heap \<Rightarrow> heap \<Rightarrow> ptr \<Rightarrow> rbt \<Rightarrow> bool" where
  "rooted F h root t \<longleftrightarrow> rep h None t \<and> root = root_ptr t \<and> dist t \<and> (\<forall>a. a \<notin> addrs t \<longrightarrow> h a = F a)"

lemma rep_plug: "rep h None (plug ctx t) \<longleftrightarrow> rep h (par ctx) t \<and> crep h (root_ptr t) ctx"
proof (induction ctx arbitrary: t)
  case (Cons f ctx)
  then show ?case by (cases f) auto
qed simp

lemma root_plug:
  "root_ptr (plug ctx t) = (if ctx = [] then root_ptr t else Some (faddr (last ctx)))"
proof (induction ctx arbitrary: t)
  case (Cons f ctx)
  then show ?case by (cases f) auto
qed simp

lemma faddr_in: "f \<in> set ctx \<Longrightarrow> faddr f \<in> caddrs ctx"
proof (induction ctx)
  case (Cons g ctx)
  then show ?case by (cases g) auto
qed simp

lemma faddr_last: "ctx \<noteq> [] \<Longrightarrow> faddr (last ctx) \<in> caddrs ctx"
  by (simp add: faddr_in)

lemma rep_upd [simp]: "a \<notin> addrs t \<Longrightarrow> rep (h(a := n)) p t = rep h p t"
  by (induction h p t rule: rep.induct) auto

lemma crep_upd [simp]: "a \<notin> caddrs ctx \<Longrightarrow> crep (h(a := n)) p ctx = crep h p ctx"
  by (induction h p ctx rule: crep.induct) auto

lemma root_ptr_in: "root_ptr t = Some a \<Longrightarrow> a \<in> addrs t"
  by (cases t) auto

lemma root_ptr_None [simp]: "root_ptr t = None \<longleftrightarrow> t = E"
  by (cases t) auto

lemma mk_simps [simp]:
  "n_red (mk c i p l r) = c" "n_parent (mk c i p l r) = p" "n_left (mk c i p l r) = l"
  "n_right (mk c i p l r) = r" "n_start (mk c i p l r) = fst (snd i)"
  "n_end (mk c i p l r) = fst (snd (snd i))" "n_value (mk c i p l r) = snd (snd (snd i))"
  "set_parent q (mk c i p l r) = mk c i q l r" "set_left q (mk c i p l r) = mk c i p q r"
  "set_right q (mk c i p l r) = mk c i p l q" "set_colour d (mk c i p l r) = mk d i p l r"
  by (cases i; simp add: set_parent_def set_left_def set_right_def set_colour_def)+

lemma mk_eq_iff [simp]:
  "mk c i p l r = mk c' i' p' l' r' \<longleftrightarrow> c = c' \<and> i = i' \<and> p = p' \<and> l = l' \<and> r = r'"
  by (cases i; cases i') auto

declare mk.simps [simp del]

lemma node_Some [simp]: "node h (Some a) = h a"
  by (simp add: node_def)

lemma upd_Some [simp]: "h a = Some n \<Longrightarrow> upd h (Some a) f = Some (h(a \<mapsto> f n))"
  by (simp add: upd_def)

lemma rooted_node:
  assumes "rooted F h root (plug ctx (N c l a i r))"
  shows "h a = Some (mk c i (par ctx) (root_ptr l) (root_ptr r))"
  using assms by (simp add: rooted_def rep_plug)

lemma rooted_colour:
  assumes "rooted F h root (plug ctx (N c l a i r))"
  shows "\<exists>h'. upd h (Some a) (set_colour d) = Some h' \<and> rooted F h' root (plug ctx (N d l a i r))"
proof -
  have h: "h a = Some (mk c i (par ctx) (root_ptr l) (root_ptr r))" by (rule rooted_node [OF assms])
  let ?h = "h(a \<mapsto> mk d i (par ctx) (root_ptr l) (root_ptr r))"
  have "rooted F ?h root (plug ctx (N d l a i r))"
    using assms by (auto simp: rooted_def rep_plug root_plug)
  then show ?thesis using h by (simp add: upd_def)
qed

lemma rooted_root_iff:
  assumes "rooted F h root (plug ctx t)" "a \<in> addrs t"
  shows "root = Some a \<longleftrightarrow> ctx = [] \<and> root_ptr t = Some a"
proof (cases "ctx = []")
  case False
  have "root = Some (faddr (last ctx))" "addrs t \<inter> caddrs ctx = {}"
    using assms(1) False by (simp_all add: rooted_def root_plug)
  then show ?thesis using faddr_last [OF False] assms(2) False by auto
qed (use assms in \<open>auto simp: rooted_def\<close>)

text \<open>
  The two pointer adjustments that the operations make around the nodes they move: the parent of the
  root of a subtree, and the child of the node above a position.
\<close>

definition reparent :: "heap \<Rightarrow> rbt \<Rightarrow> ptr \<Rightarrow> heap" where
  "reparent h t q =
     (case root_ptr t of None \<Rightarrow> h | Some a \<Rightarrow> h(a := map_option (set_parent q) (h a)))"

definition rechild :: "heap \<Rightarrow> frame list \<Rightarrow> ptr \<Rightarrow> heap" where
  "rechild h ctx q =
     (case ctx of [] \<Rightarrow> h
      | LF c a i r # _ \<Rightarrow> h(a := map_option (set_left q) (h a))
      | RF c l a i # _ \<Rightarrow> h(a := map_option (set_right q) (h a)))"

lemma reparent_other [simp]:
  "a \<notin> addrs t \<Longrightarrow> reparent h t q a = h a"
  "addrs t \<inter> addrs u = {} \<Longrightarrow> rep (reparent h t q) p u = rep h p u"
  "addrs t \<inter> caddrs ctx = {} \<Longrightarrow> crep (reparent h t q) p ctx = crep h p ctx"
  by (cases t; auto simp: reparent_def)+

lemma rechild_other [simp]:
  "a \<notin> caddrs ctx \<Longrightarrow> rechild h ctx q a = h a"
  "addrs u \<inter> caddrs ctx = {} \<Longrightarrow> rep (rechild h ctx q) p u = rep h p u"
  by (auto simp: rechild_def split: list.splits frame.splits)

lemma rep_reparent [simp]: "rep h p t \<Longrightarrow> dist t \<Longrightarrow> rep (reparent h t q) q t"
  by (cases t) (auto simp: reparent_def)

lemma crep_rechild [simp]: "crep h p ctx \<Longrightarrow> cdist ctx \<Longrightarrow> crep (rechild h ctx q) q ctx"
  by (cases "(h, p, ctx)" rule: crep.cases) (auto simp: rechild_def)

lemma reparent_upd:
  "rep h p t \<Longrightarrow> upd_if h (root_ptr t) (set_parent q) = Some (reparent h t q)"
  by (cases t) (auto simp: reparent_def upd_if_def)

lemma replace_child_eq:
  assumes "crep h (Some x) ctx" "cdist ctx" "x \<notin> caddrs ctx"
  shows "replace_child h root (par ctx) (Some x) q = Some (rechild h ctx q, if ctx = [] then q else root)"
proof (cases "(h, Some x, ctx)" rule: crep.cases)
  case (3 h' p' c l a i ctx')
  then have "root_ptr l \<noteq> Some x" using assms(3) root_ptr_in by fastforce
  then show ?thesis using 3 assms by (auto simp: replace_child_def rechild_def node_def upd_def)
qed (use assms in \<open>auto simp: replace_child_def rechild_def node_def upd_def\<close>)

lemma rotate_link_eq:
  assumes "crep h (Some x) ctx" "cdist ctx" "x \<notin> caddrs ctx" "h x = Some n" "n_parent n = par ctx"
    and "root = Some x \<longleftrightarrow> ctx = []"
  shows "rotate_link h root (Some x) q = Some (rechild h ctx q, if ctx = [] then q else root)"
proof (cases "ctx = []")
  case False
  then have "par ctx \<noteq> None" by (cases ctx) auto
  then have "rotate_link h root (Some x) q = replace_child h root (par ctx) (Some x) q"
    using assms(4,5,6) False by (auto simp: rotate_link_def replace_child_def node_def)
  then show ?thesis using replace_child_eq [OF assms(1-3)] by simp
qed (use assms in \<open>simp add: rotate_link_def rechild_def\<close>)

lemma rootedD:
  assumes "rooted F h root (plug ctx t)"
  shows "rep h (par ctx) t" "crep h (root_ptr t) ctx" "dist t" "cdist ctx" "addrs t \<inter> caddrs ctx = {}"
    "\<forall>a. a \<notin> addrs t \<union> caddrs ctx \<longrightarrow> h a = F a" "root = (if ctx = [] then root_ptr t else Some (faddr (last ctx)))"
  using assms by (simp_all add: rooted_def rep_plug root_plug)

lemma rootedI:
  assumes "rep h (par ctx) t" "crep h (root_ptr t) ctx" "dist t" "cdist ctx" "addrs t \<inter> caddrs ctx = {}"
    "\<forall>a. a \<notin> addrs t \<union> caddrs ctx \<longrightarrow> h a = F a" "root = (if ctx = [] then root_ptr t else Some (faddr (last ctx)))"
  shows "rooted F h root (plug ctx t)"
  using assms by (simp add: rooted_def rep_plug root_plug)

lemma rooted_rotate_left:
  assumes R: "rooted F h root (plug ctx (N c A x i (N d B y j C)))"
  shows "\<exists>h' root'. rotate_left h root (Some x) = Some (h', root') \<and>
    rooted F h' root' (plug ctx (N d (N c A x i B) y j C))"
proof -
  note r = rootedD [OF R]
  let ?P = "par ctx"
  let ?h1 = "h(x \<mapsto> mk c i ?P (root_ptr A) (root_ptr B))"
  let ?h2 = "reparent ?h1 B (Some x)"
  let ?h3 = "?h2(y \<mapsto> mk d j ?P (root_ptr B) (root_ptr C))"
  let ?h4 = "rechild ?h3 ctx (Some y)"
  let ?h6 = "?h4(y \<mapsto> mk d j ?P (Some x) (root_ptr C), x \<mapsto> mk c i (Some y) (root_ptr A) (root_ptr B))"
  let ?root = "if ctx = [] then Some y else root"
  have d: "x \<noteq> y" "x \<notin> addrs A" "x \<notin> addrs B" "x \<notin> addrs C" "y \<notin> addrs A" "y \<notin> addrs B" "y \<notin> addrs C"
    "x \<notin> caddrs ctx" "y \<notin> caddrs ctx" "addrs A \<inter> caddrs ctx = {}" "addrs B \<inter> caddrs ctx = {}"
    "addrs C \<inter> caddrs ctx = {}" "addrs A \<inter> addrs B = {}" "addrs B \<inter> addrs A = {}"
    "addrs A \<inter> addrs C = {}" "addrs B \<inter> addrs C = {}"
    using r(3,5) by auto
  have hx: "h x = Some (mk c i ?P (root_ptr A) (Some y))" "h y = Some (mk d j (Some x) (root_ptr B) (root_ptr C))"
    and rs: "rep h (Some x) A" "rep h (Some y) B" "rep h (Some y) C" "crep h (Some x) ctx"
    using r(1,2) by simp_all
  have 2: "upd_if ?h1 (root_ptr B) (set_parent (Some x)) = Some ?h2"
    using rs(2) d by (intro reparent_upd [of _ "Some y"]) simp
  have 4: "rotate_link ?h3 root (Some x) (Some y) = Some (?h4, ?root)"
    using rs(4) d r(4) rooted_root_iff [OF R, of x] by (intro rotate_link_eq) auto
  have "rotate_left h root (Some x) = Some (?h6, ?root)"
    using hx d 2 4 by (simp add: rotate_left_def Let_def)
  moreover have "rooted F ?h6 ?root (plug ctx (N d (N c A x i B) y j C))"
    using rs d r(3,4,6,7) by (intro rootedI) auto
  ultimately show ?thesis by blast
qed

lemma rooted_rotate_right:
  assumes R: "rooted F h root (plug ctx (N c (N d B y j C) x i A))"
  shows "\<exists>h' root'. rotate_right h root (Some x) = Some (h', root') \<and>
    rooted F h' root' (plug ctx (N d B y j (N c C x i A)))"
proof -
  note r = rootedD [OF R]
  let ?P = "par ctx"
  let ?h1 = "h(x \<mapsto> mk c i ?P (root_ptr C) (root_ptr A))"
  let ?h2 = "reparent ?h1 C (Some x)"
  let ?h3 = "?h2(y \<mapsto> mk d j ?P (root_ptr B) (root_ptr C))"
  let ?h4 = "rechild ?h3 ctx (Some y)"
  let ?h6 = "?h4(y \<mapsto> mk d j ?P (root_ptr B) (Some x), x \<mapsto> mk c i (Some y) (root_ptr C) (root_ptr A))"
  let ?root = "if ctx = [] then Some y else root"
  have d: "x \<noteq> y" "x \<notin> addrs A" "x \<notin> addrs B" "x \<notin> addrs C" "y \<notin> addrs A" "y \<notin> addrs B" "y \<notin> addrs C"
    "x \<notin> caddrs ctx" "y \<notin> caddrs ctx" "addrs A \<inter> caddrs ctx = {}" "addrs B \<inter> caddrs ctx = {}"
    "addrs C \<inter> caddrs ctx = {}" "addrs C \<inter> addrs A = {}" "addrs C \<inter> addrs B = {}" "addrs B \<inter> addrs A = {}"
    using r(3,5) by auto
  have hx: "h x = Some (mk c i ?P (Some y) (root_ptr A))" "h y = Some (mk d j (Some x) (root_ptr B) (root_ptr C))"
    and rs: "rep h (Some x) A" "rep h (Some y) B" "rep h (Some y) C" "crep h (Some x) ctx"
    using r(1,2) by simp_all
  have 2: "upd_if ?h1 (root_ptr C) (set_parent (Some x)) = Some ?h2"
    using rs(3) d by (intro reparent_upd [of _ "Some y"]) simp
  have 4: "rotate_link ?h3 root (Some x) (Some y) = Some (?h4, ?root)"
    using rs(4) d r(4) rooted_root_iff [OF R, of x] by (intro rotate_link_eq) auto
  have "rotate_right h root (Some x) = Some (?h6, ?root)"
    using hx d 2 4 by (simp add: rotate_right_def Let_def)
  moreover have "rooted F ?h6 ?root (plug ctx (N d B y j (N c C x i A)))"
    using rs d r(3,4,6,7) by (intro rootedI) auto
  ultimately show ?thesis by blast
qed

section \<open>Colours\<close>

fun black :: "rbt \<Rightarrow> bool" where
  "black E \<longleftrightarrow> True"
| "black (N c l a i r) \<longleftrightarrow> \<not> c"

fun bh :: "rbt \<Rightarrow> nat" where
  "bh E = 0"
| "bh (N c l a i r) = bh l + (if c then 0 else 1)"

fun inv_rb :: "rbt \<Rightarrow> bool" where
  "inv_rb E \<longleftrightarrow> True"
| "inv_rb (N c l a i r) \<longleftrightarrow> inv_rb l \<and> inv_rb r \<and> bh l = bh r \<and> (c \<longrightarrow> black l \<and> black r)"

fun fred :: "frame \<Rightarrow> bool" where
  "fred (LF c a i r) = c"
| "fred (RF c l a i) = c"

definition top_black :: "frame list \<Rightarrow> bool" where
  "top_black ctx \<longleftrightarrow> (case ctx of [] \<Rightarrow> False | f # _ \<Rightarrow> \<not> fred f)"

lemma top_black_simps [simp]: "top_black [] = False" "top_black (f # ctx) = (\<not> fred f)"
  by (simp_all add: top_black_def)

text \<open>\<open>cinv ctx n\<close>: a tree of black height \<open>n\<close> with a black root fits at the position.\<close>

fun cinv :: "frame list \<Rightarrow> nat \<Rightarrow> bool" where
  "cinv [] n \<longleftrightarrow> True"
| "cinv (LF c a i s # ctx) n \<longleftrightarrow> inv_rb s \<and> bh s = n \<and> (c \<longrightarrow> black s \<and> top_black ctx) \<and> cinv ctx (n + (if c then 0 else 1))"
| "cinv (RF c s a i # ctx) n \<longleftrightarrow> inv_rb s \<and> bh s = n \<and> (c \<longrightarrow> black s \<and> top_black ctx) \<and> cinv ctx (n + (if c then 0 else 1))"

definition ok_rb :: "rbt \<Rightarrow> bool" where
  "ok_rb t \<longleftrightarrow> inv_rb t \<and> black t"

lemma ok_plug: "ok_rb (plug ctx t) \<longleftrightarrow> inv_rb t \<and> cinv ctx (bh t) \<and> (black t \<or> top_black ctx)"
proof (induction ctx arbitrary: t)
  case (Cons f ctx)
  show ?case
  proof (cases f)
    case (LF c a i s)
    then show ?thesis unfolding plug.simps Cons.IH by (cases c; cases "bh s = bh t") auto
  next
    case (RF c s a i)
    then show ?thesis unfolding plug.simps Cons.IH by (cases c; cases "bh s = bh t") auto
  qed
qed (auto simp: ok_rb_def)

fun blacken :: "rbt \<Rightarrow> rbt" where
  "blacken E = E"
| "blacken (N c l a i r) = N False l a i r"

lemma blacken_props [simp]:
  "inord (blacken t) = inord t" "inv_rb t \<Longrightarrow> inv_rb (blacken t)" "black (blacken t)"
  by (cases t; simp)+

lemma rep_is_red: "rep h p t \<Longrightarrow> is_red h (root_ptr t) = Some (\<not> black t)"
  by (cases t) (auto simp: is_red_def)

lemma rooted_is_red: "rooted F h root (plug ctx t) \<Longrightarrow> is_red h (root_ptr t) = Some (\<not> black t)"
  by (rule rep_is_red [OF rootedD(1)])

lemma rooted_red:
  "rooted F h root (plug ctx (N c l a i r)) \<Longrightarrow>
    \<exists>h'. set_red h (Some a) = Some h' \<and> rooted F h' root (plug ctx (N True l a i r))"
  using rooted_colour by (simp add: set_red_def upd_if_def)

lemma rooted_black:
  "rooted F h root (plug ctx (N c l a i r)) \<Longrightarrow>
    \<exists>h'. set_black h (Some a) = Some h' \<and> rooted F h' root (plug ctx (N False l a i r))"
  using rooted_colour by (simp add: set_black_def upd_if_def)

text \<open>The same lemmas one level below the position.\<close>

lemmas rooted_node_l = rooted_node [where ctx = "LF gc g gi t # ctx" for gc g gi t ctx, unfolded plug.simps plug1.simps par.simps faddr.simps]
lemmas rooted_node_r = rooted_node [where ctx = "RF gc t g gi # ctx" for gc g gi t ctx, unfolded plug.simps plug1.simps par.simps faddr.simps]
lemmas rooted_black_l = rooted_black [where ctx = "LF gc g gi t # ctx" for gc g gi t ctx, unfolded plug.simps plug1.simps]
lemmas rooted_black_r = rooted_black [where ctx = "RF gc t g gi # ctx" for gc g gi t ctx, unfolded plug.simps plug1.simps]
lemmas rooted_red_l = rooted_red [where ctx = "LF gc g gi t # ctx" for gc g gi t ctx, unfolded plug.simps plug1.simps]
lemmas rooted_red_r = rooted_red [where ctx = "RF gc t g gi # ctx" for gc g gi t ctx, unfolded plug.simps plug1.simps]
lemmas rooted_colour_l = rooted_colour [where ctx = "LF gc g gi t # ctx" for gc g gi t ctx, unfolded plug.simps plug1.simps]
lemmas rooted_colour_r = rooted_colour [where ctx = "RF gc t g gi # ctx" for gc g gi t ctx, unfolded plug.simps plug1.simps]
lemmas rooted_rotate_left_l = rooted_rotate_left [where ctx = "LF gc g gi t # ctx" for gc g gi t ctx, unfolded plug.simps plug1.simps]
lemmas rooted_rotate_right_r = rooted_rotate_right [where ctx = "RF gc t g gi # ctx" for gc g gi t ctx, unfolded plug.simps plug1.simps]

lemma rooted_black_root:
  assumes "rooted F h root t"
  shows "\<exists>h'. set_black h root = Some h' \<and> rooted F h' root (blacken t)"
proof (cases t)
  case E
  then show ?thesis using assms by (simp add: rooted_def set_black_def upd_if_def)
next
  case (N c l a i r)
  then have "root = Some a" using assms by (simp add: rooted_def)
  then show ?thesis using rooted_black [of F h root "[]" c l a i r] assms N by simp
qed

section \<open>Insertion\<close>

lemma parent_of_eq [simp]: "h a = Some n \<Longrightarrow> parent_of h (Some a) = Some (n_parent n)"
  by (simp add: parent_of_def)

lemma insert_fixup_stop:
  assumes R: "rooted F h root (plug ctx (N c A x i B))" and b: "ctx = [] \<or> top_black ctx"
  shows "insert_fixup h root (Some x) = map_option (\<lambda>h. (h, root)) (set_black h root)"
proof -
  have x: "h x = Some (mk c i (par ctx) (root_ptr A) (root_ptr B))" by (rule rooted_node [OF R])
  have r: "root = Some x \<longleftrightarrow> ctx = []" using rooted_root_iff [OF R, of x] by simp
  have "is_red h (par ctx) = Some False" if ne: "ctx \<noteq> []"
  proof -
    obtain f ctx' where f: "ctx = f # ctx'" using ne by (cases ctx) auto
    show ?thesis
      using R b by (cases f) (auto simp: f is_red_def dest!: rooted_node)
  qed
  then show ?thesis
    using x r by (subst insert_fixup.simps) (auto simp: map_option_case split: option.splits)
qed

lemma insert_red_uncle_left:
  assumes R: "rooted F h root (plug ctx (N gc P g gi U))"
    and P: "P = N True L p pi S" and x: "root_ptr L = Some x \<or> root_ptr S = Some x"
    and U: "U = N True UL u ui UR"
  shows "\<exists>h'. insert_fixup h root (Some x) = insert_fixup h' root (Some g) \<and>
    rooted F h' root (plug ctx (N True (blacken P) g gi (blacken U)))"
proof -
  note R = R [unfolded P U]
  have px: "h p = Some (mk True pi (Some g) (root_ptr L) (root_ptr S))"
    by (rule rooted_node_l [OF R])
  have gx: "h g = Some (mk gc gi (par ctx) (Some p) (Some u))" using rooted_node [OF R] by simp
  have ux: "h u = Some (mk True ui (Some g) (root_ptr UL) (root_ptr UR))"
    by (rule rooted_node_r [OF R])
  have rp: "rep h (Some p) L" "rep h (Some p) S" using rootedD(1) [OF R] by simp_all
  then have xx: "parent_of h (Some x) = Some (Some p)"
    using x by (cases L; cases S) auto
  have xr: "Some x \<noteq> root"
    using rooted_root_iff [OF R, of x] rootedD(3) [OF R] x root_ptr_in by fastforce
  obtain h1 where h1: "set_black h (Some u) = Some h1"
    "rooted F h1 root (plug ctx (N gc (N True L p pi S) g gi (N False UL u ui UR)))"
    using rooted_black_r [OF R] by blast
  obtain h2 where h2: "set_black h1 (Some p) = Some h2"
    "rooted F h2 root (plug ctx (N gc (N False L p pi S) g gi (N False UL u ui UR)))"
    using rooted_black_l [OF h1(2)] by blast
  obtain h3 where h3: "set_red h2 (Some g) = Some h3"
    "rooted F h3 root (plug ctx (N True (N False L p pi S) g gi (N False UL u ui UR)))"
    using rooted_red [OF h2(2)] by auto
  have "insert_fixup h root (Some x) = insert_fixup h3 root (Some g)"
    using px gx ux xx xr h1(1) h2(1) h3(1) by (subst insert_fixup.simps) (simp add: is_red_def)
  then show ?thesis using h3(2) by (auto simp: P U)
qed

lemma rooted_child_facts:
  assumes R: "rooted F h root (plug ctx (N gc P g gi U))"
    and p: "root_ptr P = Some p \<or> root_ptr U = Some p"
  shows "Some p \<noteq> root" "parent_of h (Some p) = Some (Some g)"
    "root_ptr P = Some p \<Longrightarrow> root_ptr U \<noteq> Some p" "root_ptr U = Some p \<Longrightarrow> root_ptr P \<noteq> Some p"
proof -
  note r = rootedD [OF R]
  show "Some p \<noteq> root" using rooted_root_iff [OF R, of p] r(3) p root_ptr_in by fastforce
  show "parent_of h (Some p) = Some (Some g)" using r(1) p by (cases P; cases U) auto
  show "root_ptr P = Some p \<Longrightarrow> root_ptr U \<noteq> Some p" "root_ptr U = Some p \<Longrightarrow> root_ptr P \<noteq> Some p"
    using r(3) by (auto dest!: root_ptr_in)
qed

lemmas rooted_child_facts_l =
  rooted_child_facts [where ctx = "LF gc g gi t # ctx" for gc g gi t ctx, unfolded plug.simps plug1.simps]
lemmas rooted_child_facts_r =
  rooted_child_facts [where ctx = "RF gc t g gi # ctx" for gc g gi t ctx, unfolded plug.simps plug1.simps]

lemma insert_red_uncle_right:
  assumes R: "rooted F h root (plug ctx (N gc U g gi P))"
    and P: "P = N True L p pi S" and x: "root_ptr L = Some x \<or> root_ptr S = Some x"
    and U: "U = N True UL u ui UR"
  shows "\<exists>h'. insert_fixup h root (Some x) = insert_fixup h' root (Some g) \<and>
    rooted F h' root (plug ctx (N True (blacken U) g gi (blacken P)))"
proof -
  note R = R [unfolded P U]
  note nodes = rooted_node_r [OF R] rooted_node [OF R] rooted_node_l [OF R]
    and cf = rooted_child_facts_r [OF R, of x] rooted_child_facts [OF R, of p]
  obtain h1 where h1: "set_black h (Some u) = Some h1"
    "rooted F h1 root (plug ctx (N gc (N False UL u ui UR) g gi (N True L p pi S)))"
    using rooted_black_l [OF R] by blast
  obtain h2 where h2: "set_black h1 (Some p) = Some h2"
    "rooted F h2 root (plug ctx (N gc (N False UL u ui UR) g gi (N False L p pi S)))"
    using rooted_black_r [OF h1(2)] by blast
  obtain h3 where h3: "set_red h2 (Some g) = Some h3"
    "rooted F h3 root (plug ctx (N True (N False UL u ui UR) g gi (N False L p pi S)))"
    using rooted_red [OF h2(2)] by blast
  have "insert_fixup h root (Some x) = insert_fixup h3 root (Some g)"
    using nodes cf x h1(1) h2(1) h3(1) by (subst insert_fixup.simps) (simp add: is_red_def)
  then show ?thesis using h3(2) by (auto simp: P U)
qed

lemma insert_rotate_ll:
  assumes R: "rooted F h root (plug ctx (N gc (N True X p pi S) g gi U))"
    and x: "root_ptr X = Some x" and U: "black U"
  shows "\<exists>h' root'. insert_fixup h root (Some x) = insert_fixup h' root' (Some x) \<and>
    rooted F h' root' (plug ctx (N False X p pi (N True S g gi U)))"
proof -
  note nodes = rooted_node [OF R] rooted_node_l [OF R]
    and cf = rooted_child_facts_l [OF R, of x] rooted_child_facts [OF R, of p]
  have u: "is_red h (root_ptr U) = Some False" using rep_is_red [of h "Some g" U] rootedD(1) [OF R] U by simp
  obtain h1 where h1: "set_black h (Some p) = Some h1"
    "rooted F h1 root (plug ctx (N gc (N False X p pi S) g gi U))"
    using rooted_black_l [OF R] by blast
  obtain h2 where h2: "set_red h1 (Some g) = Some h2"
    "rooted F h2 root (plug ctx (N True (N False X p pi S) g gi U))"
    using rooted_red [OF h1(2)] by blast
  obtain h3 root' where h3: "rotate_right h2 root (Some g) = Some (h3, root')"
    "rooted F h3 root' (plug ctx (N False X p pi (N True S g gi U)))"
    using rooted_rotate_right [OF h2(2)] by blast
  have g: "parent_of h1 (Some p) = Some (Some g)" using rooted_child_facts(2) [OF h1(2), of p] by simp
  have "is_red h (Some p) = Some True" using nodes by (simp add: is_red_def)
  then have "insert_fixup h root (Some x) = insert_fixup h3 root' (Some x)"
    using nodes cf x u h1(1) h2(1) h3(1) g by (subst insert_fixup.simps) simp
  then show ?thesis using h3(2) by blast
qed

lemma insert_rotate_rr:
  assumes R: "rooted F h root (plug ctx (N gc U g gi (N True S p pi X)))"
    and x: "root_ptr X = Some x" and U: "black U"
  shows "\<exists>h' root'. insert_fixup h root (Some x) = insert_fixup h' root' (Some x) \<and>
    rooted F h' root' (plug ctx (N False (N True U g gi S) p pi X))"
proof -
  note nodes = rooted_node [OF R] rooted_node_r [OF R]
    and cf = rooted_child_facts_r [OF R, of x] rooted_child_facts [OF R, of p]
  have u: "is_red h (root_ptr U) = Some False" using rep_is_red [of h "Some g" U] rootedD(1) [OF R] U by simp
  obtain h1 where h1: "set_black h (Some p) = Some h1"
    "rooted F h1 root (plug ctx (N gc U g gi (N False S p pi X)))"
    using rooted_black_r [OF R] by blast
  obtain h2 where h2: "set_red h1 (Some g) = Some h2"
    "rooted F h2 root (plug ctx (N True U g gi (N False S p pi X)))"
    using rooted_red [OF h1(2)] by blast
  obtain h3 root' where h3: "rotate_left h2 root (Some g) = Some (h3, root')"
    "rooted F h3 root' (plug ctx (N False (N True U g gi S) p pi X))"
    using rooted_rotate_left [OF h2(2)] by blast
  have g: "parent_of h1 (Some p) = Some (Some g)" using rooted_child_facts(2) [OF h1(2), of p] by simp
  have "is_red h (Some p) = Some True" using nodes by (simp add: is_red_def)
  then have "insert_fixup h root (Some x) = insert_fixup h3 root' (Some x)"
    using nodes cf x u h1(1) h2(1) h3(1) g by (subst insert_fixup.simps) simp
  then show ?thesis using h3(2) by blast
qed

lemma insert_rotate_lr:
  assumes R: "rooted F h root (plug ctx (N gc (N True S p pi (N True A x i B)) g gi U))" and U: "black U"
  shows "\<exists>h' root'. insert_fixup h root (Some x) = insert_fixup h' root' (Some p) \<and>
    rooted F h' root' (plug ctx (N False (N True S p pi A) x i (N True B g gi U)))"
proof -
  note nodes = rooted_node [OF R] rooted_node_l [OF R]
    and cf = rooted_child_facts_l [OF R, of x] rooted_child_facts [OF R, of p]
  have u: "is_red h (root_ptr U) = Some False" using rep_is_red [of h "Some g" U] rootedD(1) [OF R] U by simp
  obtain h0 r0 where h0: "rotate_left h root (Some p) = Some (h0, r0)"
    "rooted F h0 r0 (plug ctx (N gc (N True (N True S p pi A) x i B) g gi U))"
    using rooted_rotate_left_l [OF R] by blast
  have p: "parent_of h0 (Some p) = Some (Some x)" using rooted_child_facts_l(2) [OF h0(2), of p] by simp
  obtain h1 where h1: "set_black h0 (Some x) = Some h1"
    "rooted F h1 r0 (plug ctx (N gc (N False (N True S p pi A) x i B) g gi U))"
    using rooted_black_l [OF h0(2)] by blast
  obtain h2 where h2: "set_red h1 (Some g) = Some h2"
    "rooted F h2 r0 (plug ctx (N True (N False (N True S p pi A) x i B) g gi U))"
    using rooted_red [OF h1(2)] by blast
  obtain h3 root' where h3: "rotate_right h2 r0 (Some g) = Some (h3, root')"
    "rooted F h3 root' (plug ctx (N False (N True S p pi A) x i (N True B g gi U)))"
    using rooted_rotate_right [OF h2(2)] by blast
  have g: "parent_of h1 (Some x) = Some (Some g)" using rooted_child_facts(2) [OF h1(2), of x] by simp
  have "is_red h (Some p) = Some True" using nodes by (simp add: is_red_def)
  then have "insert_fixup h root (Some x) = insert_fixup h3 root' (Some p)"
    using nodes cf u h0(1) p h1(1) h2(1) h3(1) g by (subst insert_fixup.simps) simp
  then show ?thesis using h3(2) by blast
qed

lemma insert_rotate_rl:
  assumes R: "rooted F h root (plug ctx (N gc U g gi (N True (N True A x i B) p pi S)))" and U: "black U"
  shows "\<exists>h' root'. insert_fixup h root (Some x) = insert_fixup h' root' (Some p) \<and>
    rooted F h' root' (plug ctx (N False (N True U g gi A) x i (N True B p pi S)))"
proof -
  note nodes = rooted_node [OF R] rooted_node_r [OF R]
    and cf = rooted_child_facts_r [OF R, of x] rooted_child_facts [OF R, of p]
  have u: "is_red h (root_ptr U) = Some False" using rep_is_red [of h "Some g" U] rootedD(1) [OF R] U by simp
  obtain h0 r0 where h0: "rotate_right h root (Some p) = Some (h0, r0)"
    "rooted F h0 r0 (plug ctx (N gc U g gi (N True A x i (N True B p pi S))))"
    using rooted_rotate_right_r [OF R] by blast
  have p: "parent_of h0 (Some p) = Some (Some x)" using rooted_child_facts_r(2) [OF h0(2), of p] by simp
  obtain h1 where h1: "set_black h0 (Some x) = Some h1"
    "rooted F h1 r0 (plug ctx (N gc U g gi (N False A x i (N True B p pi S))))"
    using rooted_black_r [OF h0(2)] by blast
  obtain h2 where h2: "set_red h1 (Some g) = Some h2"
    "rooted F h2 r0 (plug ctx (N True U g gi (N False A x i (N True B p pi S))))"
    using rooted_red [OF h1(2)] by blast
  obtain h3 root' where h3: "rotate_left h2 r0 (Some g) = Some (h3, root')"
    "rooted F h3 root' (plug ctx (N False (N True U g gi A) x i (N True B p pi S)))"
    using rooted_rotate_left [OF h2(2)] by blast
  have g: "parent_of h1 (Some x) = Some (Some g)" using rooted_child_facts(2) [OF h1(2), of x] by simp
  have "is_red h (Some p) = Some True" using nodes by (simp add: is_red_def)
  then have "insert_fixup h root (Some x) = insert_fixup h3 root' (Some p)"
    using nodes cf u h0(1) p h1(1) h2(1) h3(1) g by (subst insert_fixup.simps) simp
  then show ?thesis using h3(2) by blast
qed

text \<open>Every case of the loop ends in one of these two ways.\<close>

definition fixed_up :: "heap \<Rightarrow> (nat \<times> info) list \<Rightarrow> (heap \<times> ptr) option \<Rightarrow> bool" where
  "fixed_up F xs r \<longleftrightarrow> (\<exists>h root T. r = Some (h, root) \<and> rooted F h root T \<and> ok_rb T \<and> inord T = xs)"

lemma insert_fixup_fixed:
  assumes R: "rooted F h root (plug ctx (N c A x i B))" and b: "ctx = [] \<or> top_black ctx"
    and inv: "inv_rb (plug ctx (N c A x i B))"
  shows "fixed_up F (inord (plug ctx (N c A x i B))) (insert_fixup h root (Some x))"
proof -
  obtain h' where "set_black h root = Some h'" "rooted F h' root (blacken (plug ctx (N c A x i B)))"
    using rooted_black_root [OF R] by blast
  then show ?thesis
    using insert_fixup_stop [OF R b] inv by (auto simp: fixed_up_def ok_rb_def)
qed

text \<open>
  One iteration either rotates, and the next test ends the loop (\<open>ins_halts\<close>), or recolours and goes on two
  levels above (\<open>ins_climbs\<close>).
\<close>

definition ins_halts :: "heap \<Rightarrow> (nat \<times> info) list \<Rightarrow> frame list \<Rightarrow> (heap \<times> ptr) option \<Rightarrow> bool" where
  "ins_halts F xs ctx r \<longleftrightarrow>
     (\<exists>h' root' q k d C j D. r = insert_fixup h' root' (Some q) \<and>
        rooted F h' root' (plug (k # ctx) (N d C q j D)) \<and> \<not> fred k \<and> inv_rb (N d C q j D) \<and>
        cinv (k # ctx) (bh (N d C q j D)) \<and> inord (plug (k # ctx) (N d C q j D)) = xs)"

definition ins_climbs :: "heap \<Rightarrow> (nat \<times> info) list \<Rightarrow> frame list \<Rightarrow> (heap \<times> ptr) option \<Rightarrow> bool" where
  "ins_climbs F xs ctx r \<longleftrightarrow>
     (\<exists>h' root' q C j D. r = insert_fixup h' root' (Some q) \<and>
        rooted F h' root' (plug ctx (N True C q j D)) \<and> inv_rb (N True C q j D) \<and>
        cinv ctx (bh C) \<and> inord (plug ctx (N True C q j D)) = xs)"

lemma insert_black_uncle_left:
  assumes R: "rooted F h root (plug (f # LF gc g gi U # ctx) (N True A x i B))"
    and ci: "cinv (f # LF gc g gi U # ctx) (bh A)" and it: "inv_rb (N True A x i B)"
    and f: "fred f" "black U"
  shows "ins_halts F (inord (plug (f # LF gc g gi U # ctx) (N True A x i B))) ctx (insert_fixup h root (Some x))"
proof (cases f)
  case (LF fc p pi S)
  obtain h' root' where "insert_fixup h root (Some x) = insert_fixup h' root' (Some x)"
    "rooted F h' root' (plug ctx (N False (N True A x i B) p pi (N True S g gi U)))"
    using insert_rotate_ll [of F h root ctx gc "N True A x i B" p pi S g gi U x] R f LF by auto
  then show ?thesis
    using ci it LF f unfolding ins_halts_def
    by (intro exI [of _ h'] exI [of _ root'] exI [of _ x] exI [of _ "LF False p pi (N True S g gi U)"]
        exI [of _ True] exI [of _ A] exI [of _ i] exI [of _ B]) (auto simp: inord_plug)
next
  case (RF fc S p pi)
  obtain h' root' where "insert_fixup h root (Some x) = insert_fixup h' root' (Some p)"
    "rooted F h' root' (plug ctx (N False (N True S p pi A) x i (N True B g gi U)))"
    using insert_rotate_lr [of F h root ctx gc S p pi A x i B g gi U] R f RF by auto
  then show ?thesis
    using ci it RF f unfolding ins_halts_def
    by (intro exI [of _ h'] exI [of _ root'] exI [of _ p] exI [of _ "LF False x i (N True B g gi U)"]
        exI [of _ True] exI [of _ S] exI [of _ pi] exI [of _ A]) (auto simp: inord_plug)
qed

lemma insert_black_uncle_right:
  assumes R: "rooted F h root (plug (f # RF gc U g gi # ctx) (N True A x i B))"
    and ci: "cinv (f # RF gc U g gi # ctx) (bh A)" and it: "inv_rb (N True A x i B)"
    and f: "fred f" "black U"
  shows "ins_halts F (inord (plug (f # RF gc U g gi # ctx) (N True A x i B))) ctx (insert_fixup h root (Some x))"
proof (cases f)
  case (LF fc p pi S)
  obtain h' root' where "insert_fixup h root (Some x) = insert_fixup h' root' (Some p)"
    "rooted F h' root' (plug ctx (N False (N True U g gi A) x i (N True B p pi S)))"
    using insert_rotate_rl [of F h root ctx gc U g gi A x i B p pi S] R f LF by auto
  then show ?thesis
    using ci it LF f unfolding ins_halts_def
    by (intro exI [of _ h'] exI [of _ root'] exI [of _ p] exI [of _ "RF False (N True U g gi A) x i"]
        exI [of _ True] exI [of _ B] exI [of _ pi] exI [of _ S]) (auto simp: inord_plug)
next
  case (RF fc S p pi)
  obtain h' root' where "insert_fixup h root (Some x) = insert_fixup h' root' (Some x)"
    "rooted F h' root' (plug ctx (N False (N True U g gi S) p pi (N True A x i B)))"
    using insert_rotate_rr [of F h root ctx gc U g gi S p pi "N True A x i B" x] R f RF by auto
  then show ?thesis
    using ci it RF f unfolding ins_halts_def
    by (intro exI [of _ h'] exI [of _ root'] exI [of _ x] exI [of _ "RF False (N True U g gi S) p pi"]
        exI [of _ True] exI [of _ A] exI [of _ i] exI [of _ B]) (auto simp: inord_plug)
qed

lemma insert_red_uncle:
  assumes R: "rooted F h root (plug (f # g # ctx) (N True A x i B))"
    and ci: "cinv (f # g # ctx) (bh A)" and it: "inv_rb (N True A x i B)"
    and f: "fred f" "g = LF gc ga gi U \<or> g = RF gc U ga gi" "\<not> black U"
  shows "ins_climbs F (inord (plug (f # g # ctx) (N True A x i B))) ctx (insert_fixup h root (Some x))"
proof -
  obtain UL u ui UR where U: "U = N True UL u ui UR" using f(3) by (cases U) auto
  obtain P p L pi S where P: "P = plug1 f (N True A x i B)" "P = N True L p pi S"
    "root_ptr L = Some x \<or> root_ptr S = Some x" using f(1) by (cases f) auto
  obtain h' where h': "insert_fixup h root (Some x) = insert_fixup h' root (Some ga)"
    "rooted F h' root (plug ctx
      (if g = LF gc ga gi U then N True (blacken P) ga gi (blacken U) else N True (blacken U) ga gi (blacken P)))"
    using insert_red_uncle_left [of F h root ctx gc P ga gi U, OF _ P(2,3) U]
      insert_red_uncle_right [of F h root ctx gc U ga gi P, OF _ P(2,3) U] R P(1) f(2) by auto
  have "bh (blacken P) = bh A + 1" "inv_rb (blacken P)" "inord (blacken P) = inord (plug1 f (N True A x i B))"
    using ci it P(1) f(1) by (cases f; auto)+
  moreover have "\<not> gc" using ci f(1,2) by (cases f) auto
  ultimately show ?thesis
    using f h' ci U unfolding ins_climbs_def
    by (intro exI [of _ h'] exI [of _ root] exI [of _ ga]
        exI [of _ "if g = LF gc ga gi U then blacken P else blacken U"] exI [of _ gi]
        exI [of _ "if g = LF gc ga gi U then blacken U else blacken P"]) (cases f; auto simp: inord_plug)
qed

lemma insert_fixup_correct:
  "rooted F h root (plug ctx (N True A x i B)) \<Longrightarrow> cinv ctx (bh A) \<Longrightarrow> inv_rb (N True A x i B) \<Longrightarrow>
   fixed_up F (inord (plug ctx (N True A x i B))) (insert_fixup h root (Some x))"
proof (induction "length ctx" arbitrary: h root ctx A x i B rule: less_induct)
  case less
  note R = less.prems(1) and ci = less.prems(2) and it = less.prems(3)
  let ?xs = "inord (plug ctx (N True A x i B))"
  show ?case
  proof (cases "ctx = [] \<or> top_black ctx")
    case True
    have "inv_rb (plug ctx (N True A x i B))"
    proof (cases "ctx = []")
      case False
      then show ?thesis using True ci it ok_plug [of ctx "N True A x i B"] by (simp add: ok_rb_def)
    qed (use it in simp)
    from insert_fixup_fixed [OF R True this] show ?thesis .
  next
    case False
    then obtain f ctx1 where f: "ctx = f # ctx1" "fred f" by (cases ctx) auto
    then have "top_black ctx1" using ci by (cases f) auto
    then obtain g ctx' where c: "ctx = f # g # ctx'" using f by (cases ctx1) auto
    have "ins_halts F ?xs ctx' (insert_fixup h root (Some x)) \<or> ins_climbs F ?xs ctx' (insert_fixup h root (Some x))"
      using insert_black_uncle_left insert_black_uncle_right insert_red_uncle R ci it f(2) unfolding c
      by (metis (full_types) frame.exhaust)
    then show ?thesis
    proof
      assume "ins_halts F ?xs ctx' (insert_fixup h root (Some x))"
      then show ?thesis
        unfolding ins_halts_def using insert_fixup_fixed ok_plug ok_rb_def top_black_simps(2) by metis
    next
      assume "ins_climbs F ?xs ctx' (insert_fixup h root (Some x))"
      then show ?thesis unfolding ins_climbs_def using less.hyps [of ctx'] c by force
    qed
  qed
qed

end
