(* ===== verification/Rb_Map.thy ===== *)
theory Rb_Map
  imports Rb_Proofs
begin

text \<open>
  The red-black tree as a map from disjoint intervals: the abstract state is the list of the intervals in
  ascending order, and search, insertion, removal, iteration and deletion are functions of that list.
\<close>

section \<open>Intervals\<close>

abbreviation lo :: "nat \<times> info \<Rightarrow> nat" where "lo x \<equiv> fst (snd (snd x))"
abbreviation hi :: "nat \<times> info \<Rightarrow> nat" where "hi x \<equiv> fst (snd (snd (snd x)))"

definition iv_sorted :: "(nat \<times> info) list \<Rightarrow> bool" where
  "iv_sorted xs \<longleftrightarrow> sorted_wrt (\<lambda>x y. hi x < lo y) xs \<and> (\<forall>x\<in>set xs. lo x \<le> hi x)"

definition contains :: "nat \<Rightarrow> nat \<times> info \<Rightarrow> bool" where
  "contains key x \<longleftrightarrow> lo x \<le> key \<and> key \<le> hi x"

definition overlaps :: "nat \<Rightarrow> nat \<Rightarrow> nat \<times> info \<Rightarrow> bool" where
  "overlaps s e x \<longleftrightarrow> s \<le> hi x \<and> lo x \<le> e"

lemma iv_sorted_append:
  "iv_sorted (xs @ ys) \<longleftrightarrow> iv_sorted xs \<and> iv_sorted ys \<and> (\<forall>x\<in>set xs. \<forall>y\<in>set ys. hi x < lo y)"
  by (auto simp: iv_sorted_def sorted_wrt_append)

lemma iv_sorted_Cons:
  "iv_sorted (x # xs) \<longleftrightarrow> lo x \<le> hi x \<and> iv_sorted xs \<and> (\<forall>y\<in>set xs. hi x < lo y)"
  by (auto simp: iv_sorted_def)

lemma iv_sorted_Nil [simp]: "iv_sorted []"
  by (simp add: iv_sorted_def)

lemma iv_sorted_le: "iv_sorted xs \<Longrightarrow> x \<in> set xs \<Longrightarrow> lo x \<le> hi x"
  by (simp add: iv_sorted_def)

lemmas iv_sorted_simps = iv_sorted_append iv_sorted_Cons

lemma not_overlaps_before: "\<forall>x\<in>set xs. hi x < k \<Longrightarrow> k \<le> s \<Longrightarrow> x \<in> set xs \<Longrightarrow> \<not> overlaps s e x"
  unfolding overlaps_def using less_le_trans not_le by blast

lemma not_overlaps_after: "\<forall>x\<in>set xs. k < lo x \<Longrightarrow> e \<le> k \<Longrightarrow> x \<in> set xs \<Longrightarrow> \<not> overlaps s e x"
  unfolding overlaps_def using le_less_trans not_le by blast

section \<open>Search\<close>

lemma search_loop_correct:
  "rep h p t \<Longrightarrow> iv_sorted (inord t) \<Longrightarrow>
   search_loop h (root_ptr t) key = Some (map_option fst (find (contains key) (inord t)))"
proof (induction t arbitrary: p)
  case E
  then show ?case by (subst search_loop.simps) simp
next
  case (N c l a i r)
  have s: "iv_sorted (inord l)" "iv_sorted (inord r)" and le: "lo (a, i) \<le> hi (a, i)"
    and lt: "\<forall>x\<in>set (inord l). hi x < lo (a, i)" "\<forall>x\<in>set (inord r). hi (a, i) < lo x"
    using N.prems(2) by (simp_all add: iv_sorted_simps)
  have fa: "find P (xs @ y # ys) = (case find P xs of Some z \<Rightarrow> Some z
      | None \<Rightarrow> if P y then Some y else find P ys)" for P xs y ys and z :: "nat \<times> info"
    by (induction xs) auto
  have nl: "find (contains key) (inord l) = None" if "lo (a, i) \<le> key"
    using lt(1) that by (fastforce simp: find_None_iff contains_def)
  have nr: "find (contains key) (inord r) = None" if "key < lo (a, i)"
    using lt(2) le that by (fastforce simp: find_None_iff contains_def)
  have ca: "contains key (a, i) \<longleftrightarrow> lo (a, i) \<le> key \<and> key \<le> hi (a, i)" by (simp add: contains_def)
  show ?case
    using N.IH(1) [OF _ s(1)] N.IH(2) [OF _ s(2)] N.prems(1) nl nr le
    by (subst search_loop.simps) (auto simp: fa ca split: option.splits)
qed

section \<open>Validation\<close>

lemma tree_validate_correct:
  "rep h p t \<Longrightarrow> iv_sorted (inord t) \<Longrightarrow> inv_rb t \<Longrightarrow>
   tree_validate h (root_ptr t) None = Some (int (bh t), None)"
proof (induction t arbitrary: p)
  case E
  then show ?case by (subst tree_validate.simps) simp
next
  case (N c l a i r)
  have lt: "\<forall>x\<in>set (inord l). hi x < lo (a, i)" "\<forall>x\<in>set (inord r). hi (a, i) < lo x"
    "iv_sorted (inord l)" "iv_sorted (inord r)"
    using N.prems(2) by (simp_all add: iv_sorted_simps)
  have "node_validate h (Some a) = Some ()"
    using N.prems(1,3) lt by (cases l; cases r) (auto simp: node_validate_def is_red_def)
  then show ?case
    using N.IH(1) [of "Some a"] N.IH(2) [of "Some a"] N.prems(1,3) lt
    by (subst tree_validate.simps) (simp add: is_black_def is_red_def)
qed

lemma rb_tree_validate_correct:
  assumes "rooted F h root t" "iv_sorted (inord t)" "ok_rb t"
  shows "rb_tree_validate h root = Some ()"
proof -
  have r: "rep h None t" "root = root_ptr t" "inv_rb t" "black t"
    using assms by (auto simp: rooted_def ok_rb_def)
  then show ?thesis
    using tree_validate_correct [OF r(1) assms(2)] rep_is_red [OF r(1)]
    by (simp add: rb_tree_validate_def is_black_def)
qed

section \<open>Insertion\<close>

lemma insert_walk_overlap:
  "rep h p t \<Longrightarrow> iv_sorted (inord t) \<Longrightarrow> start \<le> stop \<Longrightarrow> \<exists>x\<in>set (inord t). overlaps start stop x \<Longrightarrow>
   insert_walk h (root_ptr t) q start stop = Some None"
proof (induction t arbitrary: p q)
  case (N c l a i r)
  have lt: "\<forall>x\<in>set (inord l). hi x < lo (a, i)" "\<forall>x\<in>set (inord r). hi (a, i) < lo x"
    "iv_sorted (inord l)" "iv_sorted (inord r)" "lo (a, i) \<le> hi (a, i)"
    using N.prems(2) by (simp_all add: iv_sorted_simps)
  consider "start > hi (a, i)" | "stop < lo (a, i)" "start \<le> hi (a, i)" | "overlaps start stop (a, i)"
    unfolding overlaps_def by linarith
  then show ?case
  proof cases
    case 1
    have "\<not> overlaps start stop x" if "x \<in> set (inord l)" for x
      using not_overlaps_before [OF lt(1) _ that] 1 lt(5) by simp
    moreover have "\<not> overlaps start stop (a, i)" using 1 by (simp add: overlaps_def)
    ultimately have "\<exists>x\<in>set (inord r). overlaps start stop x" using N.prems(4) by auto
    then show ?thesis
      using N.IH(2) [of "Some a"] N.prems(1,3) 1 lt by (subst insert_walk.simps) simp
  next
    case 2
    have "\<not> overlaps start stop x" if "x \<in> set (inord r)" for x
      using not_overlaps_after [OF lt(2) _ that] 2 lt(5) by simp
    moreover have "\<not> overlaps start stop (a, i)" using 2 by (simp add: overlaps_def)
    ultimately have "\<exists>x\<in>set (inord l). overlaps start stop x" using N.prems(4) by auto
    then show ?thesis
      using N.IH(1) [of "Some a"] N.prems(1,3) 2 lt by (subst insert_walk.simps) simp
  next
    case 3
    then show ?thesis using N.prems(1) by (subst insert_walk.simps) (simp add: overlaps_def)
  qed
qed simp

lemma insert_walk_free:
  "rep h (par ctx) t \<Longrightarrow> iv_sorted (inord t) \<Longrightarrow> start \<le> stop \<Longrightarrow> \<forall>x\<in>set (inord t). \<not> overlaps start stop x \<Longrightarrow>
   \<exists>ctx' pre post. insert_walk h (root_ptr t) (par ctx) start stop = Some (Some (par ctx')) \<and>
     plug ctx' E = plug ctx t \<and> cpre ctx' = cpre ctx @ pre \<and> cpost ctx' = post @ cpost ctx \<and>
     (\<forall>x\<in>set pre. hi x < start) \<and> (\<forall>x\<in>set post. stop < lo x)"
proof (induction t arbitrary: ctx)
  case E
  then show ?case by (subst insert_walk.simps) (auto intro!: exI [of _ ctx])
next
  case (N c l a i r)
  have lt: "\<forall>x\<in>set (inord l). hi x < lo (a, i)" "\<forall>x\<in>set (inord r). hi (a, i) < lo x"
    "iv_sorted (inord l)" "iv_sorted (inord r)" "lo (a, i) \<le> hi (a, i)"
    using N.prems(2) by (simp_all add: iv_sorted_simps)
  have "\<not> overlaps start stop (a, i)" using N.prems(4) by simp
  then consider "start > hi (a, i)" | "stop < lo (a, i)" "start \<le> hi (a, i)"
    unfolding overlaps_def by linarith
  then show ?case
  proof cases
    case 1
    obtain ctx' pre post where IH: "insert_walk h (root_ptr r) (Some a) start stop = Some (Some (par ctx'))"
        "plug ctx' E = plug ctx (N c l a i r)" "cpre ctx' = cpre ctx @ inord l @ [(a, i)] @ pre"
        "cpost ctx' = post @ cpost ctx" "\<forall>x\<in>set pre. hi x < start" "\<forall>x\<in>set post. stop < lo x"
      using N.IH(2) [of "RF c l a i # ctx"] N.prems lt by auto
    have "hi x < start" if "x \<in> set (inord l)" for x using lt(1,5) 1 that by (meson le_less_trans less_imp_le)
    then have "\<forall>x\<in>set (inord l @ [(a, i)] @ pre). hi x < start" using IH(5) 1 by auto
    then show ?thesis
      using IH N.prems(1) 1
      by (intro exI [of _ ctx'] exI [of _ "inord l @ [(a, i)] @ pre"] exI [of _ post])
        (subst insert_walk.simps, simp)
  next
    case 2
    obtain ctx' pre post where IH: "insert_walk h (root_ptr l) (Some a) start stop = Some (Some (par ctx'))"
        "plug ctx' E = plug ctx (N c l a i r)" "cpre ctx' = cpre ctx @ pre"
        "cpost ctx' = post @ (a, i) # inord r @ cpost ctx" "\<forall>x\<in>set pre. hi x < start" "\<forall>x\<in>set post. stop < lo x"
      using N.IH(1) [of "LF c a i r # ctx"] N.prems lt by auto
    have "stop < lo x" if "x \<in> set (inord r)" for x using lt(2,5) 2(1) that by (meson le_less_trans less_imp_le)
    then have "\<forall>x\<in>set (post @ (a, i) # inord r). stop < lo x" using IH(6) 2(1) by auto
    then show ?thesis
      using IH N.prems(1) 2
      by (intro exI [of _ ctx'] exI [of _ pre] exI [of _ "post @ (a, i) # inord r"])
        (subst insert_walk.simps, simp)
  qed
qed

definition rb_inv :: "rb_tree \<Rightarrow> (nat \<times> info) list \<Rightarrow> bool" where
  "rb_inv t xs \<longleftrightarrow>
     (\<exists>T. rooted (\<lambda>_. None) (t_heap t) (t_root t) T \<and> ok_rb T \<and> iv_sorted xs \<and> inord T = xs)"

definition iv_insert :: "nat \<times> info \<Rightarrow> (nat \<times> info) list \<Rightarrow> (nat \<times> info) list" where
  "iv_insert x xs = filter (\<lambda>y. hi y < lo x) xs @ [x] @ filter (\<lambda>y. hi x < lo y) xs"

lemma rep_addr: "rep h p t \<Longrightarrow> a \<in> addrs t \<Longrightarrow> h a \<noteq> None"
  by (induction h p t rule: rep.induct) auto

lemma rooted_attach:
  assumes R: "rooted F h root (plug ctx E)" and a: "a \<notin> caddrs ctx"
  shows "rooted F (rechild (h(a \<mapsto> mk True i (par ctx) None None)) ctx (Some a))
    (if ctx = [] then Some a else root) (plug ctx (N True E a i E))"
  using rootedD [OF R] a by (intro rootedI) auto

lemma attach_eq:
  assumes R: "rooted F h root (plug ctx E)" and a: "a \<notin> caddrs ctx"
    and s: "iv_sorted (inord (plug ctx E))" "start \<le> stop"
    and pre: "\<forall>x\<in>set (cpre ctx). hi x < start" and post: "\<forall>x\<in>set (cpost ctx). stop < lo x"
    and h0_def: "h0 = h(a \<mapsto> mk True (k, start, stop, v) (par ctx) None None)"
  shows "insert_link h0 root (Some a) (par ctx) start stop
    = Some (True, rechild h0 ctx (Some a), if ctx = [] then Some a else root)"
proof (cases ctx)
  case Nil
  then show ?thesis by (simp add: rechild_def insert_link_def)
next
  case (Cons f ctx')
  show ?thesis
  proof (cases f)
    case (LF c p pi r)
    have "stop < lo (p, pi)" using post Cons LF by simp
    then show ?thesis
      using Cons LF rootedD(2) [OF R] a by (auto simp: h0_def rechild_def insert_link_def)
  next
    case (RF c l p pi)
    have "hi (p, pi) < start" "lo (p, pi) \<le> hi (p, pi)"
      using pre s(1) Cons RF by (auto simp: inord_plug iv_sorted_simps)
    then show ?thesis
      using Cons RF rootedD(2) [OF R] a s(2) by (auto simp: h0_def rechild_def insert_link_def)
  qed
qed

lemma iv_insert_mid:
  assumes "iv_sorted (pre @ post)" "lo x \<le> hi x" "\<forall>y\<in>set pre. hi y < lo x" "\<forall>y\<in>set post. hi x < lo y"
  shows "iv_insert x (pre @ post) = pre @ x # post" "iv_sorted (pre @ x # post)"
proof -
  have 1: "\<not> hi y < lo x" if "y \<in> set post" for y
    using assms(1,2,4) that by (meson iv_sorted_append iv_sorted_le less_asym' less_le_trans less_trans not_le)
  have 2: "\<not> hi x < lo y" if "y \<in> set pre" for y
    using assms(1,2,3) that by (meson iv_sorted_append iv_sorted_le leD le_less_trans less_imp_le)
  show "iv_insert x (pre @ post) = pre @ x # post"
    using assms(3,4) 1 2 by (simp add: iv_insert_def filter_True filter_False)
  show "iv_sorted (pre @ x # post)" using assms by (simp add: iv_sorted_simps)
qed

lemma rb_tree_insert_correct:
  assumes I: "rb_inv t xs" and new: "new = Some a" "t_heap t a = None"
    and se: "start \<le> stop" and free: "\<forall>x\<in>set xs. \<not> overlaps start stop x"
  shows "\<exists>t'. rb_tree_insert new t start stop v = Some (new, t') \<and>
    rb_inv t' (iv_insert (a, (t_total t, start, stop, v)) xs) \<and> t_total t' = wrap32 (t_total t + 1)"
proof -
  let ?x = "(a, (t_total t, start, stop, v))"
  obtain T where R: "rooted (\<lambda>_. None) (t_heap t) (t_root t) T" and T: "ok_rb T" "iv_sorted xs" "inord T = xs"
    using I by (auto simp: rb_inv_def)
  have rep: "rep (t_heap t) (par []) T" "t_root t = root_ptr T" using R by (simp_all add: rooted_def)
  obtain ctx where w: "insert_walk (t_heap t) (t_root t) None start stop = Some (Some (par ctx))"
      "plug ctx E = T" "\<forall>x\<in>set (cpre ctx). hi x < start" "\<forall>x\<in>set (cpost ctx). stop < lo x"
    using insert_walk_free [OF rep(1), of start stop] T se free rep(2) by auto
  have Rc: "rooted (\<lambda>_. None) (t_heap t) (t_root t) (plug ctx E)" using R w(2) by simp
  have a: "a \<notin> caddrs ctx" using rep_addr [OF rep(1), of a] new(2) w(2) addrs_plug [of ctx E] by auto
  let ?h = "(t_heap t)(a \<mapsto> mk True (snd ?x) (par ctx) None None)"
  let ?h1 = "rechild ?h ctx (Some a)" and ?r1 = "if ctx = [] then Some a else t_root t"
  have R1: "rooted (\<lambda>_. None) ?h1 ?r1 (plug ctx (N True E a (snd ?x) E))"
    using rooted_attach [OF Rc a, of "snd ?x"] by simp
  have ci: "cinv ctx (bh E)" using T(1) w(2) ok_plug [of ctx E] by simp
  have io: "inord (plug ctx (N True E a (snd ?x) E)) = iv_insert ?x xs" "iv_sorted (iv_insert ?x xs)"
    using iv_insert_mid [of "cpre ctx" "cpost ctx" ?x] T w(2-4) se by (auto simp: inord_plug)
  obtain h2 r2 T2 where fx: "insert_fixup ?h1 ?r1 (Some a) = Some (h2, r2)" "rooted (\<lambda>_. None) h2 r2 T2"
      "ok_rb T2" "inord T2 = iv_insert ?x xs"
    using insert_fixup_correct [OF R1 ci] io(1) by (auto simp: fixed_up_def)
  have v: "rb_tree_validate h2 r2 = Some ()"
    using rb_tree_validate_correct [OF fx(2)] fx(3,4) io(2) by simp
  have at: "insert_link ?h (t_root t) (Some a) (par ctx) start stop = Some (True, ?h1, ?r1)"
    using attach_eq [OF Rc a _ se w(3,4), of ?h "t_total t" v] T w(2) by simp
  have "rb_tree_insert new t start stop v
      = Some (new, \<lparr>t_heap = h2, t_total = wrap32 (t_total t + 1), t_root = r2\<rparr>)"
    unfolding rb_tree_insert_def new(1) w(1) mk.simps [symmetric] using at se fx(1) v by (simp add: Let_def)
  moreover have "rb_inv \<lparr>t_heap = h2, t_total = wrap32 (t_total t + 1), t_root = r2\<rparr> (iv_insert ?x xs)"
    using fx io(2) by (auto simp: rb_inv_def)
  ultimately show ?thesis by simp
qed

end
