(* ===== verification/Rb_Remove.thy ===== *)
theory Rb_Remove
  imports Rb_Map
begin

text \<open>
  Removal from the red-black tree of \<^verbatim>\<open>libs/rb_tree.c\<close>: the effect of each part of \<open>remove_fixup\<close> on the
  represented tree, the loop, and \<open>rb_tree_remove\<close> itself.
\<close>

section \<open>The parts of an iteration\<close>

lemma both_black_eq:
  assumes "rep h p (N c l y yi r)"
  shows "both_black h (Some y) = Some (black l \<and> black r)"
  using assms rep_is_red [of h "Some y" l] rep_is_red [of h "Some y" r]
  by (simp add: both_black_def is_black_def)

lemma remove_left_red_black:
  assumes "rooted F h root (plug ctx (N pc t p pi S))" "black S"
  shows "remove_left_red h root (Some p) = Some (h, root, root_ptr S)"
proof -
  have "rep h (Some p) S" using rootedD(1) [OF assms(1)] by simp
  from rep_is_red [OF this] show ?thesis
    using rooted_node [OF assms(1)] assms(2) by (simp add: remove_left_red_def Let_def)
qed

lemma remove_left_red_red:
  assumes R: "rooted F h root (plug ctx (N pc t p pi (N True SL y yi SR)))"
  shows "\<exists>h' root'. remove_left_red h root (Some p) = Some (h', root', root_ptr SL) \<and>
    rooted F h' root' (plug ctx (N False (N True t p pi SL) y yi SR))"
proof -
  note nodes = rooted_node [OF R] rooted_node_r [OF R]
  obtain h1 where h1: "set_black h (Some y) = Some h1" "rooted F h1 root (plug ctx (N pc t p pi (N False SL y yi SR)))"
    using rooted_black_r [OF R] by blast
  obtain h2 where h2: "set_red h1 (Some p) = Some h2" "rooted F h2 root (plug ctx (N True t p pi (N False SL y yi SR)))"
    using rooted_red [OF h1(2)] by blast
  obtain h3 r3 where h3: "rotate_left h2 root (Some p) = Some (h3, r3)" "rooted F h3 r3 (plug ctx (N False (N True t p pi SL) y yi SR))"
    using rooted_rotate_left [OF h2(2)] by blast
  have "remove_left_red h root (Some p) = Some (h3, r3, root_ptr SL)"
    using nodes h1(1) h2(1) h3(1) rooted_node_l [OF h3(2)]
    by (simp add: remove_left_red_def Let_def is_red_def)
  then show ?thesis using h3(2) by blast
qed

lemma remove_left_final:
  assumes R: "rooted F h root (plug ctx (N pc t p pi (N d SL y yi SR)))" and SR: "SR = N c a z zi b"
  shows "\<exists>h1 h2 h3 h4 r4. upd h (Some y) (set_colour pc) = Some h1 \<and> set_black h1 (Some p) = Some h2 \<and>
    node h2 (Some y) = Some (mk pc yi (Some p) (root_ptr SL) (root_ptr SR)) \<and>
    set_black h2 (root_ptr SR) = Some h3 \<and> rotate_left h3 root (Some p) = Some (h4, r4) \<and>
    rooted F h4 r4 (plug ctx (N pc (N False t p pi SL) y yi (blacken SR)))"
proof -
  obtain h1 where h1: "upd h (Some y) (set_colour pc) = Some h1" "rooted F h1 root (plug ctx (N pc t p pi (N pc SL y yi SR)))"
    using rooted_colour_r [OF R] by blast
  obtain h2 where h2: "set_black h1 (Some p) = Some h2" "rooted F h2 root (plug ctx (N False t p pi (N pc SL y yi SR)))"
    using rooted_black [OF h1(2)] by blast
  obtain h3 where h3: "set_black h2 (Some z) = Some h3" "rooted F h3 root (plug ctx (N False t p pi (N pc SL y yi (blacken SR))))"
    using rooted_black [of F h2 root "RF pc SL y yi # RF False t p pi # ctx" c a z zi b] h2(2) SR by (auto simp: rooted_def)
  obtain h4 r4 where h4: "rotate_left h3 root (Some p) = Some (h4, r4)" "rooted F h4 r4 (plug ctx (N pc (N False t p pi SL) y yi (blacken SR)))"
    using rooted_rotate_left [OF h3(2)] by blast
  show ?thesis using h1 h2 h3 h4 rooted_node_r [OF h2(2)] SR by auto
qed

lemma remove_left_rotate_far:
  assumes R: "rooted F h root (plug ctx (N pc t p pi (N d SL y yi SR)))" and SR: "\<not> black SR"
  shows "\<exists>h' r'. remove_left_rotate h root (Some p) (Some y) = Some (h', r', r') \<and>
    rooted F h' r' (plug ctx (N pc (N False t p pi SL) y yi (blacken SR)))"
proof -
  obtain c a z zi b where sr: "SR = N c a z zi b" using SR by (cases SR) auto
  obtain h1 h2 h3 h4 r4 where f: "upd h (Some y) (set_colour pc) = Some h1" "set_black h1 (Some p) = Some h2"
      "node h2 (Some y) = Some (mk pc yi (Some p) (root_ptr SL) (root_ptr SR))"
      "set_black h2 (root_ptr SR) = Some h3" "rotate_left h3 root (Some p) = Some (h4, r4)"
      "rooted F h4 r4 (plug ctx (N pc (N False t p pi SL) y yi (blacken SR)))"
    using remove_left_final [OF R sr] by blast
  have "rep h (Some y) SL" "rep h (Some y) SR" using rootedD(1) [OF R] by simp_all
  note red = this [THEN rep_is_red]
  have "remove_left_rotate h root (Some p) (Some y) = Some (h4, r4, r4)"
    using rooted_node [OF R] rooted_node_r [OF R] red SR f(1-5)
    by (simp add: remove_left_rotate_def is_black_def)
  then show ?thesis using f(6) by blast
qed

lemma remove_left_rotate_near:
  assumes R: "rooted F h root (plug ctx (N pc t p pi (N False (N True a z zi b) y yi SR)))" and SR: "black SR"
  shows "\<exists>h' r'. remove_left_rotate h root (Some p) (Some y) = Some (h', r', r') \<and>
    rooted F h' r' (plug ctx (N pc (N False t p pi a) z zi (N False b y yi SR)))"
proof -
  obtain h1 where h1: "set_red h (Some y) = Some h1" "rooted F h1 root (plug ctx (N pc t p pi (N True (N True a z zi b) y yi SR)))"
    using rooted_red_r [OF R] by blast
  obtain h2 where h2: "set_black h1 (Some z) = Some h2" "rooted F h2 root (plug ctx (N pc t p pi (N True (N False a z zi b) y yi SR)))"
    using rooted_black [of F h1 root "LF True y yi SR # RF pc t p pi # ctx" True a z zi b] h1(2) by (auto simp: rooted_def)
  obtain h3 r3 where h3: "rotate_right h2 root (Some y) = Some (h3, r3)" "rooted F h3 r3 (plug ctx (N pc t p pi (N False a z zi (N True b y yi SR))))"
    using rooted_rotate_right_r [OF h2(2)] by blast
  obtain h4 h5 h6 h7 r7 where f: "upd h3 (Some z) (set_colour pc) = Some h4" "set_black h4 (Some p) = Some h5"
      "node h5 (Some z) = Some (mk pc zi (Some p) (root_ptr a) (Some y))"
      "set_black h5 (Some y) = Some h6" "rotate_left h6 r3 (Some p) = Some (h7, r7)"
      "rooted F h7 r7 (plug ctx (N pc (N False t p pi a) z zi (N False b y yi SR)))"
    using remove_left_final [OF h3(2) refl] by auto
  have "rep h (Some y) SR" using rootedD(1) [OF R] by simp
  note red = rep_is_red [OF this]
  have "h z = Some (mk True zi (Some y) (root_ptr a) (root_ptr b))" using rootedD(1) [OF R] by simp
  then have "is_red h (Some z) = Some True" by (simp add: is_red_def)
  then have "remove_left_rotate h root (Some p) (Some y) = Some (h7, r7, r7)"
    using rooted_node_r [OF R] rooted_node_r [OF h1(2)] rooted_node [OF h3(2)]
      red SR h1(1) h2(1) h3(1) f(1-5)
    by (simp add: remove_left_rotate_def is_black_def)
  then show ?thesis using f(6) by blast
qed

lemma remove_right_red_black:
  assumes "rooted F h root (plug ctx (N pc S p pi t))" "black S"
  shows "remove_right_red h root (Some p) = Some (h, root, root_ptr S)"
proof -
  have "rep h (Some p) S" using rootedD(1) [OF assms(1)] by simp
  from rep_is_red [OF this] show ?thesis
    using rooted_node [OF assms(1)] assms(2) by (simp add: remove_right_red_def Let_def)
qed

lemma remove_right_red_red:
  assumes R: "rooted F h root (plug ctx (N pc (N True SR y yi SL) p pi t))"
  shows "\<exists>h' root'. remove_right_red h root (Some p) = Some (h', root', root_ptr SL) \<and>
    rooted F h' root' (plug ctx (N False SR y yi (N True SL p pi t)))"
proof -
  note nodes = rooted_node [OF R] rooted_node_l [OF R]
  obtain h1 where h1: "set_black h (Some y) = Some h1" "rooted F h1 root (plug ctx (N pc (N False SR y yi SL) p pi t))"
    using rooted_black_l [OF R] by blast
  obtain h2 where h2: "set_red h1 (Some p) = Some h2" "rooted F h2 root (plug ctx (N True (N False SR y yi SL) p pi t))"
    using rooted_red [OF h1(2)] by blast
  obtain h3 r3 where h3: "rotate_right h2 root (Some p) = Some (h3, r3)" "rooted F h3 r3 (plug ctx (N False SR y yi (N True SL p pi t)))"
    using rooted_rotate_right [OF h2(2)] by blast
  have "remove_right_red h root (Some p) = Some (h3, r3, root_ptr SL)"
    using nodes h1(1) h2(1) h3(1) rooted_node_r [OF h3(2)]
    by (simp add: remove_right_red_def Let_def is_red_def)
  then show ?thesis using h3(2) by blast
qed

lemma remove_right_final:
  assumes R: "rooted F h root (plug ctx (N pc (N d SR y yi SL) p pi t))" and SR: "SR = N c a z zi b"
  shows "\<exists>h1 h2 h3 h4 r4. upd h (Some y) (set_colour pc) = Some h1 \<and> set_black h1 (Some p) = Some h2 \<and>
    node h2 (Some y) = Some (mk pc yi (Some p) (root_ptr SR) (root_ptr SL)) \<and>
    set_black h2 (root_ptr SR) = Some h3 \<and> rotate_right h3 root (Some p) = Some (h4, r4) \<and>
    rooted F h4 r4 (plug ctx (N pc (blacken SR) y yi (N False SL p pi t)))"
proof -
  obtain h1 where h1: "upd h (Some y) (set_colour pc) = Some h1" "rooted F h1 root (plug ctx (N pc (N pc SR y yi SL) p pi t))"
    using rooted_colour_l [OF R] by blast
  obtain h2 where h2: "set_black h1 (Some p) = Some h2" "rooted F h2 root (plug ctx (N False (N pc SR y yi SL) p pi t))"
    using rooted_black [OF h1(2)] by blast
  obtain h3 where h3: "set_black h2 (Some z) = Some h3" "rooted F h3 root (plug ctx (N False (N pc (blacken SR) y yi SL) p pi t))"
    using rooted_black [of F h2 root "LF pc y yi SL # LF False p pi t # ctx" c a z zi b] h2(2) SR by (auto simp: rooted_def)
  obtain h4 r4 where h4: "rotate_right h3 root (Some p) = Some (h4, r4)" "rooted F h4 r4 (plug ctx (N pc (blacken SR) y yi (N False SL p pi t)))"
    using rooted_rotate_right [OF h3(2)] by blast
  show ?thesis using h1 h2 h3 h4 rooted_node_l [OF h2(2)] SR by auto
qed

lemma remove_right_rotate_far:
  assumes R: "rooted F h root (plug ctx (N pc (N d SR y yi SL) p pi t))" and SR: "\<not> black SR"
  shows "\<exists>h' r'. remove_right_rotate h root (Some p) (Some y) = Some (h', r', r') \<and>
    rooted F h' r' (plug ctx (N pc (blacken SR) y yi (N False SL p pi t)))"
proof -
  obtain c a z zi b where sr: "SR = N c a z zi b" using SR by (cases SR) auto
  obtain h1 h2 h3 h4 r4 where f: "upd h (Some y) (set_colour pc) = Some h1" "set_black h1 (Some p) = Some h2"
      "node h2 (Some y) = Some (mk pc yi (Some p) (root_ptr SR) (root_ptr SL))"
      "set_black h2 (root_ptr SR) = Some h3" "rotate_right h3 root (Some p) = Some (h4, r4)"
      "rooted F h4 r4 (plug ctx (N pc (blacken SR) y yi (N False SL p pi t)))"
    using remove_right_final [OF R sr] by blast
  have "rep h (Some y) SL" "rep h (Some y) SR" using rootedD(1) [OF R] by simp_all
  note red = this [THEN rep_is_red]
  have "remove_right_rotate h root (Some p) (Some y) = Some (h4, r4, r4)"
    using rooted_node [OF R] rooted_node_l [OF R] red SR f(1-5)
    by (simp add: remove_right_rotate_def is_black_def)
  then show ?thesis using f(6) by blast
qed

lemma remove_right_rotate_near:
  assumes R: "rooted F h root (plug ctx (N pc (N False SR y yi (N True b z zi a)) p pi t))" and SR: "black SR"
  shows "\<exists>h' r'. remove_right_rotate h root (Some p) (Some y) = Some (h', r', r') \<and>
    rooted F h' r' (plug ctx (N pc (N False SR y yi b) z zi (N False a p pi t)))"
proof -
  obtain h1 where h1: "set_red h (Some y) = Some h1" "rooted F h1 root (plug ctx (N pc (N True SR y yi (N True b z zi a)) p pi t))"
    using rooted_red_l [OF R] by blast
  obtain h2 where h2: "set_black h1 (Some z) = Some h2" "rooted F h2 root (plug ctx (N pc (N True SR y yi (N False b z zi a)) p pi t))"
    using rooted_black [of F h1 root "RF True SR y yi # LF pc p pi t # ctx" True b z zi a] h1(2) by (auto simp: rooted_def)
  obtain h3 r3 where h3: "rotate_left h2 root (Some y) = Some (h3, r3)" "rooted F h3 r3 (plug ctx (N pc (N False (N True SR y yi b) z zi a) p pi t))"
    using rooted_rotate_left_l [OF h2(2)] by blast
  obtain h4 h5 h6 h7 r7 where f: "upd h3 (Some z) (set_colour pc) = Some h4" "set_black h4 (Some p) = Some h5"
      "node h5 (Some z) = Some (mk pc zi (Some p) (Some y) (root_ptr a))"
      "set_black h5 (Some y) = Some h6" "rotate_right h6 r3 (Some p) = Some (h7, r7)"
      "rooted F h7 r7 (plug ctx (N pc (N False SR y yi b) z zi (N False a p pi t)))"
    using remove_right_final [OF h3(2) refl] by auto
  have "rep h (Some y) SR" using rootedD(1) [OF R] by simp
  note red = rep_is_red [OF this]
  have "h z = Some (mk True zi (Some y) (root_ptr b) (root_ptr a))" using rootedD(1) [OF R] by simp
  then have "is_red h (Some z) = Some True" by (simp add: is_red_def)
  then have "remove_right_rotate h root (Some p) (Some y) = Some (h7, r7, r7)"
    using rooted_node_l [OF R] rooted_node_l [OF h1(2)] rooted_node [OF h3(2)]
      red SR h1(1) h2(1) h3(1) f(1-5)
    by (simp add: remove_right_rotate_def is_black_def)
  then show ?thesis using f(6) by blast
qed

section \<open>An iteration\<close>

text \<open>
  An iteration either finishes with \<open>nodex\<close> set to the root, or goes on with \<open>nodex\<close> set to the parent \<open>p\<close>.
  The tree at \<open>p\<close> is then short by one black node; it is a proper red-black tree once its root is black.
\<close>

definition rem_done :: "heap \<Rightarrow> (nat \<times> info) list \<Rightarrow> nat \<Rightarrow> bool \<Rightarrow> nat \<Rightarrow> (heap \<times> ptr \<times> ptr) option \<Rightarrow> bool" where
  "rem_done F xs p c n r \<longleftrightarrow>
     (\<exists>h' r' T. r = Some (h', r', r') \<and> rooted F h' r' T \<and> ok_rb T \<and> T \<noteq> E \<and> inord T = xs) \<or>
     (\<exists>h' r' ctx L i R. r = Some (h', r', Some p) \<and> rooted F h' r' (plug ctx (N c L p i R)) \<and>
        inv_rb (N False L p i R) \<and> cinv ctx (bh (N c L p i R) + 1) \<and>
        inord (plug ctx (N c L p i R)) = xs \<and> length ctx \<le> n)"

lemma rem_climbsI:
  assumes "r = Some (h', r', Some p)" "rooted F h' r' (plug ctx (N c L p i R))"
    "inv_rb (N False L p i R)" "cinv ctx (bh (N c L p i R) + 1)"
    "inord (plug ctx (N c L p i R)) = xs" "length ctx \<le> n"
  shows "rem_done F xs p c n r"
  using assms unfolding rem_done_def by blast

lemma rem_haltsI:
  assumes "r = Some (h', r', r')" "rooted F h' r' T" "ok_rb T" "T \<noteq> E" "inord T = xs"
  shows "rem_done F xs p c n r"
  using assms unfolding rem_done_def by blast

lemma rem_done_mono: "rem_done F xs p c n r \<Longrightarrow> n \<le> m \<Longrightarrow> rem_done F xs p c m r"
  unfolding rem_done_def by (elim disjE) (blast, blast intro: le_trans)

lemma plug_not_E [simp]: "plug ctx (N c l a i r) \<noteq> E"
  using root_plug [of ctx "N c l a i r"] root_ptr_None [of "plug ctx (N c l a i r)"]
  by (cases "ctx = []") auto

lemma remove_left_tail:
  assumes R: "rooted F h root (plug ctx (N pc t p pi (N False SL y yi SR)))" and t: "inv_rb t" "black t"
    and ci: "cinv (LF pc p pi (N False SL y yi SR) # ctx) (bh t + 1)"
  shows "rem_done F (inord (plug ctx (N pc t p pi (N False SL y yi SR)))) p pc (length ctx)
    (do {
       both \<leftarrow> both_black h (Some y);
       if both then do { h \<leftarrow> set_red h (Some y); Some (h, root, Some p) }
       else remove_left_rotate h root (Some p) (Some y)
     })"
proof -
  have bb: "both_black h (Some y) = Some (black SL \<and> black SR)"
    using rootedD(1) [OF R] both_black_eq [of h "Some p" False SL y yi SR] by simp
  have io: "inord (plug ctx (N pc t p pi (N True SL y yi SR))) = inord (plug ctx (N pc t p pi (N False SL y yi SR)))" by (simp add: inord_plug)
  consider (both) "black SL" "black SR" | (far) "\<not> black SR" | (near) "\<not> black SL" "black SR" by blast
  then show ?thesis
  proof cases
    case both
    obtain h1 where h1: "set_red h (Some y) = Some h1" "rooted F h1 root (plug ctx (N pc t p pi (N True SL y yi SR)))"
      using rooted_red_r [OF R] by blast
    then show ?thesis
      using bb both ci t io
      by (intro rem_climbsI [OF _ h1(2)]) auto
  next
    case far
    obtain h1 r1 where h1: "remove_left_rotate h root (Some p) (Some y) = Some (h1, r1, r1)"
        "rooted F h1 r1 (plug ctx (N pc (N False t p pi SL) y yi (blacken SR)))"
      using remove_left_rotate_far [OF R far] by blast
    show ?thesis
    proof (rule rem_haltsI [OF _ h1(2)])
      show "ok_rb (plug ctx (N pc (N False t p pi SL) y yi (blacken SR)))" using ci t far by (cases SR) (auto simp: ok_plug)
    qed (use bb far h1(1) in \<open>auto simp: inord_plug\<close>)
  next
    case near
    obtain a z zi b where SL: "SL = N True a z zi b" using near(1) by (cases SL) auto
    obtain h1 r1 where h1: "remove_left_rotate h root (Some p) (Some y) = Some (h1, r1, r1)"
        "rooted F h1 r1 (plug ctx (N pc (N False t p pi a) z zi (N False b y yi SR)))"
      using remove_left_rotate_near [of F h root ctx pc t p pi a z zi b y yi SR] R near SL by auto
    show ?thesis
    proof (rule rem_haltsI [OF _ h1(2)])
      show "ok_rb (plug ctx (N pc (N False t p pi a) z zi (N False b y yi SR)))" using ci t near SL by (auto simp: ok_plug)
    qed (use bb near h1(1) SL in \<open>auto simp: inord_plug\<close>)
  qed
qed

lemma remove_left_case_correct:
  assumes R: "rooted F h root (plug ctx (N pc t p pi S))" and t: "inv_rb t" "black t"
    and ci: "cinv (LF pc p pi S # ctx) (bh t + 1)"
  shows "\<exists>c. rem_done F (inord (plug ctx (N pc t p pi S))) p c
    (if c then length ctx + 1 else length ctx) (remove_left_case h root (Some p))"
proof (cases "black S")
  case True
  have "bh S = bh t + 1" using ci by simp
  then obtain SL y yi SR where S: "S = N False SL y yi SR" using True by (cases S) auto
  have "remove_left_red h root (Some p) = Some (h, root, Some y)"
    using remove_left_red_black [OF R True] S by simp
  moreover have "rem_done F (inord (plug ctx (N pc t p pi S))) p pc (length ctx)
    (do {
       both \<leftarrow> both_black h (Some y);
       if both then do { h \<leftarrow> set_red h (Some y); Some (h, root, Some p) }
       else remove_left_rotate h root (Some p) (Some y)
     })"
    unfolding S by (rule remove_left_tail [OF R [unfolded S] t ci [unfolded S]])
  ultimately show ?thesis
    by (intro exI [of _ pc]) (auto simp: remove_left_case_def intro: rem_done_mono)
next
  case False
  then obtain SL y yi SR where S: "S = N True SL y yi SR" by (cases S) auto
  obtain h1 r1 where h1: "remove_left_red h root (Some p) = Some (h1, r1, root_ptr SL)"
      "rooted F h1 r1 (plug (LF False y yi SR # ctx) (N True t p pi SL))"
    using remove_left_red_red [OF R [unfolded S]] by auto
  have b: "bh SL = bh t + 1" "black SL" "inv_rb SL" "bh SR = bh t + 1" "inv_rb SR" "\<not> pc" "cinv ctx (bh t + 2)"
    using ci S by auto
  then obtain A a ai B where SL: "SL = N False A a ai B" by (cases SL) auto
  have ci1: "cinv (LF True p pi SL # LF False y yi SR # ctx) (bh t + 1)" using b by simp
  have io: "inord (plug (LF False y yi SR # ctx) (N True t p pi SL)) = inord (plug ctx (N pc t p pi S))"
    using S by (simp add: inord_plug)
  have "rem_done F (inord (plug (LF False y yi SR # ctx) (N True t p pi SL))) p True (length (LF False y yi SR # ctx))
    (do {
       both \<leftarrow> both_black h1 (Some a);
       if both then do { h \<leftarrow> set_red h1 (Some a); Some (h, r1, Some p) }
       else remove_left_rotate h1 r1 (Some p) (Some a)
     })"
    unfolding SL by (rule remove_left_tail [OF h1(2) [unfolded SL] t ci1 [unfolded SL]])
  then show ?thesis
    using h1(1) io SL by (intro exI [of _ True]) (simp add: remove_left_case_def)
qed

lemma remove_right_tail:
  assumes R: "rooted F h root (plug ctx (N pc (N False SR y yi SL) p pi t))" and t: "inv_rb t" "black t"
    and ci: "cinv (RF pc (N False SR y yi SL) p pi # ctx) (bh t + 1)"
  shows "rem_done F (inord (plug ctx (N pc (N False SR y yi SL) p pi t))) p pc (length ctx)
    (do {
       both \<leftarrow> both_black h (Some y);
       if both then do { h \<leftarrow> set_red h (Some y); Some (h, root, Some p) }
       else remove_right_rotate h root (Some p) (Some y)
     })"
proof -
  have bb: "both_black h (Some y) = Some (black SL \<and> black SR)"
    using rootedD(1) [OF R] both_black_eq [of h "Some p" False SR y yi SL] by (simp add: conj_commute)
  have io: "inord (plug ctx (N pc (N True SR y yi SL) p pi t)) = inord (plug ctx (N pc (N False SR y yi SL) p pi t))" by (simp add: inord_plug)
  consider (both) "black SL" "black SR" | (far) "\<not> black SR" | (near) "\<not> black SL" "black SR" by blast
  then show ?thesis
  proof cases
    case both
    obtain h1 where h1: "set_red h (Some y) = Some h1" "rooted F h1 root (plug ctx (N pc (N True SR y yi SL) p pi t))"
      using rooted_red_l [OF R] by blast
    then show ?thesis
      using bb both ci t io
      by (intro rem_climbsI [OF _ h1(2)]) auto
  next
    case far
    obtain h1 r1 where h1: "remove_right_rotate h root (Some p) (Some y) = Some (h1, r1, r1)"
        "rooted F h1 r1 (plug ctx (N pc (blacken SR) y yi (N False SL p pi t)))"
      using remove_right_rotate_far [OF R far] by blast
    show ?thesis
    proof (rule rem_haltsI [OF _ h1(2)])
      show "ok_rb (plug ctx (N pc (blacken SR) y yi (N False SL p pi t)))" using ci t far by (cases SR) (auto simp: ok_plug)
    qed (use bb far h1(1) in \<open>auto simp: inord_plug\<close>)
  next
    case near
    obtain a z zi b where SL: "SL = N True a z zi b" using near(1) by (cases SL) auto
    obtain h1 r1 where h1: "remove_right_rotate h root (Some p) (Some y) = Some (h1, r1, r1)"
        "rooted F h1 r1 (plug ctx (N pc (N False SR y yi a) z zi (N False b p pi t)))"
      using remove_right_rotate_near [of F h root ctx pc SR y yi a z zi b p pi t] R near SL by auto
    show ?thesis
    proof (rule rem_haltsI [OF _ h1(2)])
      show "ok_rb (plug ctx (N pc (N False SR y yi a) z zi (N False b p pi t)))" using ci t near SL by (auto simp: ok_plug)
    qed (use bb near h1(1) SL in \<open>auto simp: inord_plug\<close>)
  qed
qed

lemma remove_right_case_correct:
  assumes R: "rooted F h root (plug ctx (N pc S p pi t))" and t: "inv_rb t" "black t"
    and ci: "cinv (RF pc S p pi # ctx) (bh t + 1)"
  shows "\<exists>c. rem_done F (inord (plug ctx (N pc S p pi t))) p c
    (if c then length ctx + 1 else length ctx) (remove_right_case h root (Some p))"
proof (cases "black S")
  case True
  have "bh S = bh t + 1" using ci by simp
  then obtain SL y yi SR where S: "S = N False SR y yi SL" using True by (cases S) auto
  have "remove_right_red h root (Some p) = Some (h, root, Some y)"
    using remove_right_red_black [OF R True] S by simp
  moreover have "rem_done F (inord (plug ctx (N pc S p pi t))) p pc (length ctx)
    (do {
       both \<leftarrow> both_black h (Some y);
       if both then do { h \<leftarrow> set_red h (Some y); Some (h, root, Some p) }
       else remove_right_rotate h root (Some p) (Some y)
     })"
    unfolding S by (rule remove_right_tail [OF R [unfolded S] t ci [unfolded S]])
  ultimately show ?thesis
    by (intro exI [of _ pc]) (auto simp: remove_right_case_def intro: rem_done_mono)
next
  case False
  then obtain SL y yi SR where S: "S = N True SR y yi SL" by (cases S) auto
  obtain h1 r1 where h1: "remove_right_red h root (Some p) = Some (h1, r1, root_ptr SL)"
      "rooted F h1 r1 (plug (RF False SR y yi # ctx) (N True SL p pi t))"
    using remove_right_red_red [OF R [unfolded S]] by auto
  have b: "bh SL = bh t + 1" "black SL" "inv_rb SL" "bh SR = bh t + 1" "inv_rb SR" "\<not> pc" "cinv ctx (bh t + 2)"
    using ci S by auto
  then obtain A a ai B where SL: "SL = N False A a ai B" by (cases SL) auto
  have ci1: "cinv (RF True SL p pi # RF False SR y yi # ctx) (bh t + 1)" using b by simp
  have io: "inord (plug (RF False SR y yi # ctx) (N True SL p pi t)) = inord (plug ctx (N pc S p pi t))"
    using S by (simp add: inord_plug)
  have "rem_done F (inord (plug (RF False SR y yi # ctx) (N True SL p pi t))) p True (length (RF False SR y yi # ctx))
    (do {
       both \<leftarrow> both_black h1 (Some a);
       if both then do { h \<leftarrow> set_red h1 (Some a); Some (h, r1, Some p) }
       else remove_right_rotate h1 r1 (Some p) (Some a)
     })"
    unfolding SL by (rule remove_right_tail [OF h1(2) [unfolded SL] t ci1 [unfolded SL]])
  then show ?thesis
    using h1(1) io SL by (intro exI [of _ True]) (simp add: remove_right_case_def)
qed

section \<open>The loop\<close>

lemma remove_fixup_root:
  assumes "rooted F h root T" "inv_rb (blacken T)"
  shows "fixed_up F (inord T) (remove_fixup h root q root)"
proof -
  obtain h' where "set_black h root = Some h'" "rooted F h' root (blacken T)"
    using rooted_black_root [OF assms(1)] by blast
  moreover have "ok_rb (blacken T)" using assms(2) by (simp add: ok_rb_def)
  ultimately show ?thesis
    by (subst remove_fixup.simps) (auto simp: fixed_up_def intro!: exI [of _ "blacken T"])
qed

lemma remove_fixup_red:
  assumes R: "rooted F h root (plug ctx (N True L x i Q))" and t: "inv_rb (N False L x i Q)"
    and ci: "cinv ctx (bh L + 1)"
  shows "fixed_up F (inord (plug ctx (N True L x i Q))) (remove_fixup h root p (Some x))"
proof -
  obtain h' where h': "set_black h (Some x) = Some h'" "rooted F h' root (plug ctx (N False L x i Q))"
    using rooted_black [OF R] by blast
  have b: "is_black h (Some x) = Some False" using rooted_node [OF R] by (simp add: is_black_def is_red_def)
  have "ok_rb (plug ctx (N False L x i Q))" using t ci by (simp add: ok_plug)
  then show ?thesis
    using h' b by (subst remove_fixup.simps)
      (auto simp: fixed_up_def inord_plug intro!: exI [of _ "plug ctx (N False L x i Q)"])
qed

lemma rooted_parent:
  assumes "rooted F h root (plug ctx (N c L p i Q))"
  shows "parent_of h (Some p) = Some (par ctx)"
  using rooted_node [OF assms] by simp

lemma remove_fixup_step:
  assumes R: "rooted F h root (plug (f # ctx) t)" and t: "inv_rb t" "black t"
    and ci: "cinv (f # ctx) (bh t + 1)"
  shows "\<exists>c r. rem_done F (inord (plug (f # ctx) t)) (faddr f) c (if c then length ctx + 1 else length ctx) r \<and>
    remove_fixup h root (Some (faddr f)) (root_ptr t) =
      do { (h, root, nodex) \<leftarrow> r; parent \<leftarrow> parent_of h nodex; remove_fixup h root parent nodex }"
proof -
  have b: "is_black h (root_ptr t) = Some True"
    using rep_is_red [OF rootedD(1) [OF R]] t(2) by (simp add: is_black_def)
  have n: "root_ptr t \<noteq> root"
  proof (cases t)
    case E
    then show ?thesis using rootedD(7) [OF R] by simp
  next
    case (N c l a i r)
    then show ?thesis using rooted_root_iff [OF R, of a] by auto
  qed
  show ?thesis
  proof (cases f)
    case (LF pc p pi S)
    have R': "rooted F h root (plug ctx (N pc t p pi S))" using R LF by simp
    obtain c where "rem_done F (inord (plug (f # ctx) t)) p c (if c then length ctx + 1 else length ctx)
        (remove_left_case h root (Some p))"
      using remove_left_case_correct [OF R' t] ci LF by auto
    moreover have "remove_fixup h root (Some p) (root_ptr t) = do { (h, root, nodex) \<leftarrow> remove_left_case h root (Some p);
        parent \<leftarrow> parent_of h nodex; remove_fixup h root parent nodex }"
      using b n rooted_node [OF R'] by (subst remove_fixup.simps) simp
    ultimately show ?thesis
      using LF by (intro exI [of _ c] exI [of _ "remove_left_case h root (Some p)"]) simp
  next
    case (RF pc S p pi)
    have R': "rooted F h root (plug ctx (N pc S p pi t))" using R RF by simp
    have "S \<noteq> E" using ci RF by auto
    then have ns: "root_ptr t \<noteq> root_ptr S"
      using rooted_child_facts(3) [OF R'] by (cases S) auto
    obtain c where "rem_done F (inord (plug (f # ctx) t)) p c (if c then length ctx + 1 else length ctx)
        (remove_right_case h root (Some p))"
      using remove_right_case_correct [OF R' t] ci RF by auto
    moreover have "remove_fixup h root (Some p) (root_ptr t) = do { (h, root, nodex) \<leftarrow> remove_right_case h root (Some p);
        parent \<leftarrow> parent_of h nodex; remove_fixup h root parent nodex }"
      using b n ns rooted_node [OF R'] by (subst remove_fixup.simps) simp
    ultimately show ?thesis
      using RF by (intro exI [of _ c] exI [of _ "remove_right_case h root (Some p)"]) simp
  qed
qed

lemma remove_fixup_correct:
  "rooted F h root (plug ctx t) \<Longrightarrow> inv_rb (blacken t) \<Longrightarrow> cinv ctx (bh t + 1) \<Longrightarrow>
   fixed_up F (inord (plug ctx t)) (remove_fixup h root (par ctx) (root_ptr t))"
proof (induction "2 * length ctx + (if black t then 1 else 0)" arbitrary: h root ctx t rule: less_induct)
  case less
  note R = less.prems(1) and it = less.prems(2) and ci = less.prems(3)
  consider "ctx = []" | "\<not> black t" | f ctx' where "ctx = f # ctx'" "black t" by (cases ctx) auto
  then show ?case
  proof cases
    case 1
    then have "root = root_ptr t" using rootedD(7) [OF R] by simp
    then show ?thesis using remove_fixup_root [of F h root t] R it 1 by simp
  next
    case 2
    then obtain L x i Q where "t = N True L x i Q" by (cases t) auto
    then show ?thesis using remove_fixup_red [of F h root ctx L x i Q] R it ci by simp
  next
    case 3
    have "inv_rb t" using it 3(2) by (cases t) auto
    then obtain c r where r: "rem_done F (inord (plug ctx t)) (faddr f) c (if c then length ctx' + 1 else length ctx') r"
        "remove_fixup h root (par ctx) (root_ptr t) =
          do { (h, root, nodex) \<leftarrow> r; parent \<leftarrow> parent_of h nodex; remove_fixup h root parent nodex }"
      using remove_fixup_step [of F h root f ctx' t] R ci 3 by auto
    from r(1) show ?thesis
      unfolding rem_done_def
    proof (elim disjE exE conjE)
      fix h' r' T assume T: "r = Some (h', r', r')" "rooted F h' r' T" "ok_rb T" "T \<noteq> E" "inord T = inord (plug ctx t)"
      obtain d l a i q where d: "T = N d l a i q" using T(4) by (cases T) auto
      have "r' = Some a" using T(2) d by (simp add: rooted_def)
      moreover have "parent_of h' (Some a) = Some None" using rooted_parent [of F h' r' "[]"] T(2) d by simp
      ultimately show ?thesis using r(2) T(1,5) remove_fixup_root [OF T(2)] T(3) by (simp add: ok_rb_def)
    next
      fix h' r' ctx1 L i Q
      let ?t = "N c L (faddr f) i Q"
      assume T: "r = Some (h', r', Some (faddr f))" "rooted F h' r' (plug ctx1 ?t)" "inv_rb (N False L (faddr f) i Q)"
        "cinv ctx1 (bh ?t + 1)" "inord (plug ctx1 ?t) = inord (plug ctx t)"
        "length ctx1 \<le> (if c then length ctx' + 1 else length ctx')"
      have "2 * length ctx1 + (if black ?t then 1 else 0) < 2 * length ctx + (if black t then 1 else 0)"
        using T(6) 3 by (auto split: if_splits)
      from less.hyps [OF this T(2)] T(3,4)
      have "fixed_up F (inord (plug ctx1 ?t)) (remove_fixup h' r' (par ctx1) (Some (faddr f)))" by simp
      then show ?thesis using r(2) T(1,5) rooted_parent [OF T(2)] by simp
    qed
  qed
qed

section \<open>Taking a node out\<close>

lemma rooted_splice:
  assumes R: "rooted F h root (plug ctx (N c A y yi B))" and e: "A = E \<or> B = E"
    and X: "X = (if A \<noteq> E then A else B)"
  shows "\<exists>h1 h2 r2. upd_if h (root_ptr X) (set_parent (par ctx)) = Some h1 \<and>
    replace_child h1 root (par ctx) (Some y) (root_ptr X) = Some (h2, r2) \<and>
    rooted (F(y := h y)) h2 r2 (plug ctx X) \<and> h2 y = h y"
proof -
  note r = rootedD [OF R]
  have x: "rep h (Some y) X" "dist X" "y \<notin> addrs X" "addrs X \<inter> caddrs ctx = {}" "y \<notin> caddrs ctx"
    "addrs (N c A y yi B) = insert y (addrs X)"
    using r(1,3,5) e X by auto
  let ?h1 = "reparent h X (par ctx)"
  let ?h2 = "rechild ?h1 ctx (root_ptr X)"
  let ?r = "if ctx = [] then root_ptr X else root"
  have 1: "upd_if h (root_ptr X) (set_parent (par ctx)) = Some ?h1" by (rule reparent_upd [OF x(1)])
  have 2: "replace_child ?h1 root (par ctx) (Some y) (root_ptr X) = Some (?h2, ?r)"
    using r(2,4) x by (intro replace_child_eq) simp_all
  have 3: "rooted (F(y := h y)) ?h2 ?r (plug ctx X)"
    using r x by (intro rootedI) auto
  show ?thesis using 1 2 3 x by (intro exI [of _ ?h1] exI [of _ ?h2] exI [of _ ?r]) simp
qed

lemma rooted_transplant:
  assumes R: "rooted F h root (plug ctx (N c l z i r))" and y: "y \<notin> addrs (plug ctx (N c l z i r))"
    and Fy: "F y = Some (mk cy yi py ly ry)"
  shows "\<exists>h' r'. remove_transplant h root (Some z) (Some y) = Some (h', r') \<and>
    rooted (F(z := h z)) h' r' (plug ctx (N c l y yi r))"
proof -
  note rr = rootedD [OF R]
  have yn: "y \<noteq> z" "y \<notin> addrs l" "y \<notin> addrs r" "y \<notin> caddrs ctx" "z \<notin> addrs l" "z \<notin> addrs r" "z \<notin> caddrs ctx"
    "addrs l \<inter> caddrs ctx = {}" "addrs r \<inter> caddrs ctx = {}" "addrs l \<inter> addrs r = {}" "addrs r \<inter> addrs l = {}"
    using y rr(3,5) by auto
  have hy: "h y = Some (mk cy yi py ly ry)" using rr(6) y Fy by simp
  have hz: "h z = Some (mk c i (par ctx) (root_ptr l) (root_ptr r))" by (rule rooted_node [OF R])
  have rep: "rep h (Some z) l" "rep h (Some z) r" "crep h (Some z) ctx" using rr(1,2) by simp_all
  let ?h1 = "h(y \<mapsto> mk cy yi (par ctx) ly ry)"
  let ?h2 = "rechild ?h1 ctx (Some y)" and ?r = "if ctx = [] then Some y else root"
  let ?h3 = "?h2(y \<mapsto> mk c yi (par ctx) (root_ptr l) (root_ptr r))"
  let ?h4 = "reparent ?h3 l (Some y)"
  let ?h5 = "reparent ?h4 r (Some y)"
  have 2: "replace_child ?h1 root (par ctx) (Some z) (Some y) = Some (?h2, ?r)"
    using rep yn rr(4) by (intro replace_child_eq) simp_all
  have 4: "upd_if ?h3 (root_ptr l) (set_parent (Some y)) = Some ?h4"
    using rep yn by (intro reparent_upd [of _ "Some z"]) simp
  have 5: "upd_if ?h4 (root_ptr r) (set_parent (Some y)) = Some ?h5"
    using rep yn by (intro reparent_upd [of _ "Some z"]) simp
  have "remove_transplant h root (Some z) (Some y) = Some (?h5, ?r)"
    using hy hz yn 2 4 5 by (simp add: remove_transplant_def)
  moreover have "rooted (F(z := h z)) ?h5 ?r (plug ctx (N c l y yi r))"
    using rep rr(3,4,6,7) yn hy by (intro rootedI) (auto simp: Int_commute)
  ultimately show ?thesis by blast
qed

lemma inord_split:
  "(a, i) \<in> set (inord T) \<Longrightarrow> \<exists>ctx' c l r. plug ctx T = plug ctx' (N c l a i r)"
proof (induction T arbitrary: ctx)
  case (N c l b j r)
  consider "(a, i) = (b, j)" | "(a, i) \<in> set (inord l)" | "(a, i) \<in> set (inord r)" using N.prems by auto
  then show ?case
  proof cases
    case 1
    then show ?thesis by blast
  next
    case 2
    then show ?thesis using N.IH(1) [of "LF c b j r # ctx"] by simp
  next
    case 3
    then show ?thesis using N.IH(2) [of "RF c l b j # ctx"] by simp
  qed
qed simp

lemma leftmost_correct:
  "rep h p (N c l a i r) \<Longrightarrow> \<exists>mctx cy y yi X. N c l a i r = plug mctx (N cy E y yi X) \<and>
     leftmost h (Some a) = Some (Some y) \<and> cpre mctx = []"
proof (induction l arbitrary: p c a i r)
  case E
  then show ?case
    by (intro exI [of _ "[]"] exI [of _ c] exI [of _ a] exI [of _ i] exI [of _ r])
      (subst leftmost.simps, simp)
next
  case (N c' l' a' i' r')
  obtain mctx cy y yi X where IH: "N c' l' a' i' r' = plug mctx (N cy E y yi X)"
      "leftmost h (Some a') = Some (Some y)" "cpre mctx = []"
    using N.IH(1) [of "Some a" c' a' i' r'] N.prems by auto
  have app: "plug (m @ k) t = plug k (plug m t)" "cpre (m @ k) = cpre k @ cpre m" for m k t
    by (induction m arbitrary: t rule: cpre.induct) auto
  show ?case
    using IH(1) [symmetric] IH(2,3) N.prems
    by (intro exI [of _ "mctx @ [LF c a i r]"] exI [of _ cy] exI [of _ y] exI [of _ yi] exI [of _ X])
      (subst leftmost.simps, simp add: app)
qed

section \<open>\<open>rb_tree_remove\<close>\<close>

lemma plug_append: "plug (m @ k) t = plug k (plug m t)"
  by (induction m arbitrary: t) auto

lemma cinv_rename: "cinv (m @ RF c l z i # ctx) n = cinv (m @ RF c l y j # ctx) n"
proof (induction m arbitrary: n)
  case (Cons f m)
  have "top_black (m @ RF c l z i # ctx) = top_black (m @ RF c l y j # ctx)" by (cases m) auto
  then show ?case using Cons.IH by (cases f) auto
qed simp

text \<open>What is left to do after the node is out of the tree, and that it succeeds.\<close>

definition remove_finish :: "heap \<Rightarrow> ptr \<Rightarrow> bool \<Rightarrow> ptr \<Rightarrow> ptr \<Rightarrow> nat \<Rightarrow> nat \<Rightarrow> (int \<times> rb_tree) option" where
  "remove_finish h root fixup nodex_parent nodex z tot =
     do {
       (h, root) \<leftarrow> (if fixup then remove_fixup h root nodex_parent nodex else Some (h, root));
       let h = h(z := None);
       _ \<leftarrow> rb_tree_validate h root;
       Some (0, \<lparr>t_heap = h, t_total = tot, t_root = root\<rparr>)
     }"

lemma rooted_free:
  assumes "rooted F h root T" "z \<notin> addrs T"
  shows "rooted (F(z := None)) (h(z := None)) root T"
  using assms by (auto simp: rooted_def)

lemma remove_finish_correct:
  assumes R: "rooted ((\<lambda>_. None)(z := n)) h root (plug ctx X)" and z: "z \<notin> addrs (plug ctx X)"
    and s: "iv_sorted (inord (plug ctx X))"
    and T: "if fixup then inv_rb (blacken X) \<and> cinv ctx (bh X + 1) else ok_rb (plug ctx X)"
  shows "\<exists>t'. remove_finish h root fixup (par ctx) (root_ptr X) z tot = Some (0, t') \<and>
    rb_inv t' (inord (plug ctx X)) \<and> t_total t' = tot"
proof -
  let ?F = "(\<lambda>_. None)(z := n)"
  obtain h1 r1 T1 where f: "(if fixup then remove_fixup h root (par ctx) (root_ptr X) else Some (h, root)) = Some (h1, r1)"
      "rooted ?F h1 r1 T1" "ok_rb T1" "inord T1 = inord (plug ctx X)"
  proof (cases fixup)
    case True
    then show ?thesis
      using that remove_fixup_correct [OF R] T by (auto simp: fixed_up_def)
  qed (use that R T in auto)
  have "addrs T1 = addrs (plug ctx X)" using f(4) by (simp add: addrs_def)
  then have R2: "rooted (\<lambda>_. None) (h1(z := None)) r1 T1"
    using rooted_free [OF f(2), of z] z by simp
  have v: "rb_tree_validate (h1(z := None)) r1 = Some ()"
    using rb_tree_validate_correct [OF R2] f(3,4) s by simp
  have "remove_finish h root fixup (par ctx) (root_ptr X) z tot
      = Some (0, \<lparr>t_heap = h1(z := None), t_total = tot, t_root = r1\<rparr>)"
    unfolding remove_finish_def f(1) using v by (simp add: Let_def)
  moreover have "rb_inv \<lparr>t_heap = h1(z := None), t_total = tot, t_root = r1\<rparr> (inord (plug ctx X))"
    using R2 f(3,4) s unfolding rb_inv_def by (intro exI [of _ T1]) simp
  ultimately show ?thesis by simp
qed

lemma iv_sorted_remove: "iv_sorted (xs @ x # ys) \<Longrightarrow> iv_sorted (xs @ ys)"
  by (simp add: iv_sorted_simps)

lemma remove_one_child:
  assumes R: "rooted (\<lambda>_. None) (t_heap t) (t_root t) (plug ctx (N c l z i r))"
    and T: "ok_rb (plug ctx (N c l z i r))" "iv_sorted (inord (plug ctx (N c l z i r)))"
    and e: "l = E \<or> r = E" and f: "rb_tree_search t key = Some (Some z)"
  shows "\<exists>t'. rb_tree_remove t key = Some (0, t') \<and> rb_inv t' (cpre ctx @ inord l @ inord r @ cpost ctx) \<and>
    t_total t' = t_total t"
proof -
  define X where X: "X = (if l \<noteq> E then l else r)"
  have hz: "t_heap t z = Some (mk c i (par ctx) (root_ptr l) (root_ptr r))" by (rule rooted_node [OF R])
  obtain h1 h2 r2 where s: "upd_if (t_heap t) (root_ptr X) (set_parent (par ctx)) = Some h1"
      "replace_child h1 (t_root t) (par ctx) (Some z) (root_ptr X) = Some (h2, r2)"
      "rooted ((\<lambda>_. None)(z := t_heap t z)) h2 r2 (plug ctx X)" "h2 z = t_heap t z"
    using rooted_splice [OF R e X] by blast
  have zn: "z \<notin> addrs (plug ctx X)" using rootedD(3,5) [OF R] X by auto
  have io: "inord (plug ctx X) = cpre ctx @ inord l @ inord r @ cpost ctx" using e X by (auto simp: inord_plug)
  have "iv_sorted (inord (plug ctx X))"
    using T(2) iv_sorted_remove [of "cpre ctx @ inord l" "(z, i)" "inord r @ cpost ctx"] io by (simp add: inord_plug)
  moreover have "if \<not> c then inv_rb (blacken X) \<and> cinv ctx (bh X + 1) else ok_rb (plug ctx X)"
    using T(1) e X by (auto simp: ok_plug)
  ultimately obtain t' where t': "remove_finish h2 r2 (\<not> c) (par ctx) (root_ptr X) z (t_total t) = Some (0, t')"
      "rb_inv t' (inord (plug ctx X))" "t_total t' = t_total t"
    using remove_finish_correct [OF s(3) zn] by blast
  have b: "is_black h2 (Some z) = Some (\<not> c)" using s(4) hz by (simp add: is_black_def is_red_def)
  have "rb_tree_remove t key = remove_finish h2 r2 (\<not> c) (par ctx) (root_ptr X) z (t_total t)"
    using f hz s(1,2) b e X
    by (cases l) (simp_all add: remove_finish_def rb_tree_remove_def Let_def)
  then show ?thesis using t' io by auto
qed

lemma cpre_append: "cpre (m @ k) = cpre k @ cpre m"
  by (induction m rule: cpre.induct) auto

lemma cpost_append: "cpost (m @ k) = cpost m @ cpost k"
  by (induction m rule: cpost.induct) auto

lemma remove_two_children:
  assumes R: "rooted (\<lambda>_. None) (t_heap t) (t_root t) (plug ctx (N c l z i r))"
    and T: "ok_rb (plug ctx (N c l z i r))" "iv_sorted (inord (plug ctx (N c l z i r)))"
    and e: "l \<noteq> E" "r \<noteq> E" and f: "rb_tree_search t key = Some (Some z)"
  shows "\<exists>t'. rb_tree_remove t key = Some (0, t') \<and> rb_inv t' (cpre ctx @ inord l @ inord r @ cpost ctx) \<and>
    t_total t' = t_total t"
proof -
  let ?F = "\<lambda>_. None :: rb_node option"
  have hz: "t_heap t z = Some (mk c i (par ctx) (root_ptr l) (root_ptr r))" by (rule rooted_node [OF R])
  have "rep (t_heap t) (Some z) r" using rootedD(1) [OF R] by simp
  then obtain m cy y yi X where y: "r = plug m (N cy E y yi X)" "leftmost (t_heap t) (root_ptr r) = Some (Some y)"
      "cpre m = []"
    using leftmost_correct e(2) by (cases r) (metis rbt.exhaust root_ptr.simps(2))+
  let ?cy = "m @ RF c l z i # ctx" and ?cx = "m @ RF c l y yi # ctx"
  have Ry: "rooted ?F (t_heap t) (t_root t) (plug ?cy (N cy E y yi X))" using R y(1) by (simp add: plug_append)
  have hy: "t_heap t y = Some (mk cy yi (par ?cy) None (root_ptr X))" using rooted_node [OF Ry] by simp
  have yz: "y \<noteq> z" "y \<notin> addrs (plug ?cy X)" "z \<notin> addrs (plug m X)" "z \<notin> caddrs m"
    using rootedD(3,5) [OF R] y(1) rootedD(3,5) [OF Ry] by auto
  obtain h1 h2 r2 where s: "upd_if (t_heap t) (root_ptr X) (set_parent (par ?cy)) = Some h1"
      "replace_child h1 (t_root t) (par ?cy) (Some y) (root_ptr X) = Some (h2, r2)"
      "rooted (?F(y := t_heap t y)) h2 r2 (plug ctx (N c l z i (plug m X)))" "h2 y = t_heap t y"
    using rooted_splice [OF Ry, of X] by (auto simp: plug_append)
  have hz2: "h2 z = Some (mk c i (par ctx) (root_ptr l) (root_ptr (plug m X)))" by (rule rooted_node [OF s(3)])
  obtain h3 r3 where u: "remove_transplant h2 r2 (Some z) (Some y) = Some (h3, r3)"
      "rooted ((?F(y := t_heap t y))(z := h2 z)) h3 r3 (plug ctx (N c l y yi (plug m X)))"
    using rooted_transplant [OF s(3), of y] yz(2) hy by (auto simp: plug_append)
  have R3: "rooted (?F(z := h2 z)) h3 r3 (plug ?cx X)"
    using u(2) yz(1) by (auto simp: rooted_def plug_append)
  have zn: "z \<notin> addrs (plug ?cx X)" using rootedD(3,5) [OF s(3)] yz(1) by (auto simp: plug_append)
  have io: "inord (plug ?cx X) = cpre ctx @ inord l @ inord r @ cpost ctx"
    using y(1,3) by (simp add: inord_plug plug_append)
  have px: "par ?cx = (if par ?cy = Some z then Some y else par ?cy)"
    using yz(4) faddr_in [of "hd m" m] by (cases m) auto
  have ok: "inv_rb X" "cinv ?cx (bh X + (if cy then 0 else 1))" "cy \<longrightarrow> black X"
    using T(1) ok_plug [of ?cy "N cy E y yi X"] y(1) cinv_rename [of m c l z i ctx _ y yi] by (auto simp: plug_append)
  have "iv_sorted (inord (plug ?cx X))"
    using T(2) iv_sorted_remove [of "cpre ctx @ inord l" "(z, i)" "inord r @ cpost ctx"] io by (simp add: inord_plug)
  moreover have "if \<not> cy then inv_rb (blacken X) \<and> cinv ?cx (bh X + 1) else ok_rb (plug ?cx X)"
    using ok by (auto simp: ok_plug)
  ultimately obtain t' where t': "remove_finish h3 r3 (\<not> cy) (par ?cx) (root_ptr X) z (t_total t) = Some (0, t')"
      "rb_inv t' (inord (plug ?cx X))" "t_total t' = t_total t"
    using remove_finish_correct [OF R3 zn] by blast
  have b: "is_black h2 (Some y) = Some (\<not> cy)" using s(4) hy by (simp add: is_black_def is_red_def)
  have "rb_tree_remove t key = remove_finish h3 r3 (\<not> cy) (par ?cx) (root_ptr X) z (t_total t)"
    unfolding px using f hz hy y(2) e s(1,2) b u(1) yz(1)
    by (simp add: remove_finish_def rb_tree_remove_def Let_def)
  then show ?thesis using t' io by auto
qed

lemma find_SomeD: "find P xs = Some x \<Longrightarrow> \<exists>us vs. xs = us @ x # vs \<and> P x \<and> (\<forall>y\<in>set us. \<not> P y)"
proof (induction xs)
  case (Cons a xs)
  show ?case
  proof (cases "P a")
    case True
    then show ?thesis using Cons.prems by (intro exI [of _ "[]"] exI [of _ xs]) simp
  next
    case False
    then obtain us vs where "xs = us @ x # vs" "P x" "\<forall>y\<in>set us. \<not> P y" using Cons by auto
    then show ?thesis using False by (intro exI [of _ "a # us"] exI [of _ vs]) simp
  qed
qed simp

lemma find_filter_split:
  assumes "iv_sorted xs" "find (contains key) xs = Some x"
  shows "\<exists>us vs. xs = us @ x # vs \<and> filter (\<lambda>y. \<not> contains key y) xs = us @ vs"
proof -
  obtain us vs where xs: "xs = us @ x # vs" "contains key x" "\<forall>y\<in>set us. \<not> contains key y"
    using find_SomeD [OF assms(2)] by blast
  have "\<not> contains key y" if "y \<in> set vs" for y
    using assms(1) xs(1,2) that by (auto simp: iv_sorted_simps contains_def)
  then have "filter (\<lambda>y. \<not> contains key y) xs = us @ vs" using xs by (simp add: filter_id_conv)
  then show ?thesis using xs(1) by blast
qed

lemma rb_tree_search_correct:
  "rb_inv t xs \<Longrightarrow> rb_tree_search t key = Some (map_option fst (find (contains key) xs))"
  unfolding rb_inv_def rb_tree_search_def using search_loop_correct by (auto simp: rooted_def)

lemma rb_tree_remove_correct:
  assumes I: "rb_inv t xs"
  shows "case find (contains key) xs of
      None \<Rightarrow> rb_tree_remove t key = Some (- EINVAL, t)
    | Some x \<Rightarrow> \<exists>t'. rb_tree_remove t key = Some (0, t') \<and>
        rb_inv t' (filter (\<lambda>y. \<not> contains key y) xs) \<and> t_total t' = t_total t"
proof (cases "find (contains key) xs")
  case None
  then show ?thesis using rb_tree_search_correct [OF I, of key] by (simp add: rb_tree_remove_def)
next
  case (Some x)
  obtain z i where x: "x = (z, i)" by (cases x) auto
  have f: "rb_tree_search t key = Some (Some z)" using rb_tree_search_correct [OF I, of key] Some x by simp
  obtain T where T: "rooted (\<lambda>_. None) (t_heap t) (t_root t) T" "ok_rb T" "iv_sorted xs" "inord T = xs"
    using I by (auto simp: rb_inv_def)
  obtain us vs where us: "xs = us @ (z, i) # vs" "filter (\<lambda>y. \<not> contains key y) xs = us @ vs"
    using find_filter_split [OF T(3) Some] x by blast
  obtain ctx c l r where p: "T = plug ctx (N c l z i r)"
    using inord_split [of z i T "[]"] us(1) T(4) by auto
  have d: "distinct xs" using T(1,4) by (auto simp: rooted_def dist_iff distinct_map)
  have "us @ (z, i) # vs = (cpre ctx @ inord l) @ (z, i) # inord r @ cpost ctx"
    using T(4) us(1) p by (simp add: inord_plug)
  moreover have "(z, i) \<notin> set us" "(z, i) \<notin> set vs" using d unfolding us(1) by simp_all
  ultimately have "us @ vs = cpre ctx @ inord l @ inord r @ cpost ctx"
    using append_Cons_eq_iff [of "(z, i)" us vs "cpre ctx @ inord l" "inord r @ cpost ctx"] by auto
  moreover have "iv_sorted (inord T)" using T(3,4) by simp
  ultimately show ?thesis
    using remove_one_child [OF T(1) [unfolded p] T(2) [unfolded p] _ _ f]
      remove_two_children [OF T(1) [unfolded p] T(2) [unfolded p] _ _ _ f] us(2) p Some by auto
qed

section \<open>Iteration and deletion\<close>

text \<open>The specification of the iteration: the callback on the nodes in ascending order until it fails.\<close>

fun iter_list :: "(nat \<Rightarrow> 'p \<Rightarrow> int \<times> 'p) \<Rightarrow> nat list \<Rightarrow> 'p \<Rightarrow> int \<times> 'p" where
  "iter_list callback [] priv = (0, priv)"
| "iter_list callback (a # as) priv =
     (case callback a priv of (ret, priv) \<Rightarrow>
        if ret \<noteq> 0 then (ret, priv) else iter_list callback as priv)"

lemma iter_list_append:
  "iter_list f (xs @ ys) p = (case iter_list f xs p of (ret, p) \<Rightarrow> if ret \<noteq> 0 then (ret, p) else iter_list f ys p)"
  by (induction xs arbitrary: p) (auto split: prod.splits)

lemma tree_iterate_correct:
  "rep h q t \<Longrightarrow> tree_iterate h (root_ptr t) f p = Some (iter_list f (map fst (inord t)) p)"
proof (induction t arbitrary: q p)
  case E
  then show ?case by (subst tree_iterate.simps) simp
next
  case (N c l a i r)
  then show ?case
    using N.IH(1) [of "Some a"] N.IH(2) [of "Some a"]
    by (subst tree_iterate.simps) (auto simp: iter_list_append split: prod.splits)
qed

lemma tree_delete_correct:
  "rep h q t \<Longrightarrow> dist t \<Longrightarrow> tree_delete h (root_ptr t) = Some (\<lambda>a. if a \<in> addrs t then None else h a)"
proof (induction t arbitrary: h q)
  case E
  then show ?case by (subst tree_delete.simps) simp
next
  case (N c l a i r)
  let ?h1 = "\<lambda>b. if b \<in> addrs l then None else h b"
  have 1: "tree_delete h (root_ptr l) = Some ?h1" using N.IH(1) [of h "Some a"] N.prems by simp
  have eq: "rep ?h1 p u = rep h p u" if "addrs l \<inter> addrs u = {}" for p u
    using that by (induction h p u rule: rep.induct) auto
  have "rep ?h1 (Some a) r" using N.prems eq [of r "Some a"] by simp
  then have 2: "tree_delete ?h1 (root_ptr r) = Some (\<lambda>b. if b \<in> addrs r then None else ?h1 b)"
    using N.IH(2) [of ?h1 "Some a"] N.prems by simp
  show ?case using N.prems 1 2 by (subst tree_delete.simps) (auto simp: fun_eq_iff)
qed

section \<open>The interface: a map from disjoint intervals\<close>

text \<open>The abstract state is the ascending list of the intervals with their values.\<close>

type_synonym interval = "nat \<times> nat \<times> nat"

datatype iv_op = Ins nat nat nat | Del nat

definition iv_ins :: "nat \<Rightarrow> nat \<Rightarrow> nat \<Rightarrow> interval list \<Rightarrow> interval list" where
  "iv_ins s e v ys =
     (if s \<le> e \<and> (\<forall>y\<in>set ys. \<not> (s \<le> fst (snd y) \<and> fst y \<le> e))
      then filter (\<lambda>y. fst (snd y) < s) ys @ [(s, e, v)] @ filter (\<lambda>y. e < fst y) ys else ys)"

definition iv_del :: "nat \<Rightarrow> interval list \<Rightarrow> interval list" where
  "iv_del key ys = filter (\<lambda>y. \<not> (fst y \<le> key \<and> key \<le> fst (snd y))) ys"

definition iv_look :: "nat \<Rightarrow> interval list \<Rightarrow> interval option" where
  "iv_look key ys = find (\<lambda>y. fst y \<le> key \<and> key \<le> fst (snd y)) ys"

fun iv_apply :: "iv_op \<Rightarrow> interval list \<Rightarrow> interval list" where
  "iv_apply (Ins s e v) ys = iv_ins s e v ys"
| "iv_apply (Del key) ys = iv_del key ys"

fun run_ops :: "('t \<Rightarrow> nat \<Rightarrow> nat \<Rightarrow> nat \<Rightarrow> 't option) \<Rightarrow> ('t \<Rightarrow> nat \<Rightarrow> 't option) \<Rightarrow> iv_op list \<Rightarrow> 't \<Rightarrow> 't option" where
  "run_ops ins del [] t = Some t"
| "run_ops ins del (Ins s e v # ops) t = do { t \<leftarrow> ins t s e v; run_ops ins del ops t }"
| "run_ops ins del (Del key # ops) t = do { t \<leftarrow> del t key; run_ops ins del ops t }"

locale interval_map =
  fixes repr :: "'t \<Rightarrow> interval list \<Rightarrow> bool"
    and ins :: "'t \<Rightarrow> nat \<Rightarrow> nat \<Rightarrow> nat \<Rightarrow> 't option"
    and del :: "'t \<Rightarrow> nat \<Rightarrow> 't option"
    and look :: "'t \<Rightarrow> nat \<Rightarrow> interval option option"
  assumes ins_law: "repr t ys \<Longrightarrow> \<exists>t'. ins t s e v = Some t' \<and> repr t' (iv_ins s e v ys)"
    and del_law: "repr t ys \<Longrightarrow> \<exists>t'. del t key = Some t' \<and> repr t' (iv_del key ys)"
    and look_law: "repr t ys \<Longrightarrow> look t key = Some (iv_look key ys)"
begin

lemma run_refines:
  "repr t ys \<Longrightarrow> \<exists>t'. run_ops ins del ops t = Some t' \<and> repr t' (fold iv_apply ops ys)"
proof (induction ops arbitrary: t ys)
  case (Cons x ops)
  show ?case
  proof (cases x)
    case (Ins s e v)
    then show ?thesis using ins_law [OF Cons.prems, of s e v] Cons.IH by auto
  next
    case (Del key)
    then show ?thesis using del_law [OF Cons.prems, of key] Cons.IH by auto
  qed
qed auto

lemma look_after_run:
  "repr t ys \<Longrightarrow> \<exists>t'. run_ops ins del ops t = Some t' \<and> look t' key = Some (iv_look key (fold iv_apply ops ys))"
  using run_refines look_law by blast

end

text \<open>What the tree relies on: \<open>kmalloc\<close> of a node returns an address that is not in use.\<close>

definition alloc_fresh :: "(heap \<Rightarrow> ptr) \<Rightarrow> bool" where
  "alloc_fresh kmalloc \<longleftrightarrow> (\<forall>h. finite (dom h) \<longrightarrow> (\<exists>a. kmalloc h = Some a \<and> h a = None))"

definition rb_repr :: "(heap \<Rightarrow> ptr) \<Rightarrow> rb_tree \<Rightarrow> interval list \<Rightarrow> bool" where
  "rb_repr kmalloc t ys \<longleftrightarrow> alloc_fresh kmalloc \<and> (\<exists>xs. rb_inv t xs \<and> ys = map (snd \<circ> snd) xs)"

definition rb_ins :: "(heap \<Rightarrow> ptr) \<Rightarrow> rb_tree \<Rightarrow> nat \<Rightarrow> nat \<Rightarrow> nat \<Rightarrow> rb_tree option" where
  "rb_ins kmalloc t s e v = map_option snd (rb_tree_insert (kmalloc (t_heap t)) t s e v)"

definition rb_del :: "rb_tree \<Rightarrow> nat \<Rightarrow> rb_tree option" where
  "rb_del t key = map_option snd (rb_tree_remove t key)"

definition rb_look :: "rb_tree \<Rightarrow> nat \<Rightarrow> interval option option" where
  "rb_look t key =
     do {
       p \<leftarrow> rb_tree_search t key;
       if p = None then Some None
       else do {
         s \<leftarrow> rb_node_key_start (t_heap t) p;
         e \<leftarrow> rb_node_key_end (t_heap t) p;
         v \<leftarrow> rb_node_value (t_heap t) p;
         Some (Some (s, e, v))
       }
     }"

lemma rb_tree_insert_fails:
  assumes I: "rb_inv t xs" and f: "start > stop \<or> (\<exists>x\<in>set xs. overlaps start stop x) \<or> new = None"
  shows "rb_tree_insert new t start stop v = Some (None, t)"
proof -
  obtain T where T: "rooted (\<lambda>_. None) (t_heap t) (t_root t) T" "iv_sorted xs" "inord T = xs"
    using I by (auto simp: rb_inv_def)
  have rep: "rep (t_heap t) (par []) T" "t_root t = root_ptr T" using T(1) by (simp_all add: rooted_def)
  show ?thesis
  proof (cases "start \<le> stop")
    case True
    note w = insert_walk_overlap [OF rep(1) _ True, of None] insert_walk_free [OF rep(1) _ True]
    show ?thesis
    proof (cases "\<exists>x\<in>set xs. overlaps start stop x")
      case True
      then show ?thesis
        using w(1) T(2,3) rep(2) \<open>start \<le> stop\<close> by (simp add: rb_tree_insert_def)
    next
      case False
      then have "new = None" using f \<open>start \<le> stop\<close> by simp
      then show ?thesis
        using w(2) T(2,3) rep(2) \<open>start \<le> stop\<close> False by (auto simp: rb_tree_insert_def)
    qed
  qed (simp add: rb_tree_insert_def)
qed

lemma finite_addrs: "finite (addrs t)"
  by (simp add: addrs_def)

lemma rb_inv_finite: "rb_inv t xs \<Longrightarrow> finite (dom (t_heap t))"
proof -
  assume "rb_inv t xs"
  then obtain T where "\<forall>a. a \<notin> addrs T \<longrightarrow> t_heap t a = None" by (auto simp: rb_inv_def rooted_def)
  then have "dom (t_heap t) \<subseteq> addrs T" by force
  then show ?thesis using finite_subset [OF _ finite_addrs] by blast
qed

lemma find_map: "find P (map f xs) = map_option f (find (P \<circ> f) xs)"
  by (induction xs) auto

lemma iv_look_map: "iv_look key (map (snd \<circ> snd) xs) = map_option (snd \<circ> snd) (find (contains key) xs)"
proof -
  have "(\<lambda>y. fst y \<le> key \<and> key \<le> fst (snd y)) \<circ> (snd \<circ> snd) = contains key"
    by (simp add: fun_eq_iff contains_def)
  then show ?thesis by (simp add: iv_look_def find_map)
qed

lemma rb_look_correct:
  assumes I: "rb_inv t xs"
  shows "rb_look t key = Some (iv_look key (map (snd \<circ> snd) xs))"
proof (cases "find (contains key) xs")
  case None
  then show ?thesis using rb_tree_search_correct [OF I, of key] by (simp add: rb_look_def iv_look_map)
next
  case (Some x)
  obtain z k s e v where x: "x = (z, k, s, e, v)" by (cases x) auto
  obtain T where T: "rooted (\<lambda>_. None) (t_heap t) (t_root t) T" "inord T = xs"
    using I by (auto simp: rb_inv_def)
  obtain ctx c l r where "T = plug ctx (N c l z (k, s, e, v) r)"
    using inord_split [of z "(k, s, e, v)" T "[]"] find_SomeD [OF Some] T(2) x by auto
  then have "t_heap t z = Some (mk c (k, s, e, v) (par ctx) (root_ptr l) (root_ptr r))"
    using T(1) rooted_node by blast
  then show ?thesis
    using rb_tree_search_correct [OF I, of key] Some x
    by (simp add: iv_look_map rb_look_def rb_node_key_start_def rb_node_key_end_def rb_node_value_def)
qed

lemma rb_ins_correct:
  assumes "rb_repr kmalloc t ys"
  shows "\<exists>t'. rb_ins kmalloc t s e v = Some t' \<and> rb_repr kmalloc t' (iv_ins s e v ys)"
proof -
  obtain xs where k: "alloc_fresh kmalloc" and I: "rb_inv t xs" and ys: "ys = map (snd \<circ> snd) xs"
    using assms by (auto simp: rb_repr_def)
  obtain a where a: "kmalloc (t_heap t) = Some a" "t_heap t a = None"
    using k rb_inv_finite [OF I] by (auto simp: alloc_fresh_def)
  show ?thesis
  proof (cases "s \<le> e \<and> (\<forall>x\<in>set xs. \<not> overlaps s e x)")
    case True
    obtain t' where t': "rb_tree_insert (Some a) t s e v = Some (Some a, t')"
        "rb_inv t' (iv_insert (a, (t_total t, s, e, v)) xs)"
      using rb_tree_insert_correct [OF I refl a(2)] True by blast
    have "iv_ins s e v ys = map (snd \<circ> snd) (iv_insert (a, (t_total t, s, e, v)) xs)"
      using True by (simp add: iv_ins_def iv_insert_def ys overlaps_def filter_map comp_def)
    then show ?thesis using t' a(1) k by (auto simp: rb_ins_def rb_repr_def)
  next
    case False
    then have "rb_tree_insert (Some a) t s e v = Some (None, t)" by (intro rb_tree_insert_fails [OF I]) auto
    moreover have "iv_ins s e v ys = ys" using False by (auto simp: iv_ins_def ys overlaps_def)
    ultimately show ?thesis using assms a(1) by (simp add: rb_ins_def)
  qed
qed

lemma rb_del_correct:
  assumes "rb_repr kmalloc t ys"
  shows "\<exists>t'. rb_del t key = Some t' \<and> rb_repr kmalloc t' (iv_del key ys)"
proof -
  obtain xs where k: "alloc_fresh kmalloc" and I: "rb_inv t xs" and ys: "ys = map (snd \<circ> snd) xs"
    using assms by (auto simp: rb_repr_def)
  have d: "iv_del key ys = map (snd \<circ> snd) (filter (\<lambda>y. \<not> contains key y) xs)"
    by (simp add: iv_del_def ys contains_def filter_map comp_def)
  show ?thesis
  proof (cases "find (contains key) xs")
    case None
    then have "filter (\<lambda>y. \<not> contains key y) xs = xs"
      unfolding find_None_iff filter_id_conv by blast
    then show ?thesis
      using rb_tree_remove_correct [OF I, of key] None assms d ys by (auto simp: rb_del_def)
  next
    case (Some x)
    then show ?thesis
      using rb_tree_remove_correct [OF I, of key] k d by (auto simp: rb_del_def rb_repr_def)
  qed
qed

interpretation rb_map: interval_map "rb_repr kmalloc" "rb_ins kmalloc" rb_del rb_look for kmalloc
proof unfold_locales
  show "\<exists>t'. rb_ins kmalloc t s e v = Some t' \<and> rb_repr kmalloc t' (iv_ins s e v ys)" if "rb_repr kmalloc t ys" for t ys s e v
    using rb_ins_correct [OF that] .
  show "\<exists>t'. rb_del t key = Some t' \<and> rb_repr kmalloc t' (iv_del key ys)" if "rb_repr kmalloc t ys" for t ys key
    using rb_del_correct [OF that] .
  show "rb_look t key = Some (iv_look key ys)" if "rb_repr kmalloc t ys" for t ys key
    using that rb_look_correct by (auto simp: rb_repr_def)
qed

lemma rb_inv_empty: "rb_inv \<lparr>t_heap = \<lambda>_. None, t_total = n, t_root = None\<rparr> []"
  unfolding rb_inv_def by (intro exI [of _ E]) (simp add: rooted_def ok_rb_def)

section \<open>Properties\<close>

text \<open>
  C10: \<open>rb_tree_insert\<close> on a red-black tree of disjoint intervals returns, all assertions of the validation
  included.  If the interval is proper, overlaps none of the present ones and memory is available, the
  new node is returned and the tree is a red-black tree of the intervals with the new one in its place;
  otherwise the null pointer is returned and the tree is unchanged.
\<close>

theorem rb_insert_spec:
  assumes "rb_inv t xs" "\<forall>a. new = Some a \<longrightarrow> t_heap t a = None"
  shows "\<exists>r t'. rb_tree_insert new t s e v = Some (r, t') \<and>
    (if s \<le> e \<and> (\<forall>x\<in>set xs. \<not> overlaps s e x) \<and> new \<noteq> None
     then r = new \<and> rb_inv t' (iv_insert (the new, (t_total t, s, e, v)) xs) else r = None \<and> t' = t)"
proof (cases "s \<le> e \<and> (\<forall>x\<in>set xs. \<not> overlaps s e x) \<and> new \<noteq> None")
  case True
  then obtain a where a: "new = Some a" by auto
  obtain t' where "rb_tree_insert new t s e v = Some (new, t')" "rb_inv t' (iv_insert (a, (t_total t, s, e, v)) xs)"
    using rb_tree_insert_correct [OF assms(1) a] assms(2) True a by blast
  then show ?thesis using True a by (intro exI [of _ new] exI [of _ t']) simp
next
  case False
  then have "rb_tree_insert new t s e v = Some (None, t)" by (intro rb_tree_insert_fails [OF assms(1)]) auto
  then show ?thesis using False by auto
qed

theorem rb_insert_spec_witness:
  "\<exists>r t'. rb_tree_insert (Some 5) \<lparr>t_heap = \<lambda>_. None, t_total = 0, t_root = None\<rparr> 3 7 9 = Some (r, t') \<and>
     r = Some 5 \<and> rb_inv t' [(5, 0, 3, 7, 9)]"
  using rb_insert_spec [OF rb_inv_empty [of 0], of "Some 5" 3 7 9] by (simp add: iv_insert_def)

text \<open>
  C11: \<open>rb_tree_remove\<close> returns, all assertions included.  It removes the interval that contains the key and
  frees its node (the heap holds exactly the nodes of the tree), and the rest is again a red-black tree; if
  there is none it returns \<open>-EINVAL\<close> and changes nothing.
\<close>

theorem rb_remove_spec:
  assumes "rb_inv t xs"
  shows "\<exists>ret t'. rb_tree_remove t key = Some (ret, t') \<and> rb_inv t' (filter (\<lambda>x. \<not> contains key x) xs) \<and>
    (if (\<exists>x\<in>set xs. contains key x) then ret = 0 else ret = - EINVAL \<and> t' = t)"
proof (cases "find (contains key) xs")
  case None
  then have n: "\<forall>x\<in>set xs. \<not> contains key x" unfolding find_None_iff by blast
  then have "filter (\<lambda>x. \<not> contains key x) xs = xs" by (simp only: filter_id_conv)
  moreover have "\<not> (\<exists>x\<in>set xs. contains key x)" using n by blast
  ultimately show ?thesis using rb_tree_remove_correct [OF assms, of key] None assms by simp
next
  case (Some x)
  then have "\<exists>x\<in>set xs. contains key x" using find_SomeD [OF Some] by fastforce
  then show ?thesis using rb_tree_remove_correct [OF assms, of key] Some by auto
qed

theorem rb_remove_spec_witness:
  "\<exists>t r t'. rb_tree_insert (Some 5) \<lparr>t_heap = \<lambda>_. None, t_total = 0, t_root = None\<rparr> 3 7 9 = Some (Some 5, t) \<and>
     rb_tree_remove t 4 = Some (r, t') \<and> r = 0 \<and> rb_inv t' []"
proof -
  obtain t where t: "rb_tree_insert (Some 5) \<lparr>t_heap = \<lambda>_. None, t_total = 0, t_root = None\<rparr> 3 7 9 = Some (Some 5, t)"
      "rb_inv t [(5, 0, 3, 7, 9)]"
    using rb_tree_insert_correct [OF rb_inv_empty [of 0] refl, of 5 3 7 9] by (auto simp: iv_insert_def)
  show ?thesis using rb_remove_spec [OF t(2), of 4] t(1) by (auto simp: contains_def)
qed

text \<open>
  C4: the tree implements a map from disjoint intervals.  After any sequence of insertions and removals that
  starts from an empty tree, with an allocator that returns unused addresses, the run returns and a
  search gives what the same sequence gives on the ascending list of intervals.
\<close>

theorem rb_tree_refines:
  assumes "alloc_fresh kmalloc"
  shows "\<exists>t. run_ops (rb_ins kmalloc) rb_del ops \<lparr>t_heap = \<lambda>_. None, t_total = 0, t_root = None\<rparr> = Some t \<and>
    rb_look t key = Some (iv_look key (fold iv_apply ops []))"
proof -
  have "rb_repr kmalloc \<lparr>t_heap = \<lambda>_. None, t_total = 0, t_root = None\<rparr> []"
    using assms rb_inv_empty [of 0] by (auto simp: rb_repr_def)
  from rb_map.look_after_run [OF this] show ?thesis .
qed

lemma least_fresh: "alloc_fresh (\<lambda>h. Some (LEAST a. h a = None))"
  unfolding alloc_fresh_def
proof (intro allI impI)
  fix h :: heap assume "finite (dom h)"
  then obtain a where "a \<notin> dom h" using ex_new_if_finite infinite_UNIV_nat by blast
  then have "h a = None" by auto
  from LeastI [of "\<lambda>a. h a = None", OF this]
  show "\<exists>a. Some (LEAST a. h a = None) = Some a \<and> h a = None" by blast
qed

theorem rb_tree_refines_witness:
  "\<exists>t. run_ops (rb_ins (\<lambda>h. Some (LEAST a. h a = None))) rb_del [Ins 3 7 9, Ins 20 21 4, Del 5]
       \<lparr>t_heap = \<lambda>_. None, t_total = 0, t_root = None\<rparr> = Some t \<and> rb_look t 20 = Some (Some (20, 21, 4))"
  using rb_tree_refines [OF least_fresh, of "[Ins 3 7 9, Ins 20 21 4, Del 5]" 20]
  by (simp add: iv_ins_def iv_del_def iv_look_def)

text \<open>
  \<open>rb_tree_iterate\<close> calls the callback on the nodes in ascending order of their intervals and stops at the
  first one for which it returns a non-zero code, and \<open>rb_tree_delete\<close> frees every node.
\<close>

theorem rb_iterate_delete:
  assumes "rb_inv t xs"
  shows "rb_tree_iterate t f p = Some (iter_list f (map fst xs) p) \<and> rb_tree_delete t = Some (\<lambda>_. None)"
proof -
  obtain T where T: "rep (t_heap t) None T" "t_root t = root_ptr T" "dist T" "inord T = xs"
      "\<forall>a. a \<notin> addrs T \<longrightarrow> t_heap t a = None"
    using assms by (auto simp: rb_inv_def rooted_def)
  have "(\<lambda>a. if a \<in> addrs T then None else t_heap t a) = (\<lambda>_. None)" using T(5) by auto
  then show ?thesis
    using tree_iterate_correct [OF T(1), of f p] tree_delete_correct [OF T(1,3)] T(2,4)
    by (simp add: rb_tree_iterate_def rb_tree_delete_def)
qed

theorem rb_iterate_delete_witness:
  "\<exists>t. rb_tree_insert (Some 5) \<lparr>t_heap = \<lambda>_. None, t_total = 0, t_root = None\<rparr> 3 7 9 = Some (Some 5, t) \<and>
     rb_tree_iterate t (\<lambda>a as. (0, a # as)) [] = Some (0, [5]) \<and> rb_tree_delete t = Some (\<lambda>_. None)"
proof -
  obtain t where t: "rb_tree_insert (Some 5) \<lparr>t_heap = \<lambda>_. None, t_total = 0, t_root = None\<rparr> 3 7 9 = Some (Some 5, t)"
      "rb_inv t [(5, 0, 3, 7, 9)]"
    using rb_tree_insert_correct [OF rb_inv_empty [of 0] refl, of 5 3 7 9] by (auto simp: iv_insert_def)
  show ?thesis using rb_iterate_delete [OF t(2), of "\<lambda>a as. (0, a # as)" "[]"] t(1) by auto
qed

end
