(* ===== verification/Linked_List.thy ===== *)
theory Linked_List
  imports Prelude
begin

text \<open>
  The circular doubly linked list of \<^verbatim>\<open>include/list.h\<close>.  A \<^verbatim>\<open>struct list_node\<close> holds two
  pointers; the heap of all nodes is the pair of field functions below, over a type of node
  addresses \<open>'n\<close> which each client instantiates (a free list head, the node embedded in a page
  or in a block, and so on).  The operations are the pointer assignments of the code, in the
  order of the code.

  \<open>dlist h q xs\<close> is the abstraction: the ring through the head \<open>q\<close> visits exactly the
  nodes \<open>xs\<close>, and the \<open>prev\<close> pointers are the inverse of the \<open>next\<close> pointers.
\<close>

section \<open>Nodes and operations\<close>

record 'n list_node =
  prev :: "'n \<Rightarrow> 'n"
  nxt :: "'n \<Rightarrow> 'n"

definition set_prev :: "'n \<Rightarrow> 'n \<Rightarrow> 'n list_node \<Rightarrow> 'n list_node" where
  "set_prev a b h = h\<lparr>prev := (prev h)(a := b)\<rparr>"

definition set_next :: "'n \<Rightarrow> 'n \<Rightarrow> 'n list_node \<Rightarrow> 'n list_node" where
  "set_next a b h = h\<lparr>nxt := (nxt h)(a := b)\<rparr>"

definition list_init :: "'n \<Rightarrow> 'n list_node \<Rightarrow> 'n list_node" where
  "list_init head h =
     (let h = set_next head head h
      in set_prev head (nxt h head) h)"

definition list_insert_before :: "'n \<Rightarrow> 'n \<Rightarrow> 'n list_node \<Rightarrow> 'n list_node" where
  "list_insert_before cur node h =
     (let h = set_next (prev h cur) node h;
          h = set_next node cur h;
          h = set_prev node (prev h cur) h
      in set_prev cur node h)"

definition list_insert :: "'n \<Rightarrow> 'n \<Rightarrow> 'n list_node \<Rightarrow> 'n list_node" where
  "list_insert cur node h =
     (let h = set_prev (nxt h cur) node h;
          h = set_next node (nxt h cur) h;
          h = set_prev node cur h
      in set_next cur node h)"

definition list_insert_head :: "'n \<Rightarrow> 'n \<Rightarrow> 'n list_node \<Rightarrow> 'n list_node" where
  "list_insert_head head node h = list_insert head node h"

definition list_insert_tail :: "'n \<Rightarrow> 'n \<Rightarrow> 'n list_node \<Rightarrow> 'n list_node" where
  "list_insert_tail head node h = list_insert_before head node h"

definition list_remove :: "'n \<Rightarrow> 'n list_node \<Rightarrow> 'n list_node" where
  "list_remove node h =
     (let h = set_next (prev h node) (nxt h node) h
      in set_prev (nxt h node) (prev h node) h)"

definition list_empty :: "'n \<Rightarrow> 'n list_node \<Rightarrow> bool" where
  "list_empty head h \<longleftrightarrow> nxt h head = head"

definition list_next :: "'n \<Rightarrow> 'n list_node \<Rightarrow> 'n" where
  "list_next head h = nxt h head"

definition list_tail :: "'n \<Rightarrow> 'n list_node \<Rightarrow> 'n" where
  "list_tail head h = prev h head"

text \<open>The loop of \<open>list_size\<close>; the counter is an \<open>unsigned long\<close> and wraps.\<close>

partial_function (option) list_size_loop ::
  "'n list_node \<Rightarrow> 'n \<Rightarrow> 'n \<Rightarrow> u32 \<Rightarrow> u32 option" where
  "list_size_loop h head node n =
     (if node \<noteq> head then list_size_loop h head (nxt h node) (n + 1) else Some n)"

definition list_size :: "'n \<Rightarrow> 'n list_node \<Rightarrow> u32 option" where
  "list_size head h = list_size_loop h head (nxt h head) 0"

declare list_size_loop.simps [code]

section \<open>The abstraction to lists\<close>

named_theorems list_heap \<open>how the list operations read and write the two field functions\<close>

lemma set_prev_sel [simp]:
  "prev (set_prev a b h) = (prev h)(a := b)" "nxt (set_prev a b h) = nxt h"
  by (simp_all add: set_prev_def)

lemma set_next_sel [simp]:
  "prev (set_next a b h) = prev h" "nxt (set_next a b h) = (nxt h)(a := b)"
  by (simp_all add: set_next_def)

lemmas [list_heap] = list_init_def list_insert_before_def list_insert_def
  list_insert_head_def list_insert_tail_def list_remove_def Let_def

text \<open>\<open>lseg h a xs b\<close>: following \<open>next\<close> from \<open>a\<close> visits \<open>xs\<close> and then arrives at \<open>b\<close>.\<close>

fun lseg :: "'n list_node \<Rightarrow> 'n \<Rightarrow> 'n list \<Rightarrow> 'n \<Rightarrow> bool" where
  "lseg h a [] b \<longleftrightarrow> nxt h a = b \<and> prev h b = a"
| "lseg h a (x # xs) b \<longleftrightarrow> nxt h a = x \<and> prev h x = a \<and> lseg h x xs b"

definition dlist :: "'n list_node \<Rightarrow> 'n \<Rightarrow> 'n list \<Rightarrow> bool" where
  "dlist h q xs \<longleftrightarrow> lseg h q xs q \<and> distinct (q # xs)"

lemma lseg_append [simp]:
  "lseg h a (xs @ y # ys) b \<longleftrightarrow> lseg h a xs y \<and> lseg h y ys b"
  by (induction xs arbitrary: a) auto

lemma lseg_cong:
  "\<forall>x \<in> insert a (set xs). nxt h' x = nxt h x \<Longrightarrow>
   \<forall>x \<in> insert b (set xs). prev h' x = prev h x \<Longrightarrow>
   lseg h' a xs b = lseg h a xs b"
  by (induction xs arbitrary: a) auto

lemma lseg_nextD: "lseg h a xs b \<Longrightarrow> nxt h a = hd (xs @ [b])"
  by (cases xs) auto

lemma lseg_prevD: "lseg h a xs b \<Longrightarrow> prev h b = last (a # xs)"
  by (induction xs arbitrary: a) auto

text \<open>What the operations do to the ring through one head.\<close>

lemma dlist_init: "dlist (list_init q h) q []"
  by (simp add: dlist_def list_heap)

lemma dlist_list_empty: "dlist h q xs \<Longrightarrow> list_empty q h \<longleftrightarrow> xs = []"
  by (cases xs) (auto simp: dlist_def list_empty_def)

lemma dlist_list_next: "dlist h q (x # xs) \<Longrightarrow> list_next q h = x"
  by (simp add: dlist_def list_next_def)

lemma dlist_list_tail: "dlist h q (xs @ [x]) \<Longrightarrow> list_tail q h = x"
  by (simp add: dlist_def list_tail_def)

lemma dlist_cong:
  assumes "\<forall>x \<in> insert q (set xs). nxt h' x = nxt h x \<and> prev h' x = prev h x"
  shows "dlist h' q xs = dlist h q xs"
  unfolding dlist_def using assms by (subst lseg_cong [where h = h]) auto

lemma lseg_insert_first:
  assumes "lseg h a xs b" "distinct (a # xs)" "b \<notin> set xs"
    and "node \<notin> insert a (insert b (set xs))"
  shows "lseg (list_insert a node h) a (node # xs) b"
proof (cases xs)
  case Nil
  with assms show ?thesis by (auto simp: list_heap)
next
  case (Cons x ys)
  with assms have h: "nxt h a = x" "prev h x = a" "lseg h x ys b" by auto
  have "lseg (list_insert a node h) x ys b = lseg h x ys b"
    using assms Cons h by (intro lseg_cong) (auto simp: list_heap)
  with Cons assms h show ?thesis by (auto simp: list_heap)
qed

lemma lseg_insert_before_last:
  assumes "lseg h a xs b" "distinct (a # xs)" "b \<notin> set xs"
    and "node \<notin> insert a (insert b (set xs))"
  shows "lseg (list_insert_before b node h) a (xs @ [node]) b"
proof (cases xs rule: rev_exhaust)
  case Nil
  with assms show ?thesis by (auto simp: list_heap)
next
  case (snoc ys y)
  with assms have h: "nxt h y = b" "prev h b = y" "lseg h a ys y" by auto
  have "lseg (list_insert_before b node h) a ys y = lseg h a ys y"
    using assms snoc h by (intro lseg_cong) (auto simp: list_heap)
  with snoc assms h show ?thesis by (auto simp: list_heap)
qed

lemma dlist_insert:
  assumes "dlist h q xs" "node \<noteq> q" "node \<notin> set xs"
  shows "dlist (list_insert q node h) q (node # xs)"
  using assms lseg_insert_first [of h q xs q node] by (auto simp: dlist_def)

lemma dlist_insert_after:
  assumes "dlist h q (xs @ cur # ys)" "node \<noteq> q" "node \<notin> set (xs @ cur # ys)"
  shows "dlist (list_insert cur node h) q (xs @ cur # node # ys)"
proof -
  from assms have h: "lseg h q xs cur" "lseg h cur ys q" by (auto simp: dlist_def)
  then have *: "nxt h cur = hd (ys @ [q])" by (blast dest: lseg_nextD)
  have 1: "lseg (list_insert cur node h) cur (node # ys) q"
    using assms h by (intro lseg_insert_first) (auto simp: dlist_def)
  have "lseg (list_insert cur node h) q xs cur = lseg h q xs cur"
    using assms h(2) * by (intro lseg_cong) (cases ys; auto simp: list_heap dlist_def)+
  with h 1 assms show ?thesis by (auto simp: dlist_def)
qed

lemma dlist_insert_before:
  assumes "dlist h q xs" "node \<noteq> q" "node \<notin> set xs"
  shows "dlist (list_insert_before q node h) q (xs @ [node])"
  using assms lseg_insert_before_last [of h q xs q node] by (auto simp: dlist_def)

lemma dlist_remove:
  assumes "dlist h q (xs @ node # ys)"
  shows "dlist (list_remove node h) q (xs @ ys)"
proof -
  let ?h = "list_remove node h"
  from assms have h: "lseg h q xs node" "lseg h node ys q"
    and d: "distinct (q # xs @ node # ys)" by (auto simp: dlist_def)
  from h have p: "prev h node = last (q # xs)" and n: "nxt h node = hd (ys @ [q])"
    by (blast dest: lseg_prevD lseg_nextD)+
  have "last (q # xs) \<in> set (q # xs)" by (rule last_in_set) simp
  with p d have pn: "prev h node \<notin> set ys" by auto
  have "lseg ?h q (xs @ ys) q"
  proof (cases ys)
    case Nil
    show ?thesis
    proof (cases xs rule: rev_exhaust)
      case Nil
      with \<open>ys = []\<close> p n show ?thesis by (auto simp: list_heap)
    next
      case (snoc zs z)
      have "lseg ?h q zs z = lseg h q zs z"
        using d snoc p n \<open>ys = []\<close> by (intro lseg_cong) (auto simp: list_heap)
      with snoc h p n \<open>ys = []\<close> d show ?thesis by (auto simp: list_heap)
    qed
  next
    case (Cons y zs)
    with h have "lseg h y zs q" by simp
    have 1: "lseg ?h y zs q = lseg h y zs q"
      using d Cons pn n by (intro lseg_cong) (auto simp: list_heap)
    show ?thesis
    proof (cases xs rule: rev_exhaust)
      case Nil
      with 1 Cons \<open>lseg h y zs q\<close> p n d show ?thesis by (auto simp: list_heap)
    next
      case (snoc ws w)
      have "lseg ?h q ws w = lseg h q ws w"
        using d snoc Cons p n by (intro lseg_cong) (auto simp: list_heap)
      with snoc 1 Cons h \<open>lseg h y zs q\<close> p n d show ?thesis by (auto simp: list_heap)
    qed
  qed
  with d show ?thesis by (auto simp: dlist_def)
qed

lemma list_size_loop_lseg:
  assumes "lseg h a xs b" "b \<notin> set xs"
  shows "list_size_loop h b (nxt h a) n = Some (n + of_nat (length xs))"
  using assms
proof (induction xs arbitrary: a n)
  case Nil
  then show ?case by (simp add: list_size_loop.simps)
next
  case (Cons x xs)
  then have "list_size_loop h b (nxt h x) (n + 1) = Some (n + 1 + of_nat (length xs))"
    by (intro Cons.IH) auto
  with Cons.prems show ?case
    by (subst list_size_loop.simps) (auto simp: algebra_simps)
qed

lemma dlist_list_size: "dlist h q xs \<Longrightarrow> list_size q h = Some (of_nat (length xs))"
  using list_size_loop_lseg [of h q xs q 0] by (auto simp: dlist_def list_size_def)

section \<open>Several lists in one heap\<close>

text \<open>
  \<open>dlists h H f\<close>: each head \<open>q\<close> of \<open>H\<close> carries the ring \<open>f q\<close>, and the rings are disjoint.  The
  clients keep arrays of free lists; every operation touches one ring and leaves the others.
\<close>

definition dlists :: "'n list_node \<Rightarrow> 'n set \<Rightarrow> ('n \<Rightarrow> 'n list) \<Rightarrow> bool" where
  "dlists h H f \<longleftrightarrow> (\<forall>q \<in> H. dlist h q (f q)) \<and>
     (\<forall>q \<in> H. \<forall>r \<in> H. q \<noteq> r \<longrightarrow> set (q # f q) \<inter> set (r # f r) = {})"

definition nodes_of :: "'n set \<Rightarrow> ('n \<Rightarrow> 'n list) \<Rightarrow> 'n set" where
  "nodes_of H f = H \<union> (\<Union>q \<in> H. set (f q))"

lemma dlists_dlist: "dlists h H f \<Longrightarrow> q \<in> H \<Longrightarrow> dlist h q (f q)"
  by (simp add: dlists_def)

lemma dlists_disjoint:
  "dlists h H f \<Longrightarrow> q \<in> H \<Longrightarrow> r \<in> H \<Longrightarrow> x \<in> set (f q) \<Longrightarrow> x \<in> set (f r) \<Longrightarrow> q = r"
  by (fastforce simp: dlists_def)

text \<open>Initialising an array of heads gives empty rings.\<close>

lemma fold_list_init:
  "nxt (fold list_init qs h) x = (if x \<in> set qs then x else nxt h x)"
  "prev (fold list_init qs h) x = (if x \<in> set qs then x else prev h x)"
  by (induction qs arbitrary: h) (auto simp: list_heap)

lemma dlists_fold_init: "dlists (fold list_init qs h) (set qs) (\<lambda>_. [])"
  by (simp add: dlists_def dlist_def fold_list_init)

text \<open>An operation that changes one ring and writes only to nodes of it and to new nodes.\<close>

lemma dlists_update:
  assumes D: "dlists h H f" and q: "q \<in> H" and new: "dlist h' q ys"
    and frame: "\<And>x. x \<notin> insert q (set (f q)) \<Longrightarrow> x \<notin> N \<Longrightarrow> nxt h' x = nxt h x \<and> prev h' x = prev h x"
    and N: "N \<inter> nodes_of H f = {}" and ys: "set ys \<subseteq> set (f q) \<union> N"
  shows "dlists h' H (f(q := ys))"
proof -
  have sep: "set (q # f q) \<inter> set (r # f r) = {}" if "r \<in> H" "r \<noteq> q" for r
    using D q that by (auto simp: dlists_def)
  have old: "dlist h' r (f r)" if r: "r \<in> H" "r \<noteq> q" for r
  proof -
    have "\<forall>x \<in> insert r (set (f r)). nxt h' x = nxt h x \<and> prev h' x = prev h x"
    proof
      fix x assume x: "x \<in> insert r (set (f r))"
      then have "x \<notin> insert q (set (f q))" using sep [OF r] by auto
      moreover have "x \<notin> N" using x r N by (auto simp: nodes_of_def)
      ultimately show "nxt h' x = nxt h x \<and> prev h' x = prev h x" by (rule frame)
    qed
    then show ?thesis using D r by (subst dlist_cong) (auto simp: dlists_def)
  qed
  have ys_sep: "set (q # ys) \<inter> set (r # f r) = {}" if "r \<in> H" "r \<noteq> q" for r
    using sep [OF that] ys N that q by (auto simp: nodes_of_def)
  show ?thesis
    unfolding dlists_def using new old ys_sep D
    by (auto simp: dlists_def)
qed

lemma dlists_insert:
  assumes D: "dlists h H f" and q: "q \<in> H" and x: "x \<notin> nodes_of H f"
  shows "dlists (list_insert q x h) H (f(q := x # f q))"
proof (rule dlists_update [OF D q, where N = "{x}"])
  from D q have d: "dlist h q (f q)" by (rule dlists_dlist)
  with x q show "dlist (list_insert q x h) q (x # f q)"
    by (intro dlist_insert) (auto simp: nodes_of_def)
  fix y assume "y \<notin> insert q (set (f q))" "y \<notin> {x}"
  moreover have "nxt h q \<in> insert q (set (f q))" using d by (cases "f q") (auto simp: dlist_def)
  ultimately show "nxt (list_insert q x h) y = nxt h y \<and> prev (list_insert q x h) y = prev h y"
    by (auto simp: list_heap)
qed (use x in auto)

lemma dlists_insert_tail:
  assumes D: "dlists h H f" and q: "q \<in> H" and x: "x \<notin> nodes_of H f"
  shows "dlists (list_insert_tail q x h) H (f(q := f q @ [x]))"
proof (rule dlists_update [OF D q, where N = "{x}"])
  from D q have d: "dlist h q (f q)" by (rule dlists_dlist)
  with x q show "dlist (list_insert_tail q x h) q (f q @ [x])"
    by (simp add: list_insert_tail_def) (intro dlist_insert_before, auto simp: nodes_of_def)
  fix y assume "y \<notin> insert q (set (f q))" "y \<notin> {x}"
  moreover have "prev h q \<in> insert q (set (f q))"
    using d by (cases "f q" rule: rev_exhaust) (auto simp: dlist_def)
  ultimately show "nxt (list_insert_tail q x h) y = nxt h y \<and>
      prev (list_insert_tail q x h) y = prev h y"
    by (auto simp: list_heap)
qed (use x in auto)

lemma dlist_neighbours:
  assumes "dlist h q (xs @ x # ys)"
  shows "nxt h x \<in> insert q (set (xs @ x # ys))" "prev h x \<in> insert q (set (xs @ x # ys))"
proof -
  from assms have "lseg h q xs x" "lseg h x ys q" by (auto simp: dlist_def)
  then have "prev h x = last (q # xs)" "nxt h x = hd (ys @ [q])"
    by (blast dest: lseg_prevD lseg_nextD)+
  moreover have "last (q # xs) \<in> set (q # xs)" by (rule last_in_set) simp
  moreover have "hd (ys @ [q]) \<in> set (ys @ [q])" by (rule hd_in_set) simp
  ultimately show "nxt h x \<in> insert q (set (xs @ x # ys))"
    "prev h x \<in> insert q (set (xs @ x # ys))" by auto
qed

lemma dlists_remove:
  assumes D: "dlists h H f" and q: "q \<in> H" and x: "x \<in> set (f q)"
  shows "dlists (list_remove x h) H (f(q := remove1 x (f q)))"
proof -
  obtain xs ys where f: "f q = xs @ x # ys" using x by (auto simp: in_set_conv_decomp)
  from D q have d: "dlist h q (xs @ x # ys)" by (metis dlists_dlist f)
  then have r: "remove1 x (f q) = xs @ ys" by (auto simp: f dlist_def remove1_append)
  show ?thesis unfolding r
  proof (rule dlists_update [OF D q, where N = "{}"])
    show "dlist (list_remove x h) q (xs @ ys)" using d by (rule dlist_remove)
    fix y assume "y \<notin> insert q (set (f q))"
    with f dlist_neighbours [OF d] show "nxt (list_remove x h) y = nxt h y \<and>
      prev (list_remove x h) y = prev h y"
      by (auto simp: list_heap)
  qed (use f in auto)
qed

lemma dlists_remove_next:
  assumes "dlists h H f" "q \<in> H" "f q = x # xs"
  shows "dlists (list_remove x h) H (f(q := xs))"
  using dlists_remove [OF assms(1,2), of x] assms(3) by simp

end
