(* ===== verification/Buddy.thy ===== *)
theory Buddy
  imports Prelude
begin

text \<open>
  What the two buddy allocators of the kernel have in common: \<^verbatim>\<open>mm/kmalloc.c\<close> (the early heap)
  and \<^verbatim>\<open>mm/page.c\<close> (physical pages).  A block of order \<open>k\<close> is a run of \<open>2 ^ k\<close> units that starts
  at a multiple of \<open>2 ^ k\<close>; its buddy is found by flipping bit \<open>k\<close> of its index.

  \<open>binv\<close> is the specification of a buddy system: the heads of the allocated blocks (\<open>A\<close>) and of
  the blocks on the free lists (\<open>f\<close>, one list per zone and order) tile the managed range.  The
  lemmas \<open>binv_take\<close>, \<open>binv_split\<close>, \<open>binv_merge\<close> and \<open>binv_put\<close> are the four moves both
  allocators are made of.
\<close>

section \<open>Blocks and buddies\<close>

definition region :: "nat \<Rightarrow> nat \<Rightarrow> nat set" where
  "region b k = {b ..< b + 2 ^ k}"

lemma region_head [simp, intro]: "b \<in> region b k"
  by (simp add: region_def)

lemma xor_power_add:
  fixes b k :: nat
  assumes "2 ^ Suc k dvd b"
  shows "b XOR 2 ^ k = b + 2 ^ k"
proof -
  have "\<not> bit b k" using assms by (auto simp: bit_iff_odd elim!: dvdE)
  then have "flip_bit k b = b + 2 ^ k"
    by (simp add: flip_bit_eq_if set_bit_eq)
  then show ?thesis by (simp add: flip_bit_eq_xor)
qed

lemma aligned_cases:
  fixes b k :: nat
  assumes "2 ^ k dvd b"
  obtains "2 ^ Suc k dvd b" | c where "b = c + 2 ^ k" "2 ^ Suc k dvd c"
proof -
  obtain m where m: "b = 2 ^ k * m" using assms by (rule dvdE)
  show thesis
  proof (cases "even m")
    case True
    then have "2 ^ Suc k dvd b" using m by (auto elim!: evenE)
    then show ?thesis by (rule that(1))
  next
    case False
    then obtain j where "m = 2 * j + 1" by (rule oddE)
    then have "b = 2 ^ Suc k * j + 2 ^ k" using m by (simp add: algebra_simps)
    then show ?thesis by (intro that(2) [of "2 ^ Suc k * j"]) auto
  qed
qed

lemma xor_power_bound:
  fixes b k n :: nat
  assumes "b < 2 ^ n" "k < n"
  shows "b XOR 2 ^ k < 2 ^ n"
proof -
  have "(2::nat) ^ k < 2 ^ n" using assms(2) by simp
  then have "take_bit n (b XOR 2 ^ k) = b XOR 2 ^ k"
    using assms(1) by (simp add: take_bit_xor take_bit_nat_eq_self)
  then show ?thesis by (metis take_bit_nat_less_exp)
qed

text \<open>A block and its buddy are the two halves of the block of the next order.\<close>

lemma buddy_pair:
  fixes b k :: nat
  assumes "2 ^ k dvd b"
  defines "c \<equiv> b XOR 2 ^ k"
  shows "c \<noteq> b" "2 ^ k dvd c" "c XOR 2 ^ k = b" "2 ^ Suc k dvd min b c"
    "max b c = min b c + 2 ^ k" "region (min b c) (Suc k) = region b k \<union> region c k"
    "region b k \<inter> region c k = {}"
proof -
  have inv: "c XOR 2 ^ k = b" by (simp add: c_def xor.assoc)
  have "c \<noteq> b \<and> 2 ^ k dvd c \<and> 2 ^ Suc k dvd min b c \<and> max b c = min b c + 2 ^ k"
    using assms(1)
  proof (cases rule: aligned_cases)
    case 1
    then have "c = b + 2 ^ k" unfolding c_def by (rule xor_power_add)
    with assms(1) 1 show ?thesis by simp
  next
    case (2 d)
    then have "d XOR 2 ^ k = b" by (simp add: xor_power_add)
    then have "c = (d XOR 2 ^ k) XOR 2 ^ k" unfolding c_def by simp
    then have "c = d" by (simp only: xor.assoc xor_self_eq xor.right_neutral)
    moreover have "2 ^ k dvd d" using 2 by (metis dvd_mult_left power_Suc2)
    ultimately show ?thesis using 2 by simp
  qed
  then show "c \<noteq> b" "2 ^ k dvd c" "2 ^ Suc k dvd min b c" "max b c = min b c + 2 ^ k" by auto
  then show "region (min b c) (Suc k) = region b k \<union> region c k" "region b k \<inter> region c k = {}"
    by (auto simp: region_def min_def max_def split: if_splits)
  show "c XOR 2 ^ k = b" by (rule inv)
qed

section \<open>Tilings\<close>

definition tiles :: "(nat \<Rightarrow> nat) \<Rightarrow> nat set \<Rightarrow> bool" where
  "tiles ord B \<longleftrightarrow> (\<forall>b \<in> B. 2 ^ ord b dvd b) \<and>
     (\<forall>b \<in> B. \<forall>c \<in> B. b \<noteq> c \<longrightarrow> region b (ord b) \<inter> region c (ord c) = {})"

definition cover :: "(nat \<Rightarrow> nat) \<Rightarrow> nat set \<Rightarrow> nat set" where
  "cover ord B = (\<Union>b \<in> B. region b (ord b))"

lemma tiles_aligned: "tiles ord B \<Longrightarrow> b \<in> B \<Longrightarrow> 2 ^ ord b dvd b"
  by (simp add: tiles_def)

lemma tiles_disjoint:
  "tiles ord B \<Longrightarrow> b \<in> B \<Longrightarrow> c \<in> B \<Longrightarrow> b \<noteq> c \<Longrightarrow> region b (ord b) \<inter> region c (ord c) = {}"
  by (simp add: tiles_def)

lemma tiles_subset: "tiles ord B \<Longrightarrow> A \<subseteq> B \<Longrightarrow> tiles ord A"
  unfolding tiles_def by (meson subsetD)

text \<open>Replacing some blocks by others that cover the same units keeps a tiling of the range.\<close>

lemma tiles_replace:
  assumes T: "tiles ord B" and sub: "N \<subseteq> B" and N': "tiles ord' N'"
    and cov: "cover ord' N' = cover ord N" and same: "\<forall>c \<in> B - N. ord' c = ord c"
  shows "tiles ord' (B - N \<union> N')" "cover ord' (B - N \<union> N') = cover ord B"
proof -
  have old: "region c (ord' c) \<inter> region n (ord' n) = {}" if c: "c \<in> B - N" and n: "n \<in> N'" for c n
  proof -
    have "region n (ord' n) \<subseteq> cover ord N" using cov n by (auto simp: cover_def)
    moreover have "region c (ord c) \<inter> cover ord N = {}"
      using tiles_disjoint [OF T, of c] sub c by (fastforce simp: cover_def)
    ultimately show ?thesis using same c by auto
  qed
  show "tiles ord' (B - N \<union> N')"
    unfolding tiles_def
  proof (intro conjI ballI impI)
    fix c assume "c \<in> B - N \<union> N'"
    then show "2 ^ ord' c dvd c" using T N' same by (auto simp: tiles_def)
  next
    fix c d assume c: "c \<in> B - N \<union> N'" and d: "d \<in> B - N \<union> N'" and "c \<noteq> d"
    then show "region c (ord' c) \<inter> region d (ord' d) = {}"
      using old [of c d] old [of d c] tiles_disjoint [OF T, of c d] tiles_disjoint [OF N', of c d] same
      by (cases "c \<in> N'"; cases "d \<in> N'") auto
  qed
  have "cover ord' (B - N \<union> N') = cover ord' (B - N) \<union> cover ord' N'" by (auto simp: cover_def)
  also have "cover ord' (B - N) = cover ord (B - N)" using same by (auto simp: cover_def)
  also have "cover ord (B - N) \<union> cover ord' N' = cover ord B"
    using cov sub by (auto simp: cover_def)
  finally show "cover ord' (B - N \<union> N') = cover ord B" .
qed

lemma tiles_split:
  assumes T: "tiles ord B" and b: "b \<in> B" "ord b = Suc k"
  defines "c \<equiv> b XOR 2 ^ k"
  shows "c \<notin> B" "c = b + 2 ^ k" "tiles (ord(b := k, c := k)) (insert c B)"
    "cover (ord(b := k, c := k)) (insert c B) = cover ord B"
proof -
  have al: "2 ^ Suc k dvd b" using tiles_aligned [OF T b(1)] b(2) by simp
  then show c: "c = b + 2 ^ k" unfolding c_def by (rule xor_power_add)
  have bk: "2 ^ k dvd b" using al by (metis dvd_mult_left power_Suc2)
  note pr = buddy_pair [OF bk, folded c_def]
  have "c \<in> region b (ord b)" using c b(2) by (simp add: region_def)
  then show cB: "c \<notin> B" using tiles_disjoint [OF T b(1), of c] pr(1) by auto
  have reg: "region b (Suc k) = region b k \<union> region c k"
    using pr(6) c by (simp add: min_def)
  have N': "tiles (ord(b := k, c := k)) {b, c}"
    using bk pr by (auto simp: tiles_def)
  have "cover (ord(b := k, c := k)) {b, c} = cover ord {b}"
    using pr(1) reg b(2) by (auto simp: cover_def)
  note r = tiles_replace [OF T _ N' this]
  have "B - {b} \<union> {b, c} = insert c B" using b by auto
  with r b cB show "tiles (ord(b := k, c := k)) (insert c B)"
    "cover (ord(b := k, c := k)) (insert c B) = cover ord B" by auto
qed

lemma tiles_merge:
  assumes T: "tiles ord B" and b: "b \<in> B" "ord b = k"
  defines "c \<equiv> b XOR 2 ^ k"
  assumes c: "c \<in> B" "ord c = k"
  shows "tiles (ord(min b c := Suc k)) (B - {b, c} \<union> {min b c})"
    "cover (ord(min b c := Suc k)) (B - {b, c} \<union> {min b c}) = cover ord B"
proof -
  have bk: "2 ^ k dvd b" using tiles_aligned [OF T b(1)] b(2) by simp
  note pr = buddy_pair [OF bk, folded c_def]
  have N': "tiles (ord(min b c := Suc k)) {min b c}" using pr(4) by (simp add: tiles_def)
  have cv: "cover (ord(min b c := Suc k)) {min b c} = cover ord {b, c}"
    using pr(6) b c by (simp add: cover_def)
  have "\<forall>d \<in> B - {b, c}. (ord(min b c := Suc k)) d = ord d" by (auto simp: min_def)
  with tiles_replace [OF T _ N' cv] b c show
    "tiles (ord(min b c := Suc k)) (B - {b, c} \<union> {min b c})"
    "cover (ord(min b c := Suc k)) (B - {b, c} \<union> {min b c}) = cover ord B" by auto
qed

text \<open>
  The index of the buddy of a block is the head of a block of the same or a lower order, as soon
  as it is managed at all.  It need not be of the same order: the buddy may have been split.
\<close>

lemma tiles_buddy_head:
  assumes T: "tiles ord B" and b: "b \<in> B" "ord b = k"
    and c: "b XOR 2 ^ k \<in> cover ord B"
  shows "b XOR 2 ^ k \<in> B \<and> ord (b XOR 2 ^ k) \<le> k"
proof -
  let ?c = "b XOR 2 ^ k"
  have bk: "2 ^ k dvd b" using tiles_aligned [OF T b(1)] b(2) by simp
  note pr = buddy_pair [OF bk]
  obtain d where d: "d \<in> B" "?c \<in> region d (ord d)" using c by (auto simp: cover_def)
  have nd: "d \<noteq> b"
  proof
    assume "d = b"
    then have "?c \<in> region b k \<inter> region ?c k" using d b by auto
    then show False using pr(7) by simp
  qed
  then have dis: "region d (ord d) \<inter> region b k = {}"
    using tiles_disjoint [OF T d(1) b(1)] b by simp
  have "ord d \<le> k"
  proof (rule ccontr)
    assume "\<not> ord d \<le> k"
    then have "2 ^ Suc k dvd (2::nat) ^ ord d" by (intro le_imp_power_dvd) simp
    then have "2 ^ Suc k dvd d" and l: "(2::nat) ^ Suc k dvd 2 ^ ord d"
      using tiles_aligned [OF T d(1)] by (auto intro: dvd_trans)
    moreover have "2 ^ Suc k dvd min b ?c" by (rule pr(4))
    moreover have "min b ?c < d + 2 ^ ord d" using d(2) by (auto simp: region_def)
    moreover have "d < min b ?c + 2 ^ Suc k"
    proof -
      have "d \<le> max b ?c" using d(2) by (simp add: region_def le_max_iff_disj)
      also have "\<dots> = min b ?c + 2 ^ k" by (rule pr(5))
      also have "\<dots> < min b ?c + 2 ^ Suc k" by simp
      finally show ?thesis .
    qed
    ultimately obtain x y z where "d = 2 ^ Suc k * x" "(2::nat) ^ ord d = 2 ^ Suc k * y"
      "min b ?c = 2 ^ Suc k * z" by (auto elim!: dvdE)
    then have "z < x + y" "x < z + 1"
      using \<open>min b ?c < d + 2 ^ ord d\<close> \<open>d < min b ?c + 2 ^ Suc k\<close>
      by (metis distrib_left mult_less_cancel1, metis distrib_left mult_less_cancel1 mult.right_neutral)
    then have "x \<le> z" "z + 1 \<le> x + y" by auto
    then have "d \<le> min b ?c" "min b ?c + 2 ^ Suc k \<le> d + 2 ^ ord d"
      using \<open>d = _\<close> \<open>2 ^ ord d = _\<close> \<open>min b ?c = _\<close>
      by (metis mult_le_mono2, metis distrib_left mult.right_neutral mult_le_mono2)
    moreover have "b < min b ?c + 2 ^ Suc k"
    proof -
      have "b \<le> max b ?c" by simp
      also have "\<dots> = min b ?c + 2 ^ k" by (rule pr(5))
      also have "\<dots> < min b ?c + 2 ^ Suc k" by simp
      finally show ?thesis .
    qed
    ultimately have "b \<in> region d (ord d)" by (simp add: region_def)
    then show False using dis by auto
  qed
  moreover have "?c = d"
  proof -
    have "2 ^ ord d dvd ?c" using \<open>ord d \<le> k\<close> pr(2) by (meson dvd_trans le_imp_power_dvd)
    moreover have "2 ^ ord d dvd d" by (rule tiles_aligned [OF T d(1)])
    moreover have "d \<le> ?c" "?c < d + 2 ^ ord d" using d(2) by (auto simp: region_def)
    ultimately have "2 ^ ord d dvd ?c - d" "?c - d < 2 ^ ord d" by auto
    then show ?thesis using \<open>d \<le> ?c\<close> by (auto dest: nat_dvd_not_less)
  qed
  ultimately show ?thesis using d by simp
qed

section \<open>The invariant of a buddy system\<close>

declare split_paired_All [simp del] split_paired_Ex [simp del]

text \<open>
  \<open>f (z, k)\<close> is the free list of zone \<open>z\<close> and order \<open>k\<close>; \<open>A\<close> is the set of heads of allocated
  blocks, \<open>M\<close> the highest order and \<open>R\<close> the set of managed units.
\<close>

definition heads :: "('z \<times> nat \<Rightarrow> nat list) \<Rightarrow> nat set \<Rightarrow> nat set" where
  "heads f A = A \<union> (\<Union>p. set (f p))"

definition binv ::
  "nat \<Rightarrow> nat set \<Rightarrow> (nat \<Rightarrow> nat) \<Rightarrow> ('z \<times> nat \<Rightarrow> nat list) \<Rightarrow> nat set \<Rightarrow> bool" where
  "binv M R ord f A \<longleftrightarrow>
     (\<forall>p. distinct (f p)) \<and> (\<forall>p q. p \<noteq> q \<longrightarrow> set (f p) \<inter> set (f q) = {}) \<and>
     (\<forall>p. set (f p) \<inter> A = {}) \<and> (\<forall>z k. \<forall>b \<in> set (f (z, k)). ord b = k) \<and>
     (\<forall>b \<in> heads f A. ord b \<le> M) \<and> tiles ord (heads f A) \<and> cover ord (heads f A) = R"

lemma binvD:
  assumes "binv M R ord f A"
  shows "tiles ord (heads f A)" "cover ord (heads f A) = R" "b \<in> heads f A \<Longrightarrow> ord b \<le> M"
    "b \<in> set (f (z, k)) \<Longrightarrow> ord b = k" "b \<in> set (f p) \<Longrightarrow> b \<notin> A" "distinct (f p)"
    "b \<in> set (f p) \<Longrightarrow> b \<in> set (f q) \<Longrightarrow> p = q"
  using assms by (auto simp: binv_def)

lemma binv_take:
  assumes I: "binv M R ord f A" and f: "f p = b # bs"
  shows "binv M R ord (f(p := bs)) (insert b A)"
proof -
  define g where "g = f(p := bs)"
  have b: "b \<in> set (f p)" "b \<notin> set bs" using f binvD(6) [OF I, of p] by auto
  have mem: "x \<in> set (g q) \<longleftrightarrow> x \<in> set (f q) \<and> x \<noteq> b" for x q
  proof (cases "q = p")
    case True
    then show ?thesis using f b by (auto simp: g_def)
  next
    case False
    then have "b \<notin> set (f q)" using b(1) binvD(7) [OF I] by metis
    with False show ?thesis by (auto simp: g_def)
  qed
  have "(\<Union>p. set (g p)) = (\<Union>p. set (f p)) - {b}" by (auto simp: mem)
  then have h: "heads g (insert b A) = heads f A"
    using b(1) by (auto simp: heads_def)
  have "binv M R ord g (insert b A)"
    unfolding binv_def h
  proof (intro conjI)
    show "\<forall>p. distinct (g p)" using binvD(6) [OF I] binvD(6) [OF I, of p] f by (simp add: g_def)
    show "\<forall>p q. p \<noteq> q \<longrightarrow> set (g p) \<inter> set (g q) = {}"
      using binvD(7) [OF I] by (auto simp: mem)
    show "\<forall>p. set (g p) \<inter> insert b A = {}" using binvD(5) [OF I] by (auto simp: mem)
    show "\<forall>z k. \<forall>b \<in> set (g (z, k)). ord b = k" using binvD(4) [OF I] by (auto simp: mem)
  qed (use I in \<open>auto simp: binv_def\<close>)
  then show ?thesis by (simp add: g_def)
qed

lemma binv_put:
  assumes I: "binv M R ord f A" and b: "b \<in> A" and k: "ord b = k"
  shows "binv M R ord (f((z, k) := b # f (z, k))) (A - {b})"
proof -
  have h: "heads (f((z, k) := b # f (z, k))) (A - {b}) = heads f A"
    using b by (auto simp: heads_def split: if_splits)
  have "b \<notin> set (f p)" for p using b binvD(5) [OF I] by blast
  then show ?thesis
    unfolding binv_def h using I b k by (auto simp: binv_def)
qed

lemma binv_split:
  assumes I: "binv M R ord f A" and b: "b \<in> A" "ord b = Suc k"
  defines "c \<equiv> b XOR 2 ^ k"
  shows "binv M R (ord(b := k, c := k)) (f((z, k) := c # f (z, k))) A"
    and "c \<notin> heads f A" "c = b + 2 ^ k" "c \<in> R"
proof -
  let ?f = "f((z, k) := c # f (z, k))" and ?o = "ord(b := k, c := k)"
  have bh: "b \<in> heads f A" using b by (simp add: heads_def)
  note sp = tiles_split [OF binvD(1) [OF I] bh b(2), folded c_def]
  show c: "c \<notin> heads f A" "c = b + 2 ^ k" by (rule sp(1), rule sp(2))
  have "c \<in> region b (ord b)" using c b by (simp add: region_def)
  then show "c \<in> R" using binvD(2) [OF I] bh by (auto simp: cover_def)
  have h: "heads ?f A = insert c (heads f A)" by (auto simp: heads_def split: if_splits)
  have cf: "c \<notin> set (f p)" "c \<notin> A" for p using c(1) by (auto simp: heads_def)
  have bf: "b \<notin> set (f p)" for p using b binvD(5) [OF I] by blast
  have le: "Suc k \<le> M" using binvD(3) [OF I bh] b by simp
  show "binv M R ?o ?f A"
    unfolding binv_def h
  proof (intro conjI)
    show "\<forall>d \<in> insert c (heads f A). ?o d \<le> M" using I le by (auto simp: binv_def)
    show "tiles ?o (insert c (heads f A))" by (rule sp(3))
    show "cover ?o (insert c (heads f A)) = R" using sp(4) binvD(2) [OF I] by simp
  qed (use I cf bf in \<open>auto simp: binv_def\<close>)
qed

lemma binv_merge:
  assumes I: "binv M R ord f A" and b: "b \<in> A" "ord b = k" "k < M"
  defines "c \<equiv> b XOR 2 ^ k"
  assumes c: "c \<in> set (f (z, k))"
  shows "binv M R (ord(min b c := Suc k)) (f((z, k) := remove1 c (f (z, k)))) (A - {b} \<union> {min b c})"
proof -
  define g where "g = f((z, k) := remove1 c (f (z, k)))"
  let ?o = "ord(min b c := Suc k)" and ?A = "A - {b} \<union> {min b c}"
  have bh: "b \<in> heads f A" and ch: "c \<in> heads f A" using b c by (auto simp: heads_def)
  have oc: "ord c = k" using c binvD(4) [OF I] by blast
  note mg = tiles_merge [OF binvD(1) [OF I] bh b(2), folded c_def, OF ch oc]
  have d: "distinct (f p)" for p using binvD(6) [OF I] .
  have cA: "c \<notin> A" using c binvD(5) [OF I] by blast
  have bf: "b \<notin> set (f p)" for p using b binvD(5) [OF I] by blast
  have mem: "x \<in> set (g p) \<longleftrightarrow> x \<in> set (f p) \<and> x \<noteq> c" for x p
  proof (cases "p = (z, k)")
    case True
    then show ?thesis using d [of "(z, k)"] by (simp add: g_def)
  next
    case False
    then have "c \<notin> set (f p)" using c binvD(7) [OF I] by metis
    with False show ?thesis by (auto simp: g_def)
  qed
  have "(\<Union>p. set (g p)) = (\<Union>p. set (f p)) - {c}" by (auto simp: mem)
  then have h: "heads g ?A = heads f A - {b, c} \<union> {min b c}"
    using cA bf by (auto simp: heads_def)
  have m: "min b c = b \<or> min b c = c" by (auto simp: min_def)
  have "binv M R ?o g ?A"
    unfolding binv_def h
  proof (intro conjI)
    show "\<forall>p. distinct (g p)" using d by (simp add: g_def distinct_remove1)
    show "\<forall>p q. p \<noteq> q \<longrightarrow> set (g p) \<inter> set (g q) = {}"
      using binvD(7) [OF I] by (auto simp: mem)
    show "\<forall>p. set (g p) \<inter> ?A = {}"
      using m bf binvD(5) [OF I] by (auto simp: mem)
    show "\<forall>z k. \<forall>x \<in> set (g (z, k)). ?o x = k"
    proof (intro allI ballI)
      fix z' j x assume "x \<in> set (g (z', j))"
      then have "x \<in> set (f (z', j))" "x \<noteq> c" "x \<noteq> b" using bf by (auto simp: mem)
      then show "?o x = j" using m binvD(4) [OF I] by auto
    qed
    show "\<forall>x \<in> heads f A - {b, c} \<union> {min b c}. ?o x \<le> M"
      using b(3) binvD(3) [OF I] by auto
    show "tiles ?o (heads f A - {b, c} \<union> {min b c})" by (rule mg(1))
    show "cover ?o (heads f A - {b, c} \<union> {min b c}) = R" using mg(2) binvD(2) [OF I] by simp
  qed
  then show ?thesis by (simp add: g_def)
qed

text \<open>A block of fresh units may be added to a free list.\<close>

lemma binv_add:
  assumes I: "binv M R ord f A" and k: "2 ^ k dvd b" "k \<le> M" and new: "R \<inter> region b k = {}"
  shows "b \<notin> heads f A" "binv M (R \<union> region b k) (ord(b := k)) (f((z, k) := b # f (z, k))) A"
proof -
  let ?f = "f((z, k) := b # f (z, k))" and ?o = "ord(b := k)"
  have in_R: "region c (ord c) \<subseteq> R" if "c \<in> heads f A" for c
    using binvD(2) [OF I] that by (auto simp: cover_def)
  then show b: "b \<notin> heads f A" using new region_head by blast
  then have bf: "b \<notin> set (f p)" "b \<notin> A" for p by (auto simp: heads_def)
  have h: "heads ?f A = insert b (heads f A)" by (auto simp: heads_def split: if_splits)
  have o: "?o c = ord c" if "c \<in> heads f A" for c using that b by auto
  have dis: "region c (ord c) \<inter> region b k = {}" if "c \<in> heads f A" for c
    using in_R [OF that] new by auto
  show "binv M (R \<union> region b k) ?o ?f A"
    unfolding binv_def h
  proof (intro conjI)
    show "\<forall>c \<in> insert b (heads f A). ?o c \<le> M" using I k(2) by (auto simp: binv_def)
    show "tiles ?o (insert b (heads f A))"
      unfolding tiles_def
    proof (intro conjI ballI impI)
      fix c assume "c \<in> insert b (heads f A)"
      then show "2 ^ ?o c dvd c" using k(1) tiles_aligned [OF binvD(1) [OF I]] by auto
    next
      fix c d assume "c \<in> insert b (heads f A)" "d \<in> insert b (heads f A)" "c \<noteq> d"
      then show "region c (?o c) \<inter> region d (?o d) = {}"
        using tiles_disjoint [OF binvD(1) [OF I], of c d] dis [of c] dis [of d] by auto
    qed
    have "cover ?o (insert b (heads f A)) = region b k \<union> cover ord (heads f A)"
      using o b by (auto simp: cover_def)
    then show "cover ?o (insert b (heads f A)) = R \<union> region b k" using binvD(2) [OF I] by auto
  qed (use I bf in \<open>auto simp: binv_def\<close>)
qed

lemma binv_buddy_head:
  assumes I: "binv M R ord f A" and b: "b \<in> A" and c: "b XOR 2 ^ ord b \<in> R"
  shows "b XOR 2 ^ ord b \<in> heads f A" "ord (b XOR 2 ^ ord b) \<le> ord b"
proof -
  have "b \<in> heads f A" using b by (simp add: heads_def)
  with tiles_buddy_head [OF binvD(1) [OF I], of b "ord b"] c binvD(2) [OF I]
  show "b XOR 2 ^ ord b \<in> heads f A" "ord (b XOR 2 ^ ord b) \<le> ord b" by auto
qed

section \<open>The contract of a block allocator\<close>

text \<open>
  The interface through which the rest of the kernel sees a buddy allocator: \<open>alloc k\<close> returns the
  index of a block of order \<open>k\<close> or reports that there is none, \<open>free b\<close> gives a block back.
  \<open>inv s A\<close> is the provider's invariant with \<open>A\<close> the set of blocks that are allocated;
  \<open>free_ok s b\<close> is the condition under which the provider promises anything about freeing \<open>b\<close>.
  \<open>btrace\<close> is a run of a client of this interface.
\<close>

inductive btrace ::
  "(nat \<Rightarrow> 's \<Rightarrow> (nat option \<times> 's) option) \<Rightarrow> (nat \<Rightarrow> 's \<Rightarrow> 's option) \<Rightarrow> ('s \<Rightarrow> nat \<Rightarrow> bool) \<Rightarrow>
   nat \<Rightarrow> 's \<Rightarrow> nat set \<Rightarrow> 's \<Rightarrow> nat set \<Rightarrow> bool"
  for alloc free free_ok M where
  btrace_refl: "btrace alloc free free_ok M s A s A"
| btrace_alloc: "btrace alloc free free_ok M s A t B \<Longrightarrow> k \<le> M \<Longrightarrow> alloc k t = Some (Some b, u) \<Longrightarrow>
    btrace alloc free free_ok M s A u (insert b B)"
| btrace_none: "btrace alloc free free_ok M s A t B \<Longrightarrow> k \<le> M \<Longrightarrow> alloc k t = Some (None, u) \<Longrightarrow>
    btrace alloc free free_ok M s A u B"
| btrace_free: "btrace alloc free free_ok M s A t B \<Longrightarrow> b \<in> B \<Longrightarrow> free_ok t b \<Longrightarrow> free b t = Some u \<Longrightarrow>
    btrace alloc free free_ok M s A u (B - {b})"

locale block_allocator =
  fixes alloc :: "nat \<Rightarrow> 's \<Rightarrow> (nat option \<times> 's) option"
    and free :: "nat \<Rightarrow> 's \<Rightarrow> 's option"
    and free_ok :: "'s \<Rightarrow> nat \<Rightarrow> bool"
    and M :: nat
    and inv :: "'s \<Rightarrow> nat set \<Rightarrow> bool"
    and ord :: "'s \<Rightarrow> nat \<Rightarrow> nat"
  assumes inv_tiles: "inv s A \<Longrightarrow> tiles (ord s) A"
    and alloc_total: "inv s A \<Longrightarrow> k \<le> M \<Longrightarrow> \<exists>r t. alloc k s = Some (r, t)"
    and alloc_some: "inv s A \<Longrightarrow> k \<le> M \<Longrightarrow> alloc k s = Some (Some b, t) \<Longrightarrow>
      b \<notin> A \<and> ord t b = k \<and> inv t (insert b A) \<and> (\<forall>a \<in> A. ord t a = ord s a)"
    and alloc_none: "inv s A \<Longrightarrow> k \<le> M \<Longrightarrow> alloc k s = Some (None, t) \<Longrightarrow> t = s"
    and free_safe: "inv s A \<Longrightarrow> b \<in> A \<Longrightarrow> free_ok s b \<Longrightarrow>
      \<exists>t. free b s = Some t \<and> inv t (A - {b}) \<and> (\<forall>a \<in> A - {b}. ord t a = ord s a)"
begin

lemma trace_inv:
  assumes "btrace alloc free free_ok M s A t B" "inv s A"
  shows "inv t B"
  using assms
proof (induction rule: btrace.induct)
  case (btrace_alloc s A t B k b u)
  then show ?case using alloc_some by blast
next
  case (btrace_none s A t B k u)
  then show ?case using alloc_none by blast
next
  case (btrace_free s A t B b u)
  then show ?case using free_safe [of t B b] by auto
qed

lemma trace_disjoint:
  assumes "btrace alloc free free_ok M s A t B" "inv s A" "a \<in> B" "b \<in> B" "a \<noteq> b"
  shows "region a (ord t a) \<inter> region b (ord t b) = {}"
  using assms trace_inv inv_tiles tiles_disjoint by meson

lemma alloc_fresh_region:
  assumes "inv s A" "k \<le> M" "alloc k s = Some (Some b, t)" "a \<in> A"
  shows "region b k \<inter> region a (ord s a) = {}"
  using alloc_some [OF assms(1-3)] inv_tiles [of t "insert b A"] assms(4)
    tiles_disjoint [of "ord t" "insert b A" b a] by auto

end

end
