(* ===== verification/Kmalloc_Early.thy ===== *)
theory Kmalloc_Early
  imports Linked_List Bitops Buddy
begin

text \<open>
  The early heap of \<^verbatim>\<open>mm/kmalloc.c\<close>: a buddy allocator over the static array \<open>block_buffer\<close>, in
  units of \<open>MIN_SIZE\<close> bytes.  The state is the array \<open>blocks\<close> and the list nodes: the heads
  \<open>free_lists[i]\<close> and the node embedded in each \<^verbatim>\<open>struct block\<close>.  A block is named by its index in
  \<open>blocks\<close>.  Orders and indices stay below 13 and 4096, so they are natural numbers; addresses
  are 32-bit words.

  \<open>kmalloc_inv s A\<close> says that the free lists and the allocated blocks \<open>A\<close> tile the buffer.
  Allocation keeps it.  Freeing keeps it when every free buddy it merges with has the order of
  the block being merged (\<open>merge_ok\<close>), a test that the code does not make.
\<close>

section \<open>State and operations\<close>

datatype knode = FreeList nat | BlockNode nat

record block =
  blk_order :: nat
  blk_free :: bool

record kstate =
  blocks :: "nat \<Rightarrow> block"
  klists :: "knode list_node"
  block_buffer :: u32

definition MIN_SIZE :: nat where "MIN_SIZE = 8"
definition kmalloc_MAX_ORDER :: nat where "kmalloc_MAX_ORDER = 12"
definition MAX_SIZE :: nat where "MAX_SIZE = MIN_SIZE * 2 ^ kmalloc_MAX_ORDER"

named_theorems kmalloc_consts \<open>the size constants of the early heap\<close>

lemmas [kmalloc_consts] = MIN_SIZE_def kmalloc_MAX_ORDER_def MAX_SIZE_def

definition set_blk_order :: "nat \<Rightarrow> nat \<Rightarrow> kstate \<Rightarrow> kstate" where
  "set_blk_order b k s = s\<lparr>blocks := (blocks s)(b := (blocks s b)\<lparr>blk_order := k\<rparr>)\<rparr>"

definition set_blk_free :: "nat \<Rightarrow> bool \<Rightarrow> kstate \<Rightarrow> kstate" where
  "set_blk_free b v s = s\<lparr>blocks := (blocks s)(b := (blocks s b)\<lparr>blk_free := v\<rparr>)\<rparr>"

definition on_klists :: "(knode list_node \<Rightarrow> knode list_node) \<Rightarrow> kstate \<Rightarrow> kstate" where
  "on_klists g s = s\<lparr>klists := g (klists s)\<rparr>"

text \<open>\<open>block->order\<close> and \<open>block->free\<close>.\<close>

definition kord :: "kstate \<Rightarrow> nat \<Rightarrow> nat" where
  "kord s b = blk_order (blocks s b)"

definition kfree_flag :: "kstate \<Rightarrow> nat \<Rightarrow> bool" where
  "kfree_flag s b = blk_free (blocks s b)"

definition is_early_block_addr :: "kstate \<Rightarrow> u32 \<Rightarrow> bool" where
  "is_early_block_addr s addr \<longleftrightarrow>
     block_buffer s \<le> addr \<and> addr \<le> block_buffer s + of_nat MAX_SIZE"

definition block_buddy :: "nat \<Rightarrow> kstate \<Rightarrow> nat option" where
  "block_buddy block s =
     (let i = block XOR push_bit (kord s block) 1
      in do { assert (i < 2 ^ kmalloc_MAX_ORDER); Some i })"

definition index_to_addr :: "kstate \<Rightarrow> nat \<Rightarrow> u32" where
  "index_to_addr s index = block_buffer s + of_nat index * of_nat MIN_SIZE"

definition addr_to_index :: "kstate \<Rightarrow> u32 \<Rightarrow> nat" where
  "addr_to_index s addr = unat ((addr - block_buffer s) div of_nat MIN_SIZE)"

definition container_of_block :: "knode \<Rightarrow> nat option" where
  "container_of_block node = (case node of BlockNode b \<Rightarrow> Some b | FreeList _ \<Rightarrow> None)"

partial_function (option) alloc_split :: "nat \<Rightarrow> nat \<Rightarrow> kstate \<Rightarrow> kstate option" where
  "alloc_split order block s =
     (if order < kord s block then
        do {
          let s = set_blk_order block (kord s block - 1) s;
          buddy \<leftarrow> block_buddy block s;
          let s = set_blk_order buddy (kord s block) s;
          let s = set_blk_free buddy True s;
          let s = on_klists (list_insert (FreeList (kord s buddy)) (BlockNode buddy)) s;
          alloc_split order block s
        }
      else Some s)"

partial_function (option) alloc_scan ::
  "nat \<Rightarrow> nat \<Rightarrow> kstate \<Rightarrow> (nat option \<times> kstate) option" where
  "alloc_scan order i s =
     (if i \<le> kmalloc_MAX_ORDER then
        if \<not> list_empty (FreeList i) (klists s) then
          do {
            let node = list_next (FreeList i) (klists s);
            let s = on_klists (list_remove node) s;
            block \<leftarrow> container_of_block node;
            assert (i = kord s block);
            s \<leftarrow> alloc_split order block s;
            let s = set_blk_free block False s;
            Some (Some block, s)
          }
        else alloc_scan order (i + 1) s
      else Some (None, s))"

definition alloc_blocks :: "nat \<Rightarrow> kstate \<Rightarrow> (nat option \<times> kstate) option" where
  "alloc_blocks order s =
     do { assert (order \<le> kmalloc_MAX_ORDER); alloc_scan order order s }"

partial_function (option) free_merge :: "nat \<Rightarrow> kstate \<Rightarrow> (nat \<times> kstate) option" where
  "free_merge block s =
     (if kord s block < kmalloc_MAX_ORDER then
        do {
          buddy \<leftarrow> block_buddy block s;
          if \<not> kfree_flag s buddy then Some (block, s)
          else
            do {
              let s = on_klists (list_remove (BlockNode buddy)) s;
              let block = (if buddy < block then buddy else block);
              let s = set_blk_order block (kord s block + 1) s;
              free_merge block s
            }
        }
      else Some (block, s))"

definition free_blocks :: "nat \<Rightarrow> kstate \<Rightarrow> kstate option" where
  "free_blocks block s =
     do {
       (block, s) \<leftarrow> free_merge block s;
       let s = set_blk_free block True s;
       Some (on_klists (list_insert (FreeList (kord s block)) (BlockNode block)) s)
     }"

definition kmalloc_early :: "u32 \<Rightarrow> kstate \<Rightarrow> (u32 \<times> kstate) option" where
  "kmalloc_early sz s =
     do {
       let order = unat (ilog2_roundup (sz div of_nat MIN_SIZE));
       (block, s) \<leftarrow> alloc_blocks order s;
       case block of None \<Rightarrow> Some (0, s) | Some b \<Rightarrow> Some (index_to_addr s b, s)
     }"

definition kfree_early :: "u32 \<Rightarrow> kstate \<Rightarrow> kstate option" where
  "kfree_early ptr s =
     do {
       let offset = ptr - block_buffer s;
       assert (unat offset < MAX_SIZE \<and> offset AND (of_nat MIN_SIZE - 1) = 0);
       let index = addr_to_index s ptr;
       free_blocks index s
     }"

definition kmalloc_early_init :: "kstate \<Rightarrow> kstate" where
  "kmalloc_early_init s =
     (let s = fold (\<lambda>i. on_klists (list_init (FreeList i))) [0 ..< kmalloc_MAX_ORDER + 1] s;
          s = set_blk_order 0 kmalloc_MAX_ORDER s;
          s = set_blk_free 0 True s
      in on_klists (list_insert (FreeList kmalloc_MAX_ORDER) (BlockNode 0)) s)"

text \<open>The static data at start-up: zero-filled, the buffer at some address.\<close>

definition kmalloc_bss :: "u32 \<Rightarrow> kstate" where
  "kmalloc_bss base =
     \<lparr>blocks = (\<lambda>_. \<lparr>blk_order = 0, blk_free = False\<rparr>),
      klists = \<lparr>prev = (\<lambda>_. BlockNode 0), nxt = (\<lambda>_. BlockNode 0)\<rparr>,
      block_buffer = base\<rparr>"

declare alloc_split.simps [code] alloc_scan.simps [code] free_merge.simps [code]

section \<open>The invariant\<close>

lemma kstate_simps [simp]:
  "kord (set_blk_order b k s) = (kord s)(b := k)"
  "kfree_flag (set_blk_order b k s) = kfree_flag s"
  "kord (set_blk_free b v s) = kord s"
  "kfree_flag (set_blk_free b v s) = (kfree_flag s)(b := v)"
  "kord (on_klists g s) = kord s" "kfree_flag (on_klists g s) = kfree_flag s"
  "klists (on_klists g s) = g (klists s)"
  "klists (set_blk_order b k s) = klists s" "klists (set_blk_free b v s) = klists s"
  "block_buffer (set_blk_order b k s) = block_buffer s"
  "block_buffer (set_blk_free b v s) = block_buffer s"
  "block_buffer (on_klists g s) = block_buffer s"
  by (auto simp: set_blk_order_def set_blk_free_def on_klists_def kord_def kfree_flag_def
      fun_eq_iff)

definition kheads :: "knode set" where
  "kheads = FreeList ` {..kmalloc_MAX_ORDER}"

definition flists :: "(unit \<times> nat \<Rightarrow> nat list) \<Rightarrow> knode \<Rightarrow> knode list" where
  "flists f node = (case node of FreeList k \<Rightarrow> map BlockNode (f ((), k)) | BlockNode _ \<Rightarrow> [])"

definition krel :: "kstate \<Rightarrow> (unit \<times> nat \<Rightarrow> nat list) \<Rightarrow> bool" where
  "krel s f \<longleftrightarrow> dlists (klists s) kheads (flists f) \<and> (\<forall>p. \<forall>b \<in> set (f p). kfree_flag s b)"

abbreviation kbinv :: "kstate \<Rightarrow> (unit \<times> nat \<Rightarrow> nat list) \<Rightarrow> nat set \<Rightarrow> bool" where
  "kbinv s f A \<equiv> binv kmalloc_MAX_ORDER {0 ..< 2 ^ kmalloc_MAX_ORDER} (kord s) f A"

definition kmalloc_inv :: "kstate \<Rightarrow> nat set \<Rightarrow> bool" where
  "kmalloc_inv s A \<longleftrightarrow> (\<exists>f. kbinv s f A \<and> krel s f \<and> (\<forall>a \<in> A. \<not> kfree_flag s a))"

lemma flists_upd:
  "flists (f(((), k) := bs)) = (flists f)(FreeList k := map BlockNode bs)"
  by (auto simp: flists_def split: knode.splits)

lemma flists_FreeList [simp]: "flists f (FreeList k) = map BlockNode (f ((), k))"
  by (simp add: flists_def)

lemma kheads_iff [simp]: "FreeList k \<in> kheads \<longleftrightarrow> k \<le> kmalloc_MAX_ORDER" "BlockNode b \<notin> kheads"
  by (auto simp: kheads_def)

lemma BlockNode_in_nodes:
  "BlockNode b \<in> nodes_of kheads (flists f) \<Longrightarrow> b \<in> (\<Union>p. set (f p))"
  by (auto simp: nodes_of_def kheads_def)

lemma krel_insert:
  assumes "krel s f" "k \<le> kmalloc_MAX_ORDER" "b \<notin> (\<Union>p. set (f p))" "kfree_flag s b"
  shows "krel (on_klists (list_insert (FreeList k) (BlockNode b)) s) (f(((), k) := b # f ((), k)))"
proof -
  have "dlists (list_insert (FreeList k) (BlockNode b) (klists s)) kheads
    ((flists f)(FreeList k := BlockNode b # flists f (FreeList k)))"
    using assms BlockNode_in_nodes [of b f] by (intro dlists_insert) (simp_all add: krel_def, blast)
  then show ?thesis using assms by (auto simp: krel_def flists_upd)
qed

lemma krel_remove:
  assumes "krel s f" "k \<le> kmalloc_MAX_ORDER" "b \<in> set (f ((), k))"
  shows "krel (on_klists (list_remove (BlockNode b)) s) (f(((), k) := remove1 b (f ((), k))))"
proof -
  have "dlists (list_remove (BlockNode b) (klists s)) kheads
    ((flists f)(FreeList k := remove1 (BlockNode b) (flists f (FreeList k))))"
    using assms by (intro dlists_remove) (auto simp: krel_def)
  moreover have "remove1 (BlockNode b) (map BlockNode bs) = map BlockNode (remove1 b bs)" for bs
    by (induction bs) auto
  ultimately show ?thesis using assms by (auto simp: krel_def flists_upd dest: notin_set_remove1)
qed

lemma krel_cong: "krel s f \<Longrightarrow> klists t = klists s \<Longrightarrow> kfree_flag t = kfree_flag s \<Longrightarrow> krel t f"
  unfolding krel_def by metis

lemma krel_empty:
  assumes "krel s f" "k \<le> kmalloc_MAX_ORDER"
  shows "list_empty (FreeList k) (klists s) \<longleftrightarrow> f ((), k) = []"
proof -
  have "dlist (klists s) (FreeList k) (flists f (FreeList k))"
    using assms by (intro dlists_dlist) (auto simp: krel_def)
  then show ?thesis using dlist_list_empty by fastforce
qed

lemma krel_next:
  assumes "krel s f" "k \<le> kmalloc_MAX_ORDER" "f ((), k) = b # bs"
  shows "list_next (FreeList k) (klists s) = BlockNode b"
proof -
  have "dlist (klists s) (FreeList k) (flists f (FreeList k))"
    using assms by (intro dlists_dlist) (auto simp: krel_def)
  then show ?thesis using assms dlist_list_next by fastforce
qed

section \<open>Allocation\<close>

lemma alloc_split_correct:
  assumes "kbinv s f A" "krel s f" "b \<in> A" "kord s b = order + n"
  shows "\<exists>t g. alloc_split order b s = Some t \<and> kbinv t g A \<and> krel t g \<and> kord t b = order \<and>
    (\<forall>a \<in> A - {b}. kord t a = kord s a) \<and> (\<forall>a \<in> A. kfree_flag t a = kfree_flag s a) \<and>
    block_buffer t = block_buffer s"
  using assms
proof (induction n arbitrary: s f)
  case 0
  then have "alloc_split order b s = Some s" by (subst alloc_split.simps) simp
  with 0 show ?case by auto
next
  case (Suc n)
  define k where "k = order + n"
  define c where "c = b XOR 2 ^ k"
  let ?s1 = "set_blk_order b k s"
  let ?s2 = "set_blk_free c True (set_blk_order c k ?s1)"
  let ?s3 = "on_klists (list_insert (FreeList k) (BlockNode c)) ?s2"
  let ?g = "f(((), k) := c # f ((), k))"
  have ok: "kord s b = Suc k" using Suc.prems by (simp add: k_def)
  note sp1 = binv_split(1) [OF Suc.prems(1,3) ok, where z = "()", folded c_def]
  note sp = binv_split(2-4) [OF Suc.prems(1,3) ok, folded c_def]
  have kM: "k < kmalloc_MAX_ORDER"
    using binvD(3) [OF Suc.prems(1), of b] Suc.prems(3) ok by (simp add: heads_def)
  have bc: "b \<noteq> c" using sp(2) by simp
  have cA: "c \<notin> A" "c \<notin> (\<Union>p. set (f p))" using sp(1) by (auto simp: heads_def)
  have bud: "block_buddy b ?s1 = Some c"
    using sp(3) by (simp add: block_buddy_def c_def Let_def)
  have step: "alloc_split order b s = alloc_split order b ?s3"
    using ok bud bc by (subst alloc_split.simps) (simp add: k_def)
  have 1: "kbinv ?s3 ?g A" using sp1 by simp
  have "krel ?s2 f"
    using Suc.prems(2) cA(2) by (auto simp: krel_def)
  then have 2: "krel ?s3 ?g" using kM cA by (intro krel_insert) auto
  have "\<exists>t g. alloc_split order b ?s3 = Some t \<and> kbinv t g A \<and> krel t g \<and> kord t b = order \<and>
    (\<forall>a \<in> A - {b}. kord t a = kord ?s3 a) \<and> (\<forall>a \<in> A. kfree_flag t a = kfree_flag ?s3 a) \<and>
    block_buffer t = block_buffer ?s3"
    using bc by (intro Suc.IH [OF 1 2 Suc.prems(3)]) (simp add: k_def)
  moreover have "\<forall>a \<in> A - {b}. kord ?s3 a = kord s a" "\<forall>a \<in> A. kfree_flag ?s3 a = kfree_flag s a"
    "block_buffer ?s3 = block_buffer s"
    using cA by auto
  ultimately show ?case unfolding step by auto
qed

lemma alloc_scan_correct:
  assumes I: "kmalloc_inv s A" and "order \<le> i"
  shows "(alloc_scan order i s = Some (None, s) \<and>
      (\<forall>k. i \<le> k \<and> k \<le> kmalloc_MAX_ORDER \<longrightarrow> list_empty (FreeList k) (klists s))) \<or>
    (\<exists>b t. alloc_scan order i s = Some (Some b, t) \<and> b \<notin> A \<and> kmalloc_inv t (insert b A) \<and>
      kord t b = order \<and> (\<forall>a \<in> A. kord t a = kord s a) \<and> block_buffer t = block_buffer s)"
  using assms(2)
proof (induction "kmalloc_MAX_ORDER + 1 - i" arbitrary: i)
  case 0
  then have "alloc_scan order i s = Some (None, s)" by (subst alloc_scan.simps) simp
  with 0 show ?case by auto
next
  case (Suc n)
  then have iM: "i \<le> kmalloc_MAX_ORDER" by simp
  obtain f where f: "kbinv s f A" "krel s f" and nf: "\<forall>a \<in> A. \<not> kfree_flag s a"
    using I by (auto simp: kmalloc_inv_def)
  show ?case
  proof (cases "f ((), i)")
    case Nil
    then have e: "list_empty (FreeList i) (klists s)" using krel_empty [OF f(2) iM] by simp
    then have step: "alloc_scan order i s = alloc_scan order (i + 1) s"
      using iM by (subst alloc_scan.simps) simp
    have "k = i \<or> i + 1 \<le> k" if "i \<le> k" for k using that by auto
    then show ?thesis using Suc.hyps(1) [of "i + 1"] Suc.hyps(2) Suc.prems e unfolding step by fastforce
  next
    case (Cons b bs)
    let ?s1 = "on_klists (list_remove (BlockNode b)) s" and ?g = "f(((), i) := bs)"
    have ne: "\<not> list_empty (FreeList i) (klists s)" using krel_empty [OF f(2) iM] Cons by simp
    have nx: "list_next (FreeList i) (klists s) = BlockNode b" using f(2) iM Cons by (rule krel_next)
    have b: "b \<in> set (f ((), i))" using Cons by simp
    have bA: "b \<notin> A" and ob: "kord s b = i"
      using binvD(4,5) [OF f(1)] b by blast+
    have 1: "kbinv ?s1 ?g (insert b A)" using binv_take [OF f(1) Cons] by simp
    have 2: "krel ?s1 ?g" using krel_remove [OF f(2) iM b] Cons by simp
    have "kord ?s1 b = order + (i - order)" using ob Suc.prems by simp
    then obtain t g where t: "alloc_split order b ?s1 = Some t" "kbinv t g (insert b A)" "krel t g"
      "kord t b = order" "\<forall>a \<in> insert b A - {b}. kord t a = kord ?s1 a"
      "\<forall>a \<in> insert b A. kfree_flag t a = kfree_flag ?s1 a" "block_buffer t = block_buffer ?s1"
      using alloc_split_correct [OF 1 2, of b] by blast
    let ?t = "set_blk_free b False t"
    have "alloc_scan order i s = Some (Some b, ?t)"
      using iM ne nx ob t(1) by (subst alloc_scan.simps) (simp add: container_of_block_def)
    moreover have "b \<notin> set (g p)" for p using binvD(5) [OF t(2)] by blast
    then have "krel ?t g" using t(3) by (auto simp: krel_def)
    then have "kmalloc_inv ?t (insert b A)"
      unfolding kmalloc_inv_def using t nf by (intro exI [of _ g]) auto
    ultimately show ?thesis using bA t by auto
  qed
qed

section \<open>Freeing\<close>

text \<open>
  \<open>merge_ok s b k\<close>: while the block \<open>b\<close>, of order \<open>k\<close>, is merged upwards, every buddy that is
  flagged free has the order of the block it is merged with.  \<open>free_blocks\<close> looks at the flag only.
\<close>

function merge_ok :: "kstate \<Rightarrow> nat \<Rightarrow> nat \<Rightarrow> bool" where
  "merge_ok s b k =
     (if k < kmalloc_MAX_ORDER \<and> kfree_flag s (b XOR 2 ^ k)
      then kord s (b XOR 2 ^ k) = k \<and> merge_ok s (min b (b XOR 2 ^ k)) (Suc k)
      else True)"
  by pat_completeness auto
termination
  by (relation "measure (\<lambda>(s, b, k). kmalloc_MAX_ORDER - k)") auto

declare merge_ok.simps [simp del]

definition kfree_safe :: "kstate \<Rightarrow> nat \<Rightarrow> bool" where
  "kfree_safe s b \<longleftrightarrow> merge_ok s b (kord s b)"

lemma merge_ok_cong:
  assumes "2 ^ k dvd b" "kfree_flag t = kfree_flag s" "\<forall>x. x \<notin> region b k \<longrightarrow> kord t x = kord s x"
  shows "merge_ok t b k = merge_ok s b k"
  using assms
proof (induction s b k rule: merge_ok.induct)
  case (1 s b k)
  let ?c = "b XOR 2 ^ k"
  note pr = buddy_pair [OF 1(2)]
  have "?c \<notin> region b k" using pr(7) by auto
  then have "kord t ?c = kord s ?c" using 1(4) by blast
  moreover have "merge_ok t (min b ?c) (Suc k) = merge_ok s (min b ?c) (Suc k)"
    if "k < kmalloc_MAX_ORDER \<and> kfree_flag s ?c"
    by (rule 1(1) [OF that pr(4) 1(3)]) (use pr(6) 1(4) in auto)
  ultimately show ?case
    using 1(3) by (simp add: merge_ok.simps [of t b k] merge_ok.simps [of s b k])
qed

lemma free_merge_correct:
  assumes "kbinv s f A" "krel s f" "b \<in> A" "\<forall>a \<in> A - {b}. \<not> kfree_flag s a"
    and "merge_ok s b (kord s b)" "n = kmalloc_MAX_ORDER - kord s b"
  shows "\<exists>b' t g. free_merge b s = Some (b', t) \<and> kbinv t g (A - {b} \<union> {b'}) \<and> krel t g \<and>
    b' \<notin> A - {b} \<and> (\<forall>a \<in> A - {b}. kord t a = kord s a) \<and> kfree_flag t = kfree_flag s \<and>
    block_buffer t = block_buffer s"
  using assms
proof (induction n arbitrary: s f A b)
  case 0
  then have "free_merge b s = Some (b, s)" by (subst free_merge.simps) simp
  moreover have "A - {b} \<union> {b} = A" using 0 by auto
  ultimately show ?case using 0 by (intro exI [of _ b] exI [of _ s] exI [of _ f]) auto
next
  case (Suc n)
  define k where "k = kord s b"
  define c where "c = b XOR 2 ^ k"
  have kM: "k < kmalloc_MAX_ORDER" using Suc.prems(6) by (simp add: k_def)
  have bh: "b \<in> heads f A" using Suc.prems(3) by (simp add: heads_def)
  have bR: "b < 2 ^ kmalloc_MAX_ORDER"
    using bh binvD(2) [OF Suc.prems(1)] region_head [of b "kord s b"] unfolding cover_def by fastforce
  have cR: "c < 2 ^ kmalloc_MAX_ORDER" unfolding c_def using bR kM by (rule xor_power_bound)
  have bk: "2 ^ k dvd b" using tiles_aligned [OF binvD(1) [OF Suc.prems(1)] bh] by (simp add: k_def)
  note pr = buddy_pair [OF bk, folded c_def]
  have bud: "block_buddy b s = Some c"
    using cR by (simp add: block_buddy_def c_def k_def Let_def)
  show ?case
  proof (cases "kfree_flag s c")
    case False
    then have "free_merge b s = Some (b, s)" using bud by (subst free_merge.simps) simp
    moreover have "A - {b} \<union> {b} = A" using Suc.prems by auto
    ultimately show ?thesis using Suc.prems by (intro exI [of _ b] exI [of _ s] exI [of _ f]) auto
  next
    case True
    have m: "merge_ok s b k" using Suc.prems(5) by (simp add: k_def)
    then have kc: "kord s c = k" and mc: "merge_ok s (min b c) (Suc k)"
      using True kM by (auto simp: merge_ok.simps [of s b k] c_def)
    have "c \<in> heads f A"
      using binv_buddy_head(1) [OF Suc.prems(1,3)] cR by (simp add: c_def k_def)
    moreover have cA: "c \<notin> A" using True Suc.prems(4) pr(1) by auto
    ultimately obtain p where p: "c \<in> set (f p)" by (auto simp: heads_def)
    then have "p = ((), k)" using binvD(4) [OF Suc.prems(1), of c "()" "snd p"] kc by (cases p) auto
    with p have cf: "c \<in> set (f ((), k))" by simp
    define b' where "b' = min b c"
    let ?s1 = "on_klists (list_remove (BlockNode c)) s"
    let ?s2 = "set_blk_order b' (Suc k) ?s1"
    let ?g = "f(((), k) := remove1 c (f ((), k)))"
    let ?A = "A - {b} \<union> {b'}"
    have b': "b' = (if c < b then c else b)" by (auto simp: b'_def min_def)
    have ob': "kord s b' = k" using kc by (auto simp: b' k_def)
    have step: "free_merge b s = free_merge b' ?s2"
      using bud True kM ob' by (subst free_merge.simps) (simp add: b' k_def)
    have bA: "b' \<notin> A - {b}" using cA by (auto simp: b')
    then have A: "?A - {b'} = A - {b}" by auto
    have 1: "kbinv ?s2 ?g ?A"
      using binv_merge [OF Suc.prems(1,3) _ kM, of "()"] cf by (simp add: c_def b'_def k_def)
    have "krel ?s1 ?g" using kM cf by (intro krel_remove [OF Suc.prems(2)]) auto
    then have 2: "krel ?s2 ?g" by (rule krel_cong) auto
    have "merge_ok ?s2 b' (Suc k) = merge_ok s b' (Suc k)"
      by (rule merge_ok_cong) (use pr(4) in \<open>auto simp: b'_def\<close>)
    with mc have 3: "merge_ok ?s2 b' (kord ?s2 b')" by (simp add: b'_def)
    have "\<exists>b'' t g. free_merge b' ?s2 = Some (b'', t) \<and> kbinv t g (?A - {b'} \<union> {b''}) \<and> krel t g \<and>
        b'' \<notin> ?A - {b'} \<and> (\<forall>a \<in> ?A - {b'}. kord t a = kord ?s2 a) \<and> kfree_flag t = kfree_flag ?s2 \<and>
        block_buffer t = block_buffer ?s2"
      by (rule Suc.IH [OF 1 2 _ _ 3]) (use A Suc.prems(4,6) in \<open>auto simp: k_def\<close>)
    moreover have "\<forall>a \<in> A - {b}. kord ?s2 a = kord s a" using bA by auto
    ultimately show ?thesis unfolding step A by auto
  qed
qed

lemma free_blocks_correct:
  assumes I: "kmalloc_inv s A" and b: "b \<in> A" and ok: "kfree_safe s b"
  shows "\<exists>t. free_blocks b s = Some t \<and> kmalloc_inv t (A - {b}) \<and>
    (\<forall>a \<in> A - {b}. kord t a = kord s a) \<and> block_buffer t = block_buffer s"
proof -
  obtain f where f: "kbinv s f A" "krel s f" and nf: "\<forall>a \<in> A. \<not> kfree_flag s a"
    using I by (auto simp: kmalloc_inv_def)
  obtain b' t g where t: "free_merge b s = Some (b', t)" "kbinv t g (A - {b} \<union> {b'})" "krel t g"
    "b' \<notin> A - {b}" "\<forall>a \<in> A - {b}. kord t a = kord s a" "kfree_flag t = kfree_flag s"
    "block_buffer t = block_buffer s"
    using free_merge_correct [OF f b _ ok [unfolded kfree_safe_def] refl] nf by auto
  let ?k = "kord t b'" and ?A = "A - {b} \<union> {b'}"
  let ?u = "set_blk_free b' True t"
  let ?v = "on_klists (list_insert (FreeList ?k) (BlockNode b')) ?u" and ?g = "g(((), ?k) := b' # g ((), ?k))"
  have bg: "b' \<notin> set (g p)" for p using binvD(5) [OF t(2)] by blast
  have kM: "?k \<le> kmalloc_MAX_ORDER"
    using binvD(3) [OF t(2), of b'] by (simp add: heads_def)
  have A: "?A - {b'} = A - {b}" using t(4) by auto
  have "kbinv t ?g (?A - {b'})" by (rule binv_put [OF t(2)]) auto
  then have 1: "kbinv ?v ?g (A - {b})" unfolding A by simp
  have "krel ?u g" using t(3) by (auto simp: krel_def)
  then have 2: "krel ?v ?g" using kM bg by (intro krel_insert) auto
  have "free_blocks b s = Some ?v" using t(1) by (simp add: free_blocks_def)
  moreover have "kmalloc_inv ?v (A - {b})"
    unfolding kmalloc_inv_def using 1 2 nf t(4,6) by (intro exI [of _ ?g]) auto
  ultimately show ?thesis using t by auto
qed

section \<open>The early heap as a block allocator\<close>

lemma alloc_blocks_correct:
  assumes "kmalloc_inv s A" "order \<le> kmalloc_MAX_ORDER"
  shows "(alloc_blocks order s = Some (None, s) \<and>
      (\<forall>k. order \<le> k \<and> k \<le> kmalloc_MAX_ORDER \<longrightarrow> list_empty (FreeList k) (klists s))) \<or>
    (\<exists>b t. alloc_blocks order s = Some (Some b, t) \<and> b \<notin> A \<and> kmalloc_inv t (insert b A) \<and>
      kord t b = order \<and> (\<forall>a \<in> A. kord t a = kord s a) \<and> block_buffer t = block_buffer s)"
  using alloc_scan_correct [OF assms(1) order_refl] assms(2) by (simp add: alloc_blocks_def)

lemma kmalloc_inv_tiles: "kmalloc_inv s A \<Longrightarrow> tiles (kord s) A"
  unfolding kmalloc_inv_def using binvD(1) tiles_subset [of _ "heads _ A" A]
  by (metis heads_def sup_ge1)

lemma kmalloc_inv_bound:
  assumes "kmalloc_inv s A" "a \<in> A"
  shows "a + 2 ^ kord s a \<le> 2 ^ kmalloc_MAX_ORDER"
proof -
  obtain f where f: "kbinv s f A" using assms(1) by (auto simp: kmalloc_inv_def)
  have "region a (kord s a) \<subseteq> {0 ..< 2 ^ kmalloc_MAX_ORDER}"
    using binvD(2) [OF f] assms(2) by (auto simp: cover_def heads_def)
  then show ?thesis by (simp add: region_def)
qed

interpretation early: block_allocator alloc_blocks free_blocks kfree_safe kmalloc_MAX_ORDER
  kmalloc_inv kord
proof
  fix s A b and k :: nat and t
  assume I: "kmalloc_inv s A"
  then show "tiles (kord s) A" by (rule kmalloc_inv_tiles)
  show "k \<le> kmalloc_MAX_ORDER \<Longrightarrow> \<exists>r t. alloc_blocks k s = Some (r, t)"
    using alloc_blocks_correct [OF I, of k] by blast
  show "k \<le> kmalloc_MAX_ORDER \<Longrightarrow> alloc_blocks k s = Some (Some b, t) \<Longrightarrow>
      b \<notin> A \<and> kord t b = k \<and> kmalloc_inv t (insert b A) \<and> (\<forall>a \<in> A. kord t a = kord s a)"
    using alloc_blocks_correct [OF I, of k] by auto
  show "k \<le> kmalloc_MAX_ORDER \<Longrightarrow> alloc_blocks k s = Some (None, t) \<Longrightarrow> t = s"
    using alloc_blocks_correct [OF I, of k] by auto
  show "b \<in> A \<Longrightarrow> kfree_safe s b \<Longrightarrow>
      \<exists>t. free_blocks b s = Some t \<and> kmalloc_inv t (A - {b}) \<and> (\<forall>a \<in> A - {b}. kord t a = kord s a)"
    using free_blocks_correct [OF I, of b] by auto
qed

lemma fold_on_klists:
  "fold (\<lambda>i. on_klists (g i)) is s = on_klists (fold g is) s"
  by (induction "is" arbitrary: s) (auto simp: on_klists_def)

lemma kmalloc_early_init_inv: "kmalloc_inv (kmalloc_early_init (kmalloc_bss base)) {}"
proof -
  let ?M = kmalloc_MAX_ORDER
  let ?s = "set_blk_free 0 True (set_blk_order 0 ?M
    (on_klists (fold (\<lambda>i. list_init (FreeList i)) [0 ..< ?M + 1]) (kmalloc_bss base)))"
  let ?e = "\<lambda>_ :: unit \<times> nat. [] :: nat list" and ?f = "(\<lambda>_. [])(((), ?M) := [0 :: nat])"
  have t: "kmalloc_early_init (kmalloc_bss base) =
      on_klists (list_insert (FreeList ?M) (BlockNode 0)) ?s"
    unfolding kmalloc_early_init_def Let_def fold_on_klists ..
  have kh: "kheads = set (map FreeList [0 ..< ?M + 1])" by (auto simp: kheads_def)
  have fl: "flists ?e = (\<lambda>_. [])" by (auto simp: flists_def fun_eq_iff split: knode.splits)
  have "dlists (fold list_init (map FreeList [0 ..< ?M + 1]) h) kheads (flists ?e)" for h
    unfolding kh fl by (rule dlists_fold_init)
  then have "krel ?s ?e" by (simp add: krel_def fold_map comp_def)
  from krel_insert [OF this, of ?M 0] have "krel (kmalloc_early_init (kmalloc_bss base)) ?f"
    by (simp add: t)
  moreover have h: "heads ?f {} = {0}" by (auto simp: heads_def split: if_splits)
  have "kbinv (kmalloc_early_init (kmalloc_bss base)) ?f {}"
    unfolding binv_def h by (auto simp: t tiles_def cover_def region_def)
  ultimately show ?thesis unfolding kmalloc_inv_def by blast
qed

section \<open>Addresses\<close>

text \<open>\<open>placed s\<close>: the buffer does not run over the end of the address space.\<close>

definition placed :: "kstate \<Rightarrow> bool" where
  "placed s \<longleftrightarrow> unat (block_buffer s) + MAX_SIZE < 2 ^ 32"

lemma unat_index_to_addr:
  assumes "placed s" "b < 2 ^ kmalloc_MAX_ORDER"
  shows "unat (index_to_addr s b) = unat (block_buffer s) + b * MIN_SIZE"
proof -
  have b: "b * MIN_SIZE < MAX_SIZE" using assms(2) by (simp add: kmalloc_consts)
  then have "b * MIN_SIZE < 2 ^ 32" by (simp add: kmalloc_consts)
  then have o: "unat (of_nat (b * MIN_SIZE) :: u32) = b * MIN_SIZE" by (rule unat_of_nat_u32)
  let ?x = "of_nat (b * MIN_SIZE) :: u32"
  have "unat (block_buffer s) + unat ?x < 2 ^ 32"
    unfolding o using assms(1) b by (simp add: placed_def)
  then have "unat (block_buffer s + ?x) = unat (block_buffer s) + unat ?x"
    by (intro unat_add_lem [THEN iffD1]) simp
  then show ?thesis unfolding o by (simp add: index_to_addr_def)
qed

lemma index_to_addr_offset:
  assumes "b < 2 ^ kmalloc_MAX_ORDER"
  shows "addr_to_index s (index_to_addr s b) = b"
    "unat (index_to_addr s b - block_buffer s) < MAX_SIZE"
    "(index_to_addr s b - block_buffer s) AND (of_nat MIN_SIZE - 1) = 0"
proof -
  let ?x = "of_nat (b * MIN_SIZE) :: u32"
  have d: "index_to_addr s b - block_buffer s = ?x" by (simp add: index_to_addr_def)
  have b: "b * 8 < 32768" using assms by (simp add: kmalloc_consts)
  then have o: "unat ?x = b * MIN_SIZE"
    by (intro unat_of_nat_u32) (simp add: MIN_SIZE_def)
  then show "addr_to_index s (index_to_addr s b) = b"
    unfolding addr_to_index_def d by (simp add: unat_div MIN_SIZE_def)
  show "unat (index_to_addr s b - block_buffer s) < MAX_SIZE"
    unfolding d o using b by (simp add: kmalloc_consts)
  have "unat (?x AND (2 ^ 3 - 1)) = unat ?x mod 2 ^ 3" by (rule unat_and_mask)
  also have "\<dots> = 0" unfolding o by (simp add: MIN_SIZE_def)
  finally have "?x AND (2 ^ 3 - 1) = 0" by (simp only: unat_eq_0)
  then show "(index_to_addr s b - block_buffer s) AND (of_nat MIN_SIZE - 1) = 0"
    unfolding d by (simp add: MIN_SIZE_def)
qed

lemma kmalloc_early_order:
  assumes "unat sz \<le> MAX_SIZE"
  defines "k \<equiv> unat (ilog2_roundup (sz div of_nat MIN_SIZE))"
  shows "k \<le> kmalloc_MAX_ORDER" "unat sz div MIN_SIZE \<le> 2 ^ k"
proof -
  let ?n = "sz div of_nat MIN_SIZE"
  have n: "unat ?n = unat sz div MIN_SIZE" by (simp add: unat_div MIN_SIZE_def)
  have "unat ?n \<le> 2 ^ kmalloc_MAX_ORDER" unfolding n using assms(1) by (simp add: kmalloc_consts)
  then have "k \<le> kmalloc_MAX_ORDER \<and> unat ?n \<le> 2 ^ k"
    using ilog2_roundup_le_iff [of ?n] ilog2_roundup_bounds [of ?n] unfolding k_def
    by (cases "?n = 0") (simp_all add: ilog2_roundup_def)
  then show "k \<le> kmalloc_MAX_ORDER" "unat sz div MIN_SIZE \<le> 2 ^ k" by (auto simp: n)
qed

section \<open>Properties\<close>

text \<open>
  C1: \<open>alloc_blocks\<close> always returns.  It returns \<open>NULL\<close>, with the state unchanged, only when no free
  list of the requested or a higher order has a block; otherwise it returns a block of exactly the
  requested order that overlaps no allocated block, and the free and allocated blocks still tile
  the buffer.
\<close>
theorem early_alloc:
  assumes "kmalloc_inv s A" "order \<le> kmalloc_MAX_ORDER"
  shows "case alloc_blocks order s of
      None \<Rightarrow> False
    | Some (None, t) \<Rightarrow> t = s \<and>
        (\<forall>k. order \<le> k \<and> k \<le> kmalloc_MAX_ORDER \<longrightarrow> list_empty (FreeList k) (klists s))
    | Some (Some b, t) \<Rightarrow> kmalloc_inv t (insert b A) \<and> kord t b = order \<and>
        (\<forall>a \<in> A. kord t a = kord s a \<and> region b order \<inter> region a (kord s a) = {})"
  using alloc_blocks_correct [OF assms] early.alloc_fresh_region [OF assms] by auto

theorem early_alloc_witness:
  "case alloc_blocks 3 (kmalloc_early_init (kmalloc_bss 0x100000)) of
      None \<Rightarrow> False
    | Some (None, t) \<Rightarrow> t = kmalloc_early_init (kmalloc_bss 0x100000) \<and>
        (\<forall>k. 3 \<le> k \<and> k \<le> kmalloc_MAX_ORDER \<longrightarrow>
          list_empty (FreeList k) (klists (kmalloc_early_init (kmalloc_bss 0x100000))))
    | Some (Some b, t) \<Rightarrow> kmalloc_inv t (insert b {}) \<and> kord t b = 3 \<and>
        (\<forall>a \<in> {}. kord t a = kord (kmalloc_early_init (kmalloc_bss 0x100000)) a \<and>
          region b 3 \<inter> region a (kord (kmalloc_early_init (kmalloc_bss 0x100000)) a) = {})"
  by (rule early_alloc [OF kmalloc_early_init_inv]) (simp add: kmalloc_consts)

lemmas kmalloc_eval = kmalloc_bss_def kmalloc_early_init_def alloc_blocks_def alloc_scan.simps
  alloc_split.simps free_merge.simps free_blocks_def kmalloc_early_def kfree_early_def
  set_blk_order_def set_blk_free_def on_klists_def list_heap container_of_block_def block_buddy_def
  index_to_addr_def addr_to_index_def kmalloc_consts list_empty_def list_next_def kord_def
  kfree_flag_def upt_rec

text \<open>
  C8: after any run of allocations and of frees that respect \<open>kfree_safe\<close>, starting from
  \<open>kmalloc_early_init\<close>, two different allocated blocks never overlap.
\<close>
theorem early_no_overlap:
  assumes "btrace alloc_blocks free_blocks kfree_safe kmalloc_MAX_ORDER
      (kmalloc_early_init (kmalloc_bss base)) {} t B"
    and "a \<in> B" "b \<in> B" "a \<noteq> b"
  shows "region a (kord t a) \<inter> region b (kord t b) = {}"
  using early.trace_disjoint [OF assms(1) kmalloc_early_init_inv assms(2-4)] .

theorem early_no_overlap_witness:
  "\<exists>t. btrace alloc_blocks free_blocks kfree_safe kmalloc_MAX_ORDER
      (kmalloc_early_init (kmalloc_bss 0x100000)) {} t {2048, 0} \<and>
    region 0 (kord t 0) \<inter> region 2048 (kord t 2048) = {}"
proof -
  have "\<exists>t u. alloc_blocks 11 (kmalloc_early_init (kmalloc_bss 0x100000)) = Some (Some 0, t) \<and>
      alloc_blocks 11 t = Some (Some 2048, u)"
    by (simp add: kmalloc_eval)
  then obtain t u where t: "alloc_blocks 11 (kmalloc_early_init (kmalloc_bss 0x100000)) = Some (Some 0, t)"
    and u: "alloc_blocks 11 t = Some (Some 2048, u)" by blast
  have "btrace alloc_blocks free_blocks kfree_safe kmalloc_MAX_ORDER
      (kmalloc_early_init (kmalloc_bss 0x100000)) {} u {2048, 0}"
    using btrace_alloc [where alloc = alloc_blocks, OF btrace_refl _ t]
    by (rule btrace_alloc [where alloc = alloc_blocks and k = 11, OF _ _ u])
      (simp_all add: kmalloc_consts)
  with early_no_overlap [OF this, of 0 2048] show ?thesis by auto
qed

text \<open>
  \<open>kmalloc_early\<close> returns for every size up to \<open>MAX_SIZE\<close>: either \<open>NULL\<close> with nothing changed,
  or the address of a block inside the buffer, aligned to \<open>MIN_SIZE\<close> from its start, that holds at
  least the size rounded \<^emph>\<open>down\<close> to a multiple of \<open>MIN_SIZE\<close>.
\<close>
theorem kmalloc_early_bounds:
  assumes "kmalloc_inv s A" "placed s" "unat sz \<le> MAX_SIZE"
  shows "kmalloc_early sz s = Some (0, s) \<or>
    (\<exists>b t. kmalloc_early sz s = Some (index_to_addr s b, t) \<and> kmalloc_inv t (insert b A) \<and> b \<notin> A \<and>
      block_buffer s \<le> index_to_addr s b \<and> addr_to_index s (index_to_addr s b) = b \<and>
      unat (index_to_addr s b) + 2 ^ kord t b * MIN_SIZE \<le> unat (block_buffer s) + MAX_SIZE \<and>
      unat sz - unat sz mod MIN_SIZE \<le> 2 ^ kord t b * MIN_SIZE)"
proof -
  define k where "k = unat (ilog2_roundup (sz div of_nat MIN_SIZE))"
  note k = kmalloc_early_order [OF assms(3), folded k_def]
  show ?thesis
  proof (cases "alloc_blocks k s = Some (None, s)")
    case True
    then show ?thesis by (simp add: kmalloc_early_def flip: k_def)
  next
    case False
    then obtain b t where t: "alloc_blocks k s = Some (Some b, t)" "b \<notin> A" "kmalloc_inv t (insert b A)"
      "kord t b = k" "block_buffer t = block_buffer s"
      using alloc_blocks_correct [OF assms(1) k(1)] by auto
    have bd: "b + 2 ^ k \<le> 2 ^ kmalloc_MAX_ORDER" using kmalloc_inv_bound [OF t(3), of b] t(4) by simp
    then have b: "b < 2 ^ kmalloc_MAX_ORDER"
      by (metis add_lessD1 le_neq_implies_less less_add_same_cancel1 zero_less_numeral zero_less_power)
    note ad = unat_index_to_addr [OF assms(2) b]
    have "(b + 2 ^ k) * MIN_SIZE \<le> MAX_SIZE" using bd by (simp add: MAX_SIZE_def MIN_SIZE_def)
    then have top: "unat (index_to_addr s b) + 2 ^ k * MIN_SIZE \<le> unat (block_buffer s) + MAX_SIZE"
      unfolding ad by (simp add: distrib_right)
    have "unat sz div MIN_SIZE * MIN_SIZE \<le> 2 ^ k * MIN_SIZE" using k(2) by (rule mult_le_mono1)
    then have room: "unat sz - unat sz mod MIN_SIZE \<le> 2 ^ k * MIN_SIZE"
      by (simp add: minus_mod_eq_div_mult)
    have "kmalloc_early sz s = Some (index_to_addr s b, t)"
      using t by (simp add: kmalloc_early_def index_to_addr_def flip: k_def)
    moreover have "block_buffer s \<le> index_to_addr s b" by (simp add: word_le_nat_alt ad)
    ultimately show ?thesis using t top room index_to_addr_offset(1) [OF b] by blast
  qed
qed

theorem kmalloc_early_bounds_witness:
  "kmalloc_early 20 (kmalloc_early_init (kmalloc_bss 0x100000)) =
      Some (0, kmalloc_early_init (kmalloc_bss 0x100000)) \<or>
    (\<exists>b t. kmalloc_early 20 (kmalloc_early_init (kmalloc_bss 0x100000)) =
        Some (index_to_addr (kmalloc_early_init (kmalloc_bss 0x100000)) b, t) \<and>
      kmalloc_inv t (insert b {}) \<and> b \<notin> {} \<and>
      block_buffer (kmalloc_early_init (kmalloc_bss 0x100000)) \<le>
        index_to_addr (kmalloc_early_init (kmalloc_bss 0x100000)) b \<and>
      addr_to_index (kmalloc_early_init (kmalloc_bss 0x100000))
        (index_to_addr (kmalloc_early_init (kmalloc_bss 0x100000)) b) = b \<and>
      unat (index_to_addr (kmalloc_early_init (kmalloc_bss 0x100000)) b) + 2 ^ kord t b * MIN_SIZE
        \<le> unat (block_buffer (kmalloc_early_init (kmalloc_bss 0x100000))) + MAX_SIZE \<and>
      unat (20 :: u32) - unat (20 :: u32) mod MIN_SIZE \<le> 2 ^ kord t b * MIN_SIZE)"
  by (rule kmalloc_early_bounds [OF kmalloc_early_init_inv])
    (simp_all add: placed_def kmalloc_consts kmalloc_early_init_def Let_def fold_on_klists kmalloc_bss_def)

text \<open>
  \<open>kfree_early\<close> of the address of an allocated block, when \<open>kfree_safe\<close> holds, passes its
  assertion, gives exactly that block back and leaves every other allocated block alone.
\<close>
theorem kfree_early_correct:
  assumes "kmalloc_inv s A" "b \<in> A" "kfree_safe s b"
  shows "\<exists>t. kfree_early (index_to_addr s b) s = Some t \<and> kmalloc_inv t (A - {b}) \<and>
    (\<forall>a \<in> A - {b}. kord t a = kord s a)"
proof -
  have "b < 2 ^ kmalloc_MAX_ORDER"
    using kmalloc_inv_bound [OF assms(1,2)]
    by (metis add_lessD1 le_neq_implies_less less_add_same_cancel1 zero_less_numeral zero_less_power)
  note off = index_to_addr_offset [OF this, of s]
  show ?thesis
    using free_blocks_correct [OF assms] off by (simp add: kfree_early_def) blast
qed

theorem kfree_early_correct_witness:
  "\<exists>s t. alloc_blocks 11 (kmalloc_early_init (kmalloc_bss 0x100000)) = Some (Some 0, s) \<and>
    kfree_early (index_to_addr s 0) s = Some t \<and> kmalloc_inv t ({0} - {0})"
proof -
  let ?i = "kmalloc_early_init (kmalloc_bss 0x100000)"
  have "\<exists>s. alloc_blocks 11 ?i = Some (Some 0, s) \<and> kfree_safe s 0"
    by (simp add: kmalloc_eval kfree_safe_def merge_ok.simps)
  then obtain s where s: "alloc_blocks 11 ?i = Some (Some 0, s)" "kfree_safe s 0" by blast
  moreover have "kmalloc_inv s {0}"
    using early.alloc_some [OF kmalloc_early_init_inv _ s(1)] by (simp add: kmalloc_consts)
  ultimately show ?thesis using kfree_early_correct [of s "{0}" 0] by auto
qed

text \<open>
  Freeing merges once, whatever the order of the buddy \<open>c\<close>: the block that results has one order more than the lower
  one of the two had.
\<close>

lemma free_merge_once:
  assumes I: "kbinv s f A" "krel s f" and b: "b \<in> A" "kord s b = k" "k < kmalloc_MAX_ORDER"
    and c: "c = b XOR 2 ^ k" "kfree_flag s c" "c \<notin> A"
    and m: "m = min b c" "r = Suc (kord s m)" "\<not> (r < kmalloc_MAX_ORDER \<and> kfree_flag s (m XOR 2 ^ r))"
  shows "\<exists>g. free_merge b s = Some (m, set_blk_order m r (on_klists (list_remove (BlockNode c)) s)) \<and>
    krel (set_blk_order m r (on_klists (list_remove (BlockNode c)) s)) g \<and> (\<forall>p. m \<notin> set (g p)) \<and> r \<le> kmalloc_MAX_ORDER"
proof -
  have bh: "b \<in> heads f A" using b(1) by (simp add: heads_def)
  have bR: "b < 2 ^ kmalloc_MAX_ORDER"
    using bh binvD(2) [OF I(1)] region_head [of b "kord s b"] unfolding cover_def by fastforce
  have cR: "c < 2 ^ kmalloc_MAX_ORDER" unfolding c(1) using bR b(3) by (rule xor_power_bound)
  have bk: "2 ^ k dvd b" using tiles_aligned [OF binvD(1) [OF I(1)] bh] b(2) by simp
  note pr = buddy_pair [OF bk, folded c(1)]
  have "c \<in> heads f A" "kord s c \<le> k" using binv_buddy_head [OF I(1) b(1)] cR b(2) by (simp_all add: c(1))
  then obtain p where "c \<in> set (f p)" using c(3) by (auto simp: heads_def)
  then have cf: "c \<in> set (f ((), kord s c))" using binvD(4) [OF I(1), of c "()" "snd p"] by (cases p) auto
  have le: "r \<le> kmalloc_MAX_ORDER" using \<open>kord s c \<le> k\<close> b(2,3) by (auto simp: m min_def)
  let ?g = "f(((), kord s c) := remove1 c (f ((), kord s c)))"
  let ?s1 = "on_klists (list_remove (BlockNode c)) s"
  let ?s2 = "set_blk_order m r ?s1"
  have "krel ?s1 ?g" using \<open>kord s c \<le> k\<close> b(3) cf by (intro krel_remove [OF I(2)]) auto
  then have "krel ?s2 ?g" by (rule krel_cong) auto
  moreover have "m \<notin> set (?g p)" for p
  proof (cases "c < b")
    case True
    then show ?thesis using binvD(6) [OF I(1)] binvD(7) [OF I(1) cf, of p] by (auto simp: m(1) min_def)
  next
    case False
    then show ?thesis using binvD(5) [OF I(1), of b p] b(1) by (auto simp: m(1) min_def dest: notin_set_remove1)
  qed
  moreover have "m < 2 ^ kmalloc_MAX_ORDER" using bR by (simp add: m(1))
  then have "free_merge m ?s2 = Some (m, ?s2)"
    using m(3) xor_power_bound [of m kmalloc_MAX_ORDER r] by (subst free_merge.simps) (auto simp: block_buddy_def Let_def)
  moreover have "free_merge b s = free_merge m ?s2"
    using b(2,3) c(2) cR by (subst free_merge.simps) (simp add: block_buddy_def c(1) [symmetric] Let_def m min_def not_less less_le)
  ultimately show ?thesis using le by (intro exI [of _ ?g]) simp
qed

text \<open>
  C25: without \<open>kfree_safe\<close> the promise fails, in every state of the following kind.  \<open>b\<close> is freed, its buddy \<open>c\<close>
  is flagged free, and the merged block \<open>m\<close>, of one order more than the lower of the two, is not merged further
  and contains another live block \<open>a\<close>, because the order of \<open>c\<close> is lower than that of \<open>b\<close>.  Then the free returns,
  and the next request for this order is answered with \<open>m\<close>: memory of the live block \<open>a\<close> is handed out again.
\<close>

theorem early_free_overlap:
  assumes "kmalloc_inv s A" "b \<in> A" "kord s b < kmalloc_MAX_ORDER"
    and "c = b XOR 2 ^ kord s b" "kfree_flag s c"
    and "m = min b c" "r = Suc (kord s m)" "\<not> (r < kmalloc_MAX_ORDER \<and> kfree_flag s (m XOR 2 ^ r))"
    and "a \<in> A" "a \<noteq> b" "region a (kord s a) \<subseteq> region m r"
  shows "\<exists>t u. free_blocks b s = Some t \<and> alloc_blocks r t = Some (Some m, u) \<and> kord u m = r \<and>
    kord u a = kord s a \<and> \<not> kfree_flag u a \<and> region a (kord u a) \<inter> region m (kord u m) \<noteq> {}"
proof -
  obtain f where f: "kbinv s f A" "krel s f" and nf: "\<forall>a \<in> A. \<not> kfree_flag s a"
    using assms(1) by (auto simp: kmalloc_inv_def)
  have cA: "c \<notin> A" using nf assms(5) by blast
  let ?t = "set_blk_order m r (on_klists (list_remove (BlockNode c)) s)"
  let ?u = "set_blk_free m True ?t"
  let ?v = "on_klists (list_insert (FreeList r) (BlockNode m)) ?u"
  let ?w = "set_blk_free m False (on_klists (list_remove (BlockNode m)) ?v)"
  obtain g where g: "free_merge b s = Some (m, ?t)" "krel ?t g" "\<forall>p. m \<notin> set (g p)" "r \<le> kmalloc_MAX_ORDER"
    using free_merge_once [OF f assms(2) refl assms(3-5) cA assms(6-8)] by blast
  have "krel ?u g" using g(2) by (auto simp: krel_def)
  then have v: "krel ?v (g(((), r) := m # g ((), r)))" using g(3,4) by (intro krel_insert) auto
  have "free_blocks b s = Some ?v" using g(1) by (simp add: free_blocks_def)
  moreover have "\<not> list_empty (FreeList r) (klists ?v)" "list_next (FreeList r) (klists ?v) = BlockNode m"
    using krel_empty [OF v g(4)] krel_next [OF v g(4)] by simp_all
  then have "alloc_blocks r ?v = Some (Some m, ?w)"
    using g(4) by (simp add: alloc_blocks_def, subst alloc_scan.simps)
      (simp add: container_of_block_def alloc_split.simps Let_def)
  moreover have "a \<noteq> m" using assms(6,9,10) cA by (auto simp: min_def)
  then have "kord ?w a = kord s a" "\<not> kfree_flag ?w a" "kord ?w m = r" using nf assms(9) by auto
  moreover have "region a (kord s a) \<inter> region m r \<noteq> {}" using assms(11) region_head [of a "kord s a"] by blast
  ultimately show ?thesis by (intro exI [of _ ?v] exI [of _ ?w]) simp
qed

text \<open>
  The witness: two blocks of 8 KB and one of 16 KB are allocated and the first is freed.  Freeing the third merges it
  with the first, and a request for 16 KB is answered with the memory of the first two blocks.
\<close>

theorem early_free_overlap_witness:
  "\<exists>s t u. btrace alloc_blocks free_blocks kfree_safe kmalloc_MAX_ORDER
      (kmalloc_early_init (kmalloc_bss 0x100000)) {} s {1024, 2048} \<and>
    free_blocks 2048 s = Some t \<and> alloc_blocks 11 t = Some (Some 0, u) \<and> region 1024 (kord u 1024) \<inter> region 0 (kord u 0) \<noteq> {}"
proof -
  let ?i = "kmalloc_early_init (kmalloc_bss 0x100000)"
  let ?T = "btrace alloc_blocks free_blocks kfree_safe kmalloc_MAX_ORDER ?i {}"
  have "\<exists>s1 s2 s3 s. alloc_blocks 10 ?i = Some (Some 0, s1) \<and> alloc_blocks 10 s1 = Some (Some 1024, s2) \<and>
      alloc_blocks 11 s2 = Some (Some 2048, s3) \<and> kfree_safe s3 0 \<and> free_blocks 0 s3 = Some s \<and>
      kord s 2048 = 11 \<and> kord s 0 = 10 \<and> kord s 1024 = 10 \<and> kfree_flag s 0"
    by (simp add: kmalloc_eval kfree_safe_def merge_ok.simps)
  then obtain s1 s2 s3 s where r: "alloc_blocks 10 ?i = Some (Some 0, s1)" "alloc_blocks 10 s1 = Some (Some 1024, s2)"
      "alloc_blocks 11 s2 = Some (Some 2048, s3)" "kfree_safe s3 0" "free_blocks 0 s3 = Some s"
    and o: "kord s 2048 = 11" "kord s 0 = 10" "kord s 1024 = 10" "kfree_flag s 0" by blast
  note al = btrace_alloc [where alloc = alloc_blocks]
  have "?T s1 {0}" by (rule al [OF btrace_refl _ r(1)]) (simp add: kmalloc_consts)
  from al [OF this _ r(2)] have "?T s2 {1024, 0}" by (simp add: kmalloc_consts)
  from al [OF this _ r(3)] have "?T s3 {2048, 1024, 0}" by (simp add: kmalloc_consts)
  from btrace_free [OF this _ r(4,5)] have T: "?T s {1024, 2048}" by (simp add: insert_commute)
  have I: "kmalloc_inv s {1024, 2048}" by (rule early.trace_inv [OF T kmalloc_early_init_inv])
  have "region 1024 10 \<subseteq> region 0 11" by (simp add: region_def)
  moreover have "0 = 2048 XOR (2 :: nat) ^ 11" "0 = min 2048 (0 :: nat)" "0 XOR 2 ^ 11 = (2048 :: nat)" by simp_all
  moreover have "\<not> kfree_flag s 2048" using I by (auto simp: kmalloc_inv_def)
  ultimately have "\<exists>t u. free_blocks 2048 s = Some t \<and> alloc_blocks 11 t = Some (Some 0, u) \<and> kord u 0 = 11 \<and>
      kord u 1024 = kord s 1024 \<and> \<not> kfree_flag u 1024 \<and> region 1024 (kord u 1024) \<inter> region 0 (kord u 0) \<noteq> {}"
    by (intro early_free_overlap [OF I, where c = 0]) (simp_all only: o insertCI numeral_eq_iff, simp_all add: kmalloc_MAX_ORDER_def)
  then show ?thesis using T by blast
qed

text \<open>
  The size is divided by \<open>MIN_SIZE\<close> without rounding up: a request for 12 bytes is treated as one
  for 8.
\<close>

lemma kmalloc_early_short: "kmalloc_early 12 s = kmalloc_early 8 s"
  by (simp add: kmalloc_early_def MIN_SIZE_def)

text \<open>The end of the buffer, which is not part of it, counts as an early address.\<close>

lemma is_early_block_addr_end:
  assumes "placed s"
  shows "is_early_block_addr s (block_buffer s + of_nat MAX_SIZE)"
proof -
  have "unat (of_nat MAX_SIZE :: u32) = MAX_SIZE"
    by (rule unat_of_nat_u32) (simp add: kmalloc_consts)
  then have "unat (block_buffer s + of_nat MAX_SIZE) = unat (block_buffer s) + MAX_SIZE"
    using assms unat_add_lem [of "block_buffer s" "of_nat MAX_SIZE"] by (simp add: placed_def)
  then show ?thesis by (simp add: is_early_block_addr_def word_le_nat_alt)
qed

end
