(* ===== verification/Locks.thy ===== *)
theory Locks
  imports Prelude
begin

text \<open>
  The atomic counters of \<^verbatim>\<open>include/atomic.h\<close> and the spin lock of \<^verbatim>\<open>include/lock.h\<close> and
  \<^verbatim>\<open>libs/lock.c\<close>.  A counter is a 32-bit word (the C type is \<open>int\<close>; the instructions wrap).

  The lock is modelled twice.  \<open>spin_lock\<close> is the function as one processor runs it while no
  other processor touches the lock; this is what the sequential models of the other components
  call.  \<open>lock_step\<close> is the same code as a step relation of any number of processors, one step per
  access to the lock word; the invariant \<open>lock_inv\<close> gives mutual exclusion.
\<close>

section \<open>Atomic counters\<close>

record atomic_t =
  counter :: u32

definition atomic_read :: "atomic_t \<Rightarrow> u32" where
  "atomic_read v = counter v"

definition atomic_set :: "atomic_t \<Rightarrow> u32 \<Rightarrow> atomic_t" where
  "atomic_set v i = v\<lparr>counter := i\<rparr>"

definition atomic_add :: "atomic_t \<Rightarrow> u32 \<Rightarrow> atomic_t" where
  "atomic_add v i = v\<lparr>counter := counter v + i\<rparr>"

definition atomic_sub :: "atomic_t \<Rightarrow> u32 \<Rightarrow> atomic_t" where
  "atomic_sub v i = v\<lparr>counter := counter v - i\<rparr>"

definition atomic_sub_test_zero :: "atomic_t \<Rightarrow> u32 \<Rightarrow> bool \<times> atomic_t" where
  "atomic_sub_test_zero v i =
     (let v = v\<lparr>counter := counter v - i\<rparr>; c = (if counter v = 0 then 1 else 0 :: u8)
      in (c \<noteq> 0, v))"

definition atomic_inc :: "atomic_t \<Rightarrow> atomic_t" where
  "atomic_inc v = v\<lparr>counter := counter v + 1\<rparr>"

definition atomic_dec :: "atomic_t \<Rightarrow> atomic_t" where
  "atomic_dec v = v\<lparr>counter := counter v - 1\<rparr>"

definition atomic_inc_test_zero :: "atomic_t \<Rightarrow> bool \<times> atomic_t" where
  "atomic_inc_test_zero v =
     (let v = v\<lparr>counter := counter v + 1\<rparr>; c = (if counter v = 0 then 1 else 0 :: u8)
      in (c \<noteq> 0, v))"

definition atomic_dec_test_zero :: "atomic_t \<Rightarrow> bool \<times> atomic_t" where
  "atomic_dec_test_zero v =
     (let v = v\<lparr>counter := counter v - 1\<rparr>; c = (if counter v = 0 then 1 else 0 :: u8)
      in (c \<noteq> 0, v))"

text \<open>\<open>xaddl\<close> exchanges register and memory and then adds: memory gets the sum, the register the
  old memory.\<close>

definition xaddl :: "u32 \<Rightarrow> u32 \<Rightarrow> u32 \<times> u32" where
  "xaddl reg mem = (mem, mem + reg)"

definition atomic_add_return :: "atomic_t \<Rightarrow> u32 \<Rightarrow> u32 \<times> atomic_t" where
  "atomic_add_return v i =
     (let old_i = i; (i, m) = xaddl i (counter v) in (i + old_i, v\<lparr>counter := m\<rparr>))"

definition atomic_sub_return :: "atomic_t \<Rightarrow> u32 \<Rightarrow> u32 \<times> atomic_t" where
  "atomic_sub_return v i = atomic_add_return v (- i)"

text \<open>\<open>lock cmpxchg\<close>: the accumulator holds \<open>old\<close>; it ends up with the value read.\<close>

definition cmpxchg :: "atomic_t \<Rightarrow> u32 \<Rightarrow> u32 \<Rightarrow> u32 \<times> atomic_t" where
  "cmpxchg v old new =
     (if counter v = old then (old, v\<lparr>counter := new\<rparr>) else (counter v, v))"

lemma atomic_add_return_new:
  "atomic_add_return v i = (counter (atomic_add v i), atomic_add v i)"
  "atomic_sub_return v i = (counter (atomic_sub v i), atomic_sub v i)"
  by (simp_all add: atomic_add_return_def atomic_sub_return_def atomic_add_def atomic_sub_def xaddl_def)

section \<open>The lock without contention\<close>

type_synonym spinlock_t = atomic_t

definition spinlock_init :: "spinlock_t \<Rightarrow> spinlock_t" where
  "spinlock_init lock = lock\<lparr>counter := 0\<rparr>"

definition spin_unlock :: "spinlock_t \<Rightarrow> spinlock_t" where
  "spin_unlock lock = atomic_set lock 0"

definition SPIN_MAX :: nat where "SPIN_MAX = 10000000"

partial_function (option) spin_wait :: "spinlock_t \<Rightarrow> nat \<Rightarrow> nat option" where
  "spin_wait lock count =
     (if atomic_read lock \<noteq> 0 then
        do { assert (count < SPIN_MAX); spin_wait lock (count + 1) }
      else Some count)"

partial_function (option) spin_lock_loop :: "spinlock_t \<Rightarrow> nat \<Rightarrow> spinlock_t option" where
  "spin_lock_loop lock count =
     do {
       count \<leftarrow> spin_wait lock count;
       let (ret, lock) = cmpxchg lock 0 1;
       if ret \<noteq> 0 then spin_lock_loop lock count else Some lock
     }"

definition spin_lock :: "spinlock_t \<Rightarrow> spinlock_t option" where
  "spin_lock lock = spin_lock_loop lock 0"

declare spin_wait.simps [code] spin_lock_loop.simps [code]

lemma spin_wait_busy:
  assumes "counter lock \<noteq> 0" "count \<le> SPIN_MAX"
  shows "spin_wait lock count = None"
  using assms(2)
proof (induction "SPIN_MAX - count" arbitrary: count)
  case 0
  then show ?case using assms(1) by (subst spin_wait.simps) (simp add: atomic_read_def)
next
  case (Suc n)
  then have "spin_wait lock (count + 1) = None" by simp
  then show ?case
    using assms(1) Suc by (subst spin_wait.simps) (simp add: atomic_read_def)
qed

text \<open>Without another processor the lock is taken at once if it is free; if it is held, the
  processor spins until the assertion on the counter stops it.\<close>

lemma spin_lock_eq:
  "spin_lock lock = (if counter lock = 0 then Some (lock\<lparr>counter := 1\<rparr>) else None)"
proof (cases "counter lock = 0")
  case True
  then have "spin_wait lock 0 = Some 0" by (subst spin_wait.simps) (simp add: atomic_read_def)
  then show ?thesis
    using True unfolding spin_lock_def by (subst spin_lock_loop.simps) (simp add: cmpxchg_def)
next
  case False
  then show ?thesis
    unfolding spin_lock_def by (subst spin_lock_loop.simps) (simp add: spin_wait_busy)
qed

lemma spin_lock_unlock [simp]:
  "counter lock = 0 \<Longrightarrow> map_option spin_unlock (spin_lock lock) = Some lock"
  by (simp add: spin_lock_eq spin_unlock_def atomic_set_def)

section \<open>The lock with any number of processors\<close>

text \<open>
  Where a processor is: outside, at the test of the inner loop, at the \<open>cmpxchg\<close>, in the critical
  section, or stopped by the assertion.
\<close>

datatype lock_pc = Idle | Spin | Try | Critical | Halted

record 'cpu lock_state =
  lock :: spinlock_t
  pc :: "'cpu \<Rightarrow> lock_pc"
  spins :: "'cpu \<Rightarrow> nat"

inductive lock_step :: "'cpu lock_state \<Rightarrow> 'cpu lock_state \<Rightarrow> bool" where
  enter: "pc s c = Idle \<Longrightarrow>
    lock_step s (s\<lparr>pc := (pc s)(c := Spin), spins := (spins s)(c := 0)\<rparr>)"
| spin: "pc s c = Spin \<Longrightarrow> atomic_read (lock s) \<noteq> 0 \<Longrightarrow> spins s c < SPIN_MAX \<Longrightarrow>
    lock_step s (s\<lparr>spins := (spins s)(c := spins s c + 1)\<rparr>)"
| halt: "pc s c = Spin \<Longrightarrow> atomic_read (lock s) \<noteq> 0 \<Longrightarrow> \<not> spins s c < SPIN_MAX \<Longrightarrow>
    lock_step s (s\<lparr>pc := (pc s)(c := Halted)\<rparr>)"
| leave: "pc s c = Spin \<Longrightarrow> atomic_read (lock s) = 0 \<Longrightarrow>
    lock_step s (s\<lparr>pc := (pc s)(c := Try)\<rparr>)"
| retry: "pc s c = Try \<Longrightarrow> cmpxchg (lock s) 0 1 = (ret, l) \<Longrightarrow> ret \<noteq> 0 \<Longrightarrow>
    lock_step s (s\<lparr>lock := l, pc := (pc s)(c := Spin)\<rparr>)"
| acquire: "pc s c = Try \<Longrightarrow> cmpxchg (lock s) 0 1 = (ret, l) \<Longrightarrow> ret = 0 \<Longrightarrow>
    lock_step s (s\<lparr>lock := l, pc := (pc s)(c := Critical)\<rparr>)"
| release: "pc s c = Critical \<Longrightarrow>
    lock_step s (s\<lparr>lock := spin_unlock (lock s), pc := (pc s)(c := Idle)\<rparr>)"

definition lock_start :: "'cpu lock_state \<Rightarrow> bool" where
  "lock_start s \<longleftrightarrow> counter (lock s) = 0 \<and> (\<forall>c. pc s c = Idle)"

text \<open>The lock word says whether there is an owner, and the owner is the one processor in the
  critical section.\<close>

definition owned_by :: "'cpu option \<Rightarrow> 'cpu lock_state \<Rightarrow> bool" where
  "owned_by w s \<longleftrightarrow> (counter (lock s) = 0 \<longleftrightarrow> w = None) \<and> (\<forall>c. pc s c = Critical \<longleftrightarrow> w = Some c)"

definition lock_inv :: "'cpu lock_state \<Rightarrow> bool" where
  "lock_inv s \<longleftrightarrow> (\<exists>w. owned_by w s)"

lemma owned_by_move:
  assumes "owned_by w s" "pc s c \<noteq> Critical" "q \<noteq> Critical"
    and "lock t = lock s" "pc t = (pc s)(c := q)"
  shows "owned_by w t"
proof -
  have "w \<noteq> Some c" using assms(1,2) unfolding owned_by_def by blast
  then show ?thesis using assms by (auto simp: owned_by_def)
qed

lemma lock_inv_step:
  assumes "lock_step s t" "lock_inv s"
  shows "lock_inv t"
proof -
  obtain w where w: "owned_by w s" using assms(2) by (auto simp: lock_inv_def)
  note move = owned_by_move [OF w]
  from assms(1) show ?thesis
    unfolding lock_inv_def
  proof cases
    case (acquire c ret l)
    then have e: "counter (lock s) = 0" "l = (lock s)\<lparr>counter := 1\<rparr>" by (simp_all add: cmpxchg_def split: if_splits)
    then have "w = None" using w by (simp add: owned_by_def)
    then have "owned_by (Some c) t" using w acquire(1) e(2) by (auto simp: owned_by_def)
    then show "\<exists>w. owned_by w t" ..
  next
    case (release c)
    then have "owned_by None t" using w by (auto simp: owned_by_def spin_unlock_def atomic_set_def)
    then show "\<exists>w. owned_by w t" ..
  next
    case (enter c)
    then show "\<exists>w. owned_by w t" using move [of c Spin t] by auto
  next
    case (spin c)
    then show "\<exists>w. owned_by w t" using w by (auto simp: owned_by_def)
  next
    case (halt c)
    then show "\<exists>w. owned_by w t" using move [of c Halted t] by auto
  next
    case (leave c)
    then show "\<exists>w. owned_by w t" using move [of c Try t] by auto
  next
    case (retry c ret l)
    then have "l = lock s" by (auto simp: cmpxchg_def split: if_splits)
    with retry show "\<exists>w. owned_by w t" using move [of c Spin t] by auto
  qed
qed

lemma lock_inv_reachable: "lock_step\<^sup>*\<^sup>* s t \<Longrightarrow> lock_start s \<Longrightarrow> lock_inv t"
  by (induction rule: rtranclp_induct)
    (auto simp: lock_inv_step, auto simp: lock_inv_def lock_start_def owned_by_def)

section \<open>Properties\<close>

text \<open>
  C3: mutual exclusion.  Starting with the lock free and every processor outside, no interleaving
  of the steps of \<open>spin_lock\<close> and \<open>spin_unlock\<close> brings two processors into the critical section.
\<close>
theorem spin_lock_mutex:
  assumes "lock_start s" "lock_step\<^sup>*\<^sup>* s t" "pc t c = Critical" "pc t d = Critical"
  shows "c = d"
  using lock_inv_reachable [OF assms(2,1)] assms(3,4) by (auto simp: lock_inv_def owned_by_def)

theorem spin_lock_mutex_witness:
  "\<exists>t :: bool lock_state. lock_step\<^sup>*\<^sup>* \<lparr>lock = \<lparr>counter = 0\<rparr>, pc = (\<lambda>_. Idle), spins = (\<lambda>_. 0)\<rparr> t \<and>
    pc t True = Critical \<and> pc t False \<noteq> Critical"
proof -
  let ?s = "\<lparr>lock = \<lparr>counter = 0\<rparr>, pc = (\<lambda>_. Idle), spins = (\<lambda>_. 0)\<rparr> :: bool lock_state"
  let ?s1 = "?s\<lparr>pc := (pc ?s)(True := Spin), spins := (spins ?s)(True := 0)\<rparr>"
  let ?s2 = "?s1\<lparr>pc := (pc ?s1)(True := Try)\<rparr>"
  let ?s3 = "?s2\<lparr>lock := \<lparr>counter = 1\<rparr>, pc := (pc ?s2)(True := Critical)\<rparr>"
  have "lock_step ?s ?s1" by (rule enter) simp
  moreover have "lock_step ?s1 ?s2" by (rule leave) (simp_all add: atomic_read_def)
  moreover have "lock_step ?s2 ?s3" by (rule acquire) (simp_all add: cmpxchg_def)
  ultimately have r: "lock_step\<^sup>*\<^sup>* ?s ?s3" by (meson converse_rtranclp_into_rtranclp r_into_rtranclp)
  have "lock_start ?s" by (simp add: lock_start_def)
  from spin_lock_mutex [OF this r, of True False] have "pc ?s3 False \<noteq> Critical" by auto
  with r show ?thesis by (intro exI [of _ ?s3]) simp
qed

text \<open>
  The lock is never lost.  In every reachable state in which no processor is in the critical
  section, any processor that waits for the lock takes it within two steps of its own.
\<close>
theorem spin_lock_available:
  assumes "lock_start s" "lock_step\<^sup>*\<^sup>* s t" "\<forall>d. pc t d \<noteq> Critical" "pc t c = Spin"
  shows "\<exists>u v. lock_step t u \<and> lock_step u v \<and> pc v c = Critical \<and> (\<forall>d. d \<noteq> c \<longrightarrow> pc v d = pc t d)"
proof -
  have free: "counter (lock t) = 0"
    using lock_inv_reachable [OF assms(2,1)] assms(3) by (auto simp: lock_inv_def owned_by_def)
  let ?u = "t\<lparr>pc := (pc t)(c := Try)\<rparr>"
  let ?v = "?u\<lparr>lock := (lock ?u)\<lparr>counter := 1\<rparr>, pc := (pc ?u)(c := Critical)\<rparr>"
  have "lock_step t ?u" using assms(4) free by (intro leave) (auto simp: atomic_read_def)
  moreover have "lock_step ?u ?v" using free by (intro acquire) (auto simp: cmpxchg_def)
  ultimately show ?thesis by (intro exI [of _ ?u] exI [of _ ?v]) simp
qed

theorem spin_lock_available_witness:
  "\<exists>s t u v :: bool lock_state. lock_start s \<and> lock_step\<^sup>*\<^sup>* s t \<and> lock_step t u \<and> lock_step u v \<and>
    pc v True = Critical \<and> (\<forall>d. d \<noteq> True \<longrightarrow> pc v d = pc t d)"
proof -
  let ?s = "\<lparr>lock = \<lparr>counter = 0\<rparr>, pc = (\<lambda>_. Idle), spins = (\<lambda>_. 0)\<rparr> :: bool lock_state"
  let ?t = "?s\<lparr>pc := (pc ?s)(True := Spin), spins := (spins ?s)(True := 0)\<rparr>"
  have "lock_step ?s ?t" by (rule enter) simp
  then have r: "lock_step\<^sup>*\<^sup>* ?s ?t" by (rule r_into_rtranclp)
  have "lock_start ?s" by (simp add: lock_start_def)
  moreover have "\<forall>d. pc ?t d \<noteq> Critical" "pc ?t True = Spin" by simp_all
  then have "\<exists>u v. lock_step ?t u \<and> lock_step u v \<and> pc v True = Critical \<and>
      (\<forall>d. d \<noteq> True \<longrightarrow> pc v d = pc ?t d)"
    by (rule spin_lock_available [OF \<open>lock_start ?s\<close> r])
  ultimately show ?thesis using r by blast
qed

end
