(* ===== verification/Page_Alloc.thy ===== *)
theory Page_Alloc
  imports Linked_List Bitops Buddy Locks
begin

text \<open>
  The physical page allocator of \<^verbatim>\<open>mm/page.c\<close>: a buddy system with two sets of free lists, one for
  high memory and one for the linearly mapped memory.  A \<^verbatim>\<open>struct page\<close> is named by its index in
  \<open>pages\<close>, its page frame number; frame numbers and orders are natural numbers (they stay below
  \<open>2 ^ 20\<close> and 11).  The node embedded in a \<^verbatim>\<open>struct page\<close> is also used by the slab allocator, so
  the type of list nodes has the heads of the slab lists too.

  \<open>page_inv S sl s A\<close>: the lock is free, the free lists and the allocated blocks \<open>A\<close> tile the valid
  pages, every block on a free list of a zone is flagged with that zone, and the slab lists
  \<open>sl q\<close> of the heads \<open>q \<in> S\<close> hold allocated pages.
\<close>

section \<open>State\<close>

datatype pnode = PFree bool nat | PageNode nat | SlabsPartial nat | SlabsFull nat

record page =
  pg_flags :: u32
  pg_order :: nat
  s_mem :: u32
  freelist :: u32
  active :: u16
  total :: u16
  slab_cache :: "nat option"

record pstate =
  pages :: "nat \<Rightarrow> page"
  plists :: "pnode list_node"
  page_lock :: spinlock_t
  highmem_start_pfn :: nat

definition TOTAL_PAGES :: nat where "TOTAL_PAGES = 1024 * 1024"
definition page_MAX_ORDER :: nat where "page_MAX_ORDER = 10"
definition PAGE_VALID :: nat where "PAGE_VALID = 1"
definition PAGE_FREE :: nat where "PAGE_FREE = 2"
definition PAGE_HIGHMEM :: nat where "PAGE_HIGHMEM = 4"
definition PAGE_SLAB :: nat where "PAGE_SLAB = 8"
definition GFP_HIGHMEM :: u32 where "GFP_HIGHMEM = 1"
definition GFP_LINEAR :: u32 where "GFP_LINEAR = 2"
definition GFP_NORMAL :: u32 where "GFP_NORMAL = GFP_LINEAR"

named_theorems page_consts \<open>the constants of the page allocator\<close>

lemmas [page_consts] = TOTAL_PAGES_def page_MAX_ORDER_def PAGE_VALID_def PAGE_FREE_def
  PAGE_HIGHMEM_def PAGE_SLAB_def GFP_HIGHMEM_def GFP_LINEAR_def GFP_NORMAL_def

text \<open>Field accesses \<open>page->order\<close>, \<open>test_bit(nr, &page->flags)\<close> and the corresponding updates.\<close>

definition on_page :: "nat \<Rightarrow> (page \<Rightarrow> page) \<Rightarrow> pstate \<Rightarrow> pstate" where
  "on_page p g s = s\<lparr>pages := (pages s)(p := g (pages s p))\<rparr>"

definition on_plists :: "(pnode list_node \<Rightarrow> pnode list_node) \<Rightarrow> pstate \<Rightarrow> pstate" where
  "on_plists g s = s\<lparr>plists := g (plists s)\<rparr>"

definition pord :: "pstate \<Rightarrow> nat \<Rightarrow> nat" where
  "pord s p = pg_order (pages s p)"

definition page_flag :: "nat \<Rightarrow> pstate \<Rightarrow> nat \<Rightarrow> bool" where
  "page_flag nr s p = test_bit_c nr (pg_flags (pages s p))"

definition set_pg_order :: "nat \<Rightarrow> nat \<Rightarrow> pstate \<Rightarrow> pstate" where
  "set_pg_order p k = on_page p (pg_order_update (\<lambda>_. k))"

definition set_pg_flag :: "nat \<Rightarrow> nat \<Rightarrow> pstate \<Rightarrow> pstate" where
  "set_pg_flag nr p = on_page p (pg_flags_update (set_bit_c nr))"

definition clear_pg_flag :: "nat \<Rightarrow> nat \<Rightarrow> pstate \<Rightarrow> pstate" where
  "clear_pg_flag nr p = on_page p (pg_flags_update (clear_bit_c nr))"

section \<open>Operations\<close>

text \<open>A page pointer is the index of the page, so these two conversions are the identity.\<close>

definition page_to_pfn :: "nat \<Rightarrow> nat" where "page_to_pfn page = page"
definition pfn_to_page :: "nat \<Rightarrow> nat" where "pfn_to_page pfn = pfn"

definition page_buddy :: "nat \<Rightarrow> pstate \<Rightarrow> nat option" where
  "page_buddy page s =
     (let i = page_to_pfn page XOR push_bit (pord s page) 1
      in do { assert (i < TOTAL_PAGES); Some (pfn_to_page i) })"

definition free_page :: "nat \<Rightarrow> nat \<Rightarrow> pstate \<Rightarrow> pstate option" where
  "free_page page order s =
     do {
       assert (page < TOTAL_PAGES);
       let s = set_pg_flag PAGE_FREE page s;
       let s = set_pg_order page order s;
       if page_flag PAGE_HIGHMEM s page
       then Some (on_plists (list_insert (PFree True order) (PageNode page)) s)
       else Some (on_plists (list_insert (PFree False order) (PageNode page)) s)
     }"

partial_function (option) init_free_loop ::
  "nat \<Rightarrow> nat \<Rightarrow> nat \<Rightarrow> nat \<Rightarrow> pstate \<Rightarrow> (nat \<times> pstate) option" where
  "init_free_loop start_page nr_pages order count s =
     (if count < nr_pages then
        do {
          s \<leftarrow> free_page (start_page + count) order s;
          init_free_loop start_page nr_pages order (count + 2 ^ order) s
        }
      else Some (count, s))"

definition init_free_pages :: "nat \<Rightarrow> nat \<Rightarrow> nat \<Rightarrow> pstate \<Rightarrow> pstate option" where
  "init_free_pages start_page nr_pages order s =
     do {
       (count, s) \<leftarrow> init_free_loop start_page nr_pages order 0 s;
       assert (count = nr_pages);
       Some s
     }"

partial_function (option) mark_pages :: "nat \<Rightarrow> nat \<Rightarrow> bool \<Rightarrow> pstate \<Rightarrow> pstate option" where
  "mark_pages pfn end_pfn highmem s =
     (if pfn < end_pfn then
        do {
          let page = pfn_to_page pfn;
          assert (page < TOTAL_PAGES);
          let s = set_pg_flag PAGE_VALID page s;
          let s = (if highmem then set_pg_flag PAGE_HIGHMEM page s else s);
          mark_pages (pfn + 1) end_pfn highmem s
        }
      else Some s)"

definition add_zone_pages :: "nat \<Rightarrow> nat \<Rightarrow> bool \<Rightarrow> pstate \<Rightarrow> pstate option" where
  "add_zone_pages start_pfn end_pfn highmem s =
     do {
       s \<leftarrow> mark_pages start_pfn end_pfn highmem s;
       let split_start = (start_pfn + 2 ^ page_MAX_ORDER - 1) -
             (start_pfn + 2 ^ page_MAX_ORDER - 1) mod 2 ^ page_MAX_ORDER;
       let split_end = end_pfn - end_pfn mod 2 ^ page_MAX_ORDER;
       if split_start \<ge> split_end
       then init_free_pages (pfn_to_page start_pfn) (end_pfn - start_pfn) 0 s
       else do {
         s \<leftarrow> init_free_pages (pfn_to_page start_pfn) (split_start - start_pfn) 0 s;
         s \<leftarrow> init_free_pages (pfn_to_page split_start) (split_end - split_start) page_MAX_ORDER s;
         init_free_pages (pfn_to_page split_end) (end_pfn - split_end) 0 s
       }
     }"

partial_function (option) add_free_pages :: "nat \<Rightarrow> nat \<Rightarrow> pstate \<Rightarrow> pstate option" where
  "add_free_pages start_pfn end_pfn s =
     do {
       assert (start_pfn \<le> end_pfn);
       if start_pfn \<ge> highmem_start_pfn s then add_zone_pages start_pfn end_pfn True s
       else if end_pfn \<le> highmem_start_pfn s then add_zone_pages start_pfn end_pfn False s
       else do {
         s \<leftarrow> add_free_pages start_pfn (highmem_start_pfn s) s;
         add_free_pages (highmem_start_pfn s) end_pfn s
       }
     }"

definition get_free_list :: "u32 \<Rightarrow> nat \<Rightarrow> pnode" where
  "get_free_list gfp_mask order =
     (if gfp_mask AND GFP_HIGHMEM \<noteq> 0 then PFree True order else PFree False order)"

definition container_of_page :: "pnode \<Rightarrow> nat option" where
  "container_of_page node = (case node of PageNode p \<Rightarrow> Some p | _ \<Rightarrow> None)"

partial_function (option) alloc_pages_split :: "nat \<Rightarrow> nat \<Rightarrow> pstate \<Rightarrow> pstate option" where
  "alloc_pages_split order page s =
     (if order < pord s page then
        do {
          let s = set_pg_order page (pord s page - 1) s;
          buddy \<leftarrow> page_buddy page s;
          assert (page_flag PAGE_VALID s buddy);
          s \<leftarrow> free_page buddy (pord s page) s;
          alloc_pages_split order page s
        }
      else Some s)"

partial_function (option) alloc_pages_scan ::
  "u32 \<Rightarrow> nat \<Rightarrow> nat \<Rightarrow> pstate \<Rightarrow> (nat option \<times> pstate) option" where
  "alloc_pages_scan gfp_mask order i s =
     (if i \<le> page_MAX_ORDER then
        let list = get_free_list gfp_mask i in
        if \<not> list_empty list (plists s) then
          do {
            let node = list_next list (plists s);
            let s = on_plists (list_remove node) s;
            page \<leftarrow> container_of_page node;
            assert (i = pord s page);
            s \<leftarrow> alloc_pages_split order page s;
            let s = clear_pg_flag PAGE_FREE page s;
            Some (Some page, s)
          }
        else alloc_pages_scan gfp_mask order (i + 1) s
      else Some (None, s))"

definition lock_pages :: "pstate \<Rightarrow> pstate option" where
  "lock_pages s = do { l \<leftarrow> spin_lock (page_lock s); Some (s\<lparr>page_lock := l\<rparr>) }"

definition unlock_pages :: "pstate \<Rightarrow> pstate" where
  "unlock_pages s = s\<lparr>page_lock := spin_unlock (page_lock s)\<rparr>"

definition alloc_pages :: "u32 \<Rightarrow> nat \<Rightarrow> pstate \<Rightarrow> (nat option \<times> pstate) option" where
  "alloc_pages gfp_mask order s =
     (if page_MAX_ORDER < order then Some (None, s)
      else do {
        s \<leftarrow> lock_pages s;
        (r, s) \<leftarrow> alloc_pages_scan gfp_mask order order s;
        Some (r, unlock_pages s)
      })"

partial_function (option) free_pages_merge :: "nat \<Rightarrow> pstate \<Rightarrow> (nat \<times> pstate) option" where
  "free_pages_merge page s =
     (if pord s page < page_MAX_ORDER then
        do {
          buddy \<leftarrow> page_buddy page s;
          if \<not> page_flag PAGE_VALID s buddy \<or> \<not> page_flag PAGE_FREE s buddy then Some (page, s)
          else do {
            let s = on_plists (list_remove (PageNode buddy)) s;
            let page = (if buddy < page then buddy else page);
            let s = set_pg_order page (pord s page + 1) s;
            free_pages_merge page s
          }
        }
      else Some (page, s))"

definition free_pages :: "nat \<Rightarrow> pstate \<Rightarrow> pstate option" where
  "free_pages page s =
     do {
       s \<leftarrow> lock_pages s;
       (page, s) \<leftarrow> free_pages_merge page s;
       s \<leftarrow> free_page page (pord s page) s;
       Some (unlock_pages s)
     }"

definition page_init :: "pstate \<Rightarrow> pstate" where
  "page_init s =
     (let s = fold (\<lambda>order s. on_plists (list_init (PFree False order))
                              (on_plists (list_init (PFree True order)) s))
                [0 ..< page_MAX_ORDER + 1] s
      in s\<lparr>page_lock := spinlock_init (page_lock s)\<rparr>)"

declare init_free_loop.simps [code] mark_pages.simps [code] add_free_pages.simps [code]
  alloc_pages_split.simps [code] alloc_pages_scan.simps [code] free_pages_merge.simps [code]

section \<open>The invariant\<close>

lemma page_flag_distinct [simp]:
  "PAGE_FREE \<noteq> PAGE_VALID" "PAGE_VALID \<noteq> PAGE_FREE" "PAGE_FREE \<noteq> PAGE_HIGHMEM"
  "PAGE_HIGHMEM \<noteq> PAGE_FREE" "PAGE_VALID \<noteq> PAGE_HIGHMEM" "PAGE_HIGHMEM \<noteq> PAGE_VALID"
  "PAGE_SLAB \<noteq> PAGE_FREE" "PAGE_FREE \<noteq> PAGE_SLAB" "PAGE_SLAB \<noteq> PAGE_VALID"
  "PAGE_VALID \<noteq> PAGE_SLAB" "PAGE_SLAB \<noteq> PAGE_HIGHMEM" "PAGE_HIGHMEM \<noteq> PAGE_SLAB"
  "PAGE_FREE < 32" "PAGE_VALID < 32" "PAGE_HIGHMEM < 32" "PAGE_SLAB < 32"
  by (simp_all add: page_consts)

lemma pstate_simps [simp]:
  "pord (set_pg_order b k s) = (pord s)(b := k)"
  "page_flag nr (set_pg_order b k s) = page_flag nr s"
  "pord (set_pg_flag nr b s) = pord s" "pord (clear_pg_flag nr b s) = pord s"
  "nr < 32 \<Longrightarrow> page_flag nr (set_pg_flag nr b s) = (page_flag nr s)(b := True)"
  "nr \<noteq> nr' \<Longrightarrow> page_flag nr (set_pg_flag nr' b s) = page_flag nr s"
  "page_flag nr (clear_pg_flag nr b s) = (page_flag nr s)(b := False)"
  "nr \<noteq> nr' \<Longrightarrow> page_flag nr (clear_pg_flag nr' b s) = page_flag nr s"
  "pord (on_plists g s) = pord s" "page_flag nr (on_plists g s) = page_flag nr s"
  "plists (on_plists g s) = g (plists s)" "pages (on_plists g s) = pages s"
  "plists (on_page b h s) = plists s"
  "plists (set_pg_order b k s) = plists s" "plists (set_pg_flag nr b s) = plists s"
  "plists (clear_pg_flag nr b s) = plists s"
  by (auto simp: set_pg_order_def set_pg_flag_def clear_pg_flag_def on_plists_def on_page_def
      pord_def page_flag_def fun_eq_iff)

lemma pstate_frame [simp]:
  "page_lock (on_page b h s) = page_lock s" "page_lock (on_plists g s) = page_lock s"
  "page_lock (set_pg_order b k s) = page_lock s" "page_lock (set_pg_flag nr b s) = page_lock s"
  "page_lock (clear_pg_flag nr b s) = page_lock s"
  "highmem_start_pfn (on_page b h s) = highmem_start_pfn s"
  "highmem_start_pfn (on_plists g s) = highmem_start_pfn s"
  "highmem_start_pfn (set_pg_order b k s) = highmem_start_pfn s"
  "highmem_start_pfn (set_pg_flag nr b s) = highmem_start_pfn s"
  "highmem_start_pfn (clear_pg_flag nr b s) = highmem_start_pfn s"
  by (auto simp: set_pg_order_def set_pg_flag_def clear_pg_flag_def on_plists_def on_page_def)

text \<open>The heads of the free lists, and the contents of all lists that use page nodes.\<close>

definition pheads :: "pnode set" where
  "pheads = {PFree z k | z k. k \<le> page_MAX_ORDER}"

definition slab_heads :: "pnode set" where
  "slab_heads = range SlabsPartial \<union> range SlabsFull"

definition plist_of :: "(bool \<times> nat \<Rightarrow> nat list) \<Rightarrow> (pnode \<Rightarrow> nat list) \<Rightarrow> pnode \<Rightarrow> pnode list" where
  "plist_of f sl node = map PageNode (case node of PFree z k \<Rightarrow> f (z, k) | _ \<Rightarrow> sl node)"

definition prel :: "pnode set \<Rightarrow> (pnode \<Rightarrow> nat list) \<Rightarrow> pstate \<Rightarrow> (bool \<times> nat \<Rightarrow> nat list) \<Rightarrow> bool" where
  "prel S sl s f \<longleftrightarrow> S \<subseteq> slab_heads \<and> dlists (plists s) (pheads \<union> S) (plist_of f sl) \<and>
     (\<forall>p. \<forall>b \<in> set (f p). page_flag PAGE_FREE s b \<and> page_flag PAGE_HIGHMEM s b = fst p)"

definition valid_pages :: "pstate \<Rightarrow> nat set" where
  "valid_pages s = {p. p < TOTAL_PAGES \<and> page_flag PAGE_VALID s p}"

abbreviation pbinv :: "pstate \<Rightarrow> (bool \<times> nat \<Rightarrow> nat list) \<Rightarrow> nat set \<Rightarrow> bool" where
  "pbinv s f A \<equiv> binv page_MAX_ORDER (valid_pages s) (pord s) f A"

definition page_inv :: "pnode set \<Rightarrow> (pnode \<Rightarrow> nat list) \<Rightarrow> pstate \<Rightarrow> nat set \<Rightarrow> bool" where
  "page_inv S sl s A \<longleftrightarrow> counter (page_lock s) = 0 \<and> (\<forall>a \<in> A. \<not> page_flag PAGE_FREE s a) \<and>
     (\<forall>q \<in> S. set (sl q) \<subseteq> A) \<and> (\<exists>f. pbinv s f A \<and> prel S sl s f)"

lemma plist_of_PFree [simp]: "plist_of f sl (PFree z k) = map PageNode (f (z, k))"
  by (simp add: plist_of_def)

lemma plist_of_upd:
  "plist_of (f((z, k) := bs)) sl = (plist_of f sl)(PFree z k := map PageNode bs)"
  by (auto simp: plist_of_def fun_eq_iff split: pnode.splits)

lemma pheads_iff [simp]: "PFree z k \<in> pheads \<longleftrightarrow> k \<le> page_MAX_ORDER" "PageNode b \<notin> pheads"
  "PageNode b \<notin> slab_heads" "PFree z k \<notin> slab_heads"
  by (auto simp: pheads_def slab_heads_def)

lemma PageNode_in_nodes:
  assumes "PageNode b \<in> nodes_of (pheads \<union> S) (plist_of f sl)" "S \<subseteq> slab_heads"
  shows "(\<exists>p. b \<in> set (f p)) \<or> (\<exists>q \<in> S. b \<in> set (sl q))"
  using assms by (auto simp: nodes_of_def pheads_def plist_of_def slab_heads_def split: pnode.splits)

lemma prel_insert:
  assumes "prel S sl s f" "k \<le> page_MAX_ORDER" "\<forall>p. b \<notin> set (f p)" "\<forall>q \<in> S. b \<notin> set (sl q)"
    and "page_flag PAGE_FREE s b" "page_flag PAGE_HIGHMEM s b = z"
  shows "prel S sl (on_plists (list_insert (PFree z k) (PageNode b)) s) (f((z, k) := b # f (z, k)))"
proof -
  have "dlists (list_insert (PFree z k) (PageNode b) (plists s)) (pheads \<union> S)
    ((plist_of f sl)(PFree z k := PageNode b # plist_of f sl (PFree z k)))"
    using assms PageNode_in_nodes [of b S f sl] by (intro dlists_insert) (auto simp: prel_def)
  then show ?thesis using assms by (auto simp: prel_def plist_of_upd)
qed

lemma prel_remove:
  assumes "prel S sl s f" "k \<le> page_MAX_ORDER" "b \<in> set (f (z, k))"
  shows "prel S sl (on_plists (list_remove (PageNode b)) s) (f((z, k) := remove1 b (f (z, k))))"
proof -
  have "dlists (list_remove (PageNode b) (plists s)) (pheads \<union> S)
    ((plist_of f sl)(PFree z k := remove1 (PageNode b) (plist_of f sl (PFree z k))))"
    using assms by (intro dlists_remove) (auto simp: prel_def)
  moreover have "remove1 (PageNode b) (map PageNode bs) = map PageNode (remove1 b bs)" for bs
    by (induction bs) auto
  moreover have "set ((f((z, k) := remove1 b (f (z, k)))) p) \<subseteq> set (f p)" for p
    using set_remove1_subset [of b "f (z, k)"] by auto
  then have "\<forall>p. \<forall>c \<in> set ((f((z, k) := remove1 b (f (z, k)))) p).
      page_flag PAGE_FREE s c \<and> page_flag PAGE_HIGHMEM s c = fst p"
    using assms(1) unfolding prel_def by blast
  ultimately show ?thesis using assms(1) unfolding prel_def plist_of_upd by simp
qed

lemma prel_cong:
  assumes "prel S sl s f" "plists t = plists s"
    and "\<forall>p. \<forall>b \<in> set (f p). page_flag PAGE_FREE t b = page_flag PAGE_FREE s b \<and>
      page_flag PAGE_HIGHMEM t b = page_flag PAGE_HIGHMEM s b"
  shows "prel S sl t f"
  using assms unfolding prel_def by metis

lemma prel_list:
  assumes "prel S sl s f" "k \<le> page_MAX_ORDER"
  shows "list_empty (PFree z k) (plists s) \<longleftrightarrow> f (z, k) = []"
    "f (z, k) = b # bs \<Longrightarrow> list_next (PFree z k) (plists s) = PageNode b"
proof -
  have d: "dlist (plists s) (PFree z k) (map PageNode (f (z, k)))"
    using assms dlists_dlist [of "plists s" "pheads \<union> S" "plist_of f sl" "PFree z k"]
    by (auto simp: prel_def)
  then show "list_empty (PFree z k) (plists s) \<longleftrightarrow> f (z, k) = []" using dlist_list_empty by fastforce
  show "f (z, k) = b # bs \<Longrightarrow> list_next (PFree z k) (plists s) = PageNode b"
    using d dlist_list_next by fastforce
qed

lemma valid_pages_simps [simp]:
  "valid_pages (on_plists g s) = valid_pages s" "valid_pages (set_pg_order b k s) = valid_pages s"
  "valid_pages (set_pg_flag PAGE_FREE b s) = valid_pages s"
  "valid_pages (clear_pg_flag PAGE_FREE b s) = valid_pages s"
  by (simp_all add: valid_pages_def)

text \<open>What \<open>free_page\<close> does to the abstract free lists.\<close>

lemma free_page_prel:
  assumes "prel S sl s f" "k \<le> page_MAX_ORDER" "\<forall>p. b \<notin> set (f p)" "\<forall>q \<in> S. b \<notin> set (sl q)"
    and "b < TOTAL_PAGES"
  defines "z \<equiv> page_flag PAGE_HIGHMEM s b"
  shows "\<exists>t. free_page b k s = Some t \<and> prel S sl t (f((z, k) := b # f (z, k))) \<and>
    pord t = (pord s)(b := k) \<and> page_flag PAGE_FREE t = (page_flag PAGE_FREE s)(b := True) \<and>
    page_flag PAGE_VALID t = page_flag PAGE_VALID s \<and>
    page_flag PAGE_HIGHMEM t = page_flag PAGE_HIGHMEM s \<and>
    page_lock t = page_lock s \<and> highmem_start_pfn t = highmem_start_pfn s"
proof -
  let ?u = "set_pg_order b k (set_pg_flag PAGE_FREE b s)"
  let ?t = "on_plists (list_insert (PFree z k) (PageNode b)) ?u"
  have "prel S sl ?u f" by (rule prel_cong [OF assms(1)]) (use assms(3) in auto)
  then have "prel S sl ?t (f((z, k) := b # f (z, k)))"
    using assms by (intro prel_insert) (auto simp: z_def)
  moreover have "free_page b k s = Some ?t"
    using assms(5) by (simp add: free_page_def z_def Let_def)
  ultimately show ?thesis by (intro exI [of _ ?t]) simp
qed

section \<open>Allocation\<close>

lemma page_buddy_eq:
  "page_buddy b s = (if b XOR 2 ^ pord s b < TOTAL_PAGES then Some (b XOR 2 ^ pord s b) else None)"
  by (simp add: page_buddy_def page_to_pfn_def pfn_to_page_def Let_def)

text \<open>The parts of the state that allocation and freeing leave alone.\<close>

definition same_zones :: "pstate \<Rightarrow> pstate \<Rightarrow> bool" where
  "same_zones s t \<longleftrightarrow> page_flag PAGE_VALID t = page_flag PAGE_VALID s \<and>
     page_flag PAGE_HIGHMEM t = page_flag PAGE_HIGHMEM s \<and> page_lock t = page_lock s \<and>
     highmem_start_pfn t = highmem_start_pfn s"

lemma same_zones_trans: "same_zones s t \<Longrightarrow> same_zones t u \<Longrightarrow> same_zones s u"
  by (simp add: same_zones_def)

lemma same_zones_valid: "same_zones s t \<Longrightarrow> valid_pages t = valid_pages s"
  by (simp add: same_zones_def valid_pages_def)

lemma alloc_pages_split_correct:
  assumes "pbinv s f A" "prel S sl s f" "\<forall>q \<in> S. set (sl q) \<subseteq> A" "b \<in> A" "pord s b = order + n"
  shows "\<exists>t g. alloc_pages_split order b s = Some t \<and> pbinv t g A \<and> prel S sl t g \<and>
    pord t b = order \<and> (\<forall>a \<in> A - {b}. pord t a = pord s a) \<and>
    (\<forall>a \<in> A. page_flag PAGE_FREE t a = page_flag PAGE_FREE s a) \<and> same_zones s t"
  using assms
proof (induction n arbitrary: s f)
  case 0
  then have "alloc_pages_split order b s = Some s" by (subst alloc_pages_split.simps) simp
  with 0 show ?case by (auto simp: same_zones_def)
next
  case (Suc n)
  define k where "k = order + n"
  define c where "c = b XOR 2 ^ k"
  let ?s1 = "set_pg_order b k s"
  define z where "z = page_flag PAGE_HIGHMEM ?s1 c"
  let ?g = "f((z, k) := c # f (z, k))"
  have ok: "pord s b = Suc k" using Suc.prems by (simp add: k_def)
  note sp1 = binv_split(1) [OF Suc.prems(1,4) ok, where z = z, folded c_def]
  note sp = binv_split(2-4) [OF Suc.prems(1,4) ok, folded c_def]
  have kM: "k \<le> page_MAX_ORDER"
    using binvD(3) [OF Suc.prems(1), of b] Suc.prems(4) ok by (simp add: heads_def)
  have bc: "b \<noteq> c" using sp(2) by simp
  have cA: "c \<notin> A" "\<forall>p. c \<notin> set (f p)" using sp(1) by (auto simp: heads_def)
  have cv: "c < TOTAL_PAGES" "page_flag PAGE_VALID s c" using sp(3) by (auto simp: valid_pages_def)
  have bud: "page_buddy b ?s1 = Some c" using cv by (simp add: page_buddy_eq flip: c_def)
  have "prel S sl ?s1 f" by (rule prel_cong [OF Suc.prems(2)]) auto
  then obtain s3 where s3: "free_page c k ?s1 = Some s3" "prel S sl s3 ?g"
    "pord s3 = (pord ?s1)(c := k)" "page_flag PAGE_FREE s3 = (page_flag PAGE_FREE ?s1)(c := True)"
    "same_zones ?s1 s3"
    using free_page_prel [of S sl ?s1 f k c] kM cA cv Suc.prems(3) unfolding z_def same_zones_def
    by blast
  have step: "alloc_pages_split order b s = alloc_pages_split order b s3"
    using ok bud s3(1) cv by (subst alloc_pages_split.simps) (simp add: k_def)
  have zs: "same_zones s s3" using s3(5) by (simp add: same_zones_def)
  have 1: "pbinv s3 ?g A" using sp1 s3(3) same_zones_valid [OF zs] by simp
  have "pord s3 b = order + n" using bc s3(3) by (simp add: k_def)
  from Suc.IH [OF 1 s3(2) Suc.prems(3,4) this] obtain t g where
    t: "alloc_pages_split order b s3 = Some t" "pbinv t g A" "prel S sl t g" "pord t b = order"
      "\<forall>a \<in> A - {b}. pord t a = pord s3 a"
      "\<forall>a \<in> A. page_flag PAGE_FREE t a = page_flag PAGE_FREE s3 a" "same_zones s3 t" by blast
  have "\<forall>a \<in> A - {b}. pord t a = pord s a"
    "\<forall>a \<in> A. page_flag PAGE_FREE t a = page_flag PAGE_FREE s a"
    using t(5,6) cA s3(3,4) by auto
  then show ?case unfolding step using t(1-4) same_zones_trans [OF zs t(7)] by blast
qed

definition zone_of :: "u32 \<Rightarrow> bool" where
  "zone_of gfp_mask \<longleftrightarrow> gfp_mask AND GFP_HIGHMEM \<noteq> 0"

lemma get_free_list_eq: "get_free_list gfp_mask k = PFree (zone_of gfp_mask) k"
  by (simp add: get_free_list_def zone_of_def)

lemma alloc_pages_scan_correct:
  assumes f: "pbinv s f A" "prel S sl s f" and nf: "\<forall>a \<in> A. \<not> page_flag PAGE_FREE s a"
    and sl: "\<forall>q \<in> S. set (sl q) \<subseteq> A" and "order \<le> i"
  shows "(alloc_pages_scan gm order i s = Some (None, s) \<and>
      (\<forall>k. i \<le> k \<and> k \<le> page_MAX_ORDER \<longrightarrow> list_empty (get_free_list gm k) (plists s))) \<or>
    (\<exists>b t g. alloc_pages_scan gm order i s = Some (Some b, t) \<and> b \<notin> A \<and>
      pbinv t g (insert b A) \<and> prel S sl t g \<and> (\<forall>a \<in> insert b A. \<not> page_flag PAGE_FREE t a) \<and>
      pord t b = order \<and> page_flag PAGE_HIGHMEM t b = zone_of gm \<and>
      (\<forall>a \<in> A. pord t a = pord s a) \<and> same_zones s t)"
  using assms(5)
proof (induction "page_MAX_ORDER + 1 - i" arbitrary: i)
  case 0
  then have "alloc_pages_scan gm order i s = Some (None, s)"
    by (subst alloc_pages_scan.simps) simp
  with 0 show ?case by auto
next
  case (Suc n)
  then have iM: "i \<le> page_MAX_ORDER" by simp
  let ?z = "zone_of gm"
  note get = get_free_list_eq
  show ?case
  proof (cases "f (?z, i)")
    case Nil
    then have e: "list_empty (PFree ?z i) (plists s)" using prel_list(1) [OF f(2) iM] by simp
    then have step: "alloc_pages_scan gm order i s = alloc_pages_scan gm order (i + 1) s"
      using iM by (subst alloc_pages_scan.simps) (simp add: get Let_def)
    have all: "\<forall>k. i \<le> k \<and> k \<le> page_MAX_ORDER \<longrightarrow> list_empty (get_free_list gm k) (plists s)"
      if "\<forall>k. i + 1 \<le> k \<and> k \<le> page_MAX_ORDER \<longrightarrow> list_empty (get_free_list gm k) (plists s)"
    proof (intro allI impI)
      fix k assume "i \<le> k \<and> k \<le> page_MAX_ORDER"
      then show "list_empty (get_free_list gm k) (plists s)"
        using that e by (cases "k = i") (auto simp: get)
    qed
    have "n = page_MAX_ORDER + 1 - (i + 1)" "order \<le> i + 1" using Suc.hyps(2) Suc.prems by auto
    from Suc.hyps(1) [OF this] show ?thesis
    proof
      assume "alloc_pages_scan gm order (i + 1) s = Some (None, s) \<and>
        (\<forall>k. i + 1 \<le> k \<and> k \<le> page_MAX_ORDER \<longrightarrow> list_empty (get_free_list gm k) (plists s))"
      with all step show ?thesis by simp
    qed (simp add: step)
  next
    case (Cons b bs)
    let ?s1 = "on_plists (list_remove (PageNode b)) s" and ?g = "f((?z, i) := bs)"
    have ne: "\<not> list_empty (PFree ?z i) (plists s)" using prel_list(1) [OF f(2) iM] Cons by simp
    have nx: "list_next (PFree ?z i) (plists s) = PageNode b"
      using f(2) iM Cons by (rule prel_list(2))
    have b: "b \<in> set (f (?z, i))" using Cons by simp
    have bA: "b \<notin> A" and ob: "pord s b = i" using binvD(4,5) [OF f(1)] b by blast+
    have bz: "page_flag PAGE_HIGHMEM s b = ?z" using f(2) b by (fastforce simp: prel_def)
    have 1: "pbinv ?s1 ?g (insert b A)" using binv_take [OF f(1) Cons] by simp
    have 2: "prel S sl ?s1 ?g" using prel_remove [OF f(2) iM b] Cons by simp
    have sl': "\<forall>q \<in> S. set (sl q) \<subseteq> insert b A" using sl by auto
    have "pord ?s1 b = order + (i - order)" using ob Suc.prems by simp
    then obtain t g where t: "alloc_pages_split order b ?s1 = Some t" "pbinv t g (insert b A)"
      "prel S sl t g" "pord t b = order" "\<forall>a \<in> insert b A - {b}. pord t a = pord ?s1 a"
      "\<forall>a \<in> insert b A. page_flag PAGE_FREE t a = page_flag PAGE_FREE ?s1 a" "same_zones ?s1 t"
      using alloc_pages_split_correct [OF 1 2 sl', of b] by blast
    let ?t = "clear_pg_flag PAGE_FREE b t"
    have "alloc_pages_scan gm order i s = Some (Some b, ?t)"
      using iM ne nx ob t(1)
      by (subst alloc_pages_scan.simps) (simp add: container_of_page_def get Let_def)
    moreover have "b \<notin> set (g p)" for p using binvD(5) [OF t(2)] by blast
    then have "prel S sl ?t g" by (intro prel_cong [OF t(3)]) auto
    moreover have "pbinv ?t g (insert b A)" using t(2) by simp
    moreover have "\<forall>a \<in> insert b A. \<not> page_flag PAGE_FREE ?t a" using t(6) nf by auto
    moreover have "same_zones s ?t" "page_flag PAGE_HIGHMEM ?t b = ?z"
      using t(7) bz by (auto simp: same_zones_def)
    moreover have "pord ?t b = order" "\<forall>a \<in> A. pord ?t a = pord s a" using bA t(4,5) by auto
    ultimately show ?thesis using bA by blast
  qed
qed

lemma lock_pages_eq:
  "counter (page_lock s) = 0 \<Longrightarrow> lock_pages s = Some (s\<lparr>page_lock := (page_lock s)\<lparr>counter := 1\<rparr>\<rparr>)"
  by (simp add: lock_pages_def spin_lock_eq)

lemma page_lock_simps [simp]:
  "pord (page_lock_update g s) = pord s" "page_flag nr (page_lock_update g s) = page_flag nr s"
  "valid_pages (page_lock_update g s) = valid_pages s"
  "prel S sl (page_lock_update g s) f = prel S sl s f"
  "pord (unlock_pages s) = pord s" "page_flag nr (unlock_pages s) = page_flag nr s"
  "valid_pages (unlock_pages s) = valid_pages s" "prel S sl (unlock_pages s) f = prel S sl s f"
  "counter (page_lock (unlock_pages s)) = 0"
  "highmem_start_pfn (unlock_pages s) = highmem_start_pfn s"
  by (auto simp: pord_def page_flag_def fun_eq_iff valid_pages_def prel_def unlock_pages_def
      spin_unlock_def atomic_set_def)

lemma unlock_lock_pages:
  "counter (page_lock s) = 0 \<Longrightarrow> unlock_pages (s\<lparr>page_lock := (page_lock s)\<lparr>counter := 1\<rparr>\<rparr>) = s"
  by (simp add: unlock_pages_def spin_unlock_def atomic_set_def)

lemma alloc_pages_correct:
  assumes I: "page_inv S sl s A" and k: "order \<le> page_MAX_ORDER"
  shows "(alloc_pages gm order s = Some (None, s) \<and>
      (\<forall>k. order \<le> k \<and> k \<le> page_MAX_ORDER \<longrightarrow> list_empty (get_free_list gm k) (plists s))) \<or>
    (\<exists>b t. alloc_pages gm order s = Some (Some b, t) \<and> b \<notin> A \<and> page_inv S sl t (insert b A) \<and>
      pord t b = order \<and> page_flag PAGE_HIGHMEM t b = zone_of gm \<and>
      (\<forall>a \<in> A. pord t a = pord s a) \<and> valid_pages t = valid_pages s \<and>
      page_flag PAGE_HIGHMEM t = page_flag PAGE_HIGHMEM s \<and> highmem_start_pfn t = highmem_start_pfn s)"
proof -
  obtain f where l: "counter (page_lock s) = 0" and nf: "\<forall>a \<in> A. \<not> page_flag PAGE_FREE s a"
    and sl: "\<forall>q \<in> S. set (sl q) \<subseteq> A" and f: "pbinv s f A" "prel S sl s f"
    using I by (auto simp: page_inv_def)
  let ?s = "s\<lparr>page_lock := (page_lock s)\<lparr>counter := 1\<rparr>\<rparr>"
  have f': "pbinv ?s f A" "prel S sl ?s f" "\<forall>a \<in> A. \<not> page_flag PAGE_FREE ?s a"
    using f nf by simp_all
  from alloc_pages_scan_correct [OF f' sl order_refl, of gm order] show ?thesis
  proof
    assume "alloc_pages_scan gm order order ?s = Some (None, ?s) \<and>
      (\<forall>k. order \<le> k \<and> k \<le> page_MAX_ORDER \<longrightarrow> list_empty (get_free_list gm k) (plists ?s))"
    then show ?thesis
      using k by (simp add: alloc_pages_def lock_pages_eq [OF l] unlock_lock_pages [OF l])
  next
    assume "\<exists>b t g. alloc_pages_scan gm order order ?s = Some (Some b, t) \<and> b \<notin> A \<and>
      pbinv t g (insert b A) \<and> prel S sl t g \<and> (\<forall>a \<in> insert b A. \<not> page_flag PAGE_FREE t a) \<and>
      pord t b = order \<and> page_flag PAGE_HIGHMEM t b = zone_of gm \<and>
      (\<forall>a \<in> A. pord t a = pord ?s a) \<and> same_zones ?s t"
    then obtain b t g where t: "alloc_pages_scan gm order order ?s = Some (Some b, t)" "b \<notin> A"
      "pbinv t g (insert b A)" "prel S sl t g" "\<forall>a \<in> insert b A. \<not> page_flag PAGE_FREE t a"
      "pord t b = order" "page_flag PAGE_HIGHMEM t b = zone_of gm"
      "\<forall>a \<in> A. pord t a = pord ?s a" "same_zones ?s t" by blast
    have "alloc_pages gm order s = Some (Some b, unlock_pages t)"
      using k t(1) by (simp add: alloc_pages_def lock_pages_eq [OF l])
    moreover have "page_inv S sl (unlock_pages t) (insert b A)"
      using t(3-5) sl by (auto simp: page_inv_def)
    ultimately show ?thesis
      using t(2,6-9) same_zones_valid [OF t(9)] by (auto simp: same_zones_def)
  qed
qed

section \<open>Freeing\<close>

text \<open>As for the early heap: every free buddy met on the way up has the order of the block.\<close>

function page_merge_ok :: "pstate \<Rightarrow> nat \<Rightarrow> nat \<Rightarrow> bool" where
  "page_merge_ok s b k =
     (if k < page_MAX_ORDER \<and> page_flag PAGE_VALID s (b XOR 2 ^ k) \<and> page_flag PAGE_FREE s (b XOR 2 ^ k)
      then pord s (b XOR 2 ^ k) = k \<and> page_merge_ok s (min b (b XOR 2 ^ k)) (Suc k)
      else True)"
  by pat_completeness auto
termination
  by (relation "measure (\<lambda>(s, b, k). page_MAX_ORDER - k)") auto

declare page_merge_ok.simps [simp del]

definition page_free_ok :: "pnode set \<Rightarrow> (pnode \<Rightarrow> nat list) \<Rightarrow> pstate \<Rightarrow> nat \<Rightarrow> bool" where
  "page_free_ok S sl s b \<longleftrightarrow> page_merge_ok s b (pord s b) \<and> (\<forall>q \<in> S. b \<notin> set (sl q))"

lemma page_merge_ok_cong:
  assumes "2 ^ k dvd b" "page_flag PAGE_VALID t = page_flag PAGE_VALID s"
    "page_flag PAGE_FREE t = page_flag PAGE_FREE s" "\<forall>x. x \<notin> region b k \<longrightarrow> pord t x = pord s x"
  shows "page_merge_ok t b k = page_merge_ok s b k"
  using assms
proof (induction s b k rule: page_merge_ok.induct)
  case (1 s b k)
  let ?c = "b XOR 2 ^ k"
  note pr = buddy_pair [OF 1(2)]
  have "?c \<notin> region b k" using pr(7) by auto
  then have "pord t ?c = pord s ?c" using 1(5) by blast
  moreover have "page_merge_ok t (min b ?c) (Suc k) = page_merge_ok s (min b ?c) (Suc k)"
    if "k < page_MAX_ORDER \<and> page_flag PAGE_VALID s ?c \<and> page_flag PAGE_FREE s ?c"
    by (rule 1(1) [OF that pr(4) 1(3,4)]) (use pr(6) 1(5) in auto)
  ultimately show ?case
    using 1(3,4) by (simp add: page_merge_ok.simps [of t b k] page_merge_ok.simps [of s b k])
qed

lemma free_pages_merge_correct:
  assumes "pbinv s f A" "prel S sl s f" "b \<in> A" "\<forall>a \<in> A - {b}. \<not> page_flag PAGE_FREE s a"
    and "page_merge_ok s b (pord s b)" "n = page_MAX_ORDER - pord s b"
  shows "\<exists>b' t g. free_pages_merge b s = Some (b', t) \<and> pbinv t g (A - {b} \<union> {b'}) \<and> prel S sl t g \<and>
    b' \<notin> A - {b} \<and> (\<forall>a \<in> A - {b}. pord t a = pord s a) \<and>
    page_flag PAGE_FREE t = page_flag PAGE_FREE s \<and> same_zones s t"
  using assms
proof (induction n arbitrary: s f A b)
  case 0
  then have "free_pages_merge b s = Some (b, s)" by (subst free_pages_merge.simps) simp
  moreover have "A - {b} \<union> {b} = A" using 0 by auto
  ultimately show ?case
    using 0 by (intro exI [of _ b] exI [of _ s] exI [of _ f]) (auto simp: same_zones_def)
next
  case (Suc n)
  define k where "k = pord s b"
  define c where "c = b XOR 2 ^ k"
  have kM: "k < page_MAX_ORDER" using Suc.prems(6) by (simp add: k_def)
  have bh: "b \<in> heads f A" using Suc.prems(3) by (simp add: heads_def)
  have "b \<in> cover (pord s) (heads f A)" unfolding cover_def using bh region_head by blast
  then have "b < 2 ^ 20" unfolding binvD(2) [OF Suc.prems(1)] by (simp add: valid_pages_def page_consts)
  then have "c < 2 ^ 20" unfolding c_def by (rule xor_power_bound) (use kM in \<open>simp add: page_consts\<close>)
  then have cR: "c < TOTAL_PAGES" by (simp add: page_consts)
  have bk: "2 ^ k dvd b" using tiles_aligned [OF binvD(1) [OF Suc.prems(1)] bh] by (simp add: k_def)
  note pr = buddy_pair [OF bk, folded c_def]
  have bud: "page_buddy b s = Some c" using cR by (simp add: page_buddy_eq c_def k_def)
  show ?case
  proof (cases "page_flag PAGE_VALID s c \<and> page_flag PAGE_FREE s c")
    case False
    then have "free_pages_merge b s = Some (b, s)" using bud by (subst free_pages_merge.simps) auto
    moreover have "A - {b} \<union> {b} = A" using Suc.prems by auto
    ultimately show ?thesis
      using Suc.prems by (intro exI [of _ b] exI [of _ s] exI [of _ f]) (auto simp: same_zones_def)
  next
    case True
    have m: "page_merge_ok s b k" using Suc.prems(5) by (simp add: k_def)
    then have kc: "pord s c = k" and mc: "page_merge_ok s (min b c) (Suc k)"
      using True kM by (auto simp: page_merge_ok.simps [of s b k] c_def)
    have "c \<in> valid_pages s" using True cR by (simp add: valid_pages_def)
    then have "c \<in> heads f A"
      using binv_buddy_head(1) [OF Suc.prems(1,3)] by (simp add: c_def k_def)
    moreover have cA: "c \<notin> A" using True Suc.prems(4) pr(1) by auto
    ultimately obtain p where p: "c \<in> set (f p)" by (auto simp: heads_def)
    obtain z where "p = (z, k)" using binvD(4) [OF Suc.prems(1), of c "fst p" "snd p"] kc p by (cases p) auto
    with p have cf: "c \<in> set (f (z, k))" by simp
    define b' where "b' = min b c"
    let ?s1 = "on_plists (list_remove (PageNode c)) s"
    let ?s2 = "set_pg_order b' (Suc k) ?s1"
    let ?g = "f((z, k) := remove1 c (f (z, k)))"
    let ?A = "A - {b} \<union> {b'}"
    have b': "b' = (if c < b then c else b)" by (auto simp: b'_def min_def)
    have ob': "pord s b' = k" using kc by (auto simp: b' k_def)
    have step: "free_pages_merge b s = free_pages_merge b' ?s2"
      using bud True kM ob' by (subst free_pages_merge.simps) (simp add: b' k_def)
    have bA: "b' \<notin> A - {b}" using cA by (auto simp: b')
    then have A: "?A - {b'} = A - {b}" by auto
    have 1: "pbinv ?s2 ?g ?A"
      using binv_merge [OF Suc.prems(1,3) _ kM, of z] cf by (simp add: c_def b'_def k_def)
    have "prel S sl ?s1 ?g" using kM cf by (intro prel_remove [OF Suc.prems(2)]) auto
    then have 2: "prel S sl ?s2 ?g" by (rule prel_cong) auto
    have "page_merge_ok ?s2 b' (Suc k) = page_merge_ok s b' (Suc k)"
      by (rule page_merge_ok_cong) (use pr(4) in \<open>auto simp: b'_def\<close>)
    with mc have 3: "page_merge_ok ?s2 b' (pord ?s2 b')" by (simp add: b'_def)
    have "\<exists>b'' t g. free_pages_merge b' ?s2 = Some (b'', t) \<and> pbinv t g (?A - {b'} \<union> {b''}) \<and>
        prel S sl t g \<and> b'' \<notin> ?A - {b'} \<and> (\<forall>a \<in> ?A - {b'}. pord t a = pord ?s2 a) \<and>
        page_flag PAGE_FREE t = page_flag PAGE_FREE ?s2 \<and> same_zones ?s2 t"
      by (rule Suc.IH [OF 1 2 _ _ 3]) (use A Suc.prems(4,6) in \<open>auto simp: k_def\<close>)
    then obtain b'' t g where t: "free_pages_merge b' ?s2 = Some (b'', t)" "pbinv t g (A - {b} \<union> {b''})"
      "prel S sl t g" "b'' \<notin> A - {b}" "\<forall>a \<in> A - {b}. pord t a = pord ?s2 a"
      "page_flag PAGE_FREE t = page_flag PAGE_FREE ?s2" "same_zones ?s2 t"
      unfolding A by blast
    have "\<forall>a \<in> A - {b}. pord t a = pord s a" using t(5) bA by auto
    moreover have "page_flag PAGE_FREE t = page_flag PAGE_FREE s" "same_zones s t"
      using t(6,7) by (auto simp: same_zones_def)
    ultimately show ?thesis unfolding step using t(1-4) by blast
  qed
qed

lemma free_pages_correct:
  assumes I: "page_inv S sl s A" and b: "b \<in> A" and ok: "page_free_ok S sl s b"
  shows "\<exists>t. free_pages b s = Some t \<and> page_inv S sl t (A - {b}) \<and>
    (\<forall>a \<in> A - {b}. pord t a = pord s a) \<and> valid_pages t = valid_pages s \<and>
    page_flag PAGE_VALID t = page_flag PAGE_VALID s \<and>
    page_flag PAGE_HIGHMEM t = page_flag PAGE_HIGHMEM s \<and> highmem_start_pfn t = highmem_start_pfn s"
proof -
  obtain f where l: "counter (page_lock s) = 0" and nf: "\<forall>a \<in> A. \<not> page_flag PAGE_FREE s a"
    and sl: "\<forall>q \<in> S. set (sl q) \<subseteq> A" and f: "pbinv s f A" "prel S sl s f"
    using I by (auto simp: page_inv_def)
  let ?s = "s\<lparr>page_lock := (page_lock s)\<lparr>counter := 1\<rparr>\<rparr>"
  have m: "page_merge_ok ?s b (pord ?s b)"
    using ok page_merge_ok_cong [of "pord s b" b ?s s] f(1) b tiles_aligned [OF binvD(1) [OF f(1)], of b]
    by (simp add: page_free_ok_def heads_def)
  have "pbinv ?s f A" "prel S sl ?s f" "\<forall>a \<in> A - {b}. \<not> page_flag PAGE_FREE ?s a"
    using f nf by auto
  from free_pages_merge_correct [OF this(1,2) b this(3) m refl]
  obtain b' t g where t: "free_pages_merge b ?s = Some (b', t)" "pbinv t g (A - {b} \<union> {b'})"
    "prel S sl t g" "b' \<notin> A - {b}" "\<forall>a \<in> A - {b}. pord t a = pord ?s a"
    "page_flag PAGE_FREE t = page_flag PAGE_FREE ?s" "same_zones ?s t" by blast
  let ?k = "pord t b'" and ?A = "A - {b} \<union> {b'}" and ?z = "page_flag PAGE_HIGHMEM t b'"
  let ?g = "g((?z, ?k) := b' # g (?z, ?k))"
  have bg: "\<forall>p. b' \<notin> set (g p)" using binvD(5) [OF t(2)] by blast
  have bh: "b' \<in> heads g ?A" by (simp add: heads_def)
  have kM: "?k \<le> page_MAX_ORDER" using binvD(3) [OF t(2) bh] .
  have sl': "\<forall>q \<in> S. set (sl q) \<subseteq> A - {b}" using sl ok by (auto simp: page_free_ok_def)
  have "b' \<in> cover (pord t) (heads g ?A)" unfolding cover_def using bh region_head by blast
  then have "b' < TOTAL_PAGES" unfolding binvD(2) [OF t(2)] by (simp add: valid_pages_def)
  then obtain u where u: "free_page b' ?k t = Some u" "prel S sl u ?g" "pord u = pord t"
    "page_flag PAGE_FREE u = (page_flag PAGE_FREE t)(b' := True)" "same_zones t u"
    using free_page_prel [OF t(3) kM bg] t(4) sl' by (force simp: same_zones_def)
  have A: "?A - {b'} = A - {b}" using t(4) by auto
  have "binv page_MAX_ORDER (valid_pages t) (pord t) ?g (?A - {b'})" by (rule binv_put [OF t(2)]) auto
  then have "pbinv u ?g (A - {b})" unfolding A u(3) same_zones_valid [OF u(5)] .
  then have "page_inv S sl (unlock_pages u) (A - {b})"
    using u(2,4) t(4,6) nf sl' by (auto simp: page_inv_def)
  moreover have "free_pages b s = Some (unlock_pages u)"
    using t(1) u(1) by (simp add: free_pages_def lock_pages_eq [OF l])
  moreover have z: "same_zones ?s u" using same_zones_trans [OF t(7) u(5)] .
  ultimately show ?thesis
    using t(5) u(3) same_zones_valid [OF z] z by (auto simp: same_zones_def)
qed

lemma page_inv_tiles: "page_inv S sl s A \<Longrightarrow> tiles (pord s) A"
  unfolding page_inv_def using binvD(1) tiles_subset [of _ "heads _ A" A]
  by (metis heads_def sup_ge1)

interpretation page_allocator: block_allocator "alloc_pages gm" free_pages "page_free_ok S sl"
  page_MAX_ORDER "page_inv S sl" pord
  for gm S sl
proof
  fix s A b and k :: nat and t
  assume I: "page_inv S sl s A"
  then show "tiles (pord s) A" by (rule page_inv_tiles)
  show "k \<le> page_MAX_ORDER \<Longrightarrow> \<exists>r t. alloc_pages gm k s = Some (r, t)"
    using alloc_pages_correct [OF I, of k gm] by blast
  show "k \<le> page_MAX_ORDER \<Longrightarrow> alloc_pages gm k s = Some (Some b, t) \<Longrightarrow>
      b \<notin> A \<and> pord t b = k \<and> page_inv S sl t (insert b A) \<and> (\<forall>a \<in> A. pord t a = pord s a)"
    using alloc_pages_correct [OF I, of k gm] by auto
  show "k \<le> page_MAX_ORDER \<Longrightarrow> alloc_pages gm k s = Some (None, t) \<Longrightarrow> t = s"
    using alloc_pages_correct [OF I, of k gm] by auto
  show "b \<in> A \<Longrightarrow> page_free_ok S sl s b \<Longrightarrow>
      \<exists>t. free_pages b s = Some t \<and> page_inv S sl t (A - {b}) \<and> (\<forall>a \<in> A - {b}. pord t a = pord s a)"
    using free_pages_correct [OF I, of b] by auto
qed

section \<open>Handing memory to the allocator\<close>

lemma mark_pages_correct:
  assumes "end_pfn \<le> TOTAL_PAGES"
  shows "\<exists>t. mark_pages pfn end_pfn hm s = Some t \<and> pord t = pord s \<and> plists t = plists s \<and>
    page_flag PAGE_FREE t = page_flag PAGE_FREE s \<and> page_lock t = page_lock s \<and>
    highmem_start_pfn t = highmem_start_pfn s \<and>
    page_flag PAGE_VALID t = (\<lambda>p. p \<in> {pfn ..< end_pfn} \<or> page_flag PAGE_VALID s p) \<and>
    page_flag PAGE_HIGHMEM t = (\<lambda>p. hm \<and> p \<in> {pfn ..< end_pfn} \<or> page_flag PAGE_HIGHMEM s p)"
proof (induction "end_pfn - pfn" arbitrary: pfn s)
  case 0
  then have "mark_pages pfn end_pfn hm s = Some s" by (subst mark_pages.simps) simp
  with 0 show ?case by auto
next
  case (Suc n)
  let ?s1 = "set_pg_flag PAGE_VALID pfn s"
  let ?s2 = "if hm then set_pg_flag PAGE_HIGHMEM pfn ?s1 else ?s1"
  have lt: "pfn < end_pfn" using Suc.hyps(2) by simp
  have step: "mark_pages pfn end_pfn hm s = mark_pages (pfn + 1) end_pfn hm ?s2"
    using lt assms by (subst mark_pages.simps) (simp add: pfn_to_page_def)
  have r: "p \<in> {pfn ..< end_pfn} \<longleftrightarrow> p = pfn \<or> p \<in> {pfn + 1 ..< end_pfn}" for p
    using Suc.hyps(2) by auto
  have "n = end_pfn - (pfn + 1)" using Suc.hyps(2) by simp
  from Suc.hyps(1) [OF this, of ?s2] obtain t where
    t: "mark_pages (pfn + 1) end_pfn hm ?s2 = Some t" "pord t = pord ?s2" "plists t = plists ?s2"
      "page_flag PAGE_FREE t = page_flag PAGE_FREE ?s2" "page_lock t = page_lock ?s2"
      "highmem_start_pfn t = highmem_start_pfn ?s2"
      "page_flag PAGE_VALID t = (\<lambda>p. p \<in> {pfn + 1 ..< end_pfn} \<or> page_flag PAGE_VALID ?s2 p)"
      "page_flag PAGE_HIGHMEM t = (\<lambda>p. hm \<and> p \<in> {pfn + 1 ..< end_pfn} \<or> page_flag PAGE_HIGHMEM ?s2 p)"
    by blast
  show ?case
    unfolding step by (rule exI [of _ t]) (use t r in \<open>auto simp: fun_eq_iff\<close>)
qed

text \<open>
  \<open>init_free_pages\<close> adds a run of fresh units in blocks of one order.  Here the managed set \<open>R\<close> is a
  parameter: it grows block by block, while the pages have been marked valid before.
\<close>

lemma init_free_loop_correct:
  assumes "binv page_MAX_ORDER R (pord s) f A" "prel S sl s f" "\<forall>q \<in> S. set (sl q) \<subseteq> A"
    and "order \<le> page_MAX_ORDER" "start + nr \<le> TOTAL_PAGES" "count + 2 ^ order * n = nr"
    and "2 ^ order dvd start + count" "R \<inter> {start + count ..< start + nr} = {}"
  shows "\<exists>t g. init_free_loop start nr order count s = Some (nr, t) \<and>
    binv page_MAX_ORDER (R \<union> {start + count ..< start + nr}) (pord t) g A \<and> prel S sl t g \<and>
    same_zones s t \<and> (\<forall>a \<in> A. page_flag PAGE_FREE t a = page_flag PAGE_FREE s a \<and> pord t a = pord s a)"
  using assms
proof (induction n arbitrary: s f R count)
  case 0
  then have "init_free_loop start nr order count s = Some (nr, s)"
    by (subst init_free_loop.simps) simp
  with 0 show ?case by (intro exI [of _ s] exI [of _ f]) (auto simp: same_zones_def)
next
  case (Suc n)
  let ?b = "start + count" and ?c = "count + 2 ^ order"
  have le: "count + 2 ^ order \<le> nr" using Suc.prems(6) by (simp flip: Suc.prems(6))
  have sub: "region ?b order \<subseteq> {?b ..< start + nr}" using le by (auto simp: region_def)
  then have new: "R \<inter> region ?b order = {}" using Suc.prems(8) by blast
  define z where "z = page_flag PAGE_HIGHMEM s ?b"
  let ?g = "f((z, order) := ?b # f (z, order))" and ?R = "R \<union> region ?b order"
  note add = binv_add [OF Suc.prems(1,7,4) new]
  have bf: "\<forall>p. ?b \<notin> set (f p)" "?b \<notin> A" using add(1) by (auto simp: heads_def)
  have "0 < (2::nat) ^ order" by simp
  with le have lt: "count < nr" by linarith
  with Suc.prems(5) have bT: "?b < TOTAL_PAGES" by linarith
  obtain t where t: "free_page ?b order s = Some t" "prel S sl t ?g" "pord t = (pord s)(?b := order)"
    "page_flag PAGE_FREE t = (page_flag PAGE_FREE s)(?b := True)" "same_zones s t"
    using free_page_prel [OF Suc.prems(2,4) bf(1) _ bT] bf(2) Suc.prems(3)
    unfolding z_def same_zones_def by blast
  have step: "init_free_loop start nr order count s = init_free_loop start nr order ?c t"
    using lt t(1) by (subst init_free_loop.simps) simp
  have 1: "binv page_MAX_ORDER ?R (pord t) ?g A" using add(2) t(3) by simp
  have 2: "?c + 2 ^ order * n = nr" using Suc.prems(6) by simp
  have 3: "2 ^ order dvd start + ?c" using Suc.prems(7) by (simp flip: add.assoc)
  have split: "region ?b order \<union> {start + ?c ..< start + nr} = {?b ..< start + nr}"
    using le by (auto simp: region_def)
  have 4: "?R \<inter> {start + ?c ..< start + nr} = {}"
    using Suc.prems(8) by (auto simp: region_def)
  obtain u g where u: "init_free_loop start nr order ?c t = Some (nr, u)"
    "binv page_MAX_ORDER (?R \<union> {start + ?c ..< start + nr}) (pord u) g A" "prel S sl u g"
    "same_zones t u" "\<forall>a \<in> A. page_flag PAGE_FREE u a = page_flag PAGE_FREE t a \<and> pord u a = pord t a"
    using Suc.IH [OF 1 t(2) Suc.prems(3,4,5) 2 3 4] by blast
  have "?R \<union> {start + ?c ..< start + nr} = R \<union> {?b ..< start + nr}"
    using split by (simp add: Un_assoc)
  then show ?case
    unfolding step using u same_zones_trans [OF t(5) u(4)] t(3,4) bf(2)
    by (intro exI [of _ u] exI [of _ g]) auto
qed

lemma init_free_pages_correct:
  assumes "binv page_MAX_ORDER R (pord s) f A" "prel S sl s f" "\<forall>q \<in> S. set (sl q) \<subseteq> A"
    and "order \<le> page_MAX_ORDER" "start + nr \<le> TOTAL_PAGES" "2 ^ order dvd nr"
    and "2 ^ order dvd start" "R \<inter> {start ..< start + nr} = {}"
  shows "\<exists>t g. init_free_pages start nr order s = Some t \<and>
    binv page_MAX_ORDER (R \<union> {start ..< start + nr}) (pord t) g A \<and> prel S sl t g \<and>
    same_zones s t \<and> (\<forall>a \<in> A. page_flag PAGE_FREE t a = page_flag PAGE_FREE s a \<and> pord t a = pord s a)"
proof -
  obtain n where "nr = 2 ^ order * n" using assms(6) by (rule dvdE)
  then show ?thesis
    using init_free_loop_correct [OF assms(1-5), of 0 n] assms(7,8)
    by (fastforce simp: init_free_pages_def)
qed

lemma round_nat:
  fixes x n :: nat
  assumes "0 < n"
  shows "x \<le> (x + n - 1) - (x + n - 1) mod n" "n dvd (x + n - 1) - (x + n - 1) mod n"
    "x - x mod n \<le> x" "n dvd x - x mod n"
proof -
  have "(x + n - 1) mod n \<le> n - 1" using assms by (simp add: less_Suc_eq_le [symmetric])
  then show "x \<le> (x + n - 1) - (x + n - 1) mod n" using assms by simp
qed (simp_all add: minus_mod_eq_mult_div)

lemma add_zone_pages_correct:
  assumes I: "page_inv S sl s A" and r: "start \<le> end_pfn" "end_pfn \<le> TOTAL_PAGES"
    and new: "valid_pages s \<inter> {start ..< end_pfn} = {}"
  shows "\<exists>t. add_zone_pages start end_pfn hm s = Some t \<and> page_inv S sl t A \<and>
    (\<forall>a \<in> A. pord t a = pord s a) \<and> highmem_start_pfn t = highmem_start_pfn s \<and>
    page_flag PAGE_VALID t = (\<lambda>p. p \<in> {start ..< end_pfn} \<or> page_flag PAGE_VALID s p) \<and>
    page_flag PAGE_HIGHMEM t = (\<lambda>p. hm \<and> p \<in> {start ..< end_pfn} \<or> page_flag PAGE_HIGHMEM s p)"
proof -
  obtain f where l: "counter (page_lock s) = 0" and nf: "\<forall>a \<in> A. \<not> page_flag PAGE_FREE s a"
    and sl: "\<forall>q \<in> S. set (sl q) \<subseteq> A" and f: "pbinv s f A" "prel S sl s f"
    using I by (auto simp: page_inv_def)
  let ?R = "valid_pages s"
  obtain t where t: "mark_pages start end_pfn hm s = Some t" "pord t = pord s" "plists t = plists s"
    "page_flag PAGE_FREE t = page_flag PAGE_FREE s" "page_lock t = page_lock s"
    "highmem_start_pfn t = highmem_start_pfn s"
    "page_flag PAGE_VALID t = (\<lambda>p. p \<in> {start ..< end_pfn} \<or> page_flag PAGE_VALID s p)"
    "page_flag PAGE_HIGHMEM t = (\<lambda>p. hm \<and> p \<in> {start ..< end_pfn} \<or> page_flag PAGE_HIGHMEM s p)"
    using mark_pages_correct [OF r(2)] by blast
  have "b \<in> ?R" if "b \<in> set (f p)" for b p
    using that binvD(2) [OF f(1)] region_head [of b] by (force simp: cover_def heads_def)
  then have old: "b \<notin> {start ..< end_pfn}" if "b \<in> set (f p)" for b p using that new by blast
  have 1: "prel S sl t f"
    by (rule prel_cong [OF f(2) t(3)]) (use t(4,8) old in auto)
  have 0: "binv page_MAX_ORDER ?R (pord t) f A" using f(1) t(2) by simp
  define N :: nat where "N = 2 ^ page_MAX_ORDER"
  define ss where "ss = (start + N - 1) - (start + N - 1) mod N"
  define se where "se = end_pfn - end_pfn mod N"
  have "0 < N" by (simp add: N_def)
  then have ss: "start \<le> ss" "2 ^ page_MAX_ORDER dvd ss" and se: "se \<le> end_pfn" "2 ^ page_MAX_ORDER dvd se"
    using round_nat [of N start] round_nat [of N end_pfn] by (simp_all add: ss_def se_def N_def)
  have body: "add_zone_pages start end_pfn hm s =
      (if ss \<ge> se then init_free_pages start (end_pfn - start) 0 t
       else do { u \<leftarrow> init_free_pages start (ss - start) 0 t;
                 v \<leftarrow> init_free_pages ss (se - ss) page_MAX_ORDER u;
                 init_free_pages se (end_pfn - se) 0 v })"
    by (simp add: add_zone_pages_def t(1) pfn_to_page_def ss_def se_def N_def Let_def)
  have "\<exists>u g. add_zone_pages start end_pfn hm s = Some u \<and>
    binv page_MAX_ORDER (?R \<union> {start ..< end_pfn}) (pord u) g A \<and> prel S sl u g \<and> same_zones t u \<and>
    (\<forall>a \<in> A. page_flag PAGE_FREE u a = page_flag PAGE_FREE t a \<and> pord u a = pord t a)"
  proof (cases "ss \<ge> se")
    case True
    then show ?thesis
      using init_free_pages_correct [OF 0 1 sl, of 0 start "end_pfn - start"] r new unfolding body by simp
  next
    case False
    then have le: "ss \<le> se" by simp
    have new': "?R \<inter> {start ..< ss} = {}" "(?R \<union> {start ..< ss}) \<inter> {ss ..< se} = {}"
      "(?R \<union> {start ..< ss} \<union> {ss ..< se}) \<inter> {se ..< end_pfn} = {}"
      using new ss se le by auto
    obtain u g where u: "init_free_pages start (ss - start) 0 t = Some u"
      "binv page_MAX_ORDER (?R \<union> {start ..< ss}) (pord u) g A" "prel S sl u g" "same_zones t u"
      "\<forall>a \<in> A. page_flag PAGE_FREE u a = page_flag PAGE_FREE t a \<and> pord u a = pord t a"
      using init_free_pages_correct [OF 0 1 sl, of 0 start "ss - start"] ss se le r new'(1) by auto
    obtain v h where v: "init_free_pages ss (se - ss) page_MAX_ORDER u = Some v"
      "binv page_MAX_ORDER (?R \<union> {start ..< ss} \<union> {ss ..< se}) (pord v) h A" "prel S sl v h"
      "same_zones u v" "\<forall>a \<in> A. page_flag PAGE_FREE v a = page_flag PAGE_FREE u a \<and> pord v a = pord u a"
      using init_free_pages_correct [OF u(2,3) sl, of page_MAX_ORDER ss "se - ss"] ss se le r new'(2)
      by auto
    obtain w i where w: "init_free_pages se (end_pfn - se) 0 v = Some w"
      "binv page_MAX_ORDER (?R \<union> {start ..< ss} \<union> {ss ..< se} \<union> {se ..< end_pfn}) (pord w) i A"
      "prel S sl w i" "same_zones v w"
      "\<forall>a \<in> A. page_flag PAGE_FREE w a = page_flag PAGE_FREE v a \<and> pord w a = pord v a"
      using init_free_pages_correct [OF v(2,3) sl, of 0 se "end_pfn - se"] se r new'(3) by auto
    have R: "?R \<union> {start ..< ss} \<union> {ss ..< se} \<union> {se ..< end_pfn} = ?R \<union> {start ..< end_pfn}"
      using ss se le by auto
    have "same_zones t w" using u(4) v(4) w(4) same_zones_trans by blast
    then show ?thesis
      unfolding body using False u(1,5) v(1,5) w(1,2,3,5) unfolding R
      by (intro exI [of _ w] exI [of _ i]) auto
  qed
  then obtain u g where u: "add_zone_pages start end_pfn hm s = Some u"
    "binv page_MAX_ORDER (?R \<union> {start ..< end_pfn}) (pord u) g A" "prel S sl u g" "same_zones t u"
    "\<forall>a \<in> A. page_flag PAGE_FREE u a = page_flag PAGE_FREE t a \<and> pord u a = pord t a" by blast
  have "valid_pages u = ?R \<union> {start ..< end_pfn}"
    using u(4) t(7) r by (auto simp: same_zones_def valid_pages_def)
  then have "page_inv S sl u A"
    using u t(2,4,5) l nf sl by (auto simp: page_inv_def same_zones_def)
  then show ?thesis using u t by (auto simp: same_zones_def)
qed

text \<open>The zone flag of a page says on which side of \<open>highmem_start_pfn\<close> it lies.\<close>

definition zones_ok :: "pstate \<Rightarrow> bool" where
  "zones_ok s \<longleftrightarrow> 2 ^ page_MAX_ORDER dvd highmem_start_pfn s \<and>
     (\<forall>p < TOTAL_PAGES. page_flag PAGE_HIGHMEM s p \<longleftrightarrow>
        page_flag PAGE_VALID s p \<and> highmem_start_pfn s \<le> p)"

lemma zones_ok_cong:
  "zones_ok s \<Longrightarrow> page_flag PAGE_VALID t = page_flag PAGE_VALID s \<Longrightarrow>
   page_flag PAGE_HIGHMEM t = page_flag PAGE_HIGHMEM s \<Longrightarrow>
   highmem_start_pfn t = highmem_start_pfn s \<Longrightarrow> zones_ok t"
  by (simp add: zones_ok_def)

definition page_ok :: "pnode set \<Rightarrow> (pnode \<Rightarrow> nat list) \<Rightarrow> pstate \<Rightarrow> nat set \<Rightarrow> bool" where
  "page_ok S sl s A \<longleftrightarrow> page_inv S sl s A \<and> zones_ok s"

lemma add_zone_pages_ok:
  assumes "page_ok S sl s A" "start \<le> end_pfn" "end_pfn \<le> TOTAL_PAGES"
    and "valid_pages s \<inter> {start ..< end_pfn} = {}"
    and "if hm then highmem_start_pfn s \<le> start else end_pfn \<le> highmem_start_pfn s"
  shows "\<exists>t. add_zone_pages start end_pfn hm s = Some t \<and> page_ok S sl t A \<and>
    (\<forall>a \<in> A. pord t a = pord s a) \<and> highmem_start_pfn t = highmem_start_pfn s \<and>
    valid_pages t = valid_pages s \<union> {start ..< end_pfn}"
proof -
  have "page_inv S sl s A" using assms(1) by (simp add: page_ok_def)
  from add_zone_pages_correct [OF this assms(2-4), of hm]
  obtain t where t: "add_zone_pages start end_pfn hm s = Some t" "page_inv S sl t A"
    "\<forall>a \<in> A. pord t a = pord s a" "highmem_start_pfn t = highmem_start_pfn s"
    "page_flag PAGE_VALID t = (\<lambda>p. p \<in> {start ..< end_pfn} \<or> page_flag PAGE_VALID s p)"
    "page_flag PAGE_HIGHMEM t = (\<lambda>p. hm \<and> p \<in> {start ..< end_pfn} \<or> page_flag PAGE_HIGHMEM s p)"
    by blast
  have "zones_ok t"
    using assms(1,5) t(4-6) by (auto simp: zones_ok_def page_ok_def split: if_splits)
  moreover have "valid_pages t = valid_pages s \<union> {start ..< end_pfn}"
    using t(5) assms(3) by (auto simp: valid_pages_def)
  ultimately show ?thesis using t(1-4) by (auto simp: page_ok_def)
qed

lemma add_free_pages_ok:
  assumes I: "page_ok S sl s A" and r: "start \<le> end_pfn" "end_pfn \<le> TOTAL_PAGES"
    and new: "valid_pages s \<inter> {start ..< end_pfn} = {}"
  shows "\<exists>t. add_free_pages start end_pfn s = Some t \<and> page_ok S sl t A \<and>
    (\<forall>a \<in> A. pord t a = pord s a) \<and> highmem_start_pfn t = highmem_start_pfn s \<and>
    valid_pages t = valid_pages s \<union> {start ..< end_pfn}"
proof -
  let ?H = "highmem_start_pfn s"
  consider (high) "?H \<le> start" | (low) "start < ?H" "end_pfn \<le> ?H" | (both) "start < ?H" "?H < end_pfn"
    by linarith
  then show ?thesis
  proof cases
    case high
    then have "add_free_pages start end_pfn s = add_zone_pages start end_pfn True s"
      using r by (subst add_free_pages.simps) simp
    then show ?thesis using add_zone_pages_ok [OF I r new, of True] high by simp
  next
    case low
    then have "add_free_pages start end_pfn s = add_zone_pages start end_pfn False s"
      using r by (subst add_free_pages.simps) simp
    then show ?thesis using add_zone_pages_ok [OF I r new, of False] low by simp
  next
    case both
    have "add_free_pages start ?H s = add_zone_pages start ?H False s"
      using both by (subst add_free_pages.simps) simp
    moreover have "valid_pages s \<inter> {start ..< ?H} = {}" using new both by auto
    ultimately obtain t where t: "add_free_pages start ?H s = Some t" "page_ok S sl t A"
      "\<forall>a \<in> A. pord t a = pord s a" "highmem_start_pfn t = ?H"
      "valid_pages t = valid_pages s \<union> {start ..< ?H}"
      using add_zone_pages_ok [OF I, of start ?H False] both r by auto
    have "add_free_pages ?H end_pfn t = add_zone_pages ?H end_pfn True t"
      using both t(4) by (subst add_free_pages.simps) simp
    moreover have "valid_pages t \<inter> {?H ..< end_pfn} = {}" using new both t(5) by auto
    ultimately obtain u where u: "add_free_pages ?H end_pfn t = Some u" "page_ok S sl u A"
      "\<forall>a \<in> A. pord u a = pord t a" "highmem_start_pfn u = ?H"
      "valid_pages u = valid_pages t \<union> {?H ..< end_pfn}"
      using add_zone_pages_ok [OF t(2), of ?H end_pfn True] both r t(4) by auto
    have "add_free_pages start end_pfn s = Some u"
      using both t(1,4) u(1) by (subst add_free_pages.simps) simp
    moreover have "valid_pages s \<union> {start ..< ?H} \<union> {?H ..< end_pfn} = valid_pages s \<union> {start ..< end_pfn}"
      using both by auto
    ultimately show ?thesis using u t by auto
  qed
qed

text \<open>The static data at start-up, zero-filled; \<open>highmem_start_pfn\<close> is set by \<open>scan_memory_slot\<close>.\<close>

definition page_bss :: "nat \<Rightarrow> pstate" where
  "page_bss h =
     \<lparr>pages = (\<lambda>_. \<lparr>pg_flags = 0, pg_order = 0, s_mem = 0, freelist = 0, active = 0, total = 0,
                    slab_cache = None\<rparr>),
      plists = \<lparr>prev = (\<lambda>_. PageNode 0), nxt = (\<lambda>_. PageNode 0)\<rparr>,
      page_lock = \<lparr>counter = 0\<rparr>, highmem_start_pfn = h\<rparr>"

lemma fold_page_init:
  "fold (\<lambda>k s. on_plists (g k) (on_plists (h k) s)) ks s = on_plists (fold (\<lambda>k x. g k (h k x)) ks) s"
  by (induction ks arbitrary: s) (auto simp: on_plists_def)

lemma fold_two:
  "fold (\<lambda>k x. list_init (PFree False k) (list_init (PFree True k) x)) ks x =
   fold list_init (concat (map (\<lambda>k. [PFree True k, PFree False k]) ks)) x"
  by (induction ks arbitrary: x) auto

lemma page_init_ok:
  assumes "2 ^ page_MAX_ORDER dvd h"
  shows "page_ok {} sl (page_init (page_bss h)) {}" "valid_pages (page_init (page_bss h)) = {}"
proof -
  let ?ks = "[0 ..< page_MAX_ORDER + 1]"
  let ?qs = "concat (map (\<lambda>k. [PFree True k, PFree False k]) ?ks)"
  let ?t = "page_init (page_bss h)"
  have t: "?t = (on_plists (fold list_init ?qs) (page_bss h))\<lparr>page_lock := \<lparr>counter = 0\<rparr>\<rparr>"
    unfolding page_init_def Let_def fold_page_init fold_two
    by (simp add: spinlock_init_def page_bss_def on_plists_def)
  have "x \<in> pheads \<longleftrightarrow> x \<in> set ?qs" for x
  proof (cases x)
    case (PFree z k)
    then show ?thesis by (cases z) (auto simp: less_Suc_eq_le)
  qed (auto simp: pheads_def)
  then have qs: "pheads = set ?qs" by blast
  have e: "dlists (fold list_init ?qs x) pheads (\<lambda>_. [])" for x
    unfolding qs by (rule dlists_fold_init)
  have "\<forall>q \<in> pheads. plist_of (\<lambda>_. []) sl q = []" by (auto simp: pheads_def)
  then have d: "dlists (fold list_init ?qs x) pheads (plist_of (\<lambda>_. []) sl)" for x
    using e [of x] by (simp add: dlists_def)
  have fl: "page_flag nr ?t p = False" for nr p
    unfolding t by (simp add: page_flag_def page_bss_def test_bit_c_def on_plists_def)
  then show v: "valid_pages ?t = {}" by (simp add: valid_pages_def)
  have "pbinv ?t (\<lambda>_. []) {}" unfolding v by (auto simp: binv_def heads_def tiles_def cover_def)
  moreover have "prel {} sl ?t (\<lambda>_. [])" using d by (simp add: prel_def t)
  moreover have "counter (page_lock ?t) = 0" "highmem_start_pfn ?t = h"
    unfolding t by (simp_all add: page_bss_def on_plists_def)
  ultimately show "page_ok {} sl ?t {}"
    using assms fl by (auto simp: page_ok_def page_inv_def zones_ok_def)
qed

section \<open>Properties\<close>

lemma page_ok_alloc:
  assumes "page_ok S sl s A" "order \<le> page_MAX_ORDER" "alloc_pages gm order s = Some (Some b, t)"
  shows "page_ok S sl t (insert b A)" "pord t b = order" "b \<notin> A" "\<forall>a \<in> A. pord t a = pord s a"
    "region b order \<subseteq> valid_pages s" "page_flag PAGE_HIGHMEM s b = zone_of gm"
proof -
  have I: "page_inv S sl s A" using assms(1) by (simp add: page_ok_def)
  have t: "b \<notin> A" "page_inv S sl t (insert b A)" "pord t b = order"
      "page_flag PAGE_HIGHMEM t b = zone_of gm" "\<forall>a \<in> A. pord t a = pord s a"
      "valid_pages t = valid_pages s" "page_flag PAGE_HIGHMEM t = page_flag PAGE_HIGHMEM s"
      "highmem_start_pfn t = highmem_start_pfn s"
    using alloc_pages_correct [OF I assms(2), of gm] assms(3) by auto
  have "page_flag PAGE_VALID t p = page_flag PAGE_VALID s p" if "p < TOTAL_PAGES" for p
    using t(6) that unfolding valid_pages_def by blast
  then have "zones_ok t" using assms(1) t(7,8) by (simp add: zones_ok_def page_ok_def)
  with t show "page_ok S sl t (insert b A)" "pord t b = order" "b \<notin> A"
    "\<forall>a \<in> A. pord t a = pord s a" "page_flag PAGE_HIGHMEM s b = zone_of gm"
    by (simp_all add: page_ok_def)
  obtain f where f: "pbinv t f (insert b A)" using t(2) by (auto simp: page_inv_def)
  have "region b (pord t b) \<subseteq> valid_pages t"
    using binvD(2) [OF f] by (auto simp: cover_def heads_def)
  then show "region b order \<subseteq> valid_pages s" using t(3,6) by simp
qed

lemma aligned_side:
  fixes b k n h :: nat
  assumes "2 ^ k dvd b" "k \<le> n" "2 ^ n dvd h" "p \<in> region b k"
  shows "h \<le> p \<longleftrightarrow> h \<le> b"
proof
  assume "h \<le> p"
  have "2 ^ k dvd h" using assms(2,3) by (meson dvd_trans le_imp_power_dvd)
  with assms(1) obtain x y where xy: "b = 2 ^ k * x" "h = 2 ^ k * y" by (auto elim!: dvdE)
  have "2 ^ k * y < 2 ^ k * (x + 1)" using \<open>h \<le> p\<close> assms(4) xy by (simp add: region_def)
  then have "y \<le> x" by (simp only: mult_less_cancel1) simp
  then show "h \<le> b" using xy by simp
qed (use assms(4) in \<open>simp add: region_def\<close>)

text \<open>
  C2: \<open>alloc_pages\<close> with a supported order always returns.  The block it hands out consists of valid
  pages, lies entirely in the requested zone, has the requested order and overlaps no allocated
  block; it returns \<open>NULL\<close> only when the zone has no free block of sufficient order, and then
  changes nothing.
\<close>
theorem alloc_pages_spec:
  assumes "page_ok S sl s A" "order \<le> page_MAX_ORDER"
  shows "case alloc_pages gm order s of
      None \<Rightarrow> False
    | Some (None, t) \<Rightarrow> t = s \<and>
        (\<forall>k. order \<le> k \<and> k \<le> page_MAX_ORDER \<longrightarrow> list_empty (get_free_list gm k) (plists s))
    | Some (Some b, t) \<Rightarrow> page_ok S sl t (insert b A) \<and> pord t b = order \<and> 2 ^ order dvd b \<and>
        (\<forall>p \<in> region b order. p \<in> valid_pages s \<and> (highmem_start_pfn s \<le> p \<longleftrightarrow> zone_of gm)) \<and>
        (\<forall>a \<in> A. pord t a = pord s a \<and> region b order \<inter> region a (pord s a) = {})"
proof -
  have I: "page_inv S sl s A" and Z: "zones_ok s" using assms(1) by (simp_all add: page_ok_def)
  have ok: "page_ok S sl t (insert b A) \<and> pord t b = order \<and> 2 ^ order dvd b \<and>
      (\<forall>p \<in> region b order. p \<in> valid_pages s \<and> (highmem_start_pfn s \<le> p \<longleftrightarrow> zone_of gm)) \<and>
      (\<forall>a \<in> A. pord t a = pord s a \<and> region b order \<inter> region a (pord s a) = {})"
    if t: "alloc_pages gm order s = Some (Some b, t)" for b t
  proof -
    note a = page_ok_alloc [OF assms t]
    have T: "tiles (pord t) (insert b A)" using a(1) page_inv_tiles by (auto simp: page_ok_def)
    have al: "2 ^ order dvd b" using tiles_aligned [OF T, of b] a(2) by simp
    have "b \<in> valid_pages s" using a(5) region_head by blast
    then have "highmem_start_pfn s \<le> b \<longleftrightarrow> zone_of gm"
      using Z a(6) by (auto simp: zones_ok_def valid_pages_def)
    then have side: "\<forall>p \<in> region b order. p \<in> valid_pages s \<and> (highmem_start_pfn s \<le> p \<longleftrightarrow> zone_of gm)"
      using aligned_side [OF al assms(2)] Z a(5) unfolding zones_ok_def by blast
    have "region b order \<inter> region c (pord s c) = {}" if "c \<in> A" for c
      using page_allocator.alloc_fresh_region [OF I assms(2) t that] .
    then show ?thesis using a(1,2,4) al side by blast
  qed
  show ?thesis using alloc_pages_correct [OF I assms(2), of gm] ok by (elim disjE exE conjE) simp_all
qed

text \<open>
  Booting.  After \<open>page_init\<close>, handing the frames \<open>[start, end)\<close> to \<open>add_free_pages\<close> returns (the
  run is cut at the zone boundary and into single pages and blocks of the highest order), exactly
  these frames are valid, and the allocator is in a good state with nothing allocated.
\<close>
theorem add_free_pages_boot:
  assumes "2 ^ page_MAX_ORDER dvd h" "start \<le> end_pfn" "end_pfn \<le> TOTAL_PAGES"
  shows "\<exists>t. add_free_pages start end_pfn (page_init (page_bss h)) = Some t \<and>
    page_ok {} sl t {} \<and> valid_pages t = {start ..< end_pfn}"
  using add_free_pages_ok [OF page_init_ok(1) [OF assms(1)] assms(2,3)] page_init_ok(2) [OF assms(1)]
  by fastforce

lemma page_boot_4: "\<exists>t. add_free_pages 0 4 (page_init (page_bss 1024)) = Some t \<and> page_ok {} sl t {}"
  using add_free_pages_ok [OF page_init_ok(1) [of 1024 sl], of 0 4] page_init_ok(2) [of 1024]
  by (simp add: page_consts) blast

theorem alloc_pages_spec_witness:
  "\<exists>s. add_free_pages 0 4 (page_init (page_bss 1024)) = Some s \<and>
    (case alloc_pages GFP_NORMAL 0 s of
      None \<Rightarrow> False
    | Some (None, t) \<Rightarrow> t = s \<and>
        (\<forall>k. 0 \<le> k \<and> k \<le> page_MAX_ORDER \<longrightarrow> list_empty (get_free_list GFP_NORMAL k) (plists s))
    | Some (Some b, t) \<Rightarrow> page_ok {} (\<lambda>_. []) t (insert b {}) \<and> pord t b = 0 \<and> 2 ^ 0 dvd b \<and>
        (\<forall>p \<in> region b 0. p \<in> valid_pages s \<and> (highmem_start_pfn s \<le> p \<longleftrightarrow> zone_of GFP_NORMAL)) \<and>
        (\<forall>a \<in> {}. pord t a = pord s a \<and> region b 0 \<inter> region a (pord s a) = {}))"
proof -
  obtain s where s: "add_free_pages 0 4 (page_init (page_bss 1024)) = Some s"
    and ok: "page_ok {} (\<lambda>_. []) s {}" using page_boot_4 by blast
  show ?thesis
    by (rule exI [of _ s], rule conjI [OF s]) (rule alloc_pages_spec [OF ok], simp)
qed

theorem add_free_pages_boot_witness:
  "\<exists>t. add_free_pages 0x400 0x3ff00 (page_init (page_bss 0x38000)) = Some t \<and>
    page_ok {} (\<lambda>_. []) t {} \<and> valid_pages t = {0x400 ..< 0x3ff00}"
  by (rule add_free_pages_boot) (simp_all add: page_consts)

lemmas page_eval = page_bss_def page_init_def add_free_pages.simps add_zone_pages_def mark_pages.simps
  init_free_pages_def init_free_loop.simps free_page_def alloc_pages_def alloc_pages_scan.simps
  alloc_pages_split.simps free_pages_def free_pages_merge.simps lock_pages_def unlock_pages_def
  spin_lock_eq spin_unlock_def atomic_set_def spinlock_init_def get_free_list_def page_buddy_def
  container_of_page_def page_to_pfn_def pfn_to_page_def set_pg_order_def set_pg_flag_def
  clear_pg_flag_def on_page_def on_plists_def pord_def page_flag_def list_heap list_empty_def
  list_next_def page_consts upt_rec test_bit_c_def set_bit_c_def clear_bit_c_def

text \<open>
  C13: \<open>free_pages\<close> of an allocated block that is not in use by a slab, when every free buddy on the
  way up has the order of the block, gives back exactly that block and keeps the allocator in a
  good state.
\<close>
theorem free_pages_spec:
  assumes "page_ok S sl s A" "b \<in> A" "page_free_ok S sl s b"
  shows "\<exists>t. free_pages b s = Some t \<and> page_ok S sl t (A - {b}) \<and>
    valid_pages t = valid_pages s \<and> (\<forall>a \<in> A - {b}. pord t a = pord s a)"
proof -
  have "page_inv S sl s A" "zones_ok s" using assms(1) by (simp_all add: page_ok_def)
  then show ?thesis
    using free_pages_correct [OF _ assms(2,3)] zones_ok_cong [of s] unfolding page_ok_def by blast
qed

text \<open>
  A run of the page allocator: after \<open>page_init\<close>, with the high memory from frame \<open>h\<close> on, in any order frames that the
  allocator does not have yet are added, blocks of any order are requested from either zone, and allocated blocks are
  freed when every free buddy on the way up has the order of the block.  \<open>A\<close> is the set of allocated blocks.
\<close>

inductive page_run :: "nat \<Rightarrow> pstate \<Rightarrow> nat set \<Rightarrow> bool" for h where
  page_run_init: "page_run h (page_init (page_bss h)) {}"
| page_run_add: "page_run h s A \<Longrightarrow> start \<le> end_pfn \<Longrightarrow> end_pfn \<le> TOTAL_PAGES \<Longrightarrow>
    valid_pages s \<inter> {start ..< end_pfn} = {} \<Longrightarrow> add_free_pages start end_pfn s = Some t \<Longrightarrow> page_run h t A"
| page_run_alloc: "page_run h s A \<Longrightarrow> alloc_pages gm order s = Some (Some b, t) \<Longrightarrow> page_run h t (insert b A)"
| page_run_none: "page_run h s A \<Longrightarrow> alloc_pages gm order s = Some (None, t) \<Longrightarrow> page_run h t A"
| page_run_free: "page_run h s A \<Longrightarrow> b \<in> A \<Longrightarrow> page_merge_ok s b (pord s b) \<Longrightarrow> free_pages b s = Some t \<Longrightarrow>
    page_run h t (A - {b})"

lemma page_ok_free:
  assumes "page_ok S sl s A" "b \<in> A" "page_free_ok S sl s b" "free_pages b s = Some t"
  shows "page_ok S sl t (A - {b})"
proof -
  have "page_inv S sl s A" "zones_ok s" using assms(1) by (simp_all add: page_ok_def)
  then show ?thesis
    using free_pages_correct [OF _ assms(2,3)] assms(4) zones_ok_cong [of s t] by (auto simp: page_ok_def)
qed

lemma page_run_ok:
  assumes "page_run h s A" "2 ^ page_MAX_ORDER dvd h"
  shows "page_ok {} sl s A"
  using assms
proof (induction rule: page_run.induct)
  case page_run_init
  then show ?case by (rule page_init_ok)
next
  case (page_run_add s A start end_pfn t)
  then show ?case using add_free_pages_ok [of "{}" sl s A start end_pfn] by auto
next
  case (page_run_alloc s A gm order b t)
  then have "order \<le> page_MAX_ORDER" by (auto simp: alloc_pages_def split: if_splits)
  then show ?case using page_ok_alloc(1) [of "{}" sl s A order gm b t] page_run_alloc by simp
next
  case (page_run_none s A gm order t)
  then have "page_inv {} sl s A" by (simp add: page_ok_def)
  then have "t = s"
    using alloc_pages_correct [of "{}" sl s A order gm] page_run_none by (cases "page_MAX_ORDER < order") (auto simp: alloc_pages_def)
  then show ?case using page_run_none by simp
next
  case (page_run_free s A b t)
  then show ?case using page_ok_free [of "{}" sl s A b t] by (simp add: page_free_ok_def)
qed

text \<open>
  C9: over every run in which frames are added, blocks are requested from both zones and blocks are freed whose free
  buddies have their order, two different allocated blocks never share a page, and every allocated block lies within
  the frames that were added; in every state reached, each further request returns.  The high memory starts at a multiple of
  the largest block.
\<close>
theorem pages_no_overlap:
  assumes "page_run h t B" "2 ^ page_MAX_ORDER dvd h" "a \<in> B"
  shows "region a (pord t a) \<subseteq> valid_pages t \<and>
    (\<forall>b \<in> B. a \<noteq> b \<longrightarrow> region a (pord t a) \<inter> region b (pord t b) = {}) \<and>
    (\<exists>r u. alloc_pages gm order t = Some (r, u))"
proof -
  have I: "page_inv {} (\<lambda>_. []) t B" using page_run_ok [OF assms(1,2)] by (simp add: page_ok_def)
  obtain f where f: "pbinv t f B" using I by (auto simp: page_inv_def)
  have "region a (pord t a) \<subseteq> valid_pages t"
    using binvD(2) [OF f] assms(3) by (auto simp: cover_def heads_def)
  moreover have "\<forall>b \<in> B. a \<noteq> b \<longrightarrow> region a (pord t a) \<inter> region b (pord t b) = {}"
    using tiles_disjoint [OF page_inv_tiles [OF I]] assms(3) by blast
  moreover have "\<exists>r u. alloc_pages gm order t = Some (r, u)"
    using page_allocator.alloc_total [OF I, of order gm] by (cases "page_MAX_ORDER < order") (auto simp: alloc_pages_def)
  ultimately show ?thesis by blast
qed

lemma page_boot_1: "\<exists>t. add_free_pages 0 1 (page_init (page_bss 1024)) = Some t \<and> page_ok {} sl t {}"
  using add_free_pages_ok [OF page_init_ok(1) [of 1024 sl], of 0 1] page_init_ok(2) [of 1024]
  by (simp add: page_consts) blast

theorem free_pages_spec_witness:
  "\<exists>s t u. add_free_pages 0 1 (page_init (page_bss 1024)) = Some s \<and>
    alloc_pages GFP_NORMAL 0 s = Some (Some 0, t) \<and> free_pages 0 t = Some u \<and>
    page_ok {} (\<lambda>_. []) u ({0} - {0})"
proof -
  have "\<exists>s t. add_free_pages 0 1 (page_init (page_bss 1024)) = Some s \<and>
      alloc_pages GFP_NORMAL 0 s = Some (Some 0, t) \<and> page_free_ok {} (\<lambda>_. []) t 0"
    by (simp add: page_eval page_free_ok_def page_merge_ok.simps)
  then obtain s t where s: "add_free_pages 0 1 (page_init (page_bss 1024)) = Some s"
    and t: "alloc_pages GFP_NORMAL 0 s = Some (Some 0, t)" and ok: "page_free_ok {} (\<lambda>_. []) t 0"
    by blast
  have "page_ok {} (\<lambda>_. []) s {}" using page_boot_1 [of "\<lambda>_. []"] s by auto
  from page_ok_alloc(1) [OF this _ t] have "page_ok {} (\<lambda>_. []) t {0}" by simp
  from free_pages_spec [OF this _ ok] s t show ?thesis by auto
qed

text \<open>A run: four linear frames and one of high memory are added, a linear page and the page of high memory are taken.\<close>

theorem pages_no_overlap_witness:
  "\<exists>t. page_run 1024 t {3, 1024} \<and> region 3 (pord t 3) \<inter> region 1024 (pord t 1024) = {}"
proof -
  have "\<exists>s t u v. add_free_pages 0 4 (page_init (page_bss 1024)) = Some s \<and> add_free_pages 1024 1025 s = Some t \<and>
      alloc_pages GFP_NORMAL 0 t = Some (Some 3, u) \<and> alloc_pages GFP_HIGHMEM 0 u = Some (Some 1024, v)"
    by (simp add: page_eval)
  then obtain s t u v where s: "add_free_pages 0 4 (page_init (page_bss 1024)) = Some s"
    and t: "add_free_pages 1024 1025 s = Some t"
    and u: "alloc_pages GFP_NORMAL 0 t = Some (Some 3, u)" and v: "alloc_pages GFP_HIGHMEM 0 u = Some (Some 1024, v)" by blast
  have "page_run 1024 s {}"
    by (rule page_run_add [OF page_run_init _ _ _ s]) (simp_all add: page_consts page_init_ok(2))
  moreover have "valid_pages s = {0 ..< 4}"
    using add_free_pages_ok [OF page_init_ok(1), of 1024 0 4 "\<lambda>_. []"] s page_init_ok(2) [of 1024] by (simp add: page_consts)
  ultimately have "page_run 1024 t {}" by (intro page_run_add [OF _ _ _ _ t]) (simp_all add: page_consts)
  from page_run_alloc [OF page_run_alloc [OF this u] v] have r: "page_run 1024 v {3, 1024}" by (simp add: insert_commute)
  with pages_no_overlap [OF r, of 3] show ?thesis by (auto simp: page_consts)
qed

lemma free_pages_merge_once:
  assumes I: "pbinv s f A" "prel S sl s f" and b: "b \<in> A" "pord s b = k" "k < page_MAX_ORDER"
    and c: "c = b XOR 2 ^ k" "page_flag PAGE_VALID s c" "page_flag PAGE_FREE s c" "c \<notin> A"
    and m: "m = min b c" "r = Suc (pord s m)"
      "\<not> (r < page_MAX_ORDER \<and> page_flag PAGE_VALID s (m XOR 2 ^ r) \<and> page_flag PAGE_FREE s (m XOR 2 ^ r))"
  shows "\<exists>g. free_pages_merge b s = Some (m, set_pg_order m r (on_plists (list_remove (PageNode c)) s)) \<and>
    prel S sl (set_pg_order m r (on_plists (list_remove (PageNode c)) s)) g \<and> (\<forall>p. m \<notin> set (g p)) \<and>
    r \<le> page_MAX_ORDER \<and> m < TOTAL_PAGES"
proof -
  have bh: "b \<in> heads f A" using b(1) by (simp add: heads_def)
  have "b \<in> cover (pord s) (heads f A)" unfolding cover_def using bh region_head by blast
  then have bR: "b < 2 ^ 20" unfolding binvD(2) [OF I(1)] by (simp add: valid_pages_def page_consts)
  then have cR: "c < 2 ^ 20" unfolding c(1) by (rule xor_power_bound) (use b(3) in \<open>simp add: page_consts\<close>)
  have "c \<in> valid_pages s" using c(2) cR by (simp add: valid_pages_def page_consts)
  then have "c \<in> heads f A" "pord s c \<le> k" using binv_buddy_head [OF I(1) b(1)] b(2) by (simp_all add: c(1))
  then obtain p where "c \<in> set (f p)" using c(4) by (auto simp: heads_def)
  then obtain z where cf: "c \<in> set (f (z, pord s c))" using binvD(4) [OF I(1), of c "fst p" "snd p"] by (cases p) auto
  have le: "r \<le> page_MAX_ORDER" using \<open>pord s c \<le> k\<close> b(2,3) by (auto simp: m min_def)
  let ?g = "f((z, pord s c) := remove1 c (f (z, pord s c)))"
  let ?s1 = "on_plists (list_remove (PageNode c)) s"
  let ?s2 = "set_pg_order m r ?s1"
  have "prel S sl ?s1 ?g" using \<open>pord s c \<le> k\<close> b(3) cf by (intro prel_remove [OF I(2)]) auto
  then have "prel S sl ?s2 ?g" by (rule prel_cong) auto
  moreover have "m \<notin> set (?g p)" for p
  proof (cases "c < b")
    case True
    then show ?thesis using binvD(6) [OF I(1)] binvD(7) [OF I(1) cf, of p] by (auto simp: m(1) min_def)
  next
    case False
    then show ?thesis using binvD(5) [OF I(1), of b p] b(1) by (auto simp: m(1) min_def dest: notin_set_remove1)
  qed
  moreover have mR: "m < 2 ^ 20" using bR by (simp add: m(1))
  then have "r < page_MAX_ORDER \<Longrightarrow> m XOR 2 ^ r < TOTAL_PAGES"
    using xor_power_bound [of m 20 r] by (simp add: page_consts)
  then have "free_pages_merge m ?s2 = Some (m, ?s2)"
    using m(3) by (subst free_pages_merge.simps) (auto simp: page_buddy_eq)
  moreover have "free_pages_merge b s = free_pages_merge m ?s2"
    using b(2,3) c(2,3) cR
    by (subst free_pages_merge.simps) (simp add: page_buddy_eq c(1) [symmetric] page_consts m min_def not_less less_le)
  ultimately show ?thesis using le mR by (intro exI [of _ ?g]) (simp add: page_consts)
qed

text \<open>
  C26: the order of a buddy is not compared in \<open>free_pages\<close> either.  In every state in which \<open>b\<close> is freed, its buddy
  \<open>c\<close> is flagged free, and the merged block \<open>m\<close>, of one order more than the lower of the two, is not merged further and
  contains another live block \<open>a\<close>, because the order of \<open>c\<close> is lower than that of \<open>b\<close>: the free returns, and the
  next request for this order in the zone of \<open>m\<close> is answered with \<open>m\<close>, so that pages of the live block \<open>a\<close> are handed out
  again.
\<close>

theorem page_free_overlap:
  assumes "page_inv S sl s A" "b \<in> A" "\<forall>q \<in> S. b \<notin> set (sl q)" "pord s b < page_MAX_ORDER"
    and "c = b XOR 2 ^ pord s b" "page_flag PAGE_VALID s c" "page_flag PAGE_FREE s c"
    and "m = min b c" "r = Suc (pord s m)"
    and "\<not> (r < page_MAX_ORDER \<and> page_flag PAGE_VALID s (m XOR 2 ^ r) \<and> page_flag PAGE_FREE s (m XOR 2 ^ r))"
    and "zone_of gm = page_flag PAGE_HIGHMEM s m"
    and "a \<in> A" "a \<noteq> b" "region a (pord s a) \<subseteq> region m r"
  shows "\<exists>t u. free_pages b s = Some t \<and> alloc_pages gm r t = Some (Some m, u) \<and> pord u m = r \<and>
    pord u a = pord s a \<and> \<not> page_flag PAGE_FREE u a \<and> region a (pord u a) \<inter> region m (pord u m) \<noteq> {}"
proof -
  obtain f where l: "counter (page_lock s) = 0" and nf: "\<forall>a \<in> A. \<not> page_flag PAGE_FREE s a"
    and sl: "\<forall>q \<in> S. set (sl q) \<subseteq> A" and f: "pbinv s f A" "prel S sl s f"
    using assms(1) by (auto simp: page_inv_def)
  let ?s = "s\<lparr>page_lock := (page_lock s)\<lparr>counter := 1\<rparr>\<rparr>"
  have f': "pbinv ?s f A" "prel S sl ?s f" using f by simp_all
  have cA: "c \<notin> A" using nf assms(7) by blast
  let ?t = "set_pg_order m r (on_plists (list_remove (PageNode c)) ?s)"
  obtain g where g: "free_pages_merge b ?s = Some (m, ?t)" "prel S sl ?t g" "\<forall>p. m \<notin> set (g p)" "r \<le> page_MAX_ORDER" "m < TOTAL_PAGES"
    using free_pages_merge_once [OF f' assms(2) _ _ _ _ _ cA assms(8), of "pord s b" r] assms(4-7,9,10) by auto
  have sm: "\<forall>q \<in> S. m \<notin> set (sl q)" using assms(3) sl cA by (auto simp: assms(8) min_def)
  have z: "page_flag PAGE_HIGHMEM ?t m = zone_of gm" using assms(11) by simp
  obtain v where v: "free_page m r ?t = Some v" "prel S sl v (g((zone_of gm, r) := m # g (zone_of gm, r)))"
      "pord v = (pord ?t)(m := r)" "page_flag PAGE_FREE v = (page_flag PAGE_FREE ?t)(m := True)"
    using free_page_prel [OF g(2,4,3) sm g(5)] unfolding z by blast
  let ?v = "unlock_pages v"
  have r: "free_pages b s = Some ?v" using g(1) v(1) by (simp add: free_pages_def lock_pages_eq [OF l])
  let ?x = "?v\<lparr>page_lock := (page_lock ?v)\<lparr>counter := 1\<rparr>\<rparr>"
  have x: "prel S sl ?x (g((zone_of gm, r) := m # g (zone_of gm, r)))" using v(2) by simp
  have "\<not> list_empty (PFree (zone_of gm) r) (plists ?x)" "list_next (PFree (zone_of gm) r) (plists ?x) = PageNode m"
    using prel_list [OF x g(4), of "zone_of gm"] by simp_all
  moreover have o: "pord ?x m = r" using v(3) by simp
  ultimately have "alloc_pages_scan gm r r ?x = Some (Some m, clear_pg_flag PAGE_FREE m (on_plists (list_remove (PageNode m)) ?x))"
    using g(4) by (subst alloc_pages_scan.simps)
      (simp add: container_of_page_def get_free_list_eq alloc_pages_split.simps Let_def)
  then have "alloc_pages gm r ?v = Some (Some m, unlock_pages (clear_pg_flag PAGE_FREE m (on_plists (list_remove (PageNode m)) ?x)))"
    using g(4) by (simp add: alloc_pages_def lock_pages_eq)
  moreover have "a \<noteq> m" using assms(8,12,13) cA by (auto simp: min_def)
  moreover have "region a (pord s a) \<inter> region m r \<noteq> {}" using assms(14) region_head [of a "pord s a"] by blast
  ultimately show ?thesis
    using r nf assms(12) v(3,4) by (intro exI [of _ ?v] exI) (auto simp: o)
qed

text \<open>
  The witness starts with the four single pages of a small region: all are taken, pages 0 and 1 are freed and merged, and taken
  again as a block of order 1; then page 2 is freed.  Freeing the block of order 1 merges it with page 2, over page 3.
\<close>

theorem page_free_overlap_witness:
  "\<exists>s t u. page_run 1024 s {0, 3} \<and> free_pages 0 s = Some t \<and> alloc_pages GFP_NORMAL 2 t = Some (Some 0, u) \<and>
    region 3 (pord u 3) \<inter> region 0 (pord u 0) \<noteq> {}"
proof -
  have "\<exists>s4 s3 s2 s1 s0 f0 f1 a1 s. add_free_pages 0 4 (page_init (page_bss 1024)) = Some s4 \<and>
      alloc_pages GFP_NORMAL 0 s4 = Some (Some 3, s3) \<and> alloc_pages GFP_NORMAL 0 s3 = Some (Some 2, s2) \<and>
      alloc_pages GFP_NORMAL 0 s2 = Some (Some 1, s1) \<and> alloc_pages GFP_NORMAL 0 s1 = Some (Some 0, s0) \<and>
      page_merge_ok s0 0 (pord s0 0) \<and> free_pages 0 s0 = Some f0 \<and> page_merge_ok f0 1 (pord f0 1) \<and> free_pages 1 f0 = Some f1 \<and>
      alloc_pages GFP_NORMAL 1 f1 = Some (Some 0, a1) \<and> page_merge_ok a1 2 (pord a1 2) \<and> free_pages 2 a1 = Some s \<and>
      pord s 0 = 1 \<and> pord s 3 = 0 \<and> page_flag PAGE_VALID s 2 \<and> page_flag PAGE_FREE s 2 \<and> \<not> page_flag PAGE_VALID s 4 \<and>
      \<not> page_flag PAGE_HIGHMEM s 0"
    by (simp add: page_eval page_merge_ok.simps)
  then obtain s4 s3 s2 s1 s0 f0 f1 a1 s where e: "add_free_pages 0 4 (page_init (page_bss 1024)) = Some s4"
      "alloc_pages GFP_NORMAL 0 s4 = Some (Some 3, s3)" "alloc_pages GFP_NORMAL 0 s3 = Some (Some 2, s2)"
      "alloc_pages GFP_NORMAL 0 s2 = Some (Some 1, s1)" "alloc_pages GFP_NORMAL 0 s1 = Some (Some 0, s0)"
    and f: "page_merge_ok s0 0 (pord s0 0)" "free_pages 0 s0 = Some f0" "page_merge_ok f0 1 (pord f0 1)" "free_pages 1 f0 = Some f1"
      "alloc_pages GFP_NORMAL 1 f1 = Some (Some 0, a1)" "page_merge_ok a1 2 (pord a1 2)" "free_pages 2 a1 = Some s"
    and o: "pord s 0 = 1" "pord s 3 = 0" "page_flag PAGE_VALID s 2" "page_flag PAGE_FREE s 2" "\<not> page_flag PAGE_VALID s 4"
      "\<not> page_flag PAGE_HIGHMEM s 0" by blast
  have "page_run 1024 s4 {}"
    by (rule page_run_add [OF page_run_init _ _ _ e(1)]) (simp_all add: page_consts page_init_ok(2))
  from page_run_alloc [OF page_run_alloc [OF page_run_alloc [OF page_run_alloc [OF this e(2)] e(3)] e(4)] e(5)]
  have "page_run 1024 s0 {0, 1, 2, 3}" .
  from page_run_free [OF this _ f(1,2)] have "page_run 1024 f0 {1, 2, 3}" by simp
  from page_run_free [OF this _ f(3,4)] have "page_run 1024 f1 {2, 3}" by simp
  from page_run_alloc [OF this f(5)] have "page_run 1024 a1 {0, 2, 3}" .
  from page_run_free [OF this _ f(6,7)] have R: "page_run 1024 s {0, 3}" by (simp add: insert_Diff_if)
  have I: "page_inv {} (\<lambda>_. []) s {0, 3}" using page_run_ok [OF R] by (simp add: page_ok_def page_consts)
  have "region 3 0 \<subseteq> region 0 2" by (simp add: region_def)
  then have "\<exists>t u. free_pages 0 s = Some t \<and> alloc_pages GFP_NORMAL 2 t = Some (Some 0, u) \<and> pord u 0 = 2 \<and>
      pord u 3 = pord s 3 \<and> \<not> page_flag PAGE_FREE u 3 \<and> region 3 (pord u 3) \<inter> region 0 (pord u 0) \<noteq> {}"
    using o by (intro page_free_overlap [OF I, where c = 2]) (simp_all add: page_consts zone_of_def numeral_eq_Suc)
  then show ?thesis using R by blast
qed

end
