(* ===== verification/Fifo.thy ===== *)
theory Fifo
  imports Buffers
begin

text \<open>
  The byte ring buffer of \<^verbatim>\<open>libs/fifo.c\<close>.  The indices are 32-bit and kept as natural numbers, with
  the wrap-around of every sum written out.  A division by a zero size is a processor exception,
  hence \<open>None\<close>.  \<open>fifo_content\<close> is the abstraction: the bytes from \<open>out\<close> up to \<open>in\<close>.
\<close>

section \<open>Operations\<close>

record fifo =
  f_in :: nat
  f_out :: nat
  f_data :: bytes
  f_size :: nat

definition fifo_init :: "bytes \<Rightarrow> nat \<Rightarrow> fifo" where
  "fifo_init data sz = \<lparr>f_in = 0, f_out = 0, f_data = data, f_size = sz\<rparr>"

definition fifo_len :: "fifo \<Rightarrow> nat option" where
  "fifo_len f =
     do {
       assert (f_size f \<noteq> 0);
       Some (wrap32 (wrap32 (f_in f + f_size f) + (2 ^ 32 - f_out f)) mod f_size f)
     }"

definition fifo_avail :: "fifo \<Rightarrow> nat option" where
  "fifo_avail f =
     do { n \<leftarrow> fifo_len f; Some (wrap32 (wrap32 (f_size f + (2 ^ 32 - 1)) + (2 ^ 32 - n))) }"

definition fifo_is_empty :: "fifo \<Rightarrow> bool" where
  "fifo_is_empty f \<longleftrightarrow> f_in f = f_out f"

definition fifo_is_full :: "fifo \<Rightarrow> bool option" where
  "fifo_is_full f =
     do { assert (f_size f \<noteq> 0); Some (wrap32 (f_in f + 1) mod f_size f = f_out f) }"

definition fifo_copy_in :: "fifo \<Rightarrow> bytes \<Rightarrow> nat \<Rightarrow> nat \<Rightarrow> fifo option" where
  "fifo_copy_in f src n off =
     do {
       let l = min n (wrap32 (f_size f + (2 ^ 32 - off)));
       x \<leftarrow> buf_read src 0 l;
       d \<leftarrow> buf_write (f_data f) off x;
       y \<leftarrow> buf_read src l (n - l);
       d \<leftarrow> buf_write d 0 y;
       Some (f\<lparr>f_data := d\<rparr>)
     }"

definition fifo_in :: "fifo \<Rightarrow> bytes \<Rightarrow> nat \<Rightarrow> (int \<times> fifo) option" where
  "fifo_in f data n =
     do {
       a \<leftarrow> fifo_avail f;
       if a < n then Some (- ENOSPC, f)
       else do {
         f \<leftarrow> fifo_copy_in f data n (f_in f);
         Some (0, f\<lparr>f_in := wrap32 (f_in f + n) mod f_size f\<rparr>)
       }
     }"

definition fifo_copy_out :: "fifo \<Rightarrow> nat \<Rightarrow> nat \<Rightarrow> bytes option" where
  "fifo_copy_out f n off =
     do {
       let l = min n (wrap32 (f_size f + (2 ^ 32 - off)));
       x \<leftarrow> buf_read (f_data f) off l;
       y \<leftarrow> buf_read (f_data f) 0 (n - l);
       Some (x @ y)
     }"

text \<open>The bytes written to the destination are part of the result.\<close>

definition fifo_out :: "fifo \<Rightarrow> nat \<Rightarrow> (int \<times> bytes \<times> fifo) option" where
  "fifo_out f n =
     do {
       l \<leftarrow> fifo_len f;
       if l < n then Some (- ENOENT, [], f)
       else do {
         xs \<leftarrow> fifo_copy_out f n (f_out f);
         Some (0, xs, f\<lparr>f_out := wrap32 (f_out f + n) mod f_size f\<rparr>)
       }
     }"

definition fifo_out_peek :: "fifo \<Rightarrow> nat \<Rightarrow> (int \<times> bytes) option" where
  "fifo_out_peek f n =
     do {
       l \<leftarrow> fifo_len f;
       if l < n then Some (- ENOENT, [])
       else do { xs \<leftarrow> fifo_copy_out f n (f_out f); Some (0, xs) }
     }"

definition fifo_skip :: "fifo \<Rightarrow> nat \<Rightarrow> (int \<times> fifo) option" where
  "fifo_skip f n =
     do {
       l \<leftarrow> fifo_len f;
       if l < n then Some (- ENOENT, f)
       else Some (0, f\<lparr>f_out := wrap32 (f_out f + n) mod f_size f\<rparr>)
     }"

section \<open>The invariant and the content\<close>

definition fifo_inv :: "fifo \<Rightarrow> bool" where
  "fifo_inv f \<longleftrightarrow> 0 < f_size f \<and> f_size f \<le> 2 ^ 31 \<and> length (f_data f) = f_size f \<and>
     f_in f < f_size f \<and> f_out f < f_size f"

definition flen :: "fifo \<Rightarrow> nat" where
  "flen f = rlen (f_in f) (f_out f) (f_size f)"

definition fifo_content :: "fifo \<Rightarrow> bytes" where
  "fifo_content f = ring (f_data f) (f_out f) (flen f)"

lemma fifo_len_eq:
  assumes "fifo_inv f"
  shows "fifo_len f = Some (flen f)" "flen f < f_size f"
    "fifo_avail f = Some (f_size f - 1 - flen f)" "(f_out f + flen f) mod f_size f = f_in f"
proof -
  note I = assms [unfolded fifo_inv_def]
  show len: "fifo_len f = Some (flen f)"
    using I wrap32_diff [of "f_out f" "f_in f + f_size f"] by (simp add: fifo_len_def flen_def rlen_def)
  show lt: "flen f < f_size f" "(f_out f + flen f) mod f_size f = f_in f"
    using I rlen_bounds by (auto simp: flen_def)
  have le: "flen f \<le> f_size f - 1" "f_size f - 1 < 4294967296" using lt I by auto
  have "wrap32 (f_size f + (2 ^ 32 - 1)) = f_size f - 1"
    using I wrap32_diff [of 1 "f_size f"] by simp
  then show "fifo_avail f = Some (f_size f - 1 - flen f)"
    using wrap32_diff [of "flen f" "f_size f - 1"] le by (simp add: fifo_avail_def len)
qed

section \<open>Correctness\<close>

text \<open>Copying \<open>n\<close> bytes in at \<open>in\<close> writes exactly the positions \<open>in, in + 1, ...\<close> of the ring.\<close>

lemma fifo_copy_in_correct:
  assumes I: "fifo_inv f" and n: "length src = n" "flen f + n < f_size f"
  shows "\<exists>d. fifo_copy_in f src n (f_in f) = Some (f\<lparr>f_data := d\<rparr>) \<and> length d = f_size f \<and>
    ring d (f_in f) n = src \<and> ring d (f_out f) (flen f) = fifo_content f"
proof -
  let ?s = "f_size f" and ?i = "f_in f" and ?o = "f_out f" and ?c = "flen f"
  have i: "?i < ?s" "length (f_data f) = ?s" "?s < 4294967296" using I by (auto simp: fifo_inv_def)
  define l where "l = min n (?s - ?i)"
  have w: "min n (wrap32 (?s + (2 ^ 32 - ?i))) = l"
    using i wrap32_diff [of ?i ?s] by (simp add: l_def)
  have l: "l \<le> n" "?i + l \<le> ?s" "n - l \<le> ?i" using n i by (auto simp: l_def)
  obtain d1 where d1: "buf_write (f_data f) ?i (take l src) = Some d1" using i l n by simp
  note nth1 = buf_write_nth [OF d1]
  obtain d where d: "buf_write d1 0 (drop l src) = Some d" using i l n nth1(1) by simp
  note nth2 = buf_write_nth [OF d]
  have len: "length d = ?s" using nth1 nth2 i by simp
  have "fifo_copy_in f src n ?i = Some (f\<lparr>f_data := d\<rparr>)"
    using d1 d l n unfolding fifo_copy_in_def w Let_def by simp
  moreover have "ring d ?i n = src"
  proof -
    have "ring d ?i n = seg d ?i l @ seg d 0 (n - l)"
      using i n len by (intro ring_two) (auto simp: l_def)
    also have "seg d 0 (n - l) = drop l src" using seg_write_same [OF d] n by simp
    also have "seg d ?i l = seg d1 ?i l"
      using l n nth1(1) i by (intro seg_write_other [OF d]) auto
    also have "\<dots> = take l src" using seg_write_same [OF d1] l n by (simp add: min_absorb2)
    finally show ?thesis by simp
  qed
  moreover have "ring d ?o ?c = ring (f_data f) ?o ?c"
  proof (rule ring_cong)
    show "length d = length (f_data f)" using len i by simp
    fix j assume j: "j < ?c"
    define p where "p = (?o + j) mod ?s"
    have p: "p < ?s" using i by (simp add: p_def)
    have "p \<noteq> (?i + m) mod ?s" if "m < n" for m
    proof
      assume "p = (?i + m) mod ?s"
      also have "\<dots> = (?o + (?c + m)) mod ?s"
        unfolding fifo_len_eq(4) [OF I, symmetric] mod_add_left_eq by (simp only: add_ac)
      finally have "j = ?c + m" unfolding p_def by (rule mod_add_inj [rotated 2]) (use j that n in auto)
      then show False using j by simp
    qed
    then have out: "p \<noteq> (?i + m) mod ?s" if "m < n" for m using that .
    have "\<not> (?i \<le> p \<and> p < ?i + l)"
    proof
      assume a: "?i \<le> p \<and> p < ?i + l"
      then have "p - ?i < n" using l(1) by linarith
      then show False using out [of "p - ?i"] a p by simp
    qed
    moreover have "\<not> p < n - l"
    proof
      assume "p < n - l"
      then have "?i + l = ?s" "l + p < n" using i(1) by (auto simp: l_def)
      then have "(?i + (l + p)) mod ?s = p" using p by (simp flip: add.assoc)
      then show False using out \<open>l + p < n\<close> by metis
    qed
    ultimately have "d ! p = f_data f ! p"
      using nth1(1) nth1(2) [of p] nth2(2) [of p] p i n l by auto
    then show "d ! ((?o + j) mod length (f_data f)) = f_data f ! ((?o + j) mod length (f_data f))"
      using i by (simp add: p_def)
  qed
  ultimately show ?thesis using len by (auto simp: fifo_content_def)
qed

lemma fifo_in_correct:
  assumes I: "fifo_inv f" and n: "length src = n"
  shows "if length (fifo_content f) + n < f_size f
    then \<exists>g. fifo_in f src n = Some (0, g) \<and> fifo_inv g \<and> f_size g = f_size f \<and>
      fifo_content g = fifo_content f @ src
    else fifo_in f src n = Some (- ENOSPC, f)"
proof (cases "flen f + n < f_size f")
  case True
  obtain d where d: "fifo_copy_in f src n (f_in f) = Some (f\<lparr>f_data := d\<rparr>)" "length d = f_size f"
    "ring d (f_in f) n = src" "ring d (f_out f) (flen f) = fifo_content f"
    using fifo_copy_in_correct [OF I n True] by blast
  let ?g = "f\<lparr>f_data := d, f_in := (f_in f + n) mod f_size f\<rparr>"
  have "f_in f + n < 4294967296" using I True by (simp add: fifo_inv_def)
  moreover have "\<not> f_size f - 1 - flen f < n" using True by linarith
  ultimately have "fifo_in f src n = Some (0, ?g)"
    using d(1) by (simp add: fifo_in_def fifo_len_eq [OF I])
  moreover have "fifo_inv ?g" using I d(2) by (simp add: fifo_inv_def)
  moreover have "fifo_content ?g = ring d (f_out f) (flen f + n)"
    using rlen_in [of "f_in f" "f_size f" "f_out f" n] I True by (simp add: fifo_content_def flen_def fifo_inv_def)
  moreover have "\<dots> = fifo_content f @ src"
    unfolding ring_add using d fifo_len_eq(4) [OF I] by simp
  ultimately show ?thesis using True by (auto simp: fifo_content_def)
next
  case False
  then have "f_size f - 1 - flen f < n" using fifo_len_eq(2) [OF I] by linarith
  with False show ?thesis by (auto simp: fifo_in_def fifo_len_eq [OF I] fifo_content_def)
qed

lemma fifo_copy_out_correct:
  assumes I: "fifo_inv f" and n: "n \<le> flen f"
  shows "fifo_copy_out f n (f_out f) = Some (take n (fifo_content f))"
proof -
  let ?s = "f_size f" and ?o = "f_out f"
  have i: "?o < ?s" "length (f_data f) = ?s" "?s < 4294967296" "flen f < ?s"
    using I fifo_len_eq(2) [OF I] by (auto simp: fifo_inv_def)
  define l where "l = min n (?s - ?o)"
  have w: "min n (wrap32 (?s + (2 ^ 32 - ?o))) = l"
    using i wrap32_diff [of ?o ?s] by (simp add: l_def)
  have l: "?o + l \<le> ?s" "n - l \<le> ?s" using n i by (auto simp: l_def)
  have "ring (f_data f) ?o n = seg (f_data f) ?o l @ seg (f_data f) 0 (n - l)"
    using i n by (intro ring_two) (auto simp: l_def)
  moreover have "take n (fifo_content f) = ring (f_data f) ?o n"
    using n ring_add [of "f_data f" ?o n "flen f - n"] by (simp add: fifo_content_def)
  ultimately show ?thesis using l i unfolding fifo_copy_out_def w Let_def by (simp add: seg_def)
qed

lemma fifo_drop:
  assumes I: "fifo_inv f" and n: "n \<le> flen f"
  defines "g \<equiv> f\<lparr>f_out := wrap32 (f_out f + n) mod f_size f\<rparr>"
  shows "fifo_inv g" "fifo_content g = drop n (fifo_content f)" "f_size g = f_size f"
proof -
  have b: "f_out f + n < 4294967296" "0 < f_size f"
    using I n fifo_len_eq(2) [OF I] by (auto simp: fifo_inv_def)
  then have g: "g = f\<lparr>f_out := (f_out f + n) mod f_size f\<rparr>" by (simp add: g_def)
  show "fifo_inv g" using I b by (simp add: fifo_inv_def g)
  show "f_size g = f_size f" by (simp add: g)
  have "fifo_content f = ring (f_data f) (f_out f) (n + (flen f - n))"
    using n by (simp add: fifo_content_def)
  then show "fifo_content g = drop n (fifo_content f)"
    using rlen_out [of "f_in f" "f_size f" "f_out f" n] I n unfolding ring_add
    by (simp add: fifo_content_def g fifo_inv_def flen_def)
qed

lemma fifo_out_correct:
  assumes I: "fifo_inv f"
  shows "if n \<le> length (fifo_content f)
    then \<exists>g. fifo_out f n = Some (0, take n (fifo_content f), g) \<and> fifo_inv g \<and> f_size g = f_size f \<and>
      fifo_content g = drop n (fifo_content f)
    else fifo_out f n = Some (- ENOENT, [], f)"
  using fifo_copy_out_correct [OF I, of n] fifo_drop [OF I, of n]
  by (auto simp: fifo_out_def fifo_len_eq [OF I]) (simp_all add: fifo_content_def)

lemma fifo_init_inv:
  "length data = sz \<Longrightarrow> 0 < sz \<Longrightarrow> sz \<le> 2 ^ 31 \<Longrightarrow> fifo_inv (fifo_init data sz)"
  "fifo_content (fifo_init data sz) = []"
  by (simp_all add: fifo_inv_def fifo_init_def fifo_content_def flen_def rlen_def)

lemma fifo_tests:
  assumes "fifo_inv f"
  shows "fifo_is_empty f \<longleftrightarrow> fifo_content f = []"
    "fifo_is_full f = Some (length (fifo_content f) = f_size f - 1)"
  using assms rlen_0_iff [of "f_in f" "f_size f" "f_out f"] rlen_full_iff [of "f_in f" "f_size f" "f_out f"]
  by (auto simp: fifo_is_empty_def fifo_is_full_def fifo_content_def flen_def fifo_inv_def ring_def)

section \<open>The ring buffer as a first-in first-out buffer\<close>

definition fifo_put :: "bytes \<Rightarrow> fifo \<Rightarrow> (bool \<times> fifo) option" where
  "fifo_put xs f = do { (r, f) \<leftarrow> fifo_in f xs (length xs); Some (r = 0, f) }"

definition fifo_get :: "nat \<Rightarrow> fifo \<Rightarrow> (bytes option \<times> fifo) option" where
  "fifo_get n f = do { (r, xs, f) \<leftarrow> fifo_out f n; Some (if r = 0 then Some xs else None, f) }"

interpretation byte_fifo: fifo_buffer fifo_put fifo_get "\<lambda>xs. xs" fifo_content fifo_inv
  "\<lambda>_. True" "\<lambda>_. True"
proof
  fix f :: fifo and xs :: bytes and n :: nat
  assume I: "fifo_inv f"
  show "\<exists>ok t. fifo_put xs f = Some (ok, t) \<and> fifo_inv t \<and>
      fifo_content t = (if ok then fifo_content f @ xs else fifo_content f)"
    using fifo_in_correct [OF I refl, of xs] I
    by (cases "length (fifo_content f) + length xs < f_size f") (auto simp: fifo_put_def errno_defs)
  show "\<exists>r t. fifo_get n f = Some (r, t) \<and> fifo_inv t \<and>
      (case r of None \<Rightarrow> length (fifo_content f) < n \<and> fifo_content t = fifo_content f
       | Some xs \<Rightarrow> length xs = n \<and> fifo_content f = xs @ fifo_content t)"
    using fifo_out_correct [OF I, of n] I
    by (cases "n \<le> length (fifo_content f)") (auto simp: fifo_get_def errno_defs)
qed

section \<open>Properties\<close>

text \<open>
  C23: bytes leave the buffer in the order in which they entered, none lost, none invented.  Every
  sequence of \<open>fifo_in\<close> and \<open>fifo_out\<close> calls returns, and the bytes inside at the start followed by
  the ones taken in are the bytes delivered followed by the bytes still inside.
\<close>
theorem fifo_order:
  assumes "fifo_inv f"
  shows "\<exists>ins outs g. run_fifo fifo_put fifo_get ops f = Some (ins, outs, g) \<and> fifo_inv g \<and>
    fifo_content f @ concat ins = outs @ fifo_content g"
proof -
  have "list_all (op_ok (\<lambda>_. True) (\<lambda>_. True)) ops"
    by (auto simp: list_all_iff) (metis op_ok.simps fifo_op.exhaust)
  from byte_fifo.run_order [OF assms this] show ?thesis by simp
qed

theorem fifo_order_witness:
  "\<exists>ins outs g. run_fifo fifo_put fifo_get [Put [1, 2, 3], Get 2, Put [4, 5], Put [6], Get 3]
      (fifo_init (replicate 4 0) 4) = Some (ins, outs, g) \<and> fifo_inv g \<and>
    fifo_content (fifo_init (replicate 4 0) 4) @ concat ins = outs @ fifo_content g"
  by (rule fifo_order, rule fifo_init_inv) simp_all

text \<open>
  A ring of \<open>size\<close> bytes takes a write of \<open>n\<close> bytes exactly when, with what is inside, it stays
  below \<open>size\<close>; then the write is appended.  Otherwise it is refused as a whole with \<open>-ENOSPC\<close>.  A
  read or a peek of \<open>n\<close> bytes delivers the first \<open>n\<close>, or \<open>-ENOENT\<close> when there are fewer; \<open>fifo_skip\<close>
  drops them.
\<close>
theorem fifo_spec:
  assumes "fifo_inv f" "length src = n"
  shows "(if length (fifo_content f) + n < f_size f
      then \<exists>g. fifo_in f src n = Some (0, g) \<and> fifo_inv g \<and> fifo_content g = fifo_content f @ src
      else fifo_in f src n = Some (- ENOSPC, f)) \<and>
    (if m \<le> length (fifo_content f)
      then fifo_out_peek f m = Some (0, take m (fifo_content f)) \<and>
        (\<exists>g. fifo_out f m = Some (0, take m (fifo_content f), g) \<and> fifo_skip f m = Some (0, g) \<and>
          fifo_inv g \<and> fifo_content g = drop m (fifo_content f))
      else fifo_out f m = Some (- ENOENT, [], f) \<and> fifo_out_peek f m = Some (- ENOENT, []) \<and>
        fifo_skip f m = Some (- ENOENT, f))"
proof -
  have l: "length (fifo_content f) = flen f" by (simp add: fifo_content_def)
  have "fifo_out_peek f m = Some (0, take m (fifo_content f)) \<and>
      (\<exists>g. fifo_out f m = Some (0, take m (fifo_content f), g) \<and> fifo_skip f m = Some (0, g) \<and>
        fifo_inv g \<and> fifo_content g = drop m (fifo_content f))" if "m \<le> flen f"
    using fifo_copy_out_correct [OF assms(1) that] fifo_drop [OF assms(1) that] that
    by (simp add: fifo_out_def fifo_out_peek_def fifo_skip_def fifo_len_eq [OF assms(1)])
  moreover have "fifo_out f m = Some (- ENOENT, [], f) \<and> fifo_out_peek f m = Some (- ENOENT, []) \<and>
      fifo_skip f m = Some (- ENOENT, f)" if "\<not> m \<le> flen f"
    using that by (simp add: fifo_out_def fifo_out_peek_def fifo_skip_def fifo_len_eq [OF assms(1)])
  ultimately show ?thesis using fifo_in_correct [OF assms] unfolding l by (auto split: if_splits)
qed

theorem fifo_spec_witness:
  "fifo_in (fifo_init ([0, 0, 0, 0]) 4) [7, 8, 9] 3 =
      Some (0, \<lparr>f_in = 3, f_out = 0, f_data = [7, 8, 9, 0], f_size = 4\<rparr>) \<and>
    (\<exists>g. fifo_in (fifo_init ([0, 0, 0, 0]) 4) [7, 8, 9] 3 = Some (0, g) \<and> fifo_inv g \<and>
      fifo_content g = fifo_content (fifo_init ([0, 0, 0, 0]) 4) @ [7, 8, 9])"
proof -
  have sz: "f_size (fifo_init ([0, 0, 0, 0]) 4) = 4" by (simp add: fifo_init_def)
  have "fifo_inv (fifo_init ([0, 0, 0, 0]) 4)" by (rule fifo_init_inv) simp_all
  then have "\<exists>g. fifo_in (fifo_init ([0, 0, 0, 0]) 4) [7, 8, 9] 3 = Some (0, g) \<and> fifo_inv g \<and>
      fifo_content g = fifo_content (fifo_init ([0, 0, 0, 0]) 4) @ [7, 8, 9]"
    using fifo_spec [of "fifo_init ([0, 0, 0, 0]) 4" "[7, 8, 9]" 3 0]
    by (simp add: fifo_init_inv(2) sz)
  moreover have "fifo_in (fifo_init ([0, 0, 0, 0]) 4) [7, 8, 9] 3 =
      Some (0, \<lparr>f_in = 3, f_out = 0, f_data = [7, 8, 9, 0], f_size = 4\<rparr>)"
    by (simp add: fifo_in_def fifo_avail_def fifo_len_def fifo_copy_in_def fifo_init_def wrap32_def)
  ultimately show ?thesis by blast
qed

end
