(* ===== verification/Queue_Model.thy ===== *)
theory Queue_Model
  imports Buffers
begin

text \<open>
  The growing queue of \<^verbatim>\<open>libs/queue.c\<close> and \<^verbatim>\<open>include/queue.h\<close>: a ring of elements of
  \<open>element_size\<close> bytes in one block of memory, doubled when it is full.  The calls of \<open>kmalloc\<close> take
  the allocator as an argument (see Buffers).  \<open>queue_content\<close> is the list of elements from \<open>front\<close>
  to \<open>rear\<close>.
\<close>

section \<open>Operations\<close>

record queue =
  q_base :: bytes
  q_element_size :: nat
  q_front :: nat
  q_rear :: nat
  q_capacity :: nat

definition queue_MIN_CAPACITY :: nat where "queue_MIN_CAPACITY = 8"

text \<open>\<open>sizeof(queue)\<close> on the 32-bit target.\<close>

definition sizeof_queue :: nat where "sizeof_queue = 20"

text \<open>Here \<open>None\<close> is the null pointer that the function returns.\<close>

definition queue_create :: "alloc \<Rightarrow> nat \<Rightarrow> queue option" where
  "queue_create kmalloc element_size =
     (case kmalloc sizeof_queue of None \<Rightarrow> None
      | Some _ \<Rightarrow>
          (case kmalloc (wrap32 (queue_MIN_CAPACITY * element_size)) of None \<Rightarrow> None
           | Some base \<Rightarrow> Some \<lparr>q_base = base, q_element_size = element_size, q_front = 0,
               q_rear = 0, q_capacity = queue_MIN_CAPACITY\<rparr>))"

definition queue_empty :: "queue \<Rightarrow> bool" where
  "queue_empty q \<longleftrightarrow> q_front q = q_rear q"

definition queue_full :: "queue \<Rightarrow> bool" where
  "queue_full q \<longleftrightarrow> wrap32 (q_rear q + 1) mod q_capacity q = q_front q"

definition queue_size :: "queue \<Rightarrow> nat" where
  "queue_size q = wrap32 (wrap32 (q_rear q + q_capacity q) + (2 ^ 32 - q_front q)) mod q_capacity q"

definition queue_ele :: "queue \<Rightarrow> nat \<Rightarrow> nat" where
  "queue_ele q index = wrap32 (q_element_size q * index)"

definition queue_front :: "queue \<Rightarrow> bytes option" where
  "queue_front q =
     do {
       assert (q_front q < q_capacity q);
       buf_read (q_base q) (queue_ele q (q_front q)) (q_element_size q)
     }"

definition queue_rear :: "queue \<Rightarrow> bytes option" where
  "queue_rear q =
     do {
       assert (q_rear q < q_capacity q);
       buf_read (q_base q)
         (queue_ele q (wrap32 (wrap32 (q_rear q + q_capacity q) + (2 ^ 32 - 1)) mod q_capacity q))
         (q_element_size q)
     }"

definition queue_expand :: "alloc \<Rightarrow> queue \<Rightarrow> (int \<times> queue) option" where
  "queue_expand kmalloc q =
     (case kmalloc (wrap32 (wrap32 (q_element_size q * q_capacity q) * 2)) of
        None \<Rightarrow> Some (- ENOMEM, q)
      | Some new_base \<Rightarrow>
          do {
            new_base \<leftarrow>
              (if q_front q < q_rear q then
                 do {
                   xs \<leftarrow> buf_read (q_base q) (queue_ele q (q_front q))
                     (wrap32 (queue_size q * q_element_size q));
                   buf_write new_base 0 xs
                 }
               else
                 do {
                   let n = wrap32 ((q_capacity q - q_front q) * q_element_size q);
                   xs \<leftarrow> buf_read (q_base q) (queue_ele q (q_front q)) n;
                   b \<leftarrow> buf_write new_base 0 xs;
                   ys \<leftarrow> buf_read (q_base q) 0 (wrap32 (q_rear q * q_element_size q));
                   buf_write b n ys
                 });
            let q = q\<lparr>q_rear := queue_size q\<rparr>;
            let q = q\<lparr>q_front := 0\<rparr>;
            let q = q\<lparr>q_base := new_base\<rparr>;
            Some (0, q\<lparr>q_capacity := wrap32 (q_capacity q * 2)\<rparr>)
          })"

definition enqueue :: "alloc \<Rightarrow> queue \<Rightarrow> bytes \<Rightarrow> (int \<times> queue) option" where
  "enqueue kmalloc q ele =
     do {
       (ret, q) \<leftarrow> (if queue_full q then queue_expand kmalloc q else Some (0, q));
       if ret \<noteq> 0 then Some (ret, q)
       else do {
         xs \<leftarrow> buf_read ele 0 (q_element_size q);
         base \<leftarrow> buf_write (q_base q) (queue_ele q (q_rear q)) xs;
         let q = q\<lparr>q_base := base\<rparr>;
         assert (q_capacity q \<noteq> 0);
         Some (0, q\<lparr>q_rear := wrap32 (q_rear q + 1) mod q_capacity q\<rparr>)
       }
     }"

definition dequeue :: "queue \<Rightarrow> (int \<times> bytes \<times> queue) option" where
  "dequeue q =
     (if queue_empty q then Some (- ENOENT, [], q)
      else do {
        ele \<leftarrow> buf_read (q_base q) (queue_ele q (q_front q)) (q_element_size q);
        assert (q_capacity q \<noteq> 0);
        Some (0, ele, q\<lparr>q_front := wrap32 (q_front q + 1) mod q_capacity q\<rparr>)
      })"

section \<open>The invariant and the content\<close>

definition queue_inv :: "nat \<Rightarrow> queue \<Rightarrow> bool" where
  "queue_inv es q \<longleftrightarrow> 0 < es \<and> q_element_size q = es \<and> 2 \<le> q_capacity q \<and>
     es * q_capacity q \<le> 2 ^ 30 \<and> length (q_base q) = es * q_capacity q \<and>
     q_front q < q_capacity q \<and> q_rear q < q_capacity q"

abbreviation elems :: "queue \<Rightarrow> bytes list" where
  "elems q \<equiv> chunks (q_element_size q) (q_capacity q) (q_base q)"

definition qlen :: "queue \<Rightarrow> nat" where
  "qlen q = rlen (q_rear q) (q_front q) (q_capacity q)"

definition queue_content :: "queue \<Rightarrow> bytes list" where
  "queue_content q = ring (elems q) (q_front q) (qlen q)"

lemma queue_inv_bounds:
  assumes "queue_inv es q"
  shows "q_capacity q \<le> 2 ^ 30" "i \<le> q_capacity q \<Longrightarrow> es * i \<le> 2 ^ 30"
proof -
  have I: "0 < es" "es * q_capacity q \<le> 2 ^ 30" using assms by (auto simp: queue_inv_def)
  have "1 * q_capacity q \<le> es * q_capacity q" using I by (intro mult_le_mono1) simp
  then show "q_capacity q \<le> 2 ^ 30" using I by linarith
  show "i \<le> q_capacity q \<Longrightarrow> es * i \<le> 2 ^ 30"
    using I mult_le_mono2 [of i "q_capacity q" es] by linarith
qed

lemma queue_eqs:
  assumes "queue_inv es q"
  shows "queue_size q = qlen q" "qlen q < q_capacity q" "queue_empty q \<longleftrightarrow> qlen q = 0"
    "queue_full q \<longleftrightarrow> qlen q = q_capacity q - 1" "i < q_capacity q \<Longrightarrow> queue_ele q i = es * i"
proof -
  note I = assms [unfolded queue_inv_def] and b = queue_inv_bounds [OF assms]
  show "queue_size q = qlen q"
    using I b(1) wrap32_diff [of "q_front q" "q_rear q + q_capacity q"]
    by (simp add: queue_size_def qlen_def rlen_def)
  show "qlen q < q_capacity q" using I rlen_bounds by (simp add: qlen_def)
  show "queue_empty q \<longleftrightarrow> qlen q = 0"
    using I rlen_0_iff [of "q_rear q" "q_capacity q" "q_front q"] by (auto simp: queue_empty_def qlen_def)
  show "queue_full q \<longleftrightarrow> qlen q = q_capacity q - 1"
    using I b(1) rlen_full_iff [of "q_rear q" "q_capacity q" "q_front q"]
    by (simp add: queue_full_def qlen_def)
  show "i < q_capacity q \<Longrightarrow> queue_ele q i = es * i"
    using I b(2) [of i] by (simp add: queue_ele_def)
qed

lemma queue_slot:
  assumes "queue_inv es q" "i < q_capacity q"
  shows "buf_read (q_base q) (queue_ele q i) es = Some (elems q ! i)"
  using assms chunk_bound [OF assms(2), of es "length (q_base q)"] queue_eqs(5) [OF assms]
  by (simp add: queue_inv_def seg_def)

section \<open>Growing\<close>

text \<open>What \<open>queue_expand\<close> copies: the elements, in order, to the start of the new block.\<close>

definition queue_copy :: "queue \<Rightarrow> bytes \<Rightarrow> bytes option" where
  "queue_copy q new_base =
     (if q_front q < q_rear q then
        do {
          xs \<leftarrow> buf_read (q_base q) (queue_ele q (q_front q)) (wrap32 (queue_size q * q_element_size q));
          buf_write new_base 0 xs
        }
      else
        do {
          let n = wrap32 ((q_capacity q - q_front q) * q_element_size q);
          xs \<leftarrow> buf_read (q_base q) (queue_ele q (q_front q)) n;
          b \<leftarrow> buf_write new_base 0 xs;
          ys \<leftarrow> buf_read (q_base q) 0 (wrap32 (q_rear q * q_element_size q));
          buf_write b n ys
        })"

lemma queue_copy_straight:
  assumes I: "queue_inv es q" and lt: "q_front q < q_rear q" and nb: "length nb = es * q_capacity q * 2"
  shows "\<exists>b. queue_copy q nb = Some b \<and> length b = length nb \<and>
    (\<forall>i < qlen q. seg b (es * i) es = queue_content q ! i)"
proof -
  let ?f = "q_front q" and ?c = "q_capacity q" and ?n = "qlen q"
  have i: "q_element_size q = es" "length (q_base q) = es * ?c" "?f < ?c" "q_rear q < ?c"
    using I by (auto simp: queue_inv_def)
  have n: "?n = q_rear q - ?f" using lt i by (simp add: qlen_def rlen_def mod_if)
  have fn: "?f + ?n \<le> ?c" "?n \<le> ?c" using n lt i by auto
  have le: "es * ?f + es * ?n \<le> es * ?c"
    using mult_le_mono2 [OF fn(1), of es] by (simp add: distrib_left)
  have w: "wrap32 (?n * es) = es * ?n"
    using queue_inv_bounds(2) [OF I fn(2)] by (simp add: mult.commute)
  let ?xs = "seg (q_base q) (es * ?f) (es * ?n)"
  have lx: "length ?xs = es * ?n" using le i by (simp add: seg_def)
  then have "length ?xs \<le> length nb" using nb mult_le_mono2 [OF fn(2), of es] by linarith
  then obtain b where b: "buf_write nb 0 ?xs = Some b" by simp
  have "queue_copy q nb = Some b"
    using b lt le i w queue_eqs(1,5) [OF I] by (simp add: queue_copy_def seg_def)
  moreover have "seg b (es * j) es = queue_content q ! j" if j: "j < ?n" for j
  proof -
    have je: "es * j + es \<le> es * ?n" using j by (rule chunk_bound) simp
    then have "seg b (es * j) es = seg ?xs (es * j) es" using lx seg_write_in [OF b] by simp
    also have "\<dots> = seg (q_base q) (es * (?f + j)) es" using je by (simp add: seg_seg distrib_left)
    finally show ?thesis using j fn i by (simp add: queue_content_def)
  qed
  ultimately show ?thesis using buf_write_nth(1) [OF b] by blast
qed

lemma queue_copy_wrapped:
  assumes I: "queue_inv es q" and lt: "\<not> q_front q < q_rear q" and nb: "length nb = es * q_capacity q * 2"
  shows "\<exists>b. queue_copy q nb = Some b \<and> length b = length nb \<and>
    (\<forall>i < qlen q. seg b (es * i) es = queue_content q ! i)"
proof -
  let ?f = "q_front q" and ?c = "q_capacity q" and ?r = "q_rear q"
  define n1 where "n1 = ?c - ?f"
  have i: "q_element_size q = es" "length (q_base q) = es * ?c" "?f < ?c" "?r < ?c"
    using I by (auto simp: queue_inv_def)
  have n: "qlen q = (if ?f = ?r then 0 else n1 + ?r)" using lt i by (auto simp: qlen_def rlen_def n1_def)
  have f1: "?f + n1 = ?c" "n1 \<le> ?c" "?r \<le> ?c" using i by (auto simp: n1_def)
  have s1: "es * ?f + es * n1 = es * ?c" using f1(1) by (metis distrib_left)
  have w: "wrap32 (n1 * es) = es * n1" "wrap32 (?r * es) = es * ?r"
    using queue_inv_bounds(2) [OF I f1(2)] queue_inv_bounds(2) [OF I f1(3)] by (simp_all add: mult.commute)
  let ?xs = "seg (q_base q) (es * ?f) (es * n1)" and ?ys = "seg (q_base q) 0 (es * ?r)"
  have rc: "es * ?r \<le> es * ?c" using f1(3) by simp
  have lx: "length ?xs = es * n1" "length ?ys = es * ?r" using s1 rc i by (simp_all add: seg_def)
  have room: "es * n1 + es * ?r \<le> length nb"
    using nb mult_le_mono2 [OF f1(2), of es] rc by linarith
  then obtain b1 where b1: "buf_write nb 0 ?xs = Some b1" using lx by simp
  then have lb: "length b1 = length nb" by (rule buf_write_nth(1))
  then obtain b where b: "buf_write b1 (es * n1) ?ys = Some b" using room lx by simp
  have "queue_copy q nb = Some b"
    using b b1 lt s1 rc i w queue_eqs(5) [OF I] by (simp add: queue_copy_def seg_def n1_def Let_def)
  moreover have "seg b (es * j) es = queue_content q ! j" if j: "j < qlen q" for j
  proof (cases "j < n1")
    case True
    have je: "es * j + es \<le> es * n1" using True by (rule chunk_bound) simp
    then have "seg b (es * j) es = seg b1 (es * j) es"
      using room lb by (intro seg_write_other [OF b]) auto
    also have "\<dots> = seg ?xs (es * j) es" using je lx seg_write_in [OF b1] by simp
    also have "\<dots> = seg (q_base q) (es * (?f + j)) es" using je by (simp add: seg_seg distrib_left)
    finally show ?thesis using j True f1 i by (simp add: queue_content_def)
  next
    case False
    then have jr: "j - n1 < ?r" "n1 \<le> j" using j n by (auto split: if_splits)
    have je: "es * (j - n1) + es \<le> es * ?r" using jr(1) by (rule chunk_bound) simp
    have sj: "es * j = es * n1 + es * (j - n1)" using jr(2) by (metis distrib_left le_add_diff_inverse)
    then have "seg b (es * j) es = seg ?ys (es * (j - n1)) es"
      using je lx seg_write_in [OF b, of "es * j" es] by simp
    also have "\<dots> = seg (q_base q) (es * (j - n1)) es" using je by (simp add: seg_seg)
    also have "\<dots> = elems q ! ((?f + j) mod ?c)"
    proof -
      have "?f + j = ?c + (j - n1)" using jr(2) f1(1) by simp
      then show ?thesis using jr(1) i by simp
    qed
    finally show ?thesis using j by (simp add: queue_content_def)
  qed
  ultimately show ?thesis using buf_write_nth(1) [OF b] lb by auto
qed

lemma queue_expand_correct:
  assumes I: "queue_inv es q" and k: "alloc_ok kmalloc"
  shows "queue_expand kmalloc q = Some (- ENOMEM, q) \<or>
    (\<exists>q'. queue_expand kmalloc q = Some (0, q') \<and> queue_inv es q' \<and>
      queue_content q' = queue_content q \<and> qlen q' = qlen q \<and> q_capacity q' = 2 * q_capacity q)"
proof -
  let ?c = "q_capacity q"
  note i = I [unfolded queue_inv_def] and bd = queue_inv_bounds [OF I]
  have e: "es * ?c \<le> 1073741824" "q_element_size q = es" "?c \<le> 1073741824" using i bd(1) by simp_all
  have w: "wrap32 (wrap32 (q_element_size q * ?c) * 2) = es * ?c * 2" "wrap32 (?c * 2) = 2 * ?c"
    using e by simp_all
  show ?thesis
  proof (cases "kmalloc (es * ?c * 2)")
    case None
    then show ?thesis by (simp add: queue_expand_def w)
  next
    case (Some nb)
    then have nb: "length nb = es * ?c * 2" "es * ?c * 2 \<le> 2 ^ 30"
      using k by (auto simp: alloc_ok_def)
    obtain b where b: "queue_copy q nb = Some b" "length b = length nb"
      "\<forall>i < qlen q. seg b (es * i) es = queue_content q ! i"
      using queue_copy_straight [OF I _ nb(1)] queue_copy_wrapped [OF I _ nb(1)] by blast
    let ?q = "q\<lparr>q_rear := qlen q, q_front := 0, q_base := b, q_capacity := 2 * ?c\<rparr>"
    have "queue_expand kmalloc q = Some (0, ?q)"
      using b(1) Some queue_eqs(1) [OF I] by (simp add: queue_expand_def w queue_copy_def [symmetric] Let_def)
    moreover have "queue_inv es ?q"
      using i b(2) nb queue_eqs(2) [OF I] by (simp add: queue_inv_def mult_ac)
    moreover have l: "qlen ?q = qlen q" using queue_eqs(2) [OF I] by (simp add: qlen_def rlen_def)
    moreover have "queue_content ?q = queue_content q"
    proof (rule nth_equalityI)
      show "length (queue_content ?q) = length (queue_content q)" by (simp add: queue_content_def l)
      fix j assume "j < length (queue_content ?q)"
      then have j: "j < qlen q" by (simp add: queue_content_def l)
      then have "queue_content ?q ! j = seg b (es * j) es"
        using queue_eqs(2) [OF I] i by (simp add: queue_content_def l)
      then show "queue_content ?q ! j = queue_content q ! j" using b(3) j by simp
    qed
    ultimately show ?thesis by auto
  qed
qed

section \<open>Enqueue and dequeue\<close>

lemma enqueue_room:
  assumes I: "queue_inv es q" and x: "length x = es" and room: "qlen q + 1 < q_capacity q"
  shows "\<exists>q'. enqueue kmalloc q x = Some (0, q') \<and> queue_inv es q' \<and> queue_content q' = queue_content q @ [x]"
proof -
  let ?r = "q_rear q" and ?c = "q_capacity q" and ?f = "q_front q"
  note i = I [unfolded queue_inv_def]
  have c: "?c \<le> 1073741824" using queue_inv_bounds(1) [OF I] by simp
  obtain b where b: "buf_write (q_base q) (es * ?r) x = Some b" "length b = es * ?c"
    "chunks es ?c b = (chunks es ?c (q_base q))[?r := x]"
    using chunks_write [of "q_base q" es ?c ?r x] i x by blast
  let ?q = "q\<lparr>q_base := b, q_rear := (?r + 1) mod ?c\<rparr>"
  have "\<not> queue_full q" using room queue_eqs(4) [OF I] by simp
  then have "enqueue kmalloc q x = Some (0, ?q)"
    using b(1) i x c queue_eqs(5) [OF I, of ?r] by (simp add: enqueue_def)
  moreover have "queue_inv es ?q" using i b(2) by (simp add: queue_inv_def)
  moreover have "queue_content ?q = queue_content q @ [x]"
  proof -
    have l: "qlen ?q = qlen q + 1" using rlen_in [of ?r ?c ?f 1] i room by (simp add: qlen_def)
    have pos: "(?f + qlen q) mod ?c = ?r" using rlen_bounds(2) [of ?r ?c ?f] i by (simp add: qlen_def)
    have e: "elems ?q = (elems q)[?r := x]" using b(3) i by simp
    have "queue_content ?q = ring (elems ?q) ?f (qlen q + 1)"
      unfolding queue_content_def l by simp
    also have "\<dots> = ring (elems ?q) ?f (qlen q) @ [x]"
      unfolding ring_add e using pos i by (simp add: ring_def [of _ _ "Suc 0"])
    also have "ring (elems ?q) ?f (qlen q) = ring (elems q) ?f (qlen q)"
      unfolding e
    proof (rule ring_cong)
      fix j assume j: "j < qlen q"
      have "(?f + j) mod ?c \<noteq> ?r"
        using mod_add_inj [of j ?c "qlen q" ?f] pos j room by auto
      then show "(elems q)[?r := x] ! ((?f + j) mod length (elems q)) = elems q ! ((?f + j) mod length (elems q))"
        by simp
    qed simp
    finally show ?thesis by (simp add: queue_content_def)
  qed
  ultimately show ?thesis by blast
qed

lemma enqueue_correct:
  assumes I: "queue_inv es q" and x: "length x = es" and k: "alloc_ok kmalloc"
  shows "enqueue kmalloc q x = Some (- ENOMEM, q) \<and> queue_full q \<or>
    (\<exists>q'. enqueue kmalloc q x = Some (0, q') \<and> queue_inv es q' \<and> queue_content q' = queue_content q @ [x])"
proof (cases "queue_full q")
  case False
  then have "qlen q + 1 < q_capacity q" using queue_eqs(2,4) [OF I] by linarith
  then show ?thesis using enqueue_room [OF I x] by blast
next
  case True
  from queue_expand_correct [OF I k] show ?thesis
  proof
    assume "queue_expand kmalloc q = Some (- ENOMEM, q)"
    then show ?thesis using True by (simp add: enqueue_def errno_defs)
  next
    assume "\<exists>q'. queue_expand kmalloc q = Some (0, q') \<and> queue_inv es q' \<and>
      queue_content q' = queue_content q \<and> qlen q' = qlen q \<and> q_capacity q' = 2 * q_capacity q"
    then obtain q' where q': "queue_expand kmalloc q = Some (0, q')" "queue_inv es q'"
      "queue_content q' = queue_content q" "qlen q' = qlen q" "q_capacity q' = 2 * q_capacity q" by blast
    have room: "qlen q' + 1 < q_capacity q'" using q'(4,5) queue_eqs(2) [OF I] I by (simp add: queue_inv_def)
    then have "\<not> queue_full q'" using queue_eqs(4) [OF q'(2)] by simp
    then have "enqueue kmalloc q x = enqueue kmalloc q' x" using True q'(1) by (simp add: enqueue_def)
    then show ?thesis using enqueue_room [OF q'(2) x room] q'(3) by auto
  qed
qed

lemma dequeue_correct:
  assumes I: "queue_inv es q"
  shows "case queue_content q of
      [] \<Rightarrow> dequeue q = Some (- ENOENT, [], q)
    | x # xs \<Rightarrow> length x = es \<and> (\<exists>q'. dequeue q = Some (0, x, q') \<and> queue_inv es q' \<and> queue_content q' = xs)"
proof (cases "qlen q")
  case 0
  then show ?thesis using queue_eqs(3) [OF I] by (simp add: queue_content_def dequeue_def)
next
  case (Suc n)
  let ?f = "q_front q" and ?c = "q_capacity q"
  note i = I [unfolded queue_inv_def]
  have c: "?c \<le> 1073741824" using queue_inv_bounds(1) [OF I] by simp
  let ?q = "q\<lparr>q_front := (?f + 1) mod ?c\<rparr>"
  have "dequeue q = Some (0, elems q ! ?f, ?q)"
    using queue_slot [OF I, of ?f] i c Suc queue_eqs(3) [OF I] by (simp add: dequeue_def)
  moreover have "queue_inv es ?q" using i by (simp add: queue_inv_def)
  moreover have "queue_content q = (elems q ! ?f) # queue_content ?q"
  proof -
    have l: "qlen ?q = n" using rlen_out [of "q_rear q" ?c ?f 1] i Suc by (simp add: qlen_def)
    have "queue_content q = ring (elems q) ?f (1 + n)" by (simp add: queue_content_def Suc)
    also have "\<dots> = (elems q ! ?f) # queue_content ?q"
      unfolding ring_add queue_content_def l using i by (simp add: ring_def [of _ _ "Suc 0"])
    finally show ?thesis .
  qed
  moreover have "length (elems q ! ?f) = es"
    using i chunk_bound [of ?f ?c es "es * ?c"] by (simp add: seg_def)
  ultimately show ?thesis by simp
qed

section \<open>The queue as a first-in first-out buffer\<close>

text \<open>One call of \<open>enqueue\<close> puts an element, with the allocator as it behaves during that call.\<close>

definition queue_put :: "bytes \<times> alloc \<Rightarrow> queue \<Rightarrow> (bool \<times> queue) option" where
  "queue_put i q = do { (r, q) \<leftarrow> enqueue (snd i) q (fst i); Some (r = 0, q) }"

definition queue_get :: "nat \<Rightarrow> queue \<Rightarrow> (bytes list option \<times> queue) option" where
  "queue_get _ q = do { (r, x, q) \<leftarrow> dequeue q; Some (if r = 0 then Some [x] else None, q) }"

definition queue_put_ok :: "nat \<Rightarrow> bytes \<times> alloc \<Rightarrow> bool" where
  "queue_put_ok es i \<longleftrightarrow> length (fst i) = es \<and> alloc_ok (snd i)"

interpretation elem_queue: fifo_buffer queue_put queue_get "\<lambda>i. [fst i]" queue_content "queue_inv es"
  "queue_put_ok es" "\<lambda>n. n = 1"
  for es
proof
  fix q :: queue and i and n :: nat
  assume I: "queue_inv es q"
  show "\<exists>ok t. queue_put i q = Some (ok, t) \<and> queue_inv es t \<and>
      queue_content t = (if ok then queue_content q @ [fst i] else queue_content q)"
    if "queue_put_ok es i"
    using enqueue_correct [OF I, of "fst i" "snd i"] that I
    by (auto simp: queue_put_def queue_put_ok_def errno_defs)
  show "\<exists>r t. queue_get n q = Some (r, t) \<and> queue_inv es t \<and>
      (case r of None \<Rightarrow> length (queue_content q) < n \<and> queue_content t = queue_content q
       | Some xs \<Rightarrow> length xs = n \<and> queue_content q = xs @ queue_content t)" if "n = 1"
    using dequeue_correct [OF I] that I
    by (cases "queue_content q") (auto simp: queue_get_def errno_defs)
qed

section \<open>Properties\<close>

lemma queue_create_correct:
  assumes "alloc_ok kmalloc" "0 < es" "es < 2 ^ 27" "queue_create kmalloc es = Some q"
  shows "queue_inv es q" "queue_content q = []"
proof -
  have w: "wrap32 (queue_MIN_CAPACITY * es) = es * 8" using assms(3) by (simp add: queue_MIN_CAPACITY_def)
  obtain base where b: "kmalloc (es * 8) = Some base" and q: "q = \<lparr>q_base = base, q_element_size = es,
      q_front = 0, q_rear = 0, q_capacity = 8\<rparr>"
    using assms(4) unfolding queue_create_def w by (auto simp: queue_MIN_CAPACITY_def split: option.splits)
  have "length base = es * 8" using assms(1) b by (auto simp: alloc_ok_def)
  then show "queue_inv es q" "queue_content q = []"
    using assms(2,3) by (simp_all add: q queue_inv_def queue_content_def qlen_def rlen_def)
qed

text \<open>
  C24: a queue delivers its elements in the order in which they were put, across any number of
  expansions and also when an expansion fails for lack of memory: every sequence of \<open>enqueue\<close> and
  \<open>dequeue\<close> calls returns, and what was inside followed by what was accepted is what came out
  followed by what is left.
\<close>
theorem queue_order:
  assumes "queue_inv es q" "list_all (op_ok (queue_put_ok es) (\<lambda>n. n = 1)) ops"
  shows "\<exists>ins outs q'. run_fifo queue_put queue_get ops q = Some (ins, outs, q') \<and> queue_inv es q' \<and>
    queue_content q @ map fst ins = outs @ queue_content q'"
proof -
  have "concat (map (\<lambda>i. [fst i]) ins) = map fst ins" for ins :: "(bytes \<times> alloc) list"
    by (induction ins) auto
  then show ?thesis using elem_queue.run_order [OF assms] by metis
qed

definition some_alloc :: alloc where
  "some_alloc n = (if n \<le> 2 ^ 30 then Some (replicate n 0) else None)"

lemma some_alloc_ok: "alloc_ok some_alloc"
  by (auto simp: alloc_ok_def some_alloc_def split: if_splits)

theorem queue_order_witness:
  "\<exists>q ins outs q'. queue_create some_alloc 1 = Some q \<and>
    run_fifo queue_put queue_get
      (map (\<lambda>n. Put ([n], some_alloc)) [1, 2, 3, 4, 5, 6, 7, 8, 9] @ [Get 1]) q = Some (ins, outs, q') \<and>
    queue_inv 1 q' \<and> queue_content q @ map fst ins = outs @ queue_content q'"
proof -
  obtain q where q: "queue_create some_alloc 1 = Some q"
    by (simp add: queue_create_def some_alloc_def sizeof_queue_def queue_MIN_CAPACITY_def)
  have "queue_inv 1 q" by (rule queue_create_correct [OF some_alloc_ok _ _ q]) simp_all
  from queue_order [OF this, of "map (\<lambda>n. Put ([n], some_alloc)) [1, 2, 3, 4, 5, 6, 7, 8, 9] @ [Get 1]"] q
  show ?thesis by (simp add: queue_put_ok_def some_alloc_ok)
qed

text \<open>
  Growing a queue keeps its elements and their order, whether the ring wraps or not, and doubles
  the capacity; if no memory is available the queue is unchanged and \<open>-ENOMEM\<close> is returned.
\<close>
theorem queue_expand_keeps:
  assumes "queue_inv es q" "alloc_ok kmalloc"
  shows "queue_expand kmalloc q = Some (- ENOMEM, q) \<or>
    (\<exists>q'. queue_expand kmalloc q = Some (0, q') \<and> queue_inv es q' \<and>
      queue_content q' = queue_content q \<and> q_capacity q' = 2 * q_capacity q)"
  using queue_expand_correct [OF assms] by blast

theorem queue_expand_keeps_witness:
  "queue_inv 1 \<lparr>q_base = [10, 11, 12, 13], q_element_size = 1, q_front = 2, q_rear = 1, q_capacity = 4\<rparr> \<and>
    (\<exists>q'. queue_expand some_alloc
        \<lparr>q_base = [10, 11, 12, 13], q_element_size = 1, q_front = 2, q_rear = 1, q_capacity = 4\<rparr> =
        Some (0, q') \<and> queue_content q' = [[12], [13], [10]] \<and> q_capacity q' = 8)"
proof -
  let ?q = "\<lparr>q_base = [10, 11, 12, 13], q_element_size = 1, q_front = 2, q_rear = 1, q_capacity = 4\<rparr>"
  have I: "queue_inv 1 ?q" by (simp add: queue_inv_def)
  have c: "queue_content ?q = [[12], [13], [10]]" by code_simp
  have "\<exists>q'. queue_expand some_alloc ?q = Some (0, q')"
    by (simp add: queue_expand_def some_alloc_def queue_ele_def queue_size_def wrap32_def)
  with queue_expand_keeps [OF I some_alloc_ok] I c show ?thesis by (auto simp: errno_defs)
qed

end
