(* ===== verification/Vector_Model.thy ===== *)
theory Vector_Model
  imports Buffers
begin

text \<open>
  The growing array of \<^verbatim>\<open>libs/vector.c\<close> and \<^verbatim>\<open>include/vector.h\<close>.  The calls of \<open>kmalloc\<close> take the
  allocator as an argument (see Buffers); \<open>kfree\<close> of the old block does not change what the vector
  holds.  \<open>vector_content\<close> is the list of its elements.
\<close>

section \<open>Operations\<close>

record vector =
  v_base :: bytes
  v_element_size :: nat
  v_size :: nat
  v_capacity :: nat

definition vector_MIN_CAPACITY :: nat where "vector_MIN_CAPACITY = 8"

text \<open>\<open>sizeof(vector)\<close> on the 32-bit target.\<close>

definition sizeof_vector :: nat where "sizeof_vector = 16"

text \<open>Here \<open>None\<close> is the null pointer that the function returns.\<close>

definition vector_create :: "alloc \<Rightarrow> nat \<Rightarrow> vector option" where
  "vector_create kmalloc element_size =
     (case kmalloc sizeof_vector of None \<Rightarrow> None
      | Some _ \<Rightarrow>
          (case kmalloc (wrap32 (vector_MIN_CAPACITY * element_size)) of None \<Rightarrow> None
           | Some base \<Rightarrow> Some \<lparr>v_base = base, v_element_size = element_size, v_size = 0,
               v_capacity = vector_MIN_CAPACITY\<rparr>))"

definition vector_ele :: "vector \<Rightarrow> nat \<Rightarrow> nat" where
  "vector_ele v index = wrap32 (v_element_size v * index)"

definition vector_at :: "vector \<Rightarrow> nat \<Rightarrow> bytes option" where
  "vector_at v index =
     do {
       assert (index < v_size v);
       buf_read (v_base v) (vector_ele v index) (v_element_size v)
     }"

definition vector_expand :: "alloc \<Rightarrow> vector \<Rightarrow> (int \<times> vector) option" where
  "vector_expand kmalloc v =
     (case kmalloc (wrap32 (wrap32 (v_element_size v * v_capacity v) * 2)) of
        None \<Rightarrow> Some (- ENOMEM, v)
      | Some new_base \<Rightarrow>
          do {
            xs \<leftarrow> buf_read (v_base v) 0 (wrap32 (v_element_size v * v_size v));
            new_base \<leftarrow> buf_write new_base 0 xs;
            let v = v\<lparr>v_base := new_base\<rparr>;
            Some (0, v\<lparr>v_capacity := wrap32 (v_capacity v * 2)\<rparr>)
          })"

definition vector_push :: "alloc \<Rightarrow> vector \<Rightarrow> bytes \<Rightarrow> (int \<times> vector) option" where
  "vector_push kmalloc v ele =
     do {
       (ret, v) \<leftarrow> (if v_size v = v_capacity v then vector_expand kmalloc v else Some (0, v));
       if ret \<noteq> 0 then Some (- ENOMEM, v)
       else do {
         xs \<leftarrow> buf_read ele 0 (v_element_size v);
         base \<leftarrow> buf_write (v_base v) (vector_ele v (v_size v)) xs;
         let v = v\<lparr>v_base := base\<rparr>;
         Some (0, v\<lparr>v_size := wrap32 (v_size v + 1)\<rparr>)
       }
     }"

definition vector_pop :: "vector \<Rightarrow> (int \<times> bytes \<times> vector) option" where
  "vector_pop v =
     (if v_size v = 0 then Some (- ENOENT, [], v)
      else do {
        ele \<leftarrow> buf_read (v_base v) (vector_ele v (v_size v - 1)) (v_element_size v);
        Some (0, ele, v\<lparr>v_size := v_size v - 1\<rparr>)
      })"

definition vector_size :: "vector \<Rightarrow> nat" where
  "vector_size v = v_size v"

definition vector_empty :: "vector \<Rightarrow> bool" where
  "vector_empty v \<longleftrightarrow> v_size v = 0"

section \<open>The invariant and the content\<close>

definition vector_inv :: "nat \<Rightarrow> vector \<Rightarrow> bool" where
  "vector_inv es v \<longleftrightarrow> 0 < es \<and> v_element_size v = es \<and> 0 < v_capacity v \<and>
     es * v_capacity v \<le> 2 ^ 30 \<and> length (v_base v) = es * v_capacity v \<and> v_size v \<le> v_capacity v"

definition vector_content :: "vector \<Rightarrow> bytes list" where
  "vector_content v = chunks (v_element_size v) (v_size v) (v_base v)"

lemma length_vector_content [simp]: "length (vector_content v) = v_size v"
  by (simp add: vector_content_def)

lemma vector_inv_bounds:
  assumes "vector_inv es v"
  shows "v_capacity v \<le> 1073741824" "i \<le> v_capacity v \<Longrightarrow> es * i \<le> 1073741824"
    "i \<le> v_capacity v \<Longrightarrow> vector_ele v i = es * i"
proof -
  have I: "0 < es" "v_element_size v = es" "es * v_capacity v \<le> 1073741824"
    using assms by (auto simp: vector_inv_def)
  have "1 * v_capacity v \<le> es * v_capacity v" using I by (intro mult_le_mono1) simp
  then show "v_capacity v \<le> 1073741824" using I by linarith
  show le: "i \<le> v_capacity v \<Longrightarrow> es * i \<le> 1073741824"
    using I(3) mult_le_mono2 [of i "v_capacity v" es] by linarith
  show "i \<le> v_capacity v \<Longrightarrow> vector_ele v i = es * i" using le I(2) by (simp add: vector_ele_def)
qed

lemma vector_expand_correct:
  assumes I: "vector_inv es v" and k: "alloc_ok kmalloc"
  shows "vector_expand kmalloc v = Some (- ENOMEM, v) \<or>
    (\<exists>v'. vector_expand kmalloc v = Some (0, v') \<and> vector_inv es v' \<and> v_size v' = v_size v \<and>
      vector_content v' = vector_content v \<and> v_capacity v' = 2 * v_capacity v)"
proof -
  let ?c = "v_capacity v" and ?n = "v_size v"
  have e: "es * ?c \<le> 1073741824" "v_element_size v = es" "?c \<le> 1073741824" "?n \<le> ?c"
    "length (v_base v) = es * ?c" "0 < es" "0 < ?c"
    using I vector_inv_bounds(1) [OF I] by (auto simp: vector_inv_def)
  have le: "es * ?n \<le> es * ?c" using e(4) by simp
  have w: "wrap32 (wrap32 (v_element_size v * ?c) * 2) = es * ?c * 2" "wrap32 (?c * 2) = 2 * ?c"
    "wrap32 (v_element_size v * ?n) = es * ?n"
    using e(1-3) vector_inv_bounds(2) [OF I e(4)] by simp_all
  show ?thesis
  proof (cases "kmalloc (es * ?c * 2)")
    case None
    then show ?thesis by (simp add: vector_expand_def w)
  next
    case (Some nb)
    then have nb: "length nb = es * ?c * 2" "es * ?c * 2 \<le> 2 ^ 30"
      using k by (auto simp: alloc_ok_def)
    let ?xs = "seg (v_base v) 0 (es * ?n)"
    have lx: "length ?xs = es * ?n" using le e(5) by (simp add: seg_def)
    then have "length ?xs \<le> length nb" using le nb(1) by linarith
    then obtain b where b: "buf_write nb 0 ?xs = Some b" by simp
    let ?v = "v\<lparr>v_base := b, v_capacity := 2 * ?c\<rparr>"
    have "buf_read (v_base v) 0 (es * ?n) = Some ?xs" using le e(5) by (simp add: seg_def)
    then have "vector_expand kmalloc v = Some (0, ?v)"
      using b Some by (simp add: vector_expand_def w)
    moreover have "vector_inv es ?v"
      using e nb buf_write_nth(1) [OF b] by (simp add: vector_inv_def mult_ac)
    moreover have "vector_content ?v = vector_content v"
    proof (rule nth_equalityI)
      fix j assume "j < length (vector_content ?v)"
      then have j: "j < ?n" by simp
      then have je: "es * j + es \<le> es * ?n" by (rule chunk_bound) simp
      then show "vector_content ?v ! j = vector_content v ! j"
        using j e(2) lx seg_write_in [OF b, of "es * j" es] by (simp add: vector_content_def seg_seg)
    qed simp
    ultimately show ?thesis by auto
  qed
qed

lemma vector_push_room:
  assumes I: "vector_inv es v" and x: "length x = es" and room: "v_size v < v_capacity v"
  shows "\<exists>v'. vector_push kmalloc v x = Some (0, v') \<and> vector_inv es v' \<and>
    vector_content v' = vector_content v @ [x]"
proof -
  let ?c = "v_capacity v" and ?n = "v_size v"
  have e: "v_element_size v = es" "?c \<le> 1073741824" "length (v_base v) = es * ?c"
    using I vector_inv_bounds(1) [OF I] by (auto simp: vector_inv_def)
  obtain b where b: "buf_write (v_base v) (es * ?n) x = Some b" "length b = es * ?c"
    "chunks es ?c b = (chunks es ?c (v_base v))[?n := x]"
    using chunks_write [OF e(3) room x] by blast
  let ?v = "v\<lparr>v_base := b, v_size := ?n + 1\<rparr>"
  have "vector_push kmalloc v x = Some (0, ?v)"
    using b(1) room e x vector_inv_bounds(3) [OF I, of ?n] by (simp add: vector_push_def)
  moreover have "vector_inv es ?v" using I b(2) room by (simp add: vector_inv_def)
  moreover have "vector_content ?v = vector_content v @ [x]"
  proof (rule nth_equalityI)
    fix j assume "j < length (vector_content ?v)"
    then have j: "j < ?n + 1" by simp
    then have "vector_content ?v ! j = chunks es ?c b ! j" using room e(1) by (simp add: vector_content_def)
    also have "\<dots> = (if j = ?n then x else chunks es ?c (v_base v) ! j)" using b(3) room by simp
    also have "\<dots> = (vector_content v @ [x]) ! j"
      using j room e(1) by (auto simp: nth_append vector_content_def)
    finally show "vector_content ?v ! j = (vector_content v @ [x]) ! j" .
  qed simp
  ultimately show ?thesis by blast
qed

section \<open>Properties\<close>

text \<open>
  \<open>vector_push\<close> appends the element, growing the vector when it is full; the only failure is
  \<open>-ENOMEM\<close>, on a full vector, and it changes nothing.
\<close>
theorem vector_push_appends:
  assumes "vector_inv es v" "length x = es" "alloc_ok kmalloc"
  shows "vector_push kmalloc v x = Some (- ENOMEM, v) \<and> v_size v = v_capacity v \<or>
    (\<exists>v'. vector_push kmalloc v x = Some (0, v') \<and> vector_inv es v' \<and>
      vector_content v' = vector_content v @ [x])"
proof (cases "v_size v = v_capacity v")
  case False
  then have "v_size v < v_capacity v" using assms(1) by (simp add: vector_inv_def)
  then show ?thesis using vector_push_room [OF assms(1,2)] by blast
next
  case True
  from vector_expand_correct [OF assms(1,3)] show ?thesis
  proof
    assume "vector_expand kmalloc v = Some (- ENOMEM, v)"
    then show ?thesis using True by (simp add: vector_push_def errno_defs)
  next
    assume "\<exists>v'. vector_expand kmalloc v = Some (0, v') \<and> vector_inv es v' \<and> v_size v' = v_size v \<and>
      vector_content v' = vector_content v \<and> v_capacity v' = 2 * v_capacity v"
    then obtain v' where v': "vector_expand kmalloc v = Some (0, v')" "vector_inv es v'"
      "v_size v' = v_size v" "vector_content v' = vector_content v" "v_capacity v' = 2 * v_capacity v" by blast
    then have room: "v_size v' < v_capacity v'" using True assms(1) by (simp add: vector_inv_def)
    then have "vector_push kmalloc v x = vector_push kmalloc v' x"
      using True v'(1) by (simp add: vector_push_def)
    then show ?thesis using vector_push_room [OF v'(2) assms(2) room] v'(4) by auto
  qed
qed

theorem vector_push_appends_witness:
  "\<exists>v'. vector_push (\<lambda>n. if n \<le> 16 then Some (replicate n 0) else None)
      \<lparr>v_base = [1, 2], v_element_size = 1, v_size = 2, v_capacity = 2\<rparr> [3] = Some (0, v') \<and>
    vector_inv 1 v' \<and> vector_content v' = [[1], [2], [3]]"
proof -
  let ?k = "\<lambda>n. if n \<le> 16 then Some (replicate n 0) else None" and
    ?v = "\<lparr>v_base = [1, 2], v_element_size = 1, v_size = 2, v_capacity = 2\<rparr>"
  have k: "alloc_ok ?k" by (auto simp: alloc_ok_def)
  have I: "vector_inv 1 ?v" by (simp add: vector_inv_def)
  have c: "vector_content ?v = [[1], [2]]" by code_simp
  have "vector_push ?k ?v [3] \<noteq> Some (- ENOMEM, ?v)"
    by (simp add: vector_push_def vector_expand_def vector_ele_def wrap32_def errno_defs)
  with vector_push_appends [OF I _ k, of "[3]"] c show ?thesis by auto
qed

text \<open>
  \<open>vector_pop\<close> takes back exactly the last element, so it undoes \<open>vector_push\<close>; on an empty
  vector it returns \<open>-ENOENT\<close>.  \<open>vector_at\<close> returns the element at an index below the size and fails
  its assertion elsewhere.
\<close>
theorem vector_pop_at:
  assumes "vector_inv es v"
  shows "(if vector_empty v then vector_pop v = Some (- ENOENT, [], v)
      else \<exists>v'. vector_pop v = Some (0, last (vector_content v), v') \<and> vector_inv es v' \<and>
        vector_content v' = butlast (vector_content v)) \<and>
    vector_at v i = (if i < vector_size v then Some (vector_content v ! i) else None)"
proof
  let ?n = "v_size v"
  have e: "v_element_size v = es" "length (v_base v) = es * v_capacity v" "?n \<le> v_capacity v"
    using assms by (auto simp: vector_inv_def)
  have slot: "buf_read (v_base v) (vector_ele v j) es = Some (vector_content v ! j)" if "j < ?n" for j
    using that e chunk_bound [of j "v_capacity v" es "length (v_base v)"] vector_inv_bounds(3) [OF assms, of j]
    by (simp add: vector_content_def seg_def)
  show "vector_at v i = (if i < vector_size v then Some (vector_content v ! i) else None)"
    using slot e by (simp add: vector_at_def vector_size_def)
  show "if vector_empty v then vector_pop v = Some (- ENOENT, [], v)
      else \<exists>v'. vector_pop v = Some (0, last (vector_content v), v') \<and> vector_inv es v' \<and>
        vector_content v' = butlast (vector_content v)"
  proof (cases "?n")
    case 0
    then show ?thesis by (simp add: vector_empty_def vector_pop_def)
  next
    case (Suc m)
    let ?v = "v\<lparr>v_size := m\<rparr>"
    have s: "vector_content v = vector_content ?v @ [vector_content v ! m]"
      by (rule nth_equalityI) (auto simp: Suc nth_append vector_content_def less_Suc_eq)
    have l: "last (vector_content v) = vector_content v ! m" "butlast (vector_content v) = vector_content ?v"
      by (subst s, simp)+
    have "vector_pop v = Some (0, vector_content v ! m, ?v)"
      using slot [of m] Suc e by (simp add: vector_pop_def)
    moreover have "vector_inv es ?v" using assms Suc by (simp add: vector_inv_def)
    ultimately show ?thesis using l Suc by (simp add: vector_empty_def)
  qed
qed

theorem vector_pop_at_witness:
  "\<exists>v'. vector_pop \<lparr>v_base = [1, 2, 3, 4], v_element_size = 2, v_size = 2, v_capacity = 2\<rparr> =
      Some (0, last [[1, 2], [3, 4]], v') \<and> vector_inv 2 v' \<and> vector_content v' = [[1, 2]]"
proof -
  let ?v = "\<lparr>v_base = [1, 2, 3, 4], v_element_size = 2, v_size = 2, v_capacity = 2\<rparr>"
  have c: "vector_content ?v = [[1, 2], [3, 4]]" by code_simp
  have "vector_inv 2 ?v" by (simp add: vector_inv_def)
  from vector_pop_at [OF this, of 0] show ?thesis by (simp add: c vector_empty_def)
qed

end
