(* ===== verification/Addresses.thy ===== *)
theory Addresses
  imports Page_Alloc
begin

text \<open>
  The address arithmetic of \<^verbatim>\<open>include/memory.h\<close> and \<^verbatim>\<open>include/asm-generic/mmu.h\<close>: physical and virtual
  addresses are 32-bit words, page frames are natural numbers.
\<close>

section \<open>Conversions\<close>

definition PAGE_SHIFT :: nat where "PAGE_SHIFT = 12"
definition PAGE_SIZE :: u32 where "PAGE_SIZE = 4096"
definition KERNEL_VIRT_BASE :: u32 where "KERNEL_VIRT_BASE = 0xC0000000"
definition VMALLOC_START :: u32 where "VMALLOC_START = PAGE_SIZE"
definition VMALLOC_END :: u32 where "VMALLOC_END = KERNEL_VIRT_BASE"

named_theorems addr_consts \<open>the constants of the memory layout\<close>

lemmas [addr_consts] = PAGE_SHIFT_def PAGE_SIZE_def KERNEL_VIRT_BASE_def VMALLOC_START_def VMALLOC_END_def

definition virt_to_phys :: "u32 \<Rightarrow> u32" where "virt_to_phys x = x - KERNEL_VIRT_BASE"
definition phys_to_virt :: "u32 \<Rightarrow> u32" where "phys_to_virt x = x + KERNEL_VIRT_BASE"
definition phys_to_pfn :: "u32 \<Rightarrow> nat" where "phys_to_pfn x = unat (drop_bit PAGE_SHIFT x)"

definition page_to_phys :: "nat \<Rightarrow> u32" where
  "page_to_phys page = PAGE_SIZE * of_nat (page_to_pfn page)"

definition phys_to_page :: "u32 \<Rightarrow> nat" where
  "phys_to_page phys = pfn_to_page (phys_to_pfn phys)"

definition virt_to_page :: "u32 \<Rightarrow> nat" where
  "virt_to_page virt = phys_to_page (virt_to_phys virt)"

definition page_to_virt :: "nat \<Rightarrow> u32" where
  "page_to_virt page = phys_to_virt (page_to_phys page)"

definition pde_index :: "u32 \<Rightarrow> nat" where "pde_index x = unat (drop_bit 22 x AND 0x3ff)"
definition pte_index :: "u32 \<Rightarrow> nat" where "pte_index x = unat (drop_bit 12 x AND 0x3ff)"
definition page_base :: "u32 \<Rightarrow> u32" where "page_base x = x AND NOT 0xfff"
definition page_offset :: "u32 \<Rightarrow> u32" where "page_offset x = x AND 0xfff"
definition round_up_page :: "u32 \<Rightarrow> u32" where "round_up_page x = round_up x PAGE_SIZE"
definition round_down_page :: "u32 \<Rightarrow> u32" where "round_down_page x = round_down x PAGE_SIZE"

definition is_vmalloc_addr :: "u32 \<Rightarrow> bool" where
  "is_vmalloc_addr addr \<longleftrightarrow> addr \<ge> VMALLOC_START \<and> addr < VMALLOC_END"

section \<open>Lemmas\<close>

lemma unat_page_to_phys: "p < TOTAL_PAGES \<Longrightarrow> unat (page_to_phys p) = 4096 * p"
proof -
  assume "p < TOTAL_PAGES"
  then have "4096 * p < 2 ^ 32" by (simp add: page_consts)
  then show ?thesis
    using unat_of_nat_u32 [of "4096 * p"] by (simp add: page_to_phys_def page_to_pfn_def addr_consts)
qed

lemma unat_phys_to_virt: "unat x < 2 ^ 30 \<Longrightarrow> unat (phys_to_virt x) = unat x + 0xC0000000"
  unfolding phys_to_virt_def addr_consts by (subst unat_add_lem [THEN iffD1]) simp_all

lemma virt_phys [simp]: "virt_to_phys (phys_to_virt x) = x" "phys_to_virt (virt_to_phys x) = x"
  by (simp_all add: virt_to_phys_def phys_to_virt_def)

lemma phys_to_pfn_eq: "phys_to_pfn x = unat x div 4096"
  unfolding phys_to_pfn_def addr_consts unat_drop_bit_eq by (simp add: drop_bit_eq_div)

text \<open>A linearly mapped page lies in \<open>2 ^ 18\<close> frames (1 GB); an address inside it leads back to it.\<close>

lemma virt_to_page_inside:
  assumes "p < 2 ^ 18" "off < 4096"
  shows "virt_to_page (page_to_virt p + of_nat off) = p"
proof -
  have p: "p < TOTAL_PAGES" using assms(1) by (simp add: page_consts)
  have "unat (page_to_phys p + of_nat off) = 4096 * p + off"
  proof -
    have u: "unat (of_nat off :: u32) = off" using assms(2) by (intro unat_of_nat_u32) simp
    have "unat (page_to_phys p) + unat (of_nat off :: u32) < 2 ^ 32"
      unfolding unat_page_to_phys [OF p] u using assms by simp
    then show ?thesis using unat_page_to_phys [OF p] u by (simp add: unat_add_lem [THEN iffD1])
  qed
  moreover have "virt_to_phys (page_to_virt p + of_nat off) = page_to_phys p + of_nat off"
    by (simp add: virt_to_phys_def page_to_virt_def phys_to_virt_def)
  ultimately show ?thesis
    using assms by (simp add: virt_to_page_def phys_to_page_def pfn_to_page_def phys_to_pfn_eq)
qed

lemma unat_page_to_virt:
  assumes "p < 2 ^ 18" "off < 4096"
  shows "unat (page_to_virt p + of_nat off) = 0xC0000000 + 4096 * p + off"
proof -
  have p: "p < TOTAL_PAGES" using assms(1) by (simp add: page_consts)
  have v: "unat (page_to_virt p) = 4096 * p + 0xC0000000"
    unfolding page_to_virt_def using unat_page_to_phys [OF p] assms(1) by (subst unat_phys_to_virt) simp_all
  have u: "unat (of_nat off :: u32) = off" using assms(2) by (intro unat_of_nat_u32) simp
  have "unat (page_to_virt p) + unat (of_nat off :: u32) < 2 ^ 32" unfolding v u using assms by simp
  then show ?thesis using v u by (simp add: unat_add_lem [THEN iffD1])
qed

lemma page_to_virt_inj:
  assumes "p < 2 ^ 18" "q < 2 ^ 18" "i < 4096" "j < 4096"
    and "page_to_virt p + of_nat i = page_to_virt q + of_nat j"
  shows "p = q \<and> i = j"
  using assms virt_to_page_inside [OF assms(1,3)] virt_to_page_inside [OF assms(2,4)]
    unat_page_to_virt [OF assms(1,3)] unat_page_to_virt [OF assms(2,4)] by simp

lemma not_vmalloc_linear:
  assumes "p < 2 ^ 18" "off < 4096"
  shows "\<not> is_vmalloc_addr (page_to_virt p + of_nat off)"
  using unat_page_to_virt [OF assms] by (simp add: is_vmalloc_addr_def word_less_nat_alt addr_consts)

end
