(* ===== verification/Slab.thy ===== *)
theory Slab
  imports Addresses Kmalloc_Early
begin

text \<open>
  The slab allocator of \<^verbatim>\<open>mm/slab.c\<close> and the dispatch of \<open>kmalloc\<close> and \<open>kfree\<close> in \<^verbatim>\<open>mm/kmalloc.c\<close>.  A cache
  is named by its index in \<open>kmalloc_cache\<close>; the free list of a slab page, which lies at the end of the page
  itself, is part of a byte-addressed memory.

  \<open>slab_inv\<close> says that the pages on the lists of the caches of 16 bytes and more are slab pages whose free
  list is a duplicate-free list of exactly the objects that are not in use.
\<close>

section \<open>State and operations\<close>

record kmem_cache =
  kc_size :: nat
  kc_lock :: spinlock_t

record sstate =
  sp :: pstate
  smem :: "u32 \<Rightarrow> u8"
  caches :: "nat \<Rightarrow> kmem_cache"

definition on_sp :: "(pstate \<Rightarrow> pstate) \<Rightarrow> sstate \<Rightarrow> sstate" where
  "on_sp g s = s\<lparr>sp := g (sp s)\<rparr>"

definition spage :: "sstate \<Rightarrow> nat \<Rightarrow> page" where
  "spage s p = pages (sp s) p"

definition on_spage :: "nat \<Rightarrow> (page \<Rightarrow> page) \<Rightarrow> sstate \<Rightarrow> sstate" where
  "on_spage p g = on_sp (on_page p g)"

definition index_to_obj :: "nat \<Rightarrow> nat \<Rightarrow> nat \<Rightarrow> sstate \<Rightarrow> u32" where
  "index_to_obj cache page idx s = s_mem (spage s page) + of_nat (kc_size (caches s cache)) * of_nat idx"

definition obj_to_index :: "nat \<Rightarrow> nat \<Rightarrow> u32 \<Rightarrow> sstate \<Rightarrow> nat option" where
  "obj_to_index cache page obj s =
     do {
       assert (kc_size (caches s cache) \<noteq> 0);
       Some (unat (obj - s_mem (spage s page)) div kc_size (caches s cache))
     }"

text \<open>
  \<open>page_address\<close> of \<^verbatim>\<open>mm/page_table.c\<close>: a page of high memory is mapped with \<open>vmap\<close>, whose result is an
  argument.
\<close>

definition page_address :: "(nat \<Rightarrow> u32) \<Rightarrow> nat \<Rightarrow> pstate \<Rightarrow> u32" where
  "page_address vmap page s =
     (if \<not> page_flag PAGE_HIGHMEM s page then phys_to_virt (page_to_phys page) else vmap page)"

definition fill_freelist :: "u32 \<Rightarrow> nat \<Rightarrow> (u32 \<Rightarrow> u8) \<Rightarrow> u32 \<Rightarrow> u8" where
  "fill_freelist fl n m = fold (\<lambda>i m. m(fl + of_nat i := of_nat i)) [0 ..< n] m"

definition slab_page_init :: "(nat \<Rightarrow> u32) \<Rightarrow> nat \<Rightarrow> nat \<Rightarrow> sstate \<Rightarrow> (int \<times> sstate) option" where
  "slab_page_init vmap cache page s =
     do {
       let addr = page_address vmap page (sp s);
       let s = on_spage page (s_mem_update (\<lambda>_. addr)) s;
       if addr = 0 then Some (- ENOMEM, s)
       else do {
         assert (kc_size (caches s cache) \<noteq> 0);
         let tot = (of_nat (4096 div kc_size (caches s cache)) :: u16);
         let fl = addr + PAGE_SIZE - of_nat (unat tot);
         let s = on_spage page (freelist_update (\<lambda>_. fl)) s;
         let s = on_spage page
               (total_update (\<lambda>_. of_nat (unat (4096 - of_nat (unat tot) :: u32) div kc_size (caches s cache)))) s;
         let s = on_spage page (active_update (\<lambda>_. 0)) s;
         let s = on_spage page (slab_cache_update (\<lambda>_. Some cache)) s;
         let s = s\<lparr>smem := fill_freelist fl (unat tot) (smem s)\<rparr>;
         Some (0, on_sp (set_pg_flag PAGE_SLAB page) s)
       }
     }"

definition slab_page_deinit :: "nat \<Rightarrow> sstate \<Rightarrow> sstate" where
  "slab_page_deinit page s =
     on_sp (clear_pg_flag PAGE_SLAB page)
       (on_spage page (\<lambda>p. p\<lparr>freelist := 0, total := 0, active := 0, slab_cache := None\<rparr>) s)"

definition alloc_block :: "nat \<Rightarrow> nat \<Rightarrow> sstate \<Rightarrow> (u32 \<times> sstate) option" where
  "alloc_block cache page s =
     do {
       assert (active (spage s page) < total (spage s page));
       let index = unat (smem s (freelist (spage s page) + of_nat (unat (active (spage s page)))));
       let s = on_spage page (active_update (\<lambda>a. a + 1)) s;
       let obj = index_to_obj cache page index s;
       let s = (if active (spage s page) = total (spage s page)
                then on_sp (on_plists (list_insert (SlabsFull cache) (PageNode page)))
                       (on_sp (on_plists (list_remove (PageNode page))) s)
                else s);
       Some (obj, s)
     }"

definition free_block :: "nat \<Rightarrow> nat \<Rightarrow> u32 \<Rightarrow> sstate \<Rightarrow> sstate option" where
  "free_block cache page obj s =
     do {
       index \<leftarrow> obj_to_index cache page obj s;
       assert (active (spage s page) > 0);
       let s = on_spage page (active_update (\<lambda>a. a - 1)) s;
       let s = s\<lparr>smem := (smem s)(freelist (spage s page) + of_nat (unat (active (spage s page))) := of_nat index)\<rparr>;
       if active (spage s page) = 0 then
         do {
           let s = on_sp (on_plists (list_remove (PageNode page))) s;
           let s = slab_page_deinit page s;
           ps \<leftarrow> free_pages page (sp s);
           Some (s\<lparr>sp := ps\<rparr>)
         }
       else Some s
     }"

definition lock_cache :: "nat \<Rightarrow> sstate \<Rightarrow> sstate option" where
  "lock_cache c s =
     do {
       l \<leftarrow> spin_lock (kc_lock (caches s c));
       Some (s\<lparr>caches := (caches s)(c := (caches s c)\<lparr>kc_lock := l\<rparr>)\<rparr>)
     }"

definition unlock_cache :: "nat \<Rightarrow> sstate \<Rightarrow> sstate" where
  "unlock_cache c s =
     s\<lparr>caches := (caches s)(c := (caches s c)\<lparr>kc_lock := spin_unlock (kc_lock (caches s c))\<rparr>)\<rparr>"

text \<open>The result 0 is the null pointer.  A null page from \<open>alloc_page\<close> is dereferenced: \<open>None\<close>.\<close>

definition kmem_cache_alloc :: "(nat \<Rightarrow> u32) \<Rightarrow> nat \<Rightarrow> sstate \<Rightarrow> (u32 \<times> sstate) option" where
  "kmem_cache_alloc vmap cache s =
     do {
       s \<leftarrow> lock_cache cache s;
       (ret, page, s) \<leftarrow>
         (if list_empty (SlabsPartial cache) (plists (sp s)) then
            do {
              (pg, ps) \<leftarrow> alloc_pages GFP_NORMAL 0 (sp s);
              page \<leftarrow> pg;
              (ret, s) \<leftarrow> slab_page_init vmap cache page (s\<lparr>sp := ps\<rparr>);
              if ret \<noteq> 0 then Some (ret, page, s)
              else Some (0, page, on_sp (on_plists (list_insert (SlabsPartial cache) (PageNode page))) s)
            }
          else do {
            page \<leftarrow> container_of_page (list_next (SlabsPartial cache) (plists (sp s)));
            Some (0, page, s)
          });
       if ret \<noteq> 0 then Some (0, s)
       else do {
         (ptr, s) \<leftarrow> alloc_block cache page s;
         Some (ptr, unlock_cache cache s)
       }
     }"

definition kmem_cache_free :: "nat \<Rightarrow> u32 \<Rightarrow> sstate \<Rightarrow> sstate option" where
  "kmem_cache_free cache obj s =
     do {
       assert (\<not> is_vmalloc_addr obj);
       let page = virt_to_page obj;
       assert (slab_cache (spage s page) = Some cache \<and> \<not> page_flag PAGE_HIGHMEM (sp s) page);
       s \<leftarrow> lock_cache cache s;
       s \<leftarrow> free_block cache page obj s;
       Some (unlock_cache cache s)
     }"

definition kmem_cache_create :: "nat \<Rightarrow> nat \<Rightarrow> sstate \<Rightarrow> int \<times> sstate" where
  "kmem_cache_create cache sz s =
     (if sz > 4096 then (- EINVAL, s)
      else
        let s = on_sp (on_plists (list_init (SlabsFull cache))) s;
            s = on_sp (on_plists (list_init (SlabsPartial cache))) s
        in (0, s\<lparr>caches := (caches s)(cache :=
              \<lparr>kc_size = sz, kc_lock = spinlock_init (kc_lock (caches s cache))\<rparr>)\<rparr>))"

section \<open>The dispatch of \<open>kmalloc\<close>\<close>

record kernel_heap =
  early :: kstate
  slabs :: sstate
  init_kmem_cache :: bool

definition KMEM_CACHE_MAX_ORDER :: nat where "KMEM_CACHE_MAX_ORDER = 7"
definition KMEM_CACHE_MAX_SIZE :: nat where "KMEM_CACHE_MAX_SIZE = MIN_SIZE * 2 ^ KMEM_CACHE_MAX_ORDER"

definition kmalloc :: "(nat \<Rightarrow> u32) \<Rightarrow> u32 \<Rightarrow> kernel_heap \<Rightarrow> (u32 \<times> kernel_heap) option" where
  "kmalloc vmap sz k =
     (if \<not> init_kmem_cache k then
        do { (ptr, e) \<leftarrow> kmalloc_early sz (early k); Some (ptr, k\<lparr>early := e\<rparr>) }
      else if unat sz \<le> KMEM_CACHE_MAX_SIZE then
        do {
          let order = unat (ilog2_roundup (round_up sz (of_nat MIN_SIZE) div of_nat MIN_SIZE));
          assert (order \<le> KMEM_CACHE_MAX_ORDER);
          (ptr, s) \<leftarrow> kmem_cache_alloc vmap order (slabs k);
          Some (ptr, k\<lparr>slabs := s\<rparr>)
        }
      else
        do {
          let order = unat (ilog2_roundup (round_up_page sz div PAGE_SIZE));
          (page, ps) \<leftarrow> alloc_pages GFP_NORMAL order (sp (slabs k));
          let k = k\<lparr>slabs := (slabs k)\<lparr>sp := ps\<rparr>\<rparr>;
          case page of None \<Rightarrow> Some (0, k) | Some p \<Rightarrow> Some (page_to_virt p, k)
        })"

definition kfree :: "u32 \<Rightarrow> kernel_heap \<Rightarrow> kernel_heap option" where
  "kfree ptr k =
     (if is_early_block_addr (early k) ptr then
        do { e \<leftarrow> kfree_early ptr (early k); Some (k\<lparr>early := e\<rparr>) }
      else
        let page = virt_to_page ptr in
        if page_flag PAGE_SLAB (sp (slabs k)) page then
          do {
            cache \<leftarrow> slab_cache (spage (slabs k) page);
            s \<leftarrow> kmem_cache_free cache ptr (slabs k);
            Some (k\<lparr>slabs := s\<rparr>)
          }
        else do { ps \<leftarrow> free_pages page (sp (slabs k)); Some (k\<lparr>slabs := (slabs k)\<lparr>sp := ps\<rparr>\<rparr>) })"

definition kmalloc_init :: "kernel_heap \<Rightarrow> kernel_heap" where
  "kmalloc_init k =
     k\<lparr>slabs := fold (\<lambda>i s. snd (kmem_cache_create i (MIN_SIZE * 2 ^ i) s))
                  [0 ..< KMEM_CACHE_MAX_ORDER + 1] (slabs k),
       init_kmem_cache := True\<rparr>"

section \<open>The page allocator leaves the slab data alone\<close>

definition pdata :: "pstate \<Rightarrow> nat \<Rightarrow> u32 \<times> u32 \<times> u16 \<times> u16 \<times> nat option" where
  "pdata s p = (s_mem (pages s p), freelist (pages s p), active (pages s p), total (pages s p), slab_cache (pages s p))"

lemma pdata_simps [simp]:
  "pdata (set_pg_order b k s) = pdata s" "pdata (set_pg_flag nr b s) = pdata s"
  "pdata (clear_pg_flag nr b s) = pdata s" "pdata (on_plists g s) = pdata s"
  "pdata (page_lock_update l s) = pdata s" "pdata (unlock_pages s) = pdata s"
  by (auto simp: pdata_def fun_eq_iff set_pg_order_def set_pg_flag_def clear_pg_flag_def on_page_def
      on_plists_def unlock_pages_def)

lemma free_page_pdata: "free_page b k s = Some t \<Longrightarrow> pdata t = pdata s"
  by (auto simp: free_page_def Let_def split: if_splits)

lemma alloc_pages_split_pdata:
  assumes "alloc_pages_split order page s = Some t"
  shows "pdata t = pdata s"
proof (rule alloc_pages_split.raw_induct [where P = "\<lambda>order page s t. pdata t = pdata s", OF _ assms])
  fix f :: "nat \<Rightarrow> nat \<Rightarrow> pstate \<Rightarrow> pstate option" and order page s t
  assume IH: "\<And>order page s t. f order page s = Some t \<Longrightarrow> pdata t = pdata s"
    and "(if order < pord s page then
        do {
          let s = set_pg_order page (pord s page - 1) s;
          buddy \<leftarrow> page_buddy page s;
          _ \<leftarrow> assert (page_flag PAGE_VALID s buddy);
          s \<leftarrow> free_page buddy (pord s page) s;
          f order page s
        }
      else Some s) = Some t"
  then show "pdata t = pdata s"
    by (auto simp: Let_def bind_eq_Some_conv dest!: free_page_pdata IH split: if_splits)
qed

lemma alloc_pages_scan_pdata:
  assumes "alloc_pages_scan gm order i s = Some (r, t)"
  shows "pdata t = pdata s"
proof -
  have "pdata (snd x) = pdata s" if "alloc_pages_scan gm order i s = Some x" for x
  proof (rule alloc_pages_scan.raw_induct [where P = "\<lambda>gm order i s x. pdata (snd x) = pdata s", OF _ that])
    fix f gm order i s x
    assume IH: "\<And>gm order i s x. f gm order i s = Some x \<Longrightarrow> pdata (snd x) = pdata s"
      and body: "(if i \<le> page_MAX_ORDER then
          let list = get_free_list gm i in
          if \<not> list_empty list (plists s) then
            do {
              let node = list_next list (plists s);
              let s = on_plists (list_remove node) s;
              page \<leftarrow> container_of_page node;
              _ \<leftarrow> assert (i = pord s page);
              s \<leftarrow> alloc_pages_split order page s;
              let s = clear_pg_flag PAGE_FREE page s;
              Some (Some page, s)
            }
          else f gm order (i + 1) s
        else Some (None, s)) = Some x"
    then show "pdata (snd x) = pdata s"
      by (auto simp: Let_def bind_eq_Some_conv dest!: alloc_pages_split_pdata IH split: if_splits)
  qed
  from this [OF assms] show ?thesis by simp
qed

lemma lock_pages_pdata: "lock_pages s = Some t \<Longrightarrow> pdata t = pdata s"
  by (auto simp: lock_pages_def bind_eq_Some_conv)

lemma alloc_pages_pdata: "alloc_pages gm order s = Some (r, t) \<Longrightarrow> pdata t = pdata s"
  by (auto simp: alloc_pages_def bind_eq_Some_conv dest!: lock_pages_pdata alloc_pages_scan_pdata split: if_splits)

section \<open>Slab lists and the invariant of the page allocator\<close>

lemma page_ok_same:
  assumes "page_ok S sl s A" "pord t = pord s" "page_flag PAGE_VALID t = page_flag PAGE_VALID s"
    "page_flag PAGE_FREE t = page_flag PAGE_FREE s" "page_flag PAGE_HIGHMEM t = page_flag PAGE_HIGHMEM s"
    "plists t = plists s" "page_lock t = page_lock s" "highmem_start_pfn t = highmem_start_pfn s"
  shows "page_ok S sl t A"
proof -
  have "valid_pages t = valid_pages s" using assms(3) by (simp add: valid_pages_def)
  moreover have "prel S sl t f = prel S sl s f" for f using assms(4-6) by (simp add: prel_def)
  moreover have "zones_ok t" using assms(1) zones_ok_cong [OF _ assms(3,5,8)] by (simp add: page_ok_def)
  ultimately show ?thesis using assms by (simp add: page_ok_def page_inv_def)
qed

lemma page_ok_slab_insert:
  assumes I: "page_ok S sl s A" and q: "q \<in> S" and b: "b \<in> A" "\<forall>r \<in> S. b \<notin> set (sl r)"
  shows "page_ok S (sl(q := b # sl q)) (on_plists (list_insert q (PageNode b)) s) A"
proof -
  obtain f where f: "pbinv s f A" "prel S sl s f" and r: "\<forall>q \<in> S. set (sl q) \<subseteq> A"
    using I by (auto simp: page_ok_def page_inv_def)
  have nf: "\<forall>p. b \<notin> set (f p)" using binvD(5) [OF f(1)] b(1) by blast
  have SH: "S \<subseteq> slab_heads" using f(2) by (simp add: prel_def)
  have "PageNode b \<notin> nodes_of (pheads \<union> S) (plist_of f sl)"
    using PageNode_in_nodes [of b S f sl] nf b(2) SH by blast
  then have "dlists (list_insert q (PageNode b) (plists s)) (pheads \<union> S)
      ((plist_of f sl)(q := PageNode b # plist_of f sl q))"
    using f(2) q by (intro dlists_insert) (auto simp: prel_def)
  moreover have "(plist_of f sl)(q := PageNode b # plist_of f sl q) = plist_of f (sl(q := b # sl q))"
    using q SH by (auto simp: plist_of_def fun_eq_iff slab_heads_def split: pnode.splits)
  ultimately have "prel S (sl(q := b # sl q)) (on_plists (list_insert q (PageNode b)) s) f"
    using f(2) by (simp add: prel_def)
  moreover have "zones_ok (on_plists (list_insert q (PageNode b)) s)"
    using I zones_ok_cong [of s] by (simp add: page_ok_def)
  ultimately show ?thesis using I f(1) r b(1) by (auto simp: page_ok_def page_inv_def)
qed

lemma page_ok_slab_remove:
  assumes I: "page_ok S sl s A" and q: "q \<in> S" and b: "b \<in> set (sl q)"
  shows "page_ok S (sl(q := remove1 b (sl q))) (on_plists (list_remove (PageNode b)) s) A"
proof -
  obtain f where f: "pbinv s f A" "prel S sl s f" and r: "\<forall>q \<in> S. set (sl q) \<subseteq> A"
    using I by (auto simp: page_ok_def page_inv_def)
  have SH: "S \<subseteq> slab_heads" using f(2) by (simp add: prel_def)
  have pl: "plist_of f sl q = map PageNode (sl q)"
    using q SH by (auto simp: plist_of_def slab_heads_def split: pnode.splits)
  have "dlists (list_remove (PageNode b) (plists s)) (pheads \<union> S)
      ((plist_of f sl)(q := remove1 (PageNode b) (plist_of f sl q)))"
    using f(2) q b pl by (intro dlists_remove) (auto simp: prel_def)
  moreover have "remove1 (PageNode b) (map PageNode bs) = map PageNode (remove1 b bs)" for bs
    by (induction bs) auto
  then have "(plist_of f sl)(q := remove1 (PageNode b) (plist_of f sl q)) = plist_of f (sl(q := remove1 b (sl q)))"
    using q SH pl by (auto simp: plist_of_def fun_eq_iff slab_heads_def split: pnode.splits)
  ultimately have "prel S (sl(q := remove1 b (sl q))) (on_plists (list_remove (PageNode b)) s) f"
    using f(2) by (simp add: prel_def)
  moreover have "zones_ok (on_plists (list_remove (PageNode b)) s)"
    using I zones_ok_cong [of s] by (simp add: page_ok_def)
  moreover have "set (remove1 b (sl q)) \<subseteq> A" using r q set_remove1_subset by fastforce
  ultimately show ?thesis using I f(1) r by (auto simp: page_ok_def page_inv_def)
qed

lemma page_ok_slab_list:
  assumes I: "page_ok S sl s A" and q: "q \<in> S"
  shows "list_empty q (plists s) \<longleftrightarrow> sl q = []" "sl q = b # bs \<Longrightarrow> list_next q (plists s) = PageNode b"
    "distinct (sl q)" "r \<in> S \<Longrightarrow> r \<noteq> q \<Longrightarrow> b' \<in> set (sl q) \<Longrightarrow> b' \<notin> set (sl r)" "set (sl q) \<subseteq> A"
proof -
  obtain f where f: "prel S sl s f" and sub: "\<forall>q \<in> S. set (sl q) \<subseteq> A"
    using I by (auto simp: page_ok_def page_inv_def)
  have SH: "S \<subseteq> slab_heads" and D: "dlists (plists s) (pheads \<union> S) (plist_of f sl)" using f by (auto simp: prel_def)
  have pl: "plist_of f sl q = map PageNode (sl q)" if "q \<in> S" for q
    using that SH by (auto simp: plist_of_def slab_heads_def split: pnode.splits)
  have d: "dlist (plists s) q (map PageNode (sl q))"
    using dlists_dlist [OF D, of q] q pl by simp
  show "list_empty q (plists s) \<longleftrightarrow> sl q = []" using d dlist_list_empty by fastforce
  show "sl q = b # bs \<Longrightarrow> list_next q (plists s) = PageNode b" using d dlist_list_next by fastforce
  show "distinct (sl q)" using d by (auto simp: dlist_def distinct_map)
  show "b' \<notin> set (sl r)" if "r \<in> S" "r \<noteq> q" "b' \<in> set (sl q)"
    using dlists_disjoint [OF D, of q r "PageNode b'"] that q pl [of q] pl [of r] by auto
  show "set (sl q) \<subseteq> A" using sub q by blast
qed

section \<open>The invariant\<close>

text \<open>\<open>ents c\<close>: the entries of the free list of a slab page of cache \<open>c\<close>; \<open>slots c\<close>: its objects.\<close>

definition osize :: "nat \<Rightarrow> nat" where "osize c = 8 * 2 ^ c"
definition ents :: "nat \<Rightarrow> nat" where "ents c = 4096 div osize c"
definition slots :: "nat \<Rightarrow> nat" where "slots c = (4096 - ents c) div osize c"

lemma slots_facts:
  assumes "1 \<le> c" "c \<le> 7"
  shows "0 < slots c" "slots c \<le> ents c" "ents c \<le> 256" "slots c < 256" "slots c * osize c + ents c \<le> 4096"
    "osize c \<noteq> 0" "0 < ents c"
proof -
  have "c \<in> {1, 2, 3, 4, 5, 6, 7}" using assms by auto
  then show "0 < slots c" "slots c \<le> ents c" "ents c \<le> 256" "slots c < 256" "slots c * osize c + ents c \<le> 4096"
    "osize c \<noteq> 0" "0 < ents c"
    by (auto simp: slots_def ents_def osize_def)
qed

definition fl_base :: "nat \<Rightarrow> nat \<Rightarrow> u32" where
  "fl_base c p = page_to_virt p + of_nat (4096 - ents c)"

definition free_objs :: "sstate \<Rightarrow> nat \<Rightarrow> nat \<Rightarrow> nat \<Rightarrow> nat list" where
  "free_objs s c p a = map (\<lambda>k. unat (smem s (fl_base c p + of_nat k))) [a ..< slots c]"

definition slab_page_ok :: "sstate \<Rightarrow> nat \<Rightarrow> nat \<Rightarrow> nat set \<Rightarrow> bool" where
  "slab_page_ok s c p used \<longleftrightarrow> p < 2 ^ 18 \<and>
     pdata (sp s) p = (page_to_virt p, fl_base c p, of_nat (card used), of_nat (slots c), Some c) \<and>
     used \<subseteq> {..<slots c} \<and> distinct (free_objs s c p (card used)) \<and>
     set (free_objs s c p (card used)) = {..<slots c} - used"

definition slabS :: "pnode set" where
  "slabS = SlabsPartial ` {..7} \<union> SlabsFull ` {..7}"

definition slab_pages :: "(pnode \<Rightarrow> nat list) \<Rightarrow> nat \<Rightarrow> nat set" where
  "slab_pages sl c = set (sl (SlabsPartial c)) \<union> set (sl (SlabsFull c))"

definition slab_core :: "sstate \<Rightarrow> (pnode \<Rightarrow> nat list) \<Rightarrow> nat set \<Rightarrow> (nat \<Rightarrow> nat set) \<Rightarrow> bool" where
  "slab_core s sl A Ob \<longleftrightarrow> page_ok slabS sl (sp s) A \<and> highmem_start_pfn (sp s) \<le> 2 ^ 18 \<and>
     (\<forall>c \<le> 7. kc_size (caches s c) = osize c) \<and>
     (\<forall>c. 1 \<le> c \<and> c \<le> 7 \<longrightarrow>
        (\<forall>p \<in> slab_pages sl c. slab_page_ok s c p (Ob p) \<and> p < highmem_start_pfn (sp s)) \<and>
        (\<forall>p \<in> set (sl (SlabsPartial c)). card (Ob p) < slots c))"

definition slab_inv :: "sstate \<Rightarrow> (pnode \<Rightarrow> nat list) \<Rightarrow> nat set \<Rightarrow> (nat \<Rightarrow> nat set) \<Rightarrow> bool" where
  "slab_inv s sl A Ob \<longleftrightarrow> slab_core s sl A Ob \<and> (\<forall>c \<le> 7. counter (kc_lock (caches s c)) = 0)"

lemma slabS_in [simp]: "SlabsPartial c \<in> slabS \<longleftrightarrow> c \<le> 7" "SlabsFull c \<in> slabS \<longleftrightarrow> c \<le> 7"
  by (auto simp: slabS_def)

lemma slab_page_ok_data:
  assumes "slab_page_ok s c p used"
  shows "s_mem (spage s p) = page_to_virt p" "freelist (spage s p) = fl_base c p"
    "active (spage s p) = of_nat (card used)" "total (spage s p) = of_nat (slots c)"
    "slab_cache (spage s p) = Some c"
  using assms by (simp_all add: slab_page_ok_def pdata_def spage_def)

lemma slab_page_ok_cong:
  assumes "slab_page_ok s c p used" "pdata (sp t) p = pdata (sp s) p" "smem t = smem s"
  shows "slab_page_ok t c p used"
  using assms by (simp add: slab_page_ok_def free_objs_def)

text \<open>The free lists of different pages are different memory.\<close>

lemma fl_addr:
  assumes "1 \<le> c" "c \<le> 7" "k < ents c"
  shows "fl_base c p + of_nat k = page_to_virt p + of_nat (4096 - ents c + k)" "4096 - ents c + k < 4096"
  using slots_facts [OF assms(1,2)] assms(3) by (auto simp: fl_base_def add.assoc)

lemma fl_addr_neq:
  assumes c: "1 \<le> c" "c \<le> 7" "1 \<le> d" "d \<le> 7" and k: "k < ents c" "j < ents d" and p: "p < 2 ^ 18" "q < 2 ^ 18"
    and eq: "fl_base c p + of_nat k = fl_base d q + of_nat j"
  shows "p = q"
proof -
  have "page_to_virt p + of_nat (4096 - ents c + k) = page_to_virt q + of_nat (4096 - ents d + j)"
    using eq fl_addr(1) [OF c(1,2) k(1), of p] fl_addr(1) [OF c(3,4) k(2), of q] by simp
  from page_to_virt_inj [OF p fl_addr(2) [OF c(1,2) k(1)] fl_addr(2) [OF c(3,4) k(2)] this]
  show ?thesis by simp
qed

lemma unat_u16: "n < 2 ^ 16 \<Longrightarrow> unat (of_nat n :: u16) = n"
  by (simp add: unat_of_nat)

lemma ucast_u16: "n < 2 ^ 16 \<Longrightarrow> ucast (of_nat n :: u16) = (of_nat n :: u32)"
  using arg_cong [OF unat_u16 [of n], of "of_nat :: nat \<Rightarrow> u32"] by simp

lemma u16_less: "m < 2 ^ 16 \<Longrightarrow> n < 2 ^ 16 \<Longrightarrow> (of_nat m :: u16) < of_nat n \<longleftrightarrow> m < n"
  by (simp add: word_less_nat_alt unat_u16)

lemma u16_eq: "m < 2 ^ 16 \<Longrightarrow> n < 2 ^ 16 \<Longrightarrow> (of_nat m :: u16) = of_nat n \<longleftrightarrow> m = n"
  by (metis unat_u16)

section \<open>Allocation\<close>

lemma sstate_simps [simp]:
  "smem (on_sp g s) = smem s" "caches (on_sp g s) = caches s" "sp (on_sp g s) = g (sp s)"
  "smem (on_spage p h s) = smem s" "caches (on_spage p h s) = caches s"
  "sp (on_spage p h s) = on_page p h (sp s)"
  by (simp_all add: on_sp_def on_spage_def)

lemma pdata_on_page:
  "pdata (on_page p g s) q = (if q = p then (s_mem (g (pages s p)), freelist (g (pages s p)), active (g (pages s p)),
     total (g (pages s p)), slab_cache (g (pages s p))) else pdata s q)"
  by (auto simp: pdata_def on_page_def)

text \<open>Changing only the slab fields of a page.\<close>

lemma page_ok_on_page:
  assumes "page_ok S sl s A" "\<forall>pg. pg_flags (g pg) = pg_flags pg \<and> pg_order (g pg) = pg_order pg"
  shows "page_ok S sl (on_page p g s) A"
  using assms(2) by (intro page_ok_same [OF assms(1)]) (auto simp: on_page_def pord_def page_flag_def fun_eq_iff)

lemma free_objs_Cons:
  "a < slots c \<Longrightarrow> free_objs s c p a = unat (smem s (fl_base c p + of_nat a)) # free_objs s c p (Suc a)"
  by (simp add: free_objs_def upt_conv_Cons)

lemma alloc_block_page:
  assumes P: "slab_page_ok s c p used" and c: "1 \<le> c" "c \<le> 7" and lt: "card used < slots c"
    and sz: "kc_size (caches s c) = osize c"
  defines "s1 \<equiv> on_spage p (active_update (\<lambda>a. a + 1)) s"
  shows "\<exists>i. i \<notin> used \<and> i < slots c \<and> slab_page_ok s1 c p (insert i used) \<and>
    alloc_block c p s = Some (page_to_virt p + of_nat (osize c * i),
      if card used + 1 = slots c
      then on_sp (on_plists (list_insert (SlabsFull c) (PageNode p))) (on_sp (on_plists (list_remove (PageNode p))) s1)
      else s1)"
proof -
  let ?n = "card used"
  note d = slab_page_ok_data [OF P] and sf = slots_facts [OF c]
  have fin: "finite used" using P by (auto simp: slab_page_ok_def intro: finite_subset)
  have b: "?n < 2 ^ 16" "slots c < 2 ^ 16" "?n + 1 < 2 ^ 16" using lt sf by simp_all
  define i where "i = unat (smem s (fl_base c p + of_nat ?n))"
  have fo: "free_objs s c p ?n = i # free_objs s c p (Suc ?n)"
    using free_objs_Cons [OF lt] by (simp add: i_def)
  have i: "i \<notin> used" "i < slots c" using P fo by (auto simp: slab_page_ok_def)
  have u: "unat (of_nat ?n :: u16) = ?n" by (rule unat_u16 [OF b(1)])
  have cd: "card (insert i used) = Suc ?n" using fin i by simp
  have act: "active (spage s1 p) = of_nat (Suc ?n)" "total (spage s1 p) = of_nat (slots c)"
    "s_mem (spage s1 p) = page_to_virt p"
    using d by (simp_all add: s1_def spage_def on_page_def add.commute)
  have ok: "slab_page_ok s1 c p (insert i used)"
    unfolding slab_page_ok_def cd
  proof (intro conjI)
    show "pdata (sp s1) p = (page_to_virt p, fl_base c p, of_nat (Suc ?n), of_nat (slots c), Some c)"
      using d by (simp add: s1_def pdata_on_page spage_def add.commute)
    show "insert i used \<subseteq> {..<slots c}" using P i by (auto simp: slab_page_ok_def)
    have e: "free_objs s1 c p (Suc ?n) = free_objs s c p (Suc ?n)" by (simp add: free_objs_def s1_def)
    show "distinct (free_objs s1 c p (Suc ?n))" "set (free_objs s1 c p (Suc ?n)) = {..<slots c} - insert i used"
      using P fo unfolding e slab_page_ok_def by auto
  qed (use P in \<open>simp add: slab_page_ok_def\<close>)
  have full: "active (spage s1 p) = total (spage s1 p) \<longleftrightarrow> ?n + 1 = slots c"
    unfolding act using u16_eq [OF b(3,2)] by simp
  have "alloc_block c p s = Some (page_to_virt p + of_nat (osize c * i),
      if ?n + 1 = slots c
      then on_sp (on_plists (list_insert (SlabsFull c) (PageNode p))) (on_sp (on_plists (list_remove (PageNode p))) s1)
      else s1)"
    using u16_less [OF b(1,2)] lt u d act full sz
    by (simp add: alloc_block_def Let_def s1_def [symmetric] i_def index_to_obj_def)
       (simp add: s1_def)
  then show ?thesis using i ok by blast
qed

lemma slab_coreD:
  assumes "slab_core s sl A Ob"
  shows "page_ok slabS sl (sp s) A" "highmem_start_pfn (sp s) \<le> 2 ^ 18" "c \<le> 7 \<Longrightarrow> kc_size (caches s c) = osize c"
    "1 \<le> c \<Longrightarrow> c \<le> 7 \<Longrightarrow> p \<in> slab_pages sl c \<Longrightarrow> slab_page_ok s c p (Ob p)"
    "1 \<le> c \<Longrightarrow> c \<le> 7 \<Longrightarrow> p \<in> set (sl (SlabsPartial c)) \<Longrightarrow> card (Ob p) < slots c"
    "1 \<le> c \<Longrightarrow> c \<le> 7 \<Longrightarrow> p \<in> slab_pages sl c \<Longrightarrow> p < highmem_start_pfn (sp s)"
  using assms by (auto simp: slab_core_def)

lemma slab_pages_disjoint:
  assumes "page_ok slabS sl s A" "c \<le> 7" "d \<le> 7" "p \<in> slab_pages sl c" "p \<in> slab_pages sl d"
  shows "c = d"
  using assms page_ok_slab_list(4) [OF assms(1)] unfolding slab_pages_def
  by (metis UnE pnode.inject(3,4) pnode.distinct(11) slabS_in)

lemma slab_core_update:
  assumes C: "slab_core s sl A Ob" and ok: "page_ok slabS sl' (sp t) A'" and h: "highmem_start_pfn (sp t) = highmem_start_pfn (sp s)"
    and k: "\<forall>c \<le> 7. kc_size (caches t c) = kc_size (caches s c)"
    and sub: "\<forall>d. slab_pages sl' d - {p} \<subseteq> slab_pages sl d" "\<forall>d. set (sl' (SlabsPartial d)) - {p} \<subseteq> set (sl (SlabsPartial d))"
    and p: "\<forall>d. 1 \<le> d \<and> d \<le> 7 \<and> p \<in> slab_pages sl' d \<longrightarrow> slab_page_ok t d p used \<and>
      p < highmem_start_pfn (sp s) \<and> (p \<in> set (sl' (SlabsPartial d)) \<longrightarrow> card used < slots d)"
    and other: "\<forall>d q. 1 \<le> d \<and> d \<le> 7 \<and> q \<noteq> p \<and> slab_page_ok s d q (Ob q) \<longrightarrow> slab_page_ok t d q (Ob q)"
  shows "slab_core t sl' A' (Ob(p := used))"
  unfolding slab_core_def
proof (intro conjI allI impI ballI)
  fix c q :: nat assume c: "1 \<le> c \<and> c \<le> 7"
  have "slab_page_ok t c q ((Ob(p := used)) q) \<and> q < highmem_start_pfn (sp t)" if "q \<in> slab_pages sl' c"
  proof (cases "q = p")
    case False
    then have "q \<in> slab_pages sl c" using that sub(1) by blast
    then show ?thesis using False c h other slab_coreD(4) [OF C, of c q] slab_coreD(6) [OF C, of c q] by simp
  qed (use that c p h in auto)
  then show "slab_page_ok t c q ((Ob(p := used)) q)" "q < highmem_start_pfn (sp t)" if "q \<in> slab_pages sl' c"
    using that by blast+
  show "card ((Ob(p := used)) q) < slots c" if "q \<in> set (sl' (SlabsPartial c))"
  proof (cases "q = p")
    case False
    then have "q \<in> set (sl (SlabsPartial c))" using that sub(2) by blast
    then show ?thesis using False c slab_coreD(5) [OF C, of c q] by simp
  qed (use that c p in \<open>simp add: slab_pages_def\<close>)
qed (use C ok h k in \<open>auto simp: slab_core_def\<close>)

lemma alloc_block_core:
  assumes C: "slab_core s sl A Ob" and c: "1 \<le> c" "c \<le> 7" and p: "p \<in> set (sl (SlabsPartial c))"
  shows "\<exists>i t sl'. alloc_block c p s = Some (page_to_virt p + of_nat (osize c * i), t) \<and> i \<notin> Ob p \<and> i < slots c \<and>
    slab_core t sl' A (Ob(p := insert i (Ob p))) \<and> caches t = caches s \<and> slab_pages sl' = slab_pages sl"
proof -
  let ?P = "SlabsPartial c" and ?F = "SlabsFull c"
  let ?s1 = "on_spage p (active_update (\<lambda>a. a + 1)) s"
  let ?s2 = "on_sp (on_plists (list_insert ?F (PageNode p))) (on_sp (on_plists (list_remove (PageNode p))) ?s1)"
  note D = slab_coreD [OF C]
  have pc: "p \<in> slab_pages sl c" using p by (simp add: slab_pages_def)
  have lt: "card (Ob p) < slots c" by (rule D(5) [OF c p])
  obtain i where i: "i \<notin> Ob p" "i < slots c" "slab_page_ok ?s1 c p (insert i (Ob p))"
      "alloc_block c p s = Some (page_to_virt p + of_nat (osize c * i), if card (Ob p) + 1 = slots c then ?s2 else ?s1)"
    using alloc_block_page [OF D(4) [OF c pc] c lt D(3) [OF c(2)]] by blast
  have fin: "finite (Ob p)" using D(4) [OF c pc] by (auto simp: slab_page_ok_def intro: finite_subset)
  have cd: "card (insert i (Ob p)) = card (Ob p) + 1" using fin i(1) by simp
  have other: "\<forall>d q. 1 \<le> d \<and> d \<le> 7 \<and> q \<noteq> p \<and> slab_page_ok s d q (Ob q) \<longrightarrow> slab_page_ok ?s1 d q (Ob q)"
    by (auto intro: slab_page_ok_cong simp: pdata_on_page)
  have only: "d = c" if "d \<le> 7" "p \<in> slab_pages sl d" for d
    using slab_pages_disjoint [OF D(1) _ c(2) _ pc] that by blast
  note hp = D(6) [OF c pc]
  have ok1: "page_ok slabS sl (sp ?s1) A" using page_ok_on_page [OF D(1)] by simp
  have h1: "highmem_start_pfn (sp ?s1) = highmem_start_pfn (sp s)" by simp
  show ?thesis
  proof (cases "card (Ob p) + 1 = slots c")
    case False
    then have "slab_core ?s1 sl A (Ob(p := insert i (Ob p)))"
      using other only i(3) lt cd ok1 h1 hp
      by (intro slab_core_update [OF C ok1]) auto
    then show ?thesis using i False by (intro exI [of _ i] exI [of _ ?s1] exI [of _ sl]) simp
  next
    case True
    let ?sl1 = "sl(?P := remove1 p (sl ?P))" and ?sl2 = "(sl(?P := remove1 p (sl ?P)))(?F := p # sl ?F)"
    have dis: "distinct (sl ?P)" using page_ok_slab_list(3) [OF D(1), of ?P] c by simp
    have "page_ok slabS ?sl1 (on_plists (list_remove (PageNode p)) (sp ?s1)) A"
      using page_ok_slab_remove [OF ok1, of ?P p] c p by simp
    moreover have "\<forall>r\<in>slabS. p \<notin> set (?sl1 r)"
      using page_ok_slab_list(4) [OF D(1), of ?P _ p] c p dis by (auto simp: set_remove1_eq)
    moreover have "p \<in> A" using page_ok_slab_list(5) [OF D(1), of ?P] c p by auto
    ultimately have ok2: "page_ok slabS ?sl2 (sp ?s2) A"
      using page_ok_slab_insert [of slabS ?sl1 "on_plists (list_remove (PageNode p)) (sp ?s1)" A ?F p] c by simp
    have pg: "slab_pages ?sl2 = slab_pages sl"
      using p dis by (auto simp: slab_pages_def fun_eq_iff set_remove1_eq)
    have np: "p \<notin> set (?sl2 (SlabsPartial d))" if "d \<le> 7" for d
      using page_ok_slab_list(4) [OF D(1), of ?P "SlabsPartial d" p] that c p dis by (auto simp: set_remove1_eq)
    have "slab_page_ok ?s2 c p (insert i (Ob p))" by (rule slab_page_ok_cong [OF i(3)]) simp_all
    moreover have "\<forall>d q. 1 \<le> d \<and> d \<le> 7 \<and> q \<noteq> p \<and> slab_page_ok s d q (Ob q) \<longrightarrow> slab_page_ok ?s2 d q (Ob q)"
      using other by (auto intro: slab_page_ok_cong [of ?s1])
    ultimately have "slab_core ?s2 ?sl2 A (Ob(p := insert i (Ob p)))"
      using only np h1 hp by (intro slab_core_update [OF C ok2]) (auto simp: pg dis set_remove1_eq)
    then show ?thesis using i True pg by (intro exI [of _ i] exI [of _ ?s2] exI [of _ ?sl2]) simp
  qed
qed

lemma fill_freelist_apply:
  assumes "n \<le> 2 ^ 16"
  shows "k < n \<Longrightarrow> fill_freelist fl n m (fl + of_nat k) = of_nat k"
    "\<forall>k < n. x \<noteq> fl + of_nat k \<Longrightarrow> fill_freelist fl n m x = m x"
proof -
  have inj: "(of_nat i :: u32) = of_nat j \<longleftrightarrow> i = j" if "i < 2 ^ 16" "j < 2 ^ 16" for i j
  proof -
    have "unat (of_nat i :: u32) = i" "unat (of_nat j :: u32) = j"
      using that by (intro unat_of_nat_u32, simp)+
    then show ?thesis by metis
  qed
  show "k < n \<Longrightarrow> fill_freelist fl n m (fl + of_nat k) = of_nat k"
    using assms
  proof (induction n)
    case (Suc n)
    then show ?case using inj [of k n] by (auto simp: fill_freelist_def less_Suc_eq)
  qed simp
  show "\<forall>k < n. x \<noteq> fl + of_nat k \<Longrightarrow> fill_freelist fl n m x = m x"
  proof (induction n)
    case (Suc n)
    then show ?case by (simp add: fill_freelist_def)
  qed (simp add: fill_freelist_def)
qed

lemma slab_page_init_correct:
  assumes c: "1 \<le> c" "c \<le> 7" and sz: "kc_size (caches s c) = osize c" and p: "p < 2 ^ 18"
    and hm: "\<not> page_flag PAGE_HIGHMEM (sp s) p"
  shows "\<exists>t. slab_page_init vmap c p s = Some (0, t) \<and> slab_page_ok t c p {} \<and> caches t = caches s \<and>
    (\<forall>q. q \<noteq> p \<longrightarrow> pdata (sp t) q = pdata (sp s) q) \<and>
    (\<forall>d q used. 1 \<le> d \<and> d \<le> 7 \<and> q \<noteq> p \<and> slab_page_ok s d q used \<longrightarrow> slab_page_ok t d q used) \<and>
    (\<forall>S sl A. page_ok S sl (sp s) A \<longrightarrow> page_ok S sl (sp t) A) \<and>
    highmem_start_pfn (sp t) = highmem_start_pfn (sp s) \<and> plists (sp t) = plists (sp s)"
proof -
  note sf = slots_facts [OF c]
  let ?a = "page_to_virt p" and ?fl = "fl_base c p"
  have a: "page_address vmap p (sp s) = ?a" using hm by (simp add: page_address_def page_to_virt_def)
  have "unat (?a + of_nat 0) \<noteq> 0" using unat_page_to_virt [OF p, of 0] by simp
  then have a0: "?a \<noteq> 0" by auto
  have tot: "unat (of_nat (4096 div osize c) :: u16) = ents c"
    using sf by (simp add: ents_def [symmetric] unat_u16)
  have uc: "ucast (of_nat (4096 div osize c) :: u16) = (of_nat (ents c) :: u32)"
    using sf by (simp add: ents_def [symmetric] ucast_u16)
  have sub: "(4096 :: u32) - of_nat (ents c) = of_nat (4096 - ents c)" using sf by simp
  have fl: "?a + PAGE_SIZE - of_nat (ents c) = ?fl"
    using sub by (simp add: fl_base_def addr_consts add_diff_eq [symmetric])
  have ns: "unat ((4096 :: u32) - of_nat (ents c)) div osize c = slots c"
    unfolding sub using sf unat_of_nat_u32 [of "4096 - ents c"] by (simp add: slots_def)
  let ?g = "\<lambda>pg. pg\<lparr>s_mem := ?a, freelist := ?fl, total := of_nat (slots c), active := 0, slab_cache := Some c\<rparr>"
  let ?t = "on_sp (set_pg_flag PAGE_SLAB p) ((on_spage p ?g s)\<lparr>smem := fill_freelist ?fl (ents c) (smem s)\<rparr>)"
  have init: "slab_page_init vmap c p s = Some (0, ?t)"
    using a a0 sz tot uc fl ns sf(6)
    by (simp add: slab_page_init_def Let_def)
       (simp add: on_sp_def on_spage_def on_page_def comp_def)
  have pd: "pdata (sp ?t) p = (?a, ?fl, 0, of_nat (slots c), Some c)" "q \<noteq> p \<Longrightarrow> pdata (sp ?t) q = pdata (sp s) q" for q
    by (simp_all add: pdata_on_page)
  have fo: "free_objs ?t c p 0 = [0 ..< slots c]"
  proof -
    have "unat (fill_freelist ?fl (ents c) (smem s) (?fl + of_nat k)) = k" if "k < slots c" for k
      using fill_freelist_apply(1) [of "ents c" k ?fl "smem s"] sf that by (simp add: unat_of_nat)
    then show ?thesis by (auto simp: free_objs_def intro: map_idI)
  qed
  have new: "slab_page_ok ?t c p {}" using p pd(1) fo by (auto simp: slab_page_ok_def)
  have other: "slab_page_ok ?t d q used" if d: "1 \<le> d" "d \<le> 7" "q \<noteq> p" "slab_page_ok s d q used" for d q used
  proof -
    have q: "q < 2 ^ 18" using d(4) by (simp add: slab_page_ok_def)
    have "fill_freelist ?fl (ents c) (smem s) (fl_base d q + of_nat k) = smem s (fl_base d q + of_nat k)"
      if "k < slots d" for k
      using fl_addr_neq [OF d(1,2) c _ _ q p, of k] d(3) slots_facts(2) [OF d(1,2)] that sf
      by (intro fill_freelist_apply(2)) force+
    then have "free_objs ?t d q a = free_objs s d q a" for a by (simp add: free_objs_def)
    then show ?thesis using d(4) pd(2) [OF d(3)] unfolding slab_page_ok_def by simp
  qed
  have "page_ok S sl (sp ?t) A" if "page_ok S sl (sp s) A" for S sl A
    using page_ok_same [OF page_ok_on_page [OF that, of ?g p]] by simp
  then show ?thesis using init new pd(2) other by (intro exI [of _ ?t]) simp
qed

lemma lock_cache_eq:
  assumes "slab_inv s sl A Ob" "c \<le> 7"
  shows "\<exists>s0. lock_cache c s = Some s0 \<and> slab_core s0 sl A Ob \<and> sp s0 = sp s \<and> smem s0 = smem s \<and>
    caches s0 = (caches s)(c := (caches s c)\<lparr>kc_lock := (kc_lock (caches s c))\<lparr>counter := 1\<rparr>\<rparr>)"
proof -
  let ?s = "s\<lparr>caches := (caches s)(c := (caches s c)\<lparr>kc_lock := (kc_lock (caches s c))\<lparr>counter := 1\<rparr>\<rparr>)\<rparr>"
  have "lock_cache c s = Some ?s"
    using assms by (simp add: lock_cache_def slab_inv_def spin_lock_eq)
  moreover have "slab_page_ok ?s d p used = slab_page_ok s d p used" for d p used
    by (simp add: slab_page_ok_def free_objs_def)
  then have "slab_core ?s sl A Ob"
    using assms(1) by (simp add: slab_inv_def slab_core_def)
  ultimately show ?thesis by (intro exI [of _ ?s]) simp
qed

lemma unlock_cache_inv:
  assumes C: "slab_core t sl A Ob" and l: "\<forall>d \<le> 7. d \<noteq> c \<longrightarrow> counter (kc_lock (caches t d)) = 0"
  shows "slab_inv (unlock_cache c t) sl A Ob"
proof -
  have "slab_page_ok (unlock_cache c t) d p used = slab_page_ok t d p used" for d p used
    by (simp add: slab_page_ok_def free_objs_def unlock_cache_def)
  then show ?thesis
    using C l by (simp add: slab_inv_def slab_core_def unlock_cache_def spin_unlock_def atomic_set_def)
qed

text \<open>A fresh slab page on the partial list of its cache.\<close>

lemma new_slab_page:
  assumes C: "slab_core s sl A Ob" and c: "1 \<le> c" "c \<le> 7" and a: "alloc_pages GFP_NORMAL 0 (sp s) = Some (Some p, ps)"
  shows "\<exists>t. slab_page_init vmap c p (s\<lparr>sp := ps\<rparr>) = Some (0, t) \<and> p \<notin> A \<and> caches t = caches s \<and>
    slab_core (on_sp (on_plists (list_insert (SlabsPartial c) (PageNode p))) t)
      (sl(SlabsPartial c := p # sl (SlabsPartial c))) (insert p A) (Ob(p := {}))"
proof -
  let ?P = "SlabsPartial c" and ?sl = "sl(SlabsPartial c := p # sl (SlabsPartial c))"
  let ?s1 = "s\<lparr>sp := ps\<rparr>"
  note D = slab_coreD [OF C]
  note P = page_ok_alloc [OF D(1) _ a]
  have z: "zone_of GFP_NORMAL = False" by (simp add: zone_of_def page_consts)
  have ps: "pdata ps = pdata (sp s)" by (rule alloc_pages_pdata [OF a])
  have I: "page_inv slabS sl (sp s) A" and Z: "zones_ok (sp s)" using D(1) by (simp_all add: page_ok_def)
  have f: "page_flag PAGE_HIGHMEM ps = page_flag PAGE_HIGHMEM (sp s)" "highmem_start_pfn ps = highmem_start_pfn (sp s)"
    using alloc_pages_correct [OF I, of 0 GFP_NORMAL] a by auto
  have pA: "p \<notin> A" using P(3) by simp
  have "p \<in> valid_pages (sp s)" using P(5) region_head [of p 0] by auto
  then have hp: "p < highmem_start_pfn (sp s)" using Z P(6) z by (auto simp: zones_ok_def valid_pages_def)
  then have p18: "p < 2 ^ 18" using D(2) by linarith
  have hm: "\<not> page_flag PAGE_HIGHMEM (sp ?s1) p" using f(1) P(6) z by simp
  obtain t where t: "slab_page_init vmap c p ?s1 = Some (0, t)" "slab_page_ok t c p {}" "caches t = caches ?s1"
      "\<forall>q. q \<noteq> p \<longrightarrow> pdata (sp t) q = pdata (sp ?s1) q"
      "\<forall>d q used. 1 \<le> d \<and> d \<le> 7 \<and> q \<noteq> p \<and> slab_page_ok ?s1 d q used \<longrightarrow> slab_page_ok t d q used"
      "\<forall>S sl A. page_ok S sl (sp ?s1) A \<longrightarrow> page_ok S sl (sp t) A"
      "highmem_start_pfn (sp t) = highmem_start_pfn (sp ?s1)"
    using slab_page_init_correct [of c ?s1 p vmap, OF c _ p18 hm] D(3) [OF c(2)] by auto
  let ?t = "on_sp (on_plists (list_insert ?P (PageNode p))) t"
  have nl: "\<forall>r\<in>slabS. p \<notin> set (sl r)" using page_ok_slab_list(5) [OF D(1)] pA by blast
  have ok: "page_ok slabS ?sl (sp ?t) (insert p A)"
    using page_ok_slab_insert [of slabS sl "sp t" "insert p A" ?P p] t(6) P(1) nl c by simp
  have pg: "slab_page_ok ?t c p {}" by (rule slab_page_ok_cong [OF t(2)]) simp_all
  have other: "slab_page_ok ?t d q (Ob q)" if "1 \<le> d" "d \<le> 7" "q \<noteq> p" "slab_page_ok s d q (Ob q)" for d q
  proof -
    have "slab_page_ok ?s1 d q (Ob q)" using slab_page_ok_cong [OF that(4)] ps by simp
    then have "slab_page_ok t d q (Ob q)" using t(5) that by blast
    then show ?thesis using slab_page_ok_cong [of t d q "Ob q" ?t] by simp
  qed
  have np: "p \<notin> slab_pages sl d" if "d \<le> 7" for d using nl that by (auto simp: slab_pages_def)
  have "slab_core ?t ?sl (insert p A) (Ob(p := {}))"
    using pg other np t(3,7) f(2) slots_facts(1) [OF c] hp
    by (intro slab_core_update [OF C ok]) (auto simp: slab_pages_def split: if_splits)
  then show ?thesis using t(1,3) pA by auto
qed

lemma kmem_cache_alloc_correct:
  assumes I: "slab_inv s sl A Ob" and c: "1 \<le> c" "c \<le> 7"
  shows "case kmem_cache_alloc vmap c s of
      None \<Rightarrow> sl (SlabsPartial c) = [] \<and> (\<forall>k \<le> page_MAX_ORDER. list_empty (get_free_list GFP_NORMAL k) (plists (sp s)))
    | Some (ptr, t) \<Rightarrow> \<exists>p i sl' A'. ptr = page_to_virt p + of_nat (osize c * i) \<and> i < slots c \<and>
        (p \<in> slab_pages sl c \<and> i \<notin> Ob p \<and> A' = A \<and> slab_inv t sl' A' (Ob(p := insert i (Ob p))) \<or>
         p \<notin> A \<and> A' = insert p A \<and> slab_inv t sl' A' (Ob(p := {i}))) \<and>
        slab_pages sl' = (slab_pages sl)(c := insert p (slab_pages sl c))"
proof -
  let ?P = "SlabsPartial c"
  obtain s0 where s0: "lock_cache c s = Some s0" "slab_core s0 sl A Ob" "sp s0 = sp s"
      "\<forall>d \<le> 7. d \<noteq> c \<longrightarrow> counter (kc_lock (caches s0 d)) = 0"
    using lock_cache_eq [OF I c(2)] I by (auto simp: slab_inv_def)
  have em: "list_empty ?P (plists (sp s0)) \<longleftrightarrow> sl ?P = []"
    using page_ok_slab_list(1) [OF slab_coreD(1) [OF s0(2)], of ?P] c by simp
  show ?thesis
  proof (cases "sl ?P")
    case (Cons p ps)
    have nx: "list_next ?P (plists (sp s0)) = PageNode p"
      using page_ok_slab_list(2) [OF slab_coreD(1) [OF s0(2)], of ?P p ps] c Cons by simp
    have pm: "p \<in> set (sl ?P)" using Cons by simp
    obtain i t sl' where t: "alloc_block c p s0 = Some (page_to_virt p + of_nat (osize c * i), t)" "i \<notin> Ob p" "i < slots c"
        "slab_core t sl' A (Ob(p := insert i (Ob p)))" "caches t = caches s0" "slab_pages sl' = slab_pages sl"
      using alloc_block_core [OF s0(2) c pm] by blast
    have "kmem_cache_alloc vmap c s = Some (page_to_virt p + of_nat (osize c * i), unlock_cache c t)"
      using s0(1) em nx Cons t(1) by (simp add: kmem_cache_alloc_def container_of_page_def)
    moreover have "slab_inv (unlock_cache c t) sl' A (Ob(p := insert i (Ob p)))"
      using unlock_cache_inv [OF t(4)] s0(4) t(5) by simp
    moreover have pc: "p \<in> slab_pages sl c" using pm by (simp add: slab_pages_def)
    moreover have "slab_pages sl' = (slab_pages sl)(c := insert p (slab_pages sl c))"
      using t(6) pc by (simp add: insert_absorb)
    ultimately show ?thesis
      using t(2,3) by (simp, intro exI [of _ p] exI [of _ i] conjI exI [of _ sl'] exI [of _ A]) simp_all
  next
    case Nil
    have AI: "page_inv slabS sl (sp s) A" using slab_coreD(1) [OF s0(2)] s0(3) by (simp add: page_ok_def)
    from alloc_pages_correct [OF AI le0, of GFP_NORMAL] show ?thesis
    proof (elim disjE exE conjE)
      assume "alloc_pages GFP_NORMAL 0 (sp s) = Some (None, sp s)"
        "\<forall>k. 0 \<le> k \<and> k \<le> page_MAX_ORDER \<longrightarrow> list_empty (get_free_list GFP_NORMAL k) (plists (sp s))"
      moreover from this have "kmem_cache_alloc vmap c s = None"
        using s0(1,3) em Nil by (simp add: kmem_cache_alloc_def)
      ultimately show ?thesis using Nil by simp
    next
      fix p ps assume a: "alloc_pages GFP_NORMAL 0 (sp s) = Some (Some p, ps)"
      let ?sl = "sl(?P := p # sl ?P)"
      obtain t where t: "slab_page_init vmap c p (s0\<lparr>sp := ps\<rparr>) = Some (0, t)" "p \<notin> A" "caches t = caches s0"
          "slab_core (on_sp (on_plists (list_insert ?P (PageNode p))) t) ?sl (insert p A) (Ob(p := {}))"
        using new_slab_page [OF s0(2) c, of p ps vmap] a s0(3) by auto
      let ?t = "on_sp (on_plists (list_insert ?P (PageNode p))) t"
      obtain i u sl' where u: "alloc_block c p ?t = Some (page_to_virt p + of_nat (osize c * i), u)" "i < slots c"
          "slab_core u sl' (insert p A) (Ob(p := {i}))" "caches u = caches ?t" "slab_pages sl' = slab_pages ?sl"
        using alloc_block_core [OF t(4) c, of p] by auto
      have "kmem_cache_alloc vmap c s = Some (page_to_virt p + of_nat (osize c * i), unlock_cache c u)"
        using s0(1,3) em Nil a t(1) u(1) by (simp add: kmem_cache_alloc_def)
      moreover have "slab_inv (unlock_cache c u) sl' (insert p A) (Ob(p := {i}))"
        using unlock_cache_inv [OF u(3)] s0(4) u(4) t(3) by simp
      moreover have "slab_pages sl' = (slab_pages sl)(c := insert p (slab_pages sl c))"
        using u(5) by (simp add: slab_pages_def fun_eq_iff)
      ultimately show ?thesis
        using t(2) u(2)
        by (simp, intro exI [of _ p] exI [of _ i] conjI exI [of _ sl'] exI [of _ "insert p A"]) simp_all
    qed
  qed
qed

section \<open>Freeing\<close>

lemma free_pages_merge_pdata:
  assumes "free_pages_merge page s = Some x"
  shows "pdata (snd x) = pdata s"
proof (rule free_pages_merge.raw_induct [where P = "\<lambda>page s x. pdata (snd x) = pdata s", OF _ assms])
  fix f :: "nat \<Rightarrow> pstate \<Rightarrow> (nat \<times> pstate) option" and page s x
  assume IH: "\<And>page s x. f page s = Some x \<Longrightarrow> pdata (snd x) = pdata s"
    and "(if pord s page < page_MAX_ORDER then
        do {
          buddy \<leftarrow> page_buddy page s;
          if \<not> page_flag PAGE_VALID s buddy \<or> \<not> page_flag PAGE_FREE s buddy then Some (page, s)
          else do {
            let s = on_plists (list_remove (PageNode buddy)) s;
            let page = (if buddy < page then buddy else page);
            let s = set_pg_order page (pord s page + 1) s;
            f page s
          }
        }
      else Some (page, s)) = Some x"
  then show "pdata (snd x) = pdata s"
    by (auto simp: Let_def bind_eq_Some_conv dest!: IH split: if_splits)
qed

lemma free_pages_pdata: "free_pages page s = Some t \<Longrightarrow> pdata t = pdata s"
  by (auto simp: free_pages_def bind_eq_Some_conv dest!: lock_pages_pdata free_pages_merge_pdata free_page_pdata)

text \<open>The part of \<open>free_block\<close> that puts the index back.\<close>

definition put_back :: "nat \<Rightarrow> nat \<Rightarrow> nat \<Rightarrow> sstate \<Rightarrow> sstate" where
  "put_back c p i s =
     (let s = on_spage p (active_update (\<lambda>a. a - 1)) s
      in s\<lparr>smem := (smem s)(fl_base c p + of_nat (unat (active (spage s p))) := of_nat i)\<rparr>)"

lemma put_back_page:
  assumes P: "slab_page_ok s c p used" and c: "1 \<le> c" "c \<le> 7" and i: "i \<in> used"
  shows "slab_page_ok (put_back c p i s) c p (used - {i})"
    "active (spage (put_back c p i s) p) = of_nat (card used - 1)" "active (spage s p) > 0"
    "1 \<le> d \<Longrightarrow> d \<le> 7 \<Longrightarrow> q \<noteq> p \<Longrightarrow> slab_page_ok s d q u \<Longrightarrow> slab_page_ok (put_back c p i s) d q u"
proof -
  note dt = slab_page_ok_data [OF P] and sf = slots_facts [OF c]
  have sub: "used \<subseteq> {..<slots c}" and p18: "p < 2 ^ 18" using P by (auto simp: slab_page_ok_def)
  have fin: "finite used" using sub finite_subset by blast
  have n: "0 < card used" "card used \<le> slots c"
    using fin i sub card_mono [of "{..<slots c}" used] by (auto simp: card_gt_0_iff)
  define m where "m = card used - 1"
  have m: "card used = Suc m" "m < slots c" "m < 2 ^ 16" "Suc m < 2 ^ 16" using n sf by (simp_all add: m_def)
  let ?t = "put_back c p i s"
  have ac: "(of_nat (Suc m) :: u16) - 1 = of_nat m" by simp
  show act: "active (spage ?t p) = of_nat (card used - 1)"
    using dt(3) ac m(1) by (simp add: put_back_def Let_def spage_def on_page_def)
  have "(of_nat 0 :: u16) < of_nat (card used)" using u16_less [of 0 "card used"] m by simp
  then show "active (spage s p) > 0" using dt(3) by simp
  have mem: "smem ?t = (smem s)(fl_base c p + of_nat m := of_nat i)"
    using act m(3) ucast_u16 [of m] by (simp add: put_back_def Let_def m_def spage_def)
  have pd: "pdata (sp ?t) p = (page_to_virt p, fl_base c p, of_nat m, of_nat (slots c), Some c)"
    "q \<noteq> p \<Longrightarrow> pdata (sp ?t) q = pdata (sp s) q" for q
    using dt ac m(1) by (simp_all add: put_back_def Let_def pdata_on_page spage_def)
  have i256: "unat (of_nat i :: u8) = i" using i sub sf by (auto simp: unat_of_nat)
  have tail: "free_objs ?t c p (Suc m) = free_objs s c p (Suc m)"
  proof -
    have "fl_base c p + of_nat k \<noteq> fl_base c p + of_nat m" if "m < k" "k < slots c" for k
      using that sf page_to_virt_inj [OF p18 p18, of "4096 - ents c + k" "4096 - ents c + m"]
        fl_addr(1) [OF c, of k p] fl_addr(1) [OF c, of m p] fl_addr(2) [OF c, of k] fl_addr(2) [OF c, of m]
      by auto
    then show ?thesis by (simp add: free_objs_def mem)
  qed
  have fo: "free_objs ?t c p m = i # free_objs s c p (Suc m)"
    using free_objs_Cons [OF m(2), of ?t p] tail i256 by (simp add: mem)
  have cd: "card (used - {i}) = m" using fin i m(1) by simp
  show "slab_page_ok ?t c p (used - {i})"
    using P pd(1) fo i sub m(1) unfolding slab_page_ok_def cd by auto
  show "slab_page_ok ?t d q u" if d: "1 \<le> d" "d \<le> 7" "q \<noteq> p" "slab_page_ok s d q u"
  proof -
    have q: "q < 2 ^ 18" using d(4) by (simp add: slab_page_ok_def)
    have "fl_base d q + of_nat k \<noteq> fl_base c p + of_nat m" if "k < slots d" for k
      using fl_addr_neq [OF d(1,2) c, of k m q p] q p18 d(3) m(2) sf slots_facts(2) [OF d(1,2)] that by force
    then have "free_objs ?t d q a = free_objs s d q a" for a by (simp add: free_objs_def mem)
    then show ?thesis using d(4) pd(2) [OF d(3)] unfolding slab_page_ok_def by simp
  qed
qed

lemma obj_to_index_eq:
  assumes P: "slab_page_ok s c p used" and c: "1 \<le> c" "c \<le> 7" and i: "i < slots c" and sz: "kc_size (caches s c) = osize c"
  shows "obj_to_index c p (page_to_virt p + of_nat (osize c * i)) s = Some i" "osize c * i < 4096"
proof -
  note sf = slots_facts [OF c]
  have "osize c * i < osize c * slots c" using i sf by simp
  moreover have "osize c * slots c \<le> 4096" using sf(5) unfolding mult.commute [of "slots c"] by linarith
  ultimately show b: "osize c * i < 4096" by linarith
  have "unat (of_nat (osize c * i) :: u32) = osize c * i" using b by (intro unat_of_nat_u32) simp
  then show "obj_to_index c p (page_to_virt p + of_nat (osize c * i)) s = Some i"
    using slab_page_ok_data(1) [OF P] sz sf by (simp add: obj_to_index_def)
qed

lemma free_block_keep:
  assumes C: "slab_core s sl A Ob" and c: "1 \<le> c" "c \<le> 7" and p: "p \<in> slab_pages sl c" and i: "i \<in> Ob p"
    and n: "card (Ob p) > 1"
  shows "\<exists>t. free_block c p (page_to_virt p + of_nat (osize c * i)) s = Some t \<and>
    slab_core t sl A (Ob(p := Ob p - {i})) \<and> caches t = caches s"
proof -
  note D = slab_coreD [OF C]
  have P: "slab_page_ok s c p (Ob p)" by (rule D(4) [OF c p])
  have sub: "Ob p \<subseteq> {..<slots c}" using P by (simp add: slab_page_ok_def)
  have fin: "finite (Ob p)" using sub finite_subset by blast
  have le: "card (Ob p) \<le> slots c" using card_mono [OF _ sub] by simp
  let ?t = "put_back c p i s"
  note pb = put_back_page [OF P c i]
  have b: "(0 :: nat) < 2 ^ 16" "card (Ob p) - 1 < 2 ^ 16" using le slots_facts(4) [OF c] by simp_all
  have nz: "active (spage ?t p) \<noteq> 0" using u16_eq [OF b(2,1)] pb(2) n by simp
  have "free_block c p (page_to_virt p + of_nat (osize c * i)) s = Some ?t"
    using obj_to_index_eq(1) [OF P c, of i] i sub D(3) [OF c(2)] pb(3) nz slab_page_ok_data(2) [OF P]
    by (auto simp: free_block_def put_back_def Let_def spage_def on_page_def)
  moreover have "slab_core ?t sl A (Ob(p := Ob p - {i}))"
  proof -
    have ok: "page_ok slabS sl (sp ?t) A"
      using page_ok_on_page [OF D(1), of "active_update (\<lambda>a. a - 1)" p] by (simp add: put_back_def Let_def)
    have only: "d = c" if "d \<le> 7" "p \<in> slab_pages sl d" for d
      using slab_pages_disjoint [OF D(1) _ c(2) _ p] that by blast
    have "card (Ob p - {i}) < slots c" using fin i le by (simp add: card_Diff_singleton)
       (metis card_gt_0_iff diff_Suc_less empty_iff less_le_trans)
    then show ?thesis
      using pb(1,4) only D(6) [OF c p] by (intro slab_core_update [OF C ok]) (auto simp: put_back_def Let_def)
  qed
  ultimately show ?thesis by (auto simp: put_back_def Let_def)
qed

lemma free_block_last:
  assumes C: "slab_core s sl A Ob" and c: "1 \<le> c" "c \<le> 7" and p: "p \<in> slab_pages sl c" and i: "Ob p = {i}"
    and ok: "page_merge_ok (sp s) p (pord (sp s) p)"
  shows "\<exists>t sl'. free_block c p (page_to_virt p + of_nat (osize c * i)) s = Some t \<and>
    slab_core t sl' (A - {p}) Ob \<and> caches t = caches s \<and>
    slab_pages sl' = (slab_pages sl)(c := slab_pages sl c - {p})"
proof -
  note D = slab_coreD [OF C]
  have P: "slab_page_ok s c p (Ob p)" by (rule D(4) [OF c p])
  have il: "i < slots c" using P i by (simp add: slab_page_ok_def)
  obtain q where q: "q \<in> slabS" "p \<in> set (sl q)" "q = SlabsPartial c \<or> q = SlabsFull c"
    using p c unfolding slab_pages_def by (metis UnE slabS_in)
  let ?sl = "sl(q := remove1 p (sl q))"
  let ?t = "put_back c p i s"
  let ?u = "slab_page_deinit p (on_sp (on_plists (list_remove (PageNode p))) ?t)"
  have iO: "i \<in> Ob p" using i by simp
  note pb = put_back_page [OF P c iO]
  have dis: "distinct (sl q)" using page_ok_slab_list(3) [OF D(1) q(1)] .
  have ok1: "page_ok slabS sl (sp ?t) A"
    using page_ok_on_page [OF D(1), of "active_update (\<lambda>a. a - 1)" p] by (simp add: put_back_def Let_def)
  let ?g = "\<lambda>pg. pg\<lparr>freelist := 0, total := 0, active := 0, slab_cache := None\<rparr>"
  have okg: "page_ok slabS ?sl (on_page p ?g (on_plists (list_remove (PageNode p)) (sp ?t))) A"
    by (rule page_ok_on_page [OF page_ok_slab_remove [OF ok1 q(1,2)]]) simp
  have su: "sp ?u = clear_pg_flag PAGE_SLAB p (on_page p ?g (on_plists (list_remove (PageNode p)) (sp ?t)))"
    by (simp add: slab_page_deinit_def)
  have ok2: "page_ok slabS ?sl (sp ?u) A"
    unfolding su by (rule page_ok_same [OF okg]) simp_all
  have gone: "\<forall>r\<in>slabS. p \<notin> set (?sl r)"
    using page_ok_slab_list(4) [OF D(1) q(1) _ _ q(2)] dis by (auto simp: set_remove1_eq)
  have pA: "p \<in> A" using page_ok_slab_list(5) [OF D(1) q(1)] q(2) by blast
  have same: "pord (sp ?u) = pord (sp s)" "page_flag PAGE_VALID (sp ?u) = page_flag PAGE_VALID (sp s)"
    "page_flag PAGE_FREE (sp ?u) = page_flag PAGE_FREE (sp s)" "highmem_start_pfn (sp ?u) = highmem_start_pfn (sp s)"
    by (auto simp: slab_page_deinit_def put_back_def Let_def pord_def page_flag_def on_page_def fun_eq_iff
        clear_pg_flag_def on_plists_def clear_bit_c_def test_bit_c_def bit_simps)
  have I: "page_inv slabS ?sl (sp ?u) A" using ok2 by (simp add: page_ok_def)
  have al: "2 ^ pord (sp s) p dvd p"
    using page_inv_tiles [of slabS sl "sp s" A] D(1) pA tiles_aligned by (auto simp: page_ok_def)
  have fok: "page_free_ok slabS ?sl (sp ?u) p"
    using gone page_merge_ok_cong [OF al same(2,3), of] ok same(1) by (simp add: page_free_ok_def)
  obtain ps where ps: "free_pages p (sp ?u) = Some ps" "page_inv slabS ?sl ps (A - {p})"
      "page_flag PAGE_VALID ps = page_flag PAGE_VALID (sp ?u)"
      "page_flag PAGE_HIGHMEM ps = page_flag PAGE_HIGHMEM (sp ?u)" "highmem_start_pfn ps = highmem_start_pfn (sp ?u)"
    using free_pages_correct [OF I pA fok] by blast
  have ok3: "page_ok slabS ?sl ps (A - {p})"
    using ps(2) zones_ok_cong [OF _ ps(3-5)] ok2 by (simp add: page_ok_def)
  have pd: "pdata ps = pdata (sp ?u)" by (rule free_pages_pdata [OF ps(1)])
  have z: "active (spage ?t p) = 0" using pb(2) i by simp
  have "free_block c p (page_to_virt p + of_nat (osize c * i)) s = Some (?u\<lparr>sp := ps\<rparr>)"
    using obj_to_index_eq(1) [OF P c il D(3) [OF c(2)]] pb(3) z slab_page_ok_data(2) [OF P] ps(1)
    by (auto simp: free_block_def put_back_def Let_def spage_def on_page_def)
  moreover have "slab_core (?u\<lparr>sp := ps\<rparr>) ?sl (A - {p}) (Ob(p := Ob p))"
  proof (rule slab_core_update [OF C])
    show "page_ok slabS ?sl (sp (?u\<lparr>sp := ps\<rparr>)) (A - {p})" using ok3 by simp
    show "highmem_start_pfn (sp (?u\<lparr>sp := ps\<rparr>)) = highmem_start_pfn (sp s)" using ps(5) same(4) by simp
    show "\<forall>d q'. 1 \<le> d \<and> d \<le> 7 \<and> q' \<noteq> p \<and> slab_page_ok s d q' (Ob q') \<longrightarrow> slab_page_ok (?u\<lparr>sp := ps\<rparr>) d q' (Ob q')"
    proof (intro allI impI)
      fix d q' assume d: "1 \<le> d \<and> d \<le> 7 \<and> q' \<noteq> p \<and> slab_page_ok s d q' (Ob q')"
      have "pdata (sp ?u) q' = pdata (sp ?t) q'" unfolding su using d by (simp add: pdata_on_page)
      then have 1: "pdata (sp (?u\<lparr>sp := ps\<rparr>)) q' = pdata (sp ?t) q'" by (simp add: pd)
      have 2: "smem (?u\<lparr>sp := ps\<rparr>) = smem ?t" by (simp add: slab_page_deinit_def)
      have "slab_page_ok ?t d q' (Ob q')" by (rule pb(4)) (use d in blast)+
      then show "slab_page_ok (?u\<lparr>sp := ps\<rparr>) d q' (Ob q')" using 1 2 by (rule slab_page_ok_cong)
    qed
    show "\<forall>d. slab_pages ?sl d - {p} \<subseteq> slab_pages sl d" "\<forall>d. set (?sl (SlabsPartial d)) - {p} \<subseteq> set (sl (SlabsPartial d))"
      using q(3) set_remove1_subset [of p "sl q"] by (auto simp: slab_pages_def)
    show "\<forall>d. 1 \<le> d \<and> d \<le> 7 \<and> p \<in> slab_pages ?sl d \<longrightarrow> slab_page_ok (?u\<lparr>sp := ps\<rparr>) d p (Ob p) \<and>
        p < highmem_start_pfn (sp s) \<and> (p \<in> set (?sl (SlabsPartial d)) \<longrightarrow> card (Ob p) < slots d)"
      using gone unfolding slab_pages_def by (metis UnE slabS_in)
    show "\<forall>c\<le>7. kc_size (caches (?u\<lparr>sp := ps\<rparr>) c) = kc_size (caches s c)"
      by (simp add: slab_page_deinit_def put_back_def Let_def)
  qed
  moreover have "slab_pages ?sl = (slab_pages sl)(c := slab_pages sl c - {p})"
  proof -
    have "p \<notin> set (sl r)" if "r \<in> slabS" "r \<noteq> q" for r
      using page_ok_slab_list(4) [OF D(1) q(1) that q(2)] .
    then have "p \<notin> set (sl (SlabsPartial c))" if "q = SlabsFull c" using that c by simp
    moreover have "p \<notin> set (sl (SlabsFull c))" if "q = SlabsPartial c"
      using that c \<open>\<And>r. r \<in> slabS \<Longrightarrow> r \<noteq> q \<Longrightarrow> p \<notin> set (sl r)\<close> by simp
    ultimately show ?thesis
      using q(3) dis by (auto simp: slab_pages_def fun_eq_iff set_remove1_eq)
  qed
  ultimately show ?thesis
    by (intro exI [of _ "?u\<lparr>sp := ps\<rparr>"] exI [of _ ?sl]) (simp add: slab_page_deinit_def put_back_def Let_def)
qed

lemma kmem_cache_free_correct:
  assumes I: "slab_inv s sl A Ob" and c: "1 \<le> c" "c \<le> 7" and p: "p \<in> slab_pages sl c" and i: "i \<in> Ob p"
    and m: "Ob p = {i} \<longrightarrow> page_merge_ok (sp s) p (pord (sp s) p)"
  shows "\<exists>t sl' A' Ob'. kmem_cache_free c (page_to_virt p + of_nat (osize c * i)) s = Some t \<and> slab_inv t sl' A' Ob' \<and>
    (if Ob p = {i} then A' = A - {p} \<and> Ob' = Ob \<and> slab_pages sl' = (slab_pages sl)(c := slab_pages sl c - {p})
     else A' = A \<and> sl' = sl \<and> Ob' = Ob(p := Ob p - {i}))"
proof -
  obtain s0 where s0: "lock_cache c s = Some s0" "slab_core s0 sl A Ob" "sp s0 = sp s"
      "\<forall>d \<le> 7. d \<noteq> c \<longrightarrow> counter (kc_lock (caches s0 d)) = 0"
    using lock_cache_eq [OF I c(2)] I by (auto simp: slab_inv_def)
  note D = slab_coreD [OF s0(2)]
  have P: "slab_page_ok s0 c p (Ob p)" by (rule D(4) [OF c p])
  have sub: "Ob p \<subseteq> {..<slots c}" and p18: "p < 2 ^ 18" using P by (auto simp: slab_page_ok_def)
  then have fin: "finite (Ob p)" using finite_subset by blast
  have il: "i < slots c" using sub i by auto
  note ix = obj_to_index_eq [OF P c il D(3) [OF c(2)]]
  let ?obj = "page_to_virt p + of_nat (osize c * i)"
  have v: "virt_to_page ?obj = p" "\<not> is_vmalloc_addr ?obj"
    using virt_to_page_inside [OF p18 ix(2)] not_vmalloc_linear [OF p18 ix(2)] by simp_all
  have hm: "\<not> page_flag PAGE_HIGHMEM (sp s) p"
  proof -
    have "p < TOTAL_PAGES" using p18 by (simp add: page_consts)
    then show ?thesis using D(1) D(6) [OF c p] s0(3) unfolding page_ok_def zones_ok_def by (metis not_less)
  qed
  have sc: "slab_cache (spage s p) = Some c" using slab_page_ok_data(5) [OF P] s0(3) by (simp add: spage_def)
  have step: "kmem_cache_free c ?obj s = do { t \<leftarrow> free_block c p ?obj s0; Some (unlock_cache c t) }"
    using v hm sc s0(1) by (simp add: kmem_cache_free_def Let_def)
  show ?thesis
  proof (cases "Ob p = {i}")
    case True
    obtain t sl' where "free_block c p ?obj s0 = Some t" "slab_core t sl' (A - {p}) Ob" "caches t = caches s0"
        "slab_pages sl' = (slab_pages sl)(c := slab_pages sl c - {p})"
      using free_block_last [OF s0(2) c p True] m s0(3) True by auto
    then show ?thesis
      using step True unlock_cache_inv [of t sl' "A - {p}" Ob c] s0(4)
      by (intro exI [of _ "unlock_cache c t"] exI [of _ sl'] exI [of _ "A - {p}"] exI [of _ Ob]) simp
  next
    case False
    have "card (Ob p) > 1"
    proof -
      have "card {i} < card (Ob p)" using False i fin by (intro psubset_card_mono) auto
      then show ?thesis by simp
    qed
    then obtain t where "free_block c p ?obj s0 = Some t" "slab_core t sl A (Ob(p := Ob p - {i}))" "caches t = caches s0"
      using free_block_keep [OF s0(2) c p i] by auto
    then show ?thesis
      using step False unlock_cache_inv [of t sl A "Ob(p := Ob p - {i})" c] s0(4)
      by (intro exI [of _ "unlock_cache c t"] exI [of _ sl] exI [of _ A] exI [of _ "Ob(p := Ob p - {i})"]) simp
  qed
qed

section \<open>Live objects\<close>

definition live :: "(pnode \<Rightarrow> nat list) \<Rightarrow> (nat \<Rightarrow> nat set) \<Rightarrow> (nat \<times> nat \<times> nat) set" where
  "live sl Ob = {(c, p, i). 1 \<le> c \<and> c \<le> 7 \<and> p \<in> slab_pages sl c \<and> i \<in> Ob p}"

text \<open>The physical bytes of object \<open>i\<close> of page \<open>p\<close> in a cache \<open>c\<close>.\<close>

definition obj_range :: "nat \<times> nat \<times> nat \<Rightarrow> nat set" where
  "obj_range = (\<lambda>(c, p, i). {4096 * p + osize c * i ..< 4096 * p + osize c * (i + 1)})"

lemma obj_in_page:
  assumes "1 \<le> c" "c \<le> 7" "i < slots c"
  shows "obj_range (c, p, i) \<subseteq> {4096 * p ..< 4096 * p + 4096}"
proof -
  have "osize c * (i + 1) \<le> osize c * slots c" using assms(3) by (intro mult_le_mono) auto
  moreover have "osize c * slots c \<le> 4096"
    using slots_facts(5) [OF assms(1,2)] unfolding mult.commute [of "slots c"] by linarith
  ultimately show ?thesis unfolding obj_range_def by auto
qed

lemma obj_range_disjoint:
  assumes "1 \<le> c" "c \<le> 7" "i < slots c" "1 \<le> d" "d \<le> 7" "j < slots d"
    and "p \<noteq> q \<or> c = d \<and> i \<noteq> j"
  shows "obj_range (c, p, i) \<inter> obj_range (d, q, j) = {}"
proof (cases "p = q")
  case False
  then have "{4096 * p ..< 4096 * p + 4096} \<inter> {4096 * q ..< 4096 * q + 4096} = {}" by auto
  then show ?thesis using obj_in_page [OF assms(1-3), of p] obj_in_page [OF assms(4-6), of q] by blast
next
  case True
  then have d: "c = d" "i \<noteq> j" using assms(7) by auto
  have "osize c * (i + 1) \<le> osize c * j \<or> osize c * (j + 1) \<le> osize c * i"
  proof (cases "i < j")
    case True
    then have "osize c * (i + 1) \<le> osize c * j" by (intro mult_le_mono) auto
    then show ?thesis ..
  next
    case False
    then have "osize c * (j + 1) \<le> osize c * i" using d(2) by (intro mult_le_mono) auto
    then show ?thesis ..
  qed
  then show ?thesis unfolding obj_range_def d(1) [symmetric] True by auto
qed

lemma live_alloc:
  assumes I: "slab_inv s sl A Ob" and c: "1 \<le> c" "c \<le> 7"
    and n: "p \<in> slab_pages sl c \<and> i \<notin> Ob p \<and> Ob' = Ob(p := insert i (Ob p)) \<or> p \<notin> A \<and> Ob' = Ob(p := {i})"
    and sl: "slab_pages sl' = (slab_pages sl)(c := insert p (slab_pages sl c))" and i: "i < slots c"
  shows "(c, p, i) \<notin> live sl Ob" "live sl' Ob' = insert (c, p, i) (live sl Ob)"
    "\<forall>x \<in> live sl Ob. obj_range (c, p, i) \<inter> obj_range x = {}"
proof -
  have C: "slab_core s sl A Ob" using I by (simp add: slab_inv_def)
  note D = slab_coreD [OF C]
  have pages: "slab_pages sl d \<subseteq> A" if "d \<le> 7" for d
    using page_ok_slab_list(5) [OF D(1)] that by (auto simp: slab_pages_def)
  have only: "d = c" if "p \<in> slab_pages sl d" "d \<le> 7" "p \<in> slab_pages sl c" for d
    using slab_pages_disjoint [OF D(1) that(2) c(2) that(1,3)] .
  show ni: "(c, p, i) \<notin> live sl Ob" using n pages [OF c(2)] by (auto simp: live_def)
  show "live sl' Ob' = insert (c, p, i) (live sl Ob)"
    using n
  proof (elim disjE conjE)
    assume p: "p \<in> slab_pages sl c" "Ob' = Ob(p := insert i (Ob p))"
    then have e: "slab_pages sl' = slab_pages sl" using sl by (simp add: insert_absorb)
    have "(d, q, j) \<in> live sl' Ob' \<longleftrightarrow> (d, q, j) \<in> insert (c, p, i) (live sl Ob)" for d q j
      using p c only [of d] unfolding live_def e by (cases "q = p") auto
    then show ?thesis by auto
  next
    assume p: "p \<notin> A" "Ob' = Ob(p := {i})"
    then have np: "p \<notin> slab_pages sl d" if "d \<le> 7" for d using pages [OF that] by blast
    have "(d, q, j) \<in> live sl' Ob' \<longleftrightarrow> (d, q, j) \<in> insert (c, p, i) (live sl Ob)" for d q j
      using p c np [of d] unfolding live_def sl by (cases "q = p"; cases "d = c") auto
    then show ?thesis by auto
  qed
  show "\<forall>x \<in> live sl Ob. obj_range (c, p, i) \<inter> obj_range x = {}"
  proof
    fix x assume x: "x \<in> live sl Ob"
    obtain d q j where xe: "x = (d, q, j)" by (cases x)
    have d: "1 \<le> d" "d \<le> 7" "q \<in> slab_pages sl d" "j \<in> Ob q" using x xe by (auto simp: live_def)
    have j: "j < slots d" using D(4) [OF d(1-3)] d(4) by (auto simp: slab_page_ok_def)
    have "p \<noteq> q \<or> c = d \<and> i \<noteq> j"
      using n d only [of d] pages [OF d(2)] by auto
    then show "obj_range (c, p, i) \<inter> obj_range x = {}"
      unfolding xe using obj_range_disjoint [OF c i d(1,2) j] by blast
  qed
qed

lemma kmalloc_order:
  assumes "8 < unat sz" "unat sz \<le> 1024"
  defines "c \<equiv> unat (ilog2_roundup (round_up sz (of_nat MIN_SIZE) div of_nat MIN_SIZE))"
  shows "1 \<le> c" "c \<le> 7" "unat sz \<le> osize c"
proof -
  let ?n = "round_up sz 8 div 8"
  define n where "n = (unat sz + 7) div 8"
  have "unat (round_up sz 8) = n * 8"
    using assms(2) by (subst unat_round_up) (simp_all add: n_def)
  then have un: "unat ?n = n" by (simp add: unat_div)
  have n: "2 \<le> n" "n \<le> 128" "unat sz \<le> 8 * n" using assms(1,2) by (simp_all add: n_def)
  then have nz: "?n \<noteq> 0" using un by auto
  note le = ilog2_roundup_le_iff [OF nz]
  have c: "c = unat (ilog2_roundup ?n)" by (simp add: c_def kmalloc_consts)
  have "\<not> c \<le> 0" using le [of 0] un n by (simp add: c)
  then show "1 \<le> c" by simp
  show "c \<le> 7" using le [of 7] un n by (simp add: c)
  have "n \<le> 2 ^ c" using le [of c] un by (simp add: c)
  then show "unat sz \<le> osize c" using n(3) by (simp add: osize_def)
qed

section \<open>Initialisation\<close>

lemma page_ok_new_head:
  assumes I: "page_ok S sl s A" and q: "q \<in> slab_heads" "q \<notin> S"
  shows "page_ok (insert q S) (sl(q := [])) (on_plists (list_init q) s) A"
proof -
  obtain f where f: "pbinv s f A" "prel S sl s f" and r: "\<forall>q \<in> S. set (sl q) \<subseteq> A"
    using I by (auto simp: page_ok_def page_inv_def)
  have SH: "S \<subseteq> slab_heads" and D: "dlists (plists s) (pheads \<union> S) (plist_of f sl)"
    using f(2) by (auto simp: prel_def)
  have np: "q \<notin> pheads" "q \<noteq> PageNode b" for b using q(1) by (auto simp: slab_heads_def pheads_def)
  have pl: "plist_of f (sl(q := [])) q = []" "x \<noteq> q \<Longrightarrow> plist_of f (sl(q := [])) x = plist_of f sl x" for x
    using q(1) by (auto simp: plist_of_def slab_heads_def split: pnode.splits)
  have nq: "q \<notin> set (plist_of f sl x)" for x using np(2) by (auto simp: plist_of_def)
  have "dlists (list_init q (plists s)) (pheads \<union> insert q S) (plist_of f (sl(q := [])))"
    unfolding dlists_def
  proof (intro conjI ballI impI)
    fix x assume x: "x \<in> pheads \<union> insert q S"
    show "dlist (list_init q (plists s)) x (plist_of f (sl(q := [])) x)"
    proof (cases "x = q")
      case True
      then show ?thesis using pl(1) by (simp add: dlist_def list_init_def)
    next
      case False
      then have "dlist (plists s) x (plist_of f sl x)" using dlists_dlist [OF D] x by blast
      moreover have "dlist (list_init q (plists s)) x (plist_of f sl x) = dlist (plists s) x (plist_of f sl x)"
        using nq [of x] False by (intro dlist_cong) (auto simp: list_init_def)
      ultimately show ?thesis using pl(2) [OF False] by simp
    qed
    fix y assume y: "y \<in> pheads \<union> insert q S" "x \<noteq> y"
    consider "x = q" | "y = q" | "x \<noteq> q" "y \<noteq> q" by blast
    then show "set (x # plist_of f (sl(q := [])) x) \<inter> set (y # plist_of f (sl(q := [])) y) = {}"
    proof cases
      case 3
      then have "set (x # plist_of f sl x) \<inter> set (y # plist_of f sl y) = {}"
        using D x y unfolding dlists_def by blast
      then show ?thesis using pl(2) 3 by simp
    qed (use pl nq y in auto)
  qed
  moreover have "insert q S \<subseteq> slab_heads" using SH q(1) by blast
  ultimately have "prel (insert q S) (sl(q := [])) (on_plists (list_init q) s) f"
    using f(2) by (simp add: prel_def)
  moreover have "zones_ok (on_plists (list_init q) s)" using I zones_ok_cong [of s] by (simp add: page_ok_def)
  ultimately show ?thesis using I f(1) r by (auto simp: page_ok_def page_inv_def)
qed

lemma kmalloc_init_inv:
  assumes "page_ok {} (\<lambda>_. []) (sp (slabs k)) A" "highmem_start_pfn (sp (slabs k)) \<le> 2 ^ 18"
  shows "slab_inv (slabs (kmalloc_init k)) (\<lambda>_. []) A Ob" "init_kmem_cache (kmalloc_init k)"
proof -
  define step where "step = (\<lambda>i s. snd (kmem_cache_create i (MIN_SIZE * 2 ^ i) s))"
  define heads where "heads n = SlabsPartial ` {..<n} \<union> SlabsFull ` {..<n}" for n
  have "page_ok (heads n) (\<lambda>_. []) (sp (fold step [0..<n] (slabs k))) A \<and>
      highmem_start_pfn (sp (fold step [0..<n] (slabs k))) \<le> 2 ^ 18 \<and>
      (\<forall>c < n. kc_size (caches (fold step [0..<n] (slabs k)) c) = osize c \<and>
        counter (kc_lock (caches (fold step [0..<n] (slabs k)) c)) = 0)" if "n \<le> 8" for n
    using that
  proof (induction n)
    case 0
    then show ?case using assms by (simp add: heads_def)
  next
    case (Suc n)
    let ?s = "fold step [0..<n] (slabs k)"
    have n: "n \<in> {0, 1, 2, 3, 4, 5, 6, 7}" using Suc.prems by auto
    have e: "sp (step n ?s) = on_plists (list_init (SlabsPartial n)) (on_plists (list_init (SlabsFull n)) (sp ?s))"
      "caches (step n ?s) = (caches ?s)(n := \<lparr>kc_size = osize n, kc_lock = spinlock_init (kc_lock (caches ?s n))\<rparr>)"
      using n by (auto simp: step_def kmem_cache_create_def Let_def kmalloc_consts osize_def)
    have "page_ok (heads n) (\<lambda>_. []) (sp ?s) A" using Suc by simp
    from page_ok_new_head [OF this, of "SlabsFull n"]
    have 1: "page_ok (insert (SlabsFull n) (heads n)) (\<lambda>_. []) (on_plists (list_init (SlabsFull n)) (sp ?s)) A"
      by (auto simp: heads_def slab_heads_def fun_upd_idem)
    from page_ok_new_head [OF this, of "SlabsPartial n"]
    have 2: "page_ok (insert (SlabsPartial n) (insert (SlabsFull n) (heads n))) (\<lambda>_. []) (sp (step n ?s)) A"
      by (auto simp: heads_def slab_heads_def fun_upd_idem e)
    have "insert (SlabsPartial n) (insert (SlabsFull n) (heads n)) = heads (Suc n)"
      by (auto simp: heads_def lessThan_Suc)
    then show ?case
      using 2 Suc e by (auto simp: less_Suc_eq spinlock_init_def)
  qed
  from this [of 8] have f: "page_ok (heads 8) (\<lambda>_. []) (sp (slabs (kmalloc_init k))) A"
    "highmem_start_pfn (sp (slabs (kmalloc_init k))) \<le> 2 ^ 18"
    "\<forall>c < 8. kc_size (caches (slabs (kmalloc_init k)) c) = osize c \<and> counter (kc_lock (caches (slabs (kmalloc_init k)) c)) = 0"
    by (simp_all add: kmalloc_init_def step_def KMEM_CACHE_MAX_ORDER_def)
  have "heads 8 = slabS" by (auto simp: heads_def slabS_def)
  then show "slab_inv (slabs (kmalloc_init k)) (\<lambda>_. []) A Ob"
    using f by (auto simp: slab_inv_def slab_core_def slab_pages_def)
  show "init_kmem_cache (kmalloc_init k)" by (simp add: kmalloc_init_def)
qed

section \<open>Objects of 8 bytes\<close>

fun alloc_many :: "nat \<Rightarrow> nat \<Rightarrow> nat \<Rightarrow> sstate \<Rightarrow> (u32 list \<times> sstate) option" where
  "alloc_many c p 0 s = Some ([], s)"
| "alloc_many c p (Suc n) s =
     do {
       (x, s) \<leftarrow> alloc_block c p s;
       (xs, s) \<leftarrow> alloc_many c p n s;
       Some (x # xs, s)
     }"

lemma alloc_many_8:
  assumes "active (spage s p) = of_nat a" "total (spage s p) = 448" "a + n < 448"
    and "\<forall>k < 512. smem s (freelist (spage s p) + of_nat k) = of_nat k" "kc_size (caches s c) = 8"
  shows "\<exists>t. alloc_many c p n s = Some (map (\<lambda>k. s_mem (spage s p) + of_nat (8 * (k mod 256))) [a ..< a + n], t)"
  using assms
proof (induction n arbitrary: a s)
  case (Suc n)
  let ?t = "on_spage p (active_update (\<lambda>a. a + 1)) s"
  have b: "a < 2 ^ 16" "Suc a < 2 ^ 16" "(448 :: nat) < 2 ^ 16" using Suc.prems(3) by simp_all
  have lt: "(of_nat a :: u16) < 448" using u16_less [OF b(1,3)] Suc.prems(3) by simp
  have ne: "(of_nat (Suc a) :: u16) \<noteq> 448" using u16_eq [OF b(2,3)] Suc.prems(3) by simp
  have ix: "unat (smem s (freelist (spage s p) + of_nat a)) = a mod 256"
    using Suc.prems(3,4) by (simp add: unat_of_nat)
  have t: "active (spage ?t p) = of_nat (Suc a)" "total (spage ?t p) = 448" "s_mem (spage ?t p) = s_mem (spage s p)"
    "freelist (spage ?t p) = freelist (spage s p)"
    using Suc.prems(1,2) by (simp_all add: spage_def on_page_def add.commute)
  have "alloc_block c p s = Some (s_mem (spage s p) + of_nat (8 * (a mod 256)), ?t)"
    using Suc.prems(1,2,5) lt ne t ix ucast_u16 [OF b(1)]
    by (simp add: alloc_block_def Let_def index_to_obj_def)
  moreover obtain u where "alloc_many c p n ?t
      = Some (map (\<lambda>k. s_mem (spage ?t p) + of_nat (8 * (k mod 256))) [Suc a ..< Suc a + n], u)"
    using Suc.IH [of ?t "Suc a"] t Suc.prems(3-5) by auto
  moreover have "[a ..< a + Suc n] = a # [Suc a ..< Suc a + n]" using upt_conv_Cons [of a "a + Suc n"] by simp
  ultimately show ?case using t(3) by (simp only: alloc_many.simps) simp
qed simp

section \<open>A machine with one page\<close>

definition bss_heap :: "pstate \<Rightarrow> kernel_heap" where
  "bss_heap ps =
     \<lparr>early = \<lparr>blocks = (\<lambda>_. undefined), klists = undefined, block_buffer = 0\<rparr>,
      slabs = \<lparr>sp = ps, smem = (\<lambda>_. 0), caches = (\<lambda>_. \<lparr>kc_size = 0, kc_lock = \<lparr>counter = 0\<rparr>\<rparr>)\<rparr>,
      init_kmem_cache = False\<rparr>"

lemma kmem_cache_create_valid:
  "valid_pages (sp (snd (kmem_cache_create c sz s))) = valid_pages (sp s)"
  "highmem_start_pfn (sp (snd (kmem_cache_create c sz s))) = highmem_start_pfn (sp s)"
  by (simp_all add: kmem_cache_create_def Let_def)

lemma kmalloc_init_valid:
  "valid_pages (sp (slabs (kmalloc_init k))) = valid_pages (sp (slabs k))"
  "highmem_start_pfn (sp (slabs (kmalloc_init k))) = highmem_start_pfn (sp (slabs k))"
proof -
  have "valid_pages (sp (fold (\<lambda>i s. snd (kmem_cache_create i (g i) s)) is s)) = valid_pages (sp s)"
    "highmem_start_pfn (sp (fold (\<lambda>i s. snd (kmem_cache_create i (g i) s)) is s)) = highmem_start_pfn (sp s)" for g "is" s
    by (induction "is" arbitrary: s) (simp_all add: kmem_cache_create_valid)
  then show "valid_pages (sp (slabs (kmalloc_init k))) = valid_pages (sp (slabs k))"
    "highmem_start_pfn (sp (slabs (kmalloc_init k))) = highmem_start_pfn (sp (slabs k))"
    by (simp_all add: kmalloc_init_def kmem_cache_create_valid)
qed

lemma linear_page_left:
  assumes I: "page_ok S sl s A" and p: "p \<in> valid_pages s" "p \<notin> cover (pord s) A"
    and n: "\<forall>q \<in> valid_pages s. q < highmem_start_pfn s"
  shows "\<exists>k \<le> page_MAX_ORDER. \<not> list_empty (get_free_list GFP_NORMAL k) (plists s)"
proof -
  obtain f where f: "pbinv s f A" "prel S sl s f" using I by (auto simp: page_ok_def page_inv_def)
  have "p \<in> cover (pord s) (heads f A)" using binvD(2) [OF f(1)] p by simp
  then obtain b where bh: "b \<in> heads f A" "p \<in> region b (pord s b)" unfolding cover_def by blast
  then have "b \<notin> A" using p(2) by (auto simp: cover_def)
  then obtain z k where b: "b \<in> set (f (z, k))" using bh(1) by (auto simp: heads_def)
  have k: "pord s b = k" "k \<le> page_MAX_ORDER" using f(1) b bh by (auto simp: binv_def)
  have "b \<in> valid_pages s"
    using binvD(2) [OF f(1)] bh(1) region_head [of b "pord s b"] by (auto simp: cover_def)
  then have "\<not> page_flag PAGE_HIGHMEM s b"
    using n I by (auto simp: page_ok_def zones_ok_def valid_pages_def)
  then have "z = False" using f(2) b by (auto simp: prel_def)
  moreover have "dlist (plists s) (PFree z k) (map PageNode (f (z, k)))"
    using dlists_dlist [of "plists s" "pheads \<union> S" "plist_of f sl" "PFree z k"] f(2) k(2)
    by (simp add: prel_def pheads_def)
  then have "\<not> list_empty (PFree z k) (plists s)" using dlist_list_empty b by fastforce
  ultimately show ?thesis using k(2) by (intro exI [of _ k]) (simp add: get_free_list_def page_consts)
qed

lemma slab_boot:
  "\<exists>ps. add_free_pages 0 1 (page_init (page_bss 1024)) = Some ps \<and>
    slab_inv (slabs (kmalloc_init (bss_heap ps))) (\<lambda>_. []) {} (\<lambda>_. {}) \<and> init_kmem_cache (kmalloc_init (bss_heap ps)) \<and>
    valid_pages (sp (slabs (kmalloc_init (bss_heap ps)))) = {0} \<and>
    (\<exists>j \<le> page_MAX_ORDER. \<not> list_empty (get_free_list GFP_NORMAL j) (plists (sp (slabs (kmalloc_init (bss_heap ps))))))"
proof -
  have "page_ok {} (\<lambda>_. []) (page_init (page_bss 1024)) {}" by (rule page_init_ok) (simp add: page_consts)
  moreover have v: "valid_pages (page_init (page_bss 1024)) = {}" by (rule page_init_ok) (simp add: page_consts)
  moreover have h: "highmem_start_pfn (page_init (page_bss 1024)) = 1024"
    unfolding page_init_def Let_def fold_page_init fold_two by (simp add: page_bss_def on_plists_def)
  ultimately obtain ps where ps: "add_free_pages 0 1 (page_init (page_bss 1024)) = Some ps" "page_ok {} (\<lambda>_. []) ps {}"
      "highmem_start_pfn ps = 1024" "valid_pages ps = {0}"
    using add_free_pages_ok [of "{}" "\<lambda>_. []" "page_init (page_bss 1024)" "{}" 0 1] by (auto simp: page_consts)
  let ?k = "kmalloc_init (bss_heap ps)"
  have k: "slab_inv (slabs ?k) (\<lambda>_. []) {} (\<lambda>_. {})" "init_kmem_cache ?k"
    using kmalloc_init_inv(1) [of "bss_heap ps" "{}" "\<lambda>_. {}"] kmalloc_init_inv(2) [of "bss_heap ps" "{}"] ps(2,3) by (simp_all add: bss_heap_def)
  have vk: "valid_pages (sp (slabs ?k)) = {0}"
    using ps(4) by (simp add: kmalloc_init_valid) (simp add: bss_heap_def)
  have ok: "page_ok slabS (\<lambda>_. []) (sp (slabs ?k)) {}" using k(1) by (simp add: slab_inv_def slab_core_def)
  have "highmem_start_pfn (sp (slabs ?k)) = 1024"
    using ps(3) by (simp add: kmalloc_init_valid) (simp add: bss_heap_def)
  then show ?thesis using ps(1) k vk linear_page_left [OF ok, of 0] by (auto simp: cover_def)
qed

lemma valid_pages_on_page: "(\<And>pg. pg_flags (g pg) = pg_flags pg) \<Longrightarrow> valid_pages (on_page p g s) = valid_pages s"
  by (auto simp: valid_pages_def page_flag_def on_page_def split: if_splits)

lemma valid_pages_slab: "valid_pages (set_pg_flag PAGE_SLAB p s) = valid_pages s"
  by (auto simp: valid_pages_def page_flag_def on_page_def set_pg_flag_def set_bit_c_def test_bit_c_def bit_simps page_consts)

lemma kmem_cache_alloc_valid:
  assumes "slab_inv s sl A Ob" "kmem_cache_alloc vmap c s = Some (ptr, t)" "c \<le> 7"
  shows "valid_pages (sp t) = valid_pages (sp s)"
proof -
  obtain s0 where s0: "lock_cache c s = Some s0" "sp s0 = sp s"
    using lock_cache_eq [OF assms(1,3)] by blast
  have al: "valid_pages ps = valid_pages (sp s)" if "alloc_pages GFP_NORMAL 0 (sp s) = Some (Some p, ps)" for p ps
    using alloc_pages_correct [of slabS sl "sp s" A 0 GFP_NORMAL] that assms(1)
    by (auto simp: slab_inv_def slab_core_def page_ok_def)
  have init: "valid_pages (sp u) = valid_pages (sp v)" if "slab_page_init vmap c p v = Some (r, u)" for p v r u
    using that by (auto simp: slab_page_init_def Let_def valid_pages_on_page valid_pages_slab split: if_splits bind_splits)
  have blk: "valid_pages (sp u) = valid_pages (sp v)" if "alloc_block c p v = Some (r, u)" for p v r u
    using that by (auto simp: alloc_block_def Let_def valid_pages_on_page split: if_splits)
  show ?thesis
    using assms(2) s0 al unfolding kmem_cache_alloc_def
    by (auto simp: unlock_cache_def split: if_splits Option.bind_splits dest!: init blk)
qed

section \<open>Properties\<close>

text \<open>
  C6: \<open>kmalloc\<close> of 9 to 1024 bytes, once the caches are set up.  The block lies in an object slot of a slab
  page that is at least as large as asked for and in no live object; afterwards the slot is live and
  nothing else has changed, and the bytes of the block overlap no live object.  The model gives \<open>None\<close>,
  for the null page that the code goes on to use, only when there is no linear page left.
\<close>

theorem kmalloc_small:
  assumes "init_kmem_cache k" "slab_inv (slabs k) sl A Ob" "8 < unat sz" "unat sz \<le> 1024"
  shows "case kmalloc vmap sz k of
      None \<Rightarrow> \<forall>j \<le> page_MAX_ORDER. list_empty (get_free_list GFP_NORMAL j) (plists (sp (slabs k)))
    | Some (ptr, k') \<Rightarrow> \<exists>c p i sl' A' Ob'. ptr = page_to_virt p + of_nat (osize c * i) \<and> i < slots c \<and>
        unat sz \<le> osize c \<and> slab_inv (slabs k') sl' A' Ob' \<and> (c, p, i) \<notin> live sl Ob \<and>
        live sl' Ob' = insert (c, p, i) (live sl Ob) \<and> (\<forall>x \<in> live sl Ob. obj_range (c, p, i) \<inter> obj_range x = {})"
proof -
  define c where "c = unat (ilog2_roundup (round_up sz (of_nat MIN_SIZE) div of_nat MIN_SIZE))"
  note c = kmalloc_order [OF assms(3,4), folded c_def]
  have le: "unat sz \<le> KMEM_CACHE_MAX_SIZE" "c \<le> KMEM_CACHE_MAX_ORDER"
    using assms(4) c by (simp_all add: KMEM_CACHE_MAX_SIZE_def KMEM_CACHE_MAX_ORDER_def kmalloc_consts)
  have km: "kmalloc vmap sz k = do { (ptr, s) \<leftarrow> kmem_cache_alloc vmap c (slabs k); Some (ptr, k\<lparr>slabs := s\<rparr>) }"
    using assms(1) le unfolding kmalloc_def Let_def c_def [symmetric] by simp
  note al = kmem_cache_alloc_correct [OF assms(2) c(1,2), of vmap]
  show ?thesis
  proof (cases "kmem_cache_alloc vmap c (slabs k)")
    case None
    then show ?thesis using al km by simp
  next
    case (Some r)
    obtain ptr t where r: "r = (ptr, t)" by (cases r)
    obtain p i sl' A' where p: "ptr = page_to_virt p + of_nat (osize c * i)" "i < slots c"
        "p \<in> slab_pages sl c \<and> i \<notin> Ob p \<and> A' = A \<and> slab_inv t sl' A' (Ob(p := insert i (Ob p))) \<or>
         p \<notin> A \<and> A' = insert p A \<and> slab_inv t sl' A' (Ob(p := {i}))"
        "slab_pages sl' = (slab_pages sl)(c := insert p (slab_pages sl c))"
      using al Some r by auto
    define Ob' where "Ob' = (if p \<in> A then Ob(p := insert i (Ob p)) else Ob(p := {i}))"
    have "slab_pages sl c \<subseteq> A"
      using page_ok_slab_list(5) [of slabS sl "sp (slabs k)" A] assms(2) c
      by (auto simp: slab_inv_def slab_core_def slab_pages_def)
    then have q: "slab_inv t sl' A' Ob'"
        "p \<in> slab_pages sl c \<and> i \<notin> Ob p \<and> Ob' = Ob(p := insert i (Ob p)) \<or> p \<notin> A \<and> Ob' = Ob(p := {i})"
      using p(3) by (auto simp: Ob'_def)
    have "kmalloc vmap sz k = Some (ptr, k\<lparr>slabs := t\<rparr>)" using km Some r by simp
    then show ?thesis
      using p(1,2) c(3) q(1) live_alloc [OF assms(2) c(1,2) q(2) p(4,2)]
      by (simp, intro exI [of _ c] exI [of _ p] exI [of _ i] conjI exI [of _ sl'] exI [of _ Ob'] exI [of _ A']) simp_all
  qed
qed


theorem kmalloc_small_witness:
  "\<exists>ps ptr k' c p i. add_free_pages 0 1 (page_init (page_bss 1024)) = Some ps \<and>
    kmalloc (\<lambda>_. 0) 100 (kmalloc_init (bss_heap ps)) = Some (ptr, k') \<and>
    ptr = page_to_virt p + of_nat (osize c * i) \<and> i < slots c \<and> 100 \<le> osize c"
proof -
  obtain ps where ps: "add_free_pages 0 1 (page_init (page_bss 1024)) = Some ps"
    "slab_inv (slabs (kmalloc_init (bss_heap ps))) (\<lambda>_. []) {} (\<lambda>_. {})" "init_kmem_cache (kmalloc_init (bss_heap ps))"
    "\<exists>j \<le> page_MAX_ORDER. \<not> list_empty (get_free_list GFP_NORMAL j) (plists (sp (slabs (kmalloc_init (bss_heap ps)))))"
    using slab_boot by blast
  note k = kmalloc_small [OF ps(3,2), of 100 "\<lambda>_. 0"]
  obtain ptr k' where r: "kmalloc (\<lambda>_. 0) 100 (kmalloc_init (bss_heap ps)) = Some (ptr, k')"
    using k ps(4) by (cases "kmalloc (\<lambda>_. 0) 100 (kmalloc_init (bss_heap ps))") auto
  then obtain c p i where "ptr = page_to_virt p + of_nat (osize c * i)" "i < slots c" "100 \<le> osize c"
    using k by auto
  then show ?thesis using ps(1) r by blast
qed

text \<open>
  C12: \<open>kmem_cache_free\<close> of a live object of a cache of 16 bytes or more returns, keeps the invariant and
  takes exactly this object away from the live ones.  When it is the last object of its page the page goes
  back to the page allocator; for this case every free buddy that is met while the page is merged upwards is
  required to have the order of the block it is merged with.
\<close>

theorem kmem_cache_free_spec:
  assumes "slab_inv s sl A Ob" "(c, p, i) \<in> live sl Ob"
    and "Ob p = {i} \<longrightarrow> page_merge_ok (sp s) p (pord (sp s) p)"
  shows "\<exists>t sl' Ob'. kmem_cache_free c (page_to_virt p + of_nat (osize c * i)) s = Some t \<and>
    slab_inv t sl' (if Ob p = {i} then A - {p} else A) Ob' \<and> live sl' Ob' = live sl Ob - {(c, p, i)}"
proof -
  have c: "1 \<le> c" "c \<le> 7" "p \<in> slab_pages sl c" "i \<in> Ob p" using assms(2) by (auto simp: live_def)
  obtain t sl' A' Ob' where t: "kmem_cache_free c (page_to_virt p + of_nat (osize c * i)) s = Some t"
      "slab_inv t sl' A' Ob'"
      "if Ob p = {i} then A' = A - {p} \<and> Ob' = Ob \<and> slab_pages sl' = (slab_pages sl)(c := slab_pages sl c - {p})
       else A' = A \<and> sl' = sl \<and> Ob' = Ob(p := Ob p - {i})"
    using kmem_cache_free_correct [OF assms(1) c assms(3)] by blast
  have only: "p \<in> slab_pages sl d \<longleftrightarrow> d = c" if "d \<le> 7" for d
    using slab_pages_disjoint [of sl "sp s" A d c p] assms(1) that c by (auto simp: slab_inv_def slab_core_def)
  have "live sl' Ob' = live sl Ob - {(c, p, i)}"
  proof (cases "Ob p = {i}")
    case True
    then have e: "slab_pages sl' = (slab_pages sl)(c := slab_pages sl c - {p})" "Ob' = Ob" using t(3) by simp_all
    have "(d, q, j) \<in> live sl' Ob' \<longleftrightarrow> (d, q, j) \<in> live sl Ob - {(c, p, i)}" for d q j
      using True only [of d] unfolding live_def e by (cases "d \<le> 7"; cases "d = c"; cases "q = p") simp_all
    then show ?thesis by (simp only: set_eq_iff split_paired_All simp_thms)
  next
    case False
    then have e: "sl' = sl" "Ob' = Ob(p := Ob p - {i})" using t(3) by simp_all
    have "(d, q, j) \<in> live sl' Ob' \<longleftrightarrow> (d, q, j) \<in> live sl Ob - {(c, p, i)}" for d q j
      using only [of d] unfolding live_def e by (cases "d \<le> 7"; cases "d = c"; cases "q = p") simp_all
    then show ?thesis by (simp only: set_eq_iff split_paired_All simp_thms)
  qed
  then show ?thesis using t by (intro exI [of _ t] exI [of _ sl'] exI [of _ Ob']) (auto split: if_splits)
qed

theorem kmem_cache_free_spec_witness:
  "\<exists>ps ptr s t sl Ob A'. add_free_pages 0 1 (page_init (page_bss 1024)) = Some ps \<and>
    kmem_cache_alloc (\<lambda>_. 0) 1 (slabs (kmalloc_init (bss_heap ps))) = Some (ptr, s) \<and>
    kmem_cache_free 1 ptr s = Some t \<and> slab_inv t sl A' Ob \<and> live sl Ob = {}"
proof -
  obtain ps where ps: "add_free_pages 0 1 (page_init (page_bss 1024)) = Some ps"
    "slab_inv (slabs (kmalloc_init (bss_heap ps))) (\<lambda>_. []) {} (\<lambda>_. {})"
    "valid_pages (sp (slabs (kmalloc_init (bss_heap ps)))) = {0}"
    "\<exists>j \<le> page_MAX_ORDER. \<not> list_empty (get_free_list GFP_NORMAL j) (plists (sp (slabs (kmalloc_init (bss_heap ps)))))"
    using slab_boot by blast
  let ?s = "slabs (kmalloc_init (bss_heap ps))"
  obtain ptr s where a: "kmem_cache_alloc (\<lambda>_. 0) 1 ?s = Some (ptr, s)"
    using kmem_cache_alloc_correct [OF ps(2), of 1 "\<lambda>_. 0"] ps(4)
    by (cases "kmem_cache_alloc (\<lambda>_. 0) 1 ?s") auto
  then obtain p i sl where p: "ptr = page_to_virt p + of_nat (osize 1 * i)" "slab_inv s sl {p} ((\<lambda>_. {})(p := {i}))"
      "slab_pages sl = (slab_pages (\<lambda>_. []))(1 := insert p (slab_pages (\<lambda>_. []) 1))"
    using kmem_cache_alloc_correct [OF ps(2), of 1 "\<lambda>_. 0"] by (auto simp: slab_pages_def)
  have v: "valid_pages (sp s) = {0}" using kmem_cache_alloc_valid [OF ps(2) a] ps(3) by simp
  have I: "page_inv slabS sl (sp s) {p}" using p(2) by (simp add: slab_inv_def slab_core_def page_ok_def)
  obtain f where f: "pbinv (sp s) f {p}" using I by (auto simp: page_inv_def)
  have h: "p \<in> heads f {p}" by (simp add: heads_def)
  then have "p \<in> valid_pages (sp s)"
    using binvD(2) [OF f] region_head [of p "pord (sp s) p"] unfolding cover_def by blast
  then have p0: "p = 0" using v by simp
  have nv: "\<not> page_flag PAGE_VALID (sp s) x" if "x < TOTAL_PAGES" "x \<noteq> 0" for x
  proof -
    have "x \<notin> valid_pages (sp s)" unfolding v using that by simp
    then show ?thesis using that by (simp add: valid_pages_def)
  qed
  have "\<not> page_flag PAGE_VALID (sp s) (0 XOR 2 ^ k)" if "k < page_MAX_ORDER" for k
  proof -
    have "(2 :: nat) ^ k < 2 ^ page_MAX_ORDER" using that by simp
    then have "0 XOR (2 :: nat) ^ k < TOTAL_PAGES" "0 XOR (2 :: nat) ^ k \<noteq> 0" by (simp_all add: page_consts)
    then show ?thesis by (rule nv)
  qed
  then have m: "page_merge_ok (sp s) p (pord (sp s) p)"
    using p0 by (subst page_merge_ok.simps) auto
  have l: "live sl ((\<lambda>_. {})(p := {i})) = {(1, p, i)}"
    using p(3) by (auto simp: live_def slab_pages_def split: if_splits)
  then show ?thesis
    using kmem_cache_free_spec [OF p(2), of 1 p i] m ps(1) a p(1) by simp blast
qed

text \<open>
  C29: A slab page of 8-byte objects hands out every object of its first 2048 bytes twice.  The free list
  has 512 one-byte entries, so entry 256 holds the index 0 again: of 257 blocks taken in a row from a fresh
  page the first and the last are the same block.
\<close>

theorem slab_8_aliases:
  assumes "kc_size (caches s c) = 8" "p < 2 ^ 18" "\<not> page_flag PAGE_HIGHMEM (sp s) p"
  shows "\<exists>t u xs. slab_page_init vmap c p s = Some (0, t) \<and> alloc_many c p 257 t = Some (xs, u) \<and>
    length xs = 257 \<and> xs ! 0 = xs ! 256"
proof -
  let ?a = "page_to_virt p"
  have a: "page_address vmap p (sp s) = ?a" using assms(3) by (simp add: page_address_def page_to_virt_def)
  have "unat (?a + of_nat 0) \<noteq> 0" using unat_page_to_virt [OF assms(2), of 0] by simp
  then have a0: "?a \<noteq> 0" by auto
  define fl where "fl = ?a + PAGE_SIZE - 512"
  let ?g = "\<lambda>pg. pg\<lparr>s_mem := ?a, freelist := fl, total := 448, active := 0, slab_cache := Some c\<rparr>"
  define t where "t = on_sp (set_pg_flag PAGE_SLAB p) ((on_spage p ?g s)\<lparr>smem := fill_freelist fl 512 (smem s)\<rparr>)"
  have init: "slab_page_init vmap c p s = Some (0, t)"
    using a a0 assms(1)
    by (simp add: slab_page_init_def Let_def fl_def t_def) (simp add: on_sp_def on_spage_def on_page_def comp_def)
  have "pdata (sp t) p = (?a, fl, 0, 448, Some c)" by (simp add: t_def pdata_on_page)
  then have pd: "active (spage t p) = of_nat 0" "total (spage t p) = 448" "freelist (spage t p) = fl"
    by (simp_all add: pdata_def spage_def)
  have m: "\<forall>k < 512. smem t (freelist (spage t p) + of_nat k) = of_nat k"
    unfolding pd(3) using fill_freelist_apply(1) [of 512] by (simp add: t_def)
  have "kc_size (caches t c) = 8" using assms(1) by (simp add: t_def)
  then obtain u where "alloc_many c p 257 t = Some (map (\<lambda>k. s_mem (spage t p) + of_nat (8 * (k mod 256))) [0 ..< 0 + 257], u)"
    using alloc_many_8 [OF pd(1,2) _ m, of 257 c] by auto
  moreover have "[0 ..< 0 + 257] ! 0 = (0 :: nat)" "[0 ..< 0 + 257] ! 256 = (256 :: nat)" by (subst nth_upt; simp)+
  then have "map g [0 ..< 0 + 257] ! 0 = g 0" "map g [0 ..< 0 + 257] ! 256 = g 256" for g :: "nat \<Rightarrow> u32"
    by (subst nth_map; simp del: upt_rec_numeral)+
  ultimately show ?thesis using init
    by (intro exI [of _ t] exI [of _ u] exI [of _ "map (\<lambda>k. s_mem (spage t p) + of_nat (8 * (k mod 256))) [0 ..< 0 + 257]"])
       (simp del: upt_rec_numeral)
qed

theorem slab_8_aliases_witness:
  "\<exists>t u xs. slab_page_init (\<lambda>_. 0) 0 5
      \<lparr>sp = page_bss 1024, smem = (\<lambda>_. 0), caches = (\<lambda>_. \<lparr>kc_size = 8, kc_lock = \<lparr>counter = 0\<rparr>\<rparr>)\<rparr> = Some (0, t) \<and>
    alloc_many 0 5 257 t = Some (xs, u) \<and> length xs = 257 \<and> xs ! 0 = xs ! 256"
  by (rule slab_8_aliases) (simp_all add: page_bss_def page_flag_def test_bit_c_def)

end
