(* ===== verification/Page_Table.thy ===== *)
theory Page_Table
  imports Slab
begin

text \<open>
  The page tables of \<^verbatim>\<open>mm/page_table.c\<close>.  A directory and its tables are pages of the page allocator, read and
  written word by word through the linear map, so the memory of the model is a function from (virtual)
  addresses to 32-bit words.  \<open>pte_of\<close> is the entry that the two-level walk of the processor finds for a
  page number and \<open>translate\<close> the address it yields.

  The kernel maps the directory into itself at one slot (\<open>VPT\<close>); \<open>pt_inv\<close> allows this, and asks that all
  other tables are different allocated linear pages.
\<close>

section \<open>Operations\<close>

definition PTE_P :: u32 where "PTE_P = 1"
definition PTE_W :: u32 where "PTE_W = 2"
definition PDE_P :: u32 where "PDE_P = 1"
definition PDE_W :: u32 where "PDE_W = 2"
definition CR0_PE :: u32 where "CR0_PE = 0x00000001"
definition CR0_MP :: u32 where "CR0_MP = 0x00000002"
definition CR0_EM :: u32 where "CR0_EM = 0x00000004"
definition CR0_TS :: u32 where "CR0_TS = 0x00000008"
definition CR0_NE :: u32 where "CR0_NE = 0x00000020"
definition CR0_WP :: u32 where "CR0_WP = 0x00010000"
definition CR0_AM :: u32 where "CR0_AM = 0x00040000"
definition CR0_PG :: u32 where "CR0_PG = 0x80000000"

lemmas [addr_consts] = PTE_P_def PTE_W_def PDE_P_def PDE_W_def
lemmas cr0_consts = CR0_PE_def CR0_MP_def CR0_EM_def CR0_TS_def CR0_NE_def CR0_WP_def CR0_AM_def CR0_PG_def

record vm =
  vps :: pstate
  wmem :: "u32 \<Rightarrow> u32"
  cr0 :: u32
  cr3 :: u32
  invalidated :: "u32 list"

definition tlb_invalidate :: "u32 \<Rightarrow> u32 \<Rightarrow> vm \<Rightarrow> vm" where
  "tlb_invalidate pgdir va s =
     (if cr3 s = virt_to_phys pgdir then s\<lparr>invalidated := invalidated s @ [va]\<rparr> else s)"

definition set_pde :: "u32 \<Rightarrow> u32 \<Rightarrow> u32 \<Rightarrow> vm \<Rightarrow> vm" where
  "set_pde pde pa flag s = s\<lparr>wmem := (wmem s)(pde := pa OR flag OR PDE_P)\<rparr>"

text \<open>\<open>memset\<close> of one page to zero.\<close>

definition zero_page :: "u32 \<Rightarrow> (u32 \<Rightarrow> u32) \<Rightarrow> u32 \<Rightarrow> u32" where
  "zero_page a m = fold (\<lambda>i m. m(a + of_nat (4 * i) := 0)) [0 ..< 1024] m"

text \<open>A null page from \<open>alloc_page\<close> is not checked for: \<open>None\<close>.\<close>

definition get_pte :: "u32 \<Rightarrow> u32 \<Rightarrow> vm \<Rightarrow> (u32 \<times> vm) option" where
  "get_pte pgdir va s =
     do {
       let pde = pgdir + of_nat (4 * pde_index va);
       s \<leftarrow> (if wmem s pde AND PTE_P = 0 then
                do {
                  (pg, ps) \<leftarrow> alloc_pages GFP_NORMAL 0 (vps s);
                  page \<leftarrow> pg;
                  let page_pa = page_to_phys page;
                  let s = s\<lparr>vps := ps, wmem := zero_page (phys_to_virt page_pa) (wmem s)\<rparr>;
                  Some (set_pde pde page_pa (PDE_P OR PDE_W) s)
                }
              else Some s);
       let pt = phys_to_virt (page_base (wmem s pde));
       Some (pt + of_nat (4 * pte_index va), s)
     }"

definition set_word :: "u32 \<Rightarrow> u32 \<Rightarrow> vm \<Rightarrow> vm" where
  "set_word a v s = s\<lparr>wmem := (wmem s)(a := v)\<rparr>"

partial_function (option) page_map_loop ::
  "u32 \<Rightarrow> u32 \<Rightarrow> u32 \<Rightarrow> u32 \<Rightarrow> u32 \<Rightarrow> u32 \<Rightarrow> vm \<Rightarrow> vm option" where
  "page_map_loop pgdir va pa offset sz flag s =
     (if offset < sz then
        do {
          (pte, s) \<leftarrow> get_pte pgdir va s;
          let s = set_word pte (pa OR flag OR PTE_P) s;
          let s = tlb_invalidate pgdir va s;
          page_map_loop pgdir (va + PAGE_SIZE) (pa + PAGE_SIZE) (offset + PAGE_SIZE) sz flag s
        }
      else Some s)"

declare page_map_loop.simps [code]

definition page_map :: "u32 \<Rightarrow> u32 \<Rightarrow> u32 \<Rightarrow> u32 \<Rightarrow> u32 \<Rightarrow> vm \<Rightarrow> vm option" where
  "page_map pgdir va pa sz flag s =
     page_map_loop pgdir (round_down_page va) (round_down_page pa) 0 sz flag s"

partial_function (option) page_unmap_loop :: "u32 \<Rightarrow> u32 \<Rightarrow> u32 \<Rightarrow> u32 \<Rightarrow> vm \<Rightarrow> vm option" where
  "page_unmap_loop pgdir va offset sz s =
     (if offset < sz then
        do {
          (pte, s) \<leftarrow> get_pte pgdir va s;
          let s = set_word pte 0 s;
          let s = tlb_invalidate pgdir va s;
          page_unmap_loop pgdir (va + PAGE_SIZE) (offset + PAGE_SIZE) sz s
        }
      else Some s)"

declare page_unmap_loop.simps [code]

definition page_unmap :: "u32 \<Rightarrow> u32 \<Rightarrow> u32 \<Rightarrow> vm \<Rightarrow> vm option" where
  "page_unmap pgdir va sz s = page_unmap_loop pgdir (round_down_page va) 0 sz s"

definition enable_paging :: "u32 \<Rightarrow> vm \<Rightarrow> vm" where
  "enable_paging new_cr3 s =
     (let s = s\<lparr>cr3 := new_cr3\<rparr>;
          c = cr0 s;
          c = c OR (CR0_PE OR CR0_PG OR CR0_AM OR CR0_WP OR CR0_NE OR CR0_TS OR CR0_EM OR CR0_MP);
          c = c AND NOT (CR0_TS OR CR0_EM)
      in s\<lparr>cr0 := c\<rparr>)"

text \<open>\<open>kernel_map\<close> and \<open>kernel_unmap\<close> of \<^verbatim>\<open>mm/memory.c\<close>; the directory of the current process is an argument.\<close>

definition kernel_map :: "u32 \<Rightarrow> u32 \<Rightarrow> u32 \<Rightarrow> u32 \<Rightarrow> u32 \<Rightarrow> vm \<Rightarrow> vm option" where
  "kernel_map pgdir va pa sz flag s = page_map pgdir va pa sz flag s"

definition kernel_unmap :: "u32 \<Rightarrow> u32 \<Rightarrow> u32 \<Rightarrow> vm \<Rightarrow> vm option" where
  "kernel_unmap pgdir va sz s = page_unmap pgdir va sz s"

section \<open>The walk of the processor\<close>

definition entry :: "nat \<Rightarrow> nat \<Rightarrow> u32" where
  "entry p i = page_to_virt p + of_nat (4 * i)"

definition tab :: "nat \<Rightarrow> vm \<Rightarrow> nat \<Rightarrow> nat option" where
  "tab pgd s i =
     (let e = wmem s (entry pgd i) in if e AND PDE_P = 0 then None else Some (phys_to_pfn e))"

definition pte_of :: "nat \<Rightarrow> vm \<Rightarrow> nat \<Rightarrow> u32" where
  "pte_of pgd s n =
     (case tab pgd s (n div 1024) of None \<Rightarrow> 0 | Some p \<Rightarrow> wmem s (entry p (n mod 1024)))"

definition translate :: "nat \<Rightarrow> vm \<Rightarrow> u32 \<Rightarrow> u32 option" where
  "translate pgd s va =
     (let e = pte_of pgd s (unat va div 4096)
      in if e AND PTE_P = 0 then None else Some (page_base e + page_offset va))"

definition pt_inv :: "pnode set \<Rightarrow> (pnode \<Rightarrow> nat list) \<Rightarrow> nat \<Rightarrow> vm \<Rightarrow> nat set \<Rightarrow> bool" where
  "pt_inv S sl pgd s A \<longleftrightarrow> page_ok S sl (vps s) A \<and> highmem_start_pfn (vps s) \<le> 2 ^ 18 \<and>
     pgd \<in> A \<and> pgd < 2 ^ 18 \<and>
     (\<forall>i < 1024. \<forall>p. tab pgd s i = Some p \<longrightarrow> p \<in> A \<and> p < 2 ^ 18) \<and>
     (\<forall>i < 1024. \<forall>j < 1024. \<forall>p. tab pgd s i = Some p \<and> tab pgd s j = Some p \<and> p \<noteq> pgd \<longrightarrow> i = j)"

lemma entry_inj:
  assumes "p < 2 ^ 18" "q < 2 ^ 18" "i < 1024" "j < 1024"
  shows "entry p i = entry q j \<longleftrightarrow> p = q \<and> i = j"
  using page_to_virt_inj [OF assms(1,2), of "4 * i" "4 * j"] assms(3,4) by (auto simp: entry_def)

lemma zero_page_apply:
  assumes "p < 2 ^ 18" "q < 2 ^ 18" "j < 1024"
  shows "zero_page (page_to_virt p) m (entry q j) = (if q = p then 0 else m (entry q j))"
proof -
  have f: "fold (\<lambda>i m. m(page_to_virt p + of_nat (4 * i) := (0 :: u32))) is m (entry q j)
      = (if q = p \<and> j \<in> set is then 0 else m (entry q j))" if "set is \<subseteq> {..<1024}" for "is" m
    using that
  proof (induction "is" arbitrary: m)
    case (Cons i "is")
    have "entry q j = page_to_virt p + of_nat (4 * i) \<longleftrightarrow> q = p \<and> j = i"
      using entry_inj [OF assms(2,1,3), of i] Cons.prems by (simp add: entry_def)
    then show ?case using Cons by auto
  qed simp
  show ?thesis unfolding zero_page_def by (subst f) (use assms(3) in auto)
qed

text \<open>An entry is a page address together with flags in the low 12 bits.\<close>

lemma flags_apart:
  fixes x f :: u32
  assumes "take_bit 12 x = 0" "take_bit 12 f = f"
  shows "page_base (x OR f) = x" "drop_bit 12 (x OR f) = drop_bit 12 x"
proof -
  have x: "12 \<le> n" if "bit x n" for n
    using arg_cong [OF assms(1), of "\<lambda>w. bit w n"] that by (simp add: bit_take_bit_iff)
  have f: "n < 12" if "bit f n" for n
    using arg_cong [OF assms(2), of "\<lambda>w. bit w n"] that by (simp add: bit_take_bit_iff)
  have m: "(0xfff :: u32) = mask 12" by (simp add: mask_eq_exp_minus_1)
  show "page_base (x OR f) = x"
    unfolding page_base_def m by (rule bit_word_eqI) (auto simp: bit_simps not_less dest: x f)
  show "drop_bit 12 (x OR f) = drop_bit 12 x"
    by (rule bit_word_eqI) (auto simp: bit_simps dest: f)
qed

lemma page_to_phys_low: "take_bit 12 (page_to_phys p) = 0"
proof -
  have "page_to_phys p = push_bit 12 (of_nat p)"
    by (simp add: page_to_phys_def page_to_pfn_def addr_consts push_bit_eq_mult mult.commute)
  then show ?thesis by (simp add: take_bit_push_bit)
qed

lemma phys_flags:
  assumes "p < TOTAL_PAGES"
  shows "page_base (page_to_phys p OR (PDE_P OR PDE_W) OR PDE_P) = page_to_phys p"
    "phys_to_pfn (page_to_phys p OR (PDE_P OR PDE_W) OR PDE_P) = p"
    "(page_to_phys p OR (PDE_P OR PDE_W) OR PDE_P) AND PDE_P \<noteq> 0"
proof -
  have e: "page_to_phys p OR (PDE_P OR PDE_W) OR PDE_P = page_to_phys p OR 3" by (simp add: addr_consts)
  have t: "take_bit 12 (3 :: u32) = 3" by simp
  note fa = flags_apart [OF page_to_phys_low t]
  show "page_base (page_to_phys p OR (PDE_P OR PDE_W) OR PDE_P) = page_to_phys p" unfolding e by (rule fa)
  have "phys_to_pfn (page_to_phys p OR 3) = phys_to_pfn (page_to_phys p)"
    using fa(2) by (simp add: phys_to_pfn_def addr_consts)
  also have "\<dots> = p" using unat_page_to_phys [OF assms] by (simp add: phys_to_pfn_eq)
  finally show "phys_to_pfn (page_to_phys p OR (PDE_P OR PDE_W) OR PDE_P) = p" unfolding e .
  have "bit ((page_to_phys p OR (PDE_P OR PDE_W) OR PDE_P) AND PDE_P) 0" by (simp add: addr_consts bit_simps)
  then show "(page_to_phys p OR (PDE_P OR PDE_W) OR PDE_P) AND PDE_P \<noteq> 0" by auto
qed

section \<open>Writing one entry\<close>

lemma index_eqs:
  "pde_index va = unat va div 4096 div 1024" "pte_index va = unat va div 4096 mod 1024"
  "pde_index va < 1024" "pte_index va < 1024"
proof -
  have m: "(0x3ff :: u32) = 2 ^ 10 - 1" by simp
  have b: "unat va < 2 ^ 32" by (rule unat_lt_u32)
  show d: "pde_index va = unat va div 4096 div 1024"
    unfolding pde_index_def m unat_and_mask unat_drop_bit_eq using b
    by (simp add: drop_bit_eq_div div_mult2_eq [symmetric])
  show e: "pte_index va = unat va div 4096 mod 1024"
    unfolding pte_index_def m unat_and_mask unat_drop_bit_eq by (simp add: drop_bit_eq_div)
  show "pde_index va < 1024" "pte_index va < 1024" using b unfolding d e by simp_all
qed

lemma tab_base:
  assumes "tab pgd s i = Some p"
  shows "phys_to_virt (page_base (wmem s (entry pgd i))) = page_to_virt p"
proof -
  let ?e = "wmem s (entry pgd i)"
  have p: "p = phys_to_pfn ?e" using assms by (auto simp: tab_def Let_def split: if_splits)
  have m: "(0xfff :: u32) = mask 12" by (simp add: mask_eq_exp_minus_1)
  have "page_to_phys p = push_bit 12 (drop_bit 12 ?e)"
    by (simp add: p page_to_phys_def page_to_pfn_def phys_to_pfn_def addr_consts push_bit_eq_mult mult.commute)
  also have "\<dots> = page_base ?e"
    unfolding page_base_def m by (rule bit_word_eqI) (auto simp: bit_simps)
  finally show ?thesis by (simp add: page_to_virt_def)
qed

lemma pt_invD:
  assumes "pt_inv S sl pgd s A"
  shows "page_ok S sl (vps s) A" "highmem_start_pfn (vps s) \<le> 2 ^ 18" "pgd \<in> A" "pgd < 2 ^ 18"
    "i < 1024 \<Longrightarrow> tab pgd s i = Some p \<Longrightarrow> p \<in> A \<and> p < 2 ^ 18"
    "i < 1024 \<Longrightarrow> j < 1024 \<Longrightarrow> tab pgd s i = Some p \<Longrightarrow> tab pgd s j = Some p \<Longrightarrow> p \<noteq> pgd \<Longrightarrow> i = j"
  using assms unfolding pt_inv_def by blast+

lemma pt_inv_cong:
  assumes "pt_inv S sl pgd s A" "vps t = vps s" "\<forall>k < 1024. tab pgd t k = tab pgd s k"
  shows "pt_inv S sl pgd t A"
  using assms unfolding pt_inv_def by (metis (no_types, lifting))

lemma write_entry:
  assumes I: "pt_inv S sl pgd s A" and i: "i < 1024" "tab pgd s i = Some p" "p \<noteq> pgd" and j: "j < 1024"
  shows "k < 1024 \<Longrightarrow> tab pgd (set_word (entry p j) v s) k = tab pgd s k"
    "n < 2 ^ 20 \<Longrightarrow> tab pgd s (n div 1024) \<noteq> Some pgd \<Longrightarrow>
      pte_of pgd (set_word (entry p j) v s) n = (if n = 1024 * i + j then v else pte_of pgd s n)"
proof -
  note D = pt_invD [OF I]
  have p: "p < 2 ^ 18" using D(5) [OF i(1,2)] by simp
  show T: "tab pgd (set_word (entry p j) v s) k = tab pgd s k" if "k < 1024" for k
    using entry_inj [OF D(4) p that j] i(3) by (simp add: tab_def set_word_def)
  assume n: "n < 2 ^ 20" "tab pgd s (n div 1024) \<noteq> Some pgd"
  have nd: "n div 1024 < 1024" "n mod 1024 < 1024" using n by (auto simp: less_mult_imp_div_less)
  show "pte_of pgd (set_word (entry p j) v s) n = (if n = 1024 * i + j then v else pte_of pgd s n)"
  proof (cases "tab pgd s (n div 1024)")
    case None
    then have "n \<noteq> 1024 * i + j" using i(2) j by auto
    then show ?thesis unfolding pte_of_def T [OF nd(1)] None by simp
  next
    case (Some q)
    have q: "q < 2 ^ 18" using D(5) [OF nd(1) Some] by simp
    have "entry q (n mod 1024) = entry p j \<longleftrightarrow> n = 1024 * i + j"
      unfolding entry_inj [OF q p nd(2) j]
    proof
      assume a: "q = p \<and> n mod 1024 = j"
      then have "n div 1024 = i" using D(6) [OF nd(1) i(1)] Some i(2,3) by simp
      then show "n = 1024 * i + j" using a by (metis mult_div_mod_eq)
    next
      assume "n = 1024 * i + j"
      then show "q = p \<and> n mod 1024 = j" using Some i(2) j by simp
    qed
    then show ?thesis unfolding pte_of_def T [OF nd(1)] Some by (simp add: set_word_def)
  qed
qed

lemma new_table:
  assumes I: "pt_inv S sl pgd s A" and i: "i < 1024" "tab pgd s i = None"
    and a: "alloc_pages GFP_NORMAL 0 (vps s) = Some (Some p, ps)"
  defines "t \<equiv> set_pde (entry pgd i) (page_to_phys p) (PDE_P OR PDE_W)
      (s\<lparr>vps := ps, wmem := zero_page (page_to_virt p) (wmem s)\<rparr>)"
  shows "pt_inv S sl pgd t (insert p A)" "tab pgd t i = Some p" "p \<notin> A"
    "k < 1024 \<Longrightarrow> k \<noteq> i \<Longrightarrow> tab pgd t k = tab pgd s k"
    "n < 2 ^ 20 \<Longrightarrow> tab pgd s (n div 1024) \<noteq> Some pgd \<Longrightarrow> pte_of pgd t n = pte_of pgd s n"
proof -
  note D = pt_invD [OF I]
  note P = page_ok_alloc [OF D(1) _ a]
  have z: "zone_of GFP_NORMAL = False" by (simp add: zone_of_def page_consts)
  have PI: "page_inv S sl (vps s) A" and Z: "zones_ok (vps s)" using D(1) by (simp_all add: page_ok_def)
  show pA: "p \<notin> A" using P(3) by simp
  have "p \<in> valid_pages (vps s)" using P(5) region_head [of p 0] by auto
  then have "p < highmem_start_pfn (vps s)" using Z P(6) z by (auto simp: zones_ok_def valid_pages_def)
  then have p: "p < 2 ^ 18" "p < TOTAL_PAGES" using D(2) by (simp_all add: page_consts)
  have h: "highmem_start_pfn ps = highmem_start_pfn (vps s)"
    using alloc_pages_correct [OF PI, of 0 GFP_NORMAL] a by auto
  have pg: "pgd \<noteq> p" using D(3) pA by auto
  have w: "wmem t (entry q j) = (if q = pgd \<and> j = i then page_to_phys p OR (PDE_P OR PDE_W) OR PDE_P
      else if q = p then 0 else wmem s (entry q j))" if "q < 2 ^ 18" "j < 1024" for q j
    using entry_inj [OF that(1) D(4) that(2) i(1)] zero_page_apply [OF p(1) that, of "wmem s"] pg
    by (auto simp: t_def set_pde_def)
  show ti: "tab pgd t i = Some p" using phys_flags [OF p(2)] by (simp add: tab_def w [OF D(4) i(1)] Let_def)
  show tk: "tab pgd t k = tab pgd s k" if "k < 1024" "k \<noteq> i" for k
    using that pg by (simp add: tab_def w [OF D(4)])
  have T: "tab pgd t k = (if k = i then Some p else tab pgd s k)" if "k < 1024" for k
    using that ti tk by simp
  show "pt_inv S sl pgd t (insert p A)"
    unfolding pt_inv_def
  proof (intro conjI allI impI)
    show "page_ok S sl (vps t) (insert p A)" using P(1) by (simp add: t_def set_pde_def)
    show "highmem_start_pfn (vps t) \<le> 2 ^ 18" using D(2) h by (simp add: t_def set_pde_def)
    fix x q assume "x < 1024" "tab pgd t x = Some q"
    then show "q \<in> insert p A" "q < 2 ^ 18" using T [of x] p(1) D(5) [of x q] by (auto split: if_splits)
  next
    fix x y q assume "x < 1024" "y < 1024" "tab pgd t x = Some q \<and> tab pgd t y = Some q \<and> q \<noteq> pgd"
    then show "x = y" using T [of x] T [of y] pA D(5) [of x q] D(5) [of y q] D(6) [of x y q] by (auto split: if_splits)
  qed (use D in auto)
  assume n: "n < 2 ^ 20" "tab pgd s (n div 1024) \<noteq> Some pgd"
  have nd: "n div 1024 < 1024" "n mod 1024 < 1024" using n by (auto simp: less_mult_imp_div_less)
  show "pte_of pgd t n = pte_of pgd s n"
  proof (cases "n div 1024 = i")
    case True
    then show ?thesis unfolding pte_of_def T [OF nd(1)] using i(2) w [OF p(1) nd(2)] pg by simp
  next
    case False
    have "wmem t (entry q (n mod 1024)) = wmem s (entry q (n mod 1024))" if "tab pgd s (n div 1024) = Some q" for q
      using w [OF _ nd(2), of q] D(5) [OF nd(1) that] pA that n(2) by auto
    then show ?thesis unfolding pte_of_def T [OF nd(1)] using False by (simp split: option.splits)
  qed
qed

text \<open>
  Getting the entry of a page and writing it, outside of the self-mapped slots: nothing changes but this
  entry, or a new table is needed and there is no linear page for it.
\<close>

lemma get_pte_write:
  assumes I: "pt_inv S sl pgd s A" and self: "tab pgd s (pde_index va) \<noteq> Some pgd"
  shows "(get_pte (page_to_virt pgd) va s = None \<and>
        (\<forall>k \<le> page_MAX_ORDER. list_empty (get_free_list GFP_NORMAL k) (plists (vps s)))) \<or>
    (\<exists>pte t A'. get_pte (page_to_virt pgd) va s = Some (pte, t) \<and> A \<subseteq> A' \<and> pt_inv S sl pgd (set_word pte v t) A' \<and>
       (\<forall>k < 1024. tab pgd (set_word pte v t) k = Some pgd \<longleftrightarrow> tab pgd s k = Some pgd) \<and>
       (\<forall>n < 2 ^ 20. tab pgd s (n div 1024) \<noteq> Some pgd \<longrightarrow>
          pte_of pgd (set_word pte v t) n = (if n = unat va div 4096 then v else pte_of pgd s n)))"
proof -
  define i j where "i = pde_index va" and "j = pte_index va"
  have ij: "i < 1024" "j < 1024" "unat va div 4096 = 1024 * i + j"
    using index_eqs [of va] unfolding i_def j_def by (simp_all only: mult_div_mod_eq)
  note D = pt_invD [OF I]
  have pgde: "page_to_virt pgd + of_nat (4 * i) = entry pgd i" by (simp add: entry_def)
  have fin: "\<exists>pte t A'. get_pte (page_to_virt pgd) va s = Some (pte, t) \<and> A \<subseteq> A' \<and>
       pt_inv S sl pgd (set_word pte v t) A' \<and>
       (\<forall>k < 1024. tab pgd (set_word pte v t) k = Some pgd \<longleftrightarrow> tab pgd s k = Some pgd) \<and>
       (\<forall>n < 2 ^ 20. tab pgd s (n div 1024) \<noteq> Some pgd \<longrightarrow>
          pte_of pgd (set_word pte v t) n = (if n = unat va div 4096 then v else pte_of pgd s n))"
    if g: "get_pte (page_to_virt pgd) va s = Some (entry p j, t)" and t: "pt_inv S sl pgd t A'" "A \<subseteq> A'"
      "tab pgd t i = Some p" "p \<noteq> pgd" "\<forall>k < 1024. tab pgd t k = Some pgd \<longleftrightarrow> tab pgd s k = Some pgd"
      "\<forall>n < 2 ^ 20. tab pgd s (n div 1024) \<noteq> Some pgd \<longrightarrow> pte_of pgd t n = pte_of pgd s n" for p t A'
  proof -
    let ?u = "set_word (entry p j) v t"
    note W = write_entry [OF t(1) ij(1) t(3,4) ij(2), of _ v]
    have "pt_inv S sl pgd ?u A'" by (rule pt_inv_cong [OF t(1)]) (use W(1) in \<open>simp_all add: set_word_def\<close>)
    moreover have "\<forall>k < 1024. tab pgd ?u k = Some pgd \<longleftrightarrow> tab pgd s k = Some pgd" using W(1) t(5) by simp
    moreover have "pte_of pgd ?u n = (if n = unat va div 4096 then v else pte_of pgd s n)"
      if n: "n < 2 ^ 20" "tab pgd s (n div 1024) \<noteq> Some pgd" for n
    proof -
      have "n div 1024 < 1024" using n by (simp add: less_mult_imp_div_less)
      then have "tab pgd t (n div 1024) \<noteq> Some pgd" using t(5) n(2) by blast
      then show ?thesis using W(2) [OF n(1)] t(6) n ij(3) by simp
    qed
    ultimately show ?thesis using g t(2) by blast
  qed
  show ?thesis
  proof (cases "tab pgd s i")
    case (Some p)
    then have "wmem s (entry pgd i) AND PTE_P \<noteq> 0" by (auto simp: tab_def Let_def addr_consts split: if_splits)
    then have "get_pte (page_to_virt pgd) va s = Some (entry p j, s)"
      using tab_base [OF Some]
      by (simp add: get_pte_def Let_def i_def [symmetric] j_def [symmetric] pgde [simplified]) (simp add: entry_def)
    then show ?thesis using fin [of p s A] I Some self by (simp add: i_def)
  next
    case None
    then have e: "wmem s (entry pgd i) AND PTE_P = 0" by (auto simp: tab_def Let_def addr_consts split: if_splits)
    have PI: "page_inv S sl (vps s) A" using D(1) by (simp add: page_ok_def)
    from alloc_pages_correct [OF PI le0, of GFP_NORMAL] show ?thesis
    proof (elim disjE exE conjE)
      assume "alloc_pages GFP_NORMAL 0 (vps s) = Some (None, vps s)"
        "\<forall>k. 0 \<le> k \<and> k \<le> page_MAX_ORDER \<longrightarrow> list_empty (get_free_list GFP_NORMAL k) (plists (vps s))"
      then show ?thesis using e
        by (simp add: get_pte_def Let_def i_def [symmetric] pgde [simplified])
    next
      fix p ps assume a: "alloc_pages GFP_NORMAL 0 (vps s) = Some (Some p, ps)"
      let ?t = "set_pde (entry pgd i) (page_to_phys p) (PDE_P OR PDE_W)
        (s\<lparr>vps := ps, wmem := zero_page (page_to_virt p) (wmem s)\<rparr>)"
      note N = new_table [OF I ij(1) None a]
      have g: "get_pte (page_to_virt pgd) va s = Some (entry p j, ?t)"
        using e a tab_base [OF N(2)]
        by (simp add: get_pte_def Let_def i_def [symmetric] j_def [symmetric] pgde [simplified] page_to_virt_def [symmetric])
           (simp add: entry_def)
      have ne: "p \<noteq> pgd" using N(3) D(3) by auto
      have "tab pgd ?t k = Some pgd \<longleftrightarrow> tab pgd s k = Some pgd" if "k < 1024" for k
        using N(2) N(4) [OF that] None ne by (cases "k = i") simp_all
      then show ?thesis
        by (intro disjI2 fin [OF g N(1) _ N(2) ne]) (use N(5) in auto)
    qed
  qed
qed

section \<open>Mapping a range\<close>

definition page_count :: "u32 \<Rightarrow> nat" where
  "page_count sz = (unat sz + 4095) div 4096"

lemma offset_less:
  assumes "4096 dvd unat off"
  shows "off < sz \<longleftrightarrow> page_count sz - unat off div 4096 \<noteq> 0"
proof -
  obtain q where "unat off = 4096 * q" using assms by (auto elim: dvdE)
  then show ?thesis by (auto simp: page_count_def word_less_nat_alt)
qed

lemma offset_step:
  assumes "unat sz \<le> 0xFFFFF000" "off < sz" "4096 dvd unat off"
  shows "unat (off + PAGE_SIZE) = unat off + 4096"
    "page_count sz - unat off div 4096 = Suc (page_count sz - unat (off + PAGE_SIZE) div 4096)"
proof -
  have lt: "unat off < unat sz" using assms(2) by (simp add: word_less_nat_alt)
  obtain q where q: "unat off = 4096 * q" using assms(3) by (auto elim: dvdE)
  show u: "unat (off + PAGE_SIZE) = unat off + 4096"
    unfolding addr_consts by (subst unat_add_lem [THEN iffD1]) (use lt q assms(1) in auto)
  show "page_count sz - unat off div 4096 = Suc (page_count sz - unat (off + PAGE_SIZE) div 4096)"
    using lt q unfolding u page_count_def by simp
qed

text \<open>What both loops do: write the values \<open>f 0\<close>, \<open>f 1\<close>, \dots to the entries of \<open>n\<close> consecutive pages.\<close>

fun write_range :: "nat \<Rightarrow> nat \<Rightarrow> u32 \<Rightarrow> (nat \<Rightarrow> u32) \<Rightarrow> vm \<Rightarrow> vm option" where
  "write_range pgd 0 va f s = Some s"
| "write_range pgd (Suc n) va f s =
     do {
       (pte, s) \<leftarrow> get_pte (page_to_virt pgd) va s;
       write_range pgd n (va + PAGE_SIZE) (\<lambda>k. f (Suc k))
         (tlb_invalidate (page_to_virt pgd) va (set_word pte (f 0) s))
     }"

lemma page_map_loop_range:
  assumes "unat sz \<le> 0xFFFFF000" "4096 dvd unat off" "n = page_count sz - unat off div 4096"
  shows "page_map_loop (page_to_virt pgd) va pa off sz flag s
    = write_range pgd n va (\<lambda>k. (pa + of_nat (4096 * k)) OR flag OR PTE_P) s"
  using assms(2,3)
proof (induction n arbitrary: va pa off s)
  case 0
  then have "\<not> off < sz" using offset_less by simp
  then show ?case by (simp add: page_map_loop.simps)
next
  case (Suc n)
  have lt: "off < sz" using Suc.prems offset_less by simp
  note st = offset_step [OF assms(1) lt Suc.prems(1)]
  have IH: "page_map_loop (page_to_virt pgd) (va + PAGE_SIZE) (pa + PAGE_SIZE) (off + PAGE_SIZE) sz flag t
      = write_range pgd n (va + PAGE_SIZE) (\<lambda>k. (pa + of_nat (4096 * Suc k)) OR flag OR PTE_P) t" for t
    using Suc.IH [of "off + PAGE_SIZE" "va + PAGE_SIZE" "pa + PAGE_SIZE" t] st Suc.prems
    by (simp add: addr_consts algebra_simps)
  show ?case using lt by (subst page_map_loop.simps) (simp add: IH Let_def del: of_nat_mult of_nat_Suc mult_Suc_right)
qed

lemma page_unmap_loop_range:
  assumes "unat sz \<le> 0xFFFFF000" "4096 dvd unat off" "n = page_count sz - unat off div 4096"
  shows "page_unmap_loop (page_to_virt pgd) va off sz s = write_range pgd n va (\<lambda>k. 0) s"
  using assms(2,3)
proof (induction n arbitrary: va off s)
  case 0
  then have "\<not> off < sz" using offset_less by simp
  then show ?case by (simp add: page_unmap_loop.simps)
next
  case (Suc n)
  have lt: "off < sz" using Suc.prems offset_less by simp
  note st = offset_step [OF assms(1) lt Suc.prems(1)]
  show ?case using lt Suc.IH [of "off + PAGE_SIZE"] st Suc.prems
    by (subst page_unmap_loop.simps) (simp add: Let_def)
qed

lemma tlb_invalidate_frame [simp]:
  "vps (tlb_invalidate pgdir va s) = vps s" "wmem (tlb_invalidate pgdir va s) = wmem s"
  "tab pgd (tlb_invalidate pgdir va s) = tab pgd s" "pte_of pgd (tlb_invalidate pgdir va s) = pte_of pgd s"
  by (auto simp: tlb_invalidate_def tab_def pte_of_def fun_eq_iff split: option.splits)

lemma pt_inv_tlb [simp]: "pt_inv S sl pgd (tlb_invalidate pgdir va s) A = pt_inv S sl pgd s A"
  by (simp add: pt_inv_def)

text \<open>The pages of a directory slot that maps the directory itself are left out.\<close>

definition self_mapped :: "nat \<Rightarrow> vm \<Rightarrow> nat \<Rightarrow> bool" where
  "self_mapped pgd s n \<longleftrightarrow> tab pgd s (n div 1024) = Some pgd"

definition ranged :: "pnode set \<Rightarrow> (pnode \<Rightarrow> nat list) \<Rightarrow> nat \<Rightarrow> nat \<Rightarrow> nat \<Rightarrow> (nat \<Rightarrow> u32) \<Rightarrow> vm \<Rightarrow> nat set \<Rightarrow> vm \<Rightarrow> bool" where
  "ranged S sl pgd a n f s A t \<longleftrightarrow> (\<exists>A'. A \<subseteq> A' \<and> pt_inv S sl pgd t A') \<and>
     (\<forall>q < 2 ^ 20. self_mapped pgd t q = self_mapped pgd s q \<and>
        (\<not> self_mapped pgd s q \<longrightarrow> pte_of pgd t q = (if a \<le> q \<and> q < a + n then f (q - a) else pte_of pgd s q)))"

lemma write_range_correct:
  assumes "pt_inv S sl pgd s A" "n = 0 \<or> unat va = 4096 * a" "a + n \<le> 2 ^ 20"
    and "\<forall>q. a \<le> q \<and> q < a + n \<longrightarrow> \<not> self_mapped pgd s q"
  shows "case write_range pgd n va f s of
      None \<Rightarrow> \<exists>m < n. \<exists>t. write_range pgd m va f s = Some t \<and>
        (\<forall>k \<le> page_MAX_ORDER. list_empty (get_free_list GFP_NORMAL k) (plists (vps t)))
    | Some t \<Rightarrow> ranged S sl pgd a n f s A t"
  using assms
proof (induction n arbitrary: s A va a f)
  case 0
  then show ?case by (auto simp: ranged_def)
next
  case (Suc n)
  have va: "unat va = 4096 * a" using Suc.prems(2) by simp
  have i: "pde_index va = a div 1024" using index_eqs(1) [of va] va by simp
  have self: "tab pgd s (pde_index va) \<noteq> Some pgd" using Suc.prems(4) by (simp add: self_mapped_def i)
  from get_pte_write [OF Suc.prems(1) self, of "f 0"] show ?case
  proof (elim disjE exE conjE)
    assume "get_pte (page_to_virt pgd) va s = None"
      "\<forall>k \<le> page_MAX_ORDER. list_empty (get_free_list GFP_NORMAL k) (plists (vps s))"
    then show ?thesis by (auto intro!: exI [of _ 0])
  next
    fix pte t A'
    let ?u = "tlb_invalidate (page_to_virt pgd) va (set_word pte (f 0) t)"
    assume g: "get_pte (page_to_virt pgd) va s = Some (pte, t)" and A: "A \<subseteq> A'"
      and I: "pt_inv S sl pgd (set_word pte (f 0) t) A'"
      and sm: "\<forall>k < 1024. tab pgd (set_word pte (f 0) t) k = Some pgd \<longleftrightarrow> tab pgd s k = Some pgd"
      and pt: "\<forall>q < 2 ^ 20. tab pgd s (q div 1024) \<noteq> Some pgd \<longrightarrow>
          pte_of pgd (set_word pte (f 0) t) q = (if q = unat va div 4096 then f 0 else pte_of pgd s q)"
    have S: "self_mapped pgd ?u q = self_mapped pgd s q" if "q < 2 ^ 20" for q
      using sm that by (simp add: self_mapped_def less_mult_imp_div_less)
    have va': "n = 0 \<or> unat (va + PAGE_SIZE) = 4096 * Suc a"
    proof (cases n)
      case (Suc m)
      have "unat (va + PAGE_SIZE) = unat va + 4096"
        unfolding addr_consts by (subst unat_add_lem [THEN iffD1]) (use va Suc Suc.prems(3) in auto)
      then show ?thesis using va by simp
    qed simp
    have IH: "case write_range pgd n (va + PAGE_SIZE) (\<lambda>k. f (Suc k)) ?u of
      None \<Rightarrow> \<exists>m < n. \<exists>t. write_range pgd m (va + PAGE_SIZE) (\<lambda>k. f (Suc k)) ?u = Some t \<and>
        (\<forall>k \<le> page_MAX_ORDER. list_empty (get_free_list GFP_NORMAL k) (plists (vps t)))
    | Some t \<Rightarrow> ranged S sl pgd (Suc a) n (\<lambda>k. f (Suc k)) ?u A' t"
      by (rule Suc.IH) (use I va' Suc.prems(3,4) S in auto)
    show ?thesis
    proof (cases "write_range pgd n (va + PAGE_SIZE) (\<lambda>k. f (Suc k)) ?u")
      case None
      then obtain m x where "m < n" "write_range pgd m (va + PAGE_SIZE) (\<lambda>k. f (Suc k)) ?u = Some x"
        "\<forall>k \<le> page_MAX_ORDER. list_empty (get_free_list GFP_NORMAL k) (plists (vps x))"
        using IH by auto
      then show ?thesis using None g by (auto intro!: exI [of _ "Suc m"])
    next
      case (Some w)
      have R: "ranged S sl pgd (Suc a) n (\<lambda>k. f (Suc k)) ?u A' w"
        using Some IH by simp
      have "pte_of pgd w q = (if a \<le> q \<and> q < a + Suc n then f (q - a) else pte_of pgd s q)"
        if "q < 2 ^ 20" "\<not> self_mapped pgd s q" for q
      proof -
        have "pte_of pgd w q = (if Suc a \<le> q \<and> q < Suc a + n then f (Suc (q - Suc a)) else pte_of pgd ?u q)"
          using R that S unfolding ranged_def by blast
        moreover have "pte_of pgd ?u q = (if q = a then f 0 else pte_of pgd s q)"
          using pt that va by (simp add: self_mapped_def)
        ultimately show ?thesis by (auto simp: Suc_diff_Suc)
      qed
      then have "ranged S sl pgd a (Suc n) f s A w"
        using R S A unfolding ranged_def by (meson order_trans)
      then show ?thesis using Some g by simp
    qed
  qed
qed

section \<open>Ranges as the operations see them\<close>

lemma round_down_page_eq: "round_down_page x = of_nat (4096 * (unat x div 4096))"
proof -
  have "unat (round_down_page x) = unat x - unat x mod 4096"
    unfolding round_down_page_def unat_round_down by (simp add: addr_consts)
  also have "\<dots> = 4096 * (unat x div 4096)" by (simp add: minus_mod_eq_mult_div)
  finally have "unat (round_down_page x) = 4096 * (unat x div 4096)" .
  then have "of_nat (unat (round_down_page x)) = (of_nat (4096 * (unat x div 4096)) :: u32)" by simp
  then show ?thesis by simp
qed

lemma unat_round_down_page: "unat (round_down_page x) = 4096 * (unat x div 4096)"
proof -
  have "4096 * (unat x div 4096) < 2 ^ 32" using unat_lt_u32 [of x] by (meson le_less_trans times_div_less_eq_dividend)
  then show ?thesis unfolding round_down_page_eq by (rule unat_of_nat_u32)
qed

lemma mapped_entry:
  assumes "take_bit 12 flag = flag" and e_def: "e = (round_down_page pa + of_nat (4096 * k)) OR flag OR PTE_P"
  shows "page_base e = round_down_page pa + of_nat (4096 * k)" "e AND PTE_P \<noteq> 0"
proof -
  have "round_down_page pa + of_nat (4096 * k) = (push_bit 12 (of_nat (unat pa div 4096 + k)) :: u32)"
    unfolding round_down_page_eq by (simp add: push_bit_eq_mult algebra_simps)
  then have x: "take_bit 12 (round_down_page pa + of_nat (4096 * k)) = 0" by (simp add: take_bit_push_bit)
  have f: "take_bit 12 (flag OR PTE_P) = flag OR PTE_P" using assms(1) by (simp add: addr_consts)
  show "page_base e = round_down_page pa + of_nat (4096 * k)"
    unfolding e_def by (rule flags_apart [OF x f])
  have "bit (e AND PTE_P) 0" by (simp add: e_def addr_consts bit_simps)
  then show "e AND PTE_P \<noteq> 0" by auto
qed

lemma page_count_multiple: "4096 * m < 2 ^ 32 \<Longrightarrow> page_count (of_nat (4096 * m)) = m"
  using unat_of_nat_u32 [of "4096 * m"] by (simp add: page_count_def)

lemma page_map_eq:
  assumes "unat sz \<le> 0xFFFFF000"
  shows "page_map (page_to_virt pgd) va pa sz flag s = write_range pgd (page_count sz) (round_down_page va)
      (\<lambda>k. (round_down_page pa + of_nat (4096 * k)) OR flag OR PTE_P) s"
    "page_unmap (page_to_virt pgd) va sz s = write_range pgd (page_count sz) (round_down_page va) (\<lambda>k. 0) s"
  unfolding page_map_def page_unmap_def
  using page_map_loop_range [OF assms, of 0] page_unmap_loop_range [OF assms, of 0] by simp_all

lemma page_map_partial:
  assumes "unat sz \<le> 0xFFFFF000" "m < page_count sz"
  shows "page_map (page_to_virt pgd) va pa (of_nat (4096 * m)) flag s = write_range pgd m (round_down_page va)
      (\<lambda>k. (round_down_page pa + of_nat (4096 * k)) OR flag OR PTE_P) s"
    "page_unmap (page_to_virt pgd) va (of_nat (4096 * m)) s = write_range pgd m (round_down_page va) (\<lambda>k. 0) s"
    "4096 * m < unat sz"
proof -
  show lt: "4096 * m < unat sz" using assms(2) by (simp add: page_count_def)
  then have "unat (of_nat (4096 * m) :: u32) = 4096 * m" using unat_lt_u32 [of sz] by (intro unat_of_nat_u32) simp
  then show "page_map (page_to_virt pgd) va pa (of_nat (4096 * m)) flag s = write_range pgd m (round_down_page va)
      (\<lambda>k. (round_down_page pa + of_nat (4096 * k)) OR flag OR PTE_P) s"
    "page_unmap (page_to_virt pgd) va (of_nat (4096 * m)) s = write_range pgd m (round_down_page va) (\<lambda>k. 0) s"
    using page_map_eq [of "of_nat (4096 * m)"] page_count_multiple [of m] lt assms(1) by simp_all
qed

text \<open>
  The tables of \<open>n\<close> pages from \<open>va\<close> on are present and are not the directory itself, as for the pages of the
  linear map: then no page is needed and only the length of the loop matters.
\<close>

definition tables_present :: "nat \<Rightarrow> vm \<Rightarrow> u32 \<Rightarrow> nat \<Rightarrow> bool" where
  "tables_present pgd s va n \<longleftrightarrow> pgd < 2 ^ 18 \<and>
     (\<forall>k < n. \<exists>p. tab pgd s (pde_index (va + of_nat (4096 * k))) = Some p \<and> p \<noteq> pgd \<and> p < 2 ^ 18)"

lemma get_pte_present:
  assumes "tab pgd s (pde_index va) = Some p"
  shows "get_pte (page_to_virt pgd) va s = Some (entry p (pte_index va), s)"
proof -
  have "wmem s (entry pgd (pde_index va)) AND PTE_P \<noteq> 0"
    using assms by (auto simp: tab_def Let_def addr_consts split: if_splits)
  then show ?thesis
    using tab_base [OF assms] by (simp add: get_pte_def Let_def entry_def)
qed

lemma write_range_present:
  assumes "tables_present pgd s va n"
  shows "\<exists>t. write_range pgd n va f s = Some t"
  using assms
proof (induction n arbitrary: va f s)
  case (Suc n)
  have g: "pgd < 2 ^ 18" using Suc.prems by (simp add: tables_present_def)
  have T: "\<exists>p. tab pgd s (pde_index (va + of_nat (4096 * k))) = Some p \<and> p \<noteq> pgd \<and> p < 2 ^ 18" if "k < Suc n" for k
    using Suc.prems that unfolding tables_present_def by blast
  obtain p where p: "tab pgd s (pde_index va) = Some p" "p \<noteq> pgd" "p < 2 ^ 18" using T [of 0] by auto
  let ?u = "tlb_invalidate (page_to_virt pgd) va (set_word (entry p (pte_index va)) (f 0) s)"
  have w: "tab pgd ?u k = tab pgd s k" if "k < 1024" for k
    using entry_inj [OF g p(3) that index_eqs(4)] p(2) by (auto simp: tab_def set_word_def)
  have "va + PAGE_SIZE + of_nat (4096 * k) = va + of_nat (4096 * Suc k)" for k by (simp add: addr_consts)
  then have "tables_present pgd ?u (va + PAGE_SIZE) n"
    unfolding tables_present_def w [OF index_eqs(3)] using T g by (metis Suc_less_eq)
  from Suc.IH [OF this, of "\<lambda>k. f (Suc k)"] show ?case
    using get_pte_present [OF p(1)] by simp
qed simp

text \<open>The offset never leaves the multiples of 4096, so it cannot pass a size above the last of them.\<close>

lemma page_map_loop_size:
  assumes r: "page_map_loop pgdir va pa off sz flag s = Some t" and "4096 dvd unat off"
  shows "unat sz \<le> 0xFFFFF000"
proof -
  have step: "4096 dvd unat (off + PAGE_SIZE)" if "4096 dvd unat off" for off :: u32
    using that by (simp add: addr_consts unat_word_ariths dvd_mod)
  have "4096 dvd unat off \<longrightarrow> unat sz \<le> 0xFFFFF000"
  proof (rule page_map_loop.raw_induct
      [where P = "\<lambda>pgdir va pa off sz flag s t. 4096 dvd unat off \<longrightarrow> unat sz \<le> 0xFFFFF000", OF _ r])
    fix f :: "u32 \<Rightarrow> u32 \<Rightarrow> u32 \<Rightarrow> u32 \<Rightarrow> u32 \<Rightarrow> u32 \<Rightarrow> vm \<Rightarrow> vm option"
    fix pgdir va pa off sz flag s t
    assume IH: "\<And>pgdir va pa off sz flag s t. f pgdir va pa off sz flag s = Some t \<Longrightarrow>
        4096 dvd unat off \<longrightarrow> unat sz \<le> 0xFFFFF000"
      and b: "(if off < sz then
        do {
          (pte, s) \<leftarrow> get_pte pgdir va s;
          let s = set_word pte (pa OR flag OR PTE_P) s;
          let s = tlb_invalidate pgdir va s;
          f pgdir (va + PAGE_SIZE) (pa + PAGE_SIZE) (off + PAGE_SIZE) sz flag s
        }
      else Some s) = Some t"
    show "4096 dvd unat off \<longrightarrow> unat sz \<le> 0xFFFFF000"
    proof
      assume d: "4096 dvd unat off"
      show "unat sz \<le> 0xFFFFF000"
      proof (cases "off < sz")
        case True
        then obtain va' pa' s' where "f pgdir va' pa' (off + PAGE_SIZE) sz flag s' = Some t"
          using b by (auto simp: Let_def split: Option.bind_splits)
        then show ?thesis using IH step [OF d] by blast
      next
        case False
        then have "unat sz \<le> unat off" by (simp add: word_less_nat_alt)
        moreover obtain q where "unat off = 4096 * q" using d by (auto elim: dvdE)
        moreover have "unat off < 2 ^ 32" by (rule unat_lt_u32)
        ultimately show ?thesis by simp
      qed
    qed
  qed
  then show ?thesis using assms(2) by simp
qed

section \<open>Concrete states\<close>

definition fresh_vm :: "u32 \<Rightarrow> pstate \<Rightarrow> vm" where
  "fresh_vm w ps = \<lparr>vps = ps, wmem = (\<lambda>_. w), cr0 = 0, cr3 = 0, invalidated = []\<rparr>"

lemma fresh_vm_simps [simp]: "vps (fresh_vm w ps) = ps" "wmem (fresh_vm w ps) = (\<lambda>_. w)"
  by (simp_all add: fresh_vm_def)

lemma fresh_vm_tab: "tab pgd (fresh_vm 0 ps) i = None" "tab pgd (fresh_vm 0x5003 ps) i = Some 5"
  by (simp_all add: tab_def Let_def addr_consts phys_to_pfn_eq)

lemma boot_4:
  "\<exists>ps. add_free_pages 0 4 (page_init (page_bss 1024)) = Some ps \<and> page_ok {} (\<lambda>_. []) ps {} \<and>
    highmem_start_pfn ps = 1024 \<and> valid_pages ps = {0 ..< 4}"
proof -
  have "page_ok {} (\<lambda>_. []) (page_init (page_bss 1024)) {}" by (rule page_init_ok) (simp add: page_consts)
  moreover have "valid_pages (page_init (page_bss 1024)) = {}" by (rule page_init_ok) (simp add: page_consts)
  moreover have "highmem_start_pfn (page_init (page_bss 1024)) = 1024"
    unfolding page_init_def Let_def fold_page_init fold_two by (simp add: page_bss_def on_plists_def)
  ultimately show ?thesis
    using add_free_pages_ok [of "{}" "\<lambda>_. []" "page_init (page_bss 1024)" "{}" 0 4] by (auto simp: page_consts)
qed

lemma pt_boot:
  "\<exists>ps p qs. add_free_pages 0 4 (page_init (page_bss 1024)) = Some ps \<and> alloc_pages GFP_NORMAL 0 ps = Some (Some p, qs) \<and>
    pt_inv {} (\<lambda>_. []) p (fresh_vm 0 qs) {p} \<and>
    (\<exists>k \<le> page_MAX_ORDER. \<not> list_empty (get_free_list GFP_NORMAL k) (plists qs))"
proof -
  obtain ps where ps: "add_free_pages 0 4 (page_init (page_bss 1024)) = Some ps" "page_ok {} (\<lambda>_. []) ps {}"
      "highmem_start_pfn ps = 1024" "valid_pages ps = {0 ..< 4}"
    using boot_4 by blast
  have PI: "page_inv {} (\<lambda>_. []) ps {}" using ps(2) by (simp add: page_ok_def)
  have "\<exists>k \<le> page_MAX_ORDER. \<not> list_empty (get_free_list GFP_NORMAL k) (plists ps)"
    using linear_page_left [OF ps(2), of 0] ps(3,4) by (auto simp: cover_def)
  then obtain p qs where a: "alloc_pages GFP_NORMAL 0 ps = Some (Some p, qs)"
      "valid_pages qs = valid_pages ps" "highmem_start_pfn qs = highmem_start_pfn ps"
    using alloc_pages_correct [OF PI le0, of GFP_NORMAL] by auto
  note P = page_ok_alloc [OF ps(2) le0 a(1)]
  have p4: "p < 4" using P(5) ps(4) region_head [of p 0] by auto
  have c: "cover (pord qs) {p} = {p}" using P(2) by (auto simp: cover_def region_def)
  define x :: nat where "x = (if p = 0 then 1 else 0)"
  have "x \<in> valid_pages qs" "x \<notin> cover (pord qs) {p}" using a(2) ps(4) by (auto simp: c x_def)
  then have "\<exists>k \<le> page_MAX_ORDER. \<not> list_empty (get_free_list GFP_NORMAL k) (plists qs)"
    using linear_page_left [OF P(1), of x] a(2,3) ps(3,4) by auto
  moreover have "pt_inv {} (\<lambda>_. []) p (fresh_vm 0 qs) {p}"
    using P(1) a(3) ps(3) p4 by (simp add: pt_inv_def fresh_vm_tab)
  ultimately show ?thesis using ps(1) a(1) by blast
qed

section \<open>Properties\<close>

text \<open>
  C5: \<open>page_map\<close> of a range inside the address space, of at most \<open>0xFFFFF000\<close> bytes and away from the self-mapped
  slot.  It returns, the entry of every page of the range holds the corresponding physical page with exactly the
  given flags and the present bit, so that the processor translates every address of the range to the corresponding
  physical address, every other entry and translation is as before, and the tables stay well formed; or it fails
  because, after the first \<open>m\<close> pages were mapped, a new table is needed and no linear page is left.
\<close>

theorem page_map_spec:
  assumes "pt_inv S sl pgd s A" "unat sz \<le> 0xFFFFF000" "take_bit 12 flag = flag"
    and "unat va div 4096 + page_count sz \<le> 2 ^ 20"
    and "\<forall>q. unat va div 4096 \<le> q \<and> q < unat va div 4096 + page_count sz \<longrightarrow> \<not> self_mapped pgd s q"
  shows "case page_map (page_to_virt pgd) va pa sz flag s of
      None \<Rightarrow> \<exists>m t. 4096 * m < unat sz \<and> page_map (page_to_virt pgd) va pa (of_nat (4096 * m)) flag s = Some t \<and>
        (\<forall>k \<le> page_MAX_ORDER. list_empty (get_free_list GFP_NORMAL k) (plists (vps t)))
    | Some t \<Rightarrow> (\<exists>A'. A \<subseteq> A' \<and> pt_inv S sl pgd t A') \<and>
        (\<forall>x. \<not> self_mapped pgd s (unat x div 4096) \<longrightarrow>
          (if unat va div 4096 \<le> unat x div 4096 \<and> unat x div 4096 < unat va div 4096 + page_count sz
           then pte_of pgd t (unat x div 4096) =
               (round_down_page pa + of_nat (4096 * (unat x div 4096 - unat va div 4096))) OR flag OR PTE_P \<and>
             translate pgd t x =
               Some (round_down_page pa + of_nat (4096 * (unat x div 4096 - unat va div 4096)) + page_offset x)
           else pte_of pgd t (unat x div 4096) = pte_of pgd s (unat x div 4096) \<and> translate pgd t x = translate pgd s x))"
proof -
  let ?f = "\<lambda>k. (round_down_page pa + of_nat (4096 * k)) OR flag OR PTE_P"
  note W = write_range_correct [OF assms(1) _ assms(4,5), of "round_down_page va" ?f]
  show ?thesis
  proof (cases "write_range pgd (page_count sz) (round_down_page va) ?f s")
    case None
    then obtain m t where "m < page_count sz" "write_range pgd m (round_down_page va) ?f s = Some t"
      "\<forall>k \<le> page_MAX_ORDER. list_empty (get_free_list GFP_NORMAL k) (plists (vps t))"
      using W unat_round_down_page [of va] by auto
    then show ?thesis
      unfolding page_map_eq(1) [OF assms(2)] None option.case
      using page_map_partial(1,3) [OF assms(2)] by (intro exI [of _ m] exI [of _ t]) simp
  next
    case (Some t)
    then have R: "ranged S sl pgd (unat va div 4096) (page_count sz) ?f s A t"
      using W unat_round_down_page [of va] by simp
    have "if unat va div 4096 \<le> unat x div 4096 \<and> unat x div 4096 < unat va div 4096 + page_count sz
           then pte_of pgd t (unat x div 4096) = ?f (unat x div 4096 - unat va div 4096) \<and>
             translate pgd t x =
               Some (round_down_page pa + of_nat (4096 * (unat x div 4096 - unat va div 4096)) + page_offset x)
           else pte_of pgd t (unat x div 4096) = pte_of pgd s (unat x div 4096) \<and> translate pgd t x = translate pgd s x"
      if "\<not> self_mapped pgd s (unat x div 4096)" for x
    proof -
      let ?q = "unat x div 4096"
      have "?q < 2 ^ 20" using unat_lt_u32 [of x] by (simp add: less_mult_imp_div_less)
      then have "pte_of pgd t ?q = (if unat va div 4096 \<le> ?q \<and> ?q < unat va div 4096 + page_count sz
          then ?f (?q - unat va div 4096) else pte_of pgd s ?q)"
        using R that by (auto simp: ranged_def)
      then show ?thesis using mapped_entry [OF assms(3) refl, of pa "?q - unat va div 4096"]
        by (simp add: translate_def Let_def del: of_nat_mult of_nat_diff)
    qed
    then show ?thesis unfolding page_map_eq(1) [OF assms(2)] Some option.case using R unfolding ranged_def by blast
  qed
qed

theorem page_map_spec_witness:
  "\<exists>ps p qs t. add_free_pages 0 4 (page_init (page_bss 1024)) = Some ps \<and> alloc_pages GFP_NORMAL 0 ps = Some (Some p, qs) \<and>
    page_map (page_to_virt p) 0x00401000 0x00002000 4096 PTE_W (fresh_vm 0 qs) = Some t \<and>
    translate p t 0x00401234 = Some 0x2234 \<and> pte_of p t 0x401 = 0x2003 \<and> translate p t 0x00402234 = None"
proof -
  obtain ps p qs k where b: "add_free_pages 0 4 (page_init (page_bss 1024)) = Some ps"
    "alloc_pages GFP_NORMAL 0 ps = Some (Some p, qs)" "pt_inv {} (\<lambda>_. []) p (fresh_vm 0 qs) {p}"
    "k \<le> page_MAX_ORDER" "\<not> list_empty (get_free_list GFP_NORMAL k) (plists qs)"
    using pt_boot by blast
  have tr: "translate p (fresh_vm 0 qs) 0x00402234 = None" by (simp add: translate_def pte_of_def fresh_vm_tab Let_def)
  have z: "page_map (page_to_virt p) 0x00401000 0x00002000 0 PTE_W (fresh_vm 0 qs) = Some (fresh_vm 0 qs)"
    by (simp add: page_map_def page_map_loop.simps)
  have w: "take_bit 12 PTE_W = PTE_W" by (simp add: PTE_W_def)
  note sp = page_map_spec [OF b(3) _ w, of 4096 "0x00401000" "0x00002000", simplified page_count_def self_mapped_def fresh_vm_tab, simplified]
  have r: "round_down_page 0x2000 = 0x2000" by (simp add: round_down_page_eq)
  have "page_map (page_to_virt p) 0x00401000 0x00002000 4096 PTE_W (fresh_vm 0 qs) \<noteq> None"
    using sp b(4,5) z by (cases "page_map (page_to_virt p) 0x00401000 0x00002000 4096 PTE_W (fresh_vm 0 qs)") auto
  then obtain t where t: "page_map (page_to_virt p) 0x00401000 0x00002000 4096 PTE_W (fresh_vm 0 qs) = Some t" by blast
  have "translate p t 0x00401234 = Some 0x2234" "pte_of p t 0x401 = 0x2003" "translate p t 0x00402234 = None"
    using sp t tr by (auto simp: r page_offset_def addr_consts dest: spec [of _ "0x00401234"] spec [of _ "0x00402234"])
  then show ?thesis using b(1,2) t by blast
qed

text \<open>
  \<open>page_unmap\<close> under the same conditions: afterwards no address of the range is translated and all
  others are as before.  It can fail for lack of a page, since it creates the tables it then clears.
\<close>

theorem page_unmap_spec:
  assumes "pt_inv S sl pgd s A" "unat sz \<le> 0xFFFFF000"
    and "unat va div 4096 + page_count sz \<le> 2 ^ 20"
    and "\<forall>q. unat va div 4096 \<le> q \<and> q < unat va div 4096 + page_count sz \<longrightarrow> \<not> self_mapped pgd s q"
  shows "case page_unmap (page_to_virt pgd) va sz s of
      None \<Rightarrow> \<exists>m t. 4096 * m < unat sz \<and> page_unmap (page_to_virt pgd) va (of_nat (4096 * m)) s = Some t \<and>
        (\<forall>k \<le> page_MAX_ORDER. list_empty (get_free_list GFP_NORMAL k) (plists (vps t)))
    | Some t \<Rightarrow> (\<exists>A'. A \<subseteq> A' \<and> pt_inv S sl pgd t A') \<and>
        (\<forall>x. \<not> self_mapped pgd s (unat x div 4096) \<longrightarrow>
          translate pgd t x =
            (if unat va div 4096 \<le> unat x div 4096 \<and> unat x div 4096 < unat va div 4096 + page_count sz
             then None else translate pgd s x))"
proof -
  note W = write_range_correct [OF assms(1) _ assms(3,4), of "round_down_page va" "\<lambda>_. 0"]
  show ?thesis
  proof (cases "write_range pgd (page_count sz) (round_down_page va) (\<lambda>_. 0) s")
    case None
    then obtain m t where "m < page_count sz" "write_range pgd m (round_down_page va) (\<lambda>_. 0) s = Some t"
      "\<forall>k \<le> page_MAX_ORDER. list_empty (get_free_list GFP_NORMAL k) (plists (vps t))"
      using W unat_round_down_page [of va] by auto
    then show ?thesis
      unfolding page_map_eq(2) [OF assms(2)] None option.case
      using page_map_partial(2,3) [OF assms(2)] by (intro exI [of _ m] exI [of _ t]) simp
  next
    case (Some t)
    then have R: "ranged S sl pgd (unat va div 4096) (page_count sz) (\<lambda>_. 0) s A t"
      using W unat_round_down_page [of va] by simp
    have "unat x div 4096 < 2 ^ 20" for x :: u32 using unat_lt_u32 [of x] by (simp add: less_mult_imp_div_less)
    then show ?thesis
      unfolding page_map_eq(2) [OF assms(2)] Some option.case using R by (auto simp: ranged_def translate_def Let_def)
  qed
qed

theorem page_unmap_spec_witness:
  "\<exists>ps p qs t. add_free_pages 0 4 (page_init (page_bss 1024)) = Some ps \<and> alloc_pages GFP_NORMAL 0 ps = Some (Some p, qs) \<and>
    page_unmap (page_to_virt p) 0x00401000 4096 (fresh_vm 0 qs) = Some t \<and> translate p t 0x00401234 = None"
proof -
  obtain ps p qs k where b: "add_free_pages 0 4 (page_init (page_bss 1024)) = Some ps"
    "alloc_pages GFP_NORMAL 0 ps = Some (Some p, qs)" "pt_inv {} (\<lambda>_. []) p (fresh_vm 0 qs) {p}"
    "k \<le> page_MAX_ORDER" "\<not> list_empty (get_free_list GFP_NORMAL k) (plists qs)"
    using pt_boot by blast
  have z: "page_unmap (page_to_virt p) 0x00401000 0 (fresh_vm 0 qs) = Some (fresh_vm 0 qs)"
    by (simp add: page_unmap_def page_unmap_loop.simps)
  note sp = page_unmap_spec [OF b(3), of 4096 "0x00401000", simplified page_count_def self_mapped_def fresh_vm_tab, simplified]
  have "page_unmap (page_to_virt p) 0x00401000 4096 (fresh_vm 0 qs) \<noteq> None"
    using sp b(4,5) z by (cases "page_unmap (page_to_virt p) 0x00401000 4096 (fresh_vm 0 qs)") auto
  then obtain t where t: "page_unmap (page_to_virt p) 0x00401000 4096 (fresh_vm 0 qs) = Some t" by blast
  have "translate p t 0x00401234 = None"
    using sp t by auto
  then show ?thesis using b(1,2) t by blast
qed

text \<open>A directory like the one of the kernel: slot 0 is empty, slot 1003 maps the directory, all others one table.\<close>

definition kernel_like_vm :: vm where
  "kernel_like_vm = (fresh_vm 0x5003 (page_bss 1024))
     \<lparr>wmem := (\<lambda>_. 0x5003)(entry 1 0 := 0, entry 1 1003 := 0x1003)\<rparr>"

lemma kernel_like_tab:
  "i < 1024 \<Longrightarrow> tab 1 kernel_like_vm i = (if i = 0 then None else if i = 1003 then Some 1 else Some 5)"
  using entry_inj [of 1 1 i 0] entry_inj [of 1 1 i 1003] entry_inj [of 1 1 1003 0]
  by (auto simp: tab_def kernel_like_vm_def Let_def addr_consts phys_to_pfn_eq)

lemma kernel_like_present:
  "tables_present 1 kernel_like_vm 0xC0000000 2048"
  unfolding tables_present_def
proof (intro conjI allI impI)
  fix k :: nat assume k: "k < 2048"
  have "0xC0000000 + of_nat (4096 * k) = (of_nat (0xC0000000 + 4096 * k) :: u32)" by simp
  then have "unat (0xC0000000 + of_nat (4096 * k) :: u32) = 0xC0000000 + 4096 * k"
    using unat_of_nat_u32 [of "0xC0000000 + 4096 * k"] k by (simp del: of_nat_add of_nat_mult)
  then have "pde_index (0xC0000000 + of_nat (4096 * k)) = (0xC0000000 + 4096 * k) div 4194304"
    unfolding index_eqs(1) by (simp add: div_mult2_eq [symmetric])
  moreover have "768 \<le> (0xC0000000 + 4096 * k) div 4194304" "(0xC0000000 + 4096 * k) div 4194304 < 770" using k by simp_all
  ultimately have "pde_index (0xC0000000 + of_nat (4096 * k)) \<in> {768, 769}" by auto
  then show "\<exists>p. tab 1 kernel_like_vm (pde_index (0xC0000000 + of_nat (4096 * k))) = Some p \<and> p \<noteq> 1 \<and> p < 2 ^ 18"
    using kernel_like_tab [of 768] kernel_like_tab [of 769] by auto
qed simp

text \<open>
  C20: \<open>page_map\<close> of a size above \<open>0xFFFFF000\<close> never returns, in any state: the offset, a multiple of 4096, wraps
  around before it can reach the size.  For every other size the loop ends, and \<open>page_map\<close> returns when the tables of
  the pages it maps are present and none of them is the directory itself.
\<close>

theorem page_map_returns:
  "(unat sz > 0xFFFFF000 \<longrightarrow> page_map pgdir va pa sz flag s = None) \<and>
   (unat sz \<le> 0xFFFFF000 \<and> tables_present pgd s (round_down_page va) (page_count sz) \<longrightarrow>
     (\<exists>t. page_map (page_to_virt pgd) va pa sz flag s = Some t))"
proof (intro conjI impI)
  assume z: "unat sz > 0xFFFFF000"
  show "page_map pgdir va pa sz flag s = None"
  proof (rule ccontr)
    assume "page_map pgdir va pa sz flag s \<noteq> None"
    then have "unat sz \<le> 0xFFFFF000" using page_map_loop_size [where off = 0] by (auto simp: page_map_def)
    then show False using z by simp
  qed
next
  assume z: "unat sz \<le> 0xFFFFF000 \<and> tables_present pgd s (round_down_page va) (page_count sz)"
  show "\<exists>t. page_map (page_to_virt pgd) va pa sz flag s = Some t"
    unfolding page_map_eq(1) [OF conjunct1 [OF z]] by (rule write_range_present [OF conjunct2 [OF z]])
qed

theorem page_map_returns_witness:
  "(\<exists>t. page_map (page_to_virt 1) 0xC0000000 0 0x800000 PTE_W kernel_like_vm = Some t) \<and>
    page_map (page_to_virt 1) 0xC0000000 0 0xFFFFF001 PTE_W kernel_like_vm = None"
proof -
  have "round_down_page 0xC0000000 = 0xC0000000" "page_count 0x800000 = 2048" by (simp_all add: round_down_page_eq page_count_def)
  then show ?thesis
    using page_map_returns [of "0x800000" "page_to_virt 1" "0xC0000000" 0 PTE_W kernel_like_vm 1] kernel_like_present
      page_map_returns [of "0xFFFFF001" "page_to_virt 1" "0xC0000000" 0 PTE_W kernel_like_vm] by simp
qed

end
