(* ===== verification/Fs.thy ===== *)
theory Fs
  imports Linked_List Prelude
begin

text \<open>
  The file tree of \<^verbatim>\<open>fs/fs.c\<close> and the commands \<open>cd\<close> and \<open>ls\<close> of \<^verbatim>\<open>usr/fs.c\<close>.  Files and directories are objects of
  the kernel heap, named by numbers; an object that was freed, or never allocated, is \<open>None\<close>, and an access
  to a list node inside it is \<open>None\<close> as well.  The result of \<open>kmalloc\<close> is the argument \<open>new\<close> of the operations
  that allocate.  A name is the character list of a C string, and \<open>!strcmp\<close> is equality of names
  (\<open>strcmp\<close> itself is in Mem\_Strings).
\<close>

section \<open>State\<close>

datatype fs_node = File_node nat | Dir_node nat | File_list nat | Dir_list nat

record fs_file =
  f_name :: string
  f_priv :: nat
  f_parent :: nat
  f_fops :: nat

record directory =
  d_name :: string
  d_parent :: "nat option"

record fs =
  files :: "nat \<Rightarrow> fs_file option"
  dirs :: "nat \<Rightarrow> directory option"
  fl :: "fs_node list_node"
  root :: "nat option"
  bin :: "nat option"
  proc :: "nat option"
  sys :: "nat option"

fun node_live :: "fs \<Rightarrow> fs_node \<Rightarrow> bool" where
  "node_live s (File_node f) \<longleftrightarrow> files s f \<noteq> None"
| "node_live s (Dir_node d) \<longleftrightarrow> dirs s d \<noteq> None"
| "node_live s (File_list d) \<longleftrightarrow> dirs s d \<noteq> None"
| "node_live s (Dir_list d) \<longleftrightarrow> dirs s d \<noteq> None"

definition next_of :: "fs_node \<Rightarrow> fs \<Rightarrow> fs_node option" where
  "next_of n s = (if node_live s n then Some (nxt (fl s) n) else None)"

definition fs_insert :: "fs_node \<Rightarrow> fs_node \<Rightarrow> fs \<Rightarrow> fs option" where
  "fs_insert cur node s =
     do {
       assert (node_live s cur \<and> node_live s (nxt (fl s) cur));
       Some (s\<lparr>fl := list_insert cur node (fl s)\<rparr>)
     }"

definition fs_remove :: "fs_node \<Rightarrow> fs \<Rightarrow> fs option" where
  "fs_remove node s =
     do {
       assert (node_live s node \<and> node_live s (nxt (fl s) node) \<and> node_live s (prev (fl s) node));
       Some (s\<lparr>fl := list_remove node (fl s)\<rparr>)
     }"

fun file_of :: "fs_node \<Rightarrow> nat option" where
  "file_of (File_node f) = Some f"
| "file_of _ = None"

fun dir_of :: "fs_node \<Rightarrow> nat option" where
  "dir_of (Dir_node d) = Some d"
| "dir_of _ = None"

section \<open>Operations\<close>

partial_function (option) find_file_loop :: "fs \<Rightarrow> fs_node \<Rightarrow> fs_node \<Rightarrow> string \<Rightarrow> nat option option" where
  "find_file_loop s q node name =
     (if node = q then Some None
      else do {
        f \<leftarrow> file_of node;
        x \<leftarrow> files s f;
        if name = f_name x then Some (Some f)
        else do { n \<leftarrow> next_of node s; find_file_loop s q n name }
      })"

definition dir_find_file :: "nat \<Rightarrow> string \<Rightarrow> fs \<Rightarrow> nat option option" where
  "dir_find_file dir name s =
     do { n \<leftarrow> next_of (File_list dir) s; find_file_loop s (File_list dir) n name }"

partial_function (option) find_dir_loop :: "fs \<Rightarrow> fs_node \<Rightarrow> fs_node \<Rightarrow> string \<Rightarrow> nat option option" where
  "find_dir_loop s q node name =
     (if node = q then Some None
      else do {
        d \<leftarrow> dir_of node;
        x \<leftarrow> dirs s d;
        if name = d_name x then Some (Some d)
        else do { n \<leftarrow> next_of node s; find_dir_loop s q n name }
      })"

definition dir_find_dir :: "nat \<Rightarrow> string \<Rightarrow> fs \<Rightarrow> nat option option" where
  "dir_find_dir dir name s =
     do { n \<leftarrow> next_of (Dir_list dir) s; find_dir_loop s (Dir_list dir) n name }"

declare find_file_loop.simps [code] find_dir_loop.simps [code]

definition create_file ::
  "string \<Rightarrow> nat \<Rightarrow> nat \<Rightarrow> nat \<Rightarrow> nat option \<Rightarrow> fs \<Rightarrow> (int \<times> nat option \<times> fs) option" where
  "create_file name fops parent priv new s =
     (case new of None \<Rightarrow> Some (- ENOMEM, None, s)
      | Some f \<Rightarrow>
          do {
            let s = s\<lparr>files := (files s)(f \<mapsto> \<lparr>f_name = name, f_priv = priv, f_parent = parent, f_fops = fops\<rparr>)\<rparr>;
            s \<leftarrow> fs_insert (File_list parent) (File_node f) s;
            Some (0, Some f, s)
          })"

definition remove_file :: "nat \<Rightarrow> fs \<Rightarrow> (int \<times> fs) option" where
  "remove_file f s =
     do {
       s \<leftarrow> fs_remove (File_node f) s;
       Some (0, s\<lparr>files := (files s)(f := None)\<rparr>)
     }"

definition create_directory ::
  "string \<Rightarrow> nat option \<Rightarrow> nat option \<Rightarrow> fs \<Rightarrow> (int \<times> nat option \<times> fs) option" where
  "create_directory name parent new s =
     (case new of None \<Rightarrow> Some (- ENOMEM, None, s)
      | Some d \<Rightarrow>
          do {
            let s = s\<lparr>dirs := (dirs s)(d \<mapsto> \<lparr>d_name = name, d_parent = parent\<rparr>)\<rparr>;
            let s = s\<lparr>fl := list_init (Dir_list d) (list_init (File_list d) (fl s))\<rparr>;
            s \<leftarrow> (case parent of None \<Rightarrow> Some s | Some p \<Rightarrow> fs_insert (Dir_list p) (Dir_node d) s);
            Some (0, Some d, s)
          })"

text \<open>The loops of \<open>remove_directory\<close> read \<open>node->next\<close> after the object of the node was freed.\<close>

partial_function (option) remove_files :: "fs_node \<Rightarrow> fs_node \<Rightarrow> fs \<Rightarrow> fs option" where
  "remove_files q node s =
     (if node = q then Some s
      else do {
        f \<leftarrow> file_of node;
        (_, s) \<leftarrow> remove_file f s;
        n \<leftarrow> next_of node s;
        remove_files q n s
      })"

partial_function (option) remove_dirs :: "fs_node \<Rightarrow> fs_node \<Rightarrow> fs \<Rightarrow> fs option" where
  "remove_dirs q node s =
     (if node = q then Some s
      else do {
        d \<leftarrow> dir_of node;
        n \<leftarrow> next_of (File_list d) s;
        s \<leftarrow> remove_files (File_list d) n s;
        n \<leftarrow> next_of (Dir_list d) s;
        s \<leftarrow> remove_dirs (Dir_list d) n s;
        s \<leftarrow> fs_remove (Dir_node d) s;
        let s = s\<lparr>dirs := (dirs s)(d := None)\<rparr>;
        n \<leftarrow> next_of node s;
        remove_dirs q n s
      })"

declare remove_files.simps [code] remove_dirs.simps [code]

definition remove_directory :: "nat \<Rightarrow> fs \<Rightarrow> (int \<times> fs) option" where
  "remove_directory dir s =
     do {
       n \<leftarrow> next_of (File_list dir) s;
       s \<leftarrow> remove_files (File_list dir) n s;
       n \<leftarrow> next_of (Dir_list dir) s;
       s \<leftarrow> remove_dirs (Dir_list dir) n s;
       s \<leftarrow> fs_remove (Dir_node dir) s;
       Some (0, s\<lparr>dirs := (dirs s)(dir := None)\<rparr>)
     }"

lemma remove_dirs_eq:
  "remove_dirs q node s =
     (if node = q then Some s
      else do {
        d \<leftarrow> dir_of node;
        (_, s) \<leftarrow> remove_directory d s;
        n \<leftarrow> next_of node s;
        remove_dirs q n s
      })"
  by (subst remove_dirs.simps) (simp add: remove_directory_def Let_def cong: option.case_cong)

definition binfs_find_file :: "string \<Rightarrow> fs \<Rightarrow> nat option option" where
  "binfs_find_file name s = do { b \<leftarrow> bin s; dir_find_file b name s }"

definition binfs_create_file :: "string \<Rightarrow> nat \<Rightarrow> nat \<Rightarrow> nat option \<Rightarrow> fs \<Rightarrow> (int \<times> nat option \<times> fs) option" where
  "binfs_create_file name fops priv new s = do { b \<leftarrow> bin s; create_file name fops b priv new s }"

definition binfs_remove_file :: "string \<Rightarrow> fs \<Rightarrow> (int \<times> fs) option" where
  "binfs_remove_file name s =
     do {
       b \<leftarrow> bin s;
       r \<leftarrow> dir_find_file b name s;
       case r of None \<Rightarrow> Some (- ENOENT, s) | Some f \<Rightarrow> remove_file f s
     }"

definition procfs_create_dir :: "string \<Rightarrow> nat option \<Rightarrow> fs \<Rightarrow> (int \<times> nat option \<times> fs) option" where
  "procfs_create_dir name new s = create_directory name (proc s) new s"

definition procfs_remove_dir :: "string \<Rightarrow> fs \<Rightarrow> (int \<times> fs) option" where
  "procfs_remove_dir name s =
     do {
       p \<leftarrow> proc s;
       r \<leftarrow> dir_find_dir p name s;
       case r of None \<Rightarrow> Some (- ENOENT, s) | Some d \<Rightarrow> remove_directory d s
     }"

text \<open>\<open>news\<close> are the results of the four calls of \<open>kmalloc\<close>.\<close>

definition fs_init :: "nat option \<times> nat option \<times> nat option \<times> nat option \<Rightarrow> fs \<Rightarrow> (int \<times> fs) option" where
  "fs_init news s =
     (case news of (n1, n2, n3, n4) \<Rightarrow>
       do {
         (ret, d, s) \<leftarrow> create_directory ''/'' None n1 s;
         if ret \<noteq> 0 then Some (ret, s)
         else do {
           let s = s\<lparr>root := d\<rparr>;
           (ret, d, s) \<leftarrow> create_directory ''bin'' (root s) n2 s;
           if ret \<noteq> 0 then Some (ret, s)
           else do {
             let s = s\<lparr>bin := d\<rparr>;
             (ret, d, s) \<leftarrow> create_directory ''proc'' (root s) n3 s;
             if ret \<noteq> 0 then Some (ret, s)
             else do {
               let s = s\<lparr>proc := d\<rparr>;
               (ret, d, s) \<leftarrow> create_directory ''sys'' (root s) n4 s;
               if ret \<noteq> 0 then Some (ret, s) else Some (0, s\<lparr>sys := d\<rparr>)
             }
           }
         }
       })"

section \<open>The commands cd and ls\<close>

text \<open>
  \<open>do_cd\<close> gets the words of the command line and the current directory and returns the new one; the
  messages are left out.  \<open>do_ls\<close> returns the names it prints.
\<close>

definition do_cd :: "string list \<Rightarrow> nat \<Rightarrow> fs \<Rightarrow> (int \<times> nat) option" where
  "do_cd vec current_dir s =
     (if length vec > 2 then Some (- EINVAL, current_dir)
      else if length vec = 1 then do { r \<leftarrow> root s; Some (0, r) }
      else do {
        assert (1 < length vec);
        let name = vec ! 1;
        if name = ''..'' then
          do {
            c \<leftarrow> dirs s current_dir;
            Some (0, case d_parent c of None \<Rightarrow> current_dir | Some p \<Rightarrow> p)
          }
        else if name = ''.'' then Some (0, current_dir)
        else if name = ''~'' then do { r \<leftarrow> root s; Some (0, r) }
        else do {
          r \<leftarrow> dir_find_dir current_dir name s;
          case r of None \<Rightarrow> Some (- ENOENT, current_dir) | Some d \<Rightarrow> Some (0, d)
        }
      })"

partial_function (option) ls_loop ::
  "fs \<Rightarrow> fs_node \<Rightarrow> fs_node \<Rightarrow> string list \<Rightarrow> string list option" where
  "ls_loop s q node out =
     (if node = q then Some out
      else do {
        name \<leftarrow> (case node of File_node f \<Rightarrow> map_option f_name (files s f)
                          | Dir_node d \<Rightarrow> map_option d_name (dirs s d) | _ \<Rightarrow> None);
        n \<leftarrow> next_of node s;
        ls_loop s q n (out @ [name])
      })"

declare ls_loop.simps [code]

definition do_ls :: "nat \<Rightarrow> fs \<Rightarrow> (int \<times> string list) option" where
  "do_ls current_dir s =
     do {
       n \<leftarrow> next_of (Dir_list current_dir) s;
       out \<leftarrow> ls_loop s (Dir_list current_dir) n [];
       n \<leftarrow> next_of (File_list current_dir) s;
       out \<leftarrow> ls_loop s (File_list current_dir) n out;
       Some (0, out)
     }"

section \<open>The invariant\<close>

text \<open>\<open>F d\<close> are the files and \<open>G d\<close> the subdirectories of \<open>d\<close>, in the order of its two lists.\<close>

definition fs_heads :: "fs \<Rightarrow> fs_node set" where
  "fs_heads s = {q. \<exists>d. dirs s d \<noteq> None \<and> (q = File_list d \<or> q = Dir_list d)}"

fun rings :: "(nat \<Rightarrow> nat list) \<Rightarrow> (nat \<Rightarrow> nat list) \<Rightarrow> fs_node \<Rightarrow> fs_node list" where
  "rings F G (File_list d) = map File_node (F d)"
| "rings F G (Dir_list d) = map Dir_node (G d)"
| "rings F G _ = []"

definition fs_inv :: "fs \<Rightarrow> (nat \<Rightarrow> nat list) \<Rightarrow> (nat \<Rightarrow> nat list) \<Rightarrow> bool" where
  "fs_inv s F G \<longleftrightarrow> dlists (fl s) (fs_heads s) (rings F G) \<and>
     (\<forall>d. dirs s d \<noteq> None \<longrightarrow> (\<forall>f \<in> set (F d). files s f \<noteq> None) \<and> (\<forall>e \<in> set (G d). dirs s e \<noteq> None))"

lemma fs_heads_in [simp]:
  "File_list d \<in> fs_heads s \<longleftrightarrow> dirs s d \<noteq> None" "Dir_list d \<in> fs_heads s \<longleftrightarrow> dirs s d \<noteq> None"
  "File_node f \<notin> fs_heads s" "Dir_node d \<notin> fs_heads s"
  by (auto simp: fs_heads_def)

lemma fs_invD:
  assumes "fs_inv s F G"
  shows "dlists (fl s) (fs_heads s) (rings F G)"
    "dirs s d = Some x \<Longrightarrow> f \<in> set (F d) \<Longrightarrow> \<exists>y. files s f = Some y"
    "dirs s d = Some x \<Longrightarrow> e \<in> set (G d) \<Longrightarrow> \<exists>y. dirs s e = Some y"
  using assms by (auto simp: fs_inv_def)

lemma ring_live:
  assumes "fs_inv s F G" "q \<in> fs_heads s" "x \<in> insert q (set (rings F G q))"
  shows "node_live s x"
  using assms by (cases q) (auto simp: fs_inv_def)

lemma ring_next_live:
  assumes I: "fs_inv s F G" and q: "q \<in> fs_heads s" and x: "x \<in> insert q (set (rings F G q))"
  shows "node_live s (nxt (fl s) x)" "node_live s (prev (fl s) x)"
proof -
  have d: "dlist (fl s) q (rings F G q)" by (rule dlists_dlist [OF fs_invD(1) [OF I] q])
  have "nxt (fl s) x \<in> insert q (set (rings F G q)) \<and> prev (fl s) x \<in> insert q (set (rings F G q))"
  proof (cases "x = q")
    case True
    have l: "lseg (fl s) q (rings F G q) q" using d by (simp add: dlist_def)
    note lseg_nextD [OF l] lseg_prevD [OF l]
    then show ?thesis using True by (cases "rings F G q") (auto simp: last_in_set split: if_splits)
  next
    case False
    then obtain xs ys where "rings F G q = xs @ x # ys" using x by (auto simp: in_set_conv_decomp)
    then show ?thesis using dlist_neighbours [of "fl s" q xs x ys] d by auto
  qed
  then show "node_live s (nxt (fl s) x)" "node_live s (prev (fl s) x)"
    using ring_live [OF I q] by blast+
qed

section \<open>Searching\<close>

definition named_file :: "fs \<Rightarrow> string \<Rightarrow> nat \<Rightarrow> bool" where
  "named_file s name f \<longleftrightarrow> map_option f_name (files s f) = Some name"

definition named_dir :: "fs \<Rightarrow> string \<Rightarrow> nat \<Rightarrow> bool" where
  "named_dir s name d \<longleftrightarrow> map_option d_name (dirs s d) = Some name"

lemma find_file_loop_eq:
  assumes "lseg (fl s) a (map File_node fs) q" "\<forall>f \<in> set fs. files s f \<noteq> None" "q \<notin> range File_node"
  shows "find_file_loop s q (nxt (fl s) a) name = Some (List.find (named_file s name) fs)"
  using assms
proof (induction fs arbitrary: a)
  case Nil
  then show ?case by (simp add: find_file_loop.simps)
next
  case (Cons f fs)
  obtain x where x: "files s f = Some x" using Cons.prems(2) by auto
  then have "named_file s name f \<longleftrightarrow> name = f_name x" by (auto simp: named_file_def)
  then show ?case using x Cons.prems Cons.IH [of "File_node f"]
    by (subst find_file_loop.simps) (auto simp: next_of_def)
qed

lemma find_dir_loop_eq:
  assumes "lseg (fl s) a (map Dir_node ds) q" "\<forall>d \<in> set ds. dirs s d \<noteq> None" "q \<notin> range Dir_node"
  shows "find_dir_loop s q (nxt (fl s) a) name = Some (List.find (named_dir s name) ds)"
  using assms
proof (induction ds arbitrary: a)
  case Nil
  then show ?case by (simp add: find_dir_loop.simps)
next
  case (Cons d ds)
  obtain x where x: "dirs s d = Some x" using Cons.prems(2) by auto
  then have "named_dir s name d \<longleftrightarrow> name = d_name x" by (auto simp: named_dir_def)
  then show ?case using x Cons.prems Cons.IH [of "Dir_node d"]
    by (subst find_dir_loop.simps) (auto simp: next_of_def)
qed

lemma dir_find_eq:
  assumes I: "fs_inv s F G" and d: "dirs s d \<noteq> None"
  shows "dir_find_file d name s = Some (List.find (named_file s name) (F d))"
    "dir_find_dir d name s = Some (List.find (named_dir s name) (G d))"
proof -
  have "dlist (fl s) (File_list d) (map File_node (F d))" "dlist (fl s) (Dir_list d) (map Dir_node (G d))"
    using dlists_dlist [OF fs_invD(1) [OF I], of "File_list d"] dlists_dlist [OF fs_invD(1) [OF I], of "Dir_list d"] d by auto
  then show "dir_find_file d name s = Some (List.find (named_file s name) (F d))"
    "dir_find_dir d name s = Some (List.find (named_dir s name) (G d))"
    using find_file_loop_eq [of s "File_list d" "F d" "File_list d" name]
      find_dir_loop_eq [of s "Dir_list d" "G d" "Dir_list d" name] I d
    by (auto simp: dir_find_file_def dir_find_dir_def next_of_def dlist_def fs_inv_def)
qed

section \<open>Creating\<close>

lemma create_file_correct:
  assumes I: "fs_inv s F G" and p: "dirs s p \<noteq> None" and f: "files s f = None"
  shows "\<exists>t. create_file name fops p priv (Some f) s = Some (0, Some f, t) \<and> fs_inv t (F(p := f # F p)) G \<and>
    files t = (files s)(f \<mapsto> \<lparr>f_name = name, f_priv = priv, f_parent = p, f_fops = fops\<rparr>) \<and> dirs t = dirs s \<and>
    root t = root s \<and> bin t = bin s \<and> proc t = proc s \<and> sys t = sys s"
proof -
  let ?s = "s\<lparr>files := (files s)(f \<mapsto> \<lparr>f_name = name, f_priv = priv, f_parent = p, f_fops = fops\<rparr>)\<rparr>"
  let ?t = "?s\<lparr>fl := list_insert (File_list p) (File_node f) (fl s)\<rparr>"
  have "node_live s (nxt (fl s) (File_list p))" using ring_next_live(1) [OF I, of "File_list p"] p by simp
  then have "node_live ?s (nxt (fl s) (File_list p))" by (cases "nxt (fl s) (File_list p)") auto
  then have "create_file name fops p priv (Some f) s = Some (0, Some f, ?t)"
    using p by (simp add: create_file_def fs_insert_def)
  moreover have "fs_inv ?t (F(p := f # F p)) G"
  proof -
    have h: "fs_heads ?t = fs_heads s" by (simp add: fs_heads_def)
    have "File_node f \<notin> nodes_of (fs_heads s) (rings F G)"
      using ring_live [OF I] f unfolding nodes_of_def by fastforce
    from dlists_insert [OF fs_invD(1) [OF I] _ this, of "File_list p"]
    have "dlists (fl ?t) (fs_heads s) ((rings F G)(File_list p := File_node f # rings F G (File_list p)))" using p by simp
    moreover have "(rings F G)(File_list p := File_node f # rings F G (File_list p)) = rings (F(p := f # F p)) G"
    proof
      fix q show "((rings F G)(File_list p := File_node f # rings F G (File_list p))) q = rings (F(p := f # F p)) G q"
        by (cases q) auto
    qed
    ultimately show ?thesis using I p unfolding fs_inv_def h by auto
  qed
  ultimately show ?thesis by (intro exI [of _ ?t]) simp
qed

lemma dlists_new_head:
  assumes "dlists h H f" "q \<notin> nodes_of H f"
  shows "dlists (list_init q h) (insert q H) (f(q := []))"
proof -
  have "dlist (list_init q h) r (f r)" if "r \<in> H" for r
  proof -
    have "\<forall>x \<in> insert r (set (f r)). x \<noteq> q" using assms(2) that by (auto simp: nodes_of_def)
    then have "dlist (list_init q h) r (f r) = dlist h r (f r)" by (intro dlist_cong) (auto simp: list_heap)
    then show ?thesis using dlists_dlist [OF assms(1) that] by simp
  qed
  moreover have "q \<notin> H" "\<forall>r \<in> H. q \<notin> set (f r)" using assms(2) by (auto simp: nodes_of_def)
  ultimately show ?thesis using assms(1) dlist_init [of q h] unfolding dlists_def by auto
qed

lemma dlists_subset: "dlists h H f \<Longrightarrow> H' \<subseteq> H \<Longrightarrow> dlists h H' f"
  unfolding dlists_def by blast

lemma dlists_cong_heads: "dlists h H f \<Longrightarrow> \<forall>q \<in> H. g q = f q \<Longrightarrow> dlists h H g"
  unfolding dlists_def by simp

lemma create_directory_correct:
  assumes I: "fs_inv s F G" and d: "dirs s d = None" and p: "case parent of None \<Rightarrow> True | Some p \<Rightarrow> dirs s p \<noteq> None"
  defines "G' \<equiv> (case parent of None \<Rightarrow> G(d := []) | Some p \<Rightarrow> G(d := [], p := d # G p))"
  shows "\<exists>t. create_directory name parent (Some d) s = Some (0, Some d, t) \<and> fs_inv t (F(d := [])) G' \<and>
    files t = files s \<and> dirs t = (dirs s)(d \<mapsto> \<lparr>d_name = name, d_parent = parent\<rparr>) \<and>
    root t = root s \<and> bin t = bin s \<and> proc t = proc s \<and> sys t = sys s"
proof -
  let ?s = "s\<lparr>dirs := (dirs s)(d \<mapsto> \<lparr>d_name = name, d_parent = parent\<rparr>),
    fl := list_init (Dir_list d) (list_init (File_list d) (fl s))\<rparr>"
  have fresh: "x \<notin> nodes_of (fs_heads s) (rings F G)" if "\<not> node_live s x" for x
    using ring_live [OF I] that unfolding nodes_of_def by blast
  have h: "fs_heads ?s = insert (Dir_list d) (insert (File_list d) (fs_heads s))"
    by (auto simp: fs_heads_def)
  have D1: "dlists (list_init (File_list d) (fl s)) (insert (File_list d) (fs_heads s)) ((rings F G)(File_list d := []))"
    using fresh [of "File_list d"] d by (intro dlists_new_head [OF fs_invD(1) [OF I]]) simp
  have "Dir_list d \<notin> nodes_of (insert (File_list d) (fs_heads s)) ((rings F G)(File_list d := []))"
    using fresh [of "Dir_list d"] d by (auto simp: nodes_of_def split: if_splits)
  from dlists_new_head [OF D1 this]
  have D2: "dlists (fl ?s) (fs_heads ?s) (rings (F(d := [])) (G(d := [])))"
    unfolding h by (rule_tac dlists_cong_heads) (auto simp: fs_heads_def split: if_splits)
  have I2: "fs_inv ?s (F(d := [])) (G(d := []))"
    unfolding fs_inv_def by (intro conjI D2) (use I d in \<open>auto simp: fs_inv_def split: if_splits\<close>)
  show ?thesis
  proof (cases parent)
    case None
    then show ?thesis using I2 by (intro exI [of _ ?s]) (simp add: create_directory_def G'_def)
  next
    case (Some p')
    have p': "dirs s p' \<noteq> None" "p' \<noteq> d" using p Some d by auto
    let ?t = "?s\<lparr>fl := list_insert (Dir_list p') (Dir_node d) (fl ?s)\<rparr>"
    have "node_live ?s (nxt (fl ?s) (Dir_list p'))" using ring_next_live(1) [OF I2, of "Dir_list p'"] p' by simp
    then have "create_directory name parent (Some d) s = Some (0, Some d, ?t)"
      using p' Some by (simp add: create_directory_def fs_insert_def)
    moreover have "fs_inv ?t (F(d := [])) G'"
    proof -
      have "d \<notin> set (G e)" if "dirs s e = Some y" for e y using fs_invD(3) [OF I that, of d] d by auto
      then have "Dir_node d \<notin> nodes_of (fs_heads ?s) (rings (F(d := [])) (G(d := [])))"
        by (auto simp: nodes_of_def fs_heads_def split: if_splits)
      from dlists_insert [OF D2 _ this, of "Dir_list p'"] p'
      have D3: "dlists (fl ?t) (fs_heads ?s) ((rings (F(d := [])) (G(d := [])))
          (Dir_list p' := Dir_node d # rings (F(d := [])) (G(d := [])) (Dir_list p')))" by simp
      have "dlists (fl ?t) (fs_heads ?s) (rings (F(d := [])) G')"
        by (rule dlists_cong_heads [OF D3]) (use p' Some in \<open>auto simp: fs_heads_def G'_def split: if_splits\<close>)
      moreover have "fs_heads ?t = fs_heads ?s" by (simp add: fs_heads_def)
      moreover have "(\<forall>f \<in> set ((F(d := [])) x). files ?t f \<noteq> None) \<and> (\<forall>e \<in> set (G' x). dirs ?t e \<noteq> None)"
        if "dirs ?t x \<noteq> None" for x
        using that Some p' d fs_invD(2) [OF I, of x] fs_invD(3) [OF I, of x] fs_invD(3) [OF I, of p']
        by (cases "x = d"; cases "x = p'") (auto simp: G'_def)
      ultimately show ?thesis unfolding fs_inv_def by simp
    qed
    ultimately show ?thesis by (intro exI [of _ ?t]) simp
  qed
qed

section \<open>Removing\<close>

lemma map_remove1_nodes:
  "map File_node (remove1 x xs) = remove1 (File_node x) (map File_node xs)"
  "map Dir_node (remove1 x xs) = remove1 (Dir_node x) (map Dir_node xs)"
  by (induction xs) auto

lemma fs_remove_live:
  assumes "fs_inv s F G" "q \<in> fs_heads s" "x \<in> set (rings F G q)"
  shows "fs_remove x s = Some (s\<lparr>fl := list_remove x (fl s)\<rparr>)"
  using ring_live [OF assms(1,2), of x] ring_next_live [OF assms(1,2), of x] assms(3) by (simp add: fs_remove_def)

lemma fs_distinct:
  assumes I: "fs_inv s F G"
  shows "dirs s d \<noteq> None \<Longrightarrow> distinct (F d) \<and> distinct (G d)"
    "dirs s d \<noteq> None \<Longrightarrow> dirs s e \<noteq> None \<Longrightarrow> f \<in> set (F d) \<Longrightarrow> f \<in> set (F e) \<Longrightarrow> d = e"
    "dirs s d \<noteq> None \<Longrightarrow> dirs s e \<noteq> None \<Longrightarrow> x \<in> set (G d) \<Longrightarrow> x \<in> set (G e) \<Longrightarrow> d = e"
proof -
  note D = fs_invD(1) [OF I]
  show "distinct (F d) \<and> distinct (G d)" if "dirs s d \<noteq> None"
    using dlists_dlist [OF D, of "File_list d"] dlists_dlist [OF D, of "Dir_list d"] that
    by (auto simp: dlist_def distinct_map)
  show "d = e" if "dirs s d \<noteq> None" "dirs s e \<noteq> None" "f \<in> set (F d)" "f \<in> set (F e)"
    using dlists_disjoint [OF D, of "File_list d" "File_list e" "File_node f"] that by auto
  show "d = e" if "dirs s d \<noteq> None" "dirs s e \<noteq> None" "x \<in> set (G d)" "x \<in> set (G e)"
    using dlists_disjoint [OF D, of "Dir_list d" "Dir_list e" "Dir_node x"] that by auto
qed

lemma remove_file_correct:
  assumes I: "fs_inv s F G" and d: "dirs s d \<noteq> None" "f \<in> set (F d)"
  shows "\<exists>t. remove_file f s = Some (0, t) \<and> fs_inv t (F(d := remove1 f (F d))) G \<and>
    files t = (files s)(f := None) \<and> dirs t = dirs s"
proof -
  let ?t = "s\<lparr>fl := list_remove (File_node f) (fl s), files := (files s)(f := None)\<rparr>"
  have q: "File_list d \<in> fs_heads s" "File_node f \<in> set (rings F G (File_list d))" using d by auto
  have "remove_file f s = Some (0, ?t)" using fs_remove_live [OF I q] by (simp add: remove_file_def)
  moreover have "fs_inv ?t (F(d := remove1 f (F d))) G"
  proof -
    have h: "fs_heads ?t = fs_heads s" by (simp add: fs_heads_def)
    have "dlists (fl ?t) (fs_heads ?t) (rings (F(d := remove1 f (F d))) G)"
      unfolding h using dlists_remove [OF fs_invD(1) [OF I] q]
      by (rule_tac dlists_cong_heads) (auto simp: map_remove1_nodes fs_heads_def)
    then show ?thesis
      unfolding fs_inv_def using fs_distinct [OF I] I d
      by (auto simp: fs_inv_def set_remove1_eq split: if_splits)
  qed
  ultimately show ?thesis by (intro exI [of _ ?t]) simp
qed

lemma remove_directory_gone: "remove_directory d s = Some (r, t) \<Longrightarrow> dirs t d = None"
  by (auto simp: remove_directory_def split: Option.bind_splits)

lemma remove_directory_nonempty:
  assumes I: "fs_inv s F G" and d: "dirs s d \<noteq> None" and ne: "F d \<noteq> [] \<or> G d \<noteq> []"
  shows "remove_directory d s = None"
proof (cases "F d")
  case (Cons f fs)
  have "nxt (fl s) (File_list d) = File_node f"
    using dlists_dlist [OF fs_invD(1) [OF I], of "File_list d"] d Cons by (simp add: dlist_def)
  moreover have "remove_files (File_list d) (File_node f) s = None"
    by (subst remove_files.simps) (auto simp: remove_file_def next_of_def split: Option.bind_split)
  ultimately show ?thesis using d by (auto simp: remove_directory_def next_of_def)
next
  case Nil
  then obtain e es where e: "G d = e # es" using ne by (auto simp: neq_Nil_conv)
  have n: "nxt (fl s) (File_list d) = File_list d" "nxt (fl s) (Dir_list d) = Dir_node e"
    using dlists_dlist [OF fs_invD(1) [OF I], of "File_list d"] dlists_dlist [OF fs_invD(1) [OF I], of "Dir_list d"] d e Nil
    by (simp_all add: dlist_def)
  have "remove_files (File_list d) (File_list d) s = Some s" by (simp add: remove_files.simps)
  moreover have "remove_dirs (Dir_list d) (Dir_node e) s = None"
  proof (cases "remove_directory e s")
    case (Some x)
    then have "dirs (snd x) e = None" using remove_directory_gone [of e s "fst x" "snd x"] by simp
    then show ?thesis using Some by (subst remove_dirs_eq) (auto simp: next_of_def split_beta)
  qed (subst remove_dirs_eq, simp)
  ultimately show ?thesis using d n by (auto simp: remove_directory_def next_of_def)
qed

lemma remove_directory_empty:
  assumes I: "fs_inv s F G" and d: "dirs s d \<noteq> None" and p: "dirs s p \<noteq> None" "d \<in> set (G p)"
    and e: "F d = []" "G d = []"
  shows "\<exists>t. remove_directory d s = Some (0, t) \<and> fs_inv t F (G(p := remove1 d (G p))) \<and>
    files t = files s \<and> dirs t = (dirs s)(d := None)"
proof -
  let ?t = "s\<lparr>fl := list_remove (Dir_node d) (fl s), dirs := (dirs s)(d := None)\<rparr>"
  have q: "Dir_list p \<in> fs_heads s" "Dir_node d \<in> set (rings F G (Dir_list p))" using p by auto
  have n: "nxt (fl s) (File_list d) = File_list d" "nxt (fl s) (Dir_list d) = Dir_list d"
    using dlists_dlist [OF fs_invD(1) [OF I], of "File_list d"] dlists_dlist [OF fs_invD(1) [OF I], of "Dir_list d"] d e
    by (simp_all add: dlist_def)
  have "remove_directory d s = Some (0, ?t)"
    using d n fs_remove_live [OF I q]
    by (simp add: remove_directory_def next_of_def remove_files.simps [of "File_list d"] remove_dirs.simps [of "Dir_list d"])
  moreover have "fs_inv ?t F (G(p := remove1 d (G p)))"
  proof -
    have h: "fs_heads ?t \<subseteq> fs_heads s" by (auto simp: fs_heads_def split: if_splits)
    have "dlists (fl ?t) (fs_heads s) (rings F (G(p := remove1 d (G p))))"
      using dlists_remove [OF fs_invD(1) [OF I] q]
      by (rule_tac dlists_cong_heads) (auto simp: map_remove1_nodes fs_heads_def)
    then have "dlists (fl ?t) (fs_heads ?t) (rings F (G(p := remove1 d (G p))))" using h by (rule dlists_subset)
    then show ?thesis
      unfolding fs_inv_def using fs_distinct [OF I] I p
      by (auto simp: fs_inv_def set_remove1_eq split: if_splits)
  qed
  ultimately show ?thesis by (intro exI [of _ ?t]) simp
qed

section \<open>Initialisation\<close>

lemma fs_init_correct:
  assumes I: "fs_inv s F G" and n: "distinct [a, b, c, e]" "\<forall>x \<in> {a, b, c, e}. dirs s x = None"
  shows "\<exists>t. fs_init (Some a, Some b, Some c, Some e) s = Some (0, t) \<and>
    fs_inv t (F(a := [], b := [], c := [], e := [])) (G(a := [e, c, b], b := [], c := [], e := [])) \<and>
    root t = Some a \<and> bin t = Some b \<and> proc t = Some c \<and> sys t = Some e \<and> files t = files s \<and>
    dirs t = (dirs s)(a \<mapsto> \<lparr>d_name = ''/'', d_parent = None\<rparr>, b \<mapsto> \<lparr>d_name = ''bin'', d_parent = Some a\<rparr>,
      c \<mapsto> \<lparr>d_name = ''proc'', d_parent = Some a\<rparr>, e \<mapsto> \<lparr>d_name = ''sys'', d_parent = Some a\<rparr>)"
proof -
  have glob: "fs_inv (s\<lparr>root := w\<rparr>) F G = fs_inv s F G" "fs_inv (s\<lparr>bin := w\<rparr>) F G = fs_inv s F G"
    "fs_inv (s\<lparr>proc := w\<rparr>) F G = fs_inv s F G" "fs_inv (s\<lparr>sys := w\<rparr>) F G = fs_inv s F G" for s :: fs and F G w
    by (simp_all add: fs_inv_def fs_heads_def)
  obtain s1 where s1: "create_directory ''/'' None (Some a) s = Some (0, Some a, s1)" "fs_inv s1 (F(a := [])) (G(a := []))"
      "files s1 = files s" "dirs s1 = (dirs s)(a \<mapsto> \<lparr>d_name = ''/'', d_parent = None\<rparr>)"
    using create_directory_correct [OF I, of a None "''/''"] n by auto
  let ?s1 = "s1\<lparr>root := Some a\<rparr>"
  obtain s2 where s2: "create_directory ''bin'' (Some a) (Some b) ?s1 = Some (0, Some b, s2)"
      "fs_inv s2 (F(a := [], b := [])) (G(a := [], b := [], a := [b]))"
      "files s2 = files s" "dirs s2 = (dirs s1)(b \<mapsto> \<lparr>d_name = ''bin'', d_parent = Some a\<rparr>)" "root s2 = Some a"
    using create_directory_correct [of ?s1 "F(a := [])" "G(a := [])" b "Some a" "''bin''"] s1(2-4) n by (auto simp: glob)
  let ?s2 = "s2\<lparr>bin := Some b\<rparr>"
  obtain s3 where s3: "create_directory ''proc'' (Some a) (Some c) ?s2 = Some (0, Some c, s3)"
      "fs_inv s3 (F(a := [], b := [], c := [])) (G(a := [], b := [], a := [b], c := [], a := [c, b]))"
      "files s3 = files s" "dirs s3 = (dirs s2)(c \<mapsto> \<lparr>d_name = ''proc'', d_parent = Some a\<rparr>)" "root s3 = Some a" "bin s3 = Some b"
    using create_directory_correct [of ?s2 "F(a := [], b := [])" "G(a := [], b := [], a := [b])" c "Some a" "''proc''"]
      s1(4) s2(2-5) n by (auto simp: glob)
  let ?s3 = "s3\<lparr>proc := Some c\<rparr>"
  obtain s4 where s4: "create_directory ''sys'' (Some a) (Some e) ?s3 = Some (0, Some e, s4)"
      "fs_inv s4 (F(a := [], b := [], c := [], e := [])) (G(a := [], b := [], a := [b], c := [], a := [c, b], e := [], a := [e, c, b]))"
      "files s4 = files s" "dirs s4 = (dirs s3)(e \<mapsto> \<lparr>d_name = ''sys'', d_parent = Some a\<rparr>)" "root s4 = Some a" "bin s4 = Some b"
      "proc s4 = Some c"
    using create_directory_correct [of ?s3 "F(a := [], b := [], c := [])" "G(a := [], b := [], a := [b], c := [], a := [c, b])"
        e "Some a" "''sys''"] s1(4) s2(4) s3(2-6) n by (auto simp: glob)
  have g: "G(a := [], b := [], a := [b], c := [], a := [c, b], e := [], a := [e, c, b])
      = G(a := [e, c, b], b := [], c := [], e := [])" using n(1) by (auto simp: fun_eq_iff)
  have "fs_init (Some a, Some b, Some c, Some e) s = Some (0, s4\<lparr>sys := Some e\<rparr>)"
    using s1(1) s2(1) s3(1) s4(1) s2(5) s3(5) by (simp add: fs_init_def)
  then show ?thesis using s4(2) [unfolded g] s4(3-7) s1(4) s2(4) s3(4) by (simp add: glob)
qed

definition fs_bss :: fs where
  "fs_bss = \<lparr>files = Map.empty, dirs = Map.empty, fl = \<lparr>prev = (\<lambda>_. File_node 0), nxt = (\<lambda>_. File_node 0)\<rparr>,
     root = None, bin = None, proc = None, sys = None\<rparr>"

lemma fs_bss_inv: "fs_inv fs_bss F G"
  by (simp add: fs_inv_def fs_bss_def fs_heads_def dlists_def)

lemma fs_boot:
  "\<exists>t. fs_init (Some 0, Some 1, Some 2, Some 3) fs_bss = Some (0, t) \<and> fs_inv t (\<lambda>_. []) ((\<lambda>_. [])(0 := [3, 2, 1])) \<and>
    root t = Some 0 \<and> bin t = Some 1 \<and> proc t = Some 2 \<and> sys t = Some 3 \<and> files t = Map.empty \<and>
    (\<forall>d. dirs t d \<noteq> None \<longleftrightarrow> d < 4) \<and> map_option d_name (dirs t 2) = Some ''proc''"
proof -
  have e: "(\<lambda>_. [])(0 := [], 1 := [], 2 := [], 3 := []) = (\<lambda>_ :: nat. [] :: nat list)"
    "(\<lambda>_. [])(0 := [3, 2, 1], 1 := [], 2 := [], 3 := []) = (\<lambda>_ :: nat. [] :: nat list)(0 := [3, 2, 1])" by auto
  show ?thesis
    using fs_init_correct [OF fs_bss_inv [of "\<lambda>_. []" "\<lambda>_. []"], of 0 1 2 3]
    unfolding e by (auto simp: fs_bss_def)
qed

section \<open>Properties\<close>

text \<open>
  \<open>create_file\<close> in an existing directory with a fresh object.  It returns 0 with the object and keeps
  the invariant; afterwards a search finds the new file under its name in its directory, also when an
  older file there has the same name, and every other search gives what it gave before.
\<close>

theorem create_file_lookup:
  assumes "fs_inv s F G" "dirs s p \<noteq> None" "files s f = None"
  shows "\<exists>t. create_file name fops p priv (Some f) s = Some (0, Some f, t) \<and> fs_inv t (F(p := f # F p)) G \<and>
    (\<forall>d nm. dirs s d \<noteq> None \<longrightarrow> dir_find_dir d nm t = dir_find_dir d nm s \<and>
      dir_find_file d nm t = (if d = p \<and> nm = name then Some (Some f) else dir_find_file d nm s))"
proof -
  obtain t where t: "create_file name fops p priv (Some f) s = Some (0, Some f, t)" "fs_inv t (F(p := f # F p)) G"
      "files t = (files s)(f \<mapsto> \<lparr>f_name = name, f_priv = priv, f_parent = p, f_fops = fops\<rparr>)" "dirs t = dirs s"
    using create_file_correct [OF assms] by blast
  have "dir_find_dir d nm t = dir_find_dir d nm s \<and>
      dir_find_file d nm t = (if d = p \<and> nm = name then Some (Some f) else dir_find_file d nm s)"
    if d: "dirs s d \<noteq> None" for d nm
  proof -
    have "f \<notin> set (F d)" using fs_invD(2) [OF assms(1)] d assms(3) by fastforce
    then have "List.find (named_file t nm) (F d) = List.find (named_file s nm) (F d)"
      by (intro find_cong) (auto simp: named_file_def t(3))
    moreover have "named_file t nm f \<longleftrightarrow> nm = name" by (auto simp: named_file_def t(3))
    moreover have "named_dir t nm = named_dir s nm" by (simp add: named_dir_def t(4) fun_eq_iff)
    ultimately show ?thesis
      using dir_find_eq [OF assms(1) d] dir_find_eq [OF t(2), of d nm] d t(4) by auto
  qed
  then show ?thesis using t(1,2) by blast
qed

theorem create_file_lookup_witness:
  "\<exists>s t. fs_init (Some 0, Some 1, Some 2, Some 3) fs_bss = Some (0, s) \<and>
    create_file ''ls'' 7 1 0 (Some 9) s = Some (0, Some 9, t) \<and> dir_find_file 1 ''ls'' t = Some (Some 9) \<and>
    dir_find_file 1 ''cd'' t = dir_find_file 1 ''cd'' s"
proof -
  obtain s where s: "fs_init (Some 0, Some 1, Some 2, Some 3) fs_bss = Some (0, s)"
      "fs_inv s (\<lambda>_. []) ((\<lambda>_. [])(0 := [3, 2, 1]))" "files s = Map.empty" "\<forall>d. dirs s d \<noteq> None \<longleftrightarrow> d < 4"
    using fs_boot by blast
  obtain t where "create_file ''ls'' 7 1 0 (Some 9) s = Some (0, Some 9, t)"
      "\<forall>d nm. dirs s d \<noteq> None \<longrightarrow> dir_find_dir d nm t = dir_find_dir d nm s \<and>
        dir_find_file d nm t = (if d = 1 \<and> nm = ''ls'' then Some (Some 9) else dir_find_file d nm s)"
    using create_file_lookup [OF s(2), of 1 9 "''ls''" 7 0] s(3,4) by auto
  then show ?thesis using s(1,4) by auto
qed

text \<open>
  C22: \<open>remove_directory\<close> of a directory below another one returns exactly when the directory has no files
  and no subdirectories; it then frees it and takes it off its parent's list.  Otherwise it reads the list
  node of an object that it has just freed.
\<close>

theorem remove_directory_only_empty:
  assumes "fs_inv s F G" "dirs s d \<noteq> None" "dirs s p \<noteq> None" "d \<in> set (G p)"
  shows "case remove_directory d s of
      None \<Rightarrow> F d \<noteq> [] \<or> G d \<noteq> []
    | Some (r, t) \<Rightarrow> F d = [] \<and> G d = [] \<and> r = 0 \<and> fs_inv t F (G(p := remove1 d (G p))) \<and>
        files t = files s \<and> dirs t = (dirs s)(d := None)"
proof (cases "F d = [] \<and> G d = []")
  case True
  then show ?thesis using remove_directory_empty [OF assms] by auto
next
  case False
  then show ?thesis using remove_directory_nonempty [OF assms(1,2)] by auto
qed

theorem remove_directory_only_empty_witness:
  "\<exists>s t u. fs_init (Some 0, Some 1, Some 2, Some 3) fs_bss = Some (0, s) \<and> remove_directory 2 s = Some (0, t) \<and>
    dirs t 2 = None \<and> create_file ''state'' 7 2 0 (Some 9) s = Some (0, Some 9, u) \<and> remove_directory 2 u = None"
proof -
  obtain s where s: "fs_init (Some 0, Some 1, Some 2, Some 3) fs_bss = Some (0, s)"
      "fs_inv s (\<lambda>_. []) ((\<lambda>_. [])(0 := [3, 2, 1]))" "files s = Map.empty" "\<forall>d. dirs s d \<noteq> None \<longleftrightarrow> d < 4"
    using fs_boot by blast
  obtain u where u: "create_file ''state'' 7 2 0 (Some 9) s = Some (0, Some 9, u)"
      "fs_inv u ((\<lambda>_. [])(2 := [9])) ((\<lambda>_. [])(0 := [3, 2, 1]))" "dirs u = dirs s"
    using create_file_correct [OF s(2), of 2 9 "''state''" 7 0] s(3,4) by auto
  have "case remove_directory 2 s of None \<Rightarrow> False | Some (r, t) \<Rightarrow> r = 0 \<and> dirs t 2 = None"
    using remove_directory_only_empty [OF s(2), of 2 0] s(4) by (auto split: option.splits)
  moreover have "remove_directory 2 u = None"
    using remove_directory_only_empty [OF u(2), of 2 0] s(4) u(3) by (auto split: option.splits)
  ultimately show ?thesis using s(1) u(1) by (auto split: option.splits)
qed

end
