(* ===== verification/Gpu.thy ===== *)
theory Gpu
  imports Mem_Strings Page_Table Fs
begin

text \<open>
  The frame buffer of \<^verbatim>\<open>graphic/gpu.c\<close> and \<^verbatim>\<open>graphic/init.c\<close>: drawing as writes of three-byte colours to memory.  The
  size of a pixel in the frame buffer comes from the mode information, the size of a colour from its type.
\<close>

section \<open>Operations\<close>

record color =
  blue :: u8
  green :: u8
  red :: u8

definition Ivory :: color where "Ivory = \<lparr>blue = 0xF0, green = 0xFF, red = 0xFF\<rparr>"
definition LightGreen :: color where "LightGreen = \<lparr>blue = 0x90, green = 0xEE, red = 0x90\<rparr>"

record gpu_info =
  cyls :: u8
  leds :: u8
  vmode :: u8
  reserve1 :: u8
  width :: u16
  height :: u16
  pixelbits :: u8
  mem_model :: u8
  reserve2 :: u16
  vram :: u32
  pixelbytes :: u8

definition vram_width :: "gpu_info \<Rightarrow> u32" where
  "vram_width g = ucast (width g)"

definition vram_height :: "gpu_info \<Rightarrow> u32" where
  "vram_height g = ucast (height g)"

definition assert_point :: "gpu_info \<Rightarrow> u32 \<Rightarrow> u32 \<Rightarrow> unit option" where
  "assert_point g x y = assert (x < ucast (width g) \<and> y < ucast (height g))"

definition pixel_bytes :: "gpu_info \<Rightarrow> u32" where
  "pixel_bytes g = ucast (drop_bit 3 (pixelbits g))"

text \<open>The product of the two 16-bit sizes is an \<open>int\<close> and must not overflow.\<close>

definition vram_size :: "gpu_info \<Rightarrow> u32 option" where
  "vram_size g =
     do {
       assert (unat (height g) * unat (width g) < 2 ^ 31);
       Some (ucast (height g) * ucast (width g) * pixel_bytes g)
     }"

definition vram_pixel :: "gpu_info \<Rightarrow> u32 \<Rightarrow> u32 \<Rightarrow> u32" where
  "vram_pixel g x y = vram g + (ucast (width g) * y + x) * pixel_bytes g"

definition put_color :: "u32 \<Rightarrow> color \<Rightarrow> mem \<Rightarrow> mem" where
  "put_color p c m = m(p := blue c, p + 1 := green c, p + 2 := red c)"

definition gpu_set_pixel :: "gpu_info \<Rightarrow> u32 \<Rightarrow> u32 \<Rightarrow> color \<Rightarrow> mem \<Rightarrow> mem" where
  "gpu_set_pixel g x y c m = put_color (vram_pixel g x y) c m"

partial_function (option) draw_loop :: "u32 \<Rightarrow> u32 \<Rightarrow> u32 \<Rightarrow> color \<Rightarrow> mem \<Rightarrow> mem option" where
  "draw_loop x x2 p c m =
     (if x \<le> x2 then draw_loop (x + 1) x2 (p + 3) c (put_color p c m) else Some m)"

definition gpu_draw_line :: "gpu_info \<Rightarrow> u32 \<Rightarrow> u32 \<Rightarrow> u32 \<Rightarrow> color \<Rightarrow> mem \<Rightarrow> mem option" where
  "gpu_draw_line g x1 x2 y c m =
     do {
       assert_point g x1 y;
       assert_point g x2 y;
       assert (x1 < x2);
       draw_loop x1 x2 (vram_pixel g x1 y) c m
     }"

partial_function (option) fill_loop :: "gpu_info \<Rightarrow> u32 \<Rightarrow> u32 \<Rightarrow> u32 \<Rightarrow> u32 \<Rightarrow> color \<Rightarrow> mem \<Rightarrow> mem option" where
  "fill_loop g x1 y x2 y2 c m =
     (if y \<le> y2 then
        do {
          m \<leftarrow> draw_loop x1 x2 (vram_pixel g x1 y) c m;
          fill_loop g x1 (y + 1) x2 y2 c m
        }
      else Some m)"

declare draw_loop.simps [code] fill_loop.simps [code]

definition gpu_fill_rect :: "gpu_info \<Rightarrow> u32 \<Rightarrow> u32 \<Rightarrow> u32 \<Rightarrow> u32 \<Rightarrow> color \<Rightarrow> mem \<Rightarrow> mem option" where
  "gpu_fill_rect g x1 y1 x2 y2 c m =
     do {
       assert_point g x1 y1;
       assert_point g x2 y2;
       assert (x1 < x2);
       assert (y1 < y2);
       fill_loop g x1 y1 x2 y2 c m
     }"

text \<open>
  Initialisation: the mode information is copied, the frame buffer mapped to itself and the file \<open>gpu_dump\<close>
  created.  \<open>pgdir\<close> is the page directory of the current process and \<open>new\<close> the file object.
\<close>

record graphic =
  g_gpu :: gpu_info
  gvm :: vm
  gfs :: fs
  gmem :: mem

definition gpu_dump_fops :: nat where "gpu_dump_fops = 2"

definition gpu_init :: "u32 \<Rightarrow> gpu_info \<Rightarrow> nat \<Rightarrow> nat option \<Rightarrow> graphic \<Rightarrow> graphic option" where
  "gpu_init pgdir info info_obj new s =
     do {
       let s = s\<lparr>g_gpu := info\<rparr>;
       n \<leftarrow> vram_size (g_gpu s);
       v \<leftarrow> kernel_map pgdir (vram (g_gpu s)) (vram (g_gpu s)) n PTE_W (gvm s);
       let s = s\<lparr>gvm := v\<rparr>;
       d \<leftarrow> sys (gfs s);
       (_, _, f) \<leftarrow> create_file ''gpu_dump'' gpu_dump_fops d info_obj new (gfs s);
       Some (s\<lparr>gfs := f\<rparr>)
     }"

definition graphic_init :: "u32 \<Rightarrow> gpu_info \<Rightarrow> nat \<Rightarrow> nat option \<Rightarrow> graphic \<Rightarrow> graphic option" where
  "graphic_init pgdir info info_obj new s =
     do {
       s \<leftarrow> gpu_init pgdir info info_obj new s;
       let g = g_gpu s;
       m \<leftarrow> gpu_fill_rect g 0 0 (vram_width g - 1) (vram_height g - 1) Ivory (gmem s);
       m \<leftarrow> gpu_fill_rect g 0 (vram_height g - 51) (vram_width g - 1) (vram_height g - 1) LightGreen m;
       Some (s\<lparr>gmem := m\<rparr>)
     }"

section \<open>What the loops write\<close>

definition cbyte :: "color \<Rightarrow> nat \<Rightarrow> u8" where
  "cbyte c k = (if k = 0 then blue c else if k = 1 then green c else red c)"

text \<open>The bytes of \<open>n\<close> colours from address \<open>p\<close> on.\<close>

definition strip :: "nat \<Rightarrow> nat \<Rightarrow> color \<Rightarrow> mem \<Rightarrow> mem" where
  "strip p n c m a = (if p \<le> unat a \<and> unat a < p + 3 * n then cbyte c ((unat a - p) mod 3) else m a)"

lemma put_color_strip:
  assumes "unat p + 3 \<le> 2 ^ 32"
  shows "put_color p c m = strip (unat p) 1 c m"
proof
  fix a
  have u: "unat (p + 1) = unat p + 1" "unat (p + 2) = unat p + 2"
    using assms by (simp_all add: unat_word_ariths)
  have e: "a = p \<longleftrightarrow> unat a = unat p" "a = p + 1 \<longleftrightarrow> unat a = unat p + 1" "a = p + 2 \<longleftrightarrow> unat a = unat p + 2"
    by (metis u word_unat_eq_iff)+
  show "put_color p c m a = strip (unat p) 1 c m a"
    unfolding put_color_def strip_def cbyte_def fun_upd_apply e by auto
qed

lemma strip_0 [simp]: "strip p 0 c m = m"
  by (rule ext) (auto simp: strip_def)

lemma strip_Suc: "strip (p + 3) n c (strip p 1 c m) = strip p (Suc n) c m"
proof
  fix a :: u32
  have "(unat a - (p + 3)) mod 3 = (unat a - p) mod 3" if "p + 3 \<le> unat a"
  proof -
    have "unat a - p = (unat a - (p + 3)) + 3" using that by simp
    then show ?thesis by (metis mod_add_self2)
  qed
  then show "strip (p + 3) n c (strip p 1 c m) a = strip p (Suc n) c m a"
    by (auto simp: strip_def)
qed

lemma draw_loop_strip:
  assumes "unat x + n = unat x2 + 1" "unat x2 + 1 < 2 ^ 32" "unat p + 3 * n \<le> 2 ^ 32"
  shows "draw_loop x x2 p c m = Some (strip (unat p) n c m)"
  using assms
proof (induction n arbitrary: x p m)
  case 0
  then have "\<not> x \<le> x2" by (simp add: word_le_nat_alt)
  then show ?case by (subst draw_loop.simps) simp
next
  case (Suc n)
  have le: "x \<le> x2" using Suc.prems by (simp add: word_le_nat_alt)
  have x: "unat (x + 1) = unat x + 1" using Suc.prems by (simp add: unat_word_ariths)
  have step: "draw_loop x x2 p c m = draw_loop (x + 1) x2 (p + 3) c (strip (unat p) 1 c m)"
    using le Suc.prems put_color_strip [of p c m] by (subst draw_loop.simps) simp
  show ?case
  proof (cases "n = 0")
    case True
    then have "\<not> x + 1 \<le> x2" using x Suc.prems by (simp add: word_le_nat_alt)
    then show ?thesis unfolding step using True by (subst draw_loop.simps) simp
  next
    case False
    then have p: "unat (p + 3) = unat p + 3" using Suc.prems by (simp add: unat_word_ariths)
    have "draw_loop (x + 1) x2 (p + 3) c (strip (unat p) 1 c m)
        = Some (strip (unat (p + 3)) n c (strip (unat p) 1 c m))"
      by (rule Suc.IH) (use x p Suc.prems in simp_all)
    then show ?thesis unfolding step p strip_Suc .
  qed
qed

text \<open>The strips of the rows of a rectangle, \<open>w\<close> pixels per line from \<open>v\<close> on.\<close>

fun strips :: "nat \<Rightarrow> nat \<Rightarrow> nat \<Rightarrow> nat \<Rightarrow> nat \<Rightarrow> nat \<Rightarrow> color \<Rightarrow> mem \<Rightarrow> mem" where
  "strips v w x y n 0 c m = m"
| "strips v w x y n (Suc k) c m = strips v w x (y + 1) n k c (strip (v + 3 * (w * y + x)) n c m)"

text \<open>A frame buffer of 24-bit pixels that does not wrap around the address space.\<close>

definition gpu_ok :: "gpu_info \<Rightarrow> bool" where
  "gpu_ok g \<longleftrightarrow> pixelbits g = 24 \<and> unat (vram g) + 3 * (unat (width g) * unat (height g)) \<le> 2 ^ 32"

definition pixel_at :: "gpu_info \<Rightarrow> nat \<Rightarrow> nat \<Rightarrow> nat" where
  "pixel_at g x y = unat (vram g) + 3 * (unat (width g) * y + x)"

lemma unat_ucast_u16: "unat (ucast (w :: u16) :: u32) = unat w"
proof -
  have "unat w < 2 ^ 16" using unsigned_less [of w] by simp
  then have "unat w < 2 ^ 32" by (rule less_trans) simp
  then show ?thesis unfolding unsigned_ucast_eq by (simp add: take_bit_nat_eq_self_iff)
qed

lemma pixel_inside:
  fixes x w y h :: nat
  assumes "x < w" "y < h"
  shows "w * y + x < w * h"
proof -
  have "w * y + x < w * (y + 1)" using assms(1) by simp
  also have "\<dots> \<le> w * h" using assms(2) by (intro mult_le_mono2) simp
  finally show ?thesis .
qed

lemma vram_pixel_at:
  assumes g: "gpu_ok g" and xy: "unat x < unat (width g)" "unat y < unat (height g)"
  shows "unat (vram_pixel g x y) = pixel_at g (unat x) (unat y)"
proof -
  have b: "pixel_bytes g = 3" using g by (simp add: gpu_ok_def pixel_bytes_def)
  have i: "unat (width g) * unat y + unat x < unat (width g) * unat (height g)" by (rule pixel_inside [OF xy])
  have v: "unat (vram g) + 3 * (unat (width g) * unat (height g)) \<le> 2 ^ 32" using g by (simp add: gpu_ok_def)
  have w: "unat (ucast (width g) :: u32) = unat (width g)" by (rule unat_ucast_u16)
  have m: "unat (ucast (width g) * y) = unat (width g) * unat y"
    using i v by (simp add: unat_word_ariths w)
  have a: "unat (ucast (width g) * y + x) = unat (width g) * unat y + unat x"
    using i v by (simp add: unat_word_ariths(1) m)
  have t: "unat ((ucast (width g) * y + x) * 3) = (unat (width g) * unat y + unat x) * 3"
    using i v unfolding unat_word_ariths(2) a by simp
  show ?thesis
    unfolding vram_pixel_def pixel_at_def b unat_word_ariths(1) t using i v by simp
qed

lemma ex_range_Suc:
  "(\<exists>j. y \<le> j \<and> j < y + Suc k \<and> P j) \<longleftrightarrow> P y \<or> (\<exists>j. y + 1 \<le> j \<and> j < y + 1 + k \<and> P (j :: nat))"
  (is "?l \<longleftrightarrow> ?r")
proof
  assume ?l
  then obtain j where j: "y \<le> j" "j < y + Suc k" "P j" by blast
  show ?r
  proof (cases "j = y")
    case False
    then have "y + 1 \<le> j" "j < y + 1 + k" using j by simp_all
    then show ?thesis using j(3) by blast
  qed (use j in simp)
next
  assume ?r
  then show ?l
  proof
    assume "P y"
    then show ?l by (intro exI [of _ y]) simp
  next
    assume "\<exists>j. y + 1 \<le> j \<and> j < y + 1 + k \<and> P j"
    then obtain j where j: "y + 1 \<le> j" "j < y + 1 + k" "P j" by blast
    then show ?l by (intro exI [of _ j]) simp
  qed
qed

lemma strips_apply:
  "strips v w x y n k c m a =
     (if \<exists>j. y \<le> j \<and> j < y + k \<and> v + 3 * (w * j + x) \<le> unat a \<and> unat a < v + 3 * (w * j + x) + 3 * n
      then cbyte c ((unat a - v) mod 3) else m a)"
proof (induction k arbitrary: y m)
  case (Suc k)
  have "(unat a - (v + 3 * q)) mod 3 = (unat a - v) mod 3" if "v + 3 * q \<le> unat a" for q
  proof -
    have "unat a - v = (unat a - (v + 3 * q)) + 3 * q" using that by simp
    then show ?thesis by (metis mod_mult_self2)
  qed
  then have st: "strip (v + 3 * q) n c m a =
      (if v + 3 * q \<le> unat a \<and> unat a < v + 3 * q + 3 * n then cbyte c ((unat a - v) mod 3) else m a)" for q
    by (simp add: strip_def)
  define P where "P j \<longleftrightarrow> v + 3 * (w * j + x) \<le> unat a \<and> unat a < v + 3 * (w * j + x) + 3 * n" for j
  have "strips v w x y n (Suc k) c m a
      = (if \<exists>j. y + 1 \<le> j \<and> j < y + 1 + k \<and> P j then cbyte c ((unat a - v) mod 3)
         else if P y then cbyte c ((unat a - v) mod 3) else m a)"
    unfolding strips.simps Suc.IH st P_def [symmetric] by (rule refl)
  then show ?case unfolding P_def [symmetric] ex_range_Suc by auto
qed auto

lemma row_fits: "q + x2 < t \<Longrightarrow> v + 3 * t \<le> b \<Longrightarrow> x1 + n = x2 + 1 \<Longrightarrow> v + 3 * (q + x1) + 3 * n \<le> b" for q :: nat
  by presburger

lemma fill_loop_strips:
  assumes g: "gpu_ok g" and x: "unat x1 \<le> unat x2" "unat x2 < unat (width g)"
    and y: "unat y + k = unat y2 + 1" "unat y2 < unat (height g)"
  shows "fill_loop g x1 y x2 y2 c m
    = Some (strips (unat (vram g)) (unat (width g)) (unat x1) (unat y) (unat x2 + 1 - unat x1) k c m)"
  using y
proof (induction k arbitrary: y m)
  case 0
  then have "\<not> y \<le> y2" by (simp add: word_le_nat_alt)
  then show ?case by (subst fill_loop.simps) simp
next
  case (Suc k)
  define n where "n = unat x2 + 1 - unat x1"
  then have n: "unat x1 + n = unat x2 + 1" using x(1) by simp
  have h: "unat (height g) < 2 ^ 16" "unat (width g) < 2 ^ 16"
    using unsigned_less [of "height g"] unsigned_less [of "width g"] by simp_all
  have le: "y \<le> y2" using Suc.prems by (simp add: word_le_nat_alt)
  have y1: "unat (y + 1) = unat y + 1" using Suc.prems h by (simp add: unat_word_ariths)
  have yh: "unat y < unat (height g)" using Suc.prems by simp
  have p: "unat (vram_pixel g x1 y) = pixel_at g (unat x1) (unat y)"
    by (rule vram_pixel_at [OF g]) (use x yh in simp_all)
  have "unat (width g) * unat y + unat x2 < unat (width g) * unat (height g)" by (rule pixel_inside [OF x(2) yh])
  moreover have "unat (vram g) + 3 * (unat (width g) * unat (height g)) \<le> 2 ^ 32" using g by (simp add: gpu_ok_def)
  ultimately have b: "pixel_at g (unat x1) (unat y) + 3 * n \<le> 2 ^ 32" using n unfolding pixel_at_def by (rule row_fits)
  have "draw_loop x1 x2 (vram_pixel g x1 y) c m = Some (strip (pixel_at g (unat x1) (unat y)) n c m)"
    using draw_loop_strip [of x1 n x2 "vram_pixel g x1 y" c m] n x h b by (simp add: p)
  then have "fill_loop g x1 y x2 y2 c m = fill_loop g x1 (y + 1) x2 y2 c (strip (pixel_at g (unat x1) (unat y)) n c m)"
    using le by (subst fill_loop.simps) simp
  then show ?case using Suc.IH [of "y + 1"] y1 Suc.prems by (simp add: pixel_at_def n_def)
qed

text \<open>The bytes of the pixels of a rectangle.\<close>

definition in_rect :: "gpu_info \<Rightarrow> nat \<Rightarrow> nat \<Rightarrow> nat \<Rightarrow> nat \<Rightarrow> nat \<Rightarrow> bool" where
  "in_rect g x1 y1 x2 y2 a \<longleftrightarrow>
     (\<exists>i j k. x1 \<le> i \<and> i \<le> x2 \<and> y1 \<le> j \<and> j \<le> y2 \<and> k < 3 \<and> a = pixel_at g i j + k)"

lemma row_bytes:
  fixes a p x1 x2 :: nat
  assumes "x1 \<le> x2"
  shows "(\<exists>i k. x1 \<le> i \<and> i \<le> x2 \<and> k < 3 \<and> a = p + 3 * i + k) \<longleftrightarrow> p + 3 * x1 \<le> a \<and> a < p + 3 * x1 + 3 * (x2 + 1 - x1)"
  (is "?l \<longleftrightarrow> ?r")
proof
  assume ?l
  then show ?r using assms by auto
next
  assume r: ?r
  have "a = p + 3 * ((a - p) div 3) + (a - p) mod 3" using r by simp
  moreover have "x1 \<le> (a - p) div 3" "(a - p) div 3 \<le> x2" using r assms by linarith+
  moreover have "(a - p) mod 3 < 3" by simp
  ultimately show ?l by blast
qed

lemma in_rect_rows:
  assumes "x1 \<le> x2" "y1 + k = y2 + 1"
  shows "in_rect g x1 y1 x2 y2 a \<longleftrightarrow> (\<exists>j. y1 \<le> j \<and> j < y1 + k \<and>
    unat (vram g) + 3 * (unat (width g) * j + x1) \<le> a \<and>
    a < unat (vram g) + 3 * (unat (width g) * j + x1) + 3 * (x2 + 1 - x1))"
proof -
  have "in_rect g x1 y1 x2 y2 a \<longleftrightarrow> (\<exists>j. y1 \<le> j \<and> j < y1 + k \<and>
      (\<exists>i k. x1 \<le> i \<and> i \<le> x2 \<and> k < 3 \<and> a = unat (vram g) + 3 * (unat (width g) * j) + 3 * i + k))"
    unfolding in_rect_def pixel_at_def using assms(2) by (fastforce simp: less_Suc_eq_le add_mult_distrib2)
  then show ?thesis unfolding row_bytes [OF assms(1)] by (simp add: add_mult_distrib2 add.assoc)
qed

lemma assert_point_Some: "assert_point g x y = Some () \<longleftrightarrow> unat x < unat (width g) \<and> unat y < unat (height g)"
  by (simp add: assert_point_def assert_def word_less_nat_alt unat_ucast_u16)

text \<open>
  C35: on a frame buffer of 24-bit pixels \<^const>\<open>gpu_fill_rect\<close> returns exactly when its two corners lie on the screen and
  the second is right of and below the first; then exactly the bytes of the pixels of the rectangle, both corners
  included, hold the colour, and every other byte of memory is unchanged.
\<close>

theorem gpu_fill_rect_spec:
  assumes "gpu_ok g"
  shows "gpu_fill_rect g x1 y1 x2 y2 c m =
    (if x1 < x2 \<and> unat x2 < unat (width g) \<and> y1 < y2 \<and> unat y2 < unat (height g)
     then Some (\<lambda>a. if in_rect g (unat x1) (unat y1) (unat x2) (unat y2) (unat a)
                    then cbyte c ((unat a - unat (vram g)) mod 3) else m a)
     else None)"
proof (cases "x1 < x2 \<and> unat x2 < unat (width g) \<and> y1 < y2 \<and> unat y2 < unat (height g)")
  case True
  then have x: "unat x1 \<le> unat x2" "unat x2 < unat (width g)" and y: "unat y1 \<le> unat y2" "unat y2 < unat (height g)"
    by (simp_all add: word_less_nat_alt)
  obtain k where k: "unat y1 + k = unat y2 + 1" using y(1) by (metis le_Suc_ex add.assoc)
  have "assert_point g x1 y1 = Some ()" "assert_point g x2 y2 = Some ()"
    unfolding assert_point_Some using x y by simp_all
  then have "gpu_fill_rect g x1 y1 x2 y2 c m = fill_loop g x1 y1 x2 y2 c m"
    using True by (simp add: gpu_fill_rect_def)
  also have "\<dots> = Some (strips (unat (vram g)) (unat (width g)) (unat x1) (unat y1) (unat x2 + 1 - unat x1) k c m)"
    by (rule fill_loop_strips [OF assms x k y(2)])
  finally show ?thesis
    using True by (simp add: fun_eq_iff strips_apply in_rect_rows [OF x(1) k])
next
  case False
  then have "assert_point g x2 y2 = None \<or> \<not> x1 < x2 \<or> \<not> y1 < y2"
    unfolding assert_point_Some [symmetric] by (cases "assert_point g x2 y2") (auto simp: assert_point_Some)
  then show ?thesis using False
    by (cases "assert_point g x1 y1"; cases "assert_point g x2 y2") (auto simp: gpu_fill_rect_def)
qed

theorem gpu_fill_rect_spec_witness:
  "let g = \<lparr>cyls = 0, leds = 0, vmode = 0, reserve1 = 0, width = 4, height = 3, pixelbits = 24, mem_model = 0,
            reserve2 = 0, vram = 0xE0000000, pixelbytes = 0\<rparr>
   in \<exists>m. gpu_fill_rect g 1 0 2 1 Ivory (\<lambda>_. 0) = Some m \<and> m 0xE0000003 = 0xF0 \<and> m 0xE0000002 = 0"
proof -
  let ?g = "\<lparr>cyls = 0, leds = 0, vmode = 0, reserve1 = 0, width = 4, height = 3, pixelbits = 24, mem_model = 0,
            reserve2 = 0, vram = 0xE0000000, pixelbytes = 0\<rparr>"
  have g: "gpu_ok ?g" by (simp add: gpu_ok_def)
  have "in_rect ?g 1 0 2 1 0xE0000003" unfolding in_rect_def pixel_at_def
    by (rule exI [of _ 1], rule exI [of _ 0], rule exI [of _ 0]) simp
  moreover have "\<not> in_rect ?g 1 0 2 1 0xE0000002" unfolding in_rect_def pixel_at_def by auto
  ultimately show ?thesis
    using gpu_fill_rect_spec [OF g, of 1 0 2 1 Ivory "\<lambda>_. 0"] by (simp add: cbyte_def Ivory_def)
qed

end
