(* ===== verification/Mem_Fields.thy ===== *)
theory Mem_Fields
  imports Mem_Strings
begin

unbundle bit_operations_syntax

text \<open>Little-endian fields of structures in memory.\<close>

definition get_u16 :: "mem \<Rightarrow> u32 \<Rightarrow> u16" where
  "get_u16 m a = ucast (m a) OR push_bit 8 (ucast (m (a + 1)))"

definition get_u32 :: "mem \<Rightarrow> u32 \<Rightarrow> u32" where
  "get_u32 m a = ucast (get_u16 m a) OR push_bit 16 (ucast (get_u16 m (a + 2)))"

definition put_u32 :: "u32 \<Rightarrow> u32 \<Rightarrow> mem \<Rightarrow> mem" where
  "put_u32 a v m =
     m(a := ucast v, a + 1 := ucast (drop_bit 8 v), a + 2 := ucast (drop_bit 16 v), a + 3 := ucast (drop_bit 24 v))"

text \<open>The same for a sequence of bytes, such as the contents of a disk.\<close>

definition half_at :: "(nat \<Rightarrow> u8) \<Rightarrow> nat \<Rightarrow> u16" where
  "half_at d i = ucast (d i) OR push_bit 8 (ucast (d (i + 1)))"

definition word_at :: "(nat \<Rightarrow> u8) \<Rightarrow> nat \<Rightarrow> u32" where
  "word_at d i = ucast (half_at d i) OR push_bit 16 (ucast (half_at d (i + 2)))"

text \<open>A field depends on its bytes only.\<close>

lemma get_u16_cong: "m a = m' a \<Longrightarrow> m (a + 1) = m' (a + 1) \<Longrightarrow> get_u16 m a = get_u16 m' a"
  by (simp add: get_u16_def)

lemma get_u32_cong:
  "m a = m' a \<Longrightarrow> m (a + 1) = m' (a + 1) \<Longrightarrow> m (a + 2) = m' (a + 2) \<Longrightarrow> m (a + 3) = m' (a + 3) \<Longrightarrow> get_u32 m a = get_u32 m' a"
  by (simp add: get_u32_def get_u16_def add.assoc)

text \<open>Storing the four bytes of a word of a disk stores the bytes of the disk.\<close>

lemma word_at_bytes:
  "(ucast (word_at d i) :: u8) = d i" "(ucast (drop_bit 8 (word_at d i)) :: u8) = d (i + 1)"
  "(ucast (drop_bit 16 (word_at d i)) :: u8) = d (i + 2)" "(ucast (drop_bit 24 (word_at d i)) :: u8) = d (i + 3)"
proof -
  have b: "\<not> bit (x :: u8) k" if "8 \<le> k" for x k using that bit_imp_le_length [of x k] by auto
  show "(ucast (word_at d i) :: u8) = d i" "(ucast (drop_bit 8 (word_at d i)) :: u8) = d (i + 1)"
    "(ucast (drop_bit 16 (word_at d i)) :: u8) = d (i + 2)" "(ucast (drop_bit 24 (word_at d i)) :: u8) = d (i + 3)"
    unfolding word_at_def half_at_def by (rule bit_word_eqI; simp add: bit_simps b numeral_3_eq_3)+
qed

lemma put_word_at: "put_u32 a (word_at d i) m = m(a := d i, a + 1 := d (i + 1), a + 2 := d (i + 2), a + 3 := d (i + 3))"
  by (simp add: put_u32_def word_at_bytes)

end
