(* ===== verification/Descriptors.thy ===== *)
theory Descriptors
  imports Prelude
begin

unbundle bit_operations_syntax

text \<open>
  The descriptor tables: the segment descriptors of \<^verbatim>\<open>mm/memory.c\<close> and the interrupt gates of \<^verbatim>\<open>kernel/irq.c\<close>.  A
  descriptor is a structure of bit fields; its 64 bits have the fields from the lowest bit upwards.  The
  reading of the bits by the processor is written out from its manual, and the functions that fill a descriptor
  are shown to store what the processor reads.
\<close>

section \<open>Segments\<close>

record seg_desc =
  lim_15_0 :: "16 word"
  base_15_0 :: "16 word"
  base_23_16 :: "8 word"
  seg_type :: "4 word"
  seg_s :: "1 word"
  seg_dpl :: "2 word"
  present :: "1 word"
  lim_19_16 :: "4 word"
  avl :: "1 word"
  seg_l :: "1 word"
  db :: "1 word"
  gran :: "1 word"
  base_31_24 :: "8 word"

definition STA_X :: u8 where "STA_X = 0x8"
definition STA_W :: u8 where "STA_W = 0x2"
definition STA_R :: u8 where "STA_R = 0x2"
definition SEG_KTEXT :: nat where "SEG_KTEXT = 1"
definition SEG_KDATA :: nat where "SEG_KDATA = 2"
definition SEG_UTEXT :: nat where "SEG_UTEXT = 3"
definition SEG_UDATA :: nat where "SEG_UDATA = 4"
definition SEG_MAX :: nat where "SEG_MAX = 6"
definition DPL_KERNEL :: u32 where "DPL_KERNEL = 0"
definition DPL_USER :: u32 where "DPL_USER = 3"

lemmas seg_consts = STA_X_def STA_W_def STA_R_def SEG_KTEXT_def SEG_KDATA_def SEG_UTEXT_def SEG_UDATA_def SEG_MAX_def
  DPL_KERNEL_def DPL_USER_def

definition seg_init :: "u8 \<Rightarrow> u32 \<Rightarrow> u32 \<Rightarrow> u32 \<Rightarrow> bool \<Rightarrow> seg_desc" where
  "seg_init type base limit dpl g =
     (let limit = (if g then drop_bit 12 limit else limit)
      in \<lparr>lim_15_0 = ucast (limit AND 0xFFFF), base_15_0 = ucast (base AND 0xFFFF),
          base_23_16 = ucast (drop_bit 16 base AND 0xFF), seg_type = ucast type, seg_s = 1, seg_dpl = ucast dpl,
          present = 1, lim_19_16 = ucast (drop_bit 16 limit AND 0xF), avl = 0, seg_l = 0, db = 1, gran = of_bool g,
          base_31_24 = ucast (drop_bit 24 base AND 0xFF)\<rparr>)"

text \<open>
  The operand of \<open>lgdt\<close> and \<open>lidt\<close>, and the registers of the processor that \<open>gdt_init\<close> loads: the register of the
  table and the segment registers.  The address of the table is given by the linker.  The far jump at the end
  loads \<open>cs\<close>.
\<close>

record pseudodesc =
  pd_lim :: "16 word"
  pd_base :: u32

record seg_regs =
  gdtr :: pseudodesc
  reg_cs :: "16 word"
  reg_ds :: "16 word"
  reg_es :: "16 word"
  reg_fs :: "16 word"
  reg_gs :: "16 word"
  reg_ss :: "16 word"

definition GD_KTEXT :: u32 where "GD_KTEXT = push_bit 3 (of_nat SEG_KTEXT)"
definition GD_KDATA :: u32 where "GD_KDATA = push_bit 3 (of_nat SEG_KDATA)"
definition GD_UDATA :: u32 where "GD_UDATA = push_bit 3 (of_nat SEG_UDATA)"
definition USER_DS :: u32 where "USER_DS = GD_UDATA OR DPL_USER"

definition gdt_init :: "u32 \<Rightarrow> seg_desc list \<times> seg_regs \<Rightarrow> seg_desc list \<times> seg_regs" where
  "gdt_init gdt_at s =
     (case s of (gdt, r) \<Rightarrow>
        let gdt = gdt[SEG_KTEXT := seg_init (STA_X OR STA_R) 0x0 0xFFFFFFFF DPL_KERNEL True];
            gdt = gdt[SEG_KDATA := seg_init STA_W 0x0 0xFFFFFFFF DPL_KERNEL True];
            gdt = gdt[SEG_UTEXT := seg_init (STA_X OR STA_R) 0x0 0xFFFFFFFF DPL_USER True];
            gdt = gdt[SEG_UDATA := seg_init STA_W 0x0 0xFFFFFFFF DPL_USER True];
            r = r\<lparr>gdtr := \<lparr>pd_lim = of_nat (8 * SEG_MAX - 1), pd_base = gdt_at\<rparr>\<rparr>;
            r = r\<lparr>reg_gs := ucast USER_DS\<rparr>;
            r = r\<lparr>reg_fs := ucast USER_DS\<rparr>;
            r = r\<lparr>reg_es := ucast (GD_KDATA OR DPL_KERNEL)\<rparr>;
            r = r\<lparr>reg_ds := ucast (GD_KDATA OR DPL_KERNEL)\<rparr>;
            r = r\<lparr>reg_ss := ucast (GD_KDATA OR DPL_KERNEL)\<rparr>
        in (gdt, r\<lparr>reg_cs := ucast (GD_KTEXT OR DPL_KERNEL)\<rparr>))"

section \<open>Interrupt gates\<close>

record gate_desc =
  offset_15_0 :: "16 word"
  selector :: "16 word"
  gate_args :: "5 word"
  gate_rsv :: "3 word"
  gate_type :: "4 word"
  gate_s :: "1 word"
  gate_dpl :: "2 word"
  gate_p :: "1 word"
  offset_31_16 :: "16 word"

definition IRQ_NUM :: nat where "IRQ_NUM = 256"
definition STS_IG32 :: "4 word" where "STS_IG32 = 0xE"
definition STS_TG32 :: "4 word" where "STS_TG32 = 0xF"

definition set_gate :: "u32 \<Rightarrow> u32 \<Rightarrow> u32 \<Rightarrow> u32 \<Rightarrow> gate_desc" where
  "set_gate istrap sel offset dpl =
     \<lparr>offset_15_0 = ucast (offset AND 0xFFFF), selector = ucast sel, gate_args = 0, gate_rsv = 0,
      gate_type = (if istrap \<noteq> 0 then STS_TG32 else STS_IG32), gate_s = 0, gate_dpl = ucast dpl, gate_p = 1,
      offset_31_16 = ucast (drop_bit 16 offset AND 0xFFFF)\<rparr>"

text \<open>
  The entry routines are laid out by the linker; their addresses \<open>__vectors\<close> and the address of the table are
  arguments.  A table shorter than 66 entries is read out of bounds.  The second result is what \<open>lidt\<close> loads into the
  register of the interrupt table.
\<close>

definition idt_init :: "u32 list \<Rightarrow> u32 \<Rightarrow> gate_desc list \<Rightarrow> (gate_desc list \<times> pseudodesc) option" where
  "idt_init vectors idt_at idt =
     do {
       assert (65 < length vectors \<and> length idt = IRQ_NUM);
       let idt = fold (\<lambda>i idt. idt[i := set_gate 0 GD_KTEXT (vectors ! i) DPL_KERNEL]) [0 ..< 65] idt;
       let idt = fold (\<lambda>i idt. idt[i := set_gate 0 GD_KTEXT (vectors ! 65) DPL_KERNEL]) [65 ..< 256] idt;
       Some (idt, \<lparr>pd_lim = of_nat (8 * IRQ_NUM - 1), pd_base = idt_at\<rparr>)
     }"

section \<open>What the processor reads\<close>

fun pack :: "(nat \<times> u64) list \<Rightarrow> u64" where
  "pack [] = 0"
| "pack ((n, v) # fs) = take_bit n v OR push_bit n (pack fs)"

definition seg_bits :: "seg_desc \<Rightarrow> u64" where
  "seg_bits d = pack [(16, ucast (lim_15_0 d)), (16, ucast (base_15_0 d)), (8, ucast (base_23_16 d)), (4, ucast (seg_type d)),
     (1, ucast (seg_s d)), (2, ucast (seg_dpl d)), (1, ucast (present d)), (4, ucast (lim_19_16 d)), (1, ucast (avl d)),
     (1, ucast (seg_l d)), (1, ucast (db d)), (1, ucast (gran d)), (8, ucast (base_31_24 d))]"

definition gate_bits :: "gate_desc \<Rightarrow> u64" where
  "gate_bits d = pack [(16, ucast (offset_15_0 d)), (16, ucast (selector d)), (5, ucast (gate_args d)), (3, ucast (gate_rsv d)),
     (4, ucast (gate_type d)), (1, ucast (gate_s d)), (2, ucast (gate_dpl d)), (1, ucast (gate_p d)), (16, ucast (offset_31_16 d))]"

text \<open>A field of \<open>n\<close> bits from bit \<open>k\<close> on.\<close>

definition field :: "nat \<Rightarrow> nat \<Rightarrow> u64 \<Rightarrow> u32" where
  "field k n w = ucast (take_bit n (drop_bit k w))"

definition cpu_base :: "u64 \<Rightarrow> u32" where
  "cpu_base w = field 16 16 w OR push_bit 16 (field 32 8 w) OR push_bit 24 (field 56 8 w)"

definition cpu_limit :: "u64 \<Rightarrow> u32" where
  "cpu_limit w =
     (let l = field 0 16 w OR push_bit 16 (field 48 4 w)
      in if field 55 1 w = 1 then push_bit 12 l OR 0xFFF else l)"

definition cpu_gate_offset :: "u64 \<Rightarrow> u32" where
  "cpu_gate_offset w = field 0 16 w OR push_bit 16 (field 48 16 w)"

lemma drop_pack:
  assumes "n \<le> k" "n + sum_list (map fst fs) \<le> 64"
  shows "drop_bit k (pack ((n, v) # fs)) = drop_bit (k - n) (pack fs)"
proof (rule bit_word_eqI)
  have "\<not> bit (pack fs) i" if "sum_list (map fst fs) \<le> i" for i
    using that by (induction fs arbitrary: i rule: pack.induct) (auto simp: bit_simps)
  then show "bit (drop_bit k (pack ((n, v) # fs))) i \<longleftrightarrow> bit (drop_bit (k - n) (pack fs)) i" if "i < LENGTH(64)" for i
    using assms by (cases "k + i < 64") (auto simp: bit_simps not_less)
qed

lemma take_pack:
  assumes "n \<le> k"
  shows "take_bit k (pack ((n, v) # fs)) = take_bit n v OR push_bit n (take_bit (k - n) (pack fs))"
  using assms by (intro bit_word_eqI) (auto simp: bit_simps)

declare pack.simps(2) [simp del]

lemma ucast_field:
  fixes w :: "'a :: len word"
  assumes "LENGTH('a) \<le> n"
  shows "(ucast (take_bit n (ucast w :: u64)) :: u32) = ucast w"
proof (rule bit_word_eqI)
  fix i assume "i < LENGTH(32)"
  moreover have "i < n" if "bit w i" using bit_imp_le_length [OF that] assms by simp
  ultimately show "bit (ucast (take_bit n (ucast w :: u64)) :: u32) i \<longleftrightarrow> bit (ucast w :: u32) i"
    by (auto simp: bit_simps)
qed

lemmas pack_fields = drop_pack take_pack take_bit_0 ucast_field

lemma gate_fields:
  "field 0 16 (gate_bits d) = ucast (offset_15_0 d)" "field 16 16 (gate_bits d) = ucast (selector d)"
  "field 40 4 (gate_bits d) = ucast (gate_type d)" "field 44 1 (gate_bits d) = ucast (gate_s d)"
  "field 45 2 (gate_bits d) = ucast (gate_dpl d)" "field 47 1 (gate_bits d) = ucast (gate_p d)"
  "field 48 16 (gate_bits d) = ucast (offset_31_16 d)"
  unfolding field_def gate_bits_def by (simp_all add: pack_fields del: take_bit_Suc_0)

lemma seg_fields:
  "field 0 16 (seg_bits d) = ucast (lim_15_0 d)" "field 40 4 (seg_bits d) = ucast (seg_type d)"
  "field 16 16 (seg_bits d) = ucast (base_15_0 d)" "field 32 8 (seg_bits d) = ucast (base_23_16 d)"
  "field 44 1 (seg_bits d) = ucast (seg_s d)"
  "field 45 2 (seg_bits d) = ucast (seg_dpl d)" "field 47 1 (seg_bits d) = ucast (present d)"
  "field 48 4 (seg_bits d) = ucast (lim_19_16 d)"
  "field 54 1 (seg_bits d) = ucast (db d)" "field 55 1 (seg_bits d) = ucast (gran d)" "field 56 8 (seg_bits d) = ucast (base_31_24 d)"
  unfolding field_def seg_bits_def by (simp_all add: pack_fields del: take_bit_Suc_0)

lemma and_masks:
  fixes w :: u32
  shows "w AND 0xF = take_bit 4 w" "w AND 0xFF = take_bit 8 w" "w AND 0xFFFF = take_bit 16 w" "(0xFFF :: u32) = mask 12"
  by (simp_all add: take_bit_eq_mask mask_eq_exp_minus_1)

lemma split_halves: "(ucast (ucast (w AND 0xFFFF) :: 16 word) :: u32) OR push_bit 16 (ucast (ucast (drop_bit 16 w AND 0xFFFF) :: 16 word)) = w"
  unfolding and_masks by (rule bit_word_eqI) (auto simp: bit_simps)

lemma set_gate_offset: "cpu_gate_offset (gate_bits (set_gate t s off d)) = off"
  unfolding cpu_gate_offset_def gate_fields by (simp add: set_gate_def split_halves)

lemma seg_init_base: "cpu_base (seg_bits (seg_init t b l d g)) = b"
  unfolding cpu_base_def seg_fields
proof (rule bit_word_eqI)
  fix n assume "n < LENGTH(32)"
  then show "bit (ucast (base_15_0 (seg_init t b l d g)) OR push_bit 16 (ucast (base_23_16 (seg_init t b l d g))) OR
      push_bit 24 (ucast (base_31_24 (seg_init t b l d g)) :: u32)) n = bit b n"
    by (cases "n < 24") (auto simp: seg_init_def Let_def and_masks bit_simps)
qed

lemma limit_join: "(ucast (ucast (l AND 0xFFFF) :: 16 word) :: u32) OR push_bit 16 (ucast (ucast (drop_bit 16 l AND 0xF) :: 4 word)) = take_bit 20 l"
  unfolding and_masks by (rule bit_word_eqI) (auto simp: bit_simps)

lemma seg_init_limit: "cpu_limit (seg_bits (seg_init t b l d g)) = (if g then l OR 0xFFF else take_bit 20 l)"
proof -
  have "push_bit 12 (take_bit 20 (drop_bit 12 l)) OR 0xFFF = l OR 0xFFF"
    unfolding and_masks by (rule bit_word_eqI) (auto simp: bit_simps)
  moreover have "(ucast (lim_15_0 (seg_init t b l d g)) :: u32) OR push_bit 16 (ucast (lim_19_16 (seg_init t b l d g)))
      = take_bit 20 (if g then drop_bit 12 l else l)"
    unfolding limit_join [symmetric] by (simp add: seg_init_def)
  moreover have "(ucast (gran (seg_init t b l d g)) :: u32) = 1 \<longleftrightarrow> g" by (simp add: seg_init_def)
  ultimately show ?thesis unfolding cpu_limit_def seg_fields by simp
qed

lemma nth_fold_update:
  "i < length xs \<Longrightarrow> distinct js \<Longrightarrow> fold (\<lambda>j xs. xs[j := f j]) js xs ! i = (if i \<in> set js then f i else xs ! i)"
proof (induction js arbitrary: xs)
  case (Cons j js)
  then show ?case by (cases "i = j") simp_all
qed simp

lemma length_fold_update [simp]: "length (fold (\<lambda>j xs. xs[j := f j]) js xs) = length xs"
  by (induction js arbitrary: xs) simp_all

text \<open>
  C33: after \<^const>\<open>idt_init\<close> the interrupt table register of the processor points to the table and its limit admits
  all 256 interrupt numbers; for each of them the processor finds a present interrupt gate of privilege 0 in the
  kernel text segment, whose target is the entry routine of the number, or the routine number 65 for all numbers
  from 65 on.
\<close>

theorem idt_init_spec:
  assumes "65 < length vectors" "length idt = IRQ_NUM"
  shows "\<exists>idt' r. idt_init vectors idt_at idt = Some (idt', r) \<and> length idt' = IRQ_NUM \<and> pd_base r = idt_at \<and>
    (\<forall>i < IRQ_NUM. 8 * i + 7 \<le> unat (pd_lim r) \<and>
      (let w = gate_bits (idt' ! i)
       in cpu_gate_offset w = vectors ! (min i 65) \<and> field 16 16 w = 8 \<and> field 40 4 w = 0xE \<and> field 44 1 w = 0 \<and>
          field 45 2 w = 0 \<and> field 47 1 w = 1))"
proof -
  let ?g = "\<lambda>v. set_gate 0 GD_KTEXT v DPL_KERNEL"
  let ?a = "fold (\<lambda>i idt. idt[i := ?g (vectors ! i)]) [0 ..< 65] idt"
  let ?b = "fold (\<lambda>i idt. idt[i := ?g (vectors ! 65)]) [65 ..< 256] ?a"
  have "?b ! i = ?g (vectors ! min i 65)" if "i < IRQ_NUM" for i
  proof -
    have "?b ! i = (if i \<in> set [65 ..< 256] then ?g (vectors ! 65) else ?a ! i)"
      by (rule nth_fold_update) (use assms(2) that in \<open>simp_all del: upt_rec_numeral\<close>)
    moreover have "?a ! i = (if i \<in> set [0 ..< 65] then ?g (vectors ! i) else idt ! i)"
      by (rule nth_fold_update) (use assms(2) that in \<open>simp_all del: upt_rec_numeral\<close>)
    ultimately show ?thesis using that unfolding set_upt atLeastLessThan_iff by (simp add: IRQ_NUM_def min_def)
  qed
  moreover let ?r = "\<lparr>pd_lim = of_nat (8 * IRQ_NUM - 1), pd_base = idt_at\<rparr>"
  have "idt_init vectors idt_at idt = Some (?b, ?r)" "length ?b = IRQ_NUM"
    using assms by (simp_all add: idt_init_def del: upt_rec_numeral)
  moreover have "8 * i + 7 \<le> unat (pd_lim ?r)" if "i < IRQ_NUM" for i using that by (simp add: IRQ_NUM_def)
  moreover have "field 16 16 (gate_bits (?g v)) = 8" "field 40 4 (gate_bits (?g v)) = 0xE" "field 44 1 (gate_bits (?g v)) = 0"
    "field 45 2 (gate_bits (?g v)) = 0" "field 47 1 (gate_bits (?g v)) = 1" for v
    unfolding gate_fields by (simp_all add: set_gate_def GD_KTEXT_def SEG_KTEXT_def STS_IG32_def DPL_KERNEL_def)
  ultimately show ?thesis
    unfolding Let_def by (intro exI [of _ ?b] exI [of _ ?r] conjI allI impI) (simp_all only: set_gate_offset pseudodesc.simps)
qed

theorem idt_init_spec_witness:
  "\<exists>idt' r. idt_init (map (\<lambda>i. 0xC0100000 + 16 * of_nat i) [0 ..< 66]) 0xC0110000 (replicate 256 (set_gate 0 0 0 0)) = Some (idt', r) \<and>
     cpu_gate_offset (gate_bits (idt' ! 33)) = 0xC0100210"
proof -
  have v: "65 < length (map (\<lambda>i. 0xC0100000 + 16 * of_nat i :: u32) [0 ..< 66])" by simp
  have l: "length (replicate 256 (set_gate 0 0 0 0)) = IRQ_NUM" by (simp add: IRQ_NUM_def)
  have "(33 :: nat) < IRQ_NUM" "min 33 65 = (33 :: nat)" by (simp_all add: IRQ_NUM_def)
  moreover have "map (\<lambda>i. 0xC0100000 + 16 * of_nat i :: u32) [0 ..< 66] ! 33 = 0xC0100210" by simp
  ultimately show ?thesis using idt_init_spec [OF v l, of "0xC0110000"] unfolding Let_def by metis
qed

text \<open>
  The four segments \<^const>\<open>gdt_init\<close> sets up are, for the processor, present 32-bit segments from address 0 to
  the last address, code or data, of privilege 0 for the kernel and 3 for user programs.
\<close>

theorem gdt_init_flat:
  assumes "length gdt = SEG_MAX"
  shows "list_all2 (\<lambda>w (k, t, d). cpu_base w = 0 \<and> cpu_limit w = 0xFFFFFFFF \<and> field 40 4 w = t \<and> field 45 2 w = d \<and>
      field 44 1 w = 1 \<and> field 47 1 w = 1 \<and> field 54 1 w = 1)
    (map (\<lambda>i. seg_bits (fst (gdt_init gdt_at (gdt, r)) ! i)) [SEG_KTEXT, SEG_KDATA, SEG_UTEXT, SEG_UDATA])
    [(SEG_KTEXT, 0xA, 0), (SEG_KDATA, 0x2, 0), (SEG_UTEXT, 0xA, 3), (SEG_UDATA, 0x2, 3)]"
proof -
  have g: "fst (gdt_init gdt_at (gdt, r)) ! SEG_KTEXT = seg_init 0xA 0 0xFFFFFFFF 0 True" "fst (gdt_init gdt_at (gdt, r)) ! SEG_KDATA = seg_init 2 0 0xFFFFFFFF 0 True"
    "fst (gdt_init gdt_at (gdt, r)) ! SEG_UTEXT = seg_init 0xA 0 0xFFFFFFFF 3 True" "fst (gdt_init gdt_at (gdt, r)) ! SEG_UDATA = seg_init 2 0 0xFFFFFFFF 3 True"
    using assms by (simp_all add: gdt_init_def seg_consts)
  have f: "seg_type (seg_init t b l d g) = ucast t" "seg_dpl (seg_init t b l d g) = ucast d" "seg_s (seg_init t b l d g) = 1"
    "present (seg_init t b l d g) = 1" "db (seg_init t b l d g) = 1" for t b l d g
    by (simp_all add: seg_init_def Let_def)
  show ?thesis by (simp add: g f seg_init_base seg_init_limit seg_fields del: One_nat_def, simp)
qed

theorem gdt_init_flat_witness:
  "\<forall>r. cpu_limit (seg_bits (fst (gdt_init 0xC0120000 (replicate 6 (seg_init 0 0 0 0 False), r)) ! SEG_UDATA)) = 0xFFFFFFFF"
  using gdt_init_flat [of "replicate 6 (seg_init 0 0 0 0 False)" "0xC0120000"] by (simp add: SEG_MAX_def)

end
