(* ===== verification/Schedule.thy ===== *)
theory Schedule
  imports Fs Locks Kstrings
begin

text \<open>
  Threads and the run queues of \<^verbatim>\<open>schedule/schedule.c\<close>.  A thread is an object of the kernel heap named by a
  number; the calls of \<open>kmalloc\<close> have their results as arguments.  There is one process, \<open>init_proc\<close>.  The
  processor that executes an operation is an argument (\<open>cpu_id\<close>), and its registers are part of the state:
  \<open>context_switch\<close> saves them in one thread and loads them from another.
\<close>

section \<open>State\<close>

datatype thread_state = THREAD_INACTIVE | THREAD_SLEEPING | THREAD_RUNNABLE | THREAD_RUNNING | THREAD_EXIT

record thread_context =
  c_eip :: u32
  c_esp :: u32
  c_ebx :: u32
  c_ecx :: u32
  c_edx :: u32
  c_esi :: u32
  c_edi :: u32
  c_ebp :: u32

text \<open>The fields of \<open>struct trapframe\<close> that \<open>thread_run\<close> sets.\<close>

record trapframe =
  tf_ebp :: u32
  tf_esp :: u32
  tf_ebx :: u32
  tf_edx :: u32
  tf_eax :: u32
  tf_es :: u16
  tf_ds :: u16
  tf_eip :: u32
  tf_cs :: u16
  tf_eflags :: u32
  tf_ss :: u16

record thread =
  tid :: u32
  th_state :: thread_state
  kstack :: u32
  th_tf_addr :: u32
  th_tf :: trapframe
  th_context :: thread_context
  th_dir :: "nat option"
  f_state :: "nat option"

datatype sched_node = Th_node nat | Sched_node nat | Rq_head nat | Group_head | Null_node

record sched =
  threads :: "nat \<Rightarrow> thread option"
  snodes :: "sched_node list_node"
  current_threads :: "nat \<Rightarrow> nat option"
  g_thread_id :: u32
  sched_lock :: "nat \<Rightarrow> spinlock_t"
  cpu_regs :: "nat \<Rightarrow> thread_context"
  sfs :: fs

definition MAX_CPU :: nat where "MAX_CPU = 8"
definition KERNEL_STACK_SIZE :: u32 where "KERNEL_STACK_SIZE = 0x2000"
definition KERNEL_CS :: u16 where "KERNEL_CS = 8"
definition KERNEL_DS :: u16 where "KERNEL_DS = 16"
definition FL_IF :: u32 where "FL_IF = 0x200"
definition sizeof_trapframe :: u32 where "sizeof_trapframe = 68"

text \<open>
  A list node inside a thread can be accessed while the thread is allocated; the heads are static objects,
  zero (so pointing to \<open>Null_node\<close>) until \<open>list_init\<close>.
\<close>

fun snode_live :: "sched \<Rightarrow> sched_node \<Rightarrow> bool" where
  "snode_live s (Th_node t) \<longleftrightarrow> threads s t \<noteq> None"
| "snode_live s (Sched_node t) \<longleftrightarrow> threads s t \<noteq> None"
| "snode_live s (Rq_head c) \<longleftrightarrow> c < MAX_CPU"
| "snode_live s Group_head \<longleftrightarrow> True"
| "snode_live s Null_node \<longleftrightarrow> False"

definition s_init :: "sched_node \<Rightarrow> sched \<Rightarrow> sched option" where
  "s_init q s = do { assert (snode_live s q); Some (s\<lparr>snodes := list_init q (snodes s)\<rparr>) }"

definition s_insert :: "sched_node \<Rightarrow> sched_node \<Rightarrow> sched \<Rightarrow> sched option" where
  "s_insert cur node s =
     do {
       assert (snode_live s cur \<and> snode_live s node \<and> snode_live s (nxt (snodes s) cur));
       Some (s\<lparr>snodes := list_insert cur node (snodes s)\<rparr>)
     }"

definition s_insert_tail :: "sched_node \<Rightarrow> sched_node \<Rightarrow> sched \<Rightarrow> sched option" where
  "s_insert_tail q node s =
     do {
       assert (snode_live s q \<and> snode_live s node \<and> snode_live s (prev (snodes s) q));
       Some (s\<lparr>snodes := list_insert_tail q node (snodes s)\<rparr>)
     }"

definition s_remove :: "sched_node \<Rightarrow> sched \<Rightarrow> sched option" where
  "s_remove node s =
     do {
       assert (snode_live s node \<and> snode_live s (nxt (snodes s) node) \<and> snode_live s (prev (snodes s) node));
       Some (s\<lparr>snodes := list_remove node (snodes s)\<rparr>)
     }"

definition on_thread :: "nat \<Rightarrow> (thread \<Rightarrow> thread) \<Rightarrow> sched \<Rightarrow> sched option" where
  "on_thread t g s = do { x \<leftarrow> threads s t; Some (s\<lparr>threads := (threads s)(t \<mapsto> g x)\<rparr>) }"

definition lock_cpu :: "nat \<Rightarrow> sched \<Rightarrow> sched option" where
  "lock_cpu cpu s = do { l \<leftarrow> spin_lock (sched_lock s cpu); Some (s\<lparr>sched_lock := (sched_lock s)(cpu := l)\<rparr>) }"

definition unlock_cpu :: "nat \<Rightarrow> sched \<Rightarrow> sched" where
  "unlock_cpu cpu s = s\<lparr>sched_lock := (sched_lock s)(cpu := spin_unlock (sched_lock s cpu))\<rparr>"

text \<open>Operations between \<open>spin_lock\<close> and \<open>spin_unlock\<close> of the scheduler lock of a processor.\<close>

definition under_lock :: "nat \<Rightarrow> (sched \<Rightarrow> sched option) \<Rightarrow> sched \<Rightarrow> sched option" where
  "under_lock cpu f s = do { s \<leftarrow> lock_cpu cpu s; s \<leftarrow> f s; Some (unlock_cpu cpu s) }"

fun thread_of :: "sched_node \<Rightarrow> nat option" where
  "thread_of (Sched_node t) = Some t"
| "thread_of _ = None"

section \<open>Operations\<close>

text \<open>Saving to \<open>None\<close> is saving to the context on the stack of a thread that ends.\<close>

definition context_switch :: "nat \<Rightarrow> nat option \<Rightarrow> nat \<Rightarrow> sched \<Rightarrow> sched option" where
  "context_switch cpu from_th to_th s =
     do {
       s \<leftarrow> (case from_th of None \<Rightarrow> Some s | Some t \<Rightarrow> on_thread t (\<lambda>x. x\<lparr>th_context := cpu_regs s cpu\<rparr>) s);
       x \<leftarrow> threads s to_th;
       Some (s\<lparr>cpu_regs := (cpu_regs s)(cpu := th_context x)\<rparr>)
     }"

definition schedule :: "nat \<Rightarrow> sched \<Rightarrow> sched option" where
  "schedule cpu s =
     (if list_empty (Rq_head cpu) (snodes s) then Some s
      else do {
        next \<leftarrow> thread_of (list_next (Rq_head cpu) (snodes s));
        prev \<leftarrow> current_threads s cpu;
        if prev = next then Some s
        else do {
          s \<leftarrow> under_lock cpu (s_remove (Sched_node next)) s;
          let s = s\<lparr>current_threads := (current_threads s)(cpu \<mapsto> next)\<rparr>;
          p \<leftarrow> threads s prev;
          if th_state p \<noteq> THREAD_EXIT then
            do {
              s \<leftarrow> under_lock cpu (s_insert_tail (Rq_head cpu) (Sched_node prev)) s;
              s \<leftarrow> on_thread prev (th_state_update (\<lambda>_. THREAD_RUNNABLE)) s;
              s \<leftarrow> on_thread next (th_state_update (\<lambda>_. THREAD_RUNNING)) s;
              context_switch cpu (Some prev) next s
            }
          else
            do {
              s \<leftarrow> under_lock cpu (s_remove (Th_node prev)) s;
              d \<leftarrow> th_dir p;
              (_, f) \<leftarrow> remove_directory d (sfs s);
              let s = s\<lparr>sfs := f\<rparr>;
              let s = s\<lparr>threads := (threads s)(prev := None)\<rparr>;
              context_switch cpu None next s
            }
        }
      })"

definition thread_exit :: "nat \<Rightarrow> sched \<Rightarrow> sched option" where
  "thread_exit cpu s =
     do {
       t \<leftarrow> current_threads s cpu;
       s \<leftarrow> on_thread t (th_state_update (\<lambda>_. THREAD_EXIT)) s;
       schedule cpu s
     }"

definition thread_sleep :: "nat \<Rightarrow> sched \<Rightarrow> sched option" where
  "thread_sleep t s =
     do {
       s \<leftarrow> on_thread t (th_state_update (\<lambda>_. THREAD_SLEEPING)) s;
       s_remove (Sched_node t) s
     }"

text \<open>The source passes the thread's node as the position and the head of the queue as the new node.\<close>

definition thread_wakeup :: "nat \<Rightarrow> nat \<Rightarrow> sched \<Rightarrow> sched option" where
  "thread_wakeup cpu t s =
     do {
       s \<leftarrow> on_thread t (th_state_update (\<lambda>_. THREAD_RUNNABLE)) s;
       s_insert (Sched_node t) (Rq_head cpu) s
     }"

text \<open>The C string of a kernel string, which \<open>create_directory\<close> keeps as the name.\<close>

definition ks_name :: "kstring \<Rightarrow> string option" where
  "ks_name s =
     do {
       b \<leftarrow> ks_str s;
       n \<leftarrow> strlen_buf b 0;
       Some (map (\<lambda>x. char_of (unat x)) (take n b))
     }"

text \<open>The operations of the file \<open>state\<close>.\<close>

definition thread_state_fops :: nat where "thread_state_fops = 1"

fun state_value :: "thread_state \<Rightarrow> int" where
  "state_value THREAD_INACTIVE = 0"
| "state_value THREAD_SLEEPING = 1"
| "state_value THREAD_RUNNABLE = 2"
| "state_value THREAD_RUNNING = 3"
| "state_value THREAD_EXIT = 4"

definition thread_state_read :: "alloc \<Rightarrow> bytes \<Rightarrow> nat \<Rightarrow> kstring \<Rightarrow> sched \<Rightarrow> (int \<times> kstring) option" where
  "thread_state_read kmalloc buf file str s =
     do {
       f \<leftarrow> files (sfs s) file;
       t \<leftarrow> threads s (f_priv f);
       (_, str) \<leftarrow> ksappend_int kmalloc buf str (state_value (th_state t));
       Some (0, str)
     }"

text \<open>
  \<open>kmalloc\<close> and \<open>buf\<close> are the allocator and the stack buffer of the string functions; \<open>nd\<close> and \<open>nf\<close> are the
  new directory and file.
\<close>

definition create_thread_procfs ::
  "alloc \<Rightarrow> bytes \<Rightarrow> nat option \<Rightarrow> nat option \<Rightarrow> nat \<Rightarrow> sched \<Rightarrow> (int \<times> sched) option" where
  "create_thread_procfs kmalloc buf nd nf t s =
     do {
       str \<leftarrow> ksalloc kmalloc;
       case str of None \<Rightarrow> Some (- ENOMEM, s)
       | Some str \<Rightarrow>
           do {
             x \<leftarrow> threads s t;
             (_, str) \<leftarrow> ksappend_int kmalloc buf str (sint (tid x));
             name \<leftarrow> ks_name str;
             (ret, d, f) \<leftarrow> create_directory name (proc (sfs s)) nd (sfs s);
             let s = s\<lparr>sfs := f\<rparr>;
             if ret \<noteq> 0 then Some (ret, s)
             else do {
               s \<leftarrow> on_thread t (th_dir_update (\<lambda>_. d)) s;
               d \<leftarrow> d;
               (ret, fl, f) \<leftarrow> create_file ''state'' thread_state_fops d t nf (sfs s);
               let s = s\<lparr>sfs := f\<rparr>;
               s \<leftarrow> (if ret = 0 then on_thread t (f_state_update (\<lambda>_. fl)) s else Some s);
               Some (0, s)
             }
           }
     }"

text \<open>
  The thread object is what \<open>kmalloc\<close> returned, with arbitrary content, and so is the trap frame at the top
  of the new stack; all threads belong to \<open>init_proc\<close>, whose list is found through the current thread; the addresses of the entry routines are arguments.
\<close>

definition thread_run ::
  "(u32 \<times> u32) \<Rightarrow> u32 \<Rightarrow> u32 \<Rightarrow> int \<Rightarrow> nat \<Rightarrow> (nat \<times> thread) option \<Rightarrow> u32 \<Rightarrow> alloc \<Rightarrow> bytes \<Rightarrow>
    nat option \<Rightarrow> nat option \<Rightarrow> sched \<Rightarrow> (nat option \<times> sched) option" where
  "thread_run entries fn arg cpu this_cpu new stack kmalloc buf nd nf s =
     (let cpu = (if cpu < 0 \<or> cpu \<ge> int MAX_CPU then this_cpu else nat cpu)
      in case new of None \<Rightarrow> Some (None, s)
       | Some (t, x) \<Rightarrow>
           if stack = 0 then Some (None, s)
           else do {
             let x = x\<lparr>kstack := stack\<rparr>;
             let x = x\<lparr>th_tf_addr := stack + KERNEL_STACK_SIZE - sizeof_trapframe\<rparr>;
             let f = (th_tf x)\<lparr>tf_cs := KERNEL_CS, tf_ds := KERNEL_DS, tf_es := KERNEL_DS, tf_ss := KERNEL_DS,
                       tf_ebp := kstack x, tf_ebx := fn, tf_edx := arg, tf_esp := 0, tf_eax := 0,
                       tf_eip := fst entries\<rparr>;
             let x = x\<lparr>th_tf := f\<lparr>tf_eflags := tf_eflags f OR FL_IF\<rparr>\<rparr>;
             let x = x\<lparr>th_context := (th_context x)\<lparr>c_esp := th_tf_addr x, c_eip := snd entries, c_ebp := kstack x\<rparr>\<rparr>;
             c \<leftarrow> current_threads s this_cpu;
             _ \<leftarrow> threads s c;
             let x = x\<lparr>tid := g_thread_id s, th_state := THREAD_RUNNABLE\<rparr>;
             let s = s\<lparr>g_thread_id := g_thread_id s + 1, threads := (threads s)(t \<mapsto> x)\<rparr>;
             s \<leftarrow> under_lock cpu (\<lambda>s. do {
               c \<leftarrow> current_threads s cpu;
               _ \<leftarrow> threads s c;
               s \<leftarrow> s_insert Group_head (Th_node t) s;
               s_insert (Rq_head cpu) (Sched_node t) s
             }) s;
             (ret, s) \<leftarrow> create_thread_procfs kmalloc buf nd nf t s;
             if ret \<noteq> 0 then Some (None, s\<lparr>threads := (threads s)(t := None)\<rparr>)
             else Some (Some t, s)
           })"

text \<open>A static array has no element for another processor number.\<close>

definition schedule_init ::
  "nat \<Rightarrow> u32 \<Rightarrow> (nat \<times> thread) option \<Rightarrow> alloc \<Rightarrow> bytes \<Rightarrow> nat option \<Rightarrow> nat option \<Rightarrow> sched \<Rightarrow> (int \<times> sched) option" where
  "schedule_init cpu bootstack new kmalloc buf nd nf s =
     do {
       assert (cpu < MAX_CPU);
       let s = s\<lparr>sched_lock := (sched_lock s)(cpu := spinlock_init (sched_lock s cpu))\<rparr>;
       s \<leftarrow> (if cpu = 0 then s_init Group_head s else Some s);
       s \<leftarrow> s_init (Rq_head cpu) s;
       case new of None \<Rightarrow> Some (- ENOMEM, s)
       | Some (t, x) \<Rightarrow>
           do {
             let x = x\<lparr>tid := g_thread_id s, th_state := THREAD_RUNNING, kstack := bootstack,
                       th_tf_addr := bootstack + KERNEL_STACK_SIZE * of_nat cpu - sizeof_trapframe\<rparr>;
             let s = s\<lparr>g_thread_id := g_thread_id s + 1, threads := (threads s)(t \<mapsto> x)\<rparr>;
             let s = s\<lparr>current_threads := (current_threads s)(cpu \<mapsto> t)\<rparr>;
             s \<leftarrow> s_insert Group_head (Th_node t) s;
             (_, s) \<leftarrow> create_thread_procfs kmalloc buf nd nf t s;
             Some (0, s)
           }
     }"

section \<open>Invariant\<close>

text \<open>
  \<open>C\<close> is the set of processors that ran \<open>schedule_init\<close>, \<open>Q\<close> gives the run queue of each and \<open>grp\<close> is the thread
  group.  The thread that a processor runs is on no run queue and on no other processor.
\<close>

fun srings :: "(nat \<Rightarrow> nat list) \<Rightarrow> nat list \<Rightarrow> sched_node \<Rightarrow> sched_node list" where
  "srings Q grp (Rq_head c) = map Sched_node (Q c)"
| "srings Q grp Group_head = map Th_node grp"
| "srings Q grp _ = []"

definition sheads :: "nat set \<Rightarrow> sched_node set" where
  "sheads C = insert Group_head (Rq_head ` C)"

definition sched_core :: "sched \<Rightarrow> nat set \<Rightarrow> (nat \<Rightarrow> nat list) \<Rightarrow> nat list \<Rightarrow> bool" where
  "sched_core s C Q grp \<longleftrightarrow>
     dlists (snodes s) (sheads C) (srings Q grp) \<and> C \<subseteq> {..<MAX_CPU} \<and>
     (\<forall>t \<in> set grp. threads s t \<noteq> None) \<and> (\<forall>c \<in> C. set (Q c) \<subseteq> set grp) \<and>
     (\<forall>c \<in> C. counter (sched_lock s c) = 0)"

definition cur_ok :: "(nat \<Rightarrow> nat option) \<Rightarrow> nat set \<Rightarrow> (nat \<Rightarrow> nat list) \<Rightarrow> nat list \<Rightarrow> bool" where
  "cur_ok cur C Q grp \<longleftrightarrow>
     (\<forall>c \<in> C. \<exists>p \<in> set grp. cur c = Some p \<and> (\<forall>d \<in> C. p \<notin> set (Q d) \<and> (d \<noteq> c \<longrightarrow> cur d \<noteq> Some p)))"

definition sched_inv :: "sched \<Rightarrow> nat set \<Rightarrow> (nat \<Rightarrow> nat list) \<Rightarrow> nat list \<Rightarrow> bool" where
  "sched_inv s C Q grp \<longleftrightarrow> sched_core s C Q grp \<and> cur_ok (current_threads s) C Q grp"

lemma sheads_in [simp]:
  "Rq_head c \<in> sheads C \<longleftrightarrow> c \<in> C" "Group_head \<in> sheads C" "Th_node t \<notin> sheads C" "Sched_node t \<notin> sheads C"
  "Null_node \<notin> sheads C"
  by (auto simp: sheads_def)

lemma sheads_cases: "q \<in> sheads C \<Longrightarrow> (\<And>c. c \<in> C \<Longrightarrow> q = Rq_head c \<Longrightarrow> P) \<Longrightarrow> (q = Group_head \<Longrightarrow> P) \<Longrightarrow> P"
  by (auto simp: sheads_def)

lemma srings_rq: "srings (Q(c := ts)) grp = (srings Q grp)(Rq_head c := map Sched_node ts)"
proof
  show "srings (Q(c := ts)) grp x = ((srings Q grp)(Rq_head c := map Sched_node ts)) x" for x by (cases x) auto
qed

lemma srings_group: "srings Q grp' = (srings Q grp)(Group_head := map Th_node grp')"
proof
  show "srings Q grp' x = ((srings Q grp)(Group_head := map Th_node grp')) x" for x by (cases x) auto
qed

lemma sched_coreD:
  assumes "sched_core s C Q grp"
  shows "dlists (snodes s) (sheads C) (srings Q grp)" "c \<in> C \<Longrightarrow> c < MAX_CPU" "c \<in> C \<Longrightarrow> counter (sched_lock s c) = 0"
    and "t \<in> set grp \<Longrightarrow> \<exists>x. threads s t = Some x" "c \<in> C \<Longrightarrow> t \<in> set (Q c) \<Longrightarrow> t \<in> set grp"
  using assms by (auto simp: sched_core_def)

lemma ring_node_live:
  assumes "sched_core s C Q grp" "q \<in> sheads C" "x \<in> insert q (set (srings Q grp q))"
  shows "snode_live s x"
  using assms(2)
proof (rule sheads_cases)
  show "snode_live s x" if "c \<in> C" "q = Rq_head c" for c
    using that assms(3) sched_coreD(2,4,5) [OF assms(1)] by fastforce
  show "snode_live s x" if "q = Group_head"
    using that assms(3) sched_coreD(4) [OF assms(1)] by fastforce
qed

lemma s_remove_ring:
  assumes c: "sched_core s C Q grp" and q: "q \<in> sheads C" and x: "x \<in> set (srings Q grp q)"
  shows "s_remove x s = Some (s\<lparr>snodes := list_remove x (snodes s)\<rparr>)"
proof -
  obtain xs ys where f: "srings Q grp q = xs @ x # ys" using x by (auto simp: in_set_conv_decomp)
  have d: "dlist (snodes s) q (xs @ x # ys)" using dlists_dlist [OF sched_coreD(1) [OF c] q] f by simp
  have "nxt (snodes s) x \<in> insert q (set (srings Q grp q))" "prev (snodes s) x \<in> insert q (set (srings Q grp q))"
    using dlist_neighbours [OF d] f by simp_all
  then show ?thesis using ring_node_live [OF c q] x by (auto simp: s_remove_def)
qed

lemma head_neighbours:
  assumes "dlist h q xs"
  shows "nxt h q \<in> insert q (set xs)" "prev h q \<in> insert q (set xs)"
  using assms dlist_list_next [of h q "hd xs" "tl xs"] dlist_list_tail [of h q "butlast xs" "last xs"]
  by (cases "xs = []"; auto simp: dlist_def list_next_def list_tail_def)+

lemma s_insert_ring:
  assumes c: "sched_core s C Q grp" and q: "q \<in> sheads C" and x: "snode_live s x"
  shows "s_insert_tail q x s = Some (s\<lparr>snodes := list_insert_tail q x (snodes s)\<rparr>)"
    and "s_insert q x s = Some (s\<lparr>snodes := list_insert q x (snodes s)\<rparr>)"
  using head_neighbours [OF dlists_dlist [OF sched_coreD(1) [OF c] q]] ring_node_live [OF c q] x
  by (auto simp: s_insert_tail_def s_insert_def)

text \<open>An operation on the lists under a lock that is free.\<close>

lemma locked_op:
  assumes l: "counter (sched_lock s c) = 0" and f: "f s = Some (s\<lparr>snodes := h\<rparr>)"
    and indep: "\<And>l. f (s\<lparr>sched_lock := l\<rparr>) = map_option (\<lambda>t. t\<lparr>sched_lock := l\<rparr>) (f s)"
  shows "under_lock c f s = Some (s\<lparr>snodes := h\<rparr>)"
proof -
  have e: "(sched_lock s c)\<lparr>counter := 0\<rparr> = sched_lock s c" using l by simp
  show ?thesis
    using l by (simp add: under_lock_def lock_cpu_def spin_lock_eq indep f unlock_cpu_def spin_unlock_def atomic_set_def e)
qed

lemma snode_live_lock [simp]: "snode_live (s\<lparr>sched_lock := l\<rparr>) x = snode_live s x"
  by (cases x) auto

lemma s_ops_lock:
  "s_remove x (s\<lparr>sched_lock := l\<rparr>) = map_option (\<lambda>t. t\<lparr>sched_lock := l\<rparr>) (s_remove x s)"
  "s_insert q x (s\<lparr>sched_lock := l\<rparr>) = map_option (\<lambda>t. t\<lparr>sched_lock := l\<rparr>) (s_insert q x s)"
  "s_insert_tail q x (s\<lparr>sched_lock := l\<rparr>) = map_option (\<lambda>t. t\<lparr>sched_lock := l\<rparr>) (s_insert_tail q x s)"
  by (simp_all add: s_remove_def s_insert_def s_insert_tail_def assert_def)

section \<open>Switching\<close>

lemma rq_ring:
  assumes "sched_core s C Q grp" "c \<in> C"
  shows "list_empty (Rq_head c) (snodes s) \<longleftrightarrow> Q c = []"
    and "Q c = n # q \<Longrightarrow> list_next (Rq_head c) (snodes s) = Sched_node n"
proof -
  have d: "dlist (snodes s) (Rq_head c) (map Sched_node (Q c))"
    using dlists_dlist [OF sched_coreD(1) [OF assms(1)], of "Rq_head c"] assms(2) by simp
  show "list_empty (Rq_head c) (snodes s) \<longleftrightarrow> Q c = []" using dlist_list_empty [OF d] by simp
  show "Q c = n # q \<Longrightarrow> list_next (Rq_head c) (snodes s) = Sched_node n"
    using dlist_list_next [of "snodes s" "Rq_head c" "Sched_node n" "map Sched_node q"] d by simp
qed

lemma sched_nodes_of:
  assumes "\<forall>d \<in> C. p \<notin> set (Q d)"
  shows "Sched_node p \<notin> nodes_of (sheads C) (srings Q grp)"
  using assms by (auto simp: nodes_of_def sheads_def)

lemma core_dequeue:
  assumes c: "sched_core s C Q grp" "c \<in> C" "Q c = n # q"
  shows "s_remove (Sched_node n) s = Some (s\<lparr>snodes := list_remove (Sched_node n) (snodes s)\<rparr>)"
    and "sched_core (s\<lparr>snodes := list_remove (Sched_node n) (snodes s)\<rparr>) C (Q(c := q)) grp"
proof -
  show "s_remove (Sched_node n) s = Some (s\<lparr>snodes := list_remove (Sched_node n) (snodes s)\<rparr>)"
    by (rule s_remove_ring [OF c(1), of "Rq_head c"]) (use c in auto)
  have "dlists (list_remove (Sched_node n) (snodes s)) (sheads C) (srings (Q(c := q)) grp)"
    unfolding srings_rq by (rule dlists_remove_next [OF sched_coreD(1) [OF c(1)]]) (use c in auto)
  then show "sched_core (s\<lparr>snodes := list_remove (Sched_node n) (snodes s)\<rparr>) C (Q(c := q)) grp"
    using c sched_coreD(5) [OF c(1,2)] by (auto simp: sched_core_def)
qed

lemma core_enqueue:
  assumes c: "sched_core s C Q grp" "c \<in> C" "\<forall>d \<in> C. p \<notin> set (Q d)" "p \<in> set grp"
  shows "s_insert_tail (Rq_head c) (Sched_node p) s
      = Some (s\<lparr>snodes := list_insert_tail (Rq_head c) (Sched_node p) (snodes s)\<rparr>)"
    and "sched_core (s\<lparr>snodes := list_insert_tail (Rq_head c) (Sched_node p) (snodes s)\<rparr>) C (Q(c := Q c @ [p])) grp"
proof -
  show "s_insert_tail (Rq_head c) (Sched_node p) s
      = Some (s\<lparr>snodes := list_insert_tail (Rq_head c) (Sched_node p) (snodes s)\<rparr>)"
    by (rule s_insert_ring(1) [OF c(1)]) (use c sched_coreD(4) [OF c(1)] in auto)
  have "dlists (list_insert_tail (Rq_head c) (Sched_node p) (snodes s)) (sheads C) (srings (Q(c := Q c @ [p])) grp)"
    using dlists_insert_tail [OF sched_coreD(1) [OF c(1)] _ sched_nodes_of [OF c(3)], of "Rq_head c"] c(2)
    by (simp add: srings_rq)
  then show "sched_core (s\<lparr>snodes := list_insert_tail (Rq_head c) (Sched_node p) (snodes s)\<rparr>) C (Q(c := Q c @ [p])) grp"
    using c by (auto simp: sched_core_def)
qed

lemma sched_core_cong:
  assumes "sched_core s C Q grp" "snodes s' = snodes s" "sched_lock s' = sched_lock s"
    and "\<forall>t. threads s t \<noteq> None \<longrightarrow> threads s' t \<noteq> None"
  shows "sched_core s' C Q grp"
  using assms by (auto simp: sched_core_def)

lemma schedule_switch:
  assumes inv: "sched_inv s C Q grp" and c: "c \<in> C" and cur: "current_threads s c = Some p" and q: "Q c = n # q"
    and x: "threads s p = Some x" "th_state x \<noteq> THREAD_EXIT" and y: "threads s n = Some y"
  shows "\<exists>h. schedule c s = Some (s\<lparr>snodes := h, current_threads := (current_threads s)(c \<mapsto> n),
      threads := (threads s)(p \<mapsto> x\<lparr>th_state := THREAD_RUNNABLE, th_context := cpu_regs s c\<rparr>,
        n \<mapsto> y\<lparr>th_state := THREAD_RUNNING\<rparr>), cpu_regs := (cpu_regs s)(c := th_context y)\<rparr>) \<and>
    sched_core (s\<lparr>snodes := h\<rparr>) C (Q(c := q @ [p])) grp"
proof -
  have core: "sched_core s C Q grp" and p: "p \<in> set grp" "\<forall>d \<in> C. p \<notin> set (Q d)"
    using inv c cur by (auto simp: sched_inv_def cur_ok_def)
  define s1 where "s1 = s\<lparr>snodes := list_remove (Sched_node n) (snodes s)\<rparr>"
  define s2 where "s2 = s1\<lparr>current_threads := (current_threads s1)(c \<mapsto> n)\<rparr>"
  define h where "h = list_insert_tail (Rq_head c) (Sched_node p) (snodes s2)"
  note r = core_dequeue [OF core c q, folded s1_def]
  have core2: "sched_core s2 C (Q(c := q)) grp" by (rule sched_core_cong [OF r(2)]) (simp_all add: s2_def)
  have p2: "\<forall>d \<in> C. p \<notin> set ((Q(c := q)) d)" using p(2) q c by auto
  have e: "s_insert_tail (Rq_head c) (Sched_node p) s2 = Some (s2\<lparr>snodes := h\<rparr>)"
    and core3: "sched_core (s2\<lparr>snodes := h\<rparr>) C (Q(c := q @ [p])) grp"
    using core_enqueue [OF core2 c p2 p(1)] unfolding h_def fun_upd_same fun_upd_upd by simp_all
  have pn: "p \<noteq> n" using p(2) c q by auto
  have l: "counter (sched_lock s c) = 0" "counter (sched_lock s2 c) = 0"
    using sched_coreD(3) [OF core c] sched_coreD(3) [OF core2 c] by auto
  note op1 = locked_op [OF l(1), of "s_remove (Sched_node n)", OF r(1) [unfolded s1_def] s_ops_lock(1), folded s1_def]
  note op2 = locked_op [OF l(2), of "s_insert_tail (Rq_head c) (Sched_node p)", OF e s_ops_lock(3)]
  have t1: "threads s1 = threads s" by (simp add: s1_def)
  have "schedule c s = Some (s\<lparr>snodes := h, current_threads := (current_threads s)(c \<mapsto> n),
      threads := (threads s)(p \<mapsto> x\<lparr>th_state := THREAD_RUNNABLE, th_context := cpu_regs s c\<rparr>,
        n \<mapsto> y\<lparr>th_state := THREAD_RUNNING\<rparr>), cpu_regs := (cpu_regs s)(c := th_context y)\<rparr>)"
    unfolding schedule_def
    using rq_ring [OF core c] q cur pn x y
    by (simp add: Let_def op1 t1 op2 [unfolded s2_def] on_thread_def context_switch_def)
      (simp add: s1_def fun_upd_twist [OF pn])
  moreover have "sched_core (s\<lparr>snodes := h\<rparr>) C (Q(c := q @ [p])) grp"
    by (rule sched_core_cong [OF core3]) (simp_all add: s2_def s1_def)
  ultimately show ?thesis by blast
qed

lemma queue_distinct:
  assumes "sched_core s C Q grp" "c \<in> C"
  shows "distinct (Q c)" and "t \<in> set (Q c) \<Longrightarrow> d \<in> C \<Longrightarrow> d \<noteq> c \<Longrightarrow> t \<notin> set (Q d)"
proof -
  have D: "dlists (snodes s) (sheads C) (srings Q grp)" by (rule sched_coreD(1) [OF assms(1)])
  from dlists_dlist [OF D, of "Rq_head c"] assms(2) show "distinct (Q c)"
    by (simp add: dlist_def distinct_map)
  show "t \<notin> set (Q d)" if "t \<in> set (Q c)" "d \<in> C" "d \<noteq> c"
    using dlists_disjoint [OF D, of "Rq_head c" "Rq_head d" "Sched_node t"] that assms(2) by auto
qed

lemma cur_ok_switch:
  assumes ok: "cur_ok cur C Q grp" and c: "c \<in> C" "cur c = Some p" "Q c = n # q" "n \<in> set grp"
    and n: "n \<notin> set q" "\<forall>d \<in> C. d \<noteq> c \<longrightarrow> n \<notin> set (Q d)"
  shows "cur_ok (cur(c \<mapsto> n)) C (Q(c := q @ [p])) grp"
  unfolding cur_ok_def
proof
  fix d assume d: "d \<in> C"
  obtain r where r: "r \<in> set grp" "cur d = Some r" "\<forall>e \<in> C. r \<notin> set (Q e) \<and> (e \<noteq> d \<longrightarrow> cur e \<noteq> Some r)"
    using ok d unfolding cur_ok_def by blast
  have np: "n \<noteq> p" using ok c unfolding cur_ok_def by force
  show "\<exists>r \<in> set grp. (cur(c \<mapsto> n)) d = Some r \<and>
      (\<forall>e \<in> C. r \<notin> set ((Q(c := q @ [p])) e) \<and> (e \<noteq> d \<longrightarrow> (cur(c \<mapsto> n)) e \<noteq> Some r))"
  proof (cases "d = c")
    case True
    have "cur e \<noteq> Some n" if "e \<in> C" for e using ok c that unfolding cur_ok_def by fastforce
    then show ?thesis using True c n np by (intro bexI [of _ n]) auto
  next
    case False
    have "r \<noteq> p" "r \<notin> set (n # q)" using r(3) c False by auto
    then show ?thesis using r False by (intro bexI [of _ r]) auto
  qed
qed

text \<open>
  The abstract machine of one processor: a list of threads, the first of which runs, and the registers that
  each thread sees.  A slice of the running thread changes its registers and calls \<open>schedule\<close>, which moves
  the thread to the end of the list.
\<close>

fun rr_slice :: "(thread_context \<Rightarrow> thread_context) \<Rightarrow> nat list \<times> (nat \<Rightarrow> thread_context)
    \<Rightarrow> nat list \<times> (nat \<Rightarrow> thread_context)" where
  "rr_slice f (t # ts, v) = (ts @ [t], v(t := f (v t)))"
| "rr_slice f ([], v) = ([], v)"

definition run_slice :: "nat \<Rightarrow> (thread_context \<Rightarrow> thread_context) \<Rightarrow> sched \<Rightarrow> sched option" where
  "run_slice c f s = schedule c (s\<lparr>cpu_regs := (cpu_regs s)(c := f (cpu_regs s c))\<rparr>)"

fun run_slices :: "nat \<Rightarrow> (thread_context \<Rightarrow> thread_context) list \<Rightarrow> sched \<Rightarrow> sched option" where
  "run_slices c [] s = Some s"
| "run_slices c (f # fs) s = do { s \<leftarrow> run_slice c f s; run_slices c fs s }"

definition rr_rel :: "nat set \<Rightarrow> (nat \<Rightarrow> nat list) \<Rightarrow> nat list \<Rightarrow> nat \<Rightarrow> sched \<Rightarrow> nat list \<times> (nat \<Rightarrow> thread_context) \<Rightarrow> bool" where
  "rr_rel C Q grp c s a \<longleftrightarrow>
     (\<exists>p q. fst a = p # q \<and> sched_inv s C (Q(c := q)) grp \<and> current_threads s c = Some p \<and> snd a p = cpu_regs s c) \<and>
     (\<forall>t \<in> set (fst a). \<exists>x. threads s t = Some x \<and> th_state x \<noteq> THREAD_EXIT \<and>
        (current_threads s c \<noteq> Some t \<longrightarrow> snd a t = th_context x))"

lemma rr_slice_refines:
  assumes R: "rr_rel C Q grp c s a" and c: "c \<in> C"
  shows "\<exists>s'. run_slice c f s = Some s' \<and> rr_rel C Q grp c s' (rr_slice f a)"
proof -
  obtain p q v where a: "a = (p # q, v)" and inv: "sched_inv s C (Q(c := q)) grp"
    and cur: "current_threads s c = Some p" "v p = cpu_regs s c"
    using R by (cases a) (auto simp: rr_rel_def)
  let ?s = "s\<lparr>cpu_regs := (cpu_regs s)(c := f (cpu_regs s c))\<rparr>"
  have inv': "sched_inv ?s C (Q(c := q)) grp"
    using inv sched_core_cong [of s C "Q(c := q)" grp ?s] by (simp add: sched_inv_def)
  have th: "\<exists>x. threads s t = Some x \<and> th_state x \<noteq> THREAD_EXIT \<and> (t \<noteq> p \<longrightarrow> v t = th_context x)"
    if "t \<in> set (p # q)" for t
    using R that cur by (auto simp: rr_rel_def a)
  show ?thesis
  proof (cases q)
    case Nil
    then have "schedule c ?s = Some ?s"
      using rq_ring(1) [of ?s C "Q(c := q)" grp c] inv' c by (simp add: schedule_def sched_inv_def)
    then show ?thesis using inv' cur th a Nil by (auto simp: run_slice_def rr_rel_def)
  next
    case (Cons n q')
    obtain x y where x: "threads s p = Some x" "th_state x \<noteq> THREAD_EXIT" and y: "threads s n = Some y"
        "th_state y \<noteq> THREAD_EXIT" and vn: "n \<noteq> p \<longrightarrow> v n = th_context y"
      using th [of p] th [of n] Cons by auto
    have core0: "sched_core s C (Q(c := q)) grp" and ok: "cur_ok (current_threads s) C (Q(c := q)) grp"
      using inv by (simp_all add: sched_inv_def)
    have d: "n \<notin> set q'" "\<forall>d \<in> C. d \<noteq> c \<longrightarrow> n \<notin> set ((Q(c := q)) d)"
      using queue_distinct [OF core0 c] Cons by auto
    have pq: "p \<notin> set q" using ok c cur by (force simp: cur_ok_def)
    have n: "n \<in> set grp" using sched_coreD(5) [OF core0 c, of n] Cons by simp
    obtain h where sch: "schedule c ?s = Some (?s\<lparr>snodes := h, current_threads := (current_threads s)(c \<mapsto> n),
      threads := (threads s)(p \<mapsto> x\<lparr>th_state := THREAD_RUNNABLE, th_context := f (cpu_regs s c)\<rparr>,
        n \<mapsto> y\<lparr>th_state := THREAD_RUNNING\<rparr>), cpu_regs := (cpu_regs ?s)(c := th_context y)\<rparr>)"
      and core: "sched_core (?s\<lparr>snodes := h\<rparr>) C (Q(c := q' @ [p])) grp"
      using schedule_switch [OF inv' c, of p n q' x y] cur x y Cons by auto
    let ?t = "?s\<lparr>snodes := h, current_threads := (current_threads s)(c \<mapsto> n),
      threads := (threads s)(p \<mapsto> x\<lparr>th_state := THREAD_RUNNABLE, th_context := f (cpu_regs s c)\<rparr>,
        n \<mapsto> y\<lparr>th_state := THREAD_RUNNING\<rparr>), cpu_regs := (cpu_regs ?s)(c := th_context y)\<rparr>"
    have "cur_ok ((current_threads s)(c \<mapsto> n)) C ((Q(c := q))(c := q' @ [p])) grp"
      by (rule cur_ok_switch [OF ok c cur(1) _ n d]) (simp add: Cons)
    moreover have "sched_core ?t C (Q(c := q' @ [p])) grp" by (rule sched_core_cong [OF core]) auto
    ultimately have "sched_inv ?t C (Q(c := q' @ [p])) grp" by (simp add: sched_inv_def)
    then have "rr_rel C Q grp c ?t (rr_slice f a)"
      using a cur th x y vn pq Cons d(1) by (auto simp: rr_rel_def)
    then show ?thesis using sch by (simp add: run_slice_def)
  qed
qed

end
