(* ===== verification/Thread_Life.thy ===== *)
theory Thread_Life
  imports Schedule
begin

text \<open>
  The life of a thread: its creation by \<open>schedule_init\<close> and \<open>thread_run\<close> with its directory in the file tree,
  sleeping and waking, and its end in \<open>thread_exit\<close>.
\<close>

section \<open>Creating threads\<close>

definition tid_text :: "u32 \<Rightarrow> string" where
  "tid_text t = map (\<lambda>x. char_of (unat x)) (dec_str (sint t))"

text \<open>
  The name of a thread's directory is the number of the thread.  The string functions need a zero byte in
  the uninitialised buffer, behind the digits.
\<close>

definition string_env :: "alloc \<Rightarrow> bytes \<Rightarrow> bool" where
  "string_env kmalloc buf \<longleftrightarrow> alloc_small kmalloc \<and> alloc_ok kmalloc \<and> 0 \<in> set (drop 11 buf)"

lemma ks_name_content:
  assumes "ks_inv s"
  shows "ks_name s = Some (map (\<lambda>x. char_of (unat x)) (ks_content s))"
proof -
  obtain str where str: "ks_str s = Some str" "length str = ks_capacity s" "ks_length s < ks_capacity s"
    "str ! ks_length s = 0" "0 \<notin> set (take (ks_length s) str)" "ks_content s = take (ks_length s) str"
    by (rule ks_inv_str [OF assms]) blast
  have e: "take (ks_length s) str @ 0 # drop (Suc (ks_length s)) str = str"
    unfolding str(4) [symmetric] by (rule id_take_nth_drop [symmetric]) (simp add: str(2,3))
  have "strlen_buf str 0 = Some (length (take (ks_length s) str))"
    using strlen_buf_correct [OF str(5), of "drop (Suc (ks_length s)) str"] unfolding e .
  then show ?thesis using str by (simp add: ks_name_def min_def)
qed

lemma thread_name:
  assumes k: "string_env kmalloc buf" and t: "unat t < 2 ^ 31"
  shows "\<exists>s s'. ksalloc kmalloc = Some (Some s) \<and> ksappend_int kmalloc buf s (sint t) = Some (0, s') \<and>
    ks_name s' = Some (tid_text t)"
proof -
  let ?d = "dec_str (sint t)"
  obtain s where s: "ksalloc kmalloc = Some (Some s)" "ks_inv s" "ks_content s = []" "ks_capacity s = 32" "ks_length s = 0"
    using ksalloc_correct [of kmalloc] k unfolding string_env_def by blast
  have "int (unat t) < int (2 ^ 31)" using t by (simp only: of_nat_less_iff)
  then have u: "uint t < 2 ^ 31" by simp
  have "- (2 ^ 31) \<le> uint t" by (rule order_trans [OF _ unsigned_greater_eq]) simp
  with u have "sint t = uint t" unfolding sint_uint by (intro signed_take_bit_int_eq_self) simp_all
  then have v: "\<bar>sint t\<bar> < 2 ^ 31" using u by simp
  have l: "length ?d \<le> 11" by (rule dec_str_length [OF v])
  have "0 \<in> set (drop (length ?d) buf)"
    using k l set_drop_subset_set_drop [OF l, of buf] by (auto simp: string_env_def)
  then obtain pre junk where pj: "drop (length ?d) buf = pre @ 0 # junk" "0 \<notin> set pre"
    by (meson split_list_first)
  have lb: "length ?d \<le> length buf" using pj(1) by (cases "length ?d \<le> length buf") auto
  have ts: "to_str (sint t) buf = Some (length ?d, (?d @ pre) @ 0 # junk)" using to_str_correct [OF v lb] pj by simp
  have m: "length ?d = min (length (?d @ pre)) (length ?d)" by simp
  have "ks_append_ok s (take (length ?d) (?d @ pre)) (ksappend_strn kmalloc s (Some ((?d @ pre) @ 0 # junk)) (length ?d))"
    by (rule ksappend_strn_correct [OF s(2) _ _ m]) (use k l s pj dec_str_nonzero in \<open>auto simp: string_env_def\<close>)
  moreover have "ksappend_strn kmalloc s (Some ((?d @ pre) @ 0 # junk)) (length ?d) \<noteq> Some (- ENOMEM, s)"
  proof -
    have "string_try_expand kmalloc s n = Some (0, s)" if "n \<le> 32" for n
      using that s(4) by (simp add: string_try_expand_def)
    moreover have "wrap32 (ks_length s + length ?d) \<le> 32" using l s(5) by simp
    moreover have "strlen_buf ((?d @ pre) @ 0 # junk) 0 = Some (length (?d @ pre))"
      by (rule strlen_buf_correct) (use pj dec_str_nonzero in auto)
    ultimately show ?thesis
      by (auto simp: ksappend_strn_def Let_def bind_eq_Some_conv errno_defs)
  qed
  ultimately obtain s' where s': "ksappend_strn kmalloc s (Some ((?d @ pre) @ 0 # junk)) (length ?d) = Some (0, s')"
      "ks_inv s'" "ks_content s' = ?d"
    using s by (auto simp: ks_append_ok_def)
  have "ks_name s' = Some (tid_text t)" using s'(2,3) by (simp add: ks_name_content tid_text_def)
  then show ?thesis using s s' ts by (auto simp: ksappend_int_def)
qed

lemma create_thread_procfs_correct:
  assumes k: "string_env kmalloc buf" and x: "threads s t = Some x" "unat (tid x) < 2 ^ 31"
    and f: "fs_inv (sfs s) F G" "proc (sfs s) = Some pd" "dirs (sfs s) pd \<noteq> None" "dirs (sfs s) d = None" "files (sfs s) fi = None"
  shows "\<exists>u. create_thread_procfs kmalloc buf (Some d) (Some fi) t s
      = Some (0, s\<lparr>sfs := u, threads := (threads s)(t \<mapsto> x\<lparr>th_dir := Some d, f_state := Some fi\<rparr>)\<rparr>) \<and>
    fs_inv u (F(d := [fi])) (G(d := [], pd := d # G pd)) \<and> proc u = Some pd \<and>
    dirs u = (dirs (sfs s))(d \<mapsto> \<lparr>d_name = tid_text (tid x), d_parent = Some pd\<rparr>) \<and>
    files u = (files (sfs s))(fi \<mapsto> \<lparr>f_name = ''state'', f_priv = t, f_parent = d, f_fops = thread_state_fops\<rparr>)"
proof -
  obtain a b where n: "ksalloc kmalloc = Some (Some a)" "ksappend_int kmalloc buf a (sint (tid x)) = Some (0, b)"
      "ks_name b = Some (tid_text (tid x))"
    using thread_name [OF k x(2)] by blast
  obtain v where v: "create_directory (tid_text (tid x)) (Some pd) (Some d) (sfs s) = Some (0, Some d, v)"
      "fs_inv v (F(d := [])) (G(d := [], pd := d # G pd))" "files v = files (sfs s)"
      "dirs v = (dirs (sfs s))(d \<mapsto> \<lparr>d_name = tid_text (tid x), d_parent = Some pd\<rparr>)" "proc v = Some pd"
    using create_directory_correct [OF f(1,4), of "Some pd"] f(2,3) by auto
  obtain u where "create_file ''state'' thread_state_fops d t (Some fi) v = Some (0, Some fi, u)"
      "fs_inv u (F(d := [fi])) (G(d := [], pd := d # G pd))" "dirs u = dirs v" "proc u = Some pd"
      "files u = (files v)(fi \<mapsto> \<lparr>f_name = ''state'', f_priv = t, f_parent = d, f_fops = thread_state_fops\<rparr>)"
    using create_file_correct [OF v(2), of d fi "''state''" thread_state_fops t] v(3,4,5) f(5) by auto
  then show ?thesis
    using n v x f(2) by (intro exI [of _ u]) (simp add: create_thread_procfs_def on_thread_def Let_def)
qed

lemma core_group_insert:
  assumes c: "sched_core s C Q grp" "t \<notin> set grp" "threads s t \<noteq> None"
  defines "s' \<equiv> s\<lparr>snodes := list_insert Group_head (Th_node t) (snodes s)\<rparr>"
  shows "s_insert Group_head (Th_node t) s = Some s'" "sched_core s' C Q (t # grp)"
proof -
  show "s_insert Group_head (Th_node t) s = Some s'"
    unfolding s'_def by (rule s_insert_ring(2) [OF c(1)]) (use c in auto)
  have "Th_node t \<notin> nodes_of (sheads C) (srings Q grp)" using c(2) by (auto simp: nodes_of_def sheads_def)
  from dlists_insert [OF sched_coreD(1) [OF c(1)] _ this, of Group_head]
  have "dlists (snodes s') (sheads C) (srings Q (t # grp))" by (simp add: s'_def srings_group [of Q "t # grp" grp])
  then show "sched_core s' C Q (t # grp)" using c unfolding sched_core_def by (auto simp: s'_def)
qed

lemma core_queue_insert:
  assumes c: "sched_core s C Q grp" "c \<in> C" "\<forall>d \<in> C. t \<notin> set (Q d)" "t \<in> set grp"
  defines "s' \<equiv> s\<lparr>snodes := list_insert (Rq_head c) (Sched_node t) (snodes s)\<rparr>"
  shows "s_insert (Rq_head c) (Sched_node t) s = Some s'" "sched_core s' C (Q(c := t # Q c)) grp"
proof -
  show "s_insert (Rq_head c) (Sched_node t) s = Some s'"
    unfolding s'_def by (rule s_insert_ring(2) [OF c(1)]) (use c sched_coreD(4) [OF c(1)] in auto)
  have "dlists (snodes s') (sheads C) (srings (Q(c := t # Q c)) grp)"
    using dlists_insert [OF sched_coreD(1) [OF c(1)] _ sched_nodes_of [OF c(3)], of "Rq_head c"] c(2)
    by (simp add: s'_def srings_rq)
  then show "sched_core s' C (Q(c := t # Q c)) grp" using c unfolding sched_core_def by (auto simp: s'_def)
qed

lemma cur_ok_new:
  assumes "cur_ok cur C Q grp" "t \<notin> set grp"
  shows "cur_ok cur C (Q(c := t # Q c)) (t # grp)"
  unfolding cur_ok_def
proof
  fix d assume "d \<in> C"
  then obtain p where "p \<in> set grp" "cur d = Some p" "\<forall>e \<in> C. p \<notin> set (Q e) \<and> (e \<noteq> d \<longrightarrow> cur e \<noteq> Some p)"
    using assms(1) unfolding cur_ok_def by blast
  then show "\<exists>p \<in> set (t # grp). cur d = Some p \<and>
      (\<forall>e \<in> C. p \<notin> set ((Q(c := t # Q c)) e) \<and> (e \<noteq> d \<longrightarrow> cur e \<noteq> Some p))"
    using assms(2) by (intro bexI [of _ p]) auto
qed

text \<open>The thread that \<open>thread_run\<close> prepares, before its directory exists.\<close>

definition new_thread :: "u32 \<times> u32 \<Rightarrow> u32 \<Rightarrow> u32 \<Rightarrow> u32 \<Rightarrow> u32 \<Rightarrow> thread \<Rightarrow> thread" where
  "new_thread entries fn arg stack n x =
     x\<lparr>kstack := stack, th_tf_addr := stack + KERNEL_STACK_SIZE - sizeof_trapframe,
       th_tf := (th_tf x)\<lparr>tf_cs := KERNEL_CS, tf_ds := KERNEL_DS, tf_es := KERNEL_DS, tf_ss := KERNEL_DS,
         tf_ebp := stack, tf_ebx := fn, tf_edx := arg, tf_esp := 0, tf_eax := 0, tf_eip := fst entries,
         tf_eflags := tf_eflags (th_tf x) OR FL_IF\<rparr>,
       th_context := (th_context x)\<lparr>c_esp := stack + KERNEL_STACK_SIZE - sizeof_trapframe, c_eip := snd entries, c_ebp := stack\<rparr>,
       tid := n, th_state := THREAD_RUNNABLE\<rparr>"

lemma thread_run_correct:
  assumes inv: "sched_inv s C Q grp" and C: "this \<in> C" "c \<in> C" and t: "threads s t = None" and st: "stack \<noteq> 0"
    and k: "string_env kmalloc buf" and n: "unat (g_thread_id s) < 2 ^ 31"
    and f: "fs_inv (sfs s) F G" "proc (sfs s) = Some pd" "dirs (sfs s) pd \<noteq> None" "dirs (sfs s) d = None" "files (sfs s) fi = None"
    and x': "x' = (new_thread entries fn arg stack (g_thread_id s) x)\<lparr>th_dir := Some d, f_state := Some fi\<rparr>"
  shows "\<exists>h u. thread_run entries fn arg (int c) this (Some (t, x)) stack kmalloc buf (Some d) (Some fi) s
      = Some (Some t, s\<lparr>g_thread_id := g_thread_id s + 1, threads := (threads s)(t \<mapsto> x'), snodes := h, sfs := u\<rparr>) \<and>
    sched_inv (s\<lparr>g_thread_id := g_thread_id s + 1, threads := (threads s)(t \<mapsto> x'), snodes := h, sfs := u\<rparr>) C
      (Q(c := t # Q c)) (t # grp) \<and>
    fs_inv u (F(d := [fi])) (G(d := [], pd := d # G pd)) \<and> proc u = Some pd \<and>
    dirs u = (dirs (sfs s))(d \<mapsto> \<lparr>d_name = tid_text (g_thread_id s), d_parent = Some pd\<rparr>) \<and>
    files u = (files (sfs s))(fi \<mapsto> \<lparr>f_name = ''state'', f_priv = t, f_parent = d, f_fops = thread_state_fops\<rparr>)"
proof -
  have core: "sched_core s C Q grp" and ok: "cur_ok (current_threads s) C Q grp" using inv by (simp_all add: sched_inv_def)
  have tg: "t \<notin> set grp" using sched_coreD(4) [OF core, of t] t by auto
  obtain a b where cur: "current_threads s this = Some a" "current_threads s c = Some b" "a \<in> set grp" "b \<in> set grp"
    using bspec [OF ok [unfolded cur_ok_def] C(1)] bspec [OF ok [unfolded cur_ok_def] C(2)] by auto
  have "a \<noteq> t" "b \<noteq> t" using cur(3,4) tg by auto
  then obtain xa xb where ab: "threads s a = Some xa" "threads s b = Some xb" "a \<noteq> t" "b \<noteq> t"
    using sched_coreD(4) [OF core cur(3)] sched_coreD(4) [OF core cur(4)] by auto
  let ?x = "new_thread entries fn arg stack (g_thread_id s) x"
  define s1 where "s1 = s\<lparr>g_thread_id := g_thread_id s + 1, threads := (threads s)(t \<mapsto> ?x)\<rparr>"
  define s2 where "s2 = s1\<lparr>snodes := list_insert Group_head (Th_node t) (snodes s1)\<rparr>"
  define h where "h = list_insert (Rq_head c) (Sched_node t) (snodes s2)"
  have core1: "sched_core s1 C Q grp" by (rule sched_core_cong [OF core]) (simp_all add: s1_def)
  have t1: "threads s1 t \<noteq> None" by (simp add: s1_def)
  note i1 = core_group_insert [OF core1 tg t1, folded s2_def]
  have tq: "\<forall>d \<in> C. t \<notin> set (Q d)" using tg sched_coreD(5) [OF core] by blast
  have tin: "t \<in> set (t # grp)" by simp
  note i2 = core_queue_insert [OF i1(2) C(2) tq tin, folded h_def]
  have s2h: "s2\<lparr>snodes := h\<rparr> = s1\<lparr>snodes := h\<rparr>" by (simp add: s2_def)
  let ?f = "\<lambda>s. do { r \<leftarrow> current_threads s c; _ \<leftarrow> threads s r; s \<leftarrow> s_insert Group_head (Th_node t) s;
    s_insert (Rq_head c) (Sched_node t) s }"
  have lk: "under_lock c ?f s1 = Some (s1\<lparr>snodes := h\<rparr>)"
  proof (rule locked_op)
    show "counter (sched_lock s1 c) = 0" by (rule sched_coreD(3) [OF core1 C(2)])
    show "?f s1 = Some (s1\<lparr>snodes := h\<rparr>)" using i1(1) i2(1) cur ab s2h by (simp add: s1_def)
    show "?f (s1\<lparr>sched_lock := l\<rparr>) = map_option (\<lambda>t. t\<lparr>sched_lock := l\<rparr>) (?f s1)" for l
      using i1(1) i2(1) cur ab by (simp add: s_ops_lock s1_def)
  qed
  let ?s3 = "s1\<lparr>snodes := h\<rparr>"
  obtain u where u: "create_thread_procfs kmalloc buf (Some d) (Some fi) t ?s3
      = Some (0, ?s3\<lparr>sfs := u, threads := (threads ?s3)(t \<mapsto> ?x\<lparr>th_dir := Some d, f_state := Some fi\<rparr>)\<rparr>)"
    "fs_inv u (F(d := [fi])) (G(d := [], pd := d # G pd))" "proc u = Some pd"
    "dirs u = (dirs (sfs s))(d \<mapsto> \<lparr>d_name = tid_text (g_thread_id s), d_parent = Some pd\<rparr>)"
    "files u = (files (sfs s))(fi \<mapsto> \<lparr>f_name = ''state'', f_priv = t, f_parent = d, f_fops = thread_state_fops\<rparr>)"
    using create_thread_procfs_correct [OF k, of ?s3 t ?x F G pd d fi] n f by (auto simp: s1_def new_thread_def)
  let ?s' = "s\<lparr>g_thread_id := g_thread_id s + 1, threads := (threads s)(t \<mapsto> x'), snodes := h, sfs := u\<rparr>"
  have "sched_core ?s3 C (Q(c := t # Q c)) (t # grp)" using i2(2) unfolding s2h .
  then have "sched_core ?s' C (Q(c := t # Q c)) (t # grp)" by (rule sched_core_cong) (simp_all add: s1_def)
  then have "sched_inv ?s' C (Q(c := t # Q c)) (t # grp)" using cur_ok_new [OF ok tg] by (simp add: sched_inv_def)
  moreover have "thread_run entries fn arg (int c) this (Some (t, x)) stack kmalloc buf (Some d) (Some fi) s = Some (Some t, ?s')"
  proof -
    have "c < MAX_CPU" by (rule sched_coreD(2) [OF core C(2)])
    then show ?thesis
      using st cur(1) ab(1) lk [unfolded s1_def new_thread_def] u(1) [unfolded s1_def new_thread_def]
      unfolding thread_run_def by (simp add: Let_def x' new_thread_def)
  qed
  ultimately show ?thesis using u by blast
qed

lemma schedule_init_boot:
  assumes t: "threads s t = None" and k: "string_env kmalloc buf" and n: "unat (g_thread_id s) < 2 ^ 31"
    and f: "fs_inv (sfs s) F G" "proc (sfs s) = Some pd" "dirs (sfs s) pd \<noteq> None" "dirs (sfs s) d = None" "files (sfs s) fi = None"
  shows "\<exists>s' x'. schedule_init 0 bootstack (Some (t, x)) kmalloc buf (Some d) (Some fi) s = Some (0, s') \<and>
    sched_inv s' {0} (\<lambda>_. []) [t] \<and> current_threads s' 0 = Some t \<and> threads s' = (threads s)(t \<mapsto> x') \<and>
    th_state x' = THREAD_RUNNING \<and> th_dir x' = Some d \<and> g_thread_id s' = g_thread_id s + 1 \<and> cpu_regs s' = cpu_regs s \<and>
    fs_inv (sfs s') (F(d := [fi])) (G(d := [], pd := d # G pd)) \<and> proc (sfs s') = Some pd \<and>
    dirs (sfs s') = (dirs (sfs s))(d \<mapsto> \<lparr>d_name = tid_text (g_thread_id s), d_parent = Some pd\<rparr>) \<and>
    files (sfs s') = (files (sfs s))(fi \<mapsto> \<lparr>f_name = ''state'', f_priv = t, f_parent = d, f_fops = thread_state_fops\<rparr>)"
proof -
  define x1 where "x1 = x\<lparr>tid := g_thread_id s, th_state := THREAD_RUNNING, kstack := bootstack,
    th_tf_addr := bootstack + KERNEL_STACK_SIZE * of_nat 0 - sizeof_trapframe\<rparr>"
  define s1 where "s1 = s\<lparr>sched_lock := (sched_lock s)(0 := spinlock_init (sched_lock s 0)),
    snodes := list_init (Rq_head 0) (list_init Group_head (snodes s)), g_thread_id := g_thread_id s + 1,
    threads := (threads s)(t \<mapsto> x1), current_threads := (current_threads s)(0 \<mapsto> t)\<rparr>"
  have h: "{Group_head, Rq_head 0} = sheads {0}" by (auto simp: sheads_def)
  have "dlists (snodes s1) (sheads {0}) (\<lambda>_. [])"
    using dlists_fold_init [of "[Group_head, Rq_head 0]" "snodes s"] by (simp add: s1_def h)
  moreover have "srings (\<lambda>_. []) [] = (\<lambda>_. [])"
  proof
    show "srings (\<lambda>_. []) [] q = []" for q by (cases q) auto
  qed
  ultimately have core1: "sched_core s1 {0} (\<lambda>_. []) []"
    by (simp add: sched_core_def) (simp add: s1_def spinlock_init_def MAX_CPU_def)
  define s2 where "s2 = s1\<lparr>snodes := list_insert Group_head (Th_node t) (snodes s1)\<rparr>"
  have t1: "threads s1 t \<noteq> None" by (simp add: s1_def)
  note i = core_group_insert [OF core1 _ t1, simplified, folded s2_def]
  obtain u where u: "create_thread_procfs kmalloc buf (Some d) (Some fi) t s2
      = Some (0, s2\<lparr>sfs := u, threads := (threads s2)(t \<mapsto> x1\<lparr>th_dir := Some d, f_state := Some fi\<rparr>)\<rparr>)"
    "fs_inv u (F(d := [fi])) (G(d := [], pd := d # G pd))" "proc u = Some pd"
    "dirs u = (dirs (sfs s))(d \<mapsto> \<lparr>d_name = tid_text (g_thread_id s), d_parent = Some pd\<rparr>)"
    "files u = (files (sfs s))(fi \<mapsto> \<lparr>f_name = ''state'', f_priv = t, f_parent = d, f_fops = thread_state_fops\<rparr>)"
    using create_thread_procfs_correct [OF k, of s2 t x1 F G pd d fi] n f by (auto simp: s1_def s2_def x1_def)
  let ?s' = "s2\<lparr>sfs := u, threads := (threads s2)(t \<mapsto> x1\<lparr>th_dir := Some d, f_state := Some fi\<rparr>)\<rparr>"
  have "schedule_init 0 bootstack (Some (t, x)) kmalloc buf (Some d) (Some fi) s = Some (0, ?s')"
    using i(1) [unfolded s1_def x1_def] u(1)
    by (simp add: schedule_init_def s_init_def MAX_CPU_def Let_def)
  moreover have "sched_core ?s' {0} (\<lambda>_. []) [t]" by (rule sched_core_cong [OF i(2)]) simp_all
  then have "sched_inv ?s' {0} (\<lambda>_. []) [t]" by (simp add: sched_inv_def cur_ok_def s2_def s1_def)
  ultimately show ?thesis
    using u by (intro exI [of _ ?s'] exI [of _ "x1\<lparr>th_dir := Some d, f_state := Some fi\<rparr>"])
      (simp add: s2_def s1_def, simp add: x1_def)
qed

section \<open>The end of a thread\<close>

lemma cur_ok_exit:
  assumes ok: "cur_ok cur C Q grp" and c: "c \<in> C" "cur c = Some p" "Q c = n # q" "n \<in> set grp"
    and n: "n \<notin> set q" "\<forall>d \<in> C. d \<noteq> c \<longrightarrow> n \<notin> set (Q d)"
  shows "cur_ok (cur(c \<mapsto> n)) C (Q(c := q)) (remove1 p grp)"
proof -
  have sw: "cur_ok (cur(c \<mapsto> n)) C (Q(c := q @ [p])) grp" by (rule cur_ok_switch [OF ok c n])
  show ?thesis
    unfolding cur_ok_def
  proof
    fix d assume d: "d \<in> C"
    obtain r where r: "r \<in> set grp" "(cur(c \<mapsto> n)) d = Some r"
        "\<forall>e \<in> C. r \<notin> set ((Q(c := q @ [p])) e) \<and> (e \<noteq> d \<longrightarrow> (cur(c \<mapsto> n)) e \<noteq> Some r)"
      using bspec [OF sw [unfolded cur_ok_def] d] by blast
    then have "r \<noteq> p" using c(1) by auto
    then show "\<exists>r \<in> set (remove1 p grp). (cur(c \<mapsto> n)) d = Some r \<and>
        (\<forall>e \<in> C. r \<notin> set ((Q(c := q)) e) \<and> (e \<noteq> d \<longrightarrow> (cur(c \<mapsto> n)) e \<noteq> Some r))"
      using r by (intro bexI [of _ r]) (auto split: if_splits)
  qed
qed

lemma map_remove1_th: "map Th_node (remove1 x xs) = remove1 (Th_node x) (map Th_node xs)"
  by (induction xs) auto

lemma thread_exit_eq:
  assumes inv: "sched_inv s C Q grp" and c: "c \<in> C" and cur: "current_threads s c = Some p" and q: "Q c = n # q"
    and x: "threads s p = Some x" "th_dir x = Some d" and y: "threads s n = Some y"
  shows "\<exists>h. thread_exit c s = map_option (\<lambda>(_, f). s\<lparr>snodes := h, current_threads := (current_threads s)(c \<mapsto> n),
        threads := (threads s)(p := None), sfs := f, cpu_regs := (cpu_regs s)(c := th_context y)\<rparr>) (remove_directory d (sfs s)) \<and>
    (\<forall>s'. snodes s' = h \<and> threads s' = (threads s)(p := None) \<and> sched_lock s' = sched_lock s
      \<longrightarrow> sched_core s' C (Q(c := q)) (remove1 p grp))"
proof -
  have core: "sched_core s C Q grp" and ok: "cur_ok (current_threads s) C Q grp" using inv by (simp_all add: sched_inv_def)
  have p: "p \<in> set grp" "\<forall>d \<in> C. p \<notin> set (Q d)" using bspec [OF ok [unfolded cur_ok_def] c] cur by auto
  have pn: "p \<noteq> n" using p(2) c q by auto
  define s0 where "s0 = s\<lparr>threads := (threads s)(p \<mapsto> x\<lparr>th_state := THREAD_EXIT\<rparr>)\<rparr>"
  define s1 where "s1 = s0\<lparr>snodes := list_remove (Sched_node n) (snodes s0)\<rparr>"
  define s2 where "s2 = s1\<lparr>current_threads := (current_threads s1)(c \<mapsto> n)\<rparr>"
  define h where "h = list_remove (Th_node p) (snodes s2)"
  have core0: "sched_core s0 C Q grp" by (rule sched_core_cong [OF core]) (simp_all add: s0_def)
  note r = core_dequeue [OF core0 c q, folded s1_def]
  have core2: "sched_core s2 C (Q(c := q)) grp" by (rule sched_core_cong [OF r(2)]) (simp_all add: s2_def)
  have pg: "Th_node p \<in> set (srings (Q(c := q)) grp Group_head)" using p(1) by simp
  have r2: "s_remove (Th_node p) s2 = Some (s2\<lparr>snodes := h\<rparr>)"
    unfolding h_def by (rule s_remove_ring [OF core2 _ pg]) simp
  have dl: "dlists h (sheads C) (srings (Q(c := q)) (remove1 p grp))"
    using dlists_remove [OF sched_coreD(1) [OF core2] _ pg]
    by (simp add: h_def srings_group [of "Q(c := q)" "remove1 p grp" grp] map_remove1_th del: fun_upd_apply)
  have l: "counter (sched_lock s0 c) = 0" "counter (sched_lock s2 c) = 0"
    using sched_coreD(3) [OF core0 c] sched_coreD(3) [OF core2 c] by auto
  note op1 = locked_op [OF l(1), of "s_remove (Sched_node n)", OF r(1) [unfolded s1_def] s_ops_lock(1), folded s1_def]
  note op2 = locked_op [OF l(2), of "s_remove (Th_node p)", OF r2 s_ops_lock(1)]
  have t: "threads s1 = (threads s)(p \<mapsto> x\<lparr>th_state := THREAD_EXIT\<rparr>)" by (simp add: s1_def s0_def)
  have e: "list_empty (Rq_head c) (snodes s0) = False" "list_next (Rq_head c) (snodes s0) = Sched_node n"
    using rq_ring [OF core0 c] q by simp_all
  have "schedule c s0 = map_option (\<lambda>(_, f). s\<lparr>snodes := h, current_threads := (current_threads s)(c \<mapsto> n),
      threads := (threads s)(p := None), sfs := f, cpu_regs := (cpu_regs s)(c := th_context y)\<rparr>) (remove_directory d (sfs s))"
  proof -
    have "sfs s1 = sfs s" "current_threads s0 = current_threads s" "cpu_regs s1 = cpu_regs s"
      by (simp_all add: s1_def s0_def)
    then show ?thesis
      using cur pn x y e
      by (cases "remove_directory d (sfs s)")
        (auto simp: schedule_def Let_def op1 t op2 [unfolded s2_def] context_switch_def, simp add: s1_def s0_def)
  qed
  moreover have "thread_exit c s = schedule c s0" using cur x by (simp add: thread_exit_def on_thread_def s0_def)
  moreover have "sched_core s' C (Q(c := q)) (remove1 p grp)"
    if "snodes s' = h" "threads s' = (threads s)(p := None)" "sched_lock s' = sched_lock s" for s'
  proof -
    have "distinct grp" using dlists_dlist [OF sched_coreD(1) [OF core], of Group_head] by (simp add: dlist_def distinct_map)
    then have "set (remove1 p grp) = set grp - {p}" by (rule set_remove1_eq)
    moreover have "set ((Q(c := q)) d) \<subseteq> set grp - {p}" if "d \<in> C" for d
      using sched_coreD(5) [OF core2 that] p(2) that q by (auto split: if_splits)
    ultimately show ?thesis using core dl that unfolding sched_core_def by auto
  qed
  ultimately show ?thesis by metis
qed

section \<open>Two threads\<close>

definition no_context :: thread_context where
  "no_context = \<lparr>c_eip = 0, c_esp = 0, c_ebx = 0, c_ecx = 0, c_edx = 0, c_esi = 0, c_edi = 0, c_ebp = 0\<rparr>"

definition no_trapframe :: trapframe where
  "no_trapframe = \<lparr>tf_ebp = 0, tf_esp = 0, tf_ebx = 0, tf_edx = 0, tf_eax = 0, tf_es = 0, tf_ds = 0, tf_eip = 0, tf_cs = 0,
     tf_eflags = 0, tf_ss = 0\<rparr>"

definition raw_thread :: thread where
  "raw_thread = \<lparr>tid = 0, th_state = THREAD_INACTIVE, kstack = 0, th_tf_addr = 0, th_tf = no_trapframe,
     th_context = no_context, th_dir = None, f_state = None\<rparr>"

definition sched_bss :: "fs \<Rightarrow> sched" where
  "sched_bss f = \<lparr>threads = Map.empty, snodes = \<lparr>prev = (\<lambda>_. Null_node), nxt = (\<lambda>_. Null_node)\<rparr>, current_threads = (\<lambda>_. None),
     g_thread_id = 0, sched_lock = (\<lambda>_. \<lparr>counter = 0\<rparr>), cpu_regs = (\<lambda>_. no_context), sfs = f\<rparr>"

definition small_alloc :: alloc where
  "small_alloc n = (if n \<le> 2 ^ 30 then Some (replicate n 0) else None)"

lemma small_env: "string_env small_alloc (replicate 32 0)"
  by (simp add: string_env_def alloc_small_def alloc_ok_def small_alloc_def sizeof_string_def STRING_MIN_SIZE_def)

text \<open>The idle thread 0 of processor 0 after \<open>schedule_init\<close>, and thread 1 after \<open>thread_run\<close>.\<close>

definition boot_threads :: "sched \<Rightarrow> bool" where
  "boot_threads s \<longleftrightarrow> (\<exists>f a. fs_init (Some 0, Some 1, Some 2, Some 3) fs_bss = Some (0, f) \<and>
     schedule_init 0 0xC0108000 (Some (0, raw_thread)) small_alloc (replicate 32 0) (Some 4) (Some 0) (sched_bss f) = Some (0, a) \<and>
     thread_run (0xC0100100, 0xC0100200) 0xC0100300 7 0 0 (Some (1, raw_thread)) 0xC0200000 small_alloc (replicate 32 0)
       (Some 5) (Some 1) a = Some (Some 1, s))"

lemma two_threads:
  "\<exists>s x y F G. boot_threads s \<and> sched_inv s {0} ((\<lambda>_. [])(0 := [1])) [1, 0] \<and> current_threads s 0 = Some 0 \<and>
    cpu_regs s 0 = no_context \<and> threads s = [0 \<mapsto> x, 1 \<mapsto> y] \<and> th_state x = THREAD_RUNNING \<and> th_state y = THREAD_RUNNABLE \<and>
    c_eip (th_context y) = 0xC0100200 \<and> th_dir x = Some 4 \<and>
    fs_inv (sfs s) F G \<and> F 4 = [0] \<and> 4 \<in> set (G 2) \<and> dirs (sfs s) 4 \<noteq> None \<and> dirs (sfs s) 2 \<noteq> None"
proof -
  obtain f where f: "fs_init (Some 0, Some 1, Some 2, Some 3) fs_bss = Some (0, f)"
      "fs_inv f (\<lambda>_. []) ((\<lambda>_. [])(0 := [3, 2, 1]))" "proc f = Some 2" "files f = Map.empty" "\<forall>d. dirs f d \<noteq> None \<longleftrightarrow> d < 4"
    using fs_boot by blast
  have d: "dirs f 2 \<noteq> None" "dirs f 4 = None" "dirs f 5 = None"
    using spec [OF f(5), of 2] spec [OF f(5), of 4] spec [OF f(5), of 5] by auto
  obtain a x where a: "schedule_init 0 0xC0108000 (Some (0, raw_thread)) small_alloc (replicate 32 0) (Some 4) (Some 0)
        (sched_bss f) = Some (0, a)"
      "sched_inv a {0} (\<lambda>_. []) [0]" "current_threads a 0 = Some 0" "threads a = [0 \<mapsto> x]" "th_state x = THREAD_RUNNING"
      "th_dir x = Some 4" "g_thread_id a = 1" "cpu_regs a = (\<lambda>_. no_context)"
      "fs_inv (sfs a) ((\<lambda>_. [])(4 := [0])) (((\<lambda>_. [])(0 := [3, 2, 1]))(4 := [], 2 := [4]))" "proc (sfs a) = Some 2"
      "dirs (sfs a) = (dirs f)(4 \<mapsto> \<lparr>d_name = tid_text 0, d_parent = Some 2\<rparr>)"
      "files (sfs a) = [0 \<mapsto> \<lparr>f_name = ''state'', f_priv = 0, f_parent = 4, f_fops = thread_state_fops\<rparr>]"
    using schedule_init_boot [where s = "sched_bss f" and t = 0 and F = "\<lambda>_. []" and G = "(\<lambda>_. [])(0 := [3, 2, 1])"
        and pd = 2 and d = 4 and fi = 0 and bootstack = "0xC0108000" and x = raw_thread, OF _ small_env] f(2,3,4) d
    by (auto simp: sched_bss_def)
  have b: "dirs (sfs a) 2 \<noteq> None" "dirs (sfs a) 5 = None" "files (sfs a) 1 = None" "threads a 1 = None"
    using d a by auto
  let ?y = "(new_thread (0xC0100100, 0xC0100200) 0xC0100300 7 0xC0200000 1 raw_thread)\<lparr>th_dir := Some 5, f_state := Some 1\<rparr>"
  obtain h u where s: "thread_run (0xC0100100, 0xC0100200) 0xC0100300 7 0 0 (Some (1, raw_thread)) 0xC0200000 small_alloc
        (replicate 32 0) (Some 5) (Some 1) a
        = Some (Some 1, a\<lparr>g_thread_id := 2, threads := [0 \<mapsto> x, 1 \<mapsto> ?y], snodes := h, sfs := u\<rparr>)"
      "sched_inv (a\<lparr>g_thread_id := 2, threads := [0 \<mapsto> x, 1 \<mapsto> ?y], snodes := h, sfs := u\<rparr>) {0} ((\<lambda>_. [])(0 := [1])) [1, 0]"
      "fs_inv u (((\<lambda>_. [])(4 := [0]))(5 := [1])) ((((\<lambda>_. [])(0 := [3, 2, 1]))(4 := [], 2 := [4]))(5 := [], 2 := [5, 4]))"
      "dirs u = (dirs (sfs a))(5 \<mapsto> \<lparr>d_name = tid_text 1, d_parent = Some 2\<rparr>)"
    using thread_run_correct [where this = 0 and c = 0 and t = 1 and x = raw_thread and stack = "0xC0200000" and d = 5 and fi = 1
        and entries = "(0xC0100100, 0xC0100200)" and fn = "0xC0100300" and arg = 7, OF a(2) _ _ b(4) _ small_env _ a(9,10) b(1,2,3) refl]
      a(4,7) by auto
  have "boot_threads (a\<lparr>g_thread_id := 2, threads := [0 \<mapsto> x, 1 \<mapsto> ?y], snodes := h, sfs := u\<rparr>)"
    unfolding boot_threads_def using f(1) a(1) s(1) by blast
  then show ?thesis
    using s(2,3,4) a(3,5,6,8,11) d
    by (intro exI [of _ "a\<lparr>g_thread_id := 2, threads := [0 \<mapsto> x, 1 \<mapsto> ?y], snodes := h, sfs := u\<rparr>"] exI [of _ x] exI [of _ ?y]
        exI [of _ "((\<lambda>_. [])(4 := [0]))(5 := [1])"]
        exI [of _ "(((\<lambda>_. [])(0 := [3, 2, 1]))(4 := [], 2 := [4]))(5 := [], 2 := [5, 4])"])
      (simp add: new_thread_def)
qed

section \<open>Properties\<close>

definition thread_view :: "sched \<Rightarrow> nat \<Rightarrow> nat \<Rightarrow> thread_context" where
  "thread_view s c t = (if current_threads s c = Some t then cpu_regs s c else th_context (the (threads s t)))"

lemma run_slices_refine:
  assumes "rr_rel C Q grp c s a" "c \<in> C"
  shows "\<exists>s'. run_slices c fs s = Some s' \<and> rr_rel C Q grp c s' (fold rr_slice fs a)"
  using assms(1)
proof (induction fs arbitrary: s a)
  case (Cons f fs)
  obtain s1 where "run_slice c f s = Some s1" "rr_rel C Q grp c s1 (rr_slice f a)"
    using rr_slice_refines [OF Cons.prems assms(2)] by blast
  then show ?case using Cons.IH by simp
qed simp

lemma rr_slices_rotate: "fst (fold rr_slice fs (ts, v)) = rotate (length fs) ts"
proof (induction fs arbitrary: ts v)
  case (Cons f fs)
  then show ?case by (cases ts) (simp_all add: rotate1_rotate_swap)
qed simp

text \<open>
  C7: The scheduler of one processor refines round robin.  Let the running thread and the threads on the
  run queue run any slices, each an arbitrary change of the registers by the thread that runs, followed by
  a call of \<open>schedule\<close>.  No call fails; after \<open>k\<close> slices thread \<open>k\<close> modulo the number of threads runs and the
  others wait in order; and the registers of the processor are those that this thread would have if it had
  executed its own slices alone.
\<close>

theorem schedule_round_robin:
  assumes "sched_inv s C Q grp" "c \<in> C" "current_threads s c = Some p"
    and "\<forall>t \<in> set (p # Q c). \<forall>x. threads s t = Some x \<longrightarrow> th_state x \<noteq> THREAD_EXIT"
  shows "\<exists>s' v. run_slices c fs s = Some s' \<and> fold rr_slice fs (p # Q c, thread_view s c) = (rotate (length fs) (p # Q c), v) \<and>
    sched_inv s' C (Q(c := tl (rotate (length fs) (p # Q c)))) grp \<and>
    current_threads s' c = Some ((p # Q c) ! (length fs mod length (p # Q c))) \<and>
    cpu_regs s' c = v ((p # Q c) ! (length fs mod length (p # Q c)))"
proof -
  let ?ts = "p # Q c"
  have core: "sched_core s C Q grp" and ok: "cur_ok (current_threads s) C Q grp" using assms(1) by (simp_all add: sched_inv_def)
  have "p \<in> set grp" using bspec [OF ok [unfolded cur_ok_def] assms(2)] assms(3) by auto
  then have "\<exists>x. threads s t = Some x" if "t \<in> set ?ts" for t
    using that sched_coreD(4) [OF core] sched_coreD(5) [OF core assms(2)] by auto
  then have "rr_rel C Q grp c s (?ts, thread_view s c)"
    using assms by (fastforce simp: rr_rel_def thread_view_def)
  then obtain s' where s': "run_slices c fs s = Some s'" "rr_rel C Q grp c s' (fold rr_slice fs (?ts, thread_view s c))"
    using run_slices_refine [OF _ assms(2)] by blast
  define v where "v = snd (fold rr_slice fs (?ts, thread_view s c))"
  have f: "fold rr_slice fs (?ts, thread_view s c) = (rotate (length fs) ?ts, v)"
    using rr_slices_rotate [of fs ?ts] by (simp add: v_def prod_eq_iff)
  have "hd (rotate (length fs) ?ts) = ?ts ! (length fs mod length ?ts)" by (rule hd_rotate_conv_nth) simp
  then show ?thesis using s' f by (auto simp: rr_rel_def)
qed

theorem schedule_round_robin_witness:
  "\<exists>s s'. boot_threads s \<and> run_slices 0 [c_ebx_update (\<lambda>_. 5), c_ebx_update (\<lambda>_. 9)] s = Some s' \<and>
    current_threads s' 0 = Some 0 \<and> c_ebx (cpu_regs s' 0) = 5"
proof -
  obtain s x y where s: "boot_threads s" "sched_inv s {0} ((\<lambda>_. [])(0 := [1])) [1, 0]" "current_threads s 0 = Some 0"
      "threads s = [0 \<mapsto> x, 1 \<mapsto> y]" "th_state x = THREAD_RUNNING" "th_state y = THREAD_RUNNABLE"
    using two_threads by blast
  show ?thesis
    using schedule_round_robin [OF s(2) _ s(3), of "[c_ebx_update (\<lambda>_. 5), c_ebx_update (\<lambda>_. 9)]"] s(1,4,5,6)
    by (auto simp: numeral_2_eq_2)
qed

text \<open>
  C19: The end of a thread, composed with the file tree.  \<open>thread_exit\<close> of the running thread, with another
  thread ready, returns exactly if the directory of the thread in the file tree is empty; then the next
  thread runs with its saved registers, and the ended thread is on no list and its object is free.  If the
  directory has a file or a subdirectory, the removal of the directory reads a freed object.  \<open>thread_run\<close>
  puts a file \<open>state\<close> there.
\<close>

theorem thread_exit_spec:
  assumes "sched_inv s C Q grp" "c \<in> C" "current_threads s c = Some p" "Q c = n # q"
    and "threads s p = Some x" "th_dir x = Some d" "threads s n = Some y"
    and "fs_inv (sfs s) F G" "dirs (sfs s) d \<noteq> None" "dirs (sfs s) r \<noteq> None" "d \<in> set (G r)"
  shows "case thread_exit c s of
      None \<Rightarrow> F d \<noteq> [] \<or> G d \<noteq> []
    | Some s' \<Rightarrow> F d = [] \<and> G d = [] \<and> sched_inv s' C (Q(c := q)) (remove1 p grp) \<and> current_threads s' c = Some n \<and>
        cpu_regs s' c = th_context y \<and> threads s' = (threads s)(p := None) \<and> fs_inv (sfs s') F (G(r := remove1 d (G r)))"
proof -
  have core: "sched_core s C Q grp" and ok: "cur_ok (current_threads s) C Q grp" using assms(1) by (simp_all add: sched_inv_def)
  have n: "n \<in> set grp" "n \<notin> set q" "\<forall>d \<in> C. d \<noteq> c \<longrightarrow> n \<notin> set (Q d)"
    using sched_coreD(5) [OF core assms(2), of n] queue_distinct [OF core assms(2)] assms(4) by auto
  note ok' = cur_ok_exit [OF ok assms(2,3,4) n]
  obtain h where h: "thread_exit c s = map_option (\<lambda>(_, f). s\<lparr>snodes := h, current_threads := (current_threads s)(c \<mapsto> n),
        threads := (threads s)(p := None), sfs := f, cpu_regs := (cpu_regs s)(c := th_context y)\<rparr>) (remove_directory d (sfs s))"
    and core': "\<forall>s'. snodes s' = h \<and> threads s' = (threads s)(p := None) \<and> sched_lock s' = sched_lock s
      \<longrightarrow> sched_core s' C (Q(c := q)) (remove1 p grp)"
    using thread_exit_eq [OF assms(1-7)] by blast
  show ?thesis
  proof (cases "F d = [] \<and> G d = []")
    case True
    obtain f where "remove_directory d (sfs s) = Some (0, f)" "fs_inv f F (G(r := remove1 d (G r)))"
      using remove_directory_empty [OF assms(8-11)] True by blast
    then show ?thesis using h core' ok' True by (simp add: sched_inv_def)
  next
    case False
    then show ?thesis using h remove_directory_nonempty [OF assms(8,9)] by auto
  qed
qed

theorem thread_exit_spec_witness: "\<exists>s. boot_threads s \<and> thread_exit 0 s = None"
proof -
  obtain s x y F G where s: "boot_threads s" "sched_inv s {0} ((\<lambda>_. [])(0 := [1])) [1, 0]" "current_threads s 0 = Some 0"
      "threads s = [0 \<mapsto> x, 1 \<mapsto> y]" "th_dir x = Some 4"
      "fs_inv (sfs s) F G" "F 4 = [0]" "4 \<in> set (G 2)" "dirs (sfs s) 4 \<noteq> None" "dirs (sfs s) 2 \<noteq> None"
    using two_threads by blast
  then show ?thesis
    using thread_exit_spec [OF s(2) _ s(3), of 1 "[]" x 4 y F G 2] by (auto split: option.splits)
qed

text \<open>
  C30: A wakeup that is lost.  Let the run queue of the processor be one thread, and let it be put to sleep
  and woken again on this processor.  The calls return and the thread is marked runnable, but the run
  queue is empty, so \<open>schedule\<close> does nothing: \<open>thread_wakeup\<close> passes the arguments of \<open>list_insert\<close> in the
  wrong order.
\<close>

theorem thread_wakeup_lost:
  assumes "sched_inv s C Q grp" "c \<in> C" "Q c = [t]"
  shows "\<exists>s1 s2 x. thread_sleep t s = Some s1 \<and> thread_wakeup c t s1 = Some s2 \<and> threads s2 t = Some x \<and>
    th_state x = THREAD_RUNNABLE \<and> list_empty (Rq_head c) (snodes s2) \<and> schedule c s2 = Some s2"
proof -
  let ?q = "Rq_head c" and ?n = "Sched_node t"
  have core: "sched_core s C Q grp" using assms(1) by (simp add: sched_inv_def)
  have cm: "c < MAX_CPU" by (rule sched_coreD(2) [OF core assms(2)])
  obtain x where x: "threads s t = Some x" using sched_coreD(4,5) [OF core] assms(2,3) by fastforce
  have "dlist (snodes s) ?q [?n]" using dlists_dlist [OF sched_coreD(1) [OF core], of ?q] assms(2,3) by simp
  then have d: "nxt (snodes s) ?n = ?q" "prev (snodes s) ?n = ?q" by (auto simp: dlist_def)
  let ?s1 = "s\<lparr>threads := (threads s)(t \<mapsto> x\<lparr>th_state := THREAD_SLEEPING\<rparr>), snodes := list_remove ?n (snodes s)\<rparr>"
  have 1: "thread_sleep t s = Some ?s1"
    using d x cm by (simp add: thread_sleep_def on_thread_def s_remove_def)
  let ?s2 = "?s1\<lparr>threads := (threads s)(t \<mapsto> x\<lparr>th_state := THREAD_RUNNABLE\<rparr>),
    snodes := list_insert ?n ?q (list_remove ?n (snodes s))\<rparr>"
  have 2: "thread_wakeup c t ?s1 = Some ?s2"
    using d x cm by (simp add: thread_wakeup_def on_thread_def s_insert_def list_remove_def set_next_def set_prev_def Let_def)
  have 3: "list_empty ?q (snodes ?s2)"
    using d by (simp add: list_empty_def list_insert_def list_remove_def set_next_def set_prev_def Let_def)
  then have "schedule c ?s2 = Some ?s2" by (simp add: schedule_def)
  then show ?thesis using 1 2 3 by auto
qed

theorem thread_wakeup_lost_witness:
  "\<exists>s s1 s2. boot_threads s \<and> thread_sleep 1 s = Some s1 \<and> thread_wakeup 0 1 s1 = Some s2 \<and> schedule 0 s2 = Some s2"
proof -
  obtain s where s: "boot_threads s" "sched_inv s {0} ((\<lambda>_. [])(0 := [1])) [1, 0]" using two_threads by blast
  show ?thesis using thread_wakeup_lost [OF s(2), of 0 1] s(1) by auto
qed

end
