(* ===== verification/Ports.thy ===== *)
theory Ports
  imports Prelude
begin

text \<open>
  Device access.  The devices are not part of the program: what a read of a port or of a mapped register
  answers is an argument of the model, a function of the accesses made so far.  The state of a driver
  therefore contains the trace of its accesses, oldest first.  Log messages are left out of the traces.

  The second part is the interrupt controller pair of \<^verbatim>\<open>kernel/pic.c\<close>, together with the reaction of an
  8259 chip to the accesses.
\<close>

section \<open>Accesses\<close>

datatype io_addr = Port u16 | Mmio u32

datatype io_event = Wr io_addr u32 | Rd io_addr u32

type_synonym trace = "io_event list"
type_synonym device = "trace \<Rightarrow> io_addr \<Rightarrow> u32"

definition outb :: "u16 \<Rightarrow> u8 \<Rightarrow> trace \<Rightarrow> trace" where
  "outb port data tr = tr @ [Wr (Port port) (ucast data)]"

definition inb :: "device \<Rightarrow> u16 \<Rightarrow> trace \<Rightarrow> u8 \<times> trace" where
  "inb dev port tr =
     (let v = ucast (dev tr (Port port)) in (v, tr @ [Rd (Port port) (ucast v)]))"

definition mmio_write :: "u32 \<Rightarrow> u32 \<Rightarrow> trace \<Rightarrow> trace" where
  "mmio_write addr v tr = tr @ [Wr (Mmio addr) v]"

definition mmio_read :: "device \<Rightarrow> u32 \<Rightarrow> trace \<Rightarrow> u32 \<times> trace" where
  "mmio_read dev addr tr = (let v = dev tr (Mmio addr) in (v, tr @ [Rd (Mmio addr) v]))"

text \<open>A driver operation only adds accesses; \<open>writes_of\<close> are those that change a device.\<close>

fun is_write :: "io_event \<Rightarrow> bool" where
  "is_write (Wr _ _) = True"
| "is_write (Rd _ _) = False"

definition writes_of :: "trace \<Rightarrow> trace" where
  "writes_of tr = filter is_write tr"

lemma writes_of_simps [simp]:
  "writes_of [] = []" "writes_of (a @ b) = writes_of a @ writes_of b"
  "writes_of (outb p d tr) = writes_of tr @ [Wr (Port p) (ucast d)]"
  "writes_of (snd (inb dev p tr)) = writes_of tr"
  "writes_of (mmio_write x v tr) = writes_of tr @ [Wr (Mmio x) v]"
  "writes_of (snd (mmio_read dev x tr)) = writes_of tr"
  by (simp_all add: writes_of_def outb_def inb_def mmio_write_def mmio_read_def Let_def)

section \<open>The two 8259 interrupt controllers\<close>

definition ICW1_ICW4 :: u16 where "ICW1_ICW4 = 0x01"
definition ICW1_INIT :: u16 where "ICW1_INIT = 0x10"
definition ICW4_8086 :: u16 where "ICW4_8086 = 0x01"
definition ICW4_AUTO :: u16 where "ICW4_AUTO = 0x02"
definition IO_PIC1 :: u16 where "IO_PIC1 = 0x20"
definition IO_PIC2 :: u16 where "IO_PIC2 = 0xA0"
definition PIC_SLAVE :: nat where "PIC_SLAVE = 2"
definition IRQ_OFFSET :: nat where "IRQ_OFFSET = 32"

named_theorems port_consts \<open>the constants of the device drivers\<close>

lemmas [port_consts] = ICW1_ICW4_def ICW1_INIT_def ICW4_8086_def ICW4_AUTO_def IO_PIC1_def IO_PIC2_def
  PIC_SLAVE_def IRQ_OFFSET_def

definition pic_write :: "u16 \<Rightarrow> u16 \<Rightarrow> trace \<Rightarrow> trace" where
  "pic_write port val = outb port (ucast val)"

definition pic_master_write_cmd :: "u16 \<Rightarrow> trace \<Rightarrow> trace" where
  "pic_master_write_cmd cmd = pic_write IO_PIC1 cmd"

definition pic_master_write_data :: "u16 \<Rightarrow> trace \<Rightarrow> trace" where
  "pic_master_write_data data = pic_write (IO_PIC1 + 1) data"

definition pic_slave_write_cmd :: "u16 \<Rightarrow> trace \<Rightarrow> trace" where
  "pic_slave_write_cmd cmd = pic_write IO_PIC2 cmd"

definition pic_slave_write_data :: "u16 \<Rightarrow> trace \<Rightarrow> trace" where
  "pic_slave_write_data data = pic_write (IO_PIC2 + 1) data"

record pic_state =
  pic_on :: bool
  irq_mask :: u16
  pic_trace :: trace

definition pic_do :: "(trace \<Rightarrow> trace) \<Rightarrow> pic_state \<Rightarrow> pic_state" where
  "pic_do f s = s\<lparr>pic_trace := f (pic_trace s)\<rparr>"

definition pic_boot :: pic_state where
  "pic_boot = \<lparr>pic_on = False, irq_mask = 0xFFFF AND NOT (push_bit PIC_SLAVE 1), pic_trace = []\<rparr>"

definition pic_setmask :: "u16 \<Rightarrow> pic_state \<Rightarrow> pic_state" where
  "pic_setmask m s =
     (if \<not> pic_on s then s
      else pic_do (pic_slave_write_data (drop_bit 8 m)) (pic_do (pic_master_write_data m) s))"

text \<open>The shift \<open>1 << irq\<close> of an \<open>int\<close> is defined up to 30; the result is cut to the 16 bits of the mask.\<close>

definition pic_enable :: "nat \<Rightarrow> pic_state \<Rightarrow> pic_state option" where
  "pic_enable irq s =
     do {
       assert (irq < 31);
       let s = s\<lparr>irq_mask := irq_mask s AND NOT (push_bit irq 1)\<rparr>;
       Some (pic_setmask (irq_mask s) s)
     }"

definition pic_init :: "bool \<Rightarrow> pic_state \<Rightarrow> pic_state" where
  "pic_init enable s =
     (if \<not> enable then
        let s = s\<lparr>pic_on := False\<rparr>;
            s = pic_do (pic_master_write_data 0xFF) s
        in pic_do (pic_slave_write_data 0xFF) s
      else
        let s = s\<lparr>pic_on := True\<rparr>;
            s = pic_do (pic_master_write_data 0xFF) s;
            s = pic_do (pic_master_write_cmd (ICW1_INIT OR ICW1_ICW4)) s;
            s = pic_do (pic_master_write_data (of_nat IRQ_OFFSET)) s;
            s = pic_do (pic_master_write_data (push_bit PIC_SLAVE 1)) s;
            s = pic_do (pic_master_write_data (ICW4_8086 OR ICW4_AUTO)) s;
            s = pic_do (pic_slave_write_data 0xFF) s;
            s = pic_do (pic_slave_write_cmd (ICW1_INIT OR ICW1_ICW4)) s;
            s = pic_do (pic_slave_write_data (of_nat IRQ_OFFSET + 8)) s;
            s = pic_do (pic_slave_write_data (of_nat PIC_SLAVE)) s;
            s = pic_do (pic_slave_write_data (ICW4_8086 OR ICW4_AUTO)) s
        in if irq_mask s \<noteq> 0xFFFF then pic_setmask (irq_mask s) s else s)"

text \<open>
  The chip, from its data sheet: a command with bit 4 set starts an initialisation, in which the next words
  on the data port are the vector base, the cascade word and, when bit 0 of the command was set, the mode;
  any other word on the data port is the interrupt mask.
\<close>

datatype pic_phase = Ready | Icw2 bool | Icw3 bool | Icw4

record pic_chip =
  phase :: pic_phase
  vector_base :: u32
  cascade :: u32
  mode :: u32
  imr :: u32

definition pic_data :: "u32 \<Rightarrow> pic_chip \<Rightarrow> pic_chip" where
  "pic_data v c =
     (case phase c of
        Ready \<Rightarrow> c\<lparr>imr := v\<rparr>
      | Icw2 b \<Rightarrow> c\<lparr>vector_base := v, phase := Icw3 b\<rparr>
      | Icw3 b \<Rightarrow> c\<lparr>cascade := v, phase := (if b then Icw4 else Ready)\<rparr>
      | Icw4 \<Rightarrow> c\<lparr>mode := v, phase := Ready\<rparr>)"

definition pic_cmd :: "u32 \<Rightarrow> pic_chip \<Rightarrow> pic_chip" where
  "pic_cmd v c = (if bit v 4 then c\<lparr>imr := 0, phase := Icw2 (bit v 0)\<rparr> else c)"

fun pic_react :: "u16 \<Rightarrow> io_event \<Rightarrow> pic_chip \<Rightarrow> pic_chip" where
  "pic_react base (Wr (Port p) v) c =
     (if p = base then pic_cmd v c else if p = base + 1 then pic_data v c else c)"
| "pic_react base _ c = c"

definition pic_chip_after :: "u16 \<Rightarrow> trace \<Rightarrow> pic_chip \<Rightarrow> pic_chip" where
  "pic_chip_after base tr c = fold (pic_react base) tr c"

lemma pic_chip_after_simps [simp]:
  "pic_chip_after base [] c = c"
  "pic_chip_after base (tr @ es) c = fold (pic_react base) es (pic_chip_after base tr c)"
  by (simp_all add: pic_chip_after_def)

lemmas pic_defs = pic_setmask_def pic_do_def pic_write_def pic_master_write_cmd_def pic_master_write_data_def
  pic_slave_write_cmd_def pic_slave_write_data_def outb_def port_consts Let_def pic_data_def pic_cmd_def

lemma pic_enable_chips:
  assumes "pic_on s" "irq < 16"
    and "phase (pic_chip_after IO_PIC1 (pic_trace s) m) = Ready" "phase (pic_chip_after IO_PIC2 (pic_trace s) sl) = Ready"
  shows "\<exists>t. pic_enable irq s = Some t \<and> irq_mask t = irq_mask s AND NOT (push_bit irq 1) \<and>
    imr (pic_chip_after IO_PIC1 (pic_trace t) m) = ucast (ucast (irq_mask t) :: u8) \<and>
    imr (pic_chip_after IO_PIC2 (pic_trace t) sl) = ucast (ucast (drop_bit 8 (irq_mask t)) :: u8)"
  using assms by (simp add: pic_enable_def pic_defs)

lemma pic_init_chips:
  assumes "phase (pic_chip_after IO_PIC1 (pic_trace s) m) = Ready" "phase (pic_chip_after IO_PIC2 (pic_trace s) sl) = Ready"
    and "irq_mask s \<noteq> 0xFFFF"
  defines "t \<equiv> pic_init True s"
  shows "pic_chip_after IO_PIC1 (pic_trace t) m =
      \<lparr>phase = Ready, vector_base = 32, cascade = 4, mode = 3, imr = ucast (ucast (irq_mask s) :: u8)\<rparr>"
    "pic_chip_after IO_PIC2 (pic_trace t) sl =
      \<lparr>phase = Ready, vector_base = 40, cascade = 2, mode = 3, imr = ucast (ucast (drop_bit 8 (irq_mask s)) :: u8)\<rparr>"
  using assms(1-3) unfolding t_def by (simp_all add: pic_init_def pic_defs)

lemma pic_init_off:
  assumes "phase (pic_chip_after IO_PIC1 (pic_trace s) m) = Ready" "phase (pic_chip_after IO_PIC2 (pic_trace s) sl) = Ready"
  shows "imr (pic_chip_after IO_PIC1 (pic_trace (pic_init False s)) m) = 0xFF"
    "imr (pic_chip_after IO_PIC2 (pic_trace (pic_init False s)) sl) = 0xFF"
  using assms by (simp_all add: pic_init_def pic_defs)

end
