(* ===== verification/Timer.thy ===== *)
theory Timer
  imports Thread_Life Ports
begin

text \<open>
  Time keeping, timers and sleeping of \<^verbatim>\<open>kernel/timer.c\<close>.  The processor that runs an operation is an argument.  A timer
  is an object named by a number, on the heap or on the stack of a sleeping thread; its list node is named after
  it.  The programming of the interval timer is \<open>timer_pit\<close>, the rest of \<open>timer_init\<close> is with the interrupts.
\<close>

section \<open>Operations\<close>

record time =
  hours :: u32
  minutes :: u32
  seconds :: u32
  msecs :: u32
  ticks :: u32

record timer =
  expired :: time
  tm_thread :: nat

datatype tnode = Tl_head nat | Tm_node nat | Tnull

record timers =
  times :: "nat \<Rightarrow> time"
  tnodes :: "tnode list_node"
  timer_objs :: "nat \<Rightarrow> timer option"
  tsched :: sched

definition TICK_NUM :: u32 where "TICK_NUM = 100"

definition time_cmp :: "time \<Rightarrow> time \<Rightarrow> bool" where
  "time_cmp t1 t2 =
     (if hours t1 > hours t2 then True
      else if hours t1 < hours t2 then False
      else if minutes t1 > minutes t2 then True
      else if minutes t1 < minutes t2 then False
      else if seconds t1 * 1000 + msecs t1 \<ge> seconds t2 * 1000 + msecs t2 then True
      else False)"

definition time_add_ms :: "time \<Rightarrow> int \<Rightarrow> time" where
  "time_add_ms t ms =
     (let t = t\<lparr>msecs := msecs t + of_int ms\<rparr>;
          t = t\<lparr>seconds := seconds t + msecs t div 1000\<rparr>;
          t = t\<lparr>msecs := msecs t mod 1000\<rparr>;
          t = t\<lparr>minutes := minutes t + seconds t div 60\<rparr>;
          t = t\<lparr>seconds := seconds t mod 60\<rparr>;
          t = t\<lparr>hours := hours t + minutes t div 60\<rparr>
      in t\<lparr>minutes := minutes t mod 60\<rparr>)"

definition time_add :: "time \<Rightarrow> int \<Rightarrow> time option" where
  "time_add t secs = do { ms \<leftarrow> c_int (secs * 1000); Some (time_add_ms t ms) }"

text \<open>
  The loop over the timers ends at a null pointer only.  The head of the list is not part of a timer, so
  reading a timer around it is an access out of bounds.
\<close>

fun timer_of :: "timers \<Rightarrow> tnode \<Rightarrow> timer option" where
  "timer_of s (Tm_node i) = timer_objs s i"
| "timer_of s _ = None"

partial_function (option) expire_loop :: "nat \<Rightarrow> time \<Rightarrow> tnode \<Rightarrow> timers \<Rightarrow> timers option" where
  "expire_loop cpu t node s =
     (if node = Tnull then Some s
      else do {
        tm \<leftarrow> timer_of s node;
        s \<leftarrow> (if time_cmp (expired tm) t
              then do { w \<leftarrow> thread_wakeup cpu (tm_thread tm) (tsched s); Some (s\<lparr>tsched := w\<rparr>) }
              else Some s);
        expire_loop cpu t (nxt (tnodes s) node) s
      })"

declare expire_loop.simps [code]

definition timer_irq_handler :: "nat \<Rightarrow> timers \<Rightarrow> timers option" where
  "timer_irq_handler cpu s =
     do {
       assert (cpu < MAX_CPU);
       let t = times s cpu;
       let t = t\<lparr>ticks := ticks t + 1\<rparr>;
       let t = t\<lparr>msecs := (ticks t mod 100) * 10\<rparr>;
       t \<leftarrow> (if ticks t mod TICK_NUM = 0 then time_add t 1 else Some t);
       let s = s\<lparr>times := (times s)(cpu := t)\<rparr>;
       if ticks t = 0 then
         do {
           s \<leftarrow> expire_loop cpu t (list_next (Tl_head cpu) (tnodes s)) s;
           w \<leftarrow> schedule cpu (tsched s);
           Some (s\<lparr>tsched := w\<rparr>)
         }
       else Some s
     }"

definition IO_TIMER :: u16 where "IO_TIMER = 0x40"
definition IO_TIMER_CMD :: u16 where "IO_TIMER_CMD = 0x43"
definition TIMER_CHANNEL0 :: u8 where "TIMER_CHANNEL0 = 0x00"
definition TIMER_MODE_RATEGEN :: u8 where "TIMER_MODE_RATEGEN = push_bit 2 1"
definition TIMER_FREQ :: u32 where "TIMER_FREQ = 1193182"
definition TIMER_BIT_16 :: u8 where "TIMER_BIT_16 = 0x30"
definition TIMER_OFFSET :: u32 where "TIMER_OFFSET = push_bit 8 1"

definition TIMER_DIV :: "u32 \<Rightarrow> u32" where
  "TIMER_DIV x = (TIMER_FREQ + x div 2) div x"

lemmas timer_consts = TICK_NUM_def IO_TIMER_def IO_TIMER_CMD_def TIMER_CHANNEL0_def TIMER_MODE_RATEGEN_def
  TIMER_FREQ_def TIMER_BIT_16_def TIMER_OFFSET_def

definition timer_pit :: "trace \<Rightarrow> trace" where
  "timer_pit tr =
     (let tr = outb IO_TIMER_CMD (or (or TIMER_CHANNEL0 TIMER_MODE_RATEGEN) TIMER_BIT_16) tr;
          tr = outb IO_TIMER (ucast (TIMER_DIV TICK_NUM mod TIMER_OFFSET)) tr
      in outb IO_TIMER (ucast (TIMER_DIV TICK_NUM div TIMER_OFFSET)) tr)"

definition timer_list_init :: "nat \<Rightarrow> timers \<Rightarrow> timers option" where
  "timer_list_init cpu s = do { assert (cpu < MAX_CPU); Some (s\<lparr>tnodes := list_init (Tl_head cpu) (tnodes s)\<rparr>) }"

definition time_now :: "nat \<Rightarrow> timers \<Rightarrow> time" where
  "time_now cpu s = times s cpu"

text \<open>The sum is computed in \<open>uint32_t\<close> and then extended.\<close>

definition time_ms :: "nat \<Rightarrow> timers \<Rightarrow> 64 word" where
  "time_ms cpu s =
     (let t = times s cpu
      in ucast (((hours t * 60 + minutes t) * 60 + seconds t) * 1000 + msecs t))"

definition timer_create :: "nat \<Rightarrow> time \<Rightarrow> nat option \<Rightarrow> timers \<Rightarrow> nat option \<times> timers" where
  "timer_create thread time_expired new s =
     (case new of None \<Rightarrow> (None, s)
      | Some i \<Rightarrow>
          (Some i, s\<lparr>timer_objs := (timer_objs s)(i \<mapsto> \<lparr>expired = time_expired, tm_thread = thread\<rparr>),
                     tnodes := list_init (Tm_node i) (tnodes s)\<rparr>))"

fun tnode_live :: "timers \<Rightarrow> tnode \<Rightarrow> bool" where
  "tnode_live s (Tl_head c) \<longleftrightarrow> c < MAX_CPU"
| "tnode_live s (Tm_node i) \<longleftrightarrow> timer_objs s i \<noteq> None"
| "tnode_live s Tnull \<longleftrightarrow> False"

text \<open>
  \<open>msleep\<close> in two parts: up to the switch to another thread, and from the moment the thread runs again.  \<open>i\<close> is
  the timer on the stack of the thread, whose node has never been initialised: its links are what was on the
  stack.  The node of the timer is passed as the position and the head of the list as the new node.
\<close>

definition msleep_enter :: "nat \<Rightarrow> nat \<Rightarrow> int \<Rightarrow> timers \<Rightarrow> timers option" where
  "msleep_enter cpu i ms s =
     do {
       assert (cpu < MAX_CPU);
       let e = time_add_ms (time_now cpu s) ms;
       th \<leftarrow> current_threads (tsched s) cpu;
       let s = s\<lparr>timer_objs := (timer_objs s)(i \<mapsto> \<lparr>expired = e, tm_thread = th\<rparr>)\<rparr>;
       w \<leftarrow> on_thread th (th_state_update (\<lambda>_. THREAD_SLEEPING)) (tsched s);
       assert (tnode_live s (prev (tnodes s) (Tm_node i)));
       let s = s\<lparr>tnodes := list_insert_before (Tm_node i) (Tl_head cpu) (tnodes s)\<rparr>;
       w \<leftarrow> schedule cpu w;
       Some (s\<lparr>tsched := w\<rparr>)
     }"

definition msleep_resume :: "nat \<Rightarrow> timers \<Rightarrow> timers option" where
  "msleep_resume i s =
     do {
       assert (tnode_live s (prev (tnodes s) (Tm_node i)) \<and> tnode_live s (nxt (tnodes s) (Tm_node i)));
       Some (s\<lparr>tnodes := list_remove (Tm_node i) (tnodes s), timer_objs := (timer_objs s)(i := None)\<rparr>)
     }"

definition sleep_enter :: "nat \<Rightarrow> nat \<Rightarrow> int \<Rightarrow> timers \<Rightarrow> timers option" where
  "sleep_enter cpu i secs s = do { ms \<leftarrow> c_int (secs * 1000); msleep_enter cpu i ms s }"

section \<open>The clock\<close>

lemma of_nat_div_u32: "a < 2 ^ 32 \<Longrightarrow> b < 2 ^ 32 \<Longrightarrow> (of_nat a :: u32) div of_nat b = of_nat (a div b)"
  by (rule word_unat_eq_iff [THEN iffD2]) (simp add: unat_div unat_of_nat order_le_less_trans [OF div_le_dividend])

lemma of_nat_mod_u32: "a < 2 ^ 32 \<Longrightarrow> b < 2 ^ 32 \<Longrightarrow> (of_nat a :: u32) mod of_nat b = of_nat (a mod b)"
  by (rule word_unat_eq_iff [THEN iffD2]) (simp add: unat_mod unat_of_nat order_le_less_trans [OF mod_less_eq_dividend])

lemma of_nat_eq_0_iff_u32: "a < 2 ^ 32 \<Longrightarrow> (of_nat a :: u32) = 0 \<longleftrightarrow> a = 0"
  by (auto simp: word_unat_eq_iff unat_of_nat)

definition time_of :: "nat \<Rightarrow> nat \<Rightarrow> nat \<Rightarrow> nat \<Rightarrow> u32 \<Rightarrow> time" where
  "time_of h m s ms tk = \<lparr>hours = of_nat h, minutes = of_nat m, seconds = of_nat s, msecs = of_nat ms, ticks = tk\<rparr>"

text \<open>The carries of \<open>time_add_ms\<close> are those of the numbers as long as the milliseconds do not overflow.\<close>

lemma time_add_ms_of:
  assumes "0 \<le> d" "ms + nat d < 2 ^ 32" "s < 60" "m < 60"
  shows "time_add_ms (time_of h m s ms tk) d =
    time_of (h + (m + (s + (ms + nat d) div 1000) div 60) div 60) ((m + (s + (ms + nat d) div 1000) div 60) mod 60)
      ((s + (ms + nat d) div 1000) mod 60) ((ms + nat d) mod 1000) tk"
proof -
  define x where "x = ms + nat d"
  define y where "y = s + x div 1000"
  define z where "z = m + y div 60"
  have b: "x < 2 ^ 32" "y < 2 ^ 32" "z < 2 ^ 32" using assms unfolding x_def y_def z_def by simp_all
  have n: "(1000 :: u32) = of_nat 1000" "(60 :: u32) = of_nat 60" by simp_all
  have d: "(of_int d :: u32) = of_nat (nat d)" using assms(1) by simp
  have w: "(of_nat ms :: u32) + of_nat (nat d) = of_nat x" "(of_nat s :: u32) + of_nat (x div 1000) = of_nat y"
    "(of_nat m :: u32) + of_nat (y div 60) = of_nat z" by (simp_all only: x_def y_def z_def of_nat_add)
  have dv: "(of_nat x :: u32) div of_nat 1000 = of_nat (x div 1000)" "(of_nat x :: u32) mod of_nat 1000 = of_nat (x mod 1000)"
    "(of_nat y :: u32) div of_nat 60 = of_nat (y div 60)" "(of_nat y :: u32) mod of_nat 60 = of_nat (y mod 60)"
    "(of_nat z :: u32) div of_nat 60 = of_nat (z div 60)" "(of_nat z :: u32) mod of_nat 60 = of_nat (z mod 60)"
    by (rule of_nat_div_u32 of_nat_mod_u32; use b in simp)+
  show ?thesis
    unfolding x_def [symmetric] unfolding y_def [symmetric] unfolding z_def [symmetric]
    unfolding time_add_ms_def Let_def time_of_def d n
    by (simp only: time.simps time.update_convs dv w of_nat_add)
qed

text \<open>The clock after \<open>n\<close> ticks.\<close>

definition clock :: "nat \<Rightarrow> time" where
  "clock n = time_of (n div 360000) (n div 6000 mod 60) (n div 100 mod 60) (n mod 100 * 10) (of_nat n)"

fun timer_ticks :: "nat \<Rightarrow> nat \<Rightarrow> timers \<Rightarrow> timers option" where
  "timer_ticks cpu 0 s = Some s"
| "timer_ticks cpu (Suc n) s = do { s \<leftarrow> timer_ticks cpu n s; timer_irq_handler cpu s }"

lemma clock_carry:
  assumes "(n + 1) mod 100 = 0"
  shows "clock (n + 1) = time_of (n div 360000 + (n div 6000 mod 60 + (n div 100 mod 60 + 1) div 60) div 60)
    ((n div 6000 mod 60 + (n div 100 mod 60 + 1) div 60) mod 60) ((n div 100 mod 60 + 1) mod 60) 0 (of_nat (n + 1))"
proof -
  define q where "q = n div 100"
  have "(n + 1) div 100 = q + 1" using assms unfolding q_def by (simp add: div_Suc)
  then have n: "n + 1 = 100 * (q + 1)" using assms mult_div_mod_eq [of 100 "n + 1"] by simp
  have d: "n div 6000 = q div 60" "n div 360000 = q div 60 div 60" unfolding q_def by (simp_all add: div_mult2_eq [symmetric])
  have e: "(n + 1) div 100 = q + 1" "(n + 1) div 6000 = (q + 1) div 60" "(n + 1) div 360000 = (q + 1) div 60 div 60"
    unfolding n by (simp_all add: div_mult2_eq [symmetric])
  define r where "r = q div 60"
  have g: "(r + k) div 60 = r div 60 + (r mod 60 + k) div 60" for r k :: nat
  proof -
    have "r + k = (r mod 60 + k) + r div 60 * 60" by simp
    then show ?thesis using div_mult_self1 [of 60 "r mod 60 + k" "r div 60"] by simp
  qed
  have f: "(q + 1) div 60 = r + (q mod 60 + 1) div 60" unfolding r_def by (rule g)
  have h: "(r + k) mod 60 = (r mod 60 + k) mod 60" for r k :: nat by (simp add: mod_simps)
  show ?thesis unfolding clock_def e d q_def [symmetric] f r_def [symmetric] g [of r] h [of r] h [of q] using assms by simp
qed

lemma clock_no_carry:
  assumes "(n + 1) mod 100 \<noteq> 0"
  shows "clock (n + 1) = time_of (n div 360000) (n div 6000 mod 60) (n div 100 mod 60) ((n + 1) mod 100 * 10) (of_nat (n + 1))"
proof -
  have "(n + 1) div 100 = n div 100" using assms by (simp add: div_Suc)
  moreover from this have "(n + 1) div (100 * 60) = n div (100 * 60)" "(n + 1) div (100 * 3600) = n div (100 * 3600)"
    unfolding div_mult2_eq by simp_all
  then have "(n + 1) div 6000 = n div 6000" "(n + 1) div 360000 = n div 360000" by simp_all
  ultimately show ?thesis unfolding clock_def by simp
qed

lemma timer_tick_clock:
  assumes "cpu < MAX_CPU" "times s cpu = clock n" "n + 1 < 2 ^ 32"
  shows "timer_irq_handler cpu s = Some (s\<lparr>times := (times s)(cpu := clock (n + 1))\<rparr>)"
proof -
  have t: "(of_nat n :: u32) + 1 = of_nat (n + 1)" by simp
  have m: "(of_nat (n + 1) :: u32) mod 100 = of_nat ((n + 1) mod 100)"
    using of_nat_mod_u32 [of "n + 1" 100] assms(3) by simp
  have z: "(of_nat ((n + 1) mod 100) :: u32) = 0 \<longleftrightarrow> (n + 1) mod 100 = 0"
    using of_nat_eq_0_iff_u32 [of "(n + 1) mod 100"] by simp
  have nz: "(of_nat (n + 1) :: u32) \<noteq> 0" using of_nat_eq_0_iff_u32 [of "n + 1"] assms(3) by simp
  let ?t = "time_of (n div 360000) (n div 6000 mod 60) (n div 100 mod 60) ((n + 1) mod 100 * 10) (of_nat (n + 1))"
  have u: "(clock n)\<lparr>ticks := ticks (clock n) + 1,
      msecs := ticks ((clock n)\<lparr>ticks := ticks (clock n) + 1\<rparr>) mod 100 * 10\<rparr> = ?t"
    unfolding clock_def time_of_def time.simps time.update_convs t m by simp
  have tk: "ticks ?t = of_nat (n + 1)" by (simp add: time_of_def)
  have "(if (of_nat (n + 1) :: u32) mod TICK_NUM = 0 then time_add ?t 1 else Some ?t) = Some (clock (n + 1))"
  proof (cases "(n + 1) mod 100 = 0")
    case True
    then have "time_add ?t 1 = Some (time_add_ms (time_of (n div 360000) (n div 6000 mod 60) (n div 100 mod 60) 0 (of_nat (n + 1))) 1000)"
      by (simp add: time_add_def c_int_def)
    also have "\<dots> = Some (clock (n + 1))"
      unfolding clock_carry [OF True] by (subst time_add_ms_of) simp_all
    finally show ?thesis unfolding TICK_NUM_def m z using if_P [OF True] by (rule trans [rotated])
  next
    case False
    then show ?thesis unfolding TICK_NUM_def m z clock_no_carry [OF False] by (rule if_not_P)
  qed
  moreover have "ticks (clock (n + 1)) \<noteq> 0" using nz by (simp add: clock_def time_of_def del: of_nat_Suc of_nat_add)
  ultimately show ?thesis
    unfolding timer_irq_handler_def Let_def assms(2) u tk using assms(1) by (simp del: of_nat_add of_nat_Suc fun_upd_apply)
qed

lemma timer_ticks_clock:
  assumes "cpu < MAX_CPU" "times s cpu = clock 0" "n < 2 ^ 32"
  shows "timer_ticks cpu n s = Some (s\<lparr>times := (times s)(cpu := clock n)\<rparr>)"
  using assms(3)
proof (induction n)
  case 0
  then show ?case by (simp add: assms(2) [symmetric])
next
  case (Suc n)
  then show ?case using timer_tick_clock [OF assms(1), of "s\<lparr>times := (times s)(cpu := clock n)\<rparr>" n, simplified]
    by (simp del: fun_upd_apply)
qed

lemma clock_total:
  fixes n :: nat
  shows "((n div 360000 * 60 + n div 6000 mod 60) * 60 + n div 100 mod 60) * 1000 + n mod 100 * 10 = 10 * n"
proof -
  define q where "q = n div 100"
  have d: "n div 6000 = q div 60" "n div 360000 = q div 60 div 60" unfolding q_def by (simp_all add: div_mult2_eq [symmetric])
  have "q div 60 div 60 * 60 + q div 60 mod 60 = q div 60" by simp
  moreover have "q div 60 * 60 + q mod 60 = q" by simp
  moreover have "q * 1000 + n mod 100 * 10 = 10 * n" using div_mult_mod_eq [of n 100] unfolding q_def by linarith
  ultimately show ?thesis unfolding d q_def [symmetric] by simp
qed

lemma time_ms_clock: "times s cpu = clock n \<Longrightarrow> unat (time_ms cpu s) = 10 * n mod 2 ^ 32"
proof -
  assume t: "times s cpu = clock n"
  let ?c = "((n div 360000 * 60 + n div 6000 mod 60) * 60 + n div 100 mod 60) * 1000 + n mod 100 * 10"
  have "((hours (clock n) * 60 + minutes (clock n)) * 60 + seconds (clock n)) * 1000 + msecs (clock n) = (of_nat ?c :: u32)"
    by (simp add: clock_def time_of_def)
  then have "unat (time_ms cpu s) = unat (ucast (of_nat (10 * n) :: u32) :: 64 word)"
    unfolding time_ms_def Let_def t clock_total by simp
  also have "\<dots> = 10 * n mod 2 ^ 32"
    by (simp add: unsigned_ucast_eq unat_of_nat take_bit_nat_eq_self del: of_nat_mult)
  finally show ?thesis .
qed

text \<open>
  C34: from a zeroed clock, \<open>n < 2\<^sup>3\<^sup>2\<close> timer interrupts on a processor all return, leave the other clocks, the timers and
  the scheduler unchanged - no thread is woken or preempted before the tick counter wraps - and set the clock to
  \<open>n\<close> hundredths of a second, with minutes, seconds and milliseconds in range.  \<^const>\<open>time_ms\<close> returns the
  milliseconds modulo \<open>2\<^sup>3\<^sup>2\<close>, although its result type has 64 bits.
\<close>

theorem timer_ticks_spec:
  assumes "cpu < MAX_CPU" "times s cpu = \<lparr>hours = 0, minutes = 0, seconds = 0, msecs = 0, ticks = 0\<rparr>" "n < 2 ^ 32"
  shows "\<exists>t. timer_ticks cpu n s = Some (s\<lparr>times := (times s)(cpu := t)\<rparr>) \<and>
    ((unat (hours t) * 60 + unat (minutes t)) * 60 + unat (seconds t)) * 1000 + unat (msecs t) = 10 * n \<and>
    unat (minutes t) < 60 \<and> unat (seconds t) < 60 \<and> unat (msecs t) < 1000 \<and>
    unat (time_ms cpu (s\<lparr>times := (times s)(cpu := t)\<rparr>)) = 10 * n mod 2 ^ 32"
proof (intro exI [of _ "clock n"] conjI)
  have z: "times s cpu = clock 0" using assms(2) by (simp add: clock_def time_of_def)
  show "timer_ticks cpu n s = Some (s\<lparr>times := (times s)(cpu := clock n)\<rparr>)"
    by (rule timer_ticks_clock [OF assms(1) z assms(3)])
  have h: "n div 360000 < 2 ^ 32" using assms(3) by (rule order_le_less_trans [OF div_le_dividend])
  have u: "unat (hours (clock n)) = n div 360000" "unat (minutes (clock n)) = n div 6000 mod 60"
    "unat (seconds (clock n)) = n div 100 mod 60" "unat (msecs (clock n)) = n mod 100 * 10"
    using h by (simp_all add: clock_def time_of_def unat_of_nat del: of_nat_mult)
  show "((unat (hours (clock n)) * 60 + unat (minutes (clock n))) * 60 + unat (seconds (clock n))) * 1000 + unat (msecs (clock n)) = 10 * n"
    unfolding u by (rule clock_total)
  show "unat (minutes (clock n)) < 60" "unat (seconds (clock n)) < 60" "unat (msecs (clock n)) < 1000"
    unfolding u by simp_all
  show "unat (time_ms cpu (s\<lparr>times := (times s)(cpu := clock n)\<rparr>)) = 10 * n mod 2 ^ 32"
    by (rule time_ms_clock) simp
qed

definition no_timers :: timers where
  "no_timers = \<lparr>times = (\<lambda>_. \<lparr>hours = 0, minutes = 0, seconds = 0, msecs = 0, ticks = 0\<rparr>),
     tnodes = \<lparr>prev = (\<lambda>_. Tnull), nxt = (\<lambda>_. Tnull)\<rparr>, timer_objs = Map.empty,
     tsched = sched_bss fs_bss\<rparr>"

theorem timer_ticks_spec_witness:
  "\<exists>t. timer_ticks 0 429496730 no_timers = Some (no_timers\<lparr>times := (times no_timers)(0 := t)\<rparr>) \<and>
    unat (time_ms 0 (no_timers\<lparr>times := (times no_timers)(0 := t)\<rparr>)) = 4"
  using timer_ticks_spec [of 0 no_timers 429496730] by (fastforce simp: MAX_CPU_def no_timers_def simp del: timer_ticks.simps)

section \<open>Sleeping\<close>

text \<open>
  When the first sleeping thread goes to sleep, the list has its timer, but the timer's own forward link is
  still what was on the stack, and a second sleeping thread replaces it in the list.
\<close>

lemma msleep_links:
  assumes "msleep_enter cpu i ms s = Some s'"
  shows "nxt (tnodes s') (Tl_head cpu) = Tm_node i" "prev (tnodes s') (Tm_node i) = Tl_head cpu"
  using assms by (auto simp: msleep_enter_def bind_eq_Some_conv Let_def list_insert_before_def set_next_def set_prev_def)

end
