(* ===== verification/Console.thy ===== *)
theory Console
  imports Ports Locks Kstrings Queue_Model
begin

text \<open>
  The serial port of \<^verbatim>\<open>kernel/serial.c\<close> and the console functions of \<^verbatim>\<open>kernel/stdio.c\<close> on top of it.  A loop
  that waits for the port is a loop over the answers of the device, so it may not return; the theorems
  about output assume a device that becomes ready after finitely many polls.

  A C string argument is the list of the bytes from its first one, \<open>None\<close> the null pointer.
\<close>

section \<open>The serial port\<close>

definition COM1 :: u16 where "COM1 = 0x3F8"
definition TX :: u16 where "TX = 0"
definition IER :: u16 where "IER = 1"
definition FCR :: u16 where "FCR = 2"
definition LCR :: u16 where "LCR = 3"
definition MCR :: u16 where "MCR = 4"
definition LCR_DLL :: u16 where "LCR_DLL = 0"
definition LCR_DLH :: u16 where "LCR_DLH = 1"
definition RX :: u16 where "RX = 0"
definition IIR :: u16 where "IIR = 2"
definition LSR :: u16 where "LSR = 5"
definition LSR_RXRDY :: u8 where "LSR_RXRDY = 0x01"
definition LSR_TXRDY :: u8 where "LSR_TXRDY = 0x20"

lemmas [port_consts] = COM1_def TX_def IER_def FCR_def LCR_def MCR_def LCR_DLL_def LCR_DLH_def RX_def
  IIR_def LSR_def LSR_RXRDY_def LSR_TXRDY_def

definition serial_out :: "u16 \<Rightarrow> u8 \<Rightarrow> trace \<Rightarrow> trace" where
  "serial_out offset val = outb (COM1 + offset) val"

definition serial_in :: "device \<Rightarrow> u16 \<Rightarrow> trace \<Rightarrow> u8 \<times> trace" where
  "serial_in dev offset = inb dev (COM1 + offset)"

text \<open>The result is the value of \<open>serial_exists\<close>.\<close>

definition serial_init :: "device \<Rightarrow> trace \<Rightarrow> bool \<times> trace" where
  "serial_init dev tr =
     (let tr = serial_out FCR 0 tr;
          tr = serial_out LCR 0x80 tr;
          tr = serial_out LCR_DLL 0x03 tr;
          tr = serial_out LCR_DLH 0x00 tr;
          tr = serial_out LCR (0x03 AND NOT 0x80) tr;
          tr = serial_out MCR 0x00 tr;
          tr = serial_out IER 0x01 tr;
          (v, tr) = serial_in dev LSR tr;
          (_, tr) = serial_in dev IIR tr;
          (_, tr) = serial_in dev RX tr
      in (v \<noteq> 0xFF, tr))"

definition serial_received :: "device \<Rightarrow> trace \<Rightarrow> u8 \<times> trace" where
  "serial_received dev tr = (let (v, tr) = serial_in dev LSR tr in (v AND LSR_RXRDY, tr))"

definition is_transmit_empty :: "device \<Rightarrow> trace \<Rightarrow> u8 \<times> trace" where
  "is_transmit_empty dev tr = (let (v, tr) = serial_in dev LSR tr in (v AND LSR_TXRDY, tr))"

definition delay :: "device \<Rightarrow> trace \<Rightarrow> trace" where
  "delay dev tr = snd (inb dev 0x84 (snd (inb dev 0x84 (snd (inb dev 0x84 (snd (inb dev 0x84 tr)))))))"

partial_function (option) serial_wait :: "device \<Rightarrow> trace \<Rightarrow> trace option" where
  "serial_wait dev tr =
     (if fst (is_transmit_empty dev tr) = 0
      then serial_wait dev (delay dev (snd (is_transmit_empty dev tr)))
      else Some (snd (is_transmit_empty dev tr)))"

declare serial_wait.simps [code]

definition serial_putc :: "device \<Rightarrow> u32 \<Rightarrow> trace \<Rightarrow> trace option" where
  "serial_putc dev c tr = do { tr \<leftarrow> serial_wait dev tr; Some (serial_out TX (ucast c) tr) }"

definition serial_getc :: "device \<Rightarrow> trace \<Rightarrow> u8 \<times> trace" where
  "serial_getc dev tr = (let (c, tr) = serial_in dev RX tr in if c = 13 then (10, tr) else (c, tr))"

section \<open>Console output\<close>

definition STDIO_MAX_ARGS :: nat where "STDIO_MAX_ARGS = 128"

text \<open>An argument of \<open>print_args\<close> is a string pointer; the pointer \<open>line_end\<close> marks the last one.\<close>

datatype print_arg = Line_end | Arg "bytes option"

record console =
  con_trace :: trace
  pr_lock :: spinlock_t
  stdio_que :: "queue option"
  out_index :: nat
  out_buf :: "nat \<Rightarrow> bytes"

text \<open>A \<open>char\<close> is signed: it is extended to the \<open>int\<close> argument of \<open>putchar\<close>.\<close>

definition putchar :: "device \<Rightarrow> u32 \<Rightarrow> trace \<Rightarrow> trace option" where
  "putchar dev ch tr = serial_putc dev ch tr"

fun puts_loop :: "device \<Rightarrow> bytes \<Rightarrow> int \<Rightarrow> trace \<Rightarrow> (int \<times> trace) option" where
  "puts_loop dev [] r tr = None"
| "puts_loop dev (c # str) r tr =
     (if c = 0 then Some (r, tr)
      else do {
        tr \<leftarrow> putchar dev (scast c) tr;
        r \<leftarrow> c_int (r + 1);
        puts_loop dev str r tr
      })"

definition puts :: "device \<Rightarrow> bytes option \<Rightarrow> trace \<Rightarrow> (int \<times> trace) option" where
  "puts dev str tr = (case str of None \<Rightarrow> Some (0, tr) | Some str \<Rightarrow> puts_loop dev str 0 tr)"

definition arg_string :: "print_arg \<Rightarrow> bytes option" where
  "arg_string a = (case a of Line_end \<Rightarrow> Some [0] | Arg s \<Rightarrow> s)"

text \<open>Running out of arguments before \<open>line_end\<close> was seen reads past the argument list.\<close>

fun print_loop :: "device \<Rightarrow> print_arg list \<Rightarrow> print_arg \<Rightarrow> nat \<Rightarrow> int \<Rightarrow> trace \<Rightarrow> (int \<times> trace) option" where
  "print_loop dev args p n ret tr =
     (if p \<noteq> Line_end \<and> n \<le> STDIO_MAX_ARGS then
        (case args of [] \<Rightarrow> None
         | p # args \<Rightarrow>
             do {
               (r, tr) \<leftarrow> puts dev (arg_string p) tr;
               ret \<leftarrow> c_int (ret + r);
               print_loop dev args p (n + 1) ret tr
             })
      else Some (ret, tr))"

declare print_loop.simps [simp del]

definition print_args :: "device \<Rightarrow> print_arg list \<Rightarrow> console \<Rightarrow> (int \<times> console) option" where
  "print_args dev args s =
     do {
       l \<leftarrow> spin_lock (pr_lock s);
       (ret, tr) \<leftarrow> print_loop dev args (Arg None) 0 0 (con_trace s);
       Some (ret, s\<lparr>con_trace := tr, pr_lock := spin_unlock l\<rparr>)
     }"

text \<open>\<open>get_out_string\<close> hands out the 128 static buffers in turn; \<open>ch\<close> puts one character in the next one.\<close>

definition get_out_string :: "console \<Rightarrow> kstring \<times> console" where
  "get_out_string s =
     (let i = (out_index s + 1) mod STDIO_MAX_ARGS
      in (ksinit (out_buf s i) 128, s\<lparr>out_index := i\<rparr>))"

definition ch :: "alloc \<Rightarrow> u8 \<Rightarrow> console \<Rightarrow> (bytes option \<times> console) option" where
  "ch kmalloc c s =
     do {
       let (ks, s) = get_out_string s;
       (_, ks) \<leftarrow> ksappend_char kmalloc ks c;
       str \<leftarrow> ks_str ks;
       Some (Some str, s\<lparr>out_buf := (out_buf s)(out_index s := str)\<rparr>)
     }"

section \<open>Console input\<close>

text \<open>
  While the processor is halted the interrupt handlers run; what they do to the console, in particular
  adding to \<open>stdio_que\<close>, is the argument \<open>halt\<close>.
\<close>

definition dequeue_char :: "console \<Rightarrow> (u8 \<times> console) option" where
  "dequeue_char s =
     do {
       q \<leftarrow> stdio_que s;
       (_, ele, q) \<leftarrow> dequeue q;
       c \<leftarrow> get_byte ele 0;
       Some (c, s\<lparr>stdio_que := Some q\<rparr>)
     }"

partial_function (option) readchar :: "device \<Rightarrow> (console \<Rightarrow> console) \<Rightarrow> console \<Rightarrow> (u8 \<times> console) option" where
  "readchar dev halt s =
     (if fst (serial_received dev (con_trace s)) \<noteq> 0
      then
        (let (c, tr) = serial_getc dev (snd (serial_received dev (con_trace s))) in Some (c, s\<lparr>con_trace := tr\<rparr>))
      else
        do {
          let s = s\<lparr>con_trace := snd (serial_received dev (con_trace s))\<rparr>;
          q \<leftarrow> stdio_que s;
          if \<not> queue_empty q then dequeue_char s
          else readchar dev halt (halt s)
        })"

declare readchar.simps [code]

definition prompt :: bytes where
  "prompt = [0x7e, 0x2f, 0x6f, 0x68, 0x2d, 0x6d, 0x79, 0x2d, 0x6f, 0x73, 0x20, 0x3c, 0x6d, 0x61, 0x69, 0x6e,
     0x2a, 0x3e, 0x20, 0x23, 0x20, 0]"

partial_function (option) readline_loop ::
  "device \<Rightarrow> (console \<Rightarrow> console) \<Rightarrow> alloc \<Rightarrow> kstring \<Rightarrow> console \<Rightarrow> (kstring \<times> console) option" where
  "readline_loop dev halt kmalloc ks s =
     do {
       (c, s) \<leftarrow> readchar dev halt s;
       (str, s) \<leftarrow> ch kmalloc c s;
       (_, s) \<leftarrow> print_args dev [Arg str, Line_end] s;
       if c = 10 then Some (ks, s)
       else do {
         (_, ks) \<leftarrow> ksappend_char kmalloc ks c;
         readline_loop dev halt kmalloc ks s
       }
     }"

declare readline_loop.simps [code]

definition readline ::
  "device \<Rightarrow> (console \<Rightarrow> console) \<Rightarrow> alloc \<Rightarrow> kstring \<Rightarrow> console \<Rightarrow> (kstring \<times> console) option" where
  "readline dev halt kmalloc ks s =
     do {
       let ks = ks\<lparr>ks_length := 0\<rparr>;
       (_, s) \<leftarrow> print_args dev [Arg (Some prompt), Line_end] s;
       readline_loop dev halt kmalloc ks s
     }"

definition stdio_init :: "device \<Rightarrow> alloc \<Rightarrow> console \<Rightarrow> console" where
  "stdio_init dev kmalloc s =
     s\<lparr>stdio_que := queue_create kmalloc 1, con_trace := snd (serial_init dev (con_trace s)),
       pr_lock := spinlock_init (pr_lock s)\<rparr>"

section \<open>Output arrives\<close>

text \<open>One round of the waiting loop, and a port that is never busy for ever.\<close>

definition poll :: "device \<Rightarrow> trace \<Rightarrow> trace" where
  "poll dev tr = delay dev (snd (is_transmit_empty dev tr))"

definition transmits :: "device \<Rightarrow> bool" where
  "transmits dev \<longleftrightarrow> (\<forall>tr. \<exists>n. fst (is_transmit_empty dev ((poll dev ^^ n) tr)) \<noteq> 0)"

lemma writes_of_poll [simp]:
  "writes_of (snd (is_transmit_empty dev tr)) = writes_of tr" "writes_of (delay dev tr) = writes_of tr"
  by (simp_all add: is_transmit_empty_def serial_in_def delay_def split_beta Let_def)

lemma serial_wait_returns:
  assumes "fst (is_transmit_empty dev ((poll dev ^^ n) tr)) \<noteq> 0"
  shows "\<exists>tr'. serial_wait dev tr = Some tr' \<and> writes_of tr' = writes_of tr"
  using assms
proof (induction n arbitrary: tr)
  case 0
  then show ?case by (subst serial_wait.simps) simp
next
  case (Suc n)
  show ?case
  proof (cases "fst (is_transmit_empty dev tr) = 0")
    case True
    obtain tr' where "serial_wait dev (poll dev tr) = Some tr'" "writes_of tr' = writes_of (poll dev tr)"
      using Suc.IH [of "poll dev tr"] Suc.prems by (auto simp: funpow_swap1)
    then show ?thesis using True by (subst serial_wait.simps) (simp add: poll_def)
  next
    case False
    then show ?thesis by (subst serial_wait.simps) simp
  qed
qed

lemma putchar_writes:
  assumes "transmits dev"
  shows "\<exists>tr'. putchar dev c tr = Some tr' \<and> writes_of tr' = writes_of tr @ [Wr (Port COM1) (ucast (ucast c :: u8))]"
proof -
  obtain n where "fst (is_transmit_empty dev ((poll dev ^^ n) tr)) \<noteq> 0" using assms by (auto simp: transmits_def)
  from serial_wait_returns [OF this] show ?thesis
    by (auto simp: putchar_def serial_putc_def serial_out_def TX_def)
qed

definition sent :: "bytes \<Rightarrow> trace" where
  "sent cs = map (\<lambda>c. Wr (Port COM1) (ucast c)) cs"

lemma sent_append [simp]: "sent (a @ b) = sent a @ sent b" "sent [] = []"
  by (simp_all add: sent_def)

definition c_text :: "bytes \<Rightarrow> bytes" where
  "c_text str = takeWhile (\<lambda>c. c \<noteq> 0) str"

lemma ucast_scast_u8: "ucast (scast (c :: u8) :: u32) = c"
  by (rule bit_word_eqI) (auto simp: bit_simps)

lemma puts_loop_writes:
  assumes "transmits dev" "0 \<in> set str" "0 \<le> r" "r + int (length (c_text str)) < 2 ^ 31"
  shows "\<exists>tr'. puts_loop dev str r tr = Some (r + int (length (c_text str)), tr') \<and>
    writes_of tr' = writes_of tr @ sent (c_text str)"
  using assms(2-)
proof (induction str arbitrary: r tr)
  case (Cons c str)
  show ?case
  proof (cases "c = 0")
    case True
    then show ?thesis by (simp add: c_text_def)
  next
    case False
    obtain u where u: "putchar dev (scast c) tr = Some u" "writes_of u = writes_of tr @ sent [c]"
      using putchar_writes [OF assms(1), of "scast c" tr] by (auto simp: sent_def ucast_scast_u8)
    have "\<exists>tr'. puts_loop dev str (r + 1) u = Some (r + 1 + int (length (c_text str)), tr') \<and>
        writes_of tr' = writes_of u @ sent (c_text str)"
      by (rule Cons.IH) (use Cons.prems False in \<open>auto simp: c_text_def\<close>)
    moreover have "c_int (r + 1) = Some (r + 1)" using Cons.prems False by (simp add: c_int_def c_text_def)
    ultimately show ?thesis using u False by (auto simp: c_text_def sent_def)
  qed
qed simp

definition arg_text :: "print_arg \<Rightarrow> bytes" where
  "arg_text a = (case arg_string a of None \<Rightarrow> [] | Some str \<Rightarrow> c_text str)"

definition arg_ok :: "print_arg \<Rightarrow> bool" where
  "arg_ok a \<longleftrightarrow> (case arg_string a of None \<Rightarrow> True | Some str \<Rightarrow> 0 \<in> set str)"

lemma puts_writes:
  assumes "transmits dev" "arg_ok a" "length (arg_text a) < 2 ^ 31"
  shows "\<exists>tr'. puts dev (arg_string a) tr = Some (int (length (arg_text a)), tr') \<and>
    writes_of tr' = writes_of tr @ sent (arg_text a)"
  using assms puts_loop_writes [of dev _ 0 tr]
  by (auto simp: puts_def arg_text_def arg_ok_def split: option.splits)

lemma print_loop_writes:
  assumes "transmits dev" "\<forall>a \<in> set as. arg_ok a \<and> a \<noteq> Line_end" "p \<noteq> Line_end" "n + length as \<le> STDIO_MAX_ARGS"
    "0 \<le> ret" "ret + int (length (concat (map arg_text as))) < 2 ^ 31"
  shows "\<exists>tr'. print_loop dev (as @ [Line_end]) p n ret tr = Some (ret + int (length (concat (map arg_text as))), tr') \<and>
    writes_of tr' = writes_of tr @ sent (concat (map arg_text as))"
  using assms(2-)
proof (induction as arbitrary: p n ret tr)
  case Nil
  have "\<exists>u. puts dev (arg_string Line_end) tr = Some (0, u) \<and> writes_of u = writes_of tr"
    using puts_writes [OF assms(1), of Line_end tr] by (auto simp: arg_ok_def arg_text_def arg_string_def c_text_def)
  moreover have "c_int ret = Some ret" using Nil by (simp add: c_int_def)
  ultimately show ?case using Nil by (subst print_loop.simps) (auto simp: print_loop.simps [of dev "[]" Line_end])
next
  case (Cons a as)
  let ?l = "int (length (arg_text a))"
  obtain u where u: "puts dev (arg_string a) tr = Some (?l, u)" "writes_of u = writes_of tr @ sent (arg_text a)"
    using puts_writes [OF assms(1), of a tr] Cons.prems by auto
  have "\<exists>tr'. print_loop dev (as @ [Line_end]) a (n + 1) (ret + ?l) u
      = Some (ret + ?l + int (length (concat (map arg_text as))), tr') \<and>
      writes_of tr' = writes_of u @ sent (concat (map arg_text as))"
    by (rule Cons.IH) (use Cons.prems in auto)
  moreover have "c_int (ret + ?l) = Some (ret + ?l)" using Cons.prems by (simp add: c_int_def)
  ultimately show ?case using Cons.prems u by (subst print_loop.simps) auto
qed

text \<open>
  \<open>print_args\<close> on a port that is never busy for ever.  With at most 128 arguments before the end mark,
  each a terminated string or null, and the console lock free, it returns, writes to the transmit register
  exactly the text of the arguments in order and nothing else, returns the number of characters and leaves
  the lock free.
\<close>

theorem print_args_output:
  assumes "transmits dev" "\<forall>a \<in> set as. arg_ok a \<and> a \<noteq> Line_end" "length as \<le> STDIO_MAX_ARGS"
    and "length (concat (map arg_text as)) < 2 ^ 31" "counter (pr_lock s) = 0"
  shows "\<exists>t. print_args dev (as @ [Line_end]) s = Some (int (length (concat (map arg_text as))), t) \<and>
    writes_of (con_trace t) = writes_of (con_trace s) @ sent (concat (map arg_text as)) \<and> counter (pr_lock t) = 0"
proof -
  obtain tr' where "print_loop dev (as @ [Line_end]) (Arg None) 0 0 (con_trace s)
      = Some (int (length (concat (map arg_text as))), tr')"
    "writes_of tr' = writes_of (con_trace s) @ sent (concat (map arg_text as))"
    using print_loop_writes [OF assms(1,2), of "Arg None" 0 0 "con_trace s"] assms(3,4) by auto
  then show ?thesis
    using assms(5) by (auto simp: print_args_def spin_lock_eq spin_unlock_def atomic_set_def)
qed

text \<open>A port that answers ready on every third access.\<close>

definition slow_port :: device where
  "slow_port tr a = (if length tr mod 3 = 0 then 0x20 else 0)"

lemma slow_port_transmits: "transmits slow_port"
proof -
  have len: "length (poll slow_port tr) = length tr + 5" for tr
    by (simp add: poll_def delay_def is_transmit_empty_def serial_in_def inb_def Let_def)
  have lens: "length ((poll slow_port ^^ n) tr) = length tr + 5 * n" for n tr
    by (induction n) (simp_all add: len)
  have "fst (is_transmit_empty slow_port ((poll slow_port ^^ length tr) tr)) \<noteq> 0" for tr
  proof -
    have "length ((poll slow_port ^^ length tr) tr) mod 3 = 0" unfolding lens by simp
    then show ?thesis
      by (simp add: is_transmit_empty_def serial_in_def inb_def slow_port_def Let_def LSR_TXRDY_def)
  qed
  then show ?thesis unfolding transmits_def by blast
qed

theorem print_args_output_witness:
  "\<exists>t. print_args slow_port [Arg (Some [0x68, 0x69, 0]), Arg None, Line_end]
      \<lparr>con_trace = [], pr_lock = \<lparr>counter = 0\<rparr>, stdio_que = None, out_index = 0, out_buf = (\<lambda>_. [])\<rparr> = Some (2, t) \<and>
    writes_of (con_trace t) = [Wr (Port 0x3F8) 0x68, Wr (Port 0x3F8) 0x69] \<and> counter (pr_lock t) = 0"
  using print_args_output [OF slow_port_transmits, of "[Arg (Some [0x68, 0x69, 0]), Arg None]"
      "\<lparr>con_trace = [], pr_lock = \<lparr>counter = 0\<rparr>, stdio_que = None, out_index = 0, out_buf = (\<lambda>_. [])\<rparr>"]
  by (simp add: arg_ok_def arg_text_def arg_string_def c_text_def sent_def COM1_def STDIO_MAX_ARGS_def)

end
