(* ===== verification/Keyboard.thy ===== *)
theory Keyboard
  imports Console
begin

unbundle bit_operations_syntax

text \<open>
  The keyboard driver of \<^verbatim>\<open>kernel/keyboard.c\<close> and \<open>reboot\<close> of \<^verbatim>\<open>kernel/init.c\<close>.  The controller answers port reads
  from the trace of accesses; the static variable \<open>shift\<close> is threaded through \<open>keyboard_device_getc\<close>.  The
  characters go to the queue of the console.
\<close>

section \<open>Key codes\<close>

definition NO :: u8 where "NO = 0"
definition SHIFT :: u32 where "SHIFT = 1"
definition CTL :: u32 where "CTL = 2"
definition ALT :: u32 where "ALT = 4"
definition CAPSLOCK :: u32 where "CAPSLOCK = 8"
definition NUMLOCK :: u32 where "NUMLOCK = 16"
definition SCROLLLOCK :: u32 where "SCROLLLOCK = 32"
definition E0ESC :: u32 where "E0ESC = 64"

definition KEY_HOME :: u8 where "KEY_HOME = 0xE0"
definition KEY_END :: u8 where "KEY_END = 0xE1"
definition KEY_UP :: u8 where "KEY_UP = 0xE2"
definition KEY_DN :: u8 where "KEY_DN = 0xE3"
definition KEY_LF :: u8 where "KEY_LF = 0xE4"
definition KEY_RT :: u8 where "KEY_RT = 0xE5"
definition KEY_PGUP :: u8 where "KEY_PGUP = 0xE6"
definition KEY_PGDN :: u8 where "KEY_PGDN = 0xE7"
definition KEY_INS :: u8 where "KEY_INS = 0xE8"
definition KEY_DEL :: u8 where "KEY_DEL = 0xE9"

definition KBSTATP :: u16 where "KBSTATP = 0x64"
definition KBS_DIB :: u8 where "KBS_DIB = 0x01"
definition KBDATAP :: u16 where "KBDATAP = 0x60"

lemmas shift_consts = SHIFT_def CTL_def ALT_def CAPSLOCK_def NUMLOCK_def SCROLLLOCK_def E0ESC_def
lemmas key_consts = KEY_HOME_def KEY_END_def KEY_UP_def KEY_DN_def KEY_LF_def KEY_RT_def KEY_PGUP_def KEY_PGDN_def
  KEY_INS_def KEY_DEL_def
lemmas kbd_ports = KBSTATP_def KBS_DIB_def KBDATAP_def

text \<open>
  A static array of 256 bytes from the leading elements and the designated ones; \<open>chars\<close> is a run of
  character constants.
\<close>

definition chars :: "string \<Rightarrow> u8 list" where
  "chars s = map of_char s"

definition table :: "u8 list \<Rightarrow> (nat \<times> u8) list \<Rightarrow> u8 list" where
  "table xs ds = fold (\<lambda>(i, v) t. t[i := v]) ds (xs @ replicate (256 - length xs) 0)"

definition shiftcode :: "u8 list" where
  "shiftcode = table []
     [(0x1D, ucast CTL), (0x2A, ucast SHIFT), (0x36, ucast SHIFT), (0x38, ucast ALT), (0x9D, ucast CTL), (0xB8, ucast ALT)]"

definition togglecode :: "u8 list" where
  "togglecode = table [] [(0x3A, ucast CAPSLOCK), (0x45, ucast NUMLOCK), (0x46, ucast SCROLLLOCK)]"

definition normalmap :: "u8 list" where
  "normalmap = table
     ([NO, 0x1B] @ chars ''123456'' @ chars ''7890-='' @ [8, 9] @
      chars ''qwertyui'' @ chars ''op[]'' @ [10, NO] @ chars ''as'' @
      chars ''dfghjkl;'' @ [39, 96, NO, 92] @ chars ''zxcv'' @
      chars ''bnm,./'' @ [NO] @ chars ''*'' @ [NO] @ chars '' '' @ [NO, NO, NO, NO, NO, NO] @
      [NO, NO, NO, NO, NO, NO, NO] @ chars ''7'' @ chars ''89-456+1'' @
      chars ''230.'' @ [NO, NO, NO, NO])
     [(0xC7, KEY_HOME), (0x9C, 10), (0xB5, of_char (CHR ''/'')), (0xC8, KEY_UP), (0xC9, KEY_PGUP), (0xCB, KEY_LF),
      (0xCD, KEY_RT), (0xCF, KEY_END), (0xD0, KEY_DN), (0xD1, KEY_PGDN), (0xD2, KEY_INS), (0xD3, KEY_DEL)]"

definition shiftmap :: "u8 list" where
  "shiftmap = table
     ([NO, 27] @ chars ''!@#$%^'' @ chars ''&*()_+'' @ [8, 9] @
      chars ''QWERTYUI'' @ chars ''OP{}'' @ [10, NO] @ chars ''AS'' @
      chars ''DFGHJKL:'' @ [34, 126, NO, 124] @ chars ''ZXCV'' @
      chars ''BNM<>?'' @ [NO] @ chars ''*'' @ [NO] @ chars '' '' @ [NO, NO, NO, NO, NO, NO] @
      [NO, NO, NO, NO, NO, NO, NO] @ chars ''7'' @ chars ''89-456+1'' @
      chars ''230.'' @ [NO, NO, NO, NO])
     [(0xC7, KEY_HOME), (0x9C, 10), (0xB5, of_char (CHR ''/'')), (0xC8, KEY_UP), (0xC9, KEY_PGUP), (0xCB, KEY_LF),
      (0xCD, KEY_RT), (0xCF, KEY_END), (0xD0, KEY_DN), (0xD1, KEY_PGDN), (0xD2, KEY_INS), (0xD3, KEY_DEL)]"

text \<open>The macro \<open>C(x)\<close>, in the \<open>uint8_t\<close> of the array.\<close>

definition C_ctl :: "char \<Rightarrow> u8" where
  "C_ctl x = of_char x - of_char (CHR ''@'')"

definition ctlmap :: "u8 list" where
  "ctlmap = table
     (replicate 16 NO @ map C_ctl ''QWERTYUI'' @ map C_ctl ''OP'' @ [NO, NO, 13, NO] @ map C_ctl ''AS'' @
      map C_ctl ''DFGHJKL'' @ [NO] @ [NO, NO, NO, C_ctl (CHR 0x5C)] @ map C_ctl ''ZXCV'' @
      map C_ctl ''BNM'' @ [NO, NO, C_ctl (CHR ''/''), NO, NO])
     [(0x97, KEY_HOME), (0xB5, C_ctl (CHR ''/'')), (0xC8, KEY_UP), (0xC9, KEY_PGUP), (0xCB, KEY_LF),
      (0xCD, KEY_RT), (0xCF, KEY_END), (0xD0, KEY_DN), (0xD1, KEY_PGDN), (0xD2, KEY_INS), (0xD3, KEY_DEL)]"

definition charcode :: "u8 list list" where
  "charcode = [normalmap, shiftmap, ctlmap, ctlmap]"

section \<open>Operations\<close>

definition reboot :: "trace \<Rightarrow> trace" where
  "reboot tr = outb 0x92 0x3 tr"

definition keyboard_device_getc :: "device \<Rightarrow> u32 \<Rightarrow> trace \<Rightarrow> int \<times> u32 \<times> trace" where
  "keyboard_device_getc dev shift tr =
     (let (st, tr) = inb dev KBSTATP tr
      in if st AND KBS_DIB = 0 then (-1, shift, tr)
      else
        let (data, tr) = inb dev KBDATAP tr
        in if data = 0xE0 then (0, shift OR E0ESC, tr)
        else if data AND 0x80 \<noteq> 0 then
          (let data = (if shift AND E0ESC \<noteq> 0 then data else data AND 0x7F);
               shift = shift AND NOT (ucast (shiftcode ! unat data) OR E0ESC)
           in (0, shift, tr))
        else
          (let (data, shift) = (if shift AND E0ESC \<noteq> 0 then (data OR 0x80, shift AND NOT E0ESC) else (data, shift));
               shift = shift OR ucast (shiftcode ! unat data);
               shift = shift XOR ucast (togglecode ! unat data);
               v = shift AND (CTL OR SHIFT);
               c = uint ((charcode ! unat v) ! unat data);
               c = (if shift AND CAPSLOCK \<noteq> 0 then
                      (if 97 \<le> c \<and> c \<le> 122 then c + (65 - 97)
                       else if 65 \<le> c \<and> c \<le> 90 then c + (97 - 65) else c)
                    else c);
               tr = (if NOT shift AND (CTL OR ALT) = 0 \<and> c = uint KEY_DEL then reboot tr else tr)
           in (c, shift, tr)))"

partial_function (option) keyboard_read_all_buffer ::
  "device \<Rightarrow> alloc \<Rightarrow> u32 \<Rightarrow> console \<Rightarrow> (u32 \<times> console) option" where
  "keyboard_read_all_buffer dev kmalloc shift s =
     (let (c, shift, tr) = keyboard_device_getc dev shift (con_trace s);
          s = s\<lparr>con_trace := tr\<rparr>
      in if c = -1 then Some (shift, s)
         else do {
           s \<leftarrow> (if c \<noteq> 0 then
                  do {
                    q \<leftarrow> stdio_que s;
                    (_, q) \<leftarrow> enqueue kmalloc q [of_int c];
                    Some (s\<lparr>stdio_que := Some q\<rparr>)
                  }
                else Some s);
           keyboard_read_all_buffer dev kmalloc shift s
         })"

declare keyboard_read_all_buffer.simps [code]

definition keyboard_irq_handler :: "device \<Rightarrow> alloc \<Rightarrow> u32 \<Rightarrow> console \<Rightarrow> (u32 \<times> console) option" where
  "keyboard_irq_handler dev kmalloc shift s = keyboard_read_all_buffer dev kmalloc shift s"

section \<open>The tables\<close>

lemma table_lengths: "length normalmap = 256" "length shiftmap = 256" "length ctlmap = 256"
    "length shiftcode = 256" "length togglecode = 256"
  by (simp_all add: normalmap_def shiftmap_def ctlmap_def shiftcode_def togglecode_def table_def chars_def)

text \<open>What the driver makes of one byte of the controller: the result, the new state and whether it reboots.\<close>

definition caps :: "bool \<Rightarrow> int \<Rightarrow> int" where
  "caps on c = (if on then (if 97 \<le> c \<and> c \<le> 122 then c - 32 else if 65 \<le> c \<and> c \<le> 90 then c + 32 else c) else c)"

definition press :: "u32 \<Rightarrow> u8 \<Rightarrow> int \<times> u32 \<times> bool" where
  "press shift data =
     (let shift = (shift OR ucast (shiftcode ! unat data)) XOR ucast (togglecode ! unat data);
          c = caps (shift AND CAPSLOCK \<noteq> 0) (uint ((charcode ! unat (shift AND (CTL OR SHIFT))) ! unat data))
      in (c, shift, NOT shift AND (CTL OR ALT) = 0 \<and> c = uint KEY_DEL))"

definition decode :: "u32 \<Rightarrow> u8 \<Rightarrow> int \<times> u32 \<times> bool" where
  "decode shift data =
     (if data = 0xE0 then (0, shift OR E0ESC, False)
      else if data AND 0x80 \<noteq> 0 then
        (0, shift AND NOT (ucast (shiftcode ! unat (if shift AND E0ESC \<noteq> 0 then data else data AND 0x7F)) OR E0ESC), False)
      else if shift AND E0ESC \<noteq> 0 then press (shift AND NOT E0ESC) (data OR 0x80)
      else press shift data)"

lemma keyboard_getc_eq:
  "keyboard_device_getc dev shift tr =
     (let (st, tr) = inb dev KBSTATP tr
      in if st AND KBS_DIB = 0 then (-1, shift, tr)
      else
        let (data, tr) = inb dev KBDATAP tr; (c, shift, rb) = decode shift data
        in (c, shift, if rb then reboot tr else tr))"
  by (simp add: keyboard_device_getc_def decode_def press_def caps_def Let_def split: prod.split)

lemma decode_nonneg: "0 \<le> fst (decode shift data)"
proof -
  have "0 \<le> caps on (uint w)" for on and w :: u8 by (simp add: caps_def)
  then show ?thesis by (simp add: decode_def press_def Let_def)
qed

section \<open>Draining the controller\<close>

text \<open>
  A controller that holds the bytes \<open>ds\<close>: its status announces a byte until as many bytes were read from
  the data port, and the data port delivers them in order.
\<close>

fun is_data_read :: "io_event \<Rightarrow> bool" where
  "is_data_read (Rd (Port p) _) = (p = KBDATAP)"
| "is_data_read _ = False"

definition data_reads :: "trace \<Rightarrow> nat" where
  "data_reads tr = length (filter is_data_read tr)"

definition kb_holds :: "device \<Rightarrow> u8 list \<Rightarrow> bool" where
  "kb_holds dev ds \<longleftrightarrow> (\<forall>tr.
     (ucast (dev tr (Port KBSTATP)) AND KBS_DIB \<noteq> 0 \<longleftrightarrow> data_reads tr < length ds) \<and>
     (data_reads tr < length ds \<longrightarrow> ucast (dev tr (Port KBDATAP)) = ds ! data_reads tr))"

text \<open>The characters that the bytes stand for.\<close>

fun typed :: "u32 \<Rightarrow> u8 list \<Rightarrow> u8 list" where
  "typed shift [] = []"
| "typed shift (d # ds) =
     (case decode shift d of (c, shift, _) \<Rightarrow> (if c \<noteq> 0 then [of_int c] else []) @ typed shift ds)"

fun shift_after :: "u32 \<Rightarrow> u8 list \<Rightarrow> u32" where
  "shift_after shift [] = shift"
| "shift_after shift (d # ds) = (case decode shift d of (_, shift, _) \<Rightarrow> shift_after shift ds)"

lemma data_reads_simps [simp]:
  "data_reads [] = 0" "data_reads (snd (inb dev KBSTATP tr)) = data_reads tr"
  "data_reads (snd (inb dev KBDATAP tr)) = data_reads tr + 1" "data_reads (reboot tr) = data_reads tr"
  by (simp_all add: data_reads_def inb_def Let_def kbd_ports reboot_def outb_def)

lemma getc_holds:
  assumes "kb_holds dev ds"
  shows "data_reads tr \<ge> length ds \<Longrightarrow> keyboard_device_getc dev shift tr = (-1, shift, snd (inb dev KBSTATP tr))"
    and "data_reads tr < length ds \<Longrightarrow> decode shift (ds ! data_reads tr) = (c, shift', rb) \<Longrightarrow>
      \<exists>tr'. keyboard_device_getc dev shift tr = (c, shift', tr') \<and> data_reads tr' = data_reads tr + 1"
proof -
  let ?t = "snd (inb dev KBSTATP tr)"
  have h: "fst (inb dev KBSTATP tr) AND KBS_DIB \<noteq> 0 \<longleftrightarrow> data_reads tr < length ds"
    "data_reads tr < length ds \<Longrightarrow> fst (inb dev KBDATAP ?t) = ds ! data_reads tr"
    using spec [OF assms [unfolded kb_holds_def], of tr] spec [OF assms [unfolded kb_holds_def], of ?t]
    by (simp_all add: inb_def Let_def data_reads_def kbd_ports)
  show "data_reads tr \<ge> length ds \<Longrightarrow> keyboard_device_getc dev shift tr = (-1, shift, ?t)"
    using h(1) by (auto simp: keyboard_getc_eq split_def Let_def)
  show "data_reads tr < length ds \<Longrightarrow> decode shift (ds ! data_reads tr) = (c, shift', rb) \<Longrightarrow>
      \<exists>tr'. keyboard_device_getc dev shift tr = (c, shift', tr') \<and> data_reads tr' = data_reads tr + 1"
    using h by (auto simp: keyboard_getc_eq split_def Let_def)
qed

text \<open>
  A queue that is full and for which \<open>kmalloc\<close> refuses a larger buffer.  The driver ignores the result of
  \<open>enqueue\<close>: the character is lost.
\<close>

definition stuck :: "alloc \<Rightarrow> queue \<Rightarrow> bool" where
  "stuck kmalloc q \<longleftrightarrow> queue_full q \<and> queue_expand kmalloc q = Some (- ENOMEM, q)"

lemma enqueue_key:
  assumes "queue_inv 1 q" "alloc_ok kmalloc"
  shows "(stuck kmalloc q \<and> enqueue kmalloc q [c] = Some (- ENOMEM, q)) \<or>
    (\<not> stuck kmalloc q \<and> (\<exists>q'. enqueue kmalloc q [c] = Some (0, q') \<and> queue_inv 1 q' \<and> queue_content q' = queue_content q @ [[c]]))"
proof (cases "stuck kmalloc q")
  case True
  then show ?thesis by (simp add: stuck_def enqueue_def errno_defs)
next
  case False
  have "enqueue kmalloc q [c] \<noteq> Some (- ENOMEM, q) \<or> \<not> queue_full q"
    using False by (auto simp: stuck_def enqueue_def errno_defs bind_eq_Some_conv split: if_splits)
  then show ?thesis using enqueue_correct [OF assms(1) _ assms(2), of "[c]"] False by auto
qed

text \<open>
  \<open>keyboard_read_all_buffer\<close> on a controller that holds some bytes returns, has read exactly these bytes, and
  has appended a prefix of the characters they decode to: all of them, unless the queue could not grow.
\<close>

lemma keyboard_drains:
  assumes "kb_holds dev (pre @ ds)" "data_reads (con_trace s) = length pre" "stdio_que s = Some q" "queue_inv 1 q"
    and "alloc_ok kmalloc"
  shows "\<exists>s' q' j. keyboard_read_all_buffer dev kmalloc shift s = Some (shift_after shift ds, s') \<and>
    data_reads (con_trace s') = length (pre @ ds) \<and> stdio_que s' = Some q' \<and> queue_inv 1 q' \<and> j \<le> length (typed shift ds) \<and>
    queue_content q' = queue_content q @ map (\<lambda>c. [c]) (take j (typed shift ds)) \<and>
    (j < length (typed shift ds) \<longrightarrow> stuck kmalloc q') \<and> (stuck kmalloc q \<longrightarrow> q' = q)"
  using assms(1-4)
proof (induction ds arbitrary: pre s q shift)
  case Nil
  then show ?case
    using getc_holds(1) [OF Nil.prems(1), of "con_trace s" shift]
    by (subst keyboard_read_all_buffer.simps) simp
next
  case (Cons d ds)
  obtain c sh rb where d: "decode shift d = (c, sh, rb)" by (cases "decode shift d") auto
  obtain tr where g: "keyboard_device_getc dev shift (con_trace s) = (c, sh, tr)" "data_reads tr = length (pre @ [d])"
    using getc_holds(2) [OF Cons.prems(1), of "con_trace s" shift c sh rb] Cons.prems(2) d by auto
  have c: "c \<noteq> -1" using decode_nonneg [of shift d] d by simp
  have h: "kb_holds dev ((pre @ [d]) @ ds)" using Cons.prems(1) by simp
  note IH = Cons.IH [OF h, of _ _ sh]
  consider (zero) "c = 0" | (lost) "c \<noteq> 0" "stuck kmalloc q" "enqueue kmalloc q [of_int c] = Some (- ENOMEM, q)"
    | (put) q1 where "c \<noteq> 0" "\<not> stuck kmalloc q" "enqueue kmalloc q [of_int c] = Some (0, q1)" "queue_inv 1 q1"
        "queue_content q1 = queue_content q @ [[of_int c]]"
    using enqueue_key [OF Cons.prems(4) assms(5), of "of_int c"] by blast
  then show ?case
  proof cases
    case zero
    then show ?thesis
      using IH [of "s\<lparr>con_trace := tr\<rparr>" q] g Cons.prems d by (subst keyboard_read_all_buffer.simps) simp
  next
    case lost
    obtain s' q' where r: "keyboard_read_all_buffer dev kmalloc sh (s\<lparr>con_trace := tr\<rparr>) = Some (shift_after sh ds, s')"
        "data_reads (con_trace s') = length (pre @ d # ds)" "stdio_que s' = Some q"
      using IH [of "s\<lparr>con_trace := tr\<rparr>" q] g Cons.prems lost(2) by auto
    have e: "s\<lparr>con_trace := tr, stdio_que := Some q\<rparr> = s\<lparr>con_trace := tr\<rparr>" using Cons.prems(3) by (cases s) simp
    have "keyboard_read_all_buffer dev kmalloc shift s = Some (shift_after shift (d # ds), s')"
      using lost(1,3) c g Cons.prems(3) d r(1) by (subst keyboard_read_all_buffer.simps) (simp add: e)
    then show ?thesis using r(2,3) lost(2) Cons.prems(4) by (intro exI [of _ s'] exI [of _ q] exI [of _ 0]) simp
  next
    case put
    obtain s' q' j where r: "keyboard_read_all_buffer dev kmalloc sh (s\<lparr>con_trace := tr, stdio_que := Some q1\<rparr>) = Some (shift_after sh ds, s')"
        "data_reads (con_trace s') = length (pre @ d # ds)" "stdio_que s' = Some q'" "queue_inv 1 q'" "j \<le> length (typed sh ds)"
        "queue_content q' = queue_content q1 @ map (\<lambda>c. [c]) (take j (typed sh ds))" "j < length (typed sh ds) \<longrightarrow> stuck kmalloc q'"
      using IH [of "s\<lparr>con_trace := tr, stdio_que := Some q1\<rparr>" q1] g put(4) by auto
    have "keyboard_read_all_buffer dev kmalloc shift s = Some (shift_after shift (d # ds), s')"
      using put(1,3) c g Cons.prems(3) d r(1) by (subst keyboard_read_all_buffer.simps) simp
    then show ?thesis using r(2-7) put(1,2,5) d by (intro exI [of _ s'] exI [of _ q'] exI [of _ "Suc j"]) simp
  qed
qed

section \<open>Typing\<close>

text \<open>
  The keys of a US keyboard, row by row: the scan code of the first key of a row, and the characters of its keys without
  and with Shift.
\<close>

definition us_rows :: "(nat \<times> string \<times> string) list" where
  "us_rows =
     [(0x02, ''1234567890-='', ''!@#$%^&*()_+''),
      (0x10, ''qwertyuiop[]'', ''QWERTYUIOP{}''),
      (0x1E, ''asdfghjkl;'' @ [CHR 0x27, CHR 0x60], ''ASDFGHJKL:'' @ [CHR 0x22, CHR 0x7E]),
      (0x2B, [CHR 0x5C], [CHR 0x7C]),
      (0x2C, ''zxcvbnm,./'', ''ZXCVBNM<>?''),
      (0x39, '' '', '' ''), (0x1C, [CHR 0x0A], [CHR 0x0A])]"

text \<open>The key of a character and whether Shift is needed.\<close>

definition us_keys :: "(char \<times> u8 \<times> bool) list" where
  "us_keys = concat (map (\<lambda>(k, lo, up). zip lo (map (\<lambda>i. (of_nat (k + i), False)) [0 ..< length lo]) @
     zip up (map (\<lambda>i. (of_nat (k + i), True)) [0 ..< length up])) us_rows)"

text \<open>The bytes that the keyboard sends when a character is typed: a released key has bit 7 set, \<open>0x2A\<close> is the left Shift key.\<close>

definition strokes :: "char \<Rightarrow> u8 list" where
  "strokes x =
     (case map_of us_keys x of
        None \<Rightarrow> []
      | Some (k, False) \<Rightarrow> [k, k + 0x80]
      | Some (k, True) \<Rightarrow> [0x2A, k, k + 0x80, 0x2A + 0x80])"

text \<open>Caps Lock exchanges small and capital letters.\<close>

definition swap_case :: "bool \<Rightarrow> u8 \<Rightarrow> u8" where
  "swap_case on c = (if on \<and> 97 \<le> c \<and> c \<le> 122 then c - 32 else if on \<and> 65 \<le> c \<and> c \<le> 90 then c + 32 else c)"

text \<open>The tables in front of their designated elements.\<close>

lemma table_nth:
  assumes i: "i < length xs" "length xs \<le> 256" "list_all (\<lambda>(j, v). i < j) ds"
  shows "table xs ds ! i = xs ! i"
proof -
  have "fold (\<lambda>(i, v) t. t[i := v]) ds t ! i = t ! i" for t :: "u8 list"
    using i(3) by (induction ds arbitrary: t) (auto simp: split_def)
  then show ?thesis using i by (simp add: table_def nth_append)
qed

lemma table_length: "length xs \<le> 256 \<Longrightarrow> length (table xs ds) = 256"
proof -
  assume "length xs \<le> 256"
  moreover have "length (fold (\<lambda>(i, v) t. t[i := v]) ds t) = length t" for t :: "u8 list"
    by (induction ds arbitrary: t) (auto simp: split_def)
  ultimately show ?thesis by (simp add: table_def)
qed

lemma table_slice:
  assumes "k + n \<le> length xs" "length xs \<le> 256" "list_all (\<lambda>(j, v). k + n \<le> j) ds"
  shows "take n (drop k (table xs ds)) = take n (drop k xs)"
proof (rule nth_equalityI)
  show "length (take n (drop k (table xs ds))) = length (take n (drop k xs))" using assms(1,2) by (simp add: table_length)
  fix i assume "i < length (take n (drop k (table xs ds)))"
  then have i: "i < n" by simp
  have "table xs ds ! (k + i) = xs ! (k + i)"
    by (rule table_nth) (use assms i in \<open>auto simp: list_all_iff\<close>)
  then show "take n (drop k (table xs ds)) ! i = take n (drop k xs) ! i" using assms(1,2) i by (simp add: table_length)
qed
lemma us_rows_chars:
  "list_all (\<lambda>(k, lo, up). take (length lo) (drop k normalmap) = map of_char lo \<and> take (length up) (drop k shiftmap) = map of_char up) us_rows"
  by (simp add: us_rows_def normalmap_def shiftmap_def table_slice chars_def)

lemma us_rows_keys:
  "list_all (\<lambda>(k, lo, up). length lo = length up \<and> k + length lo \<le> 64 \<and> take (length lo) (drop k shiftcode) = replicate (length lo) 0 \<and>
     take (length lo) (drop k togglecode) = replicate (length lo) 0) us_rows"
  by code_simp

lemma us_rows_pos:
  "list_all (\<lambda>(k, lo, up). list_all (\<lambda>x. (of_char x :: u8) \<noteq> 0) (lo @ up)) us_rows"
  by (simp add: us_rows_def)

lemma us_key:
  assumes "(x, w, sh) \<in> set us_keys"
  shows "unat w < 64" "(of_char x :: u8) \<noteq> 0" "shiftcode ! unat w = 0" "togglecode ! unat w = 0"
    "(if sh then shiftmap else normalmap) ! unat w = of_char x"
proof -
  obtain k lo up i where r: "(k, lo, up) \<in> set us_rows" and i: "i < length (if sh then up else lo)"
    and x: "x = (if sh then up else lo) ! i" and w: "w = of_nat (k + i)"
    using assms by (auto simp: us_keys_def set_zip simp del: of_nat_add split: if_splits)
  have l: "length lo = length up" "k + length lo \<le> 64" "take (length lo) (drop k shiftcode) = replicate (length lo) 0"
      "take (length lo) (drop k togglecode) = replicate (length lo) 0"
      "take (length lo) (drop k normalmap) = map of_char lo" "take (length up) (drop k shiftmap) = map of_char up"
      "\<forall>y \<in> set lo \<union> set up. (of_char y :: u8) \<noteq> 0"
    using us_rows_chars us_rows_keys us_rows_pos r unfolding list_all_iff by auto
  have ki: "i < length lo" "k + i < 64" using i l(1,2) by (auto split: if_splits)
  have u: "unat w = k + i" unfolding w using ki(2) by (simp add: unsigned_of_nat take_bit_nat_eq_self del: of_nat_add)
  have n: "T ! (k + i) = L ! i" if "take (length lo) (drop k T) = L" "length T = 256" for T L :: "u8 list"
    using that ki by (auto simp: nth_take nth_drop)
  show "unat w < 64" using u ki(2) by simp
  show "(of_char x :: u8) \<noteq> 0" using l(1,7) ki(1) by (simp add: x)
  show "shiftcode ! unat w = 0" "togglecode ! unat w = 0" "(if sh then shiftmap else normalmap) ! unat w = of_char x"
    using n [OF l(3)] n [OF l(4)] n [OF l(5)] n [OF l(6) [folded l(1)]] ki(1) l(1) by (simp_all add: u x table_lengths)
qed

lemma low_key:
  fixes w :: u8
  assumes "unat w < 64"
  shows "w AND 0x80 = 0 \<and> w \<noteq> 0xE0 \<and> (w + 0x80) AND 0x80 \<noteq> 0 \<and> w + 0x80 \<noteq> 0xE0 \<and> (w + 0x80) AND 0x7F = w"
proof -
  have "list_all (\<lambda>n. let w = of_nat n :: u8 in w AND 0x80 = 0 \<and> w \<noteq> 0xE0 \<and> (w + 0x80) AND 0x80 \<noteq> 0 \<and> w + 0x80 \<noteq> 0xE0 \<and>
      (w + 0x80) AND 0x7F = w) [0 ..< 64]" by code_simp
  then show ?thesis using assms unfolding list_all_iff by (auto simp: Let_def dest!: bspec [of _ _ "unat w"])
qed

lemma shift_key_tables: "shiftcode ! 0x2A = 1" "togglecode ! 0x2A = 0" "shiftmap ! 0x2A = 0"
  by code_simp+

text \<open>The characters on the keyboard: the printable ones and the newline.\<close>

definition typable :: "char \<Rightarrow> bool" where
  "typable x \<longleftrightarrow> map_of us_keys x \<noteq> None"

lemma caps_swap: "of_int (caps on (uint w)) = swap_case on w" "0 < w \<Longrightarrow> caps on (uint w) \<noteq> 0" for w :: u8
proof -
  have "(97 \<le> w) = (97 \<le> uint w)" "(w \<le> 122) = (uint w \<le> 122)" "(65 \<le> w) = (65 \<le> uint w)" "(w \<le> 90) = (uint w \<le> 90)"
    by (simp_all add: word_le_def)
  then show "of_int (caps on (uint w)) = swap_case on w" by (simp add: caps_def swap_case_def)
  show "caps on (uint w) \<noteq> 0" if "0 < w" using that by (auto simp: caps_def word_less_def)
qed

lemma released:
  assumes "shift AND (SHIFT OR CTL OR E0ESC) = 0"
  shows "shift AND E0ESC = 0" "(shift OR SHIFT) AND E0ESC = 0" "shift AND (CTL OR SHIFT) = 0"
    "(shift OR SHIFT) AND (CTL OR SHIFT) = SHIFT" "shift AND NOT E0ESC = shift"
    "(shift OR SHIFT) AND NOT E0ESC = shift OR SHIFT" "(shift OR SHIFT) AND NOT (SHIFT OR E0ESC) = shift"
    "(shift OR SHIFT) AND CAPSLOCK = shift AND CAPSLOCK"
proof -
  have c: "SHIFT = 2 ^ 0" "CTL = 2 ^ 1" "E0ESC = 2 ^ 6" "CAPSLOCK = 2 ^ 3"
    by (simp_all add: shift_consts)
  have p: "bit (2 ^ m :: u32) n \<longleftrightarrow> n = m" if "m < 32" for m n using that by (auto simp: bit_exp_iff)
  have b: "bit SHIFT n \<longleftrightarrow> n = 0" "bit CTL n \<longleftrightarrow> n = 1" "bit E0ESC n \<longleftrightarrow> n = 6" "bit CAPSLOCK n \<longleftrightarrow> n = 3" for n
    unfolding c by (rule p; simp)+
  have z: "\<not> bit shift n" if "n \<in> {0, 1, 6}" for n
    using arg_cong [OF assms, of "\<lambda>w. bit w n"] that by (auto simp: bit_and_iff bit_or_iff b)
  have n: "\<not> bit shift 0" "\<not> bit shift 1" "\<not> bit shift 6" using z by simp_all
  show "shift AND E0ESC = 0" "(shift OR SHIFT) AND E0ESC = 0" "shift AND (CTL OR SHIFT) = 0"
    "(shift OR SHIFT) AND (CTL OR SHIFT) = SHIFT" "shift AND NOT E0ESC = shift"
    "(shift OR SHIFT) AND NOT E0ESC = shift OR SHIFT" "(shift OR SHIFT) AND NOT (SHIFT OR E0ESC) = shift"
    "(shift OR SHIFT) AND CAPSLOCK = shift AND CAPSLOCK"
    using n by (auto intro!: bit_word_eqI intro: gr0I simp: bit_and_iff bit_or_iff bit_not_iff b)
qed

lemma typed_strokes:
  assumes "typable x" and s: "shift AND (SHIFT OR CTL OR E0ESC) = 0"
  shows "typed shift (strokes x @ ds) = swap_case (shift AND CAPSLOCK \<noteq> 0) (of_char x) # typed shift ds"
    "shift_after shift (strokes x @ ds) = shift_after shift ds"
proof -
  obtain k sh where k: "map_of us_keys x = Some (k, sh)" using assms(1) by (auto simp: typable_def)
  then have "(x, k, sh) \<in> set us_keys" by (rule map_of_SomeD)
  note K = us_key [OF this]
  have t: "0 < (of_char x :: u8)" "k AND 0x80 = 0" "k \<noteq> 0xE0" "(k + 0x80) AND 0x80 \<noteq> 0" "k + 0x80 \<noteq> 0xE0" "(k + 0x80) AND 0x7F = k"
      "shiftcode ! unat k = 0" "togglecode ! unat k = 0" "(if sh then shiftmap else normalmap) ! unat k = of_char x"
    using low_key [OF K(1)] K(2-5) by (simp_all add: word_gt_0)
  note R = released [OF s]
  have S: "unat SHIFT = 1" "SHIFT = 1" by (simp_all add: SHIFT_def)
  have up: "decode y (k + 0x80) = (0, y, False)" if "y AND E0ESC = 0" "y AND NOT E0ESC = y" for y
    using that t(4-7) by (simp add: decode_def)
  have dn: "\<exists>rb. decode y k = (caps (y AND CAPSLOCK \<noteq> 0) (uint ((charcode ! unat (y AND (CTL OR SHIFT))) ! unat k)), y, rb)"
    if "y AND E0ESC = 0" for y
    using that t(2,3,7,8) by (simp add: decode_def press_def Let_def)
  have ch: "charcode ! 0 = normalmap" "charcode ! 1 = shiftmap" by (simp_all add: charcode_def)
  have "typed shift (strokes x @ ds) = swap_case (shift AND CAPSLOCK \<noteq> 0) (of_char x) # typed shift ds \<and>
    shift_after shift (strokes x @ ds) = shift_after shift ds"
  proof (cases sh)
    case False
    obtain rb where "decode shift k = (caps (shift AND CAPSLOCK \<noteq> 0) (uint (of_char x :: u8)), shift, rb)"
      using dn [OF R(1)] t(9) False ch R(3) by auto
    then show ?thesis using up [OF R(1,5)] k False caps_swap t(1) by (simp add: strokes_def)
  next
    case True
    have z: "caps on 0 = 0" for on by (simp add: caps_def)
    have "(ucast (shiftcode ! 42) :: u32) = SHIFT" by (simp add: shift_key_tables SHIFT_def)
    then obtain rb where d: "decode shift 0x2A = (0, shift OR SHIFT, rb)"
      using R(1,4) shift_key_tables(2,3) ch S(1) z by (simp add: decode_def press_def Let_def)
    have u: "decode (shift OR SHIFT) 0xAA = (0, shift, False)"
      using R(2,7) shift_key_tables(1) S(2) by (simp add: decode_def)
    obtain rb' where "decode (shift OR SHIFT) k = (caps (shift AND CAPSLOCK \<noteq> 0) (uint (of_char x :: u8)), shift OR SHIFT, rb')"
      using dn [OF R(2)] t(9) True ch R(4,8) S(1) by auto
    then show ?thesis using d u up [OF R(2,6)] k True caps_swap t(1) by (simp add: strokes_def)
  qed
  then show "typed shift (strokes x @ ds) = swap_case (shift AND CAPSLOCK \<noteq> 0) (of_char x) # typed shift ds"
    "shift_after shift (strokes x @ ds) = shift_after shift ds" by simp_all
qed

lemma typed_text:
  assumes "list_all typable xs" "shift AND (SHIFT OR CTL OR E0ESC) = 0"
  shows "typed shift (concat (map strokes xs)) = map (\<lambda>x. swap_case (shift AND CAPSLOCK \<noteq> 0) (of_char x)) xs"
    "shift_after shift (concat (map strokes xs)) = shift"
  using assms(1) by (induction xs) (simp_all add: typed_strokes [OF _ assms(2)])

definition kb_dev :: "u8 list \<Rightarrow> device" where
  "kb_dev ds tr a =
     (if data_reads tr < length ds then (if a = Port KBSTATP then 1 else ucast (ds ! data_reads tr)) else 0)"

lemma kb_dev_holds: "kb_holds (kb_dev ds) ds"
proof -
  have "ucast (ucast x :: u32) = x" for x :: u8 by (rule bit_word_eqI) (simp add: bit_simps)
  then show ?thesis by (simp add: kb_holds_def kb_dev_def kbd_ports)
qed

section \<open>Properties\<close>

text \<open>
  C21: what is typed is what is read.  The controller holds the bytes that a US keyboard sends when a text of printable
  characters and newlines is typed key by key, with the left Shift key where a character needs it; Shift and Ctrl were not pressed before.
  Then \<open>keyboard_read_all_buffer\<close> returns with the modifiers as they were, has read exactly these bytes, and has appended the characters of the text
  to the queue of the console in order, with small and capital letters exchanged if Caps Lock is on: all of them, or only the first
  \<open>j\<close> when the queue became full and \<open>kmalloc\<close> refused the memory to enlarge it - the rest is lost without notice.
\<close>

theorem keyboard_types_text:
  assumes "kb_holds dev (pre @ concat (map strokes text))" "data_reads (con_trace s) = length pre"
    and "stdio_que s = Some q" "queue_inv 1 q" "alloc_ok kmalloc"
    and "list_all typable text" "shift AND (SHIFT OR CTL OR E0ESC) = 0"
  shows "\<exists>s' q' j. keyboard_read_all_buffer dev kmalloc shift s = Some (shift, s') \<and>
    data_reads (con_trace s') = length (pre @ concat (map strokes text)) \<and>
    stdio_que s' = Some q' \<and> queue_inv 1 q' \<and> j \<le> length text \<and>
    queue_content q' = queue_content q @ map (\<lambda>x. [swap_case (shift AND CAPSLOCK \<noteq> 0) (of_char x)]) (take j text) \<and>
    (j < length text \<longrightarrow> queue_full q' \<and> queue_expand kmalloc q' = Some (- ENOMEM, q'))"
  using keyboard_drains [OF assms(1-5), of shift] unfolding typed_text [OF assms(6,7)] stuck_def
  by (simp add: take_map comp_def) blast

theorem keyboard_types_text_witness:
  "\<exists>q s s' q'. queue_create some_alloc 1 = Some q \<and> stdio_que s = Some q \<and>
    keyboard_read_all_buffer (kb_dev (concat (map strokes ''Hi''))) some_alloc 0 s = Some (0, s') \<and>
    stdio_que s' = Some q' \<and> queue_content q' = [[72], [105]]"
proof -
  obtain q where q: "queue_create some_alloc 1 = Some q"
    by (simp add: queue_create_def some_alloc_def sizeof_queue_def queue_MIN_CAPACITY_def)
  have i: "queue_inv 1 q" "queue_content q = []" by (rule queue_create_correct [OF some_alloc_ok _ _ q]; simp)+
  let ?s = "\<lparr>con_trace = [], pr_lock = \<lparr>counter = 0\<rparr>, stdio_que = Some q, out_index = 0, out_buf = (\<lambda>_. [])\<rparr>"
  let ?d = "kb_dev (concat (map strokes ''Hi''))"
  have h: "kb_holds ?d ([] @ concat (map strokes ''Hi''))" using kb_dev_holds by simp
  have t: "list_all typable ''Hi''" by (simp add: typable_def us_keys_def us_rows_def)
  have z: "(0 :: u32) AND (SHIFT OR CTL OR E0ESC) = 0" "data_reads (con_trace ?s) = length []" "stdio_que ?s = Some q" by simp_all
  obtain s' q' j where r: "keyboard_read_all_buffer ?d some_alloc 0 ?s = Some (0, s')" "stdio_que s' = Some q'" "queue_inv 1 q'"
      "j \<le> length ''Hi''" "queue_content q' = queue_content q @ map (\<lambda>x. [swap_case ((0 :: u32) AND CAPSLOCK \<noteq> 0) (of_char x)]) (take j ''Hi'')"
      "j < length ''Hi'' \<longrightarrow> queue_full q' \<and> queue_expand some_alloc q' = Some (- ENOMEM, q')"
    using keyboard_types_text [OF h z(2,3) i(1) some_alloc_ok t z(1)] by blast
  have "\<not> j < length ''Hi''"
  proof
    assume j: "j < length ''Hi''"
    have "length (queue_content q') = qlen q'" by (simp add: queue_content_def)
    then have "q_capacity q' \<le> 2" using r(5,6) j i(2) queue_eqs(2,4) [OF r(3)] by simp
    moreover have "q_element_size q' = 1" using r(3) by (simp add: queue_inv_def)
    ultimately obtain b where "some_alloc (wrap32 (wrap32 (q_element_size q' * q_capacity q') * 2)) = Some b"
      by (simp add: some_alloc_def)
    then have "queue_expand some_alloc q' \<noteq> Some (- ENOMEM, q')"
      by (auto simp: queue_expand_def Let_def bind_eq_Some_conv errno_defs)
    then show False using r(6) j by blast
  qed
  then have "j = 2" using r(4) by simp
  then have "queue_content q' = [[72], [105]]" using r(5) i(2) by (simp add: swap_case_def)
  then show ?thesis using q r(1,2) by (intro exI [of _ q] exI [of _ ?s] exI [of _ s'] exI [of _ q']) simp
qed

end
