(* ===== verification/Apic.thy ===== *)
theory Apic
  imports Ports Page_Table
begin

text \<open>
  The I/O APIC of \<^verbatim>\<open>kernel/ioapic.c\<close>, the local APIC and the CMOS clock of \<^verbatim>\<open>kernel/lapic.c\<close>.  Their registers
  are mapped memory; a store of the code to such a register is a write of the trace.  \<open>ioapic_regs\<close> is the
  content of the registers that the I/O APIC has after a trace: a write to the first word selects a
  register, a write to the fifth word sets it.
\<close>

section \<open>State\<close>

record apics =
  hvm :: vm
  htr :: trace
  ioapic :: u32
  ioapic_id :: u8
  lapic :: u32

definition on_htr :: "(trace \<Rightarrow> trace) \<Rightarrow> apics \<Rightarrow> apics" where
  "on_htr f s = s\<lparr>htr := f (htr s)\<rparr>"

section \<open>The I/O APIC\<close>

definition IOAPIC :: u32 where "IOAPIC = 0xFEC00000"
definition REG_ID :: u32 where "REG_ID = 0x00"
definition REG_VER :: u32 where "REG_VER = 0x01"
definition REG_TABLE :: u32 where "REG_TABLE = 0x10"
definition INT_DISABLED :: u32 where "INT_DISABLED = 0x00010000"

lemmas [port_consts] = IOAPIC_def REG_ID_def REG_VER_def REG_TABLE_def INT_DISABLED_def

text \<open>The fields \<open>reg\<close> and \<open>data\<close> of \<open>struct ioapic\<close> are at offsets 0 and 16.\<close>

definition ioapic_read :: "device \<Rightarrow> u32 \<Rightarrow> apics \<Rightarrow> u32 \<times> apics" where
  "ioapic_read dev reg s =
     (let s = on_htr (mmio_write (ioapic s) reg) s;
          (v, tr) = mmio_read dev (ioapic s + 16) (htr s)
      in (v, s\<lparr>htr := tr\<rparr>))"

definition ioapic_write :: "u32 \<Rightarrow> u32 \<Rightarrow> apics \<Rightarrow> apics" where
  "ioapic_write reg data s =
     on_htr (mmio_write (ioapic s + 16) data) (on_htr (mmio_write (ioapic s) reg) s)"

definition ioapic_disable :: "nat \<Rightarrow> apics \<Rightarrow> apics" where
  "ioapic_disable i s =
     ioapic_write (REG_TABLE + 2 * of_nat i + 1) 0
       (ioapic_write (REG_TABLE + 2 * of_nat i) (INT_DISABLED OR (of_nat IRQ_OFFSET + of_nat i)) s)"

definition ioapic_init :: "device \<Rightarrow> u32 \<Rightarrow> apics \<Rightarrow> apics option" where
  "ioapic_init dev pgdir s =
     do {
       v \<leftarrow> kernel_map pgdir IOAPIC IOAPIC PAGE_SIZE PTE_W (hvm s);
       let s = s\<lparr>hvm := v, ioapic := IOAPIC\<rparr>;
       let (ver, s) = ioapic_read dev REG_VER s;
       let maxintr = unat (drop_bit 16 ver AND 0xFF);
       let (id, s) = ioapic_read dev REG_ID s;
       Some (fold ioapic_disable [0 ..< maxintr + 1] s)
     }"

definition ioapic_enable :: "nat \<Rightarrow> nat \<Rightarrow> apics \<Rightarrow> apics" where
  "ioapic_enable irq cpu s =
     ioapic_write (REG_TABLE + 2 * of_nat irq + 1) (push_bit 24 (of_nat cpu))
       (ioapic_write (REG_TABLE + 2 * of_nat irq) (of_nat IRQ_OFFSET + of_nat irq) s)"

section \<open>The local APIC\<close>

definition LAPIC_ID :: u32 where "LAPIC_ID = 0x0020"
definition VER :: u32 where "VER = 0x0030"
definition TPR :: u32 where "TPR = 0x0080"
definition EOI :: u32 where "EOI = 0x00B0"
definition SVR :: u32 where "SVR = 0x00F0"
definition ENABLE :: u32 where "ENABLE = 0x00000100"
definition ESR :: u32 where "ESR = 0x0280"
definition ICRLO :: u32 where "ICRLO = 0x0300"
definition INIT :: u32 where "INIT = 0x00000500"
definition STARTUP :: u32 where "STARTUP = 0x00000600"
definition DELIVS :: u32 where "DELIVS = 0x00001000"
definition ASSERT :: u32 where "ASSERT = 0x00004000"
definition LEVEL :: u32 where "LEVEL = 0x00008000"
definition BCAST :: u32 where "BCAST = 0x00080000"
definition ICRHI :: u32 where "ICRHI = 0x0310"
definition TIMER :: u32 where "TIMER = 0x0320"
definition X1 :: u32 where "X1 = 0x0000000B"
definition PERIODIC :: u32 where "PERIODIC = 0x00020000"
definition PCINT :: u32 where "PCINT = 0x0340"
definition LINT0 :: u32 where "LINT0 = 0x0350"
definition LINT1 :: u32 where "LINT1 = 0x0360"
definition ERROR :: u32 where "ERROR = 0x0370"
definition MASKED :: u32 where "MASKED = 0x00010000"
definition TICR :: u32 where "TICR = 0x0380"
definition TDCR :: u32 where "TDCR = 0x03E0"
definition IRQ_ERROR :: nat where "IRQ_ERROR = 19"
definition IRQ_SPURIOUS :: nat where "IRQ_SPURIOUS = 31"
definition PIC_TIMER :: nat where "PIC_TIMER = 0"
definition IRQ_TIMER :: nat where "IRQ_TIMER = IRQ_OFFSET + PIC_TIMER"

lemmas [port_consts] = LAPIC_ID_def VER_def TPR_def EOI_def SVR_def ENABLE_def ESR_def ICRLO_def INIT_def STARTUP_def
  DELIVS_def ASSERT_def LEVEL_def BCAST_def ICRHI_def TIMER_def X1_def PERIODIC_def PCINT_def LINT0_def LINT1_def
  ERROR_def MASKED_def TICR_def TDCR_def IRQ_ERROR_def IRQ_SPURIOUS_def PIC_TIMER_def IRQ_TIMER_def

definition lapic_read :: "device \<Rightarrow> u32 \<Rightarrow> apics \<Rightarrow> u32 \<times> apics" where
  "lapic_read dev reg s = (let (v, tr) = mmio_read dev (lapic s + reg) (htr s) in (v, s\<lparr>htr := tr\<rparr>))"

definition lapic_write :: "device \<Rightarrow> u32 \<Rightarrow> u32 \<Rightarrow> apics \<Rightarrow> apics" where
  "lapic_write dev reg val s = snd (lapic_read dev LAPIC_ID (on_htr (mmio_write (lapic s + reg) val) s))"

partial_function (option) lapic_wait :: "device \<Rightarrow> apics \<Rightarrow> apics option" where
  "lapic_wait dev s =
     (if fst (lapic_read dev ICRLO s) AND DELIVS \<noteq> 0 then lapic_wait dev (snd (lapic_read dev ICRLO s))
      else Some (snd (lapic_read dev ICRLO s)))"

declare lapic_wait.simps [code]

definition lapic_init :: "device \<Rightarrow> apics \<Rightarrow> apics option" where
  "lapic_init dev s =
     (if lapic s = 0 then Some s
      else do {
        let s = lapic_write dev SVR (ENABLE OR of_nat (IRQ_OFFSET + IRQ_SPURIOUS)) s;
        let s = lapic_write dev TDCR X1 s;
        let s = lapic_write dev TIMER (PERIODIC OR of_nat IRQ_TIMER) s;
        let s = lapic_write dev TICR 10000000 s;
        let s = lapic_write dev LINT0 MASKED s;
        let s = lapic_write dev LINT1 MASKED s;
        let (v, s) = lapic_read dev VER s;
        let s = (if drop_bit 16 v AND 0xFF \<ge> 4 then lapic_write dev PCINT MASKED s else s);
        let s = lapic_write dev ERROR (of_nat (IRQ_OFFSET + IRQ_ERROR)) s;
        let s = lapic_write dev ESR 0 s;
        let s = lapic_write dev ESR 0 s;
        let s = lapic_write dev EOI 0 s;
        let s = lapic_write dev ICRHI 0 s;
        let s = lapic_write dev ICRLO (BCAST OR INIT OR LEVEL) s;
        s \<leftarrow> lapic_wait dev s;
        Some (lapic_write dev TPR 0 s)
      })"

definition lapic_id :: "device \<Rightarrow> apics \<Rightarrow> u32 \<times> apics" where
  "lapic_id dev s =
     (if lapic s = 0 then (0, s)
      else let (v, s) = lapic_read dev LAPIC_ID s in (drop_bit 24 v, s))"

definition lapic_eoi :: "device \<Rightarrow> apics \<Rightarrow> apics" where
  "lapic_eoi dev s = (if lapic s \<noteq> 0 then lapic_write dev EOI 0 s else s)"

definition CMOS_PORT :: u16 where "CMOS_PORT = 0x70"
definition CMOS_RETURN :: u16 where "CMOS_RETURN = 0x71"

lemmas [port_consts] = CMOS_PORT_def CMOS_RETURN_def

text \<open>The warm reset vector is two 16-bit words of memory; its stores are part of the trace as well.\<close>

definition startup_ipi :: "device \<Rightarrow> u8 \<Rightarrow> u32 \<Rightarrow> apics \<Rightarrow> apics" where
  "startup_ipi dev apic_id addr s =
     lapic_write dev ICRLO (STARTUP OR drop_bit 12 addr)
       (lapic_write dev ICRHI (push_bit 24 (ucast apic_id)) s)"

definition lapic_startap :: "device \<Rightarrow> u8 \<Rightarrow> u32 \<Rightarrow> apics \<Rightarrow> apics" where
  "lapic_startap dev apic_id addr s =
     (let s = on_htr (outb CMOS_PORT 0xF) s;
          s = on_htr (outb (CMOS_PORT + 1) 0x0A) s;
          wrv = phys_to_virt (push_bit 4 0x40 OR 0x67);
          s = on_htr (mmio_write wrv 0) s;
          s = on_htr (mmio_write (wrv + 2) (ucast (ucast (drop_bit 4 addr) :: u16))) s;
          s = lapic_write dev ICRHI (push_bit 24 (ucast apic_id)) s;
          s = lapic_write dev ICRLO (INIT OR LEVEL OR ASSERT) s;
          s = lapic_write dev ICRLO (INIT OR LEVEL) s
      in (startup_ipi dev apic_id addr ^^ 2) s)"

section \<open>The CMOS clock\<close>

record rtc_date =
  second :: u32
  minute :: u32
  hour :: u32
  day :: u32
  month :: u32
  year :: u32

definition cmos_read :: "device \<Rightarrow> u8 \<Rightarrow> trace \<Rightarrow> u32 \<times> trace" where
  "cmos_read dev reg tr = (let (v, tr) = inb dev CMOS_RETURN (outb CMOS_PORT reg tr) in (ucast v, tr))"

definition fill_rtcdate :: "device \<Rightarrow> trace \<Rightarrow> rtc_date \<times> trace" where
  "fill_rtcdate dev tr =
     (let (sec, tr) = cmos_read dev 0x00 tr;
          (mins, tr) = cmos_read dev 0x02 tr;
          (hours, tr) = cmos_read dev 0x04 tr;
          (d, tr) = cmos_read dev 0x07 tr;
          (m, tr) = cmos_read dev 0x08 tr;
          (y, tr) = cmos_read dev 0x09 tr
      in (\<lparr>second = sec, minute = mins, hour = hours, day = d, month = m, year = y\<rparr>, tr))"

definition CMOS_UIP :: u32 where "CMOS_UIP = push_bit 7 1"

text \<open>The loop reads the clock until no update is in progress and two readings agree.\<close>

partial_function (option) cmos_stable :: "device \<Rightarrow> trace \<Rightarrow> (rtc_date \<times> trace) option" where
  "cmos_stable dev tr =
     (let (t1, tr) = fill_rtcdate dev tr;
          (a, tr) = cmos_read dev 0x0a tr
      in if a AND CMOS_UIP \<noteq> 0 then cmos_stable dev tr
         else
           let (t2, tr) = fill_rtcdate dev tr
           in if t1 = t2 then Some (t1, tr) else cmos_stable dev tr)"

declare cmos_stable.simps [code]

definition bcd_conv :: "u32 \<Rightarrow> u32" where
  "bcd_conv x = drop_bit 4 x * 10 + (x AND 0xf)"

definition cmos_time :: "device \<Rightarrow> trace \<Rightarrow> (rtc_date \<times> trace) option" where
  "cmos_time dev tr =
     do {
       let (sb, tr) = cmos_read dev 0x0b tr;
       let bcd = (sb AND push_bit 2 1 = 0);
       (t, tr) \<leftarrow> cmos_stable dev tr;
       let t = (if bcd then \<lparr>second = bcd_conv (second t), minute = bcd_conv (minute t), hour = bcd_conv (hour t),
                  day = bcd_conv (day t), month = bcd_conv (month t), year = bcd_conv (year t)\<rparr> else t);
       Some (t\<lparr>year := year t + 2000\<rparr>, tr)
     }"

section \<open>The redirection table\<close>

fun ioapic_react :: "io_event \<Rightarrow> u32 \<times> (u32 \<Rightarrow> u32) \<Rightarrow> u32 \<times> (u32 \<Rightarrow> u32)" where
  "ioapic_react (Wr (Mmio a) v) (sel, regs) =
     (if a = IOAPIC then (v, regs) else if a = IOAPIC + 16 then (sel, regs(sel := v)) else (sel, regs))"
| "ioapic_react _ c = c"

definition ioapic_regs :: "trace \<Rightarrow> u32 \<Rightarrow> u32" where
  "ioapic_regs tr = snd (fold ioapic_react tr (0, \<lambda>_. 0))"

text \<open>Register numbers of the redirection entry of an interrupt pin.\<close>

definition redir :: "nat \<Rightarrow> u32" where
  "redir i = REG_TABLE + 2 * of_nat i"

lemma redir_eq:
  assumes "i < 1000" "j < 1000"
  shows "redir i = redir j \<longleftrightarrow> i = j" "redir i \<noteq> redir j + 1"
proof -
  have "redir k = of_nat (16 + 2 * k)" for k by (simp add: redir_def REG_TABLE_def)
  moreover have "unat (of_nat (16 + 2 * k) :: u32) = 16 + 2 * k" "unat (of_nat (16 + 2 * k + 1) :: u32) = 16 + 2 * k + 1"
    if "k < 1000" for k using that by (intro unat_of_nat_u32; simp)+
  ultimately have u: "unat (redir k) = 16 + 2 * k" "unat (redir k + 1) = 16 + 2 * k + 1" if "k < 1000" for k
    using that by (simp_all add: add.commute)
  show "redir i = redir j \<longleftrightarrow> i = j"
  proof
    assume "redir i = redir j"
    from arg_cong [OF this, of unat] show "i = j" unfolding u(1) [OF assms(1)] u(1) [OF assms(2)] by simp
  qed simp
  show "redir i \<noteq> redir j + 1"
  proof
    assume "redir i = redir j + 1"
    from arg_cong [OF this, of unat] show False unfolding u(1) [OF assms(1)] u(2) [OF assms(2)] by presburger
  qed
qed

lemma ioapic_regs_simps [simp]:
  "ioapic s = IOAPIC \<Longrightarrow> ioapic_regs (htr (ioapic_write reg d s)) = (ioapic_regs (htr s))(reg := d)"
  "ioapic s = IOAPIC \<Longrightarrow> ioapic_regs (htr (snd (ioapic_read dev reg s))) = ioapic_regs (htr s)"
  "ioapic (ioapic_write reg d s) = ioapic s" "ioapic (snd (ioapic_read dev reg s)) = ioapic s"
  by (cases "fold ioapic_react (htr s) (0, \<lambda>_. 0)";
      auto simp: ioapic_regs_def ioapic_write_def ioapic_read_def on_htr_def mmio_write_def mmio_read_def Let_def
        split_beta IOAPIC_def)+

lemma ioapic_disable_regs:
  assumes "ioapic s = IOAPIC" "i < 1000"
  shows "ioapic_regs (htr (ioapic_disable i s)) (redir i) = INT_DISABLED OR (of_nat IRQ_OFFSET + of_nat i)"
    "j < 1000 \<Longrightarrow> j \<noteq> i \<Longrightarrow> ioapic_regs (htr (ioapic_disable i s)) (redir j) = ioapic_regs (htr s) (redir j)"
    "ioapic (ioapic_disable i s) = IOAPIC"
  using assms redir_eq [of i j] redir_eq [of i i] redir_eq [of j i]
  by (simp_all add: ioapic_disable_def redir_def [symmetric])

lemma ioapic_enable_regs:
  assumes "ioapic s = IOAPIC" "i < 1000"
  shows "ioapic_regs (htr (ioapic_enable i cpu s)) (redir i) = of_nat IRQ_OFFSET + of_nat i"
    "j < 1000 \<Longrightarrow> j \<noteq> i \<Longrightarrow> ioapic_regs (htr (ioapic_enable i cpu s)) (redir j) = ioapic_regs (htr s) (redir j)"
  using assms redir_eq [of i j] redir_eq [of i i] redir_eq [of j i]
  by (simp_all add: ioapic_enable_def redir_def [symmetric])

lemma fold_ioapic_disable:
  assumes "ioapic s = IOAPIC" "n \<le> 1000"
  shows "ioapic (fold ioapic_disable [0 ..< n] s) = IOAPIC \<and>
    (\<forall>j < 1000. ioapic_regs (htr (fold ioapic_disable [0 ..< n] s)) (redir j) =
      (if j < n then INT_DISABLED OR (of_nat IRQ_OFFSET + of_nat j) else ioapic_regs (htr s) (redir j)))"
  using assms(2)
proof (induction n)
  case (Suc n)
  let ?s = "fold ioapic_disable [0 ..< n] s"
  have I: "ioapic ?s = IOAPIC" "n < 1000" using Suc by simp_all
  have "ioapic_regs (htr (ioapic_disable n ?s)) (redir j) =
      (if j < Suc n then INT_DISABLED OR (of_nat IRQ_OFFSET + of_nat j) else ioapic_regs (htr s) (redir j))"
    if "j < 1000" for j
    using that Suc ioapic_disable_regs(1) [OF I] ioapic_disable_regs(2) [OF I that] by (cases "j = n") auto
  then show ?case using ioapic_disable_regs(3) [OF I] by simp
qed (use assms(1) in simp)

text \<open>After \<open>ioapic_init\<close> every pin the chip reports is masked.\<close>

lemma ioapic_init_masks:
  assumes "ioapic_init dev pgdir s = Some t"
  shows "\<exists>m < 256. ioapic t = IOAPIC \<and>
    (\<forall>j \<le> m. ioapic_regs (htr t) (redir j) = INT_DISABLED OR (of_nat IRQ_OFFSET + of_nat j)) \<and>
    (\<forall>j. m < j \<and> j < 1000 \<longrightarrow> ioapic_regs (htr t) (redir j) = ioapic_regs (htr s) (redir j))"
proof -
  obtain v where v: "kernel_map pgdir IOAPIC IOAPIC PAGE_SIZE PTE_W (hvm s) = Some v"
    using assms by (auto simp: ioapic_init_def split: Option.bind_splits)
  let ?s = "s\<lparr>hvm := v, ioapic := IOAPIC\<rparr>"
  define m where "m = unat (drop_bit 16 (fst (ioapic_read dev REG_VER ?s)) AND 0xFF)"
  let ?u = "snd (ioapic_read dev REG_ID (snd (ioapic_read dev REG_VER ?s)))"
  have t: "t = fold ioapic_disable [0 ..< m + 1] ?u"
    using assms v by (simp add: ioapic_init_def Let_def split_beta m_def)
  have "m < 256"
    unfolding m_def using unat_and_mask [of "drop_bit 16 (fst (ioapic_read dev REG_VER ?s))" 8] by simp
  moreover have "ioapic ?u = IOAPIC" by simp
  moreover have "ioapic_regs (htr ?u) = ioapic_regs (htr s)" by simp
  ultimately show ?thesis
    unfolding t using fold_ioapic_disable [of ?u "m + 1"] by (intro exI [of _ m]) (simp del: upt_Suc)
qed

section \<open>Waiting for the local APIC, and the clock\<close>

lemma bcd_conv_digits:
  assumes "n < 100"
  shows "bcd_conv (of_nat (16 * (n div 10) + n mod 10)) = of_nat n"
proof -
  have "list_all (\<lambda>n. bcd_conv (of_nat (16 * (n div 10) + n mod 10)) = of_nat n) [0 ..< 100]" by code_simp
  then show ?thesis using assms by (simp add: list_all_iff)
qed

end
