(* ===== verification/Interrupts.thy ===== *)
theory Interrupts
  imports Descriptors Timer Keyboard Apic
begin

unbundle bit_operations_syntax

text \<open>
  Interrupts, from \<^verbatim>\<open>kernel/irq.c\<close> with the initialisation of \<^verbatim>\<open>kernel/timer.c\<close> and \<^verbatim>\<open>kernel/keyboard.c\<close>: the table of
  handlers, the dispatcher and \<open>irq_init\<close>, which composes the interrupt controllers, the descriptor table, the
  clock and the keyboard.  A handler is one of the two functions the kernel registers.  Messages and dumps are
  left out.
\<close>

section \<open>Handlers\<close>

datatype irq_fn = Timer_irq | Keyboard_irq

record irqs =
  idt_array :: "gate_desc list"
  idtr :: pseudodesc
  irq_handlers :: "irq_fn option list"
  kpic :: pic_state
  kapic :: apics
  ktimers :: timers
  kcon :: console
  kshift :: u32
  pit_trace :: trace
  shell :: "nat option"
  os_start :: bool
  intr_on :: bool

definition PIC_KEYBD :: nat where "PIC_KEYBD = 1"
definition IRQ_KEYBD :: nat where "IRQ_KEYBD = IRQ_OFFSET + PIC_KEYBD"

text \<open>The test lets the number \<open>IRQ_NUM\<close> through, which is out of the bounds of the array.\<close>

definition request_irq :: "nat \<Rightarrow> irq_fn \<Rightarrow> irqs \<Rightarrow> (int \<times> irqs) option" where
  "request_irq irq fn s =
     (if irq > IRQ_NUM then Some (- EINVAL, s)
      else do {
        assert (irq < IRQ_NUM);
        Some (0, s\<lparr>irq_handlers := (irq_handlers s)[irq := Some fn]\<rparr>)
      })"

definition timer_init :: "nat \<Rightarrow> irqs \<Rightarrow> irqs option" where
  "timer_init cpu s =
     do {
       let s = s\<lparr>pit_trace := timer_pit (pit_trace s)\<rparr>;
       (_, s) \<leftarrow> request_irq IRQ_TIMER Timer_irq s;
       t \<leftarrow> timer_list_init cpu (ktimers s);
       Some (s\<lparr>ktimers := t\<rparr>)
     }"

definition keyboard_init :: "device \<Rightarrow> alloc \<Rightarrow> irqs \<Rightarrow> irqs option" where
  "keyboard_init kdev km s =
     do {
       (sh, c) \<leftarrow> keyboard_read_all_buffer kdev km (kshift s) (kcon s);
       let s = s\<lparr>kshift := sh, kcon := c\<rparr>;
       (_, s) \<leftarrow> request_irq IRQ_KEYBD Keyboard_irq s;
       Some (s\<lparr>kapic := ioapic_enable IRQ_KEYBD 0 (kapic s)\<rparr>)
     }"

definition irq_init :: "nat \<Rightarrow> u32 \<Rightarrow> device \<Rightarrow> device \<Rightarrow> alloc \<Rightarrow> u32 list \<Rightarrow> u32 \<Rightarrow> irqs \<Rightarrow> irqs option" where
  "irq_init cpu pgdir adev kdev km vectors idt_at s =
     do {
       let s = s\<lparr>kpic := pic_init False (kpic s)\<rparr>;
       a \<leftarrow> lapic_init adev (kapic s);
       a \<leftarrow> ioapic_init adev pgdir a;
       let s = s\<lparr>kapic := a\<rparr>;
       (i, r) \<leftarrow> idt_init vectors idt_at (idt_array s);
       let s = s\<lparr>idt_array := i, idtr := r\<rparr>;
       s \<leftarrow> timer_init cpu s;
       s \<leftarrow> keyboard_init kdev km s;
       Some (s\<lparr>intr_on := True\<rparr>)
     }"

definition run_handler :: "nat \<Rightarrow> device \<Rightarrow> alloc \<Rightarrow> irq_fn \<Rightarrow> irqs \<Rightarrow> irqs option" where
  "run_handler cpu kdev km fn s =
     (case fn of
        Timer_irq \<Rightarrow> do { t \<leftarrow> timer_irq_handler cpu (ktimers s); Some (s\<lparr>ktimers := t\<rparr>) }
      | Keyboard_irq \<Rightarrow>
          do {
            (sh, c) \<leftarrow> keyboard_irq_handler kdev km (kshift s) (kcon s);
            Some (s\<lparr>kshift := sh, kcon := c\<rparr>)
          })"

text \<open>
  The shell runs on processor 0; \<open>run_shell\<close> and the arguments after it are the arguments of \<open>thread_run\<close>: the
  entry routines, the new thread object and its stack, and what the allocator returns.
\<close>

definition start_new_shell ::
  "(u32 \<times> u32) \<Rightarrow> u32 \<Rightarrow> nat \<Rightarrow> (nat \<times> thread) option \<Rightarrow> u32 \<Rightarrow> alloc \<Rightarrow> bytes \<Rightarrow> nat option \<Rightarrow> nat option \<Rightarrow>
    irqs \<Rightarrow> (int \<times> irqs) option" where
  "start_new_shell entries run_shell cpu new stack km buf nd nf s =
     do {
       (t, w) \<leftarrow> thread_run entries run_shell 0 0 cpu new stack km buf nd nf (tsched (ktimers s));
       Some (0, s\<lparr>ktimers := (ktimers s)\<lparr>tsched := w\<rparr>, shell := t\<rparr>)
     }"

text \<open>
  A number without a handler is a fault of the current thread, which is ended; a new shell replaces one that
  faults.  Before the start of the system is complete the processor halts, with interrupts off in an interrupt
  gate: it does not continue.  The code behind \<open>thread_exit\<close> runs only if no other thread could be switched to.
  \<open>new_shell\<close> is \<open>start_new_shell\<close> applied to its environment.
\<close>

definition irq_handler ::
  "nat \<Rightarrow> device \<Rightarrow> device \<Rightarrow> alloc \<Rightarrow> (irqs \<Rightarrow> (int \<times> irqs) option) \<Rightarrow> nat \<Rightarrow> irqs \<Rightarrow> irqs option" where
  "irq_handler cpu adev kdev km new_shell irq s =
     (if irq > IRQ_NUM then Some s
      else do {
        assert (irq < IRQ_NUM \<and> length (irq_handlers s) = IRQ_NUM);
        case irq_handlers s ! irq of
          Some fn \<Rightarrow>
            do {
              s \<leftarrow> run_handler cpu kdev km fn s;
              Some (s\<lparr>kapic := lapic_eoi adev (kapic s)\<rparr>)
            }
        | None \<Rightarrow>
            do {
              assert (os_start s);
              let cur = current_threads (tsched (ktimers s)) cpu;
              s \<leftarrow> (if cur = shell s then do { (_, s) \<leftarrow> new_shell s; Some s } else Some s);
              w \<leftarrow> thread_exit cpu (tsched (ktimers s));
              let s = s\<lparr>ktimers := (ktimers s)\<lparr>tsched := w\<rparr>\<rparr>;
              Some (if current_threads w cpu = cur then s\<lparr>kapic := lapic_eoi adev (kapic s)\<rparr> else s)
            }
      })"

section \<open>Initialisation\<close>

text \<open>A keyboard controller without data, and a local APIC that delivers at once.\<close>

definition quiet_keyboard :: "device \<Rightarrow> bool" where
  "quiet_keyboard dev \<longleftrightarrow> (\<forall>tr. (ucast (dev tr (Port KBSTATP)) :: u8) AND KBS_DIB = 0)"

definition ready_lapic :: "device \<Rightarrow> u32 \<Rightarrow> bool" where
  "ready_lapic dev base \<longleftrightarrow> (\<forall>tr. dev tr (Mmio (base + ICRLO)) AND DELIVS = 0)"

lemma quiet_keyboard_read:
  assumes "quiet_keyboard dev"
  shows "\<exists>c'. keyboard_read_all_buffer dev km sh c = Some (sh, c') \<and> stdio_que c' = stdio_que c"
  using assms by (subst keyboard_read_all_buffer.simps)
    (simp add: keyboard_device_getc_def inb_def quiet_keyboard_def Let_def)

lemma lapic_state [simp]:
  "lapic (lapic_write dev r v s) = lapic s" "hvm (lapic_write dev r v s) = hvm s"
  "lapic (snd (lapic_read dev r s)) = lapic s" "hvm (snd (lapic_read dev r s)) = hvm s"
  by (simp_all add: lapic_write_def lapic_read_def on_htr_def mmio_read_def Let_def)

lemma lapic_init_ready:
  assumes "ready_lapic dev (lapic s)"
  shows "\<exists>s'. lapic_init dev s = Some s' \<and> hvm s' = hvm s \<and> lapic s' = lapic s"
proof -
  have w: "lapic_wait dev q = Some (snd (lapic_read dev ICRLO q))" if "lapic q = lapic s" for q
    using assms that by (subst lapic_wait.simps) (simp add: ready_lapic_def lapic_read_def mmio_read_def Let_def)
  show ?thesis
    
    by (simp add: lapic_init_def Let_def split_beta w)
qed

text \<open>The I/O APIC reports \<open>n + 1\<close> pins in its version register.\<close>

definition reports_pins :: "device \<Rightarrow> nat \<Rightarrow> bool" where
  "reports_pins dev n \<longleftrightarrow>
     (\<forall>tr. drop_bit 16 (dev (tr @ [Wr (Mmio IOAPIC) REG_VER]) (Mmio (IOAPIC + 16))) AND 0xFF = of_nat n)"

text \<open>
  One page can be mapped at an address outside the self-mapped slot: the table of its slot is present, or there is a
  linear page for a new one.
\<close>

definition mappable :: "nat \<Rightarrow> vm \<Rightarrow> u32 \<Rightarrow> bool" where
  "mappable pgd v va \<longleftrightarrow> \<not> self_mapped pgd v (unat va div 4096) \<and>
     (tab pgd v (pde_index va) \<noteq> None \<or> (\<exists>k \<le> page_MAX_ORDER. \<not> list_empty (get_free_list GFP_NORMAL k) (plists (vps v))))"

lemma kernel_map_page_returns:
  assumes I: "pt_inv S sl pgd v A" and m: "mappable pgd v va"
  shows "\<exists>t. kernel_map (page_to_virt pgd) va pa PAGE_SIZE flag v = Some t"
proof -
  have z: "unat PAGE_SIZE \<le> 0xFFFFF000" "page_count PAGE_SIZE = 1" by (simp_all add: PAGE_SIZE_def page_count_def)
  have i: "pde_index (round_down_page va) = pde_index va"
    unfolding index_eqs(1) unat_round_down_page by simp
  have "tab pgd v (pde_index va) \<noteq> Some pgd" using m by (simp add: mappable_def self_mapped_def index_eqs(1))
  from get_pte_write [OF I this [folded i]] have "\<exists>x. get_pte (page_to_virt pgd) (round_down_page va) v = Some x"
    using m get_pte_present [of pgd v "round_down_page va"] unfolding mappable_def i by blast
  then show ?thesis unfolding kernel_map_def page_map_eq(1) [OF z(1)] z(2) by (auto simp: numeral_eq_Suc)
qed

lemma ioapic_init_pins:
  assumes d: "reports_pins dev n" "n < 256" and p: "pt_inv S sl pgd (hvm s) A" "mappable pgd (hvm s) IOAPIC"
  shows "\<exists>t. ioapic_init dev (page_to_virt pgd) s = Some t \<and> ioapic t = IOAPIC \<and> lapic t = lapic s \<and>
    (\<forall>j \<le> n. ioapic_regs (htr t) (redir j) = INT_DISABLED OR (of_nat IRQ_OFFSET + of_nat j))"
proof -
  obtain v where v: "kernel_map (page_to_virt pgd) IOAPIC IOAPIC PAGE_SIZE PTE_W (hvm s) = Some v"
    using kernel_map_page_returns [OF p] by blast
  let ?s = "s\<lparr>hvm := v, ioapic := IOAPIC\<rparr>"
  let ?u = "snd (ioapic_read dev REG_ID (snd (ioapic_read dev REG_VER ?s)))"
  have "unat (drop_bit 16 (fst (ioapic_read dev REG_VER ?s)) AND 0xFF) = n"
    using d by (simp add: ioapic_read_def on_htr_def mmio_write_def mmio_read_def Let_def reports_pins_def unat_of_nat)
  then have "ioapic_init dev (page_to_virt pgd) s = Some (fold ioapic_disable [0 ..< n + 1] ?u)"
    using v by (simp add: ioapic_init_def Let_def split_beta)
  moreover have "lapic (ioapic_disable i q) = lapic q" for i q
    by (simp add: ioapic_disable_def ioapic_write_def on_htr_def)
  then have "lapic (fold ioapic_disable xs q) = lapic q" for xs q by (induction xs arbitrary: q) simp_all
  moreover have "lapic ?u = lapic s" by (simp add: ioapic_read_def on_htr_def mmio_read_def Let_def)
  ultimately show ?thesis
    using fold_ioapic_disable [of ?u "n + 1"] d(2) by (simp del: upt_Suc)
qed

text \<open>
  C32: \<^const>\<open>irq_init\<close>, on a well formed page directory in which the page of the I/O APIC can be mapped, with a
  local APIC that delivers at once, an I/O APIC of at most 256 pins, initialised 8259 chips and an empty keyboard
  controller, returns with interrupts on, the handlers of the clock and of the keyboard registered and
  both 8259 chips and every reported pin of the I/O APIC other than 33 masked.  In particular pin 1, the keyboard, stays masked: the
  last call enables the redirection entry 33 instead.
\<close>

theorem irq_init_spec:
  assumes "cpu < MAX_CPU" "pt_inv S sl pgd (hvm (kapic s)) A" "mappable pgd (hvm (kapic s)) IOAPIC"
    and "ready_lapic adev (lapic (kapic s))"
    and "reports_pins adev n" "n < 256" "quiet_keyboard kdev"
    and "65 < length vectors" "length (idt_array s) = IRQ_NUM"
    and "phase (pic_chip_after IO_PIC1 (pic_trace (kpic s)) c1) = Ready" "phase (pic_chip_after IO_PIC2 (pic_trace (kpic s)) c2) = Ready"
  shows "\<exists>s'. irq_init cpu (page_to_virt pgd) adev kdev km vectors idt_at s = Some s' \<and> intr_on s' \<and>
    irq_handlers s' = (irq_handlers s)[32 := Some Timer_irq, 33 := Some Keyboard_irq] \<and>
    imr (pic_chip_after IO_PIC1 (pic_trace (kpic s')) c1) = 0xFF \<and> imr (pic_chip_after IO_PIC2 (pic_trace (kpic s')) c2) = 0xFF \<and>
    (\<forall>j \<le> n. j \<noteq> 33 \<longrightarrow> bit (ioapic_regs (htr (kapic s')) (redir j)) 16)"
proof -
  obtain a where a: "lapic_init adev (kapic s) = Some a" "hvm a = hvm (kapic s)"
    using lapic_init_ready [OF assms(4)] by blast
  obtain b where b: "ioapic_init adev (page_to_virt pgd) a = Some b" "ioapic b = IOAPIC"
      "\<And>j. j \<le> n \<Longrightarrow> ioapic_regs (htr b) (redir j) = INT_DISABLED OR (of_nat IRQ_OFFSET + of_nat j)"
    using ioapic_init_pins [OF assms(5,6), of S sl pgd a A] assms(2,3) a(2) by auto
  obtain i r where i: "idt_init vectors idt_at (idt_array s) = Some (i, r)" using assms(8,9) by (simp add: idt_init_def)
  obtain c where c: "keyboard_read_all_buffer kdev km (kshift s) (kcon s) = Some (kshift s, c)"
    using quiet_keyboard_read [OF assms(7)] by blast
  have n: "IRQ_TIMER = 32" "IRQ_KEYBD = 33" "\<not> IRQ_NUM < 32" "\<not> IRQ_NUM < 33" "32 < IRQ_NUM" "33 < IRQ_NUM"
    by (simp_all add: IRQ_TIMER_def IRQ_KEYBD_def PIC_TIMER_def PIC_KEYBD_def IRQ_OFFSET_def IRQ_NUM_def)
  let ?t = "(ktimers s)\<lparr>tnodes := list_init (Tl_head cpu) (tnodes (ktimers s))\<rparr>"
  let ?s = "s\<lparr>kpic := pic_init False (kpic s), kapic := ioapic_enable 33 0 b, idt_array := i, idtr := r, pit_trace := timer_pit (pit_trace s),
    irq_handlers := (irq_handlers s)[32 := Some Timer_irq, 33 := Some Keyboard_irq], ktimers := ?t, kcon := c, intr_on := True\<rparr>"
  have "irq_init cpu (page_to_virt pgd) adev kdev km vectors idt_at s = Some ?s"
    unfolding irq_init_def timer_init_def keyboard_init_def request_irq_def timer_list_init_def n
    using assms(1) a(1) b(1) i c n by simp
  moreover have "bit (ioapic_regs (htr (ioapic_enable 33 0 b)) (redir j)) 16" if "j \<le> n" "j \<noteq> 33" for j
    using ioapic_enable_regs(2) [OF b(2), of 33 j 0] b(3) [OF that(1)] that assms(6)
    by (simp add: INT_DISABLED_def bit_or_iff)
  ultimately show ?thesis using pic_init_off [OF assms(10,11)] by (intro exI [of _ ?s]) simp
qed

definition irqs_bss :: "vm \<Rightarrow> irqs" where
  "irqs_bss v = \<lparr>idt_array = replicate 256 (set_gate 0 0 0 0), idtr = \<lparr>pd_lim = 0, pd_base = 0\<rparr>, irq_handlers = replicate 256 None, kpic = pic_boot,
     kapic = \<lparr>hvm = v, htr = [], ioapic = 0, ioapic_id = 0, lapic = 0xFEE00000\<rparr>,
     ktimers = no_timers, kcon = \<lparr>con_trace = [], pr_lock = \<lparr>counter = 0\<rparr>, stdio_que = None, out_index = 0, out_buf = (\<lambda>_. [])\<rparr>,
     kshift = 0, pit_trace = [], shell = None, os_start = False, intr_on = False\<rparr>"

definition ioapic_24 :: device where
  "ioapic_24 tr a = (if a = Mmio (IOAPIC + 16) then 0x170011 else 0)"

theorem irq_init_spec_witness:
  "\<exists>p v s. irq_init 0 (page_to_virt p) ioapic_24 (\<lambda>_ _. 0) (\<lambda>_. None) (replicate 66 0xC0100000) 0xC0110000 (irqs_bss v) = Some s \<and>
     irq_handlers s ! 33 = Some Keyboard_irq \<and> bit (ioapic_regs (htr (kapic s)) (redir 1)) 16"
proof -
  obtain p qs k where b: "pt_inv {} (\<lambda>_. []) p (fresh_vm 0 qs) {p}"
    "k \<le> page_MAX_ORDER" "\<not> list_empty (get_free_list GFP_NORMAL k) (plists qs)"
    using pt_boot by blast
  let ?s = "irqs_bss (fresh_vm 0 qs)"
  have h: "hvm (kapic ?s) = fresh_vm 0 qs" by (simp add: irqs_bss_def)
  have p: "pt_inv {} (\<lambda>_. []) p (hvm (kapic ?s)) {p}" "mappable p (hvm (kapic ?s)) IOAPIC"
    unfolding h using b by (auto simp: mappable_def self_mapped_def fresh_vm_tab)
  have l: "ready_lapic ioapic_24 (lapic (kapic ?s))"
    by (simp add: ready_lapic_def ioapic_24_def irqs_bss_def IOAPIC_def ICRLO_def)
  have r: "reports_pins ioapic_24 23" by (simp add: reports_pins_def ioapic_24_def)
  have q: "quiet_keyboard (\<lambda>_ _. 0)" by (simp add: quiet_keyboard_def)
  have i: "length (idt_array ?s) = IRQ_NUM" "length (irq_handlers ?s) = 256" by (simp_all add: irqs_bss_def IRQ_NUM_def)
  have t: "pic_trace (kpic ?s) = []" by (simp add: irqs_bss_def pic_boot_def)
  let ?c = "\<lparr>phase = Ready, vector_base = 0, cascade = 0, mode = 0, imr = 0\<rparr>"
  have "\<exists>s. irq_init 0 (page_to_virt p) ioapic_24 (\<lambda>_ _. 0) (\<lambda>_. None) (replicate 66 0xC0100000) 0xC0110000 ?s = Some s \<and>
     irq_handlers s ! 33 = Some Keyboard_irq \<and> bit (ioapic_regs (htr (kapic s)) (redir 1)) 16"
    using irq_init_spec [OF _ p l r _ q, of 0 "replicate 66 0xC0100000" ?c ?c "\<lambda>_. None" "0xC0110000"] i t by (force simp: MAX_CPU_def)
  then show ?thesis by blast
qed

text \<open>
  An interrupt number without a handler ends the thread that caused it, with the effect of \<open>thread_exit\<close> on the
  scheduler, unless the thread is the shell; the clock and the other devices are not touched.
\<close>

lemma irq_handler_fault:
  assumes "irq < IRQ_NUM" "length (irq_handlers s) = IRQ_NUM" "irq_handlers s ! irq = None" "os_start s"
    and "current_threads (tsched (ktimers s)) cpu \<noteq> shell s" "thread_exit cpu (tsched (ktimers s)) = Some w"
    and "current_threads w cpu \<noteq> current_threads (tsched (ktimers s)) cpu"
  shows "irq_handler cpu adev kdev km new_shell irq s = Some (s\<lparr>ktimers := (ktimers s)\<lparr>tsched := w\<rparr>\<rparr>)"
  using assms by (simp add: irq_handler_def Let_def)

lemma irq_handler_bound: "irq_handler cpu adev kdev km new_shell IRQ_NUM s = None" "request_irq IRQ_NUM fn s = None"
  by (simp_all add: irq_handler_def request_irq_def)

end
