(* ===== verification/Smp.thy ===== *)
theory Smp
  imports Mem_Fields Interrupts
begin

unbundle bit_operations_syntax

text \<open>
  The search for processors in the tables of the firmware and the start of another processor, from \<^verbatim>\<open>kernel/smp.c\<close>.
  The tables are bytes of memory; the fields of the structures of \<^verbatim>\<open>include/smp.h\<close> are read at their offsets.  Log messages,
  and the strings built for them, are left out.
\<close>

section \<open>State and tables\<close>

record cpu =
  cpu_no :: int
  cpu_init :: bool
  started :: bool
  processor :: u32

record smp =
  smp_on :: bool
  cpus :: "nat \<Rightarrow> cpu"
  sapic :: apics

definition ROM_BASE :: u32 where "ROM_BASE = 0xF0000"
definition ROM_SIZE :: u32 where "ROM_SIZE = 0x10000"
definition ROM_ENTITY_SIZE :: u32 where "ROM_ENTITY_SIZE = 0x10"
definition MP_ENTRY_TYPE_PROCESSOR :: u8 where "MP_ENTRY_TYPE_PROCESSOR = 0"
definition MP_ENTRY_TYPE_BUS :: u8 where "MP_ENTRY_TYPE_BUS = 1"
definition MP_ENTRY_TYPE_IOAPIC :: u8 where "MP_ENTRY_TYPE_IOAPIC = 2"
definition MP_ENTRY_TYPE_IOINTR :: u8 where "MP_ENTRY_TYPE_IOINTR = 3"
definition MP_ENTRY_TYPE_LINTR :: u8 where "MP_ENTRY_TYPE_LINTR = 4"

lemmas mp_consts = ROM_BASE_def ROM_SIZE_def ROM_ENTITY_SIZE_def MP_ENTRY_TYPE_PROCESSOR_def MP_ENTRY_TYPE_BUS_def
  MP_ENTRY_TYPE_IOAPIC_def MP_ENTRY_TYPE_IOINTR_def MP_ENTRY_TYPE_LINTR_def

text \<open>\<open>struct mp\<close> and \<open>struct mp_config\<close>: the address of the structure is the first argument.\<close>

definition mp_confg_addr :: "u32 \<Rightarrow> mem \<Rightarrow> u32" where "mp_confg_addr mp m = get_u32 m (mp + 4)"
definition mp_imcrp :: "u32 \<Rightarrow> mem \<Rightarrow> bool" where "mp_imcrp mp m = bit (m (mp + 12)) 7"
definition config_length :: "u32 \<Rightarrow> mem \<Rightarrow> u16" where "config_length c m = get_u16 m (c + 4)"
definition config_lapic_addr :: "u32 \<Rightarrow> mem \<Rightarrow> u32" where "config_lapic_addr c m = get_u32 m (c + 36)"
definition sizeof_mp_config :: u32 where "sizeof_mp_config = 44"
definition sizeof_mp_processor :: u32 where "sizeof_mp_processor = 20"
definition sizeof_mp_bus :: u32 where "sizeof_mp_bus = 8"
definition sizeof_mp_ioapic :: u32 where "sizeof_mp_ioapic = 8"
definition sizeof_mp_iointr :: u32 where "sizeof_mp_iointr = 8"
definition sizeof_mp_lintr :: u32 where "sizeof_mp_lintr = 8"
definition processor_lapic_id :: "u32 \<Rightarrow> mem \<Rightarrow> u8" where "processor_lapic_id p m = m (p + 1)"
definition mp_ioapic_id :: "u32 \<Rightarrow> mem \<Rightarrow> u8" where "mp_ioapic_id p m = m (p + 1)"

lemmas mp_sizes = sizeof_mp_config_def sizeof_mp_processor_def sizeof_mp_bus_def sizeof_mp_ioapic_def
  sizeof_mp_iointr_def sizeof_mp_lintr_def

definition signature_at :: "mem \<Rightarrow> u32 \<Rightarrow> string \<Rightarrow> bool" where
  "signature_at m a s \<longleftrightarrow> mseg m a 4 = map of_char s"

section \<open>Operations\<close>

definition cpu_id :: "device \<Rightarrow> smp \<Rightarrow> u32 \<times> smp" where
  "cpu_id dev s =
     (if \<not> smp_on s then (0, s)
      else let (i, a) = lapic_id dev (sapic s) in (i, s\<lparr>sapic := a\<rparr>))"

text \<open>The null pointer is \<open>None\<close>; an element out of the bounds of \<open>cpus\<close> is an error.\<close>

definition this_cpu :: "device \<Rightarrow> smp \<Rightarrow> (nat option \<times> smp) option" where
  "this_cpu dev s =
     (if \<not> smp_on s then Some (None, s)
      else let (i, s) = cpu_id dev s in do { assert (unat i < MAX_CPU); Some (Some (unat i), s) })"

partial_function (option) mp_search_loop :: "mem \<Rightarrow> u32 \<Rightarrow> u32 \<Rightarrow> u32 option option" where
  "mp_search_loop m virt offset =
     (if offset < ROM_SIZE then
        let mp = virt + offset
        in if signature_at m mp ''_MP_'' then Some (Some mp)
           else mp_search_loop m virt (offset + ROM_ENTITY_SIZE)
      else Some None)"

definition mp_search :: "mem \<Rightarrow> u32 option option" where
  "mp_search m = mp_search_loop m (phys_to_virt ROM_BASE) 0"

text \<open>
  \<open>iointr\<close> is the pointer to the last I/O interrupt entry, uninitialised before the first one; the entry of a local
  interrupt is reported through it.  A processor with a number that is too large does not advance the loop.
\<close>

partial_function (option) scan_mp_entry_loop ::
  "mem \<Rightarrow> u32 \<Rightarrow> u32 \<Rightarrow> u32 option \<Rightarrow> smp \<Rightarrow> (int \<times> smp) option" where
  "scan_mp_entry_loop m p e iointr s =
     (if p < e then
        if m p = MP_ENTRY_TYPE_PROCESSOR then
          let i = unat (processor_lapic_id p m)
          in if i \<ge> MAX_CPU then scan_mp_entry_loop m p e iointr s
             else
               let c = (cpus s i)\<lparr>cpu_no := int i, started := False, cpu_init := True, processor := p\<rparr>
               in scan_mp_entry_loop m (p + sizeof_mp_processor) e iointr (s\<lparr>cpus := (cpus s)(i := c)\<rparr>)
        else if m p = MP_ENTRY_TYPE_BUS then scan_mp_entry_loop m (p + sizeof_mp_bus) e iointr s
        else if m p = MP_ENTRY_TYPE_IOAPIC then
          scan_mp_entry_loop m (p + sizeof_mp_ioapic) e iointr (s\<lparr>sapic := (sapic s)\<lparr>ioapic_id := mp_ioapic_id p m\<rparr>\<rparr>)
        else if m p = MP_ENTRY_TYPE_IOINTR then scan_mp_entry_loop m (p + sizeof_mp_iointr) e (Some p) s
        else if m p = MP_ENTRY_TYPE_LINTR then
          do { _ \<leftarrow> iointr; scan_mp_entry_loop m (p + sizeof_mp_lintr) e iointr s }
        else Some (- ENODEV, s)
      else Some (0, s))"

definition scan_mp_entry :: "mem \<Rightarrow> u32 \<Rightarrow> u32 \<Rightarrow> smp \<Rightarrow> (int \<times> smp) option" where
  "scan_mp_entry m start e s = scan_mp_entry_loop m start e None s"

definition smp_init :: "mem \<Rightarrow> device \<Rightarrow> u32 \<Rightarrow> smp \<Rightarrow> (int \<times> smp) option" where
  "smp_init m dev pgdir s =
     do {
       mp \<leftarrow> mp_search m;
       case mp of None \<Rightarrow> Some (- ENOENT, s)
       | Some mp \<Rightarrow>
           let config = phys_to_virt (mp_confg_addr mp m)
           in if \<not> signature_at m config ''PCMP'' then Some (- EINVAL, s)
              else do {
                let base = config_lapic_addr config m;
                v \<leftarrow> page_map pgdir base base PAGE_SIZE PTE_W (hvm (sapic s));
                let s = s\<lparr>sapic := (sapic s)\<lparr>lapic := base, hvm := v\<rparr>\<rparr>;
                (_, s) \<leftarrow> scan_mp_entry m (config + sizeof_mp_config) (config + ucast (config_length config m)) s;
                let s = (if mp_imcrp mp m then
                           let a = on_htr (outb 0x22 0x70) (sapic s);
                               (v, tr) = inb dev 0x23 (htr a)
                           in s\<lparr>sapic := a\<lparr>htr := outb 0x23 (v OR 1) tr\<rparr>\<rparr>
                         else s);
                Some (0, s\<lparr>smp_on := True\<rparr>)
              }
     }"

text \<open>
  Starting a processor.  While the loop waits, the other processors run: what they do to the state is the
  argument \<open>others\<close>.
\<close>

partial_function (option) cpu_up_wait :: "(smp \<Rightarrow> smp) \<Rightarrow> nat \<Rightarrow> smp \<Rightarrow> smp option" where
  "cpu_up_wait others c s = (if \<not> started (cpus s c) then cpu_up_wait others c (others s) else Some s)"

definition cpu_up :: "mem \<Rightarrow> device \<Rightarrow> (smp \<Rightarrow> smp) \<Rightarrow> nat \<Rightarrow> smp \<Rightarrow> (int \<times> smp) option" where
  "cpu_up m dev others cpu s =
     (if cpu \<ge> MAX_CPU then Some (- ENODEV, s)
      else if \<not> cpu_init (cpus s cpu) then Some (- EINVAL, s)
      else do {
        let id = processor_lapic_id (processor (cpus s cpu)) m;
        assert (cpu_no (cpus s cpu) = uint id);
        let s = s\<lparr>sapic := lapic_startap dev id (virt_to_phys (phys_to_virt 0x5000)) (sapic s)\<rparr>;
        s \<leftarrow> cpu_up_wait others cpu s;
        Some (0, s)
      })"

declare mp_search_loop.simps [code] scan_mp_entry_loop.simps [code] cpu_up_wait.simps [code]

section \<open>Searching for the table\<close>

text \<open>The search returns the first of the 4096 paragraphs of the area that has the signature.\<close>

lemma mp_search_loop_find:
  assumes "k \<le> 4096"
  shows "mp_search_loop m virt (of_nat (16 * k)) =
    Some (map_option (\<lambda>j. virt + of_nat (16 * j)) (find (\<lambda>j. signature_at m (virt + of_nat (16 * j)) ''_MP_'') [k ..< 4096]))"
  using assms
proof (induction "4096 - k" arbitrary: k)
  case 0
  then show ?case by (subst mp_search_loop.simps) (simp add: mp_consts)
next
  case (Suc n)
  then have k: "k < 4096" by simp
  then have "unat (of_nat (16 * k) :: u32) = 16 * k" by (intro unat_of_nat_u32) simp
  then have lt: "(of_nat (16 * k) :: u32) < ROM_SIZE"
    unfolding word_less_nat_alt ROM_SIZE_def using k by simp
  have nx: "(of_nat (16 * k) :: u32) + ROM_ENTITY_SIZE = of_nat (16 * Suc k)" by (simp add: ROM_ENTITY_SIZE_def)
  have "[k ..< 4096] = k # [Suc k ..< 4096]" using k by (rule upt_conv_Cons)
  then show ?case
    using lt Suc.hyps(1) [of "Suc k"] Suc.hyps(2) k
    by (subst mp_search_loop.simps) (simp only: Let_def nx find.simps if_True, simp del: of_nat_mult upt_Suc upt_rec_numeral)
qed

lemma mp_search_find:
  "mp_search m = Some (map_option (\<lambda>j. phys_to_virt ROM_BASE + of_nat (16 * j))
     (find (\<lambda>j. signature_at m (phys_to_virt ROM_BASE + of_nat (16 * j)) ''_MP_'') [0 ..< 4096]))"
  using mp_search_loop_find [of 0 m "phys_to_virt ROM_BASE"] by (simp add: mp_search_def del: of_nat_mult upt_Suc upt_rec_numeral)

section \<open>Scanning the configuration table\<close>

text \<open>
  A well-formed table is a list of entries, one behind the other; a processor and an I/O APIC entry carry a
  number.  A local interrupt entry must come after an I/O interrupt entry (\<open>lintr_ok\<close>), a processor number must be
  below eight.
\<close>

datatype mp_entry = Cpu_entry u8 | Bus_entry | Ioapic_entry u8 | Iointr_entry | Lintr_entry

fun esize :: "mp_entry \<Rightarrow> nat" where
  "esize (Cpu_entry _) = 20"
| "esize _ = 8"

fun entry_at :: "mem \<Rightarrow> u32 \<Rightarrow> mp_entry \<Rightarrow> bool" where
  "entry_at m p (Cpu_entry i) \<longleftrightarrow> m p = 0 \<and> m (p + 1) = i"
| "entry_at m p Bus_entry \<longleftrightarrow> m p = 1"
| "entry_at m p (Ioapic_entry i) \<longleftrightarrow> m p = 2 \<and> m (p + 1) = i"
| "entry_at m p Iointr_entry \<longleftrightarrow> m p = 3"
| "entry_at m p Lintr_entry \<longleftrightarrow> m p = 4"

fun entries_at :: "mem \<Rightarrow> u32 \<Rightarrow> mp_entry list \<Rightarrow> u32 \<Rightarrow> bool" where
  "entries_at m p [] e \<longleftrightarrow> p = e"
| "entries_at m p (x # xs) e \<longleftrightarrow> entry_at m p x \<and> unat p + esize x < 2 ^ 32 \<and> entries_at m (p + of_nat (esize x)) xs e"

fun lintr_ok :: "bool \<Rightarrow> mp_entry list \<Rightarrow> bool" where
  "lintr_ok b [] \<longleftrightarrow> True"
| "lintr_ok b (x # xs) \<longleftrightarrow> (x = Lintr_entry \<longrightarrow> b) \<and> lintr_ok (b \<or> x = Iointr_entry) xs"

definition cpus_ok :: "mp_entry list \<Rightarrow> bool" where
  "cpus_ok xs \<longleftrightarrow> (\<forall>i. Cpu_entry i \<in> set xs \<longrightarrow> unat i < MAX_CPU)"

definition registered :: "mem \<Rightarrow> mp_entry list \<Rightarrow> smp \<Rightarrow> smp \<Rightarrow> bool" where
  "registered m xs s s' \<longleftrightarrow>
     (\<forall>i < MAX_CPU.
        if Cpu_entry (of_nat i) \<in> set xs
        then cpu_no (cpus s' i) = int i \<and> cpu_init (cpus s' i) \<and> \<not> started (cpus s' i) \<and>
             processor_lapic_id (processor (cpus s' i)) m = of_nat i
        else cpus s' i = cpus s i)"

lemma other_entry:
  assumes "\<And>i. x \<noteq> Cpu_entry i"
  shows "cpus_ok (x # xs) = cpus_ok xs" "registered m (x # xs) s s' = registered m xs s s'"
  using assms by (auto simp: cpus_ok_def registered_def)

lemma registered_apic: "registered m xs (s\<lparr>sapic := a\<rparr>) s' = registered m xs s s'"
  by (simp add: registered_def)

lemma entries_lt: "entries_at m p xs e \<Longrightarrow> unat p + sum_list (map esize xs) = unat e"
proof (induction xs arbitrary: p)
  case (Cons x xs)
  then have "unat (p + of_nat (esize x)) = unat p + esize x" by (auto intro: addr_unat)
  then show ?case using Cons.IH [of "p + of_nat (esize x)"] Cons.prems by simp
qed simp

lemma entries_cons_lt:
  assumes "entries_at m p (x # xs) e"
  shows "p < e"
  using entries_lt [OF assms] by (cases x) (simp_all add: word_less_nat_alt)

text \<open>The loop stays where it is at a processor with a number that is too large.\<close>

lemma scan_stuck:
  assumes "p < e" "m p = MP_ENTRY_TYPE_PROCESSOR" "unat (processor_lapic_id p m) \<ge> MAX_CPU"
  shows "scan_mp_entry_loop m p e q s = None"
proof (rule ccontr)
  assume "scan_mp_entry_loop m p e q s \<noteq> None"
  then obtain r where "scan_mp_entry_loop m p e q s = Some r" by blast
  then show False using assms
  proof (induction m p e q s r rule: scan_mp_entry_loop.raw_induct [rotated, consumes 1, case_names step])
    case (step rec m p e q s r)
    then have "rec m p e q s = Some r" by (simp add: Let_def)
    from step.IH [OF this step.prems] show False .
  qed
qed

lemma scan_entries:
  assumes "entries_at m p xs e"
  shows "if cpus_ok xs \<and> lintr_ok (q \<noteq> None) xs
    then \<exists>s'. scan_mp_entry_loop m p e q s = Some (0, s') \<and> registered m xs s s'
    else scan_mp_entry_loop m p e q s = None"
  using assms
proof (induction xs arbitrary: p q s)
  case Nil
  then show ?case by (subst scan_mp_entry_loop.simps) (simp add: cpus_ok_def registered_def)
next
  case (Cons x xs)
  have lt: "p < e" by (rule entries_cons_lt [OF Cons.prems])
  have next_at: "entries_at m (p + of_nat (esize x)) xs e" using Cons.prems by simp
  note IH = Cons.IH [OF next_at]
  show ?case
  proof (cases x)
    case (Cpu_entry i)
    then have at: "m p = 0" "m (p + 1) = i" using Cons.prems by simp_all
    show ?thesis
    proof (cases "unat i < MAX_CPU")
      case True
      let ?c = "(cpus s (unat i))\<lparr>cpu_no := int (unat i), started := False, cpu_init := True, processor := p\<rparr>"
      let ?s = "s\<lparr>cpus := (cpus s)(unat i := ?c)\<rparr>"
      have "scan_mp_entry_loop m p e q s = scan_mp_entry_loop m (p + 20) e q ?s"
        using lt at True by (subst scan_mp_entry_loop.simps) (simp add: mp_consts mp_sizes processor_lapic_id_def Let_def)
      moreover have "registered m (x # xs) s s'" if "registered m xs ?s s'" for s'
        unfolding registered_def
      proof (intro allI impI)
        fix j assume j: "j < MAX_CPU"
        have ij: "i = of_nat j \<longleftrightarrow> unat i = j"
          using j by (auto simp: MAX_CPU_def unat_of_nat word_unat_eq_iff)
        show "if Cpu_entry (of_nat j) \<in> set (x # xs)
            then cpu_no (cpus s' j) = int j \<and> cpu_init (cpus s' j) \<and> \<not> started (cpus s' j) \<and>
              processor_lapic_id (processor (cpus s' j)) m = of_nat j
            else cpus s' j = cpus s j"
          using that [unfolded registered_def, rule_format, OF j] ij at Cpu_entry
          by (cases "Cpu_entry (of_nat j) \<in> set xs"; cases "unat i = j") (auto simp: processor_lapic_id_def)
      qed
      moreover have "cpus_ok (x # xs) \<longleftrightarrow> cpus_ok xs" "lintr_ok (q \<noteq> None) (x # xs) \<longleftrightarrow> lintr_ok (q \<noteq> None) xs"
        using Cpu_entry True by (auto simp: cpus_ok_def)
      moreover have "p + of_nat (esize x) = p + 20" using Cpu_entry by simp
      ultimately show ?thesis using IH [of q ?s] by (simp only: split: if_splits, blast, simp)
    next
      case False
      then have "scan_mp_entry_loop m p e q s = None"
        by (intro scan_stuck) (simp_all add: lt at mp_consts processor_lapic_id_def)
      moreover have "\<not> cpus_ok (x # xs)" using False Cpu_entry by (auto simp: cpus_ok_def)
      ultimately show ?thesis by simp
    qed
  next
    case Bus_entry
    then have "scan_mp_entry_loop m p e q s = scan_mp_entry_loop m (p + 8) e q s"
      using lt Cons.prems by (subst scan_mp_entry_loop.simps) (simp add: mp_consts mp_sizes)
    then show ?thesis using IH [of q s] Bus_entry by (simp add: other_entry registered_apic split: if_splits)
  next
    case (Ioapic_entry i)
    let ?s = "s\<lparr>sapic := (sapic s)\<lparr>ioapic_id := mp_ioapic_id p m\<rparr>\<rparr>"
    have "scan_mp_entry_loop m p e q s = scan_mp_entry_loop m (p + 8) e q ?s"
      using lt Cons.prems Ioapic_entry by (subst scan_mp_entry_loop.simps) (simp add: mp_consts mp_sizes)
    then show ?thesis using IH [of q ?s] Ioapic_entry by (simp add: other_entry registered_apic split: if_splits)
  next
    case Iointr_entry
    then have "scan_mp_entry_loop m p e q s = scan_mp_entry_loop m (p + 8) e (Some p) s"
      using lt Cons.prems by (subst scan_mp_entry_loop.simps) (simp add: mp_consts mp_sizes)
    then show ?thesis using IH [of "Some p" s] Iointr_entry by (simp add: other_entry registered_apic split: if_splits)
  next
    case Lintr_entry
    then have "scan_mp_entry_loop m p e q s = (if q = None then None else scan_mp_entry_loop m (p + 8) e q s)"
      using lt Cons.prems by (subst scan_mp_entry_loop.simps) (auto simp: mp_consts mp_sizes)
    then show ?thesis using IH [of q s] Lintr_entry by (simp add: other_entry registered_apic split: if_splits)
  qed
qed

text \<open>
  C37: on a well-formed table \<^const>\<open>scan_mp_entry\<close> returns exactly when every processor number is below eight and a
  local interrupt entry comes only after an I/O interrupt entry.  Then it returns 0 and exactly the processors of
  the table are registered, not started, each with an entry that carries its number, as \<^const>\<open>cpu_up\<close> asserts.
  Otherwise it reads through an uninitialised pointer or loops for ever.
\<close>

theorem scan_mp_entry_spec:
  assumes "entries_at m start xs e"
  shows "if (\<forall>i. Cpu_entry i \<in> set xs \<longrightarrow> unat i < MAX_CPU) \<and> lintr_ok False xs
    then \<exists>s'. scan_mp_entry m start e s = Some (0, s') \<and>
      (\<forall>i < MAX_CPU.
        if Cpu_entry (of_nat i) \<in> set xs
        then cpu_no (cpus s' i) = int i \<and> cpu_init (cpus s' i) \<and> \<not> started (cpus s' i) \<and>
             processor_lapic_id (processor (cpus s' i)) m = of_nat i
        else cpus s' i = cpus s i)
    else scan_mp_entry m start e s = None"
  using scan_entries [OF assms, of None s, unfolded cpus_ok_def registered_def]
  unfolding scan_mp_entry_def by (simp only: simp_thms)

text \<open>The witness table has the processors 0 and 1, an I/O APIC and an interrupt of each kind.\<close>

definition mp_table :: mem where
  "mp_table = (\<lambda>_. 0)(21 := 1, 40 := 2, 41 := 5, 48 := 3, 56 := 4)"

definition smp_bss :: smp where
  "smp_bss = \<lparr>smp_on = False, cpus = (\<lambda>_. \<lparr>cpu_no = 0, cpu_init = False, started = False, processor = 0\<rparr>),
     sapic = kapic (irqs_bss (fresh_vm 0 (page_bss 1024)))\<rparr>"

theorem scan_mp_entry_spec_witness:
  "\<exists>s. scan_mp_entry mp_table 0 64 smp_bss = Some (0, s) \<and> cpu_init (cpus s 1) \<and> \<not> cpu_init (cpus s 2)"
proof -
  let ?xs = "[Cpu_entry 0, Cpu_entry 1, Ioapic_entry 5, Iointr_entry, Lintr_entry]"
  have e: "entries_at mp_table 0 ?xs 64" by (simp add: mp_table_def)
  have m: "Cpu_entry (of_nat 1) \<in> set ?xs" "Cpu_entry (of_nat 2) \<notin> set ?xs" by simp_all
  have "(\<forall>i. Cpu_entry i \<in> set ?xs \<longrightarrow> unat i < MAX_CPU) \<and> lintr_ok False ?xs" by (auto simp: MAX_CPU_def)
  with scan_mp_entry_spec [OF e, of smp_bss] obtain s where s: "scan_mp_entry mp_table 0 64 smp_bss = Some (0, s)"
    "\<And>i. i < MAX_CPU \<Longrightarrow> Cpu_entry (of_nat i) \<in> set ?xs \<Longrightarrow> cpu_init (cpus s i)"
    "\<And>i. i < MAX_CPU \<Longrightarrow> Cpu_entry (of_nat i) \<notin> set ?xs \<Longrightarrow> cpus s i = cpus smp_bss i"
    by (simp only: if_True) (metis (no_types, lifting))
  have "cpu_init (cpus s 1)" using s(2) [OF _ m(1)] by (simp add: MAX_CPU_def)
  moreover have "\<not> cpu_init (cpus s 2)" using s(3) [OF _ m(2)] by (simp add: MAX_CPU_def smp_bss_def)
  ultimately show ?thesis using s(1) by blast
qed

section \<open>Starting a processor\<close>

text \<open>The waiting loop ends with the first state of the other processors in which the new one has started.\<close>

lemma cpu_up_wait_started:
  assumes "started (cpus ((others ^^ n) s) c)" "\<forall>k < n. \<not> started (cpus ((others ^^ k) s) c)"
  shows "cpu_up_wait others c s = Some ((others ^^ n) s)"
  using assms
proof (induction n arbitrary: s)
  case 0
  then show ?case by (subst cpu_up_wait.simps) simp
next
  case (Suc n)
  have "cpu_up_wait others c (others s) = Some ((others ^^ n) (others s))"
  proof (rule Suc.IH)
    show "started (cpus ((others ^^ n) (others s)) c)" using Suc.prems(1) by (simp add: funpow_swap1)
    show "\<forall>k < n. \<not> started (cpus ((others ^^ k) (others s)) c)"
      using Suc.prems(2) by (auto simp: funpow_swap1 dest: spec [of _ "Suc _"])
  qed
  moreover have "\<not> started (cpus s c)" using Suc.prems(2) [rule_format, of 0] by simp
  ultimately show ?case by (subst cpu_up_wait.simps) (simp add: funpow_swap1)
qed

lemma cpu_up_wait_never:
  assumes "cpu_up_wait others c s = Some t"
  shows "\<exists>n. started (cpus ((others ^^ n) s) c)"
  using assms
proof (induction others c s t rule: cpu_up_wait.raw_induct [rotated, consumes 1, case_names step])
  case (step rec others c s t)
  show ?case
  proof (cases "started (cpus s c)")
    case True
    then show ?thesis by (intro exI [of _ 0]) simp
  next
    case False
    then have "rec others c (others s) = Some t" using step.hyps by simp
    from step.IH [OF this] obtain n where "started (cpus ((others ^^ n) (others s)) c)" by blast
    then show ?thesis by (intro exI [of _ "Suc n"]) (simp add: funpow_swap1)
  qed
qed

lemma cpu_up_returns_iff:
  assumes "cpu < MAX_CPU" "cpu_init (cpus s cpu)" "cpu_no (cpus s cpu) = int cpu"
    and "processor_lapic_id (processor (cpus s cpu)) m = of_nat cpu"
    and "s' = s\<lparr>sapic := lapic_startap dev (of_nat cpu) (virt_to_phys (phys_to_virt 0x5000)) (sapic s)\<rparr>"
  shows "(\<exists>t. cpu_up m dev others cpu s = Some (0, t)) \<longleftrightarrow> (\<exists>n. started (cpus ((others ^^ n) s') cpu))"
proof -
  have "uint (of_nat cpu :: u8) = int cpu"
    using assms(1) by (simp add: MAX_CPU_def unsigned_of_nat take_bit_nat_eq_self)
  then have c: "cpu_up m dev others cpu s = do { t \<leftarrow> cpu_up_wait others cpu s'; Some (0, t) }"
    using assms by (simp add: cpu_up_def Let_def)
  show ?thesis
  proof
    assume "\<exists>t. cpu_up m dev others cpu s = Some (0, t)"
    then show "\<exists>n. started (cpus ((others ^^ n) s') cpu)"
      unfolding c by (auto simp: bind_eq_Some_conv dest: cpu_up_wait_never)
  next
    assume "\<exists>n. started (cpus ((others ^^ n) s') cpu)"
    then obtain n where "started (cpus ((others ^^ n) s') cpu)" "\<forall>k < n. \<not> started (cpus ((others ^^ k) s') cpu)"
      using exists_least_iff [of "\<lambda>n. started (cpus ((others ^^ n) s') cpu)"] by blast
    then show "\<exists>t. cpu_up m dev others cpu s = Some (0, t)" unfolding c by (simp add: cpu_up_wait_started)
  qed
qed

end
