(* ===== verification/Boot.thy ===== *)
theory Boot
  imports Mem_Fields Ports
begin

unbundle bit_operations_syntax

text \<open>
  The second stage of the boot loader, \<^verbatim>\<open>boot/setup/main.c\<close>: it loads the kernel, an ELF image, from the disk.  The disk is
  a device; that it answers like an ATA disk with given contents is the hypothesis \<open>ata_disk\<close>.  The state is
  the memory and the trace of port accesses.
\<close>

section \<open>Operations\<close>

type_synonym boot = "mem \<times> trace"

definition SECTSIZE :: u32 where "SECTSIZE = 512"
definition ELFHDR :: u32 where "ELFHDR = 0x10000"
definition ELF_MAGIC :: u32 where "ELF_MAGIC = 0x464C457F"

definition outw :: "u16 \<Rightarrow> u16 \<Rightarrow> trace \<Rightarrow> trace" where
  "outw port data tr = tr @ [Wr (Port port) (ucast data)]"

fun insl :: "device \<Rightarrow> u16 \<Rightarrow> u32 \<Rightarrow> nat \<Rightarrow> boot \<Rightarrow> boot" where
  "insl dev port addr 0 s = s"
| "insl dev port addr (Suc cnt) (m, tr) =
     (let v = dev tr (Port port)
      in insl dev port (addr + 4) cnt (put_u32 addr v m, tr @ [Rd (Port port) v]))"

partial_function (option) waitdisk :: "device \<Rightarrow> trace \<Rightarrow> trace option" where
  "waitdisk dev tr =
     (if fst (inb dev 0x1F7 tr) AND 0xC0 \<noteq> 0x40 then waitdisk dev (snd (inb dev 0x1F7 tr))
      else Some (snd (inb dev 0x1F7 tr)))"

definition readsect :: "device \<Rightarrow> u32 \<Rightarrow> u32 \<Rightarrow> boot \<Rightarrow> boot option" where
  "readsect dev dst secno s =
     (case s of (m, tr) \<Rightarrow>
        do {
          tr \<leftarrow> waitdisk dev tr;
          let tr = outb 0x1F2 1 tr;
          let tr = outb 0x1F3 (ucast (secno AND 0xFF)) tr;
          let tr = outb 0x1F4 (ucast (drop_bit 8 secno AND 0xFF)) tr;
          let tr = outb 0x1F5 (ucast (drop_bit 16 secno AND 0xFF)) tr;
          let tr = outb 0x1F6 (ucast ((drop_bit 24 secno AND 0xF) OR 0xE0)) tr;
          let tr = outb 0x1F7 0x20 tr;
          tr \<leftarrow> waitdisk dev tr;
          Some (insl dev 0x1F0 dst (unat (SECTSIZE div 4)) (m, tr))
        })"

partial_function (option) readseg_loop :: "device \<Rightarrow> u32 \<Rightarrow> u32 \<Rightarrow> u32 \<Rightarrow> boot \<Rightarrow> boot option" where
  "readseg_loop dev va end_va secno s =
     (if va < end_va then
        do {
          s \<leftarrow> readsect dev va secno s;
          readseg_loop dev (va + SECTSIZE) end_va (secno + 1) s
        }
      else Some s)"

definition readseg :: "device \<Rightarrow> u32 \<Rightarrow> u32 \<Rightarrow> u32 \<Rightarrow> boot \<Rightarrow> boot option" where
  "readseg dev va count offset s =
     (let end_va = va + count;
          va = va - offset mod SECTSIZE;
          secno = offset div SECTSIZE
      in readseg_loop dev va end_va secno s)"

text \<open>The fields of the ELF header and of a program header at address \<open>ph\<close>.\<close>

definition e_magic :: "mem \<Rightarrow> u32" where "e_magic m = get_u32 m ELFHDR"
definition e_entry :: "mem \<Rightarrow> u32" where "e_entry m = get_u32 m (ELFHDR + 24)"
definition e_phoff :: "mem \<Rightarrow> u32" where "e_phoff m = get_u32 m (ELFHDR + 28)"
definition e_phnum :: "mem \<Rightarrow> u16" where "e_phnum m = get_u16 m (ELFHDR + 44)"
definition p_offset :: "u32 \<Rightarrow> mem \<Rightarrow> u32" where "p_offset ph m = get_u32 m (ph + 4)"
definition p_va :: "u32 \<Rightarrow> mem \<Rightarrow> u32" where "p_va ph m = get_u32 m (ph + 8)"
definition p_memsz :: "u32 \<Rightarrow> mem \<Rightarrow> u32" where "p_memsz ph m = get_u32 m (ph + 20)"
definition sizeof_proghdr :: u32 where "sizeof_proghdr = 32"

partial_function (option) boot_segments :: "device \<Rightarrow> u32 \<Rightarrow> u32 \<Rightarrow> boot \<Rightarrow> boot option" where
  "boot_segments dev ph eph s =
     (if ph < eph then
        do {
          s \<leftarrow> readseg dev (p_va ph (fst s) AND 0xFFFFFF) (p_memsz ph (fst s)) (SECTSIZE * 4 + p_offset ph (fst s)) s;
          boot_segments dev (ph + sizeof_proghdr) eph s
        }
      else Some s)"

text \<open>The result is the address that is called, if any.\<close>

definition bootmain :: "device \<Rightarrow> boot \<Rightarrow> (u32 option \<times> boot) option" where
  "bootmain dev s =
     do {
       s \<leftarrow> readseg dev ELFHDR (SECTSIZE * 8) (SECTSIZE * 4) s;
       if e_magic (fst s) \<noteq> ELF_MAGIC then
         Some (None, (fst s, outw 0x8A00 0x8E00 (outw 0x8A00 0x8A00 (snd s))))
       else do {
         let ph = ELFHDR + e_phoff (fst s);
         let eph = ph + sizeof_proghdr * ucast (e_phnum (fst s));
         s \<leftarrow> boot_segments dev ph eph s;
         s \<leftarrow> readseg dev 0x5000 SECTSIZE (SECTSIZE * 3) s;
         Some (Some (e_entry (fst s) AND 0xFFFFFF), s)
       }
     }"

definition ap_bootmain :: "mem \<Rightarrow> u32" where
  "ap_bootmain m = e_entry m AND 0xFFFFFF"

declare waitdisk.simps [code] readseg_loop.simps [code] boot_segments.simps [code]

section \<open>The disk\<close>

text \<open>
  The registers of the disk that select a sector, the sector of the last read command and the number of words
  of it that were read.
\<close>

record ata =
  lba0 :: u32
  lba1 :: u32
  lba2 :: u32
  lba3 :: u32
  sector :: nat
  pos :: nat

fun ata_react :: "io_event \<Rightarrow> ata \<Rightarrow> ata" where
  "ata_react (Wr (Port p) v) c =
     (if p = 0x1F3 then c\<lparr>lba0 := v\<rparr> else if p = 0x1F4 then c\<lparr>lba1 := v\<rparr> else if p = 0x1F5 then c\<lparr>lba2 := v\<rparr>
      else if p = 0x1F6 then c\<lparr>lba3 := v\<rparr>
      else if p = 0x1F7 \<and> v = 0x20 then
        c\<lparr>sector := unat (lba0 c OR push_bit 8 (lba1 c) OR push_bit 16 (lba2 c) OR push_bit 24 (lba3 c AND 0xF)), pos := 0\<rparr>
      else c)"
| "ata_react (Rd (Port p) v) c = (if p = 0x1F0 then c\<lparr>pos := pos c + 1\<rparr> else c)"
| "ata_react _ c = c"

definition ata_after :: "trace \<Rightarrow> ata" where
  "ata_after tr = fold ata_react tr \<lparr>lba0 = 0, lba1 = 0, lba2 = 0, lba3 = 0, sector = 0, pos = 0\<rparr>"

definition ata_ready :: "device \<Rightarrow> trace \<Rightarrow> bool" where
  "ata_ready dev tr \<longleftrightarrow> fst (inb dev 0x1F7 tr) AND 0xC0 = 0x40"

text \<open>A disk with the bytes \<open>D\<close>: it delivers the words of the selected sector, and is never busy for ever.\<close>

definition ata_disk :: "device \<Rightarrow> (nat \<Rightarrow> u8) \<Rightarrow> bool" where
  "ata_disk dev D \<longleftrightarrow>
     (\<forall>tr. dev tr (Port 0x1F0) = word_at D (512 * sector (ata_after tr) + 4 * pos (ata_after tr))) \<and>
     (\<forall>tr. \<exists>n. ata_ready dev (((\<lambda>tr. snd (inb dev 0x1F7 tr)) ^^ n) tr))"

lemma ata_after_snoc [simp]: "ata_after (tr @ [e]) = ata_react e (ata_after tr)"
  by (simp add: ata_after_def)

lemma ata_after_out [simp]:
  "ata_after (outb p v tr) = ata_react (Wr (Port p) (ucast v)) (ata_after tr)" "ata_after (snd (inb dev 0x1F7 tr)) = ata_after tr"
  by (simp_all add: outb_def inb_def Let_def)

lemma waitdisk_returns:
  assumes "ata_disk dev D"
  shows "\<exists>tr'. waitdisk dev tr = Some tr' \<and> ata_after tr' = ata_after tr"
proof -
  obtain n where "ata_ready dev (((\<lambda>tr. snd (inb dev 0x1F7 tr)) ^^ n) tr)" using assms unfolding ata_disk_def by blast
  then show ?thesis
  proof (induction n arbitrary: tr)
    case 0
    then show ?case by (subst waitdisk.simps) (simp add: ata_ready_def)
  next
    case (Suc n)
    show ?case
    proof (cases "ata_ready dev tr")
      case True
      then show ?thesis by (subst waitdisk.simps) (simp add: ata_ready_def)
    next
      case False
      then have "waitdisk dev tr = waitdisk dev (snd (inb dev 0x1F7 tr))"
        by (subst waitdisk.simps) (simp add: ata_ready_def)
      then show ?thesis using Suc.IH [of "snd (inb dev 0x1F7 tr)"] Suc.prems unfolding funpow_Suc_right comp_def by simp
    qed
  qed
qed

section \<open>Loading\<close>

text \<open>Memory with \<open>n\<close> bytes from address \<open>a\<close> on replaced by those of \<open>f\<close>.\<close>

definition load :: "nat \<Rightarrow> nat \<Rightarrow> (nat \<Rightarrow> u8) \<Rightarrow> mem \<Rightarrow> mem" where
  "load a n f m x = (if a \<le> unat x \<and> unat x < a + n then f (unat x - a) else m x)"

lemma load_0 [simp]: "load a 0 f m = m"
  by (rule ext) (auto simp: load_def)

lemma load_load: "load (a + n) k (\<lambda>i. f (n + i)) (load a n f m) = load a (n + k) f m"
  by (rule ext) (auto simp: load_def)

lemma put_word_load:
  assumes "unat a + 4 \<le> 2 ^ 32"
  shows "put_u32 a (word_at d i) m = load (unat a) 4 (\<lambda>j. d (i + j)) m"
proof
  fix x
  have u: "unat (a + of_nat k) = unat a + k" if "k < 4" for k using that assms by (intro addr_unat) simp
  have e: "x = a \<longleftrightarrow> unat x = unat a" "x = a + 1 \<longleftrightarrow> unat x = unat a + 1" "x = a + 2 \<longleftrightarrow> unat x = unat a + 2"
    "x = a + 3 \<longleftrightarrow> unat x = unat a + 3"
    using u [of 1] u [of 2] u [of 3] by (auto simp: word_unat_eq_iff)
  show "put_u32 a (word_at d i) m x = load (unat a) 4 (\<lambda>j. d (i + j)) m x"
    unfolding put_word_at load_def fun_upd_apply e by (auto simp: numeral_eq_Suc less_Suc_eq)
qed

lemma insl_load:
  assumes "ata_disk dev D" "unat a + 4 * n \<le> 2 ^ 32"
  shows "fst (insl dev 0x1F0 a n (m, tr)) = load (unat a) (4 * n) (\<lambda>i. D (512 * sector (ata_after tr) + 4 * pos (ata_after tr) + i)) m"
  using assms(2)
proof (induction n arbitrary: a m tr)
  case (Suc n)
  define v where "v = dev tr (Port 0x1F0)"
  let ?j = "512 * sector (ata_after tr) + 4 * pos (ata_after tr)"
  have v: "v = word_at D ?j" using assms(1) by (simp add: v_def ata_disk_def)
  have step: "insl dev 0x1F0 a (Suc n) (m, tr) = insl dev 0x1F0 (a + 4) n (put_u32 a v m, tr @ [Rd (Port 0x1F0) v])"
    by (simp add: v_def Let_def)
  have p: "put_u32 a v m = load (unat a) 4 (\<lambda>i. D (?j + i)) m" unfolding v by (rule put_word_load) (use Suc.prems in simp)
  show ?case
  proof (cases "n = 0")
    case True
    then show ?thesis unfolding step p by simp
  next
    case False
    then have u: "unat (a + 4) = unat a + 4" using addr_unat [of a 4] Suc.prems by simp
    have j: "512 * sector (ata_after (tr @ [Rd (Port 0x1F0) v])) + 4 * pos (ata_after (tr @ [Rd (Port 0x1F0) v])) = ?j + 4" by simp
    show ?thesis
      unfolding step p using Suc.IH [of "a + 4" "load (unat a) 4 (\<lambda>i. D (?j + i)) m" "tr @ [Rd (Port 0x1F0) v]"] Suc.prems
        load_load [of "unat a" 4 "4 * n" "\<lambda>i. D (?j + i)" m]
      unfolding u j by (simp add: add.assoc)
  qed
qed simp

text \<open>The sector number is split over four registers and joined again by the disk.\<close>

lemma lba_join:
  assumes "unat n < 2 ^ 28"
  shows "(ucast (ucast (n AND 0xFF) :: u8) OR push_bit 8 (ucast (ucast (drop_bit 8 n AND 0xFF) :: u8)) OR
    push_bit 16 (ucast (ucast (drop_bit 16 n AND 0xFF) :: u8)) OR
    push_bit 24 (ucast (ucast ((drop_bit 24 n AND 0xF) OR 0xE0) :: u8) AND 0xF)) = (n :: u32)"
proof -
  have b: "\<not> bit n k" if "28 \<le> k" for k
  proof -
    have "take_bit 28 n = n" using assms by (simp add: take_bit_eq_mod word_unat_eq_iff unat_mod unsigned_take_bit_eq take_bit_nat_eq_self)
    then have "bit n k \<longleftrightarrow> bit (take_bit 28 n) k" by simp
    then show ?thesis using that by (simp add: bit_take_bit_iff)
  qed
  have m: "x AND 0xFF = take_bit 8 x" "x AND 0xF = take_bit 4 x" for x :: u32
    by (simp_all add: take_bit_eq_mask mask_eq_exp_minus_1)
  have z: "\<not> bit (0xE0 :: u32) k \<and> \<not> bit (0xE0 :: u8) k \<and> \<not> bit (0xE0 :: int) k" if "k < 4" for k
    using that by (auto simp: numeral_eq_Suc less_Suc_eq bit_Suc)
  have h: "(take_bit 4 (ucast (ucast (take_bit 4 (drop_bit 24 n) OR 0xE0) :: u8)) :: u32) = take_bit 4 (drop_bit 24 n)"
    by (rule bit_word_eqI) (auto simp: bit_simps z)
  show ?thesis
    unfolding m h
    apply (rule bit_word_eqI)
    subgoal for k by (cases "k < 16"; cases "k < 24") (auto simp: bit_simps b)
    done
qed

lemma readsect_load:
  assumes d: "ata_disk dev D" and n: "unat secno < 2 ^ 28" "unat dst + 512 \<le> 2 ^ 32"
  shows "\<exists>tr'. readsect dev dst secno (m, tr) = Some (load (unat dst) 512 (\<lambda>i. D (512 * unat secno + i)) m, tr')"
proof -
  obtain t1 where t1: "waitdisk dev tr = Some t1" using waitdisk_returns [OF d] by blast
  define t2 where "t2 = outb 0x1F7 0x20 (outb 0x1F6 (ucast ((drop_bit 24 secno AND 0xF) OR 0xE0)) (outb 0x1F5 (ucast (drop_bit 16 secno AND 0xFF))
    (outb 0x1F4 (ucast (drop_bit 8 secno AND 0xFF)) (outb 0x1F3 (ucast (secno AND 0xFF)) (outb 0x1F2 1 t1)))))"
  have a: "sector (ata_after t2) = unat secno" "pos (ata_after t2) = 0"
    using lba_join [OF n(1)] by (simp_all add: t2_def)
  obtain t3 where t3: "waitdisk dev t2 = Some t3" "ata_after t3 = ata_after t2" using waitdisk_returns [OF d] by blast
  have s: "unat (SECTSIZE div 4) = 128" by (simp add: SECTSIZE_def)
  have "readsect dev dst secno (m, tr) = Some (insl dev 0x1F0 dst 128 (m, t3))"
    unfolding readsect_def Let_def using t1 t3(1) s by (simp add: t2_def)
  moreover have "fst (insl dev 0x1F0 dst 128 (m, t3)) = load (unat dst) 512 (\<lambda>i. D (512 * unat secno + i)) m"
    using insl_load [OF d, of dst 128 m t3] n(2) a t3(2) by simp
  ultimately show ?thesis by (metis prod.collapse)
qed

lemma readseg_loop_load:
  assumes d: "ata_disk dev D" and "unat va + 512 * k < 2 ^ 32" "unat secno + k < 2 ^ 28"
    and "unat va + 512 * k \<ge> unat end_va" "k = 0 \<or> unat va + 512 * (k - 1) < unat end_va"
  shows "\<exists>tr'. readseg_loop dev va end_va secno (m, tr) = Some (load (unat va) (512 * k) (\<lambda>i. D (512 * unat secno + i)) m, tr')"
  using assms(2-)
proof (induction k arbitrary: va secno m tr)
  case 0
  then show ?case by (subst readseg_loop.simps) (simp add: word_less_nat_alt)
next
  case (Suc k)
  have lt: "va < end_va" using Suc.prems by (simp add: word_less_nat_alt)
  have u: "unat (va + SECTSIZE) = unat va + 512"
    using addr_unat [of va 512] Suc.prems by (simp add: SECTSIZE_def)
  have s: "unat (secno + 1) = unat secno + 1" using addr_unat [of secno 1] Suc.prems by simp
  obtain t1 where r: "readsect dev va secno (m, tr) = Some (load (unat va) 512 (\<lambda>i. D (512 * unat secno + i)) m, t1)"
    using readsect_load [OF d, of secno va m tr] Suc.prems by auto
  let ?m = "load (unat va) 512 (\<lambda>i. D (512 * unat secno + i)) m"
  have k: "k = 0 \<or> unat (va + SECTSIZE) + 512 * (k - 1) < unat end_va"
    unfolding u using Suc.prems(4) by (cases k) simp_all
  obtain tr' where "readseg_loop dev (va + SECTSIZE) end_va (secno + 1) (?m, t1)
      = Some (load (unat va + 512) (512 * k) (\<lambda>i. D (512 * (unat secno + 1) + i)) ?m, tr')"
    using Suc.IH [OF _ _ _ k, of "secno + 1" ?m t1] Suc.prems unfolding u s by auto
  moreover have "load (unat va + 512) (512 * k) (\<lambda>i. D (512 * (unat secno + 1) + i)) ?m
      = load (unat va) (512 * Suc k) (\<lambda>i. D (512 * unat secno + i)) m"
    using load_load [of "unat va" 512 "512 * k" "\<lambda>i. D (512 * unat secno + i)" m] by (simp add: algebra_simps)
  ultimately show ?case using lt r by (subst readseg_loop.simps) simp
qed

text \<open>The sectors that \<open>readseg\<close> reads, and what it makes of memory.\<close>

definition sectors :: "u32 \<Rightarrow> u32 \<Rightarrow> nat" where
  "sectors count offset = (unat count + unat offset mod 512 + 511) div 512"

lemma readseg_load:
  assumes d: "ata_disk dev D" and p: "unat offset mod 512 \<le> unat va" "unat va + unat count + 512 \<le> 2 ^ 32"
  shows "\<exists>tr'. readseg dev va count offset (m, tr) =
    Some (load (unat va - unat offset mod 512) (512 * sectors count offset) (\<lambda>i. D (unat offset - unat offset mod 512 + i)) m, tr')"
proof -
  define r where "r = unat offset mod 512"
  define k where "k = sectors count offset"
  have k: "512 * k \<ge> unat count + r" "k = 0 \<or> 512 * (k - 1) < unat count + r" "512 * k < unat count + r + 512"
    unfolding k_def sectors_def r_def by linarith+
  have e: "unat (va + count) = unat va + unat count"
    using p(2) unat_add_lem [of va count] by simp
  have o: "unat (offset mod SECTSIZE) = r" "unat (offset div SECTSIZE) = unat offset div 512"
    by (simp_all add: SECTSIZE_def unat_mod unat_div r_def)
  have v: "unat (va - offset mod SECTSIZE) = unat va - r"
    using unat_sub [of "offset mod SECTSIZE" va] p(1) unfolding o word_le_nat_alt r_def by simp
  have "unat offset < 2 ^ 32" "unat count < 2 ^ 32" using unsigned_less [of offset] unsigned_less [of count] by simp_all
  then have "unat offset div 512 < 2 ^ 23" "k < 2 ^ 24"
    unfolding k_def sectors_def by (intro less_mult_imp_div_less; simp)+
  then have b: "unat offset div 512 + k < 2 ^ 28" by simp
  have f: "512 * (unat offset div 512) = unat offset - r" unfolding r_def by (simp add: minus_mod_eq_mult_div)
  show ?thesis
    using readseg_loop_load [OF d, of "va - offset mod SECTSIZE" k "offset div SECTSIZE" "va + count" m tr] k b p
    unfolding readseg_def Let_def v o e f r_def [symmetric] k_def [symmetric] by auto
qed

lemma load_at: "b < 2 ^ 32 \<Longrightarrow> load a n f m (of_nat b) = (if a \<le> b \<and> b < a + n then f (b - a) else m (of_nat b))"
  by (simp add: load_def unat_of_nat_u32)

text \<open>
  The bytes from the disk are there, and memory in front of the first sector and, for what was not asked for,
  behind the last one is unchanged.
\<close>

lemma readseg_at:
  assumes "ata_disk dev D" "unat offset mod 512 \<le> unat va" "unat va + unat count + 512 \<le> 2 ^ 32"
  shows "\<exists>m' tr'. readseg dev va count offset (m, tr) = Some (m', tr') \<and>
    (\<forall>i < unat count. m' (of_nat (unat va + i)) = D (unat offset + i)) \<and>
    (\<forall>b < unat va - unat offset mod 512. m' (of_nat b) = m (of_nat b)) \<and>
    (\<forall>b < 2 ^ 32. unat va + unat count + 511 \<le> b \<longrightarrow> m' (of_nat b) = m (of_nat b))"
proof -
  define r where "r = unat offset mod 512"
  define k where "k = sectors count offset"
  have k: "512 * k \<ge> unat count + r" "512 * k < unat count + r + 512" unfolding k_def sectors_def r_def by linarith+
  have r: "r \<le> unat va" "r \<le> unat offset" using assms(2) unfolding r_def by simp_all
  let ?m = "load (unat va - r) (512 * k) (\<lambda>i. D (unat offset - r + i)) m"
  obtain tr' where t: "readseg dev va count offset (m, tr) = Some (?m, tr')"
    using readseg_load [OF assms] unfolding r_def k_def by blast
  have a: "?m (of_nat (unat va + i)) = D (unat offset + i)" if "i < unat count" for i
  proof -
    have "unat va - r \<le> unat va + i" "unat va + i < unat va - r + 512 * k" using that k r by linarith+
    moreover have "unat offset - r + (unat va + i - (unat va - r)) = unat offset + i" using r by linarith
    moreover have "unat va + i < 2 ^ 32" using that assms(3) by simp
    ultimately show ?thesis by (simp only: load_at) simp
  qed
  have v: "unat va < 2 ^ 32" using unsigned_less [of va] by simp
  have b: "?m (of_nat b) = m (of_nat b)" if "b < unat va - r" for b
    using that v by (subst load_at) simp_all
  have c: "?m (of_nat b) = m (of_nat b)" if "b < 2 ^ 32" "unat va + unat count + 511 \<le> b" for b
    using that k r by (subst load_at) auto
  show ?thesis unfolding r_def [symmetric] using t a b c by blast
qed

section \<open>Loading the kernel\<close>

text \<open>
  The image is at byte 2048 of the disk.  The header and the program headers are in its first page; the segments
  lie above the copy of the header and one behind the other, with room for the part of the first sector in front of each.
\<close>

definition img_phoff :: "(nat \<Rightarrow> u8) \<Rightarrow> nat" where "img_phoff D = unat (word_at D (2048 + 28))"
definition img_phnum :: "(nat \<Rightarrow> u8) \<Rightarrow> nat" where "img_phnum D = unat (half_at D (2048 + 44))"
definition seg_off :: "(nat \<Rightarrow> u8) \<Rightarrow> nat \<Rightarrow> nat" where "seg_off D i = unat (word_at D (2048 + (img_phoff D + 32 * i + 4)))"
definition seg_va :: "(nat \<Rightarrow> u8) \<Rightarrow> nat \<Rightarrow> nat" where "seg_va D i = unat (word_at D (2048 + (img_phoff D + 32 * i + 8)) AND 0xFFFFFF)"
definition seg_len :: "(nat \<Rightarrow> u8) \<Rightarrow> nat \<Rightarrow> nat" where "seg_len D i = unat (word_at D (2048 + (img_phoff D + 32 * i + 20)))"

text \<open>An empty segment, such as the one that only describes the stack, is skipped if its offset is that of a sector.\<close>

definition skipped :: "(nat \<Rightarrow> u8) \<Rightarrow> nat \<Rightarrow> bool" where
  "skipped D i \<longleftrightarrow> seg_len D i = 0 \<and> seg_off D i mod 512 = 0"

definition kernel_image :: "(nat \<Rightarrow> u8) \<Rightarrow> bool" where
  "kernel_image D \<longleftrightarrow> word_at D 2048 = ELF_MAGIC \<and> img_phoff D + 32 * img_phnum D \<le> 4096 \<and>
     (\<forall>i < img_phnum D. seg_off D i + 2048 < 2 ^ 32 \<and>
        (skipped D i \<or> 0x11000 + seg_off D i mod 512 \<le> seg_va D i \<and> seg_va D i + seg_len D i + 512 \<le> 2 ^ 32)) \<and>
     (\<forall>j < img_phnum D. \<not> skipped D j \<longrightarrow> (\<forall>i < j. \<not> skipped D i \<longrightarrow>
        seg_va D i + seg_len D i + seg_off D j mod 512 \<le> seg_va D j))"

definition header_ok :: "(nat \<Rightarrow> u8) \<Rightarrow> mem \<Rightarrow> bool" where
  "header_ok D m \<longleftrightarrow> (\<forall>k < 4096. m (of_nat (0x10000 + k)) = D (2048 + k))"

definition seg_loaded :: "(nat \<Rightarrow> u8) \<Rightarrow> nat \<Rightarrow> mem \<Rightarrow> bool" where
  "seg_loaded D i m \<longleftrightarrow> (\<forall>k < seg_len D i. m (of_nat (seg_va D i + k)) = D (2048 + seg_off D i + k))"

lemma header_u32:
  assumes "header_ok D m" "k + 4 \<le> 4096"
  shows "get_u32 m (of_nat (0x10000 + k)) = word_at D (2048 + k)"
proof -
  have "m (of_nat (0x10000 + k)) = D (2048 + k)" "m (of_nat (0x10000 + k) + 1) = D (2048 + k + 1)"
    "m (of_nat (0x10000 + k) + 2) = D (2048 + k + 2)" "m (of_nat (0x10000 + k) + 2 + 1) = D (2048 + k + 3)"
    using assms(1) [unfolded header_ok_def, rule_format, of k] assms(1) [unfolded header_ok_def, rule_format, of "k + 1"]
      assms(1) [unfolded header_ok_def, rule_format, of "k + 2"] assms(1) [unfolded header_ok_def, rule_format, of "k + 3"] assms(2)
    by (simp_all add: algebra_simps)
  then show ?thesis by (simp add: get_u32_def get_u16_def word_at_def half_at_def add.assoc)
qed

lemma header_u16:
  assumes "header_ok D m" "k + 2 \<le> 4096"
  shows "get_u16 m (of_nat (0x10000 + k)) = half_at D (2048 + k)"
proof -
  have "m (of_nat (0x10000 + k)) = D (2048 + k)" "m (of_nat (0x10000 + k) + 1) = D (2048 + k + 1)"
    using assms(1) [unfolded header_ok_def, rule_format, of k] assms(1) [unfolded header_ok_def, rule_format, of "k + 1"] assms(2)
    by (simp_all add: algebra_simps)
  then show ?thesis by (simp add: get_u16_def half_at_def)
qed

lemma kernel_imageD:
  assumes "kernel_image D"
  shows "word_at D 2048 = ELF_MAGIC" "img_phoff D + 32 * img_phnum D \<le> 4096"
    "i < img_phnum D \<Longrightarrow> seg_off D i + 2048 < 2 ^ 32"
    "i < img_phnum D \<Longrightarrow> \<not> skipped D i \<Longrightarrow> 0x11000 + seg_off D i mod 512 \<le> seg_va D i"
    "i < img_phnum D \<Longrightarrow> \<not> skipped D i \<Longrightarrow> seg_va D i + seg_len D i + 512 \<le> 2 ^ 32"
    "j < img_phnum D \<Longrightarrow> i < j \<Longrightarrow> \<not> skipped D j \<Longrightarrow> \<not> skipped D i \<Longrightarrow>
      seg_va D i + seg_len D i + seg_off D j mod 512 \<le> seg_va D j"
  using assms unfolding kernel_image_def by blast+

lemma skipped_loaded: "skipped D i \<Longrightarrow> seg_loaded D i m"
  by (simp add: skipped_def seg_loaded_def)

lemma header_ok_keep:
  assumes "header_ok D m" "\<And>b. b < 0x11000 \<Longrightarrow> m' (of_nat b) = m (of_nat b)"
  shows "header_ok D m'"
  using assms unfolding header_ok_def by (simp del: of_nat_add)

lemma seg_loaded_keep:
  assumes "seg_loaded D i m" "\<And>b. b < seg_va D i + seg_len D i \<Longrightarrow> m' (of_nat b) = m (of_nat b)"
  shows "seg_loaded D i m'"
  using assms unfolding seg_loaded_def by (simp del: of_nat_add)

text \<open>One round of the loop over the program headers.\<close>

lemma boot_segment:
  assumes d: "ata_disk dev D" and K: "kernel_image D" and h: "header_ok D m" and j: "j < img_phnum D"
  defines "ph \<equiv> of_nat (0x10000 + (img_phoff D + 32 * j))"
  shows "\<exists>m' tr'. readseg dev (p_va ph m AND 0xFFFFFF) (p_memsz ph m) (SECTSIZE * 4 + p_offset ph m) (m, tr) = Some (m', tr') \<and>
    header_ok D m' \<and> seg_loaded D j m' \<and> (\<forall>i < j. seg_loaded D i m \<longrightarrow> seg_loaded D i m')"
proof -
  note k = kernel_imageD [OF K]
  have n: "img_phoff D + 32 * j + 32 \<le> 4096" using k(2) j by linarith
  have f: "get_u32 m (ph + of_nat c) = word_at D (2048 + (img_phoff D + 32 * j + c))" if "c + 4 \<le> 32" for c
    using header_u32 [OF h, of "img_phoff D + 32 * j + c"] n that unfolding ph_def by (simp add: add.assoc)
  have va: "unat (p_va ph m AND 0xFFFFFF) = seg_va D j" using f [of 8] by (simp add: p_va_def seg_va_def)
  have ln: "unat (p_memsz ph m) = seg_len D j" using f [of 20] by (simp add: p_memsz_def seg_len_def)
  have "unat (p_offset ph m) = seg_off D j" using f [of 4] by (simp add: p_offset_def seg_off_def)
  then have off: "unat (SECTSIZE * 4 + p_offset ph m) = 2048 + seg_off D j"
    using k(3) [OF j] by (simp add: SECTSIZE_def unat_word_ariths)
  have md: "unat (SECTSIZE * 4 + p_offset ph m) mod 512 = seg_off D j mod 512"
    unfolding off using mod_mult_self3 [of 4 512 "seg_off D j"] by simp
  show ?thesis
  proof (cases "skipped D j")
    case True
    have "p_memsz ph m = 0" using ln True by (simp add: skipped_def unat_eq_0)
    moreover have "(SECTSIZE * 4 + p_offset ph m) mod SECTSIZE = 0"
      using md True by (simp add: skipped_def word_unat_eq_iff unat_mod SECTSIZE_def)
    ultimately have "readseg dev (p_va ph m AND 0xFFFFFF) (p_memsz ph m) (SECTSIZE * 4 + p_offset ph m) (m, tr) = Some (m, tr)"
      by (simp add: readseg_def Let_def readseg_loop.simps)
    then show ?thesis using h skipped_loaded [OF True] by blast
  next
    case False
    obtain m' tr' where r: "readseg dev (p_va ph m AND 0xFFFFFF) (p_memsz ph m) (SECTSIZE * 4 + p_offset ph m) (m, tr) = Some (m', tr')"
      and ld: "\<And>i. i < seg_len D j \<Longrightarrow> m' (of_nat (seg_va D j + i)) = D (2048 + seg_off D j + i)"
      and lo: "\<And>b. b < seg_va D j - seg_off D j mod 512 \<Longrightarrow> m' (of_nat b) = m (of_nat b)"
      using readseg_at [OF d, of "SECTSIZE * 4 + p_offset ph m" "p_va ph m AND 0xFFFFFF" "p_memsz ph m" m tr] k(4,5) [OF j False]
      unfolding md unfolding va ln off by auto
    have "header_ok D m'" by (rule header_ok_keep [OF h lo]) (use k(4) [OF j False] in linarith)
    moreover have "seg_loaded D j m'" using ld by (simp add: seg_loaded_def)
    moreover have "seg_loaded D i m'" if "i < j" "seg_loaded D i m" for i
    proof (cases "skipped D i")
      case True
      then show ?thesis by (rule skipped_loaded)
    next
      case nonempty: False
      show ?thesis by (rule seg_loaded_keep [OF that(2) lo]) (use k(6) [OF j that(1) False nonempty] in linarith)
    qed
    ultimately show ?thesis using r by blast
  qed
qed

lemma boot_segments_load:
  assumes d: "ata_disk dev D" and K: "kernel_image D" and "header_ok D m" "j + k = img_phnum D" "\<forall>i < j. seg_loaded D i m"
  shows "\<exists>m' tr'. boot_segments dev (of_nat (0x10000 + (img_phoff D + 32 * j))) (of_nat (0x10000 + (img_phoff D + 32 * img_phnum D))) (m, tr)
      = Some (m', tr') \<and> header_ok D m' \<and> (\<forall>i < img_phnum D. seg_loaded D i m')"
  using assms(3-)
proof (induction k arbitrary: j m tr)
  case 0
  then show ?case by (subst boot_segments.simps) simp
next
  case (Suc k)
  note b = kernel_imageD(2) [OF K]
  let ?ph = "of_nat (0x10000 + (img_phoff D + 32 * j)) :: u32"
  have j: "j < img_phnum D" using Suc.prems(2) by simp
  obtain m1 t1 where s: "readseg dev (p_va ?ph m AND 0xFFFFFF) (p_memsz ?ph m) (SECTSIZE * 4 + p_offset ?ph m) (m, tr) = Some (m1, t1)"
      "header_ok D m1" "seg_loaded D j m1" "\<forall>i < j. seg_loaded D i m \<longrightarrow> seg_loaded D i m1"
    using boot_segment [OF d K Suc.prems(1) j] by blast
  have l: "\<forall>i < Suc j. seg_loaded D i m1" using s(3,4) Suc.prems(3) by (simp add: less_Suc_eq)
  have "unat ?ph = 0x10000 + (img_phoff D + 32 * j)" by (rule unat_of_nat_u32) (use b j in simp)
  moreover have "unat (of_nat (0x10000 + (img_phoff D + 32 * img_phnum D)) :: u32) = 0x10000 + (img_phoff D + 32 * img_phnum D)"
    by (rule unat_of_nat_u32) (use b in simp)
  ultimately have lt: "?ph < of_nat (0x10000 + (img_phoff D + 32 * img_phnum D))" using j by (simp only: word_less_nat_alt)
  have nx: "?ph + sizeof_proghdr = of_nat (0x10000 + (img_phoff D + 32 * Suc j))" by (simp add: sizeof_proghdr_def)
  have "Suc j + k = img_phnum D" using Suc.prems(2) by simp
  from Suc.IH [OF s(2) this l, of t1] show ?case
    using lt s(1) by (subst boot_segments.simps) (simp only: if_True fst_conv bind.bind_lunit nx)
qed

text \<open>
  C18: from a disk with a kernel image \<open>bootmain\<close> returns with the entry point of the ELF header to call, all segments
  of the kernel in memory at their addresses - empty ones at the offset of a sector are skipped - and the start code of the other processors at \<open>0x5000\<close>.
\<close>

theorem bootmain_loads_kernel:
  assumes d: "ata_disk dev D" and K: "kernel_image D"
  shows "\<exists>m' tr'. bootmain dev (m, tr) = Some (Some (word_at D (2048 + 24) AND 0xFFFFFF), m', tr') \<and>
    (\<forall>i < img_phnum D. \<forall>k < seg_len D i. m' (of_nat (seg_va D i + k)) = D (2048 + seg_off D i + k)) \<and>
    (\<forall>k < 512. m' (of_nat (0x5000 + k)) = D (1536 + k))"
proof -
  note k = kernel_imageD [OF K]
  have u: "unat ELFHDR = 0x10000" "unat (SECTSIZE * 8) = 4096" "unat (SECTSIZE * 4) = 2048" "unat (0x5000 :: u32) = 0x5000"
    "unat SECTSIZE = 512" "unat (SECTSIZE * 3) = 1536" by (simp_all add: ELFHDR_def SECTSIZE_def)
  obtain m1 t1 where r1: "readseg dev ELFHDR (SECTSIZE * 8) (SECTSIZE * 4) (m, tr) = Some (m1, t1)" and h1: "header_ok D m1"
    using readseg_at [OF d, of "SECTSIZE * 4" ELFHDR "SECTSIZE * 8" m tr] unfolding u header_ok_def by auto
  have mg: "e_magic m1 = ELF_MAGIC" using header_u32 [OF h1, of 0] k(1) by (simp add: e_magic_def ELFHDR_def)
  have en: "e_entry m' = word_at D (2048 + 24)" if "header_ok D m'" for m'
    using header_u32 [OF that, of 24] by (simp add: e_entry_def ELFHDR_def)
  have "e_phoff m1 = word_at D (2048 + 28)" using header_u32 [OF h1, of 28] by (simp add: e_phoff_def ELFHDR_def)
  then have ph: "ELFHDR + e_phoff m1 = of_nat (0x10000 + (img_phoff D + 32 * 0))" by (simp add: img_phoff_def ELFHDR_def)
  have "e_phnum m1 = half_at D (2048 + 44)" using header_u16 [OF h1, of 44] by (simp add: e_phnum_def ELFHDR_def)
  then have "(ucast (e_phnum m1) :: u32) = of_nat (img_phnum D)"
    unfolding img_phnum_def by (simp add: unsigned_ucast_eq word_unat_eq_iff unat_of_nat)
  then have eph: "ELFHDR + e_phoff m1 + sizeof_proghdr * ucast (e_phnum m1) = of_nat (0x10000 + (img_phoff D + 32 * img_phnum D))"
    unfolding ph by (simp add: sizeof_proghdr_def)
  obtain m2 t2 where r2: "boot_segments dev (ELFHDR + e_phoff m1) (ELFHDR + e_phoff m1 + sizeof_proghdr * ucast (e_phnum m1)) (m1, t1) = Some (m2, t2)"
      "header_ok D m2" "\<forall>i < img_phnum D. seg_loaded D i m2"
    using boot_segments_load [OF d K h1, of 0 "img_phnum D" t1] unfolding eph unfolding ph by auto
  obtain m3 t3 where r3: "readseg dev 0x5000 SECTSIZE (SECTSIZE * 3) (m2, t2) = Some (m3, t3)"
    and l3: "\<forall>i < 512. m3 (of_nat (0x5000 + i)) = D (1536 + i)"
    and k3: "\<forall>b < 2 ^ 32. 0x5000 + 512 + 511 \<le> b \<longrightarrow> m3 (of_nat b) = m2 (of_nat b)"
    using readseg_at [OF d, of "SECTSIZE * 3" "0x5000" SECTSIZE m2 t2] unfolding u by auto
  have h3: "header_ok D m3" using r2(2) k3 unfolding header_ok_def by (simp del: of_nat_add)
  have "seg_loaded D i m3" if i: "i < img_phnum D" for i
  proof -
    have "m3 (of_nat (seg_va D i + c)) = m2 (of_nat (seg_va D i + c))" if "c < seg_len D i" for c
    proof -
      have "\<not> skipped D i" using that by (simp add: skipped_def)
      then show ?thesis by (intro k3 [rule_format]) (use k(4,5) [OF i] that in linarith)+
    qed
    then show ?thesis using r2(3) i unfolding seg_loaded_def by simp
  qed
  moreover have "bootmain dev (m, tr) = Some (Some (word_at D (2048 + 24) AND 0xFFFFFF), m3, t3)"
    unfolding bootmain_def Let_def using r1 mg r2(1) r3 en [OF h3] by simp
  ultimately show ?thesis using l3 unfolding seg_loaded_def by blast
qed

text \<open>The witness is a disk with a kernel of one segment of 16 bytes, at \<open>0xC0100000\<close>.\<close>

definition kernel_disk :: "nat \<Rightarrow> u8" where
  "kernel_disk = (\<lambda>_. 0)(2048 := 0x7F, 2049 := 0x45, 2050 := 0x4C, 2051 := 0x46, 2074 := 0x10, 2075 := 0xC0, 2076 := 52, 2092 := 1,
     2105 := 0x10, 2110 := 0x10, 2111 := 0xC0, 2120 := 16, 6144 := 0x90)"

definition disk_device :: "(nat \<Rightarrow> u8) \<Rightarrow> device" where
  "disk_device D tr a =
     (if a = Port 0x1F0 then word_at D (512 * sector (ata_after tr) + 4 * pos (ata_after tr))
      else if a = Port 0x1F7 then 0x40 else 0)"

lemma disk_device_ata: "ata_disk (disk_device D) D"
proof -
  have "ata_ready (disk_device D) tr" for tr by (simp add: ata_ready_def inb_def disk_device_def)
  then show ?thesis by (auto simp: ata_disk_def disk_device_def)
qed

theorem bootmain_loads_kernel_witness:
  "\<exists>m tr. bootmain (disk_device kernel_disk) (\<lambda>_. 0, []) = Some (Some 0x100000, m, tr) \<and> m 0x100000 = 0x90"
proof -
  have f: "img_phoff kernel_disk = 52" "img_phnum kernel_disk = 1"
    by (simp_all add: img_phoff_def img_phnum_def word_at_def half_at_def kernel_disk_def)
  then have g: "seg_off kernel_disk 0 = 0x1000" "seg_va kernel_disk 0 = 0x100000" "seg_len kernel_disk 0 = 16"
    by (simp_all add: seg_off_def seg_va_def seg_len_def word_at_def half_at_def kernel_disk_def)
  have "kernel_image kernel_disk"
    unfolding kernel_image_def f by (simp add: g skipped_def) (simp add: word_at_def half_at_def kernel_disk_def ELF_MAGIC_def)
  from bootmain_loads_kernel [OF disk_device_ata this, of "\<lambda>_. 0" "[]"] obtain m tr where
    b: "bootmain (disk_device kernel_disk) (\<lambda>_. 0, []) = Some (Some (word_at kernel_disk (2048 + 24) AND 0xFFFFFF), m, tr)"
    and l: "\<forall>i < img_phnum kernel_disk. \<forall>k < seg_len kernel_disk i. m (of_nat (seg_va kernel_disk i + k)) = kernel_disk (2048 + seg_off kernel_disk i + k)"
    by blast
  have "word_at kernel_disk (2048 + 24) AND 0xFFFFFF = 0x100000" by (simp add: word_at_def half_at_def kernel_disk_def)
  moreover have "m 0x100000 = 0x90" using l [rule_format, of 0 0] unfolding f g by (simp add: kernel_disk_def)
  ultimately show ?thesis using b by simp
qed

end
