(* ===== verification/Memory_Map.thy ===== *)
theory Memory_Map
  imports Page_Table Descriptors
begin

unbundle bit_operations_syntax

text \<open>
  The start of memory management, from \<^verbatim>\<open>mm/memory.c\<close>: the scan of the memory map of the BIOS, which hands the usable
  frames to the page allocator, and the first page directory with the linear map.  The map is the table that the
  boot loader left in memory; \<open>end_va\<close> is the end of the kernel image, a symbol of the linker.
\<close>

section \<open>Operations\<close>

record e820_map =
  em_addr :: u64
  em_size :: u64
  em_type :: u32

record e820 =
  em_n :: int
  em_map :: "e820_map list"

record memory =
  kernel_start_pfn :: nat
  kernel_end_pfn :: nat
  linear_start_pfn :: nat
  linear_end_pfn :: nat
  highmem_end_pfn :: nat
  mem_pages :: pstate

definition E820_MAX :: nat where "E820_MAX = 20"
definition E820_RAM :: u32 where "E820_RAM = 1"
definition PHYS_HIGHMEM_START :: u32 where "PHYS_HIGHMEM_START = 0x38000000"

text \<open>\<open>phys_to_pfn\<close> of a 64-bit address: the cast to \<open>uintptr_t\<close> cuts it to 32 bits.\<close>

definition phys64_to_pfn :: "u64 \<Rightarrow> nat" where
  "phys64_to_pfn x = phys_to_pfn (ucast x)"

definition holds_kernel :: "u32 \<Rightarrow> e820_map \<Rightarrow> bool" where
  "holds_kernel end_va r \<longleftrightarrow> em_type r = E820_RAM \<and> em_addr r < ucast (virt_to_phys end_va) \<and>
     ucast (virt_to_phys end_va) < em_addr r + em_size r"

text \<open>The index of the last entry with the end of the kernel; without one the variable stays uninitialised.\<close>

definition find_index :: "u32 \<Rightarrow> e820_map list \<Rightarrow> nat option" where
  "find_index end_va rs = fold (\<lambda>(i, r) index. if holds_kernel end_va r then Some i else index) (enumerate 0 rs) None"

fun add_slots :: "e820_map list \<Rightarrow> pstate \<Rightarrow> pstate option" where
  "add_slots [] ps = Some ps"
| "add_slots (r # rs) ps =
     do {
       ps \<leftarrow> (if em_type r = E820_RAM
              then add_free_pages (phys64_to_pfn (em_addr r)) (phys64_to_pfn (em_addr r + em_size r)) ps
              else Some ps);
       add_slots rs ps
     }"

definition scan_memory_slot :: "e820 \<Rightarrow> u32 \<Rightarrow> memory \<Rightarrow> memory option" where
  "scan_memory_slot e end_va s =
     do {
       let n = nat (em_n e);
       assert (n \<le> E820_MAX \<and> n \<le> length (em_map e));
       let rs = take n (em_map e);
       index \<leftarrow> find_index end_va rs;
       let s = s\<lparr>kernel_start_pfn := 0\<rparr>;
       let s = s\<lparr>kernel_end_pfn := phys_to_pfn (round_up_page (virt_to_phys end_va))\<rparr>;
       let map = em_map e ! index;
       let free_end_pfn = phys64_to_pfn (em_addr map + em_size map);
       let s = s\<lparr>linear_start_pfn := kernel_end_pfn s\<rparr>;
       let highmem = phys_to_pfn PHYS_HIGHMEM_START;
       let s = s\<lparr>mem_pages := (mem_pages s)\<lparr>highmem_start_pfn := highmem\<rparr>\<rparr>;
       let s = (if free_end_pfn \<le> highmem then s\<lparr>highmem_end_pfn := highmem, linear_end_pfn := free_end_pfn\<rparr>
                else s\<lparr>highmem_end_pfn := free_end_pfn, linear_end_pfn := highmem\<rparr>);
       ps \<leftarrow> add_free_pages (kernel_end_pfn s) free_end_pfn (mem_pages s);
       ps \<leftarrow> add_slots (drop (index + 1) rs) ps;
       Some (s\<lparr>mem_pages := ps\<rparr>)
     }"



section \<open>The memory map\<close>

lemma fold_last_index:
  assumes "P r" "\<forall>x \<in> set post. \<not> P x"
  shows "fold (\<lambda>(i, r) index. if P r then Some i else index) (enumerate k (pre @ r # post)) q = Some (k + length pre)"
proof -
  have "fold (\<lambda>(i, r) index. if P r then Some i else index) (enumerate j post) q = q" if "\<forall>x \<in> set post. \<not> P x" for j q
    using that by (induction post arbitrary: j) simp_all
  then show ?thesis using assms by (simp add: enumerate_append_eq)
qed

text \<open>
  The frames of a region, and usable regions that end below 4 GB and share no frame with the frames \<open>B\<close> or with each
  other, in any order.
\<close>

definition frames :: "e820_map \<Rightarrow> nat set" where
  "frames r = {phys64_to_pfn (em_addr r) ..< phys64_to_pfn (em_addr r + em_size r)}"

fun apart :: "nat set \<Rightarrow> e820_map list \<Rightarrow> bool" where
  "apart B [] \<longleftrightarrow> True"
| "apart B (r # rs) \<longleftrightarrow>
     (if em_type r = E820_RAM
      then unat (em_addr r) + unat (em_size r) < 2 ^ 32 \<and> B \<inter> frames r = {} \<and> apart (B \<union> frames r) rs
      else apart B rs)"

lemma phys64_low:
  assumes "unat x < 2 ^ 32"
  shows "phys64_to_pfn x = unat x div 4096"
  using assms unfolding phys64_to_pfn_def phys_to_pfn_eq unsigned_ucast_eq by (simp add: take_bit_nat_eq_self)

lemma phys_to_pfn_le: "phys_to_pfn x \<le> TOTAL_PAGES"
  using unsigned_less [of x] unfolding phys_to_pfn_eq TOTAL_PAGES_def
  by (intro less_imp_le less_mult_imp_div_less) simp

lemma unat_add_u64:
  fixes a b :: u64
  shows "unat a + unat b < 2 ^ 32 \<Longrightarrow> unat (a + b) = unat a + unat b"
  by (simp add: unat_word_ariths)

lemma add_slots_ok:
  assumes "page_ok {} sl ps {}" "apart (valid_pages ps) rs"
  shows "\<exists>qs. add_slots rs ps = Some qs \<and> page_ok {} sl qs {} \<and> highmem_start_pfn qs = highmem_start_pfn ps \<and>
    valid_pages qs = valid_pages ps \<union> \<Union> (frames ` {r \<in> set rs. em_type r = E820_RAM})"
  using assms
proof (induction rs arbitrary: ps)
  case (Cons r rs)
  show ?case
  proof (cases "em_type r = E820_RAM")
    case True
    let ?a = "phys64_to_pfn (em_addr r)" and ?b = "phys64_to_pfn (em_addr r + em_size r)"
    have r: "unat (em_addr r) + unat (em_size r) < 2 ^ 32" "valid_pages ps \<inter> {?a ..< ?b} = {}"
        "apart (valid_pages ps \<union> {?a ..< ?b}) rs"
      using Cons.prems(2) True by (simp_all add: frames_def)
    have le: "?a \<le> ?b" using r(1) by (simp add: phys64_low unat_add_u64 div_le_mono)
    have le': "?b \<le> TOTAL_PAGES" unfolding phys64_to_pfn_def by (rule phys_to_pfn_le)
    from add_free_pages_ok [OF Cons.prems(1) le le' r(2)] obtain qs where
      q: "add_free_pages ?a ?b ps = Some qs" "page_ok {} sl qs {}" "highmem_start_pfn qs = highmem_start_pfn ps"
        "valid_pages qs = valid_pages ps \<union> {?a ..< ?b}" by blast
    from Cons.IH [OF q(2) r(3) [folded q(4)]] obtain ws where
      w: "add_slots rs qs = Some ws" "page_ok {} sl ws {}" "highmem_start_pfn ws = highmem_start_pfn qs"
        "valid_pages ws = valid_pages qs \<union> \<Union> (frames ` {r \<in> set rs. em_type r = E820_RAM})" by blast
    have "{x \<in> set (r # rs). em_type x = E820_RAM} = insert r {x \<in> set rs. em_type x = E820_RAM}" using True by auto
    then have "valid_pages ws = valid_pages ps \<union> \<Union> (frames ` {x \<in> set (r # rs). em_type x = E820_RAM})"
      unfolding w(4) q(4) by (simp add: Un_assoc frames_def)
    then show ?thesis using True q(1,3) w(1-3) by simp
  next
    case False
    then have "{x \<in> set (r # rs). em_type x = E820_RAM} = {x \<in> set rs. em_type x = E820_RAM}" by auto
    then show ?thesis using Cons.IH [OF Cons.prems(1)] Cons.prems(2) False by simp
  qed
qed simp

lemma page_init_highmem: "(page_init s)\<lparr>highmem_start_pfn := h\<rparr> = page_init (s\<lparr>highmem_start_pfn := h\<rparr>)"
proof -
  have o: "on_plists f (s\<lparr>highmem_start_pfn := h\<rparr>) = (on_plists f s)\<lparr>highmem_start_pfn := h\<rparr>" for f s
    by (cases s) (simp add: on_plists_def)
  have f: "fold (\<lambda>k s. on_plists (f k) (on_plists (g k) s)) ks (s\<lparr>highmem_start_pfn := h\<rparr>)
      = (fold (\<lambda>k s. on_plists (f k) (on_plists (g k) s)) ks s)\<lparr>highmem_start_pfn := h\<rparr>" for f g ks
    by (induction ks arbitrary: s) (simp_all add: o)
  have "(x\<lparr>page_lock := spinlock_init (page_lock x)\<rparr>)\<lparr>highmem_start_pfn := h\<rparr>
      = (x\<lparr>highmem_start_pfn := h\<rparr>)\<lparr>page_lock := spinlock_init (page_lock (x\<lparr>highmem_start_pfn := h\<rparr>))\<rparr>" for x :: pstate
    by (cases x) simp
  then show ?thesis unfolding page_init_def Let_def f .
qed

text \<open>The allocator after \<open>page_init\<close>, with the frame number of the high memory set by the scan.\<close>

lemma boot_pages:
  "page_ok {} sl ((page_init (page_bss 0))\<lparr>highmem_start_pfn := phys_to_pfn PHYS_HIGHMEM_START\<rparr>) {}"
  "valid_pages ((page_init (page_bss 0))\<lparr>highmem_start_pfn := phys_to_pfn PHYS_HIGHMEM_START\<rparr>) = {}"
proof -
  have "2 ^ page_MAX_ORDER dvd phys_to_pfn PHYS_HIGHMEM_START"
    by (simp add: phys_to_pfn_eq PHYS_HIGHMEM_START_def page_MAX_ORDER_def)
  from page_init_ok [OF this] show
    "page_ok {} sl ((page_init (page_bss 0))\<lparr>highmem_start_pfn := phys_to_pfn PHYS_HIGHMEM_START\<rparr>) {}"
    "valid_pages ((page_init (page_bss 0))\<lparr>highmem_start_pfn := phys_to_pfn PHYS_HIGHMEM_START\<rparr>) = {}"
    unfolding page_init_highmem by (simp_all add: page_bss_def)
qed

text \<open>
  The scan up to the regions behind the kernel: \<open>pre\<close> and \<open>post\<close> are the entries in front of and behind the one that
  holds the end of the kernel.
\<close>

lemma scan_memory_first:
  assumes e: "em_map e = pre @ r # post" "em_n e = int (length (em_map e))" "length (em_map e) \<le> E820_MAX"
    and k: "holds_kernel end_va r" "\<forall>x \<in> set post. \<not> holds_kernel end_va x"
    and r: "unat (em_addr r) + unat (em_size r) < 2 ^ 32"
    and s: "mem_pages s = page_init (page_bss 0)"
  defines "ke \<equiv> phys_to_pfn (round_up_page (virt_to_phys end_va))" and "fe \<equiv> (unat (em_addr r) + unat (em_size r)) div 4096"
  assumes le: "ke \<le> fe"
  shows "\<exists>t ps. scan_memory_slot e end_va s = do { ps \<leftarrow> add_slots post ps; Some (t\<lparr>mem_pages := ps\<rparr>) } \<and>
    kernel_start_pfn t = 0 \<and> kernel_end_pfn t = ke \<and> linear_start_pfn t = ke \<and> linear_end_pfn t = min fe 0x38000 \<and>
    highmem_end_pfn t = max fe 0x38000 \<and> page_ok {} sl ps {} \<and> highmem_start_pfn ps = 0x38000 \<and> valid_pages ps = {ke ..< fe}"
proof -
  let ?p = "(page_init (page_bss 0))\<lparr>highmem_start_pfn := 0x38000\<rparr>"
  have hm: "phys_to_pfn PHYS_HIGHMEM_START = 0x38000" by (simp add: phys_to_pfn_eq PHYS_HIGHMEM_START_def)
  note B = boot_pages(1) [of sl, unfolded hm] boot_pages(2) [unfolded hm]
  have fe: "phys64_to_pfn (em_addr r + em_size r) = fe" using r by (simp add: fe_def phys64_low unat_add_u64)
  have "fe \<le> TOTAL_PAGES" using phys_to_pfn_le [of "ucast (em_addr r + em_size r)"] fe by (simp add: phys64_to_pfn_def)
  moreover have "valid_pages ?p \<inter> {ke ..< fe} = {}" unfolding B by simp
  ultimately obtain ps where ps: "add_free_pages ke fe ?p = Some ps" "page_ok {} sl ps {}"
      "highmem_start_pfn ps = 0x38000" "valid_pages ps = {ke ..< fe}"
    using add_free_pages_ok [OF B(1) le] unfolding B by auto
  define t where "t = s\<lparr>kernel_start_pfn := 0, kernel_end_pfn := ke, linear_start_pfn := ke,
    highmem_end_pfn := max fe 0x38000, linear_end_pfn := min fe 0x38000, mem_pages := ?p\<rparr>"
  have ix: "find_index end_va (em_map e) = Some (length pre)"
    using fold_last_index [where P = "holds_kernel end_va" and q = None and k = 0, OF k] unfolding find_index_def e(1) by simp
  have tk: "take (nat (em_n e)) (em_map e) = em_map e" "drop (Suc (length pre)) (em_map e) = post" "em_map e ! length pre = r"
    unfolding e(2) by (simp_all add: e(1))
  have "scan_memory_slot e end_va s = do { ps \<leftarrow> add_slots post ps; Some (t\<lparr>mem_pages := ps\<rparr>) }"
  proof (cases "fe \<le> 0x38000")
    case True
    then show ?thesis
      unfolding scan_memory_slot_def Let_def tk(1) using e(2,3) ix ps(1)
      by (simp add: tk fe ke_def [symmetric] s hm t_def min_def max_def)
  next
    case False
    then show ?thesis
      unfolding scan_memory_slot_def Let_def tk(1) using e(2,3) ix ps(1)
      by (simp add: tk fe ke_def [symmetric] s hm t_def min_def max_def)
  qed
  then show ?thesis using ps(2-4) by (intro exI [of _ t] exI [of _ ps]) (simp add: t_def)
qed

text \<open>
  C16: \<open>scan_memory_slot\<close>, right after \<open>page_init\<close>, on a memory map in which a usable region below 4 GB holds the
  end of the kernel with the page after it, no entry behind it does, and the usable regions listed behind it end
  below 4 GB and overlap neither this region nor each other.  It returns, and the frames handed to the allocator are
  exactly those from the end of the kernel to the end of its region and those of the usable regions listed behind
  it; the allocator is in a good state with nothing allocated.  A frame below the end of the kernel is among them
  exactly when a region listed behind reaches below it: the order of the list is taken for that of the addresses.
\<close>

theorem scan_memory_slot_spec:
  assumes "em_map e = pre @ r # post" "em_n e = int (length (em_map e))" "length (em_map e) \<le> E820_MAX"
    and "holds_kernel end_va r" "\<forall>x \<in> set post. \<not> holds_kernel end_va x"
    and "unat (em_addr r) + unat (em_size r) < 2 ^ 32" "mem_pages s = page_init (page_bss 0)"
    and "ke = phys_to_pfn (round_up_page (virt_to_phys end_va))" "fe = (unat (em_addr r) + unat (em_size r)) div 4096"
    and "ke \<le> fe" "apart {ke ..< fe} post"
  shows "\<exists>t. scan_memory_slot e end_va s = Some t \<and> page_ok {} sl (mem_pages t) {} \<and>
    valid_pages (mem_pages t) = {ke ..< fe} \<union> \<Union> (frames ` {x \<in> set post. em_type x = E820_RAM}) \<and>
    (valid_pages (mem_pages t) \<inter> {..< ke} = {} \<longleftrightarrow> (\<forall>x \<in> set post. em_type x = E820_RAM \<longrightarrow> frames x \<subseteq> {ke ..})) \<and>
    kernel_end_pfn t = ke \<and> linear_end_pfn t = min fe 0x38000 \<and> highmem_start_pfn (mem_pages t) = 0x38000"
proof -
  obtain t ps where t: "scan_memory_slot e end_va s = do { ps \<leftarrow> add_slots post ps; Some (t\<lparr>mem_pages := ps\<rparr>) }"
      "kernel_end_pfn t = ke" "linear_end_pfn t = min fe 0x38000" "page_ok {} sl ps {}" "highmem_start_pfn ps = 0x38000"
      "valid_pages ps = {ke ..< fe}"
    using scan_memory_first [OF assms(1-7), of sl] assms(8-10) by auto
  from add_slots_ok [OF t(4) assms(11) [folded t(6)]] obtain qs where q: "add_slots post ps = Some qs" "page_ok {} sl qs {}"
      "highmem_start_pfn qs = 0x38000" "valid_pages qs = {ke ..< fe} \<union> \<Union> (frames ` {x \<in> set post. em_type x = E820_RAM})"
    unfolding t(5,6) by blast
  moreover have "valid_pages qs \<inter> {..< ke} = {} \<longleftrightarrow> (\<forall>x \<in> set post. em_type x = E820_RAM \<longrightarrow> frames x \<subseteq> {ke ..})"
    unfolding q(4) by (fastforce simp: not_less)
  ultimately show ?thesis using t(1-3) by simp
qed

text \<open>A map with 3 MB of memory behind the first megabyte, a reserved region and another megabyte.\<close>

definition small_map :: e820 where
  "small_map = \<lparr>em_n = 4, em_map = [\<lparr>em_addr = 0, em_size = 0x9F000, em_type = 1\<rparr>, \<lparr>em_addr = 0x100000, em_size = 0x300000, em_type = 1\<rparr>,
     \<lparr>em_addr = 0x400000, em_size = 0x100000, em_type = 2\<rparr>, \<lparr>em_addr = 0x500000, em_size = 0x100000, em_type = 1\<rparr>]\<rparr>"

definition memory_bss :: memory where
  "memory_bss = \<lparr>kernel_start_pfn = 0, kernel_end_pfn = 0, linear_start_pfn = 0, linear_end_pfn = 0, highmem_end_pfn = 0,
     mem_pages = page_init (page_bss 0)\<rparr>"

lemma round_up_page_200000: "phys_to_pfn (round_up_page (virt_to_phys 0xC0200000)) = 0x200"
  by (simp add: virt_to_phys_def round_up_page_def round_up_def unat_round_down phys_to_pfn_eq addr_consts)

theorem scan_memory_slot_spec_witness:
  "\<exists>t. scan_memory_slot small_map 0xC0200000 memory_bss = Some t \<and>
    valid_pages (mem_pages t) = {0x200 ..< 0x400} \<union> {0x500 ..< 0x600} \<and> valid_pages (mem_pages t) \<inter> {..< 0x200} = {}"
proof -
  let ?r = "\<lparr>em_addr = 0x100000, em_size = 0x300000, em_type = 1\<rparr>"
  let ?post = "[\<lparr>em_addr = 0x400000, em_size = 0x100000, em_type = 2\<rparr>, \<lparr>em_addr = 0x500000, em_size = 0x100000, em_type = 1\<rparr>]"
  have m: "em_map small_map = [\<lparr>em_addr = 0, em_size = 0x9F000, em_type = 1\<rparr>] @ ?r # ?post" by (simp add: small_map_def)
  have "holds_kernel 0xC0200000 ?r" "\<forall>x \<in> set ?post. \<not> holds_kernel 0xC0200000 x"
    by (simp_all add: holds_kernel_def E820_RAM_def virt_to_phys_def addr_consts)
  moreover have "em_n small_map = int (length (em_map small_map))" "length (em_map small_map) \<le> E820_MAX"
    by (simp_all add: small_map_def E820_MAX_def)
  moreover have "apart {0x200 ..< 0x400} ?post" by (simp add: E820_RAM_def frames_def phys64_low)
  moreover have "{x \<in> set ?post. em_type x = E820_RAM} = {\<lparr>em_addr = 0x500000, em_size = 0x100000, em_type = 1\<rparr>}"
    by (auto simp: E820_RAM_def)
  moreover have "frames \<lparr>em_addr = 0x500000, em_size = 0x100000, em_type = 1\<rparr> = {0x500 ..< 0x600}"
    by (simp add: frames_def phys64_low)
  ultimately show ?thesis
    using scan_memory_slot_spec [OF m, of "0xC0200000" memory_bss "0x200" "0x400" "\<lambda>_. []"] round_up_page_200000
    by (auto simp: memory_bss_def E820_RAM_def simp del: apart.simps)
qed




section \<open>The page directory of the kernel\<close>










end
