(* ===== verification/Resize_Binary.thy ===== *)
theory Resize_Binary
  imports Prelude
begin

text \<open>
  The host program \<^verbatim>\<open>tools/resize_binary.c\<close>, which pads the pieces of the disk image to their size and signs the boot
  sector.  The files are a map from names to contents.  Whether a file can be opened for writing and how many
  bytes the disk takes are arguments; the use of the null pointer of a failed \<open>fopen\<close> or \<open>malloc\<close> is \<open>None\<close>.
\<close>

section \<open>Operations\<close>

record host =
  files_of :: "string \<Rightarrow> u8 list option"
  writable :: "string \<Rightarrow> bool"
  room :: "string \<Rightarrow> nat"
  malloc_ok :: "nat \<Rightarrow> bool"

text \<open>\<open>buf\<close> with \<open>bs\<close> written from the start; more bytes than the buffer has do not fit.\<close>

definition fill :: "u8 list \<Rightarrow> u8 list \<Rightarrow> u8 list option" where
  "fill buf bs = (if length bs \<le> length buf then Some (bs @ drop (length bs) buf) else None)"

definition read_binary :: "string \<Rightarrow> u8 list \<Rightarrow> nat \<Rightarrow> host \<Rightarrow> (int \<times> u8 list) option" where
  "read_binary fname buf n h =
     do {
       f \<leftarrow> files_of h fname;
       let got = take n f;
       buf \<leftarrow> fill buf got;
       if length got \<noteq> n then Some (- 1, buf) else Some (int n, buf)
     }"

definition write_binary :: "string \<Rightarrow> u8 list \<Rightarrow> nat \<Rightarrow> host \<Rightarrow> (int \<times> host) option" where
  "write_binary fname buf n h =
     do {
       assert (writable h fname \<and> n \<le> length buf);
       let put = take (min n (room h fname)) buf;
       let h = h\<lparr>files_of := (files_of h)(fname \<mapsto> put)\<rparr>;
       if length put \<noteq> n then Some (- 1, h) else Some (int n, h)
     }"

definition put_sign :: "u8 list \<Rightarrow> u8 list option" where
  "put_sign buf = do { assert (511 < length buf); Some (buf[510 := 0x55, 511 := 0xAA]) }"

definition resize_binary :: "string \<Rightarrow> string \<Rightarrow> int \<Rightarrow> bool \<Rightarrow> host \<Rightarrow> (int \<times> host) option" where
  "resize_binary ifname ofname n isbootsect h =
     (case files_of h ifname of None \<Rightarrow> Some (- 1, h)
      | Some f \<Rightarrow>
          let st_size = length f
          in if int st_size > (if isbootsect then 510 else n) then Some (- 1, h)
             else do {
               let buf_size = (if isbootsect then 512 else n);
               assert (0 \<le> buf_size \<and> malloc_ok h (nat buf_size));
               let buf = replicate (nat buf_size) 0;
               (ret, buf) \<leftarrow> read_binary ifname buf st_size h;
               if ret < 0 then Some (- 1, h)
               else do {
                 buf \<leftarrow> (if isbootsect then put_sign buf else Some buf);
                 (ret, h) \<leftarrow> write_binary ofname buf (nat buf_size) h;
                 if ret < 0 then Some (- 1, h) else Some (0, h)
               }
             })"

text \<open>
  The options as \<open>getopt\<close> returns them, the argument of \<open>-n\<close> converted by \<open>atoi\<close>; the exit status of the program.
\<close>

datatype opt = Opt_i string | Opt_o string | Opt_b | Opt_n int | Opt_bad

fun parse_opts :: "opt list \<Rightarrow> string option \<times> string option \<times> bool \<times> int \<Rightarrow> (string option \<times> string option \<times> bool \<times> int) option" where
  "parse_opts [] a = Some a"
| "parse_opts (c # cs) (ifname, ofname, isbootsect, sz) =
     (case c of
        Opt_i f \<Rightarrow> parse_opts cs (Some f, ofname, isbootsect, sz)
      | Opt_o f \<Rightarrow> parse_opts cs (ifname, Some f, isbootsect, sz)
      | Opt_b \<Rightarrow> parse_opts cs (ifname, ofname, True, sz)
      | Opt_n n \<Rightarrow> parse_opts cs (ifname, ofname, isbootsect, n)
      | Opt_bad \<Rightarrow> None)"

definition resize_main :: "opt list \<Rightarrow> host \<Rightarrow> (int \<times> host) option" where
  "resize_main args h =
     (case parse_opts args (None, None, False, 512) of None \<Rightarrow> Some (- 1, h)
      | Some (ifname, ofname, isbootsect, sz) \<Rightarrow>
          (case (ifname, ofname) of
             (Some i, Some out) \<Rightarrow>
               if sz \<le> 0 then Some (- 1, h)
               else do {
                 (ret, h) \<leftarrow> resize_binary i out sz isbootsect h;
                 if ret < 0 then Some (- 1, h) else Some (0, h)
               }
           | _ \<Rightarrow> Some (- 1, h)))"

section \<open>What is written\<close>

text \<open>The contents of the output file.\<close>

definition padded :: "int \<Rightarrow> bool \<Rightarrow> u8 list \<Rightarrow> u8 list" where
  "padded n b f = (if b then f @ replicate (510 - length f) 0 @ [0x55, 0xAA] else f @ replicate (nat n - length f) 0)"

lemma put_sign_padded:
  assumes "length f \<le> 510"
  shows "put_sign (f @ replicate (512 - length f) 0) = Some (padded n True f)"
proof -
  obtain k where k: "510 = length f + k" using assms by (metis le_Suc_ex)
  have "512 - length f = k + 2" using k by simp
  moreover have "replicate (k + 2) (0 :: u8) = replicate k 0 @ [0, 0]" unfolding replicate_add by (simp add: numeral_2_eq_2)
  ultimately have e: "f @ replicate (512 - length f) 0 = (f @ replicate k 0) @ [0, 0]" by simp
  have l: "length (f @ replicate k (0 :: u8)) = 510" using k by simp
  have "put_sign (g @ [0, 0]) = Some (g @ [0x55, 0xAA])" if "length g = 510" for g
    unfolding put_sign_def using that by (simp add: list_update_append)
  from this [OF l] have "put_sign ((f @ replicate k 0) @ [0, 0]) = Some ((f @ replicate k 0) @ [0x55, 0xAA])" .
  moreover have "510 - length f = k" using k by simp
  ultimately show ?thesis unfolding e by (simp add: padded_def)
qed

text \<open>
  \<open>resize_binary\<close> of an existing file that is not too large, with memory and room on the disk, succeeds and
  writes the contents padded with zeros to \<open>n\<close> bytes - for a boot sector, whatever \<open>n\<close> is, to 510 bytes and the signature
  - and nothing else.  A file that is too large, or a missing one, is an error and nothing is written.
\<close>

theorem resize_binary_spec:
  assumes "\<forall>k. malloc_ok h k" "writable h ofname" "nat (max n 512) \<le> room h ofname" "0 < n"
  shows "resize_binary ifname ofname n b h =
    (case files_of h ifname of
       Some f \<Rightarrow> if int (length f) \<le> (if b then 510 else n)
                 then Some (0, h\<lparr>files_of := (files_of h)(ofname \<mapsto> padded n b f)\<rparr>)
                 else Some (- 1, h)
     | None \<Rightarrow> Some (- 1, h))"
proof (cases "files_of h ifname")
  case (Some f)
  let ?n = "if b then 512 else n"
  show ?thesis
  proof (cases "int (length f) \<le> (if b then 510 else n)")
    case True
    then have l: "length f \<le> nat ?n" by (simp split: if_splits)
    have rd: "read_binary ifname (replicate (nat ?n) 0) (length f) h = Some (int (length f), f @ replicate (nat ?n - length f) 0)"
      using Some l by (simp add: read_binary_def fill_def)
    have pd: "(if b then put_sign (f @ replicate (nat ?n - length f) 0) else Some (f @ replicate (nat ?n - length f) 0)) = Some (padded n b f)"
      using True put_sign_padded [of f n] by (cases b) (simp_all add: padded_def)
    have lp: "length (padded n b f) = nat ?n" using True by (cases b) (simp_all add: padded_def)
    have rm: "nat ?n \<le> room h ofname" using assms(3) by (cases b) simp_all
    have wr: "write_binary ofname (padded n b f) (nat ?n) h = Some (int (nat ?n), h\<lparr>files_of := (files_of h)(ofname \<mapsto> padded n b f)\<rparr>)"
      using assms(2) lp rm by (simp add: write_binary_def min_def)
    have "resize_binary ifname ofname n b h =
        do { (ret, h) \<leftarrow> write_binary ofname (padded n b f) (nat ?n) h; if ret < 0 then Some (- 1, h) else Some (0, h) }"
      using Some True assms(1,4) rd pd unfolding resize_binary_def Let_def by (auto split: if_splits)
    then show ?thesis using Some True wr by simp
  next
    case False
    then show ?thesis using Some by (simp add: resize_binary_def Let_def)
  qed
qed (simp add: resize_binary_def)

theorem resize_binary_spec_witness:
  "resize_binary ''boot'' ''sect'' 512 True
      \<lparr>files_of = [''boot'' \<mapsto> [0xFA]], writable = (\<lambda>_. True), room = (\<lambda>_. 1024), malloc_ok = (\<lambda>_. True)\<rparr>
    = Some (0, \<lparr>files_of = [''boot'' \<mapsto> [0xFA], ''sect'' \<mapsto> 0xFA # replicate 509 0 @ [0x55, 0xAA]],
                writable = (\<lambda>_. True), room = (\<lambda>_. 1024), malloc_ok = (\<lambda>_. True)\<rparr>)"
  using resize_binary_spec [of "\<lparr>files_of = [''boot'' \<mapsto> [0xFA]], writable = (\<lambda>_. True), room = (\<lambda>_. 1024), malloc_ok = (\<lambda>_. True)\<rparr>"
      "''sect''" 512 "''boot''" True]
  by (simp add: padded_def)

end
