(* ===== verification/Rb_Client.thy ===== *)
theory Rb_Client
  imports Rb_Remove Addresses
begin

text \<open>
  The red-black tree as its clients in the kernel use it: through a pointer to the tree that may be null, with addresses as
  keys, and without looking at the result of an insertion.  The contract is the locale \<open>interval_map\<close>.
\<close>

text \<open>\<open>rb_tree_insert\<close> and \<open>rb_tree_remove\<close> of a null tree do nothing; \<open>rb_tree_search\<close> reads through the pointer.\<close>

definition tree_insert :: "(heap \<Rightarrow> ptr) \<Rightarrow> rb_tree option \<Rightarrow> u32 \<Rightarrow> u32 \<Rightarrow> nat \<Rightarrow> rb_tree option option" where
  "tree_insert km tree start stop v =
     (case tree of None \<Rightarrow> Some None
      | Some t \<Rightarrow> map_option Some (rb_ins km t (unat start) (unat stop) v))"

definition tree_search :: "rb_tree option \<Rightarrow> u32 \<Rightarrow> interval option option" where
  "tree_search tree key = do { t \<leftarrow> tree; rb_look t (unat key) }"

definition tree_remove :: "rb_tree option \<Rightarrow> u32 \<Rightarrow> rb_tree option option" where
  "tree_remove tree key = (case tree of None \<Rightarrow> Some None | Some t \<Rightarrow> map_option Some (rb_del t (unat key)))"

lemma tree_insert_law:
  assumes "rb_repr km t ys"
  shows "\<exists>t'. tree_insert km (Some t) a b v = Some (Some t') \<and> rb_repr km t' (iv_ins (unat a) (unat b) v ys)"
  using rb_map.ins_law [OF assms, of "unat a" "unat b" v] by (auto simp: tree_insert_def)

lemma tree_search_law: "rb_repr km t ys \<Longrightarrow> tree_search (Some t) key = Some (iv_look (unat key) ys)"
  using rb_map.look_law by (simp add: tree_search_def)

text \<open>Behind all others, and apart from all others.\<close>

lemma iv_ins_last:
  assumes "\<And>y. y \<in> set ys \<Longrightarrow> fst y \<le> fst (snd y) \<and> fst (snd y) < s" "s \<le> e"
  shows "iv_ins s e v ys = ys @ [(s, e, v)]"
proof -
  have "filter (\<lambda>y. fst (snd y) < s) ys = ys" "filter (\<lambda>y. e < fst y) ys = []"
    using assms by (fastforce simp: filter_id_conv filter_empty_conv)+
  moreover have "\<forall>y\<in>set ys. \<not> (s \<le> fst (snd y) \<and> fst y \<le> e)" using assms(1) by fastforce
  ultimately show ?thesis using assms(2) by (simp add: iv_ins_def)
qed

lemma set_iv_ins:
  assumes "\<And>y. y \<in> set ys \<Longrightarrow> fst (snd y) < s \<or> e < fst y" "s \<le> e"
  shows "set (iv_ins s e v ys) = insert (s, e, v) (set ys)"
proof -
  have d: "\<forall>y\<in>set ys. \<not> (s \<le> fst (snd y) \<and> fst y \<le> e)" using assms(1) by (meson not_le)
  then have "iv_ins s e v ys = filter (\<lambda>y. fst (snd y) < s) ys @ [(s, e, v)] @ filter (\<lambda>y. e < fst y) ys"
    using assms(2) unfolding iv_ins_def by (intro if_P conjI)
  moreover have "set ys = {y \<in> set ys. fst (snd y) < s} \<union> {y \<in> set ys. e < fst y}" using assms(1) by blast
  ultimately show ?thesis by auto
qed

end
