(* ===== verification/Debug.thy ===== *)
theory Debug
  imports Rb_Client Console Timer Mem_Fields
begin

text \<open>
  The symbol tables, the call traces and the log of \<^verbatim>\<open>kernel/debug.c\<close>.  The debug symbols that the linker puts between
  \<open>__STAB_BEGIN__\<close> and \<open>__STAB_END__\<close> are a list of stabs with their addresses, the string table a list of bytes.  The two
  trees map intervals of addresses to stabs; each has the heap of its own nodes, and \<open>km\<close> is what \<open>kmalloc\<close> of a node returns.

  What a call trace prints is the list of the arguments of \<open>pr_info\<close>, with the numbers before they are formatted.
\<close>

section \<open>State\<close>

definition N_FUN :: u8 where "N_FUN = 0x24"
definition N_SO :: u8 where "N_SO = 0x64"

record stab =
  n_strx :: u32
  n_type :: u8
  n_other :: u8
  n_desc :: u16
  n_value :: u32

record debug =
  g_stab_so_tree :: "rb_tree option"
  g_stab_fun_tree :: "rb_tree option"
  debug_s :: kstring
  b_init_debug :: bool
  log_line :: kstring
  log_s :: kstring
  dmesg_s :: kstring

section \<open>Reading the symbols\<close>

text \<open>What the loop does for one kind of stab: close the interval of the previous one.\<close>

definition next_stab ::
  "(heap \<Rightarrow> ptr) \<Rightarrow> nat \<times> stab \<Rightarrow> rb_tree option \<times> (nat \<times> stab) option \<Rightarrow> (rb_tree option \<times> (nat \<times> stab) option) option" where
  "next_stab km x tp =
     do {
       tree \<leftarrow> (case snd tp of None \<Rightarrow> Some (fst tp)
          | Some p \<Rightarrow> tree_insert km (fst tp) (n_value (snd p)) (n_value (snd x) - 1) (fst p));
       Some (tree, Some x)
     }"

fun stab_loop ::
  "(heap \<Rightarrow> ptr) \<Rightarrow> (nat \<times> stab) list \<Rightarrow> rb_tree option \<times> (nat \<times> stab) option \<Rightarrow> rb_tree option \<times> (nat \<times> stab) option \<Rightarrow>
   ((rb_tree option \<times> (nat \<times> stab) option) \<times> (rb_tree option \<times> (nat \<times> stab) option)) option" where
  "stab_loop km [] so fn = Some (so, fn)"
| "stab_loop km (x # xs) so fn =
     do {
       so \<leftarrow> (if n_type (snd x) = N_SO \<and> n_strx (snd x) \<noteq> 0 then next_stab km x so else Some so);
       fn \<leftarrow> (if n_type (snd x) = N_FUN then next_stab km x fn else Some fn);
       stab_loop km xs so fn
     }"

definition last_stab :: "(heap \<Rightarrow> ptr) \<Rightarrow> rb_tree option \<times> (nat \<times> stab) option \<Rightarrow> rb_tree option option" where
  "last_stab km tp =
     (case snd tp of None \<Rightarrow> Some (fst tp)
      | Some p \<Rightarrow> tree_insert km (fst tp) (n_value (snd p)) 0xffffffff (fst p))"

text \<open>The static buffers have 128 bytes, the one of the messages 32 pages; static memory is zero.\<close>

definition debug_init :: "(heap \<Rightarrow> ptr) \<Rightarrow> ptr \<Rightarrow> ptr \<Rightarrow> (nat \<times> stab) list \<Rightarrow> debug \<Rightarrow> debug option" where
  "debug_init km mem1 mem2 stabs d =
     do {
       let so = rb_tree_create mem1 Map.empty;
       let fn = rb_tree_create mem2 Map.empty;
       (so, fn) \<leftarrow> stab_loop km stabs (so, None) (fn, None);
       so_tree \<leftarrow> last_stab km so;
       fun_tree \<leftarrow> last_stab km fn;
       Some \<lparr>g_stab_so_tree = so_tree, g_stab_fun_tree = fun_tree,
         debug_s = ksinit (replicate 128 0) 128, b_init_debug = True,
         log_line = ksinit (replicate 128 0) 128, log_s = ksinit (replicate 128 0) 128,
         dmesg_s = ksinit (replicate (4096 * 32) 0) (4096 * 32)\<rparr>
     }"

section \<open>Call traces\<close>

datatype trace_arg = Text bytes | Hex u32

text \<open>\<open>strfind\<close> on a list of bytes: the position of the character, or of the terminator.\<close>

partial_function (option) strfind_buf :: "bytes \<Rightarrow> u8 \<Rightarrow> nat \<Rightarrow> nat option" where
  "strfind_buf s c i =
     do { x \<leftarrow> get_byte s i; if x \<noteq> 0 then if x = c then Some i else strfind_buf s c (i + 1) else Some i }"

declare strfind_buf.simps [code]

definition unknown_file :: bytes where
  "unknown_file = map of_char ''<unknown>'' @ [0]"

definition unknown_fun :: bytes where
  "unknown_fun = map of_char ''unknown'' @ [0]"

definition stab_string :: "(nat \<times> stab) list \<Rightarrow> bytes \<Rightarrow> nat \<Rightarrow> (stab \<times> bytes) option" where
  "stab_string stabs strtab v = do { stab \<leftarrow> map_of stabs v; Some (stab, drop (unat (n_strx stab)) strtab) }"

text \<open>
  A string that outgrows its buffer is moved to a larger one and the old buffer is passed to \<open>kfree\<close>, which must not
  happen to the static buffers here.
\<close>

definition keeps_buffer :: "kstring \<Rightarrow> kstring \<Rightarrow> unit option" where
  "keeps_buffer old new = assert (ks_capacity new = ks_capacity old)"

definition dump_fun ::
  "alloc \<Rightarrow> (nat \<times> stab) list \<Rightarrow> bytes \<Rightarrow> u32 \<Rightarrow> bytes \<Rightarrow> debug \<Rightarrow> (trace_arg list \<times> debug) option" where
  "dump_fun kmalloc stabs strtab eip fname d =
     do {
       r \<leftarrow> tree_search (g_stab_fun_tree d) eip;
       case r of
         None \<Rightarrow> Some ([Text [9, 0], Text unknown_fun, Text [9, 91, 0], Text fname, Text [93, 0]], d)
       | Some (start, stop, v) \<Rightarrow>
           if v = 0 then Some ([], d)
           else do {
             (stab, func) \<leftarrow> stab_string stabs strtab v;
             let ks = (debug_s d)\<lparr>ks_length := 0\<rparr>;
             n \<leftarrow> strfind_buf func 58 0;
             (_, ks) \<leftarrow> ksappend_strn kmalloc ks (Some func) n;
             _ \<leftarrow> keeps_buffer (debug_s d) ks;
             name \<leftarrow> ks_str ks;
             Some ([Text [9, 0], Text name, Text [43, 0], Hex (eip - n_value stab), Text [47, 0],
               Hex (of_nat stop - of_nat start), Text [9, 91, 0], Text fname, Text [93, 0]], d\<lparr>debug_s := ks\<rparr>)
           }
     }"

definition dump_eip ::
  "alloc \<Rightarrow> (nat \<times> stab) list \<Rightarrow> bytes \<Rightarrow> u32 \<Rightarrow> debug \<Rightarrow> (trace_arg list \<times> debug) option" where
  "dump_eip kmalloc stabs strtab eip d =
     (if \<not> b_init_debug d then Some ([], d)
      else do {
        r \<leftarrow> tree_search (g_stab_so_tree d) eip;
        case r of
          None \<Rightarrow> dump_fun kmalloc stabs strtab eip unknown_file d
        | Some (_, _, v) \<Rightarrow>
            if v = 0 then Some ([], d)
            else do { (_, fname) \<leftarrow> stab_string stabs strtab v; dump_fun kmalloc stabs strtab eip fname d }
      })"

text \<open>\<open>dump_trapstack\<close>; \<open>dump_stack\<close> starts from the registers of the caller.  The saved registers are words of memory.\<close>

function trace_loop :: "alloc \<Rightarrow> (nat \<times> stab) list \<Rightarrow> bytes \<Rightarrow> mem \<Rightarrow> nat \<Rightarrow> u32 \<Rightarrow> u32 \<Rightarrow> debug \<Rightarrow>
    (trace_arg list list \<times> debug) option" where
  "trace_loop kmalloc stabs strtab m i ebp eip d =
     (if ebp \<noteq> 0 \<and> i < 20 then
        do {
          (out, d) \<leftarrow> dump_eip kmalloc stabs strtab eip d;
          (outs, d) \<leftarrow> trace_loop kmalloc stabs strtab m (i + 1) (get_u32 m ebp) (get_u32 m (ebp + 4)) d;
          Some (out # outs, d)
        }
      else Some ([], d))"
  by pat_completeness auto
termination
  by (relation "measure (\<lambda>(kmalloc, stabs, strtab, m, i, ebp, eip, d). 20 - i)") auto

declare trace_loop.simps [simp del]

definition dump_trapstack :: "alloc \<Rightarrow> (nat \<times> stab) list \<Rightarrow> bytes \<Rightarrow> mem \<Rightarrow> u32 \<Rightarrow> u32 \<Rightarrow> debug \<Rightarrow>
    (trace_arg list list \<times> debug) option" where
  "dump_trapstack kmalloc stabs strtab m ebp eip d = trace_loop kmalloc stabs strtab m 0 ebp eip d"

definition dump_stack :: "alloc \<Rightarrow> (nat \<times> stab) list \<Rightarrow> bytes \<Rightarrow> mem \<Rightarrow> u32 \<Rightarrow> u32 \<Rightarrow> debug \<Rightarrow>
    (trace_arg list list \<times> debug) option" where
  "dump_stack kmalloc stabs strtab m read_ebp read_eip d = trace_loop kmalloc stabs strtab m 0 read_ebp read_eip d"

section \<open>The trees hold the spans of the symbols\<close>

abbreviation val :: "nat \<times> stab \<Rightarrow> u32" where "val x \<equiv> n_value (snd x)"

definition stabs_sorted :: "(nat \<times> stab) list \<Rightarrow> bool" where
  "stabs_sorted xs \<longleftrightarrow> sorted_wrt (\<lambda>x y. val x < val y) xs"

text \<open>Every symbol spans the addresses up to the next one, the last one the rest of the address space.\<close>

fun spans :: "(nat \<times> stab) list \<Rightarrow> interval list" where
  "spans [] = []"
| "spans [x] = [(unat (val x), 0xffffffff, fst x)]"
| "spans (x # y # r) = (unat (val x), unat (val y) - 1, fst x) # spans (y # r)"

lemma spans_Nil_iff [simp]: "spans xs = [] \<longleftrightarrow> xs = []"
  by (cases xs rule: spans.cases) auto

lemma spans_snoc: "spans (s @ [x]) = butlast (spans (s @ [x])) @ [(unat (val x), 0xffffffff, fst x)]"
proof (induction s rule: spans.induct)
  case (3 a b r)
  then show ?case by (cases "spans ((b # r) @ [x])") (auto split: if_splits)
qed simp_all

lemma spans_snoc2:
  "butlast (spans (s @ [p, x])) = butlast (spans (s @ [p])) @ [(unat (val p), unat (val x) - 1, fst p)]"
proof (induction s rule: spans.induct)
  case (3 a b r)
  have "spans ((b # r) @ [p, x]) \<noteq> []" "spans ((b # r) @ [p]) \<noteq> []" by simp_all
  then show ?case using 3 by (simp add: butlast_append)
qed simp_all

lemma butlast_spans:
  assumes "stabs_sorted (s @ [p])" "y \<in> set (butlast (spans (s @ [p])))"
  shows "fst y \<le> fst (snd y) \<and> fst (snd y) < unat (val p)"
  using assms
proof (induction s rule: spans.induct)
  case (2 a)
  then show ?case by (auto simp: stabs_sorted_def word_less_nat_alt)
next
  case (3 a b r)
  have n: "spans ((b # r) @ [p]) \<noteq> []" by simp
  have ab: "unat (val a) < unat (val b)" "unat (val b) < unat (val p)"
    using "3.prems"(1) by (auto simp: stabs_sorted_def word_less_nat_alt)
  show ?case
  proof (cases "y = (unat (val a), unat (val b) - 1, fst a)")
    case True
    then have "fst y = unat (val a)" "fst (snd y) = unat (val b) - 1" by simp_all
    then show ?thesis using ab by linarith
  next
    case False
    then have "y \<in> set (butlast (spans ((b # r) @ [p])))" using "3.prems"(2) n by simp
    then show ?thesis using "3.IH" "3.prems"(1) by (simp add: stabs_sorted_def)
  qed
qed simp

definition tracked ::
  "(heap \<Rightarrow> ptr) \<Rightarrow> (nat \<times> stab) list \<Rightarrow> rb_tree option \<times> (nat \<times> stab) option \<Rightarrow> bool" where
  "tracked km seen tp \<longleftrightarrow> (\<exists>t. fst tp = Some t \<and> rb_repr km t (butlast (spans seen))) \<and>
     snd tp = (if seen = [] then None else Some (last seen))"

lemma tree_insert_last:
  assumes "rb_repr km t ys" "\<And>y. y \<in> set ys \<Longrightarrow> fst y \<le> fst (snd y) \<and> fst (snd y) < unat a" "a \<le> b"
  shows "\<exists>t'. tree_insert km (Some t) a b v = Some (Some t') \<and> rb_repr km t' (ys @ [(unat a, unat b, v)])"
proof -
  have "iv_ins (unat a) (unat b) v ys = ys @ [(unat a, unat b, v)]"
    using assms(2,3) by (intro iv_ins_last) (auto simp: word_le_nat_alt)
  then show ?thesis using tree_insert_law [OF assms(1), of a b v] by simp
qed

lemma next_stab_tracked:
  assumes "tracked km seen tp" "stabs_sorted (seen @ [x])"
  shows "\<exists>tp'. next_stab km x tp = Some tp' \<and> tracked km (seen @ [x]) tp'"
proof (cases seen rule: rev_cases)
  case Nil
  then show ?thesis using assms(1) by (simp add: tracked_def next_stab_def)
next
  case (snoc s p)
  obtain t where t: "tp = (Some t, Some p)" "rb_repr km t (butlast (spans (s @ [p])))"
    using assms(1) snoc by (cases tp) (auto simp: tracked_def)
  have lt: "unat (val p) < unat (val x)" and st: "stabs_sorted (s @ [p])"
    using assms(2) snoc by (auto simp: stabs_sorted_def sorted_wrt_append word_less_nat_alt)
  then have u: "unat (val x - 1) = unat (val x) - 1" by (intro unat_minus_one) auto
  then have le: "val p \<le> val x - 1" using lt by (simp add: word_le_nat_alt)
  obtain t' where "tree_insert km (Some t) (val p) (val x - 1) (fst p) = Some (Some t')"
      "rb_repr km t' (butlast (spans (s @ [p])) @ [(unat (val p), unat (val x) - 1, fst p)])"
    using tree_insert_last [OF t(2) butlast_spans [OF st] le] u by auto
  then show ?thesis using snoc t(1) by (simp add: next_stab_def tracked_def spans_snoc2)
qed

lemma last_stab_tracked:
  assumes "tracked km seen tp" "stabs_sorted seen"
  shows "\<exists>t. last_stab km tp = Some (Some t) \<and> rb_repr km t (spans seen)"
proof (cases seen rule: rev_cases)
  case Nil
  then show ?thesis using assms(1) by (auto simp: tracked_def last_stab_def)
next
  case (snoc s p)
  obtain t where t: "tp = (Some t, Some p)" "rb_repr km t (butlast (spans (s @ [p])))"
    using assms(1) snoc by (cases tp) (auto simp: tracked_def)
  have "val p \<le> 0xffffffff" using unat_lt_u32 [of "val p"] by (simp add: word_le_nat_alt)
  from tree_insert_last [OF t(2) butlast_spans [of s p] this, of "fst p"] obtain t' where
    "tree_insert km (Some t) (val p) 0xffffffff (fst p) = Some (Some t')" "rb_repr km t' (spans (s @ [p]))"
    using assms(2) snoc spans_snoc [of s p] by auto
  then show ?thesis using snoc t(1) by (simp add: last_stab_def)
qed

abbreviation is_so :: "nat \<times> stab \<Rightarrow> bool" where "is_so x \<equiv> n_type (snd x) = N_SO \<and> n_strx (snd x) \<noteq> 0"
abbreviation is_fun :: "nat \<times> stab \<Rightarrow> bool" where "is_fun x \<equiv> n_type (snd x) = N_FUN"

lemma stab_loop_tracked:
  assumes "tracked km a so" "tracked km b fn"
    and "stabs_sorted (a @ filter is_so xs)" "stabs_sorted (b @ filter is_fun xs)"
  shows "\<exists>so' fn'. stab_loop km xs so fn = Some (so', fn') \<and>
    tracked km (a @ filter is_so xs) so' \<and> tracked km (b @ filter is_fun xs) fn'"
  using assms
proof (induction xs arbitrary: a b so fn)
  case (Cons x xs)
  have so: "\<exists>so'. (if is_so x then next_stab km x so else Some so) = Some so' \<and> tracked km (a @ filter is_so [x]) so'"
    using Cons.prems(1,3) next_stab_tracked [of km a so x] by (cases so) (auto simp: stabs_sorted_def sorted_wrt_append)
  have fn: "\<exists>fn'. (if is_fun x then next_stab km x fn else Some fn) = Some fn' \<and> tracked km (b @ filter is_fun [x]) fn'"
    using Cons.prems(2,4) next_stab_tracked [of km b fn x] by (cases fn) (auto simp: stabs_sorted_def sorted_wrt_append)
  obtain so' fn' where s: "(if is_so x then next_stab km x so else Some so) = Some so'" "tracked km (a @ filter is_so [x]) so'"
      "(if is_fun x then next_stab km x fn else Some fn) = Some fn'" "tracked km (b @ filter is_fun [x]) fn'"
    using so fn by blast
  have e: "(ys @ filter P [x]) @ filter P xs = ys @ filter P (x # xs)" for P ys by simp
  show ?case
    using Cons.IH [OF s(2,4)] Cons.prems(3,4) unfolding e by (simp only: stab_loop.simps s(1,3) Option.bind.simps)
qed simp

lemma debug_init_trees:
  assumes "alloc_fresh km" "stabs_sorted (filter is_so stabs)" "stabs_sorted (filter is_fun stabs)"
  shows "\<exists>t1 t2. debug_init km (Some m1) (Some m2) stabs d0 =
      Some \<lparr>g_stab_so_tree = Some t1, g_stab_fun_tree = Some t2,
        debug_s = ksinit (replicate 128 0) 128, b_init_debug = True,
        log_line = ksinit (replicate 128 0) 128, log_s = ksinit (replicate 128 0) 128,
        dmesg_s = ksinit (replicate (4096 * 32) 0) (4096 * 32)\<rparr> \<and>
    rb_repr km t1 (spans (filter is_so stabs)) \<and> rb_repr km t2 (spans (filter is_fun stabs))"
proof -
  define tr where "tr m = rb_tree_create (Some m) Map.empty" for m
  have "tracked km [] (tr m, None)" for m
    using assms(1) rb_inv_empty [of 0] by (auto simp: tracked_def tr_def rb_tree_create_def rb_repr_def)
  from stab_loop_tracked [OF this [of m1] this [of m2], of stabs] obtain so fn where
    l: "stab_loop km stabs (tr m1, None) (tr m2, None) = Some (so, fn)"
      "tracked km (filter is_so stabs) so" "tracked km (filter is_fun stabs) fn"
    using assms(2,3) by auto
  show ?thesis
    using last_stab_tracked [OF l(2) assms(2)] last_stab_tracked [OF l(3) assms(3)] l(1)
    by (auto simp: debug_init_def Let_def tr_def)
qed

section \<open>The symbol of an address\<close>

text \<open>The last symbol, in the order of the addresses, that does not begin behind the address.\<close>

definition enclosing :: "u32 \<Rightarrow> (nat \<times> stab) list \<Rightarrow> (nat \<times> stab) option" where
  "enclosing key xs = (let ys = filter (\<lambda>x. val x \<le> key) xs in if ys = [] then None else Some (last ys))"

definition span_end :: "(nat \<times> stab) list \<Rightarrow> u32 \<Rightarrow> u32" where
  "span_end xs a = (case filter (\<lambda>y. a < val y) xs of [] \<Rightarrow> 0xffffffff | y # _ \<Rightarrow> val y - 1)"

lemma iv_look_spans:
  assumes "stabs_sorted xs"
  shows "iv_look (unat key) (spans xs) =
    map_option (\<lambda>x. (unat (val x), unat (span_end xs (val x)), fst x)) (enclosing key xs)"
  using assms
proof (induction xs rule: spans.induct)
  case (2 x)
  show ?case using unat_lt_u32 [of key]
    by (auto simp: iv_look_def enclosing_def span_end_def word_le_nat_alt)
next
  case (3 x y r)
  have lt: "val x < val y" "\<forall>z \<in> set r. val x < val z" "\<forall>z \<in> set r. val y < val z"
    and st: "stabs_sorted (y # r)" using "3.prems" by (auto simp: stabs_sorted_def)
  have u: "unat (val y - 1) = unat (val y) - 1" using lt(1) by (intro unat_minus_one) auto
  have e: "span_end (x # y # r) (val z) = span_end (y # r) (val z)" if "z \<in> set (y # r)" for z
  proof -
    have "\<not> val z < val x" using lt(1,2) that by (auto intro: order.asym)
    then show ?thesis by (simp add: span_end_def)
  qed
  show ?case
  proof (cases "val y \<le> key")
    case True
    have x: "val x \<le> key" using lt(1) True by simp
    have n: "\<not> unat key \<le> unat (val y) - 1" using lt(1) True by (auto simp: word_le_nat_alt word_less_nat_alt)
    have "enclosing key (x # y # r) = enclosing key (y # r)" using True x by (simp add: enclosing_def Let_def)
    moreover have "z \<in> set (y # r)" if "enclosing key (y # r) = Some z" for z
      using that by (auto simp: enclosing_def Let_def split: if_splits dest: last_in_set)
    ultimately show ?thesis
      using "3.IH" [OF st] n e by (cases "enclosing key (y # r)") (auto simp: iv_look_def)
  next
    case False
    have r: "filter (\<lambda>z. val z \<le> key) r = []" using lt(3) False by (auto simp: filter_empty_conv)
    show ?thesis
    proof (cases "val x \<le> key")
      case True
      then show ?thesis using False r u lt(1)
        by (auto simp: iv_look_def enclosing_def span_end_def Let_def word_le_nat_alt word_less_nat_alt)
    next
      case False
      then have "iv_look (unat key) (spans (y # r)) = None"
        using "3.IH" [OF st] \<open>\<not> val y \<le> key\<close> r by (simp add: enclosing_def Let_def)
      then show ?thesis using False \<open>\<not> val y \<le> key\<close> r
        by (simp add: iv_look_def enclosing_def Let_def word_le_nat_alt)
    qed
  qed
qed (simp add: iv_look_def enclosing_def)

section \<open>Strings in a buffer that is long enough\<close>

text \<open>
  A string in a buffer of \<open>n\<close> bytes with the content \<open>xs\<close>.  Setting the length to zero, as \<open>dump_eip\<close> does, leaves the old
  bytes in the buffer.
\<close>

definition ks_holds :: "nat \<Rightarrow> kstring \<Rightarrow> bytes \<Rightarrow> bool" where
  "ks_holds n s xs \<longleftrightarrow> (\<exists>str. ks_str s = Some str \<and> length str = n \<and> ks_capacity s = n \<and> n \<le> 2 ^ 30 \<and>
     ks_length s = length xs \<and> length xs < n \<and> take (length xs) str = xs)"

definition ks_text :: "kstring \<Rightarrow> bytes" where
  "ks_text s = (case ks_str s of None \<Rightarrow> [] | Some str \<Rightarrow> c_text str)"

lemma ks_holds_init: "0 < n \<Longrightarrow> n \<le> 2 ^ 30 \<Longrightarrow> length buf = n \<Longrightarrow> ks_holds n (ksinit buf n) []"
  by (simp add: ks_holds_def ksinit_def)

lemma ks_holds_keeps: "ks_holds n s xs \<Longrightarrow> ks_holds n t ys \<Longrightarrow> keeps_buffer s t = Some ()"
  by (auto simp: ks_holds_def keeps_buffer_def)

lemma ks_holds_reset: "ks_holds n s xs \<Longrightarrow> ks_holds n (s\<lparr>ks_length := 0\<rparr>) []"
  by (auto simp: ks_holds_def)

lemma c_text_append: "0 \<notin> set xs \<Longrightarrow> c_text (xs @ 0 # ys) = xs"
  unfolding c_text_def by (subst takeWhile_append2) auto

lemma c_text_split:
  assumes "0 \<in> set str"
  obtains junk where "str = c_text str @ 0 # junk" "0 \<notin> set (c_text str)"
proof -
  obtain a b where "str = a @ 0 # b" "0 \<notin> set a" using split_list_first [OF assms] by blast
  then show thesis using that [of b] by (simp add: c_text_append)
qed

lemma ksappend_fits:
  assumes h: "ks_holds n s xs" and z: "0 \<in> set str" and k: "k \<le> length (c_text str)" "length xs + k < n"
    and x0: "0 \<notin> set xs"
  shows "\<exists>s'. ksappend_strn kmalloc s (Some str) k = Some (0, s') \<and> ks_holds n s' (xs @ take k (c_text str)) \<and>
    ks_text s' = xs @ take k (c_text str)"
proof -
  let ?l = "length xs" and ?ys = "take k (c_text str)"
  obtain b where b: "ks_str s = Some b" "length b = n" "ks_capacity s = n" "n \<le> 2 ^ 30" "ks_length s = ?l" "take ?l b = xs"
    using h by (auto simp: ks_holds_def)
  obtain junk where j: "str = c_text str @ 0 # junk" "0 \<notin> set (c_text str)" using c_text_split [OF z] .
  have sl: "strlen_buf str 0 = Some (length (c_text str))" using strlen_buf_correct [OF j(2), of junk] j(1) by simp
  have w: "wrap32 (?l + k) = ?l + k" using b(4) k(2) by simp
  have ys: "take k str = ?ys" "0 \<notin> set ?ys" "length ?ys = k"
    using j k(1) by (metis take_append diff_is_0_eq take_0 append_Nil2, meson in_set_takeD, simp)
  have "length (c_text str) \<le> length str" by (simp add: c_text_def length_takeWhile_le)
  then have cp: "strncpy_buf b ?l str 0 k = Some (xs @ ?ys @ drop (?l + k) b)"
    using strncpy_buf_correct [of k 0 str ?l b] ys b(2,6) k by simp
  let ?b = "xs @ ?ys @ 0 # drop (Suc (?l + k)) b"
  have "(xs @ ?ys @ drop (?l + k) b)[?l + k := 0] = ?b"
    using b(2) k(2) ys(3) by (simp add: list_update_append Cons_nth_drop_Suc [symmetric])
  then have "ksappend_strn kmalloc s (Some str) k = Some (0, s\<lparr>ks_length := ?l + k, ks_str := Some ?b\<rparr>)"
    using sl b cp k by (simp add: ksappend_strn_def string_try_expand_def w put_byte_def Let_def)
  moreover have "c_text ?b = xs @ ?ys" using c_text_append [of "xs @ ?ys"] x0 ys(2) by simp
  ultimately show ?thesis using b k ys(3) by (simp add: ks_holds_def ks_text_def)
qed

section \<open>A line of a call trace\<close>

lemma strfind_buf_correct:
  assumes "0 \<in> set s"
  shows "strfind_buf s c 0 = Some (length (takeWhile (\<lambda>x. x \<noteq> c) (c_text s)))"
proof -
  have "strfind_buf (as @ bs) c (length as) = Some (length as + length (takeWhile (\<lambda>x. x \<noteq> c) (c_text bs)))"
    if "0 \<in> set bs" for as bs
    using that
  proof (induction bs arbitrary: as)
    case (Cons b bs)
    show ?case
      using Cons.IH [of "as @ [b]"] Cons.prems
      by (subst strfind_buf.simps) (auto simp: get_byte_def c_text_def)
  qed simp
  from this [OF assms, of "[]"] show ?thesis by simp
qed

fun shown :: "trace_arg \<Rightarrow> trace_arg" where
  "shown (Text b) = Text (c_text b)"
| "shown (Hex v) = Hex v"

definition stab_name :: "bytes \<Rightarrow> nat \<times> stab \<Rightarrow> bytes" where
  "stab_name strtab x = c_text (drop (unat (n_strx (snd x))) strtab)"

text \<open>What the line for an address should say: name of the function, offset and length, and the source file.\<close>

definition trace_line :: "(nat \<times> stab) list \<Rightarrow> bytes \<Rightarrow> u32 \<Rightarrow> trace_arg list" where
  "trace_line stabs strtab eip =
     (let fname = (case enclosing eip (filter is_so stabs) of None \<Rightarrow> map of_char ''<unknown>'' | Some x \<Rightarrow> stab_name strtab x)
      in case enclosing eip (filter is_fun stabs) of
           None \<Rightarrow> map Text [[9], map of_char ''unknown'', [9, 91], fname, [93]]
         | Some x \<Rightarrow>
             [Text [9], Text (takeWhile (\<lambda>c. c \<noteq> 58) (stab_name strtab x)), Text [43], Hex (eip - val x), Text [47],
              Hex (span_end (filter is_fun stabs) (val x) - val x), Text [9, 91], Text fname, Text [93]])"

text \<open>A symbol table with ascending addresses and terminated names; a function name fits the static buffer.\<close>

definition symbols_ok :: "(nat \<times> stab) list \<Rightarrow> bytes \<Rightarrow> bool" where
  "symbols_ok stabs strtab \<longleftrightarrow> distinct (map fst stabs) \<and> 0 \<notin> fst ` set stabs \<and>
     stabs_sorted (filter is_so stabs) \<and> stabs_sorted (filter is_fun stabs) \<and>
     (\<forall>x \<in> set stabs. 0 \<in> set (drop (unat (n_strx (snd x))) strtab) \<and>
        length (takeWhile (\<lambda>c. c \<noteq> 58) (stab_name strtab x)) < 128)"

definition debug_inv :: "(heap \<Rightarrow> ptr) \<Rightarrow> (nat \<times> stab) list \<Rightarrow> debug \<Rightarrow> bool" where
  "debug_inv km stabs d \<longleftrightarrow> b_init_debug d \<and> (\<exists>xs. ks_holds 128 (debug_s d) xs) \<and>
     (\<exists>t. g_stab_so_tree d = Some t \<and> rb_repr km t (spans (filter is_so stabs))) \<and>
     (\<exists>t. g_stab_fun_tree d = Some t \<and> rb_repr km t (spans (filter is_fun stabs)))"

lemma enclosing_in: "enclosing key xs = Some x \<Longrightarrow> x \<in> set xs"
  by (auto simp: enclosing_def Let_def split: if_splits dest!: last_in_set [of "filter _ _"])

lemma stab_string_eq:
  assumes "symbols_ok stabs strtab" "x \<in> set stabs"
  shows "fst x \<noteq> 0" "stab_string stabs strtab (fst x) = Some (snd x, drop (unat (n_strx (snd x))) strtab)"
    "0 \<in> set (drop (unat (n_strx (snd x))) strtab)" "length (takeWhile (\<lambda>c. c \<noteq> 58) (stab_name strtab x)) < 128"
proof -
  have "map_of stabs (fst x) = Some (snd x)"
    using assms by (intro map_of_is_SomeI) (auto simp: symbols_ok_def)
  then show "stab_string stabs strtab (fst x) = Some (snd x, drop (unat (n_strx (snd x))) strtab)"
    by (simp add: stab_string_def)
qed (use assms in \<open>force simp: symbols_ok_def\<close>)+

lemma tree_search_spans:
  assumes "tree = Some t" "rb_repr km t (spans xs)" "stabs_sorted xs"
  shows "tree_search tree key = Some (map_option (\<lambda>x. (unat (val x), unat (span_end xs (val x)), fst x)) (enclosing key xs))"
  using assms tree_search_law [OF assms(2)] iv_look_spans by simp

lemma dump_fun_line:
  assumes S: "symbols_ok stabs strtab" and I: "debug_inv km stabs d"
  shows "\<exists>out d'. dump_fun kmalloc stabs strtab eip fname d = Some (out, d') \<and> debug_inv km stabs d' \<and>
    map shown out = (case enclosing eip (filter is_fun stabs) of
        None \<Rightarrow> map Text [[9], map of_char ''unknown'', [9, 91], c_text fname, [93]]
      | Some x \<Rightarrow>
          [Text [9], Text (takeWhile (\<lambda>c. c \<noteq> 58) (stab_name strtab x)), Text [43], Hex (eip - val x), Text [47],
           Hex (span_end (filter is_fun stabs) (val x) - val x), Text [9, 91], Text (c_text fname), Text [93]])"
proof -
  obtain t xs where t: "g_stab_fun_tree d = Some t" "rb_repr km t (spans (filter is_fun stabs))" "ks_holds 128 (debug_s d) xs"
    using I by (auto simp: debug_inv_def)
  note ts = tree_search_spans [OF t(1,2), of eip]
  have st: "stabs_sorted (filter is_fun stabs)" using S by (simp add: symbols_ok_def)
  show ?thesis
  proof (cases "enclosing eip (filter is_fun stabs)")
    case None
    then show ?thesis using ts [OF st] I by (simp add: dump_fun_def unknown_fun_def c_text_def)
  next
    case (Some x)
    then have x: "x \<in> set stabs" using enclosing_in by fastforce
    note q = stab_string_eq [OF S x]
    let ?f = "drop (unat (n_strx (snd x))) strtab" and ?n = "takeWhile (\<lambda>c. c \<noteq> 58) (stab_name strtab x)"
    have n: "strfind_buf ?f 58 0 = Some (length ?n)" using strfind_buf_correct [OF q(3)] by (simp add: stab_name_def)
    have tk: "take (length ?n) (c_text ?f) = ?n" unfolding stab_name_def by (metis takeWhile_eq_take)
    obtain ks where ks: "ksappend_strn kmalloc ((debug_s d)\<lparr>ks_length := 0\<rparr>) (Some ?f) (length ?n) = Some (0, ks)"
        "ks_holds 128 ks ?n" "ks_text ks = ?n"
      using ksappend_fits [OF ks_holds_reset [OF t(3)] q(3), of "length ?n" kmalloc] q(4) tk
      by (auto simp: stab_name_def length_takeWhile_le)
    obtain b where b: "ks_str ks = Some b" "c_text b = ?n" using ks(2,3) by (auto simp: ks_holds_def ks_text_def)
    have "debug_inv km stabs (d\<lparr>debug_s := ks\<rparr>)" using I ks(2) by (auto simp: debug_inv_def)
    then show ?thesis
      using ts [OF st] Some q(1,2) n ks(1) b ks_holds_keeps [OF t(3) ks(2)] by (simp add: dump_fun_def Let_def c_text_def)
  qed
qed

lemma dump_eip_line:
  assumes S: "symbols_ok stabs strtab" and I: "debug_inv km stabs d"
  shows "\<exists>out d'. dump_eip kmalloc stabs strtab eip d = Some (out, d') \<and> debug_inv km stabs d' \<and>
    map shown out = trace_line stabs strtab eip"
proof -
  obtain t where t: "g_stab_so_tree d = Some t" "rb_repr km t (spans (filter is_so stabs))"
    using I by (auto simp: debug_inv_def)
  have st: "stabs_sorted (filter is_so stabs)" using S by (simp add: symbols_ok_def)
  note ts = tree_search_spans [OF t st, of eip]
  have b: "b_init_debug d" using I by (simp add: debug_inv_def)
  show ?thesis
  proof (cases "enclosing eip (filter is_so stabs)")
    case None
    have f: "c_text unknown_file = map of_char ''<unknown>''" by (simp add: unknown_file_def c_text_def)
    show ?thesis
      using dump_fun_line [OF S I, of kmalloc eip unknown_file, unfolded f] ts b None
      by (cases "enclosing eip (filter is_fun stabs)") (auto simp: dump_eip_def trace_line_def Let_def)
  next
    case (Some x)
    then have x: "x \<in> set stabs" using enclosing_in by fastforce
    show ?thesis
      using dump_fun_line [OF S I, of kmalloc eip "drop (unat (n_strx (snd x))) strtab"] ts b Some stab_string_eq(1,2) [OF S x]
      by (auto simp: dump_eip_def trace_line_def stab_name_def Let_def)
  qed
qed

text \<open>The return addresses of at most \<open>n\<close> frames.\<close>

fun call_chain :: "mem \<Rightarrow> nat \<Rightarrow> u32 \<Rightarrow> u32 \<Rightarrow> u32 list" where
  "call_chain m 0 ebp eip = []"
| "call_chain m (Suc n) ebp eip = (if ebp = 0 then [] else eip # call_chain m n (get_u32 m ebp) (get_u32 m (ebp + 4)))"

lemma trace_loop_lines:
  assumes S: "symbols_ok stabs strtab" and I: "debug_inv km stabs d"
  shows "\<exists>outs d'. trace_loop kmalloc stabs strtab m (20 - n) ebp eip d = Some (outs, d') \<and> debug_inv km stabs d' \<and>
    map (map shown) outs = map (trace_line stabs strtab) (call_chain m (min n 20) ebp eip)"
proof -
  have "\<exists>outs d'. trace_loop kmalloc stabs strtab m (20 - n) ebp eip d = Some (outs, d') \<and> debug_inv km stabs d' \<and>
    map (map shown) outs = map (trace_line stabs strtab) (call_chain m n ebp eip)" if "n \<le> 20" for n
    using that I
  proof (induction n arbitrary: ebp eip d)
    case (Suc n)
    have n: "20 - Suc n + 1 = 20 - n" "20 - Suc n < 20" using Suc.prems(1) by simp_all
    obtain out d1 where o: "dump_eip kmalloc stabs strtab eip d = Some (out, d1)" "debug_inv km stabs d1"
        "map shown out = trace_line stabs strtab eip"
      using dump_eip_line [OF S Suc.prems(2)] by blast
    obtain outs d2 where os: "trace_loop kmalloc stabs strtab m (20 - n) (get_u32 m ebp) (get_u32 m (ebp + 4)) d1 = Some (outs, d2)"
        "debug_inv km stabs d2"
        "map (map shown) outs = map (trace_line stabs strtab) (call_chain m n (get_u32 m ebp) (get_u32 m (ebp + 4)))"
      using Suc.IH [of d1 "get_u32 m ebp" "get_u32 m (ebp + 4)"] Suc.prems(1) o(2) by auto
    show ?case
      using o os n Suc.prems(2) by (subst trace_loop.simps) (simp del: One_nat_def)
  qed (subst trace_loop.simps, simp)
  from this [of "min n 20"] show ?thesis by (cases "n \<le> 20") (simp_all add: min_def)
qed

section \<open>Properties\<close>

text \<open>
  C39: after \<open>debug_init\<close> on a symbol table with ascending addresses a call trace prints, for each of the first 20 frames
  of the stack, the function whose symbol is the last one that does not begin behind the return address, the offset
  into it and its length, and the source file found the same way, or that they are unknown.
\<close>

theorem dump_trapstack_spec:
  assumes "alloc_fresh km" "symbols_ok stabs strtab"
  shows "\<exists>d outs d'. debug_init km (Some m1) (Some m2) stabs d0 = Some d \<and>
    dump_trapstack kmalloc stabs strtab m ebp eip d = Some (outs, d') \<and>
    map (map shown) outs = map (trace_line stabs strtab) (call_chain m 20 ebp eip)"
proof -
  have k: "\<exists>xs. ks_holds 128 (ksinit (replicate 128 0) 128) xs" using ks_holds_init [of 128 "replicate 128 0"] by auto
  obtain d where d: "debug_init km (Some m1) (Some m2) stabs d0 = Some d" "debug_inv km stabs d"
    using debug_init_trees [OF assms(1), of stabs m1 m2 d0] assms(2)
    by (clarsimp simp: symbols_ok_def debug_inv_def) (use k in blast)
  show ?thesis using trace_loop_lines [OF assms(2) d(2), of kmalloc m 20 ebp eip] d(1) by (auto simp: dump_trapstack_def)
qed

definition two_stabs :: "(nat \<times> stab) list" where
  "two_stabs =
     [(1000, \<lparr>n_strx = 1, n_type = N_SO, n_other = 0, n_desc = 0, n_value = 0x100000\<rparr>),
      (1012, \<lparr>n_strx = 5, n_type = N_FUN, n_other = 0, n_desc = 0, n_value = 0x100000\<rparr>),
      (1024, \<lparr>n_strx = 9, n_type = N_FUN, n_other = 0, n_desc = 0, n_value = 0x100040\<rparr>)]"

definition two_names :: bytes where
  "two_names = [0] @ map of_char ''a.c'' @ [0] @ map of_char ''f:F'' @ [0] @ map of_char ''g:F'' @ [0]"

lemma two_stabs_ok: "symbols_ok two_stabs two_names"
  by (simp add: symbols_ok_def two_stabs_def two_names_def stabs_sorted_def stab_name_def c_text_def N_SO_def N_FUN_def)

theorem dump_trapstack_spec_witness:
  "\<exists>d outs d'. debug_init (\<lambda>h. Some (LEAST a. h a = None)) (Some 1) (Some 2) two_stabs
      \<lparr>g_stab_so_tree = None, g_stab_fun_tree = None, debug_s = ksinit [] 0, b_init_debug = False,
       log_line = ksinit [] 0, log_s = ksinit [] 0, dmesg_s = ksinit [] 0\<rparr> = Some d \<and>
    dump_trapstack (\<lambda>_. None) two_stabs two_names (\<lambda>_. 0) 0x1000 0x100010 d = Some (outs, d') \<and>
    map (map shown) outs =
      [[Text [9], Text (map of_char ''f''), Text [43], Hex 0x10, Text [47], Hex 0x3f, Text [9, 91],
        Text (map of_char ''a.c''), Text [93]]]"
proof -
  let ?d0 = "\<lparr>g_stab_so_tree = None, g_stab_fun_tree = None, debug_s = ksinit [] 0, b_init_debug = False,
       log_line = ksinit [] 0, log_s = ksinit [] 0, dmesg_s = ksinit [] 0\<rparr>"
  have "call_chain (\<lambda>_. 0) (Suc (Suc n)) 0x1000 0x100010 = [0x100010]" for n
    by (simp add: get_u32_def get_u16_def)
  from this [of 18] have "call_chain (\<lambda>_. 0) 20 0x1000 0x100010 = [0x100010]" by simp
  moreover have "trace_line two_stabs two_names 0x100010 = [Text [9], Text (map of_char ''f''), Text [43], Hex 0x10, Text [47], Hex 0x3f,
      Text [9, 91], Text (map of_char ''a.c''), Text [93]]"
    by (simp add: trace_line_def two_stabs_def two_names_def enclosing_def span_end_def stab_name_def c_text_def N_SO_def N_FUN_def Let_def)
  ultimately show ?thesis
    using dump_trapstack_spec [OF least_fresh two_stabs_ok, of 1 2 ?d0 "\<lambda>_. None" "\<lambda>_. 0" "0x1000" "0x100010"] by simp
qed

end
