(* ===== verification/Kernel_Log.thy ===== *)
theory Kernel_Log
  imports Debug
begin

text \<open>
  The log of \<^verbatim>\<open>kernel/debug.c\<close>: \<open>print_debug\<close> builds a line in a static buffer, prints it before the system has started, and
  appends it to the message buffer that \<open>dmesg\<close> prints.  The clock is the state of the timers, the number of the
  processor an argument, as in the other components.
\<close>

section \<open>Operations\<close>

text \<open>\<open>dec\<close> of \<^verbatim>\<open>include/stdio.h\<close>; \<open>junk\<close> is the uninitialised local buffer of \<open>ksappend_int\<close>.\<close>

definition dec :: "alloc \<Rightarrow> bytes \<Rightarrow> u32 \<Rightarrow> console \<Rightarrow> (bytes \<times> console) option" where
  "dec kmalloc junk v s =
     do {
       let (ks, s) = get_out_string s;
       (_, ks) \<leftarrow> ksappend_int kmalloc junk ks (sint v);
       str \<leftarrow> ks_str ks;
       Some (str, s\<lparr>out_buf := (out_buf s)(out_index s := str)\<rparr>)
     }"

text \<open>The counter of the loop is never advanced, so only \<open>line_end\<close> ends it; \<open>strlen\<close> of a null pointer is an error.\<close>

fun debug_loop :: "alloc \<Rightarrow> print_arg list \<Rightarrow> kstring \<Rightarrow> kstring option" where
  "debug_loop kmalloc [] line = None"
| "debug_loop kmalloc (p # args) line =
     do {
       str \<leftarrow> arg_string p;
       (_, line) \<leftarrow> ksappend_str kmalloc line str;
       if p = Line_end then Some line else debug_loop kmalloc args line
     }"

definition print_debug ::
  "device \<Rightarrow> alloc \<Rightarrow> bytes \<Rightarrow> timers \<Rightarrow> nat \<Rightarrow> bool \<Rightarrow> bytes \<Rightarrow> bytes \<Rightarrow> print_arg list \<Rightarrow> console \<Rightarrow> debug \<Rightarrow>
   (int \<times> console \<times> debug) option" where
  "print_debug dev kmalloc junk tm cpu os_start module debug args con d =
     do {
       l \<leftarrow> spin_lock (pr_lock con);
       let line = (log_line d)\<lparr>ks_length := 0\<rparr>;
       let s = (log_s d)\<lparr>ks_length := 0\<rparr>;
       (_, s) \<leftarrow> ksappend_str kmalloc s module;
       (_, s) \<leftarrow> ksfit kmalloc s 32 10;
       _ \<leftarrow> keeps_buffer (log_s d) s;
       let now = time_now cpu tm;
       (a1, con) \<leftarrow> dec kmalloc junk (hours now) con;
       (a2, con) \<leftarrow> dec kmalloc junk (minutes now) con;
       (a3, con) \<leftarrow> dec kmalloc junk (seconds now) con;
       (a4, con) \<leftarrow> dec kmalloc junk (msecs now) con;
       (a5, con) \<leftarrow> dec kmalloc junk (of_nat cpu) con;
       sstr \<leftarrow> ks_str s;
       (_, line) \<leftarrow> ksappend_args kmalloc line
         [[91, 0], a1, [46, 0], a2, [46, 0], a3, [46, 0], a4, [93, 91, 0], a5, [93, 0], [91, 0], sstr, [93, 91, 0], debug, [93, 32, 0]];
       line \<leftarrow> debug_loop kmalloc args line;
       _ \<leftarrow> keeps_buffer (log_line d) line;
       str \<leftarrow> ks_str line;
       tr \<leftarrow> (if \<not> os_start then map_option snd (puts dev (Some str) (con_trace con)) else Some (con_trace con));
       (_, msgs) \<leftarrow> ksappend_str kmalloc (dmesg_s d) str;
       _ \<leftarrow> keeps_buffer (dmesg_s d) msgs;
       Some (0, con\<lparr>con_trace := tr, pr_lock := spin_unlock l\<rparr>, d\<lparr>log_line := line, log_s := s, dmesg_s := msgs\<rparr>)
     }"

definition dmesg :: "device \<Rightarrow> debug \<Rightarrow> console \<Rightarrow> console option" where
  "dmesg dev d con = map_option snd (print_args dev [Arg (ks_str (dmesg_s d)), Line_end] con)"

section \<open>Appending to a static buffer\<close>

lemma c_text_less: "length (c_text str) < length str \<Longrightarrow> 0 \<in> set str"
proof (rule ccontr)
  assume a: "length (c_text str) < length str" "0 \<notin> set str"
  then have "c_text str = str" unfolding c_text_def takeWhile_eq_all_conv by auto
  then show False using a(1) by simp
qed

lemma ks_holds_str:
  assumes "ks_holds n s xs" "ks_text s = xs"
  obtains str where "ks_str s = Some str" "c_text str = xs" "0 \<in> set str"
proof -
  obtain str where "ks_str s = Some str" "length str = n" "length xs < n" using assms(1) by (auto simp: ks_holds_def)
  moreover have "c_text str = xs" using assms(2) calculation(1) by (simp add: ks_text_def)
  ultimately show thesis using that [of str] c_text_less [of str] by simp
qed

lemma ksappend_str_fits:
  assumes "ks_holds n s xs" "0 \<in> set str" "length xs + length (c_text str) < n" "0 \<notin> set xs"
  shows "\<exists>s'. ksappend_str kmalloc s str = Some (0, s') \<and> ks_holds n s' (xs @ c_text str) \<and> ks_text s' = xs @ c_text str"
proof -
  obtain junk where j: "str = c_text str @ 0 # junk" "0 \<notin> set (c_text str)" using c_text_split [OF assms(2)] .
  have "strlen_buf str 0 = Some (length (c_text str))" using strlen_buf_correct [OF j(2), of junk] j(1) by simp
  then show ?thesis
    using ksappend_fits [OF assms(1,2) le_refl assms(3,4), of kmalloc] by (simp add: ksappend_str_def)
qed

lemma c_text_nonzero: "0 \<notin> set (c_text str)"
  unfolding c_text_def by (auto dest: set_takeWhileD)

lemma ksappend_args_fits:
  assumes "ks_holds n s xs" "\<forall>p \<in> set ps. 0 \<in> set p" "length xs + length (concat (map c_text ps)) < n" "0 \<notin> set xs"
  shows "\<exists>s'. ksappend_args kmalloc s ps = Some (0, s') \<and> ks_holds n s' (xs @ concat (map c_text ps))"
  using assms
proof (induction ps arbitrary: s xs)
  case (Cons p ps)
  obtain s1 where s1: "ksappend_str kmalloc s p = Some (0, s1)" "ks_holds n s1 (xs @ c_text p)"
    using ksappend_str_fits [OF Cons.prems(1), of p kmalloc] Cons.prems(2-4) by auto
  show ?case using Cons.IH [OF s1(2)] Cons.prems(2-4) s1(1) c_text_nonzero [of p] by simp
qed simp

lemma debug_loop_fits:
  assumes "ks_holds n s xs" "\<forall>p \<in> set ps. 0 \<in> set p" "length xs + length (concat (map c_text ps)) < n" "0 \<notin> set xs"
  shows "\<exists>s'. debug_loop kmalloc (map (\<lambda>p. Arg (Some p)) ps @ [Line_end]) s = Some s' \<and>
    ks_holds n s' (xs @ concat (map c_text ps)) \<and> ks_text s' = xs @ concat (map c_text ps)"
  using assms
proof (induction ps arbitrary: s xs)
  case Nil
  then show ?case
    using ksappend_str_fits [OF Nil(1), of "[0]" kmalloc] by (auto simp: arg_string_def c_text_def)
next
  case (Cons p ps)
  obtain s1 where s1: "ksappend_str kmalloc s p = Some (0, s1)" "ks_holds n s1 (xs @ c_text p)"
    using ksappend_str_fits [OF Cons.prems(1), of p kmalloc] Cons.prems(2-4) by auto
  show ?case using Cons.IH [OF s1(2)] Cons.prems(2-4) s1(1) c_text_nonzero [of p] by (simp add: arg_string_def)
qed

lemma ksfit_loop_fill:
  "l \<le> k \<Longrightarrow> k \<le> length str \<Longrightarrow> ksfit_loop str l c k = Some (take l str @ replicate (k - l) c @ drop k str)"
proof (induction "k - l" arbitrary: l str)
  case 0
  then show ?case by (subst ksfit_loop.simps) simp
next
  case (Suc j)
  then have lt: "l < k" "l < length str" by simp_all
  have "ksfit_loop (str[l := c]) (l + 1) c k = Some (take (l + 1) (str[l := c]) @ replicate (k - (l + 1)) c @ drop k (str[l := c]))"
    by (rule Suc.hyps(1)) (use Suc.hyps(2) Suc.prems in simp_all)
  moreover have "take (l + 1) (str[l := c]) = take l str @ [c]" using lt by (simp add: take_Suc_conv_app_nth)
  moreover have "replicate (k - l) c = c # replicate (k - (l + 1)) c" using lt(1) by (cases "k - l") auto
  ultimately show ?case using lt by (subst ksfit_loop.simps) (simp add: put_byte_def)
qed

lemma ksfit_holds:
  assumes h: "ks_holds n s xs" and k: "k < n" and z: "0 \<notin> set xs" "c \<noteq> 0"
  shows "\<exists>s'. ksfit kmalloc s c k = Some (0, s') \<and> ks_holds n s' (take k (xs @ replicate k c)) \<and>
    ks_text s' = take k (xs @ replicate k c)"
proof -
  obtain b where b: "ks_str s = Some b" "length b = n" "ks_capacity s = n" "n \<le> 2 ^ 30" "ks_length s = length xs"
      "take (length xs) b = xs"
    using h by (auto simp: ks_holds_def)
  define t where "t = take k (xs @ replicate k c)"
  have t: "length t = k" "0 \<notin> set t" using z by (auto simp: t_def dest: in_set_takeD)
  have l: "ksfit_loop b (length xs) c k = Some (t @ drop k b)"
  proof (cases "length xs \<le> k")
    case True
    then have "t = xs @ replicate (k - length xs) c" by (simp add: t_def min_def)
    then show ?thesis using ksfit_loop_fill [OF True, of b c] k b(2,6) by simp
  next
    case False
    then have "t = take k (take (length xs) b)" using b(6) by (simp add: t_def)
    then have "t = take k b" using False by (simp add: min_def)
    then show ?thesis using False by (subst ksfit_loop.simps) simp
  qed
  let ?b = "t @ 0 # drop (Suc k) b"
  have "(t @ drop k b)[k := 0] = ?b" using t(1) b(2) k by (simp add: list_update_append Cons_nth_drop_Suc [symmetric])
  then have "ksfit kmalloc s c k = Some (0, s\<lparr>ks_str := Some ?b, ks_length := k\<rparr>)"
    using b l k t(1) by (simp add: ksfit_def string_try_expand_def put_byte_def)
  then show ?thesis unfolding t_def [symmetric] using b k t c_text_append [OF t(2)] by (simp add: ks_holds_def ks_text_def)
qed

section \<open>The line and the log\<close>

definition con_bufs :: "console \<Rightarrow> bool" where
  "con_bufs con \<longleftrightarrow> (\<forall>i < STDIO_MAX_ARGS. length (out_buf con i) = 128)"

text \<open>The uninitialised buffer happens to have a zero behind the digits, without which \<open>strlen\<close> reads past it.\<close>

definition junk_ok :: "bytes \<Rightarrow> bool" where
  "junk_ok junk \<longleftrightarrow> length junk = 32 \<and> 0 \<in> set (drop 11 junk)"

lemma dec_ok:
  assumes c: "con_bufs con" and j: "junk_ok junk" and v: "unat v < 2 ^ 31"
  shows "\<exists>str con'. dec kmalloc junk v con = Some (str, con') \<and> 0 \<in> set str \<and> c_text str = dec_str (int (unat v)) \<and>
    con_bufs con' \<and> con_trace con' = con_trace con \<and> pr_lock con' = pr_lock con"
proof -
  let ?d = "dec_str (int (unat v))" and ?i = "(out_index con + 1) mod STDIO_MAX_ARGS"
  have u: "uint v = int (unat v)" by simp
  have "int (unat v) < int (2 ^ 31)" using v by (simp only: of_nat_less_iff)
  then have b: "int (unat v) < 2 ^ 31" by (simp only: of_nat_power of_nat_numeral)
  moreover have "- (2 ^ 31) \<le> int (unat v)" by (rule order_trans [of _ 0]) simp_all
  ultimately have "signed_take_bit 31 (uint v) = uint v" unfolding u by (intro signed_take_bit_int_eq_self)
  then have sv: "sint v = int (unat v)" by (simp add: sint_uint)
  have l: "length ?d \<le> 11" using dec_str_length [of "int (unat v)"] b by simp
  let ?b = "?d @ drop (length ?d) junk"
  have t: "to_str (sint v) junk = Some (length ?d, ?b)"
    unfolding sv using to_str_correct [of "int (unat v)" junk] b l j by (simp add: junk_ok_def)
  have z: "0 \<in> set ?b" using set_drop_subset_set_drop [OF l, of junk] j by (auto simp: junk_ok_def)
  have "takeWhile (\<lambda>c. c \<noteq> 0) ?d = ?d" using dec_str_nonzero [of "int (unat v)"] by (auto simp: takeWhile_eq_all_conv)
  then have ct: "c_text ?b = ?d @ c_text (drop (length ?d) junk)"
    unfolding c_text_def using dec_str_nonzero [of "int (unat v)"] by (subst takeWhile_append2) auto
  have i: "?i < STDIO_MAX_ARGS" by (simp add: STDIO_MAX_ARGS_def)
  have "length (out_buf con ?i) = 128" using c i unfolding con_bufs_def by blast
  then have h: "ks_holds 128 (ksinit (out_buf con ?i) 128) []" by (intro ks_holds_init) simp_all
  obtain ks where ks: "ksappend_strn kmalloc (ksinit (out_buf con ?i) 128) (Some ?b) (length ?d) = Some (0, ks)"
      "ks_holds 128 ks ?d" "ks_text ks = ?d"
    using ksappend_fits [OF h z, of "length ?d" kmalloc] l ct by auto
  obtain str where str: "ks_str ks = Some str" "c_text str = ?d" "0 \<in> set str" using ks_holds_str [OF ks(2,3)] .
  have "length str = 128" using ks(2) str(1) by (simp add: ks_holds_def)
  then show ?thesis
    using t ks(1) str c by (simp add: dec_def get_out_string_def ksappend_int_def Let_def con_bufs_def)
qed

definition log_text :: "time \<Rightarrow> nat \<Rightarrow> bytes \<Rightarrow> bytes \<Rightarrow> bytes list \<Rightarrow> bytes" where
  "log_text now cpu module debug args =
     concat ([[91], dec_str (int (unat (hours now))), [46], dec_str (int (unat (minutes now))), [46],
       dec_str (int (unat (seconds now))), [46], dec_str (int (unat (msecs now))), [93, 91], dec_str (int cpu), [93],
       [91], take 10 (module @ replicate 10 32), [93, 91], debug, [93, 32]] @ args)"

definition log_inv :: "debug \<Rightarrow> bytes \<Rightarrow> bool" where
  "log_inv d msgs \<longleftrightarrow> (\<exists>xs. ks_holds 128 (log_line d) xs) \<and> (\<exists>xs. ks_holds 128 (log_s d) xs) \<and>
     ks_holds (4096 * 32) (dmesg_s d) msgs \<and> 0 \<notin> set msgs"

text \<open>
  C40: \<open>print_debug\<close> with terminated arguments, a module name and a line of fewer than 128 bytes, a message buffer with room for
  the line, the lock free, a serial port that transmits and a zero byte in what the uninitialised buffers of the number
  formatting hold: it returns, leaves the lock free, appends to the log exactly the line - the time, the number of the processor, the
  name of the module cut or padded to ten characters, the kind of the message and its arguments - and sends the same
  line to the serial port as long as the system has not started.
\<close>

theorem print_debug_spec:
  assumes "transmits dev" "counter (pr_lock con) = 0" "con_bufs con" "junk_ok junk" "log_inv d msgs"
    and "now = time_now cpu tm" "\<forall>v \<in> {hours now, minutes now, seconds now, msecs now}. unat v < 2 ^ 31" "cpu < 2 ^ 31"
    and "\<forall>p \<in> set (module # debug # args). 0 \<in> set p" "length (c_text module) < 128"
    and "text = log_text now cpu (c_text module) (c_text debug) (map c_text args)"
    and "length text < 128" "length msgs + length text < 4096 * 32"
  shows "\<exists>con' d'. print_debug dev kmalloc junk tm cpu os_start module debug (map (\<lambda>p. Arg (Some p)) args @ [Line_end]) con d
      = Some (0, con', d') \<and> log_inv d' (msgs @ text) \<and> con_bufs con' \<and> counter (pr_lock con') = 0 \<and>
    writes_of (con_trace con') = writes_of (con_trace con) @ (if os_start then [] else sent text)"
proof -
  obtain xl xs where i: "ks_holds 128 (log_line d) xl" "ks_holds 128 (log_s d) xs" "ks_holds (4096 * 32) (dmesg_s d) msgs"
      "0 \<notin> set msgs" using assms(5) by (auto simp: log_inv_def)
  obtain s1 where s1: "ksappend_str kmalloc ((log_s d)\<lparr>ks_length := 0\<rparr>) module = Some (0, s1)" "ks_holds 128 s1 (c_text module)"
    using ksappend_str_fits [OF ks_holds_reset [OF i(2)], of module kmalloc] assms(9,10) by auto
  let ?m = "take 10 (c_text module @ replicate 10 32)"
  obtain s2 where s2: "ksfit kmalloc s1 32 10 = Some (0, s2)" "ks_holds 128 s2 ?m" "ks_text s2 = ?m"
    using ksfit_holds [OF s1(2), of 10 32 kmalloc] c_text_nonzero by auto
  obtain sstr where sstr: "ks_str s2 = Some sstr" "c_text sstr = ?m" "0 \<in> set sstr" using ks_holds_str [OF s2(2,3)] .
  obtain a1 c1 where a1: "dec kmalloc junk (hours now) con = Some (a1, c1)" "0 \<in> set a1"
      "c_text a1 = dec_str (int (unat (hours now)))" "con_bufs c1" "con_trace c1 = con_trace con"
    using dec_ok [OF assms(3,4), of "hours now" kmalloc] assms(7) by auto
  obtain a2 c2 where a2: "dec kmalloc junk (minutes now) c1 = Some (a2, c2)" "0 \<in> set a2"
      "c_text a2 = dec_str (int (unat (minutes now)))" "con_bufs c2" "con_trace c2 = con_trace con"
    using dec_ok [OF a1(4) assms(4), of "minutes now" kmalloc] assms(7) a1(5) by auto
  obtain a3 c3 where a3: "dec kmalloc junk (seconds now) c2 = Some (a3, c3)" "0 \<in> set a3"
      "c_text a3 = dec_str (int (unat (seconds now)))" "con_bufs c3" "con_trace c3 = con_trace con"
    using dec_ok [OF a2(4) assms(4), of "seconds now" kmalloc] assms(7) a2(5) by auto
  obtain a4 c4 where a4: "dec kmalloc junk (msecs now) c3 = Some (a4, c4)" "0 \<in> set a4"
      "c_text a4 = dec_str (int (unat (msecs now)))" "con_bufs c4" "con_trace c4 = con_trace con"
    using dec_ok [OF a3(4) assms(4), of "msecs now" kmalloc] assms(7) a3(5) by auto
  have cu: "unat (of_nat cpu :: u32) = cpu" using assms(8) by (intro unat_of_nat_u32) simp
  obtain a5 c5 where a5: "dec kmalloc junk (of_nat cpu) c4 = Some (a5, c5)" "0 \<in> set a5" "c_text a5 = dec_str (int cpu)"
      "con_bufs c5" "con_trace c5 = con_trace con"
    using dec_ok [OF a4(4) assms(4), of "of_nat cpu" kmalloc] assms(8) a4(5) unfolding cu by auto
  define as where "as = [[91, 0], a1, [46, 0], a2, [46, 0], a3, [46, 0], a4, [93, 91, 0], a5, [93, 0], [91, 0], sstr,
    [93, 91, 0], debug, [93, 32, 0]]"
  have as0: "\<forall>p \<in> set as. 0 \<in> set p" using assms(9) a1(2) a2(2) a3(2) a4(2) a5(2) sstr(3) by (simp add: as_def)
  have tx: "text = concat (map c_text as) @ concat (map c_text args)"
    unfolding assms(11) log_text_def a1(3) [symmetric] a2(3) [symmetric] a3(3) [symmetric] a4(3) [symmetric]
      a5(3) [symmetric] sstr(2) [symmetric] as_def by (simp add: c_text_def)
  have len: "length (concat (map c_text as)) + length (concat (map c_text args)) < 128"
    using assms(12) unfolding tx by (simp only: length_append)
  then have len1: "length (concat (map c_text as)) < 128" by linarith
  have as1: "0 \<notin> set (concat (map c_text as))" using c_text_nonzero by auto
  obtain l1 where l1: "ksappend_args kmalloc ((log_line d)\<lparr>ks_length := 0\<rparr>) as = Some (0, l1)" "ks_holds 128 l1 (concat (map c_text as))"
    using ksappend_args_fits [OF ks_holds_reset [OF i(1)] as0, of kmalloc] len1 by auto
  have args0: "\<forall>p \<in> set args. 0 \<in> set p" using assms(9) by simp
  obtain l2 where l2: "debug_loop kmalloc (map (\<lambda>p. Arg (Some p)) args @ [Line_end]) l1 = Some l2" "ks_holds 128 l2 text" "ks_text l2 = text"
    using debug_loop_fits [OF l1(2) args0 len as1, of kmalloc] unfolding tx by blast
  obtain str where str: "ks_str l2 = Some str" "c_text str = text" "0 \<in> set str" using ks_holds_str [OF l2(2,3)] .
  obtain tr where tr: "(if \<not> os_start then map_option snd (puts dev (Some str) (con_trace c5)) else Some (con_trace c5)) = Some tr"
      "writes_of tr = writes_of (con_trace con) @ (if os_start then [] else sent text)"
    using puts_loop_writes [OF assms(1) str(3), of 0 "con_trace c5"] str(2) assms(12) a5(5) by (cases os_start) (auto simp: puts_def)
  obtain ms where ms: "ksappend_str kmalloc (dmesg_s d) str = Some (0, ms)" "ks_holds (4096 * 32) ms (msgs @ text)"
    using ksappend_str_fits [OF i(3) str(3) _ i(4), of kmalloc, unfolded str(2), OF assms(13)] by blast
  have nz: "0 \<notin> set (msgs @ text)" using i(4) c_text_nonzero [of str] str(2) by simp
  have lk: "spin_lock (pr_lock con) = Some ((pr_lock con)\<lparr>counter := 1\<rparr>)" using assms(2) by (simp add: spin_lock_eq)
  let ?con = "c5\<lparr>con_trace := tr, pr_lock := spin_unlock ((pr_lock con)\<lparr>counter := 1\<rparr>)\<rparr>"
  let ?d = "d\<lparr>log_line := l2, log_s := s2, dmesg_s := ms\<rparr>"
  have "print_debug dev kmalloc junk tm cpu os_start module debug (map (\<lambda>p. Arg (Some p)) args @ [Line_end]) con d = Some (0, ?con, ?d)"
    unfolding print_debug_def
    by (simp only: lk s1(1) s2(1) sstr(1) a1(1) a2(1) a3(1) a4(1) a5(1) l1(1) l2(1) str(1) tr(1) ms(1) Let_def Option.bind.simps prod.case as_def [symmetric]
        ks_holds_keeps [OF i(1) l2(2)] ks_holds_keeps [OF i(2) s2(2)] ks_holds_keeps [OF i(3) ms(2)] assms(6) [symmetric])
  moreover have "log_inv ?d (msgs @ text)" using l2(2) s2(2) ms(2) nz by (auto simp: log_inv_def)
  ultimately show ?thesis using tr(2) a5(4) by (simp add: con_bufs_def spin_unlock_def atomic_set_def)
qed

definition a_minute :: timers where
  "a_minute = no_timers\<lparr>times := (\<lambda>_. \<lparr>hours = 0, minutes = 1, seconds = 2, msecs = 30, ticks = 0\<rparr>)\<rparr>"

definition quiet_console :: console where
  "quiet_console = \<lparr>con_trace = [], pr_lock = \<lparr>counter = 0\<rparr>, stdio_que = None, out_index = 0, out_buf = (\<lambda>_. replicate 128 0)\<rparr>"

definition empty_log :: debug where
  "empty_log = \<lparr>g_stab_so_tree = None, g_stab_fun_tree = None, debug_s = ksinit [] 0, b_init_debug = False,
     log_line = ksinit (replicate 128 0) 128, log_s = ksinit (replicate 128 0) 128,
     dmesg_s = ksinit (replicate (4096 * 32) 0) (4096 * 32)\<rparr>"

lemma empty_log_inv: "log_inv empty_log []"
proof -
  have "ks_holds 128 (ksinit (replicate 128 0) 128) []" "ks_holds (4096 * 32) (ksinit (replicate (4096 * 32) 0) (4096 * 32)) []"
    by (intro ks_holds_init; simp)+
  then show ?thesis unfolding log_inv_def empty_log_def debug.select_convs by auto
qed

lemma a_minute_text:
  "log_text (time_now 0 a_minute) 0 (c_text (map of_char ''smp'' @ [0])) (c_text (map of_char ''info '' @ [0]))
      (map c_text [map of_char ''up'' @ [0]]) = map of_char ''[0.1.2.30][0][smp       ][info ] up''"
proof -
  have "take 10 ([115, 109, 112] @ replicate 10 (32 :: u8)) = [115, 109, 112, 32, 32, 32, 32, 32, 32, 32]"
    by (simp add: numeral_eq_Suc)
  then show ?thesis
    by (simp add: log_text_def time_now_def a_minute_def c_text_def dec_str_def digits_of.simps dchar_def)
qed

theorem print_debug_spec_witness:
  "\<exists>con' d'. print_debug slow_port (\<lambda>_. None) (replicate 32 0) a_minute 0 False
      (map of_char ''smp'' @ [0]) (map of_char ''info '' @ [0]) [Arg (Some (map of_char ''up'' @ [0])), Line_end]
      quiet_console empty_log = Some (0, con', d') \<and>
    log_inv d' (map of_char ''[0.1.2.30][0][smp       ][info ] up'') \<and>
    writes_of (con_trace con') = sent (map of_char ''[0.1.2.30][0][smp       ][info ] up'')"
proof -
  let ?m = "map of_char ''smp'' @ [0]" and ?k = "map of_char ''info '' @ [0]" and ?a = "[map of_char ''up'' @ [0]]"
  have c: "con_bufs quiet_console" "junk_ok (replicate 32 0)" "counter (pr_lock quiet_console) = 0"
    by (simp_all add: con_bufs_def junk_ok_def quiet_console_def)
  have h: "\<forall>v \<in> {hours (time_now 0 a_minute), minutes (time_now 0 a_minute), seconds (time_now 0 a_minute), msecs (time_now 0 a_minute)}.
      unat v < 2 ^ 31" by (simp add: time_now_def a_minute_def)
  have p: "\<forall>p \<in> set (?m # ?k # ?a). 0 \<in> set p" "length (c_text ?m) < 128" by (simp_all add: c_text_def)
  show ?thesis
    using print_debug_spec [OF slow_port_transmits c(3,1,2) empty_log_inv refl h _ p a_minute_text [symmetric], of "\<lambda>_. None" False]
    by (auto simp: quiet_console_def)
qed

end
