(* ===== verification/Vmalloc.thy ===== *)
theory Vmalloc
  imports Page_Table Rb_Client
begin

unbundle bit_operations_syntax

text \<open>
  Virtually contiguous memory, \<^verbatim>\<open>mm/vmalloc.c\<close>.  The range from \<open>VMALLOC_START\<close> to \<open>VMALLOC_END\<close> is cut into areas.  All areas are on
  one list in the order of their addresses, the free ones also on the free list of their order, the others in a
  red-black tree.  An area is an object with a number; the fields that \<open>kmalloc\<close> leaves uninitialised are \<open>None\<close>.

  \<open>new\<close> is what \<open>kmalloc\<close> of an area returns and \<open>km\<close> what it returns for a node of the tree.
\<close>

section \<open>State\<close>

definition MAX_VMA_ORDER :: nat where "MAX_VMA_ORDER = 20"

record vm_area =
  va_start :: u32
  va_end :: u32
  va_free :: bool
  va_pages :: "nat list option"
  va_nr_pages :: "u32 option"

datatype vnode = Vma_list | Vnode nat
datatype fvnode = Free_vma nat | Fnode nat

record vmstate =
  areas :: "nat \<Rightarrow> vm_area option"
  vnodes :: "vnode list_node"
  fvnodes :: "fvnode list_node"
  vma_tree :: "rb_tree option"
  vma_lock :: spinlock_t

section \<open>Operations\<close>

definition vma_length :: "vm_area \<Rightarrow> u32" where
  "vma_length vma = va_end vma - va_start vma"

definition vma_prev :: "nat \<Rightarrow> vmstate \<Rightarrow> nat option" where
  "vma_prev vma s = (case prev (vnodes s) (Vnode vma) of Vma_list \<Rightarrow> None | Vnode a \<Rightarrow> Some a)"

definition vma_next :: "nat \<Rightarrow> vmstate \<Rightarrow> nat option" where
  "vma_next vma s = (case nxt (vnodes s) (Vnode vma) of Vma_list \<Rightarrow> None | Vnode a \<Rightarrow> Some a)"

definition lock_vma :: "vmstate \<Rightarrow> vmstate option" where
  "lock_vma s = do { l \<leftarrow> spin_lock (vma_lock s); Some (s\<lparr>vma_lock := l\<rparr>) }"

definition unlock_vma :: "vmstate \<Rightarrow> vmstate" where
  "unlock_vma s = s\<lparr>vma_lock := spin_unlock (vma_lock s)\<rparr>"

definition find_vma :: "u32 \<Rightarrow> vmstate \<Rightarrow> (nat option \<times> vmstate) option" where
  "find_vma va s =
     do {
       assert (va \<ge> VMALLOC_START \<and> va < VMALLOC_END);
       s \<leftarrow> lock_vma s;
       r \<leftarrow> tree_search (vma_tree s) va;
       assert (r \<noteq> None);
       (_, _, vma) \<leftarrow> r;
       s \<leftarrow> lock_vma s;
       Some (Some vma, s)
     }"

text \<open>A list node of an area that was freed must not be accessed.\<close>

definition vnode_live :: "vmstate \<Rightarrow> vnode \<Rightarrow> bool" where
  "vnode_live s n = (case n of Vma_list \<Rightarrow> True | Vnode a \<Rightarrow> areas s a \<noteq> None)"

definition fvnode_live :: "vmstate \<Rightarrow> fvnode \<Rightarrow> bool" where
  "fvnode_live s n = (case n of Free_vma i \<Rightarrow> i \<le> MAX_VMA_ORDER | Fnode a \<Rightarrow> areas s a \<noteq> None)"

text \<open>A free neighbour is taken off both lists and freed.\<close>

definition drop_area :: "nat \<Rightarrow> vmstate \<Rightarrow> vmstate option" where
  "drop_area a s =
     do {
       assert (vnode_live s (prev (vnodes s) (Vnode a)) \<and> vnode_live s (nxt (vnodes s) (Vnode a)));
       let s = s\<lparr>vnodes := list_remove (Vnode a) (vnodes s)\<rparr>;
       assert (fvnode_live s (prev (fvnodes s) (Fnode a)) \<and> fvnode_live s (nxt (fvnodes s) (Fnode a)));
       let s = s\<lparr>fvnodes := list_remove (Fnode a) (fvnodes s)\<rparr>;
       Some (s\<lparr>areas := (areas s)(a := None)\<rparr>)
     }"

partial_function (option) merge_prev :: "nat \<Rightarrow> vmstate \<Rightarrow> vmstate option" where
  "merge_prev vma s =
     (case vma_prev vma s of None \<Rightarrow> Some s
      | Some p \<Rightarrow>
          do {
            v \<leftarrow> areas s vma;
            q \<leftarrow> areas s p;
            if va_free q then
              do {
                assert (va_end q = va_start v);
                let s = s\<lparr>areas := (areas s)(vma \<mapsto> v\<lparr>va_start := va_start q\<rparr>)\<rparr>;
                s \<leftarrow> drop_area p s;
                merge_prev vma s
              }
            else Some s
          })"

partial_function (option) merge_next :: "nat \<Rightarrow> vmstate \<Rightarrow> vmstate option" where
  "merge_next vma s =
     (case vma_next vma s of None \<Rightarrow> Some s
      | Some n \<Rightarrow>
          do {
            v \<leftarrow> areas s vma;
            q \<leftarrow> areas s n;
            if va_free q then
              do {
                assert (va_end v = va_start q);
                let s = s\<lparr>areas := (areas s)(vma \<mapsto> v\<lparr>va_end := va_end q\<rparr>)\<rparr>;
                s \<leftarrow> drop_area n s;
                merge_next vma s
              }
            else Some s
          })"

declare merge_prev.simps [code] merge_next.simps [code]

definition free_vma :: "nat \<Rightarrow> vmstate \<Rightarrow> vmstate option" where
  "free_vma vma s =
     do {
       v \<leftarrow> areas s vma;
       assert (va_start v \<ge> VMALLOC_START \<and> va_end v < VMALLOC_END);
       s \<leftarrow> lock_vma s;
       t \<leftarrow> tree_remove (vma_tree s) (va_start v);
       s \<leftarrow> merge_prev vma (s\<lparr>vma_tree := t\<rparr>);
       s \<leftarrow> merge_next vma s;
       v \<leftarrow> areas s vma;
       Some (unlock_vma (s\<lparr>areas := (areas s)(vma \<mapsto> v\<lparr>va_free := True\<rparr>)\<rparr>))
     }"

text \<open>
  The area at the head of free list \<open>i\<close> is cut if it is longer, and taken off the list.  No area in the result is
  the null pointer that is returned at \<open>not_found\<close>.
\<close>

definition cut_area :: "nat \<Rightarrow> nat \<Rightarrow> u32 \<Rightarrow> vmstate \<Rightarrow> vmstate option" where
  "cut_area vma buddy len s =
     do {
       v \<leftarrow> areas s vma;
       let e = va_start v + len;
       let b = \<lparr>va_start = e, va_end = va_end v, va_free = True, va_pages = None, va_nr_pages = None\<rparr>;
       let s = s\<lparr>areas := (areas s)(vma \<mapsto> v\<lparr>va_end := e\<rparr>, buddy \<mapsto> b)\<rparr>;
       let buddy_order = unat (ilog2 (drop_bit PAGE_SHIFT (vma_length b)));
       assert (buddy_order \<le> MAX_VMA_ORDER);
       Some (s\<lparr>vnodes := list_insert (Vnode vma) (Vnode buddy) (vnodes s),
               fvnodes := list_insert (Free_vma buddy_order) (Fnode buddy) (fvnodes s)\<rparr>)
     }"

definition use_area :: "(heap \<Rightarrow> ptr) \<Rightarrow> nat \<Rightarrow> vmstate \<Rightarrow> vmstate option" where
  "use_area km vma s =
     do {
       v \<leftarrow> areas s vma;
       let s = s\<lparr>fvnodes := list_remove (Fnode vma) (fvnodes s)\<rparr>;
       let s = s\<lparr>areas := (areas s)(vma \<mapsto> v\<lparr>va_free := False\<rparr>)\<rparr>;
       t \<leftarrow> tree_insert km (vma_tree s) (va_start v) (va_end v - 1) vma;
       Some (s\<lparr>vma_tree := t\<rparr>)
     }"

definition take_area :: "(heap \<Rightarrow> ptr) \<Rightarrow> nat option \<Rightarrow> u32 \<Rightarrow> nat \<Rightarrow> vmstate \<Rightarrow> (nat option \<times> vmstate) option" where
  "take_area km new len vma s =
     do {
       v \<leftarrow> areas s vma;
       assert (va_free v \<and> va_end v - va_start v \<ge> len);
       if vma_length v \<ge> len + PAGE_SIZE then
         (case new of None \<Rightarrow> Some (None, s)
          | Some buddy \<Rightarrow> do { s \<leftarrow> cut_area vma buddy len s; s \<leftarrow> use_area km vma s; Some (Some vma, s) })
       else do { s \<leftarrow> use_area km vma s; Some (Some vma, s) }
     }"

text \<open>When no list has an area the pointer that is returned is uninitialised.\<close>

function alloc_vma_loop :: "(heap \<Rightarrow> ptr) \<Rightarrow> nat option \<Rightarrow> u32 \<Rightarrow> nat \<Rightarrow> vmstate \<Rightarrow> (nat option \<times> vmstate) option" where
  "alloc_vma_loop km new len i s =
     (if i \<le> MAX_VMA_ORDER then
        if \<not> list_empty (Free_vma i) (fvnodes s) then
          (case list_next (Free_vma i) (fvnodes s) of Free_vma _ \<Rightarrow> None | Fnode vma \<Rightarrow> take_area km new len vma s)
        else alloc_vma_loop km new len (i + 1) s
      else None)"
  by pat_completeness auto
termination
  by (relation "measure (\<lambda>(km, new, len, i, s). Suc MAX_VMA_ORDER - i)") auto

declare alloc_vma_loop.simps [simp del]

definition alloc_vma :: "(heap \<Rightarrow> ptr) \<Rightarrow> nat option \<Rightarrow> u32 \<Rightarrow> vmstate \<Rightarrow> (nat option \<times> vmstate) option" where
  "alloc_vma km new len s =
     do {
       let order = unat (ilog2_roundup (drop_bit PAGE_SHIFT len));
       s \<leftarrow> lock_vma s;
       (vma, s) \<leftarrow> alloc_vma_loop km new len order s;
       Some (vma, unlock_vma s)
     }"

text \<open>The page directory of the current process, which \<open>kernel_map\<close> uses, is an argument.\<close>

function map_pages :: "u32 \<Rightarrow> nat list \<Rightarrow> nat \<Rightarrow> nat \<Rightarrow> u32 \<Rightarrow> vm \<Rightarrow> vm option" where
  "map_pages pgdir pgs i nr va v =
     (if i < nr then
        do {
          assert (i < length pgs);
          v \<leftarrow> kernel_map pgdir va (page_to_phys (pgs ! i)) PAGE_SIZE PTE_W v;
          map_pages pgdir pgs (i + 1) nr (va + PAGE_SIZE) v
        }
      else Some v)"
  by pat_completeness auto
termination
  by (relation "measure (\<lambda>(pgdir, pgs, i, nr, va, v). nr - i)") auto

declare map_pages.simps [simp del]

definition map_vm_area :: "u32 \<Rightarrow> nat \<Rightarrow> nat list \<Rightarrow> nat \<Rightarrow> vmstate \<times> vm \<Rightarrow> (vmstate \<times> vm) option" where
  "map_vm_area pgdir vma pgs nr sv =
     do {
       a \<leftarrow> areas (fst sv) vma;
       v \<leftarrow> map_pages pgdir pgs 0 nr (va_start a) (snd sv);
       let a = a\<lparr>va_pages := Some pgs, va_nr_pages := Some (of_nat nr)\<rparr>;
       Some ((fst sv)\<lparr>areas := (areas (fst sv))(vma \<mapsto> a)\<rparr>, v)
     }"

definition vmap :: "(heap \<Rightarrow> ptr) \<Rightarrow> nat option \<Rightarrow> u32 \<Rightarrow> nat list \<Rightarrow> nat \<Rightarrow> vmstate \<times> vm \<Rightarrow> (u32 option \<times> vmstate \<times> vm) option" where
  "vmap km new pgdir pgs nr sv =
     do {
       (vma, s) \<leftarrow> alloc_vma km new (of_nat nr * PAGE_SIZE) (fst sv);
       case vma of None \<Rightarrow> Some (None, s, snd sv)
       | Some vma \<Rightarrow>
           do {
             sv \<leftarrow> map_vm_area pgdir vma pgs nr (s, snd sv);
             a \<leftarrow> areas (fst sv) vma;
             Some (Some (va_start a), sv)
           }
     }"

definition vunmap :: "u32 \<Rightarrow> u32 \<Rightarrow> vmstate \<times> vm \<Rightarrow> (vmstate \<times> vm) option" where
  "vunmap pgdir addr sv =
     do {
       (vma, s) \<leftarrow> find_vma addr (fst sv);
       case vma of None \<Rightarrow> Some (s, snd sv)
       | Some vma \<Rightarrow>
           do {
             a \<leftarrow> areas s vma;
             v \<leftarrow> kernel_unmap pgdir (va_start a) (vma_length a) (snd sv);
             s \<leftarrow> free_vma vma s;
             Some (s, v)
           }
     }"

text \<open>One page after the other; the flag says whether all were found.\<close>

fun alloc_page_loop :: "u32 \<Rightarrow> nat \<Rightarrow> nat list \<Rightarrow> pstate \<Rightarrow> (nat list \<times> bool \<times> pstate) option" where
  "alloc_page_loop gfp_mask 0 pgs ps = Some (pgs, True, ps)"
| "alloc_page_loop gfp_mask (Suc n) pgs ps =
     do {
       (page, ps) \<leftarrow> alloc_pages gfp_mask 0 ps;
       case page of None \<Rightarrow> Some (pgs, False, ps)
       | Some p \<Rightarrow> alloc_page_loop gfp_mask n (pgs @ [p]) ps
     }"

fun free_down :: "nat list \<Rightarrow> nat \<Rightarrow> pstate \<Rightarrow> pstate option" where
  "free_down pgs 0 ps = Some ps"
| "free_down pgs (Suc i) ps = do { assert (i < length pgs); ps \<leftarrow> free_pages (pgs ! i) ps; free_down pgs i ps }"

fun free_up :: "nat list \<Rightarrow> pstate \<Rightarrow> pstate option" where
  "free_up [] ps = Some ps"
| "free_up (p # pgs) ps = do { ps \<leftarrow> free_pages p ps; free_up pgs ps }"

text \<open>
  \<open>__vmalloc\<close>; \<open>arr\<close> tells whether the array for the page pointers is allocated.  The error path reads the field \<open>pages\<close> of the
  area, which is set only by \<open>map_vm_area\<close>.
\<close>

definition vmalloc_gfp :: "(heap \<Rightarrow> ptr) \<Rightarrow> nat option \<Rightarrow> bool \<Rightarrow> u32 \<Rightarrow> u32 \<Rightarrow> u32 \<Rightarrow> vmstate \<times> vm \<Rightarrow>
    (u32 option \<times> vmstate \<times> vm) option" where
  "vmalloc_gfp km new arr pgdir gfp_mask sz0 sv =
     do {
       let sz = round_up_page sz0;
       (vma, s) \<leftarrow> alloc_vma km new sz (fst sv);
       case vma of None \<Rightarrow> Some (None, s, snd sv)
       | Some vma \<Rightarrow>
           do {
             let nr = unat (drop_bit PAGE_SHIFT sz);
             if \<not> arr then do { s \<leftarrow> free_vma vma s; Some (None, s, snd sv) }
             else do {
               (pgs, ok, ps) \<leftarrow> alloc_page_loop gfp_mask nr [] (vps (snd sv));
               let v = (snd sv)\<lparr>vps := ps\<rparr>;
               if ok then
                 do {
                   sv \<leftarrow> map_vm_area pgdir vma pgs nr (s, v);
                   a \<leftarrow> areas (fst sv) vma;
                   Some (Some (va_start a), sv)
                 }
               else
                 do {
                   a \<leftarrow> areas s vma;
                   old \<leftarrow> va_pages a;
                   ps \<leftarrow> free_down old (length pgs) ps;
                   s \<leftarrow> free_vma vma s;
                   Some (None, s, v\<lparr>vps := ps\<rparr>)
                 }
             }
           }
     }"

definition vmalloc :: "(heap \<Rightarrow> ptr) \<Rightarrow> nat option \<times> bool \<Rightarrow> nat option \<times> bool \<Rightarrow> u32 \<Rightarrow> u32 \<Rightarrow> vmstate \<times> vm \<Rightarrow>
    (u32 option \<times> vmstate \<times> vm) option" where
  "vmalloc km m1 m2 pgdir sz0 sv =
     do {
       (ptr, sv) \<leftarrow> vmalloc_gfp km (fst m1) (snd m1) pgdir GFP_HIGHMEM sz0 sv;
       if ptr \<noteq> None then Some (ptr, sv)
       else vmalloc_gfp km (fst m2) (snd m2) pgdir GFP_NORMAL sz0 sv
     }"

definition vfree :: "u32 \<Rightarrow> u32 \<Rightarrow> vmstate \<times> vm \<Rightarrow> (vmstate \<times> vm) option" where
  "vfree pgdir addr sv =
     (if addr = 0 then Some sv
      else do {
        (vma, s) \<leftarrow> find_vma addr (fst sv);
        case vma of None \<Rightarrow> Some (s, snd sv)
        | Some vma \<Rightarrow>
            do {
              a \<leftarrow> areas s vma;
              v \<leftarrow> kernel_unmap pgdir (va_start a) (vma_length a) (snd sv);
              nr \<leftarrow> va_nr_pages a;
              pgs \<leftarrow> va_pages a;
              assert (unat nr \<le> length pgs);
              ps \<leftarrow> free_up (take (unat nr) pgs) (vps v);
              s \<leftarrow> free_vma vma s;
              Some (s, v\<lparr>vps := ps\<rparr>)
            }
      })"

definition vmalloc_init :: "nat option \<Rightarrow> ptr \<Rightarrow> vmstate \<Rightarrow> (int \<times> vmstate) option" where
  "vmalloc_init new mem s =
     do {
       let s = s\<lparr>fvnodes := fold list_init (map Free_vma [0 ..< Suc MAX_VMA_ORDER]) (fvnodes s),
                 vnodes := list_init Vma_list (vnodes s)\<rparr>;
       vma \<leftarrow> new;
       let v = \<lparr>va_start = VMALLOC_START, va_end = VMALLOC_END, va_free = True, va_pages = None, va_nr_pages = None\<rparr>;
       let order = unat (ilog2 (drop_bit PAGE_SHIFT (vma_length v)));
       assert (order \<le> MAX_VMA_ORDER);
       let s = s\<lparr>areas := (areas s)(vma \<mapsto> v), vnodes := list_insert Vma_list (Vnode vma) (vnodes s),
                 fvnodes := list_insert (Free_vma order) (Fnode vma) (fvnodes s)\<rparr>;
       t \<leftarrow> rb_tree_create mem Map.empty;
       Some (0, s\<lparr>vma_tree := Some t, vma_lock := spinlock_init (vma_lock s)\<rparr>)
     }"

section \<open>Looking up an area never returns\<close>

text \<open>The second \<open>spin_lock\<close> waits for a lock that the function holds itself.\<close>

lemma find_vma_stuck: "find_vma va s = None"
  by (auto simp: find_vma_def lock_vma_def spin_lock_eq bind_eq_None_conv)

section \<open>The areas tile the range\<close>

fun chain :: "(nat \<Rightarrow> vm_area option) \<Rightarrow> nat \<Rightarrow> nat list \<Rightarrow> nat \<Rightarrow> bool" where
  "chain A st [] e \<longleftrightarrow> st = e"
| "chain A st (a # as) e \<longleftrightarrow>
     (\<exists>v. A a = Some v \<and> unat (va_start v) = st \<and> va_start v < va_end v \<and> 4096 dvd unat (va_end v) \<and> chain A (unat (va_end v)) as e)"

lemma chain_append: "chain A st (xs @ ys) e \<longleftrightarrow> (\<exists>m. chain A st xs m \<and> chain A m ys e)"
  by (induction xs arbitrary: st) auto

lemma chain_cong:
  assumes "\<And>a. a \<in> set as \<Longrightarrow> A' a = A a"
  shows "chain A' st as e = chain A st as e"
  using assms by (induction as arbitrary: st) auto

lemma chain_le: "chain A st as e \<Longrightarrow> st \<le> e"
proof (induction as arbitrary: st)
  case (Cons a as)
  then show ?case by (fastforce simp: word_less_nat_alt)
qed simp

lemma chain_member:
  assumes "chain A st as e" "a \<in> set as" "4096 dvd st"
  shows "\<exists>v. A a = Some v \<and> va_start v < va_end v \<and> 4096 dvd unat (va_start v) \<and> 4096 dvd unat (va_end v) \<and>
    st \<le> unat (va_start v) \<and> unat (va_end v) \<le> e"
proof -
  obtain xs ys where "as = xs @ a # ys" using assms(2) by (auto simp: in_set_conv_decomp)
  with assms(1) obtain m where m: "chain A st xs m" "chain A m (a # ys) e" by (auto simp: chain_append)
  have "4096 dvd m" using m(1) assms(3)
  proof (induction xs arbitrary: st)
    case (Cons x xs)
    then show ?case by auto
  qed simp
  with m show ?thesis using chain_le [OF m(1)] chain_le by fastforce
qed

lemma chain_apart:
  assumes "chain A st as e" "a \<in> set as" "b \<in> set as" "a \<noteq> b" "A a = Some v" "A b = Some w"
  shows "unat (va_end v) \<le> unat (va_start w) \<or> unat (va_end w) \<le> unat (va_start v)"
  using assms
proof (induction as arbitrary: st)
  case (Cons x xs)
  have later: "unat (va_end u) \<le> unat (va_start w)" if "A x = Some u" "c \<in> set xs" "A c = Some w" for u c w
  proof -
    have "chain A (unat (va_end u)) xs e" "4096 dvd unat (va_end u)" using Cons.prems(1) that(1) by auto
    then show ?thesis using chain_member [OF _ that(2)] that(3) by fastforce
  qed
  consider "a = x" "b \<in> set xs" | "b = x" "a \<in> set xs" | "a \<in> set xs" "b \<in> set xs" using Cons.prems(2-4) by auto
  then show ?case
  proof cases
    case 1
    then show ?thesis using later [of v b w] Cons.prems by simp
  next
    case 2
    then show ?thesis using later [of w a v] Cons.prems by simp
  next
    case 3
    then show ?thesis using Cons.IH Cons.prems by auto
  qed
qed simp

definition area_order :: "vm_area \<Rightarrow> nat" where
  "area_order v = unat (ilog2 (drop_bit PAGE_SHIFT (vma_length v)))"

definition area_pages :: "vm_area \<Rightarrow> nat" where
  "area_pages v = (unat (va_end v) - unat (va_start v)) div 4096"

lemma area_order_bounds:
  assumes "va_start v < va_end v" "4096 dvd unat (va_start v)" "4096 dvd unat (va_end v)"
  shows "2 ^ area_order v \<le> area_pages v" "area_pages v < 2 ^ Suc (area_order v)" "area_order v \<le> MAX_VMA_ORDER"
    "unat (vma_length v) = 4096 * area_pages v" "0 < area_pages v"
proof -
  have l: "unat (vma_length v) = unat (va_end v) - unat (va_start v)"
    using assms(1) unfolding vma_length_def by (intro unat_sub) (simp add: word_le_nat_alt word_less_nat_alt)
  have lt: "unat (va_start v) < unat (va_end v)" using assms(1) by (simp add: word_less_nat_alt)
  have d: "4096 dvd unat (va_end v) - unat (va_start v)" using assms(2,3) by (intro dvd_diff_nat)
  then show e: "unat (vma_length v) = 4096 * area_pages v" by (simp add: l area_pages_def)
  then show p: "0 < area_pages v" using lt l by (cases "area_pages v") auto
  have u: "unat (drop_bit PAGE_SHIFT (vma_length v)) = area_pages v"
    unfolding unat_drop_bit_eq by (simp add: PAGE_SHIFT_def drop_bit_eq_div e)
  then have "drop_bit PAGE_SHIFT (vma_length v) \<noteq> 0" using p by auto
  note b = ilog2_rounddown_bounds [OF this, unfolded u]
  show "2 ^ area_order v \<le> area_pages v" "area_pages v < 2 ^ Suc (area_order v)" using b by (simp_all add: area_order_def)
  have "4096 * area_pages v < 2 ^ 32" using e unat_lt_u32 [of "vma_length v"] by simp
  then have "area_pages v < 2 ^ 20" by simp
  then have "(2 :: nat) ^ area_order v < 2 ^ 20" using b by (simp add: area_order_def)
  then have "area_order v < 20" by (rule power_less_imp_less_exp [rotated]) simp
  then show "area_order v \<le> MAX_VMA_ORDER" by (simp add: MAX_VMA_ORDER_def)
qed

section \<open>The invariant\<close>

abbreviation vheads :: "fvnode set" where "vheads \<equiv> Free_vma ` {.. MAX_VMA_ORDER}"

text \<open>\<open>ord\<close> is the list on which a free area is; \<open>vm_inv\<close> adds that it is the list of its order.\<close>

definition on_list :: "(nat \<Rightarrow> vm_area option) \<Rightarrow> (nat \<Rightarrow> nat) \<Rightarrow> nat \<Rightarrow> nat set" where
  "on_list A ord i = {a. \<exists>v. A a = Some v \<and> va_free v \<and> ord a = i}"

definition used_spans :: "(nat \<Rightarrow> vm_area option) \<Rightarrow> interval set" where
  "used_spans A = {(lo, up, a). \<exists>v. A a = Some v \<and> \<not> va_free v \<and> lo = unat (va_start v) \<and> up = unat (va_end v) - 1}"

definition vm_core :: "(heap \<Rightarrow> ptr) \<Rightarrow> vmstate \<Rightarrow> nat list \<Rightarrow> (fvnode \<Rightarrow> fvnode list) \<Rightarrow> (nat \<Rightarrow> nat) \<Rightarrow> bool" where
  "vm_core km s as F ord \<longleftrightarrow>
     dlist (vnodes s) Vma_list (map Vnode as) \<and> dom (areas s) = set as \<and>
     chain (areas s) (unat VMALLOC_START) as (unat VMALLOC_END) \<and>
     dlists (fvnodes s) vheads F \<and>
     (\<forall>i \<le> MAX_VMA_ORDER. set (F (Free_vma i)) = Fnode ` on_list (areas s) ord i) \<and>
     (\<forall>a v. areas s a = Some v \<and> va_free v \<longrightarrow> ord a \<le> MAX_VMA_ORDER) \<and>
     (\<exists>t ys. vma_tree s = Some t \<and> rb_repr km t ys \<and> set ys = used_spans (areas s))"

definition vm_inv :: "(heap \<Rightarrow> ptr) \<Rightarrow> vmstate \<Rightarrow> bool" where
  "vm_inv km s \<longleftrightarrow> counter (vma_lock s) = 0 \<and>
     (\<exists>as F ord. vm_core km s as F ord \<and> (\<forall>a v. areas s a = Some v \<and> va_free v \<longrightarrow> ord a = area_order v))"

lemma vm_core_area:
  assumes "vm_core km s as F ord" "areas s a = Some v"
  shows "a \<in> set as" "va_start v < va_end v" "4096 dvd unat (va_start v)" "4096 dvd unat (va_end v)"
    "4096 \<le> unat (va_start v)" "unat (va_end v) \<le> 0xC0000000"
proof -
  show a: "a \<in> set as" using assms by (auto simp: vm_core_def)
  have "chain (areas s) (unat VMALLOC_START) as (unat VMALLOC_END)" using assms(1) by (simp add: vm_core_def)
  from chain_member [OF this a] assms(2)
  show "va_start v < va_end v" "4096 dvd unat (va_start v)" "4096 dvd unat (va_end v)"
    "4096 \<le> unat (va_start v)" "unat (va_end v) \<le> 0xC0000000"
    by (simp_all add: addr_consts)
qed

lemma vm_core_fresh: "vm_core km s as F ord \<Longrightarrow> areas s b = None \<Longrightarrow> Fnode b \<notin> nodes_of vheads F"
  by (auto simp: vm_core_def nodes_of_def on_list_def)

text \<open>A free area is cut in two; both parts are free.\<close>

lemma cut_area_core:
  assumes C: "vm_core km s as F ord" and v: "areas s a = Some v" "va_free v" and b: "areas s b = None"
    and len: "unat len = 4096 * n" "0 < n" "n < area_pages v"
  shows "\<exists>s' as' F'. cut_area a b len s = Some s' \<and> vma_lock s' = vma_lock s \<and>
    vm_core km s' as' F' (ord(b := area_order (v\<lparr>va_start := va_start v + len\<rparr>))) \<and>
    (\<exists>w. areas s' = (areas s)(a \<mapsto> v\<lparr>va_end := va_start v + len\<rparr>, b \<mapsto> w) \<and> va_free w \<and>
      area_order w = area_order (v\<lparr>va_start := va_start v + len\<rparr>)) \<and>
    unat (va_start v + len) = unat (va_start v) + unat len"
proof -
  note A = vm_core_area [OF C v(1)]
  note O = area_order_bounds [OF A(2-4)]
  define e where "e = va_start v + len"
  define w where "w = \<lparr>va_start = e, va_end = va_end v, va_free = True, va_pages = None, va_nr_pages = None\<rparr>"
  have le: "unat (va_start v) \<le> unat (va_end v)" using A(2) by (simp add: word_less_nat_alt)
  have pe: "4096 * area_pages v = unat (va_end v) - unat (va_start v)"
    using O(4) unat_sub [of "va_start v" "va_end v"] le by (simp add: vma_length_def word_le_nat_alt)
  have s1: "unat (va_start v) + unat len < unat (va_end v)" using pe len le by linarith
  then have ue: "unat e = unat (va_start v) + unat len"
    unfolding e_def using unat_lt_u32 [of "va_end v"] by (intro unat_add_lem [THEN iffD1]) simp
  have W: "va_start w < va_end w" "4096 dvd unat (va_start w)" "4096 dvd unat (va_end w)"
    using s1 ue A(3,4) len(1) by (simp_all add: w_def word_less_nat_alt)
  note OW = area_order_bounds [OF W]
  have lt: "va_start v < e" using ue len by (simp add: word_less_nat_alt)
  have ow: "area_order w = area_order (v\<lparr>va_start := e\<rparr>)" by (simp add: w_def area_order_def vma_length_def)
  have ab: "a \<noteq> b" using v(1) b by auto
  obtain xs ys where as: "as = xs @ a # ys" using A(1) by (auto simp: in_set_conv_decomp)
  have bas: "b \<notin> set as" using C b by (auto simp: vm_core_def)
  have dis: "distinct as" using C by (auto simp: vm_core_def dlist_def distinct_map)
  let ?A = "(areas s)(a \<mapsto> v\<lparr>va_end := e\<rparr>, b \<mapsto> w)" and ?q = "Free_vma (area_order w)"
  let ?s = "s\<lparr>areas := ?A, vnodes := list_insert (Vnode a) (Vnode b) (vnodes s), fvnodes := list_insert ?q (Fnode b) (fvnodes s)\<rparr>"
  let ?F = "F(?q := Fnode b # F ?q)" and ?o = "ord(b := area_order w)"
  have "unat (ilog2 (drop_bit PAGE_SHIFT (vma_length w))) = area_order w" by (simp add: area_order_def)
  then have cut: "cut_area a b len s = Some ?s"
    using v(1) OW(3) by (simp add: cut_area_def Let_def flip: e_def w_def)
  have "dlist (vnodes s) Vma_list (map Vnode xs @ Vnode a # map Vnode ys)" using C by (simp add: vm_core_def as)
  from dlist_insert_after [OF this, of "Vnode b"] have vl: "dlist (vnodes ?s) Vma_list (map Vnode (xs @ a # b # ys))"
    using bas by (auto simp: as)
  have dom: "dom ?A = set (xs @ a # b # ys)" using C v(1) by (auto simp: vm_core_def as)
  have ch: "chain ?A (unat VMALLOC_START) (xs @ a # b # ys) (unat VMALLOC_END)"
  proof -
    obtain m where m: "chain (areas s) (unat VMALLOC_START) xs m" "unat (va_start v) = m"
        "chain (areas s) (unat (va_end v)) ys (unat VMALLOC_END)"
      using C v(1) by (auto simp: vm_core_def as chain_append)
    have "chain ?A (unat VMALLOC_START) xs m" "chain ?A (unat (va_end v)) ys (unat VMALLOC_END)"
      using m(1,3) dis bas by (subst chain_cong [where A = "areas s"]; auto simp: as)+
    then show ?thesis using m(2) ab lt W ue A(3) len(1) by (auto simp: chain_append w_def)
  qed
  have fl: "dlists (fvnodes ?s) vheads ?F"
    using dlists_insert [OF _ _ vm_core_fresh [OF C b], of "fvnodes s" ?q] C OW(3) by (simp add: vm_core_def)
  have fs: "set (?F (Free_vma i)) = Fnode ` on_list ?A ?o i" if "i \<le> MAX_VMA_ORDER" for i
  proof -
    have "on_list ?A ?o i = (if i = area_order w then {b} else {}) \<union> on_list (areas s) ord i"
      using v b ab by (auto simp: on_list_def w_def)
    then show ?thesis using C that by (auto simp: vm_core_def)
  qed
  have tr: "used_spans ?A = used_spans (areas s)" using v b by (auto simp: used_spans_def w_def split: if_splits)
  have os: "\<forall>c u. ?A c = Some u \<and> va_free u \<longrightarrow> ?o c \<le> MAX_VMA_ORDER" using C v OW(3) by (auto simp: vm_core_def)
  have "vm_core km ?s (xs @ a # b # ys) ?F ?o"
    unfolding vm_core_def using vl dom ch fl fs tr os C by (simp add: vm_core_def)
  then show ?thesis using cut ow ue unfolding e_def [symmetric]
    by (intro exI [of _ ?s] exI [of _ "xs @ a # b # ys"] exI [of _ ?F]) (auto simp: w_def)
qed

text \<open>A free area is taken off its list and entered in the tree.\<close>

lemma use_area_core:
  assumes C: "vm_core km s as F ord" and v: "areas s a = Some v" "va_free v"
  shows "\<exists>s' F'. use_area km a s = Some s' \<and> vma_lock s' = vma_lock s \<and> vm_core km s' as F' ord \<and>
    areas s' = (areas s)(a \<mapsto> v\<lparr>va_free := False\<rparr>)"
proof -
  note A = vm_core_area [OF C v(1)]
  obtain t ys where t: "vma_tree s = Some t" "rb_repr km t ys"
      "set ys = used_spans (areas s)"
    using C by (auto simp: vm_core_def)
  have lt: "unat (va_start v) < unat (va_end v)" using A(2) by (simp add: word_less_nat_alt)
  then have u1: "unat (va_end v - 1) = unat (va_end v) - 1" by (intro unat_minus_one) auto
  have apart: "fst (snd y) < unat (va_start v) \<or> unat (va_end v - 1) < fst y" if y: "y \<in> set ys" for y
  proof -
    obtain c u where c: "y = (unat (va_start u), unat (va_end u) - 1, c)" "areas s c = Some u" "\<not> va_free u"
      using y t(3) by (auto simp: used_spans_def)
    have "unat (va_end v) \<le> unat (va_start u) \<or> unat (va_end u) \<le> unat (va_start v)"
      using chain_apart [OF _ A(1) vm_core_area(1) [OF C c(2)] _ v(1) c(2)] C v c(2,3) unfolding vm_core_def by force
    then show ?thesis using c(1) u1 lt vm_core_area(2) [OF C c(2)] by (auto simp: word_less_nat_alt)
  qed
  have le: "unat (va_start v) \<le> unat (va_end v - 1)" using u1 lt by linarith
  obtain t' where t': "tree_insert km (Some t) (va_start v) (va_end v - 1) a = Some (Some t')"
      "rb_repr km t' (iv_ins (unat (va_start v)) (unat (va_end v - 1)) a ys)"
    using tree_insert_law [OF t(2)] by blast
  note si = set_iv_ins [OF apart le, of ys a]
  let ?A = "(areas s)(a \<mapsto> v\<lparr>va_free := False\<rparr>)" and ?q = "Free_vma (ord a)"
  let ?F = "F(?q := remove1 (Fnode a) (F ?q))"
  let ?s = "s\<lparr>areas := ?A, fvnodes := list_remove (Fnode a) (fvnodes s), vma_tree := Some t'\<rparr>"
  have oa: "ord a \<le> MAX_VMA_ORDER" using C v by (auto simp: vm_core_def)
  have fa: "Fnode a \<in> set (F ?q)" using C v oa by (auto simp: vm_core_def on_list_def)
  have D: "dlists (fvnodes s) vheads F" using C by (simp add: vm_core_def)
  have fl: "dlists (fvnodes ?s) vheads ?F" using dlists_remove [OF D _ fa] oa by simp
  have "distinct (F ?q)" using dlists_dlist [OF D, of ?q] oa by (simp add: dlist_def)
  then have rm: "set (remove1 (Fnode a) (F ?q)) = set (F ?q) - {Fnode a}" by (rule set_remove1_eq)
  have fs: "set (?F (Free_vma i)) = Fnode ` on_list ?A ord i" if "i \<le> MAX_VMA_ORDER" for i
  proof -
    have "on_list ?A ord i = on_list (areas s) ord i - {a}" by (auto simp: on_list_def)
    moreover have "set (?F (Free_vma i)) = set (F (Free_vma i)) - {Fnode a}"
    proof (cases "i = ord a")
      case False
      then have "a \<notin> on_list (areas s) ord i" by (simp add: on_list_def)
      then show ?thesis using C that False by (auto simp: vm_core_def)
    qed (use rm in simp)
    ultimately show ?thesis using C that by (auto simp: vm_core_def)
  qed
  have tr: "used_spans ?A = insert (unat (va_start v), unat (va_end v) - 1, a) (set ys)"
    unfolding t(3) using v by (auto simp: used_spans_def split: if_splits)
  have ch: "chain ?A st xs e = chain (areas s) st xs e" for st xs e
    using v(1) by (induction xs arbitrary: st) auto
  have us: "use_area km a s = Some ?s" using v(1) t(1) t'(1) by (simp add: use_area_def Let_def)
  have dm: "dom ?A = set as" using C v(1) by (auto simp: vm_core_def)
  have os: "\<forall>c u. ?A c = Some u \<and> va_free u \<longrightarrow> ord c \<le> MAX_VMA_ORDER" using C by (auto simp: vm_core_def)
  have "vm_core km ?s as ?F ord"
    unfolding vm_core_def using C dm ch fl fs os t'(2) si tr u1 by (auto simp: vm_core_def)
  then show ?thesis using us by (intro exI [of _ ?s] exI [of _ ?F]) simp
qed

section \<open>Allocating an area\<close>

lemma vm_core_list:
  assumes "vm_core km s as F ord" "k \<le> MAX_VMA_ORDER"
  shows "dlist (fvnodes s) (Free_vma k) (F (Free_vma k))"
proof -
  have "dlists (fvnodes s) vheads F" using assms(1) by (simp add: vm_core_def)
  then show ?thesis using assms(2) by (intro dlists_dlist) auto
qed

lemma alloc_vma_loop_skip:
  assumes "vm_core km s as F ord" "k \<le> MAX_VMA_ORDER" "F (Free_vma k) = []"
  shows "alloc_vma_loop km' new len k s = alloc_vma_loop km' new len (Suc k) s"
proof -
  have "dlist (fvnodes s) (Free_vma k) []" using vm_core_list [OF assms(1,2)] assms(3) by simp
  then have "list_empty (Free_vma k) (fvnodes s)" by (simp add: dlist_list_empty)
  then show ?thesis using assms(2) by (subst alloc_vma_loop.simps) simp
qed

lemma alloc_vma_loop_head:
  assumes C: "vm_core km s as F ord" and k: "k \<le> MAX_VMA_ORDER" "F (Free_vma k) \<noteq> []"
  shows "\<exists>a. Fnode a \<in> set (F (Free_vma k)) \<and> alloc_vma_loop km' new len k s = take_area km' new len a s"
proof -
  obtain x xs where x: "F (Free_vma k) = x # xs" using k(2) by (cases "F (Free_vma k)") auto
  have d: "dlist (fvnodes s) (Free_vma k) (x # xs)" using vm_core_list [OF C k(1)] x by simp
  have "set (F (Free_vma k)) = Fnode ` on_list (areas s) ord k" using C k(1) by (simp add: vm_core_def)
  then obtain a where a: "x = Fnode a" using x by auto
  have "\<not> list_empty (Free_vma k) (fvnodes s)" "list_next (Free_vma k) (fvnodes s) = Fnode a"
    using d a by (simp_all add: dlist_list_empty dlist_list_next)
  then have "alloc_vma_loop km' new len k s = take_area km' new len a s" using k by (subst alloc_vma_loop.simps) simp
  then show ?thesis using x a by auto
qed

lemma alloc_vma_loop_none:
  assumes C: "vm_core km s as F ord" and "\<forall>i. k \<le> i \<and> i \<le> MAX_VMA_ORDER \<longrightarrow> F (Free_vma i) = []"
  shows "alloc_vma_loop km' new len k s = None"
  using assms(2)
proof (induction "Suc MAX_VMA_ORDER - k" arbitrary: k)
  case 0
  then show ?case by (subst alloc_vma_loop.simps) simp
next
  case (Suc n)
  have k: "k \<le> MAX_VMA_ORDER" using Suc.hyps(2) by simp
  have "alloc_vma_loop km' new len (Suc k) s = None" by (rule Suc.hyps(1)) (use Suc.hyps(2) Suc.prems in auto)
  then show ?case using alloc_vma_loop_skip [OF C k] Suc.prems k by simp
qed

lemma alloc_vma_loop_some:
  assumes C: "vm_core km s as F ord" and "k \<le> j" "j \<le> MAX_VMA_ORDER" "F (Free_vma j) \<noteq> []"
  shows "\<exists>i a. k \<le> i \<and> i \<le> MAX_VMA_ORDER \<and> Fnode a \<in> set (F (Free_vma i)) \<and>
    alloc_vma_loop km' new len k s = take_area km' new len a s"
  using assms(2)
proof (induction "j - k" arbitrary: k)
  case (Suc n)
  show ?case
  proof (cases "F (Free_vma k) = []")
    case True
    have k: "k \<le> MAX_VMA_ORDER" "Suc k \<le> j" "n = j - Suc k" using Suc.hyps(2) assms(3) by simp_all
    show ?thesis
      using Suc.hyps(1) [OF k(3,2)] alloc_vma_loop_skip [OF C k(1) True, of km' new len] Suc_leD by metis
  next
    case False
    then show ?thesis using alloc_vma_loop_head [OF C _ False] Suc.hyps(2) assms(3) by (meson le_refl le_trans Suc.prems)
  qed
next
  case 0
  then have "k = j" by simp
  then show ?case using alloc_vma_loop_head [OF C assms(3,4)] assms(3) by blast
qed

definition used :: "vmstate \<Rightarrow> nat set" where
  "used s = {a. \<exists>v. areas s a = Some v \<and> \<not> va_free v}"

text \<open>Area \<open>a\<close> was not in use before and is in use after, with the length asked for; nothing else in use has changed.\<close>

definition taken :: "nat \<Rightarrow> u32 \<Rightarrow> vmstate \<Rightarrow> vmstate \<Rightarrow> bool" where
  "taken a len s s' \<longleftrightarrow> a \<notin> used s \<and> used s' = insert a (used s) \<and> (\<forall>c \<in> used s. areas s' c = areas s c) \<and>
     (\<exists>w. areas s' a = Some w \<and> unat (va_end w) = unat (va_start w) + unat len)"

definition listed :: "(heap \<Rightarrow> ptr) \<Rightarrow> vmstate \<Rightarrow> bool" where
  "listed km s \<longleftrightarrow> (\<exists>as F ord. vm_core km s as F ord \<and> (\<forall>a v. areas s a = Some v \<and> va_free v \<longrightarrow> ord a = area_order v))"

lemma vm_inv_listed: "vm_inv km s \<longleftrightarrow> counter (vma_lock s) = 0 \<and> listed km s"
  by (simp add: vm_inv_def listed_def)

lemma listedI: "vm_core km s as F ord \<Longrightarrow> \<forall>a v. areas s a = Some v \<and> va_free v \<longrightarrow> ord a = area_order v \<Longrightarrow> listed km s"
  unfolding listed_def by blast

lemma listed_lock [simp]: "listed km (s\<lparr>vma_lock := l\<rparr>) = listed km s"
  by (simp add: listed_def vm_core_def)

text \<open>Taking the area at the head of a list on which all areas are long enough.\<close>

lemma take_area_ok:
  assumes C: "vm_core km s as F ord" and O: "\<forall>a v. areas s a = Some v \<and> va_free v \<longrightarrow> ord a = area_order v"
    and v: "areas s a = Some v" "va_free v" and len: "unat len = 4096 * n" "0 < n" "n \<le> area_pages v"
    and new: "\<forall>b. new = Some b \<longrightarrow> areas s b = None"
  shows "\<exists>r s'. take_area km new len a s = Some (r, s') \<and> vma_lock s' = vma_lock s \<and>
    listed km s' \<and> (case r of None \<Rightarrow> new = None \<and> s' = s | Some c \<Rightarrow> c = a \<and> taken a len s s')"
proof -
  note A = vm_core_area [OF C v(1)]
  note B = area_order_bounds [OF A(2-4)]
  have el: "unat (va_end v) = unat (va_start v) + 4096 * area_pages v"
    using B(4) A(2) unat_sub [of "va_start v" "va_end v"] by (simp add: vma_length_def word_le_nat_alt word_less_nat_alt)
  have small: "4096 * area_pages v + 4096 \<le> 0xC0000000" using el A(5,6) by linarith
  have ge: "va_end v - va_start v \<ge> len" using B(4) len(1,3) by (simp add: word_le_nat_alt flip: vma_length_def)
  have up: "unat (len + PAGE_SIZE) = 4096 * n + 4096"
    using len(1,3) small unat_add_lem [of len PAGE_SIZE] by (simp add: addr_consts)
  have cmp: "vma_length v \<ge> len + PAGE_SIZE \<longleftrightarrow> n < area_pages v" unfolding word_le_nat_alt up B(4) by auto
  show ?thesis
  proof (cases "n < area_pages v")
    case False
    obtain s' F' where s': "use_area km a s = Some s'" "vma_lock s' = vma_lock s" "vm_core km s' as F' ord"
        "areas s' = (areas s)(a \<mapsto> v\<lparr>va_free := False\<rparr>)"
      using use_area_core [OF C v] by blast
    have "n = area_pages v" using False len(3) by simp
    moreover have "\<forall>c w. areas s' c = Some w \<and> va_free w \<longrightarrow> ord c = area_order w" using O s'(4) by auto
    with s'(3) have "listed km s'" by (rule listedI)
    moreover have "used s' = insert a (used s)" "\<forall>c \<in> used s. areas s' c = areas s c" using s'(4) v by (auto simp: used_def)
    ultimately show ?thesis
      using s'(1,2,4) False cmp v ge el len(1)
      by (intro exI [of _ "Some a"] exI [of _ s']) (simp add: take_area_def taken_def, simp add: used_def)
  next
    case True
    show ?thesis
    proof (cases new)
      case None
      then show ?thesis using listedI [OF C O] v ge cmp True by (auto simp: take_area_def)
    next
      case (Some b)
      then have b: "areas s b = None" using new by simp
      let ?o = "ord(b := area_order (v\<lparr>va_start := va_start v + len\<rparr>))"
      obtain s1 as1 F1 w where s1: "cut_area a b len s = Some s1" "vma_lock s1 = vma_lock s" "vm_core km s1 as1 F1 ?o"
          "areas s1 = (areas s)(a \<mapsto> v\<lparr>va_end := va_start v + len\<rparr>, b \<mapsto> w)" "va_free w"
          "area_order w = area_order (v\<lparr>va_start := va_start v + len\<rparr>)"
          "unat (va_start v + len) = unat (va_start v) + unat len"
        using cut_area_core [OF C v b len(1,2) True] by blast
      have ab: "a \<noteq> b" using v(1) b by auto
      have v1: "areas s1 a = Some (v\<lparr>va_end := va_start v + len\<rparr>)" using s1(4) ab by simp
      obtain s' F' where s': "use_area km a s1 = Some s'" "vma_lock s' = vma_lock s1" "vm_core km s' as1 F' ?o"
          "areas s' = (areas s1)(a \<mapsto> (v\<lparr>va_end := va_start v + len\<rparr>)\<lparr>va_free := False\<rparr>)"
        using use_area_core [OF s1(3) v1] v(2) by auto
      have ar: "areas s' = (areas s)(b \<mapsto> w, a \<mapsto> v\<lparr>va_end := va_start v + len, va_free := False\<rparr>)"
        unfolding s'(4) s1(4) using ab by (auto simp: fun_eq_iff)
      have "\<forall>c u. areas s' c = Some u \<and> va_free u \<longrightarrow> ?o c = area_order u" unfolding ar using O s1(6) by auto
      with s'(3) have "listed km s'" by (rule listedI)
      moreover have "used s' = insert a (used s)" "\<forall>c \<in> used s. areas s' c = areas s c"
        unfolding used_def ar using v b s1(5) ab by auto
      ultimately show ?thesis
        using s1(1,2,7) s'(1,2) ar v ge cmp True Some
        by (intro exI [of _ "Some a"] exI [of _ s']) (simp add: take_area_def taken_def, simp add: used_def)
    qed
  qed
qed

lemma pages_of_len:
  fixes len :: u32
  assumes "unat len = 4096 * n"
  shows "unat (of_nat n :: u32) = n" "drop_bit PAGE_SHIFT len = of_nat n"
proof -
  have "4096 * n < 2 ^ 32" using assms unat_lt_u32 [of len] by simp
  then show u: "unat (of_nat n :: u32) = n" by (intro unat_of_nat_u32) simp
  have "unat (drop_bit PAGE_SHIFT len) = n"
    unfolding unat_drop_bit_eq by (simp add: PAGE_SHIFT_def drop_bit_eq_div assms)
  then show "drop_bit PAGE_SHIFT len = of_nat n" using u by (simp add: word_unat_eq_iff)
qed

text \<open>Some list from \<open>k\<close> on has an area exactly if some free area has \<open>2 ^ k\<close> pages.\<close>

lemma free_list_iff:
  assumes C: "vm_core km s as F ord" and O: "\<forall>a v. areas s a = Some v \<and> va_free v \<longrightarrow> ord a = area_order v"
  shows "(\<exists>i. k \<le> i \<and> i \<le> MAX_VMA_ORDER \<and> F (Free_vma i) \<noteq> []) \<longleftrightarrow>
      (\<exists>a v. areas s a = Some v \<and> va_free v \<and> 2 ^ k \<le> area_pages v)" (is "?L = ?R")
proof
  assume ?L
  then obtain i x where i: "k \<le> i" "i \<le> MAX_VMA_ORDER" "x \<in> set (F (Free_vma i))" by (meson list.set_sel(1))
  then obtain a v where a: "areas s a = Some v" "va_free v" "ord a = i" using C by (auto simp: vm_core_def on_list_def)
  have "2 ^ i \<le> area_pages v" using area_order_bounds(1) [OF vm_core_area(2-4) [OF C a(1)]] O a by auto
  then show ?R using a i(1) by (meson le_trans one_le_numeral power_increasing)
next
  assume ?R
  then obtain a v where a: "areas s a = Some v" "va_free v" "2 ^ k \<le> area_pages v" by blast
  note b = area_order_bounds [OF vm_core_area(2-4) [OF C a(1)]]
  have "(2 :: nat) ^ k < 2 ^ Suc (area_order v)" using a(3) b(2) by linarith
  then have "k < Suc (area_order v)" by (rule power_less_imp_less_exp [rotated]) simp
  moreover have "a \<in> on_list (areas s) ord (area_order v)" using a O by (auto simp: on_list_def)
  then have "F (Free_vma (area_order v)) \<noteq> []" using C b(3) by (force simp: vm_core_def)
  ultimately show ?L using b(3) less_Suc_eq_le by blast
qed

definition enough :: "nat \<Rightarrow> vmstate \<Rightarrow> bool" where
  "enough n s \<longleftrightarrow> (\<exists>a v. areas s a = Some v \<and> va_free v \<and> 2 ^ unat (ilog2_roundup (of_nat n)) \<le> area_pages v)"

lemma alloc_vma_loop_ok:
  assumes L: "listed km s" and len: "unat len = 4096 * n" "0 < n" and new: "\<forall>b. new = Some b \<longrightarrow> areas s b = None"
  defines "k \<equiv> unat (ilog2_roundup (of_nat n))"
  shows "if enough n s
    then \<exists>r s'. alloc_vma_loop km new len k s = Some (r, s') \<and> vma_lock s' = vma_lock s \<and> listed km s' \<and>
      (case r of None \<Rightarrow> new = None \<and> s' = s | Some a \<Rightarrow> taken a len s s')
    else alloc_vma_loop km new len k s = None"
proof -
  obtain as F ord where C: "vm_core km s as F ord" and O: "\<forall>a v. areas s a = Some v \<and> va_free v \<longrightarrow> ord a = area_order v"
    using L by (auto simp: listed_def)
  note iff = free_list_iff [OF C O, of k, folded k_def]
  show ?thesis
  proof (cases "enough n s")
    case False
    then have "alloc_vma_loop km new len k s = None"
      using iff unfolding enough_def k_def by (intro alloc_vma_loop_none [OF C]) blast
    then show ?thesis using False by simp
  next
    case True
    then obtain i a where i: "k \<le> i" "i \<le> MAX_VMA_ORDER" "Fnode a \<in> set (F (Free_vma i))"
        "alloc_vma_loop km new len k s = take_area km new len a s"
      using alloc_vma_loop_some [OF C] iff unfolding enough_def k_def by meson
    then obtain v where v: "areas s a = Some v" "va_free v" "ord a = i" using C by (auto simp: vm_core_def on_list_def)
    have "(of_nat n :: u32) \<noteq> 0" using len(2) pages_of_len(1) [OF len(1)] by auto
    then have "n \<le> 2 ^ k" using ilog2_roundup_bounds [of "of_nat n"] pages_of_len(1) [OF len(1)] by (simp add: k_def)
    also have "\<dots> \<le> 2 ^ i" using i(1) by (simp add: power_increasing)
    also have "\<dots> \<le> area_pages v" using area_order_bounds(1) [OF vm_core_area(2-4) [OF C v(1)]] O v by auto
    finally obtain r s' where "take_area km new len a s = Some (r, s')" "vma_lock s' = vma_lock s" "listed km s'"
        "case r of None \<Rightarrow> new = None \<and> s' = s | Some c \<Rightarrow> c = a \<and> taken a len s s'"
      using take_area_ok [OF C O v(1,2) len _ new] by blast
    then show ?thesis using True i(4) by (auto split: option.splits)
  qed
qed

lemma alloc_vma_ok:
  assumes I: "vm_inv km s" and len: "unat len = 4096 * n" "0 < n" and new: "\<forall>b. new = Some b \<longrightarrow> areas s b = None"
  shows "if enough n s
    then \<exists>r s'. alloc_vma km new len s = Some (r, s') \<and> vm_inv km s' \<and> (case r of None \<Rightarrow> new = None \<and> s' = s | Some a \<Rightarrow> taken a len s s')
    else alloc_vma km new len s = None"
proof -
  let ?l = "s\<lparr>vma_lock := (vma_lock s)\<lparr>counter := 1\<rparr>\<rparr>" and ?k = "unat (ilog2_roundup (of_nat n))"
  have lk: "lock_vma s = Some ?l" using I by (simp add: lock_vma_def spin_lock_eq vm_inv_def)
  have eq: "alloc_vma km new len s = do { (vma, s) \<leftarrow> alloc_vma_loop km new len ?k ?l; Some (vma, unlock_vma s) }"
    by (simp add: alloc_vma_def lk pages_of_len(2) [OF len(1)])
  have l: "listed km ?l" using I by (simp add: vm_inv_listed)
  have e: "enough n ?l = enough n s" by (simp add: enough_def)
  have tk: "taken a len s (unlock_vma s') = taken a len ?l s'" for a s'
    by (simp add: taken_def used_def unlock_vma_def)
  have ul: "unlock_vma ?l = s" using I by (simp add: unlock_vma_def spin_unlock_def atomic_set_def vm_inv_def)
  show ?thesis
  proof (cases "enough n s")
    case False
    then show ?thesis using alloc_vma_loop_ok [OF l len] new e eq by simp
  next
    case True
    then obtain r s' where r: "alloc_vma_loop km new len ?k ?l = Some (r, s')" "listed km s'"
        "case r of None \<Rightarrow> new = None \<and> s' = ?l | Some a \<Rightarrow> taken a len ?l s'"
      using alloc_vma_loop_ok [OF l len, of new] new e by (auto simp del: listed_lock)
    have "vm_inv km (unlock_vma s')"
      using r(2) by (simp add: vm_inv_listed unlock_vma_def spin_unlock_def atomic_set_def)
    then show ?thesis using True r eq tk ul by (cases r) auto
  qed
qed

text \<open>Two areas do not overlap.\<close>

lemma areas_apart:
  assumes "vm_inv km s" "areas s a = Some v" "areas s b = Some w" "a \<noteq> b"
  shows "unat (va_end v) \<le> unat (va_start w) \<or> unat (va_end w) \<le> unat (va_start v)"
proof -
  obtain as F ord where C: "vm_core km s as F ord" using assms(1) by (auto simp: vm_inv_def)
  then have "chain (areas s) (unat VMALLOC_START) as (unat VMALLOC_END)" by (simp add: vm_core_def)
  from chain_apart [OF this vm_core_area(1) [OF C assms(2)] vm_core_area(1) [OF C assms(3)] assms(4,2,3)] show ?thesis .
qed

text \<open>After \<open>vmalloc_init\<close> there is one free area.\<close>

definition whole_area :: vm_area where
  "whole_area = \<lparr>va_start = VMALLOC_START, va_end = VMALLOC_END, va_free = True, va_pages = None, va_nr_pages = None\<rparr>"

lemma vmalloc_init_inv:
  assumes "alloc_fresh km" "areas s = Map.empty"
  shows "\<exists>s'. vmalloc_init (Some a) (Some m) s = Some (0, s') \<and> vm_inv km s' \<and> areas s' = [a \<mapsto> whole_area]"
proof -
  have w: "va_start whole_area < va_end whole_area" "4096 dvd unat (va_start whole_area)" "4096 dvd unat (va_end whole_area)"
    by (simp_all add: whole_area_def addr_consts)
  note O = area_order_bounds [OF w]
  let ?q = "Free_vma (area_order whole_area)" and ?F = "(\<lambda>_. [])(Free_vma (area_order whole_area) := [Fnode a])"
  let ?f0 = "fold list_init (map Free_vma [0 ..< Suc MAX_VMA_ORDER]) (fvnodes s)"
  let ?t = "\<lparr>t_heap = Map.empty, t_total = 0, t_root = None\<rparr>"
  let ?s = "s\<lparr>fvnodes := list_insert ?q (Fnode a) ?f0, vnodes := list_insert Vma_list (Vnode a) (list_init Vma_list (vnodes s)),
      areas := [a \<mapsto> whole_area], vma_tree := Some ?t, vma_lock := spinlock_init (vma_lock s)\<rparr>"
  have "unat (ilog2 (drop_bit PAGE_SHIFT (vma_length whole_area))) = area_order whole_area" by (simp add: area_order_def)
  then have r: "vmalloc_init (Some a) (Some m) s = Some (0, ?s)"
    using O(3) assms(2) by (simp add: vmalloc_init_def Let_def rb_tree_create_def flip: whole_area_def)
  have h: "set (map Free_vma [0 ..< Suc MAX_VMA_ORDER]) = vheads" by auto
  have "dlists ?f0 vheads (\<lambda>_. [])" using dlists_fold_init [of "map Free_vma [0 ..< Suc MAX_VMA_ORDER]" "fvnodes s"] unfolding h .
  from dlists_insert [OF this, of ?q "Fnode a"] O(3) have fl: "dlists (fvnodes ?s) vheads ?F" by (auto simp: nodes_of_def)
  have vl: "dlist (vnodes ?s) Vma_list (map Vnode [a])" using dlist_insert [OF dlist_init, of "Vnode a" Vma_list] by simp
  have fs: "set (?F (Free_vma i)) = Fnode ` on_list (areas ?s) (\<lambda>_. area_order whole_area) i" for i
    by (auto simp: on_list_def whole_area_def)
  have t: "rb_repr km ?t []" using assms(1) rb_inv_empty [of 0] by (auto simp: rb_repr_def)
  have sp: "used_spans (areas ?s) = {}" by (auto simp: used_spans_def whole_area_def)
  have ch: "chain (areas ?s) (unat VMALLOC_START) [a] (unat VMALLOC_END)" by (simp add: whole_area_def addr_consts)
  have "vm_core km ?s [a] ?F (\<lambda>_. area_order whole_area)"
    unfolding vm_core_def
  proof (intro conjI)
    show "\<exists>t ys. vma_tree ?s = Some t \<and> rb_repr km t ys \<and> set ys = used_spans (areas ?s)"
      using t sp by (intro exI [of _ ?t] exI [of _ "[]"]) simp
    show "chain (areas ?s) (unat VMALLOC_START) [a] (unat VMALLOC_END)" by (rule ch)
  qed (use vl fl fs O(3) in \<open>simp_all del: upt_Suc\<close>)
  then have "vm_inv km ?s"
    unfolding vm_inv_listed by (intro conjI listedI) (auto simp: spinlock_init_def atomic_set_def)
  then show ?thesis using r by simp
qed

section \<open>Properties\<close>

text \<open>
  C15: \<open>alloc_vma\<close> of a positive number of pages, from a state in which the areas tile the range, the free ones are on the list of
  their order and the others in the tree.  If some free area has at least the number of pages rounded up to a power
  of two it returns and keeps the invariant: a null pointer with nothing changed, which needs \<open>kmalloc\<close> to fail, or an area
  that was not in use, has exactly the length asked for, overlaps no area in use and is now in use, while the areas in
  use before are as they were.  Otherwise the pointer it returns is uninitialised.
\<close>

theorem alloc_vma_spec:
  assumes "vm_inv km s" "unat len = 4096 * n" "0 < n" "\<forall>b. new = Some b \<longrightarrow> areas s b = None"
  shows "if \<exists>a v. areas s a = Some v \<and> va_free v \<and> 2 ^ unat (ilog2_roundup (of_nat n)) \<le> area_pages v
    then \<exists>r s'. alloc_vma km new len s = Some (r, s') \<and> vm_inv km s' \<and>
      (case r of None \<Rightarrow> new = None \<and> s' = s
       | Some a \<Rightarrow> a \<notin> used s \<and> used s' = insert a (used s) \<and> (\<forall>c \<in> used s. areas s' c = areas s c) \<and>
          (\<exists>w. areas s' a = Some w \<and> unat (va_end w) = unat (va_start w) + unat len \<and>
            (\<forall>c u. c \<in> used s \<and> areas s' c = Some u \<longrightarrow>
               unat (va_end u) \<le> unat (va_start w) \<or> unat (va_end w) \<le> unat (va_start u))))
    else alloc_vma km new len s = None"
proof (cases "enough n s")
  case False
  then show ?thesis using alloc_vma_ok [OF assms] by (auto simp: enough_def)
next
  case True
  then obtain r s' where r: "alloc_vma km new len s = Some (r, s')" "vm_inv km s'"
      "case r of None \<Rightarrow> new = None \<and> s' = s | Some a \<Rightarrow> taken a len s s'"
    using alloc_vma_ok [OF assms] by auto
  show ?thesis
  proof (cases r)
    case None
    then show ?thesis using True r unfolding enough_def by auto
  next
    case (Some a)
    then have t: "taken a len s s'" using r(3) by simp
    then obtain w where w: "areas s' a = Some w" "unat (va_end w) = unat (va_start w) + unat len" by (auto simp: taken_def)
    have "\<forall>c u. c \<in> used s \<and> areas s' c = Some u \<longrightarrow> unat (va_end u) \<le> unat (va_start w) \<or> unat (va_end w) \<le> unat (va_start u)"
      using t areas_apart [OF r(2) _ w(1)] by (auto simp: taken_def)
    then show ?thesis
      unfolding if_P [OF True [unfolded enough_def]] using r(1,2) Some t w
      by (intro exI [of _ r] exI [of _ s']) (simp add: taken_def)
  qed
qed

definition vmalloc_bss :: vmstate where
  "vmalloc_bss = \<lparr>areas = Map.empty, vnodes = \<lparr>prev = (\<lambda>_. Vma_list), nxt = (\<lambda>_. Vma_list)\<rparr>,
     fvnodes = \<lparr>prev = (\<lambda>_. Free_vma 0), nxt = (\<lambda>_. Free_vma 0)\<rparr>, vma_tree = None, vma_lock = \<lparr>counter = 0\<rparr>\<rparr>"

theorem alloc_vma_spec_witness:
  "\<exists>s a s' w. vmalloc_init (Some 1) (Some 2) vmalloc_bss = Some (0, s) \<and>
    alloc_vma (\<lambda>h. Some (LEAST a. h a = None)) (Some 5) 0x3000 s = Some (Some a, s') \<and>
    areas s' a = Some w \<and> unat (va_end w) = unat (va_start w) + 0x3000"
proof -
  let ?km = "\<lambda>h :: heap. Some (LEAST a. h a = None)"
  obtain s where s: "vmalloc_init (Some 1) (Some 2) vmalloc_bss = Some (0, s)" "vm_inv ?km s" "areas s = [1 \<mapsto> whole_area]"
    using vmalloc_init_inv [OF least_fresh, of vmalloc_bss 1 2] by (auto simp: vmalloc_bss_def)
  have k: "ilog2_roundup (of_nat 3) = 2" by (simp add: ilog2_roundup_def fls_def)
  have e: "\<exists>a v. areas s a = Some v \<and> va_free v \<and> 2 ^ unat (ilog2_roundup (of_nat 3)) \<le> area_pages v"
    unfolding k s(3) by (intro exI [of _ 1] exI [of _ whole_area]) (simp add: whole_area_def area_pages_def addr_consts)
  note sp = alloc_vma_spec [OF s(2), of "0x3000" 3 "Some 5", unfolded if_P [OF e]]
  obtain r s' where "alloc_vma ?km (Some 5) 0x3000 s = Some (r, s')" "r \<noteq> None"
      "case r of None \<Rightarrow> False | Some a \<Rightarrow> \<exists>w. areas s' a = Some w \<and> unat (va_end w) = unat (va_start w) + 0x3000"
    using sp s(3) by (fastforce split: option.splits)
  then show ?thesis using s(1) by auto
qed

text \<open>
  C38: \<open>vfree\<close> and \<open>vunmap\<close> never return, whatever the state: \<open>find_vma\<close> takes the lock of the areas twice.  Only \<open>vfree\<close> of the null
  pointer returns, and does nothing.
\<close>

theorem vfree_never_returns:
  "vfree pgdir addr sv = (if addr = 0 then Some sv else None) \<and> vunmap pgdir addr sv = None"
  by (simp add: vfree_def vunmap_def find_vma_stuck)

end
