(* ===== verification/Vmap.thy ===== *)
theory Vmap
  imports Vmalloc
begin

unbundle bit_operations_syntax

text \<open>
  Mapping pages at consecutive addresses, \<open>vmap\<close> of \<^verbatim>\<open>mm/vmalloc.c\<close>: the allocation of an area composed with the page tables of
  \<open>Page_Table\<close>, down to the walk of the processor.
\<close>

section \<open>The loop writes a range of entries\<close>

lemma round_down_page_low: "4096 dvd unat x \<Longrightarrow> round_down_page x = x"
  unfolding round_down_page_eq by simp

lemma page_to_phys_aligned: "4096 dvd unat (page_to_phys p)"
proof -
  have "page_to_phys p = push_bit 12 (of_nat p)"
    by (simp add: page_to_phys_def page_to_pfn_def addr_consts push_bit_eq_mult mult.commute)
  then have "unat (page_to_phys p) = (4096 * unat (of_nat p :: u32)) mod 2 ^ 32"
    by (simp add: push_bit_eq_mult unat_word_ariths mult.commute)
  then show ?thesis by (simp add: dvd_mod)
qed

lemma aligned_step: "4096 dvd unat va \<Longrightarrow> 4096 dvd unat (va + PAGE_SIZE)"
  by (simp add: addr_consts unat_word_ariths dvd_mod)

lemma kernel_map_page:
  assumes "4096 dvd unat va"
  shows "kernel_map (page_to_virt pgd) va (page_to_phys p) PAGE_SIZE PTE_W v =
    do {
      (pte, v) \<leftarrow> get_pte (page_to_virt pgd) va v;
      Some (tlb_invalidate (page_to_virt pgd) va (set_word pte (page_to_phys p OR PTE_W OR PTE_P) v))
    }"
proof -
  have "page_count PAGE_SIZE = Suc 0" by (simp add: page_count_def addr_consts)
  moreover have "unat PAGE_SIZE \<le> 0xFFFFF000" by (simp add: addr_consts)
  ultimately show ?thesis
    using page_map_eq(1) [of PAGE_SIZE pgd va "page_to_phys p" PTE_W v] round_down_page_low [OF assms]
      round_down_page_low [OF page_to_phys_aligned] by (simp add: kernel_map_def)
qed

lemma map_pages_range:
  assumes "4096 dvd unat va" "nr \<le> length pgs"
  shows "map_pages (page_to_virt pgd) pgs i nr va v =
    write_range pgd (nr - i) va (\<lambda>k. page_to_phys (pgs ! (i + k)) OR PTE_W OR PTE_P) v"
  using assms
proof (induction "nr - i" arbitrary: i va v)
  case 0
  then show ?case by (subst map_pages.simps) simp
next
  case (Suc n)
  then have i: "i < nr" "n = nr - Suc i" by simp_all
  then have n: "nr - i = Suc (nr - Suc i)" by simp
  have IH: "map_pages (page_to_virt pgd) pgs (Suc i) nr (va + PAGE_SIZE) w =
      write_range pgd (nr - Suc i) (va + PAGE_SIZE) (\<lambda>k. page_to_phys (pgs ! (Suc i + k)) OR PTE_W OR PTE_P) w" for w
    by (rule Suc.hyps(1) [OF i(2) aligned_step [OF Suc.prems(1)] Suc.prems(2)])
  show ?case
    unfolding n using i(1) Suc.prems(2)
    by (subst map_pages.simps) (simp add: kernel_map_page [OF Suc.prems(1)] IH split_def)
qed

section \<open>The pages of an area\<close>

lemma vm_inv_pages:
  assumes "vm_inv km s" "areas s a = Some v"
  shows "vm_inv km (s\<lparr>areas := (areas s)(a \<mapsto> v\<lparr>va_pages := p, va_nr_pages := q\<rparr>)\<rparr>)"
proof -
  let ?A = "(areas s)(a \<mapsto> v\<lparr>va_pages := p, va_nr_pages := q\<rparr>)"
  obtain as F ord where C: "vm_core km s as F ord" "\<forall>a v. areas s a = Some v \<and> va_free v \<longrightarrow> ord a = area_order v"
    using assms(1) by (auto simp: vm_inv_def)
  have ch: "chain ?A st xs e = chain (areas s) st xs e" for st xs e
    using assms(2) by (induction xs arbitrary: st) auto
  have "on_list ?A ord i = on_list (areas s) ord i" for i using assms(2) by (auto simp: on_list_def)
  moreover have "used_spans ?A = used_spans (areas s)" using assms(2) by (auto simp: used_spans_def split: if_splits)
  moreover have "dom ?A = dom (areas s)" using assms(2) by auto
  moreover have "\<forall>c u. ?A c = Some u \<and> va_free u \<longrightarrow> ord c \<le> MAX_VMA_ORDER" using C(1) assms(2) by (auto simp: vm_core_def)
  ultimately have "vm_core km (s\<lparr>areas := ?A\<rparr>) as F ord" using C(1) ch by (simp add: vm_core_def)
  moreover have "area_order (v\<lparr>va_pages := p, va_nr_pages := q\<rparr>) = area_order v" by (simp add: area_order_def vma_length_def)
  then have "\<forall>c u. areas (s\<lparr>areas := ?A\<rparr>) c = Some u \<and> va_free u \<longrightarrow> ord c = area_order u" using C(2) assms(2) by auto
  ultimately have "listed km (s\<lparr>areas := ?A\<rparr>)" by (rule listedI)
  then show ?thesis using assms(1) by (simp add: vm_inv_listed)
qed

text \<open>What the processor finds for an address after the entries of a range of pages are written.\<close>

lemma ranged_translate:
  assumes R: "ranged S sl pgd a n (\<lambda>k. page_to_phys (pgs ! k) OR PTE_W OR PTE_P) v A t"
    and x: "\<not> self_mapped pgd v (unat x div 4096)"
  shows "translate pgd t x =
    (if a \<le> unat x div 4096 \<and> unat x div 4096 < a + n then Some (page_to_phys (pgs ! (unat x div 4096 - a)) + page_offset x)
     else translate pgd v x)"
proof -
  let ?q = "unat x div 4096"
  have "?q < 2 ^ 20" using unat_lt_u32 [of x] by (simp add: less_mult_imp_div_less)
  then have p: "pte_of pgd t ?q = (if a \<le> ?q \<and> ?q < a + n then page_to_phys (pgs ! (?q - a)) OR PTE_W OR PTE_P else pte_of pgd v ?q)"
    using R x by (auto simp: ranged_def)
  have "page_base (page_to_phys k OR PTE_W OR PTE_P) = page_to_phys k" "(page_to_phys k OR PTE_W OR PTE_P) AND PTE_P \<noteq> 0" for k
    using mapped_entry [of PTE_W "page_to_phys k OR PTE_W OR PTE_P" "page_to_phys k" 0] round_down_page_low [OF page_to_phys_aligned]
    by (simp_all add: PTE_W_def)
  then show ?thesis using p by (simp add: translate_def Let_def)
qed

section \<open>Properties\<close>

text \<open>
  C14: \<open>vmap\<close> of some pages, when a free area has at least their number rounded up to a power of two, the allocations of
  the area description and of its tree node succeed and no slot below the kernel maps the directory itself.  It returns the page-aligned
  address of a range that overlaps no area in use before, is now in use with the pages recorded in it, and at
  which the processor finds the given pages one after the other; the areas in use before are as they were, the processor finds
  for every other address what it found before, and areas and page tables are again in a good state.  It fails
  only if, after some of the pages of the new area were mapped, the page allocator has no page left for a page table.
\<close>

theorem vmap_spec:
  assumes "vm_inv km s" "pt_inv S sl pgd v A" "length pgs = nr" "0 < nr" "nr < 2 ^ 20" "enough nr s" "areas s b = None"
    and "\<forall>q < 0xC0000. \<not> self_mapped pgd v q"
  shows "case vmap km (Some b) (page_to_virt pgd) pgs nr (s, v) of
      None \<Rightarrow> \<exists>a s1 w m t. alloc_vma km (Some b) (of_nat nr * PAGE_SIZE) s = Some (Some a, s1) \<and> areas s1 a = Some w \<and>
        m < nr \<and> map_pages (page_to_virt pgd) pgs 0 m (va_start w) v = Some t \<and>
        (\<forall>k \<le> page_MAX_ORDER. list_empty (get_free_list GFP_NORMAL k) (plists (vps t)))
    | Some (r, s', v') \<Rightarrow> \<exists>va. r = Some va \<and> 4096 dvd unat va \<and> 4096 \<le> unat va \<and> unat va + 4096 * nr \<le> 0xC0000000 \<and>
        (\<exists>a w. a \<notin> used s \<and> used s' = insert a (used s) \<and> areas s' a = Some w \<and> va_start w = va \<and>
          unat (va_end w) = unat va + 4096 * nr \<and> va_pages w = Some pgs) \<and>
        (\<forall>c u. c \<in> used s \<and> areas s c = Some u \<longrightarrow>
          areas s' c = Some u \<and> (unat (va_end u) \<le> unat va \<or> unat va + 4096 * nr \<le> unat (va_start u))) \<and>
        vm_inv km s' \<and> (\<exists>A'. A \<subseteq> A' \<and> pt_inv S sl pgd v' A') \<and>
        (\<forall>x. \<not> self_mapped pgd v (unat x div 4096) \<longrightarrow>
          translate pgd v' x =
            (if unat va \<le> unat x \<and> unat x < unat va + 4096 * nr
             then Some (page_to_phys (pgs ! ((unat x - unat va) div 4096)) + page_offset x) else translate pgd v x))"
proof -
  let ?len = "of_nat nr * PAGE_SIZE :: u32" and ?f = "\<lambda>k. page_to_phys (pgs ! k) OR PTE_W OR PTE_P"
  have len: "unat ?len = 4096 * nr"
    using unat_of_nat_u32 [of "4096 * nr"] assms(5) by (simp add: addr_consts mult.commute)
  obtain a s1 w where s1: "alloc_vma km (Some b) ?len s = Some (Some a, s1)" "vm_inv km s1" "areas s1 a = Some w"
      "unat (va_end w) = unat (va_start w) + 4096 * nr" and tk: "taken a ?len s s1"
    using alloc_vma_ok [OF assms(1) len assms(4), of "Some b"] assms(6,7) len by (auto simp: taken_def split: option.splits)
  obtain as F ord where C: "vm_core km s1 as F ord" using s1(2) by (auto simp: vm_inv_def)
  note W = vm_core_area [OF C s1(3)]
  define p where "p = unat (va_start w) div 4096"
  have p: "unat (va_start w) = 4096 * p" "p + nr \<le> 0xC0000" using W(3,6) s1(4) by (auto simp: p_def)
  have ns: "\<forall>q. p \<le> q \<and> q < p + nr \<longrightarrow> \<not> self_mapped pgd v q" using assms(8) p(2) by auto
  note rg = write_range_correct [OF assms(2) _ _ ns, of "va_start w" ?f, simplified p(1)]
  have mp: "map_pages (page_to_virt pgd) pgs 0 m (va_start w) v = write_range pgd m (va_start w) ?f v" if "m \<le> nr" for m
    using map_pages_range [OF W(3), of m pgs pgd 0 v] that assms(3) by simp
  let ?s = "s1\<lparr>areas := (areas s1)(a \<mapsto> w\<lparr>va_pages := Some pgs, va_nr_pages := Some (of_nat nr)\<rparr>)\<rparr>"
  have vm: "vmap km (Some b) (page_to_virt pgd) pgs nr (s, v) =
      do { t \<leftarrow> write_range pgd nr (va_start w) ?f v; Some (Some (va_start w), ?s, t) }"
    using s1(1,3) mp [of nr]
    by (cases "write_range pgd nr (va_start w) ?f v") (simp_all add: vmap_def map_vm_area_def Let_def)
  show ?thesis
  proof (cases "write_range pgd nr (va_start w) ?f v")
    case None
    then obtain m t where "m < nr" "write_range pgd m (va_start w) ?f v = Some t"
        "\<forall>k \<le> page_MAX_ORDER. list_empty (get_free_list GFP_NORMAL k) (plists (vps t))"
      using rg p(2) by auto
    then show ?thesis
      unfolding vm None bind.simps option.case using mp [of m] s1(1,3)
      by (intro exI [of _ a] exI [of _ s1] exI [of _ w] exI [of _ m] exI [of _ t]) simp
  next
    case (Some t)
    then have R: "ranged S sl pgd p nr ?f v A t" using rg p(2) by simp
    have "(p \<le> unat x div 4096 \<and> unat x div 4096 < p + nr) \<longleftrightarrow> (4096 * p \<le> unat x \<and> unat x < 4096 * p + 4096 * nr)"
      "unat x div 4096 - p = (unat x - 4096 * p) div 4096" for x :: u32 by auto
    then have "\<forall>x. \<not> self_mapped pgd v (unat x div 4096) \<longrightarrow> translate pgd t x =
        (if unat (va_start w) \<le> unat x \<and> unat x < unat (va_start w) + 4096 * nr
         then Some (page_to_phys (pgs ! ((unat x - unat (va_start w)) div 4096)) + page_offset x) else translate pgd v x)"
      using ranged_translate [OF R] unfolding p(1) by simp
    moreover have "\<exists>A'. A \<subseteq> A' \<and> pt_inv S sl pgd t A'" using R by (simp add: ranged_def)
    moreover have "\<exists>a' w'. a' \<notin> used s \<and> used ?s = insert a' (used s) \<and> areas ?s a' = Some w' \<and> va_start w' = va_start w \<and>
        unat (va_end w') = unat (va_start w) + 4096 * nr \<and> va_pages w' = Some pgs"
    proof -
      have "used ?s = used s1" using s1(3) by (auto simp: used_def)
      then show ?thesis
        using tk s1(4) by (intro exI [of _ a] exI [of _ "w\<lparr>va_pages := Some pgs, va_nr_pages := Some (of_nat nr)\<rparr>"])
          (simp add: taken_def)
    qed
    moreover have sep: "areas ?s c = Some u \<and> (unat (va_end u) \<le> unat (va_start w) \<or> unat (va_start w) + 4096 * nr \<le> unat (va_start u))"
      if "c \<in> used s" "areas s c = Some u" for c u
    proof -
      have c: "c \<noteq> a" "areas s1 c = Some u" using tk that by (auto simp: taken_def)
      then show ?thesis using areas_apart [OF s1(2) c(2) s1(3) c(1)] s1(4) by auto
    qed
    moreover have "vm_inv km ?s" by (rule vm_inv_pages [OF s1(2,3)])
    moreover have "4096 dvd unat (va_start w)" "4096 \<le> unat (va_start w)" "unat (va_start w) + 4096 * nr \<le> 0xC0000000"
      using W(3,5,6) s1(4) by simp_all
    ultimately show ?thesis
      unfolding vm Some bind.simps option.case prod.case by (intro exI [of _ "va_start w"] conjI) blast+
  qed
qed

theorem vmap_spec_witness:
  "\<exists>ps p qs s va s' v'. add_free_pages 0 4 (page_init (page_bss 1024)) = Some ps \<and> alloc_pages GFP_NORMAL 0 ps = Some (Some p, qs) \<and>
    vmalloc_init (Some 1) (Some 2) vmalloc_bss = Some (0, s) \<and>
    vmap (\<lambda>h. Some (LEAST a. h a = None)) (Some 5) (page_to_virt p) [2] 1 (s, fresh_vm 0 qs) = Some (Some va, s', v') \<and>
    translate p v' va = Some (0x2000 + page_offset va)"
proof -
  let ?km = "\<lambda>h :: heap. Some (LEAST a. h a = None)"
  obtain ps p qs k where b: "add_free_pages 0 4 (page_init (page_bss 1024)) = Some ps"
    "alloc_pages GFP_NORMAL 0 ps = Some (Some p, qs)" "pt_inv {} (\<lambda>_. []) p (fresh_vm 0 qs) {p}"
    "k \<le> page_MAX_ORDER" "\<not> list_empty (get_free_list GFP_NORMAL k) (plists qs)"
    using pt_boot by blast
  obtain s where s: "vmalloc_init (Some 1) (Some 2) vmalloc_bss = Some (0, s)" "vm_inv ?km s" "areas s = [1 \<mapsto> whole_area]"
    using vmalloc_init_inv [OF least_fresh, of vmalloc_bss 1 2] by (auto simp: vmalloc_bss_def)
  have e: "enough 1 s"
    unfolding enough_def s(3) by (intro exI [of _ 1] exI [of _ whole_area])
      (simp add: whole_area_def area_pages_def addr_consts ilog2_roundup_def fls_def)
  have f: "areas s 5 = None" using s(3) by simp
  have n: "\<forall>q < 0xC0000. \<not> self_mapped p (fresh_vm 0 qs) q" by (simp add: self_mapped_def fresh_vm_tab)
  note sp = vmap_spec [OF s(2) b(3) _ _ _ e f n, of "[2]", simplified]
  have z: "map_pages (page_to_virt p) [2] 0 0 va v = Some v" for va v by (subst map_pages.simps) simp
  obtain r s' v' where r: "vmap ?km (Some 5) (page_to_virt p) [2] (Suc 0) (s, fresh_vm 0 qs) = Some (r, s', v')"
    using sp b(4,5) z by (cases "vmap ?km (Some 5) (page_to_virt p) [2] (Suc 0) (s, fresh_vm 0 qs)") auto
  then obtain va where "r = Some va" "translate p v' va = Some (page_to_phys 2 + page_offset va)"
    using sp by (auto simp: self_mapped_def fresh_vm_tab)
  moreover have "page_to_phys 2 = 0x2000" by (simp add: page_to_phys_def page_to_pfn_def addr_consts)
  ultimately show ?thesis using b(1,2) s(1) r by auto
qed

end
