(* ===== verification/Spec2Isabelle.thy ===== *)
theory Spec2Isabelle
  imports Math_Lib X86_Strings Kstrings Rb_Remove Kmalloc_Early Page_Alloc Fifo Queue_Model Vector_Model Gpu Smp Boot Memory_Map
    Resize_Binary Kernel_Log Vmap
begin

text \<open>
  A verification development for \<^emph>\<open>oh-my-os\<close>, a small 32-bit x86 kernel written in C.  All paths below are
  under \<^verbatim>\<open>src/\<close>.

  \<^bold>\<open>The program.\<close>  After the boot loader, \<open>start_kernel\<close> (\<^verbatim>\<open>kernel/init.c\<close>) sets up an early heap on a static buffer
  (\<^verbatim>\<open>mm/kmalloc.c\<close>), the page allocator over the memory that the BIOS reports (\<^verbatim>\<open>mm/page.c\<close>, \<^verbatim>\<open>mm/memory.c\<close>), paging
  (\<^verbatim>\<open>mm/page_table.c\<close>), the slab allocator behind \<open>kmalloc\<close> (\<^verbatim>\<open>mm/slab.c\<close>), the console (\<^verbatim>\<open>kernel/stdio.c\<close>), the file
  tree (\<^verbatim>\<open>fs/fs.c\<close>), the scheduler (\<^verbatim>\<open>schedule/schedule.c\<close>) and the interrupt controllers, and starts a shell.  The
  kernel's own library (\<^verbatim>\<open>libs/\<close> and the inline functions of \<^verbatim>\<open>include/\<close>) supplies lists, red-black trees, queues,
  vectors, strings, bit operations and locks.

  \<^bold>\<open>Conventions.\<close>  Every function of the source is one definition, with the source's name where HOL allows it.
  State is passed explicitly.  A result in the option type is \<open>None\<close> when the execution of the C function
  goes wrong: a failed \<open>assert\<close>, an access outside an object or through a null or freed pointer, a division
  by zero, a shift or signed overflow that C leaves undefined, or a loop that does not end.  An error that
  the function reports is a value inside \<open>Some\<close>.  Hence a theorem that an operation is \<open>Some\<close> states that it
  returns and that none of its assertions fires.  Loops are \<open>fun\<close> or \<open>function\<close> with a termination proof where
  the number of rounds is bounded, and \<open>partial_function (option)\<close> where it depends on the state; no fuel is
  used anywhere.  Machine integers are words of their width, or natural numbers with \<open>wrap32\<close> at the places
  where they can wrap.  Where a component allocates, the result of \<open>kmalloc\<close> is an argument (\<open>alloc\<close>, or the
  new object); where it talks to a device, the device is an argument that answers a read from the trace of
  the accesses before it.  The log messages (\<open>pr_info\<close>, \<open>pr_debug\<close>, \<open>pr_err\<close>) are left out of the operations that
  print them; the function behind them is modelled on its own in Kernel\_Log.

  \<^bold>\<open>Library.\<close>
  \<^item> Prelude: word types, \<open>wrap32\<close>, rounding, \<open>assert\<close>, error numbers (\<^verbatim>\<open>include/types.h\<close>, \<^verbatim>\<open>include/error.h\<close>).
  \<^item> Linked\_List: \<^verbatim>\<open>include/list.h\<close> as assignments to the two pointer functions; \<open>dlist\<close> and \<open>dlists\<close> abstract one
    and several rings, with the effect of every operation on them.
  \<^item> Bitops, Math\_Lib: \<^verbatim>\<open>include/bitops.h\<close>, \<^verbatim>\<open>include/log2.h\<close>, \<^verbatim>\<open>include/math.h\<close>, \<^verbatim>\<open>libs/math.c\<close>; \<open>fls\<close> and the logarithms
    against powers of two, and the 64-bit division macro.
  \<^item> Buffers, Fifo, Queue\_Model, Vector\_Model: \<^verbatim>\<open>libs/fifo.c\<close>, \<^verbatim>\<open>libs/queue.c\<close>, \<^verbatim>\<open>libs/vector.c\<close> on byte buffers.  The
    locale \<open>fifo_buffer\<close> states what a first-in first-out buffer promises and proves that every run of
    operations keeps the order; the fifo and the queue are its interpretations.
  \<^item> Mem\_Strings: the functions of \<^verbatim>\<open>libs/string.c\<close> on a byte-addressed memory.  X86\_Strings: their versions in
    \<^verbatim>\<open>include/x86.h\<close> that use the string instructions, proved equal to them.  Mem\_Fields: little-endian fields of
    structures in that memory.  Kstrings: formatting, parsing and the growing strings of \<^verbatim>\<open>libs/string.c\<close> on
    byte lists.
  \<^item> Rb\_Tree: \<^verbatim>\<open>libs/rb_tree.c\<close> on a heap of nodes.  Rb\_Proofs, Rb\_Map and Rb\_Remove relate the heap to trees in a
    zipper and prove insertion, removal, search, validation and iteration.  The locale \<open>interval_map\<close> is the
    contract of a map of disjoint intervals, interpreted by the pointer tree.  Rb\_Client: that contract as the
    debug symbols and the virtual areas use it, through a pointer that may be null.
  \<^item> Locks: \<^verbatim>\<open>include/atomic.h\<close>, \<^verbatim>\<open>include/lock.h\<close>, \<^verbatim>\<open>libs/lock.c\<close>; the spin lock as run by one processor, and as a step
    relation of any number of processors.

  \<^bold>\<open>Memory.\<close>
  \<^item> Buddy: block structure of a buddy system, and the locale \<open>block_allocator\<close> with the contract of an allocator
    of aligned blocks, from which follows that live blocks never overlap.
  \<^item> Kmalloc\_Early (\<^verbatim>\<open>mm/kmalloc.c\<close>) and Page\_Alloc (\<^verbatim>\<open>mm/page.c\<close>): the two buddy allocators, each an interpretation
    of that locale, from their initialisation on.  \<open>page_run\<close> is every sequence of adding frames, allocating
    from the two zones and freeing.  Freeing does not compare the orders of the buddies, so the contract
    holds for runs in which the buddy of each freed block that is free has its order; what a free does otherwise is
    stated in \<open>early_free_overlap\<close> and \<open>page_free_overlap\<close>.
  \<^item> Addresses: the conversions between frames and addresses.  Slab: \<^verbatim>\<open>mm/slab.c\<close> and the dispatch of \<open>kmalloc\<close> and
    \<open>kfree\<close>, composed with the page allocator; what \<open>vmap\<close> returns for a page of high memory is an argument there.
  \<^item> Page\_Table: \<^verbatim>\<open>mm/page_table.c\<close> on the words of the page tables, composed with the page allocator; \<open>translate\<close> is
    the walk that the processor makes.
  \<^item> Descriptors: the segment descriptors of \<^verbatim>\<open>mm/memory.c\<close> with the registers that \<open>gdt_init\<close> loads, and the
    gates of \<^verbatim>\<open>kernel/irq.c\<close>.  Memory\_Map: the scan of the BIOS memory map and the construction of the page
    directory of the kernel, on the page allocator and the page tables.
  \<^item> Vmalloc: \<^verbatim>\<open>mm/vmalloc.c\<close> on the red-black tree, the lists and the lock.  Vmap: \<open>vmap\<close>, composed with the page tables
    of Page\_Table.

  \<^bold>\<open>Devices and the console.\<close>
  \<^item> Ports: port and memory-mapped accesses, and \<^verbatim>\<open>kernel/pic.c\<close> with a model of the two chips.
  \<^item> Console: \<^verbatim>\<open>kernel/serial.c\<close> and \<^verbatim>\<open>kernel/stdio.c\<close>.  Keyboard: \<^verbatim>\<open>kernel/keyboard.c\<close> and \<open>reboot\<close>; the decoder and its
    tables are compared with a description of the US layout that does not mention them.
  \<^item> Apic: \<^verbatim>\<open>kernel/ioapic.c\<close>, \<^verbatim>\<open>kernel/lapic.c\<close> and the clock.  Timer: \<^verbatim>\<open>kernel/timer.c\<close>.  Interrupts: \<^verbatim>\<open>kernel/irq.c\<close> with
    the initialisation of its clients, on the page tables, the controllers and the keyboard.
  \<^item> Gpu: \<^verbatim>\<open>graphic/\<close>.  Smp: \<^verbatim>\<open>kernel/smp.c\<close>, the tables of the firmware as bytes of memory.
  \<^item> Boot: \<^verbatim>\<open>boot/setup/main.c\<close> and \<^verbatim>\<open>boot/entryother/main.c\<close> with a model of the ATA disk.  Resize\_Binary: the host
    program \<^verbatim>\<open>tools/resize_binary.c\<close>.

  \<^bold>\<open>Threads, files and the log.\<close>
  \<^item> Fs: \<^verbatim>\<open>fs/fs.c\<close> and the commands \<open>cd\<close> and \<open>ls\<close> of \<^verbatim>\<open>usr/fs.c\<close>; objects can be freed and their list nodes then
    not be accessed.
  \<^item> Schedule: the state and the operations of \<^verbatim>\<open>schedule/schedule.c\<close> with \<open>context_switch\<close> of \<^verbatim>\<open>kernel/entry.S\<close>, their
    invariant, and the simulation of an abstract round-robin machine.  Thread\_Life: creation, end, sleep and
    wakeup of threads, composed with the file tree.
  \<^item> Debug: the symbol trees and the call traces of \<^verbatim>\<open>kernel/debug.c\<close>.  Kernel\_Log: its log, composed with the strings
    and the console.

  \<^bold>\<open>What is shown.\<close>  The two buddy allocators, the slab allocator, the virtual areas and the page tables hand
  out what they promise and keep live objects apart; the frames that the scan of the
  memory map gives the page allocator and the addresses that the first page directory maps are stated exactly; the
  boot loader puts the segments of the kernel in place; the tree refines a map; the containers keep order and content; text conversions are
  inverse to each other; the spin lock excludes; every interrupt gate leads the processor to its
  vector; text typed on the keyboard arrives in order; the scheduler runs threads in turn and gives each its own registers.  Where the
  code does not do what it is meant to, the theorem states exactly what happens: blocks that overlap after a
  merge with a buddy of another order, slab objects handed out twice, strings written past their buffer,
  mapping loops and lock operations that never end, directories that can only be removed when empty and so
  threads that cannot end, timers that are not looked at, memory above 4 GB that is taken for the kernel's, and
  wakeups that are lost.

  \<^bold>\<open>Not modelled.\<close>  The assembly in real mode (\<^verbatim>\<open>boot/\<close>) and the trap stubs of \<^verbatim>\<open>kernel/entry.S\<close>; linker scripts.
  \<open>start_kernel\<close>, which calls the initialisations in turn, and \<open>start_secondary\<close>, which does so on the other
  processors.  The assignment to the memory structure of the process in \<open>memory_init\<close>.  The dump files of the
  memory managers, of the processors and of the frame buffer, and the dump of a tree, which only print.  The shell
  loop and the user commands besides \<open>cd\<close> and \<open>ls\<close> (\<^verbatim>\<open>usr/\<close>), which print or call through function pointers of
  files.  Floating-point functions of \<^verbatim>\<open>libs/math.c\<close>.  The release of memory where no operation looks at it again: the
  old buffer in \<open>string_try_expand\<close>, \<open>ksfree\<close> and the destruction of a vector.
\<close>

end
